(* ===== verification/Prelude.thy ===== *)
theory Prelude
  imports Complex_Main "HOL-Library.Log_Nat"
begin

text \<open>
  The prelude of the development: the two lemma collections every component adds to, the
  result type of operations that may fail, C's integer remainder, and powers of two with
  integer exponents, which the floating-point theories and the image theories share.

  \<^item> \<open>act\<close> is the type of an operation on a state: it either fails with an error or returns a
    value and the new state. \<open>retA\<close>, \<open>failA\<close>, \<open>bindA\<close> compose operations in the order the
    code runs them, \<open>for_each\<close> is a counted loop, and \<open>for_each_inv\<close> is its loop rule.
  \<^item> \<open>c_mod\<close>, \<open>c_div\<close> are the remainder (sign of the dividend) and the quotient (truncated) of C.
  \<^item> \<open>pow2\<close> is the power of two with an integer exponent, a rational.
\<close>

named_theorems act_simps "evaluation of composed operations"
named_theorems wf_intros "well-formedness facts every operation keeps"

subsection \<open>Operations that may fail\<close>

type_synonym ('e, 's, 'a) act = "'s \<Rightarrow> 'e + ('a \<times> 's)"

definition retA :: "'a \<Rightarrow> ('e, 's, 'a) act" where
  "retA x = (\<lambda>s. Inr (x, s))"

definition failA :: "'e \<Rightarrow> ('e, 's, 'a) act" where
  "failA e = (\<lambda>s. Inl e)"

definition bindA :: "('e, 's, 'a) act \<Rightarrow> ('a \<Rightarrow> ('e, 's, 'b) act) \<Rightarrow> ('e, 's, 'b) act" where
  "bindA m f = (\<lambda>s. case m s of Inl e \<Rightarrow> Inl e | Inr (x, t) \<Rightarrow> f x t)"

definition thenA :: "('e, 's, 'a) act \<Rightarrow> ('e, 's, 'b) act \<Rightarrow> ('e, 's, 'b) act" where
  "thenA m n = bindA m (\<lambda>_. n)"

definition guardA :: "bool \<Rightarrow> 'e \<Rightarrow> ('e, 's, unit) act" where
  "guardA b e = (if b then retA () else failA e)"

definition liftA :: "'e + 'a \<Rightarrow> ('e, 's, 'a) act" where
  "liftA r = (case r of Inl e \<Rightarrow> failA e | Inr x \<Rightarrow> retA x)"

lemma retA_apply [act_simps, simp]: "retA x s = Inr (x, s)"
  by (simp add: retA_def)

lemma failA_apply [act_simps, simp]: "failA e s = Inl e"
  by (simp add: failA_def)

lemma bindA_Inr [act_simps, simp]: "m s = Inr (x, t) \<Longrightarrow> bindA m f s = f x t"
  by (simp add: bindA_def)

lemma bindA_Inl [act_simps, simp]: "m s = Inl e \<Longrightarrow> bindA m f s = Inl e"
  by (simp add: bindA_def)

lemma thenA_Inr [act_simps, simp]: "m s = Inr (x, t) \<Longrightarrow> thenA m n s = n t"
  by (simp add: thenA_def)

lemma thenA_Inl [act_simps, simp]: "m s = Inl e \<Longrightarrow> thenA m n s = Inl e"
  by (simp add: thenA_def)

lemma guardA_True [act_simps, simp]: "guardA True e s = Inr ((), s)"
  by (simp add: guardA_def)

lemma guardA_False [act_simps, simp]: "guardA False e s = Inl e"
  by (simp add: guardA_def)

lemma liftA_Inr [act_simps, simp]: "liftA (Inr x) s = Inr (x, s)"
  by (simp add: liftA_def)

lemma liftA_Inl [act_simps, simp]: "liftA (Inl e) s = Inl e"
  by (simp add: liftA_def)

lemma bindA_InrE:
  assumes "bindA m f s = Inr (y, u)"
  obtains x t where "m s = Inr (x, t)" and "f x t = Inr (y, u)"
  using assms by (auto simp: bindA_def split: sum.splits prod.splits)

lemma thenA_InrE:
  assumes "thenA m n s = Inr (y, u)"
  obtains x t where "m s = Inr (x, t)" and "n t = Inr (y, u)"
  using assms unfolding thenA_def by (rule bindA_InrE)

subsection \<open>Counted loops\<close>

fun for_each :: "'i list \<Rightarrow> ('i \<Rightarrow> ('e, 's, unit) act) \<Rightarrow> ('e, 's, unit) act" where
  "for_each [] f s = Inr ((), s)"
| "for_each (i # is) f s = (case f i s of Inl e \<Rightarrow> Inl e | Inr (_, t) \<Rightarrow> for_each is f t)"

lemma for_each_append:
  "for_each (xs @ ys) f s =
     (case for_each xs f s of Inl e \<Rightarrow> Inl e | Inr (_, t) \<Rightarrow> for_each ys f t)"
  by (induction xs arbitrary: s) (auto split: sum.splits)

text \<open>The loop rule: an invariant indexed by the number of rounds done.\<close>

lemma for_each_inv:
  assumes init: "P 0 s"
    and step: "\<And>k t. k < n \<Longrightarrow> P k t \<Longrightarrow> \<exists>t'. f k t = Inr ((), t') \<and> P (Suc k) t'"
  shows "\<exists>t. for_each [0..<n] f s = Inr ((), t) \<and> P n t"
  using step
proof (induction n)
  case 0
  then show ?case using init by simp
next
  case (Suc n)
  from Suc obtain t where t: "for_each [0..<n] f s = Inr ((), t)" "P n t"
    by (meson less_SucI)
  from Suc.prems[of n t] t(2) obtain t' where "f n t = Inr ((), t')" "P (Suc n) t'"
    by auto
  with t(1) show ?case by (auto simp: for_each_append)
qed

text \<open>A loop whose first failing round is known fails with that round's error.\<close>

lemma for_each_fails:
  assumes "for_each xs f s = Inr ((), t)" and "f i t = Inl e"
  shows "for_each (xs @ i # ys) f s = Inl e"
  using assms by (simp add: for_each_append)

text \<open>A loop that carries a value from round to round.\<close>

fun fold_each :: "('i \<Rightarrow> 'b \<Rightarrow> ('e, 's, 'b) act) \<Rightarrow> 'i list \<Rightarrow> 'b \<Rightarrow> ('e, 's, 'b) act" where
  "fold_each f [] x = retA x"
| "fold_each f (i # is) x = bindA (f i x) (fold_each f is)"

lemma fold_each_append:
  "fold_each f (xs @ ys) x s = (case fold_each f xs x s of Inl e \<Rightarrow> Inl e | Inr (y, t) \<Rightarrow> fold_each f ys y t)"
  by (induction xs arbitrary: x s) (auto simp: bindA_def split: sum.splits prod.splits)

lemma fold_each_inv:
  assumes init: "P 0 x s"
    and step: "\<And>k y t. k < n \<Longrightarrow> P k y t \<Longrightarrow> \<exists>z t'. f k y t = Inr (z, t') \<and> P (Suc k) z t'"
  shows "\<exists>y t. fold_each f [0..<n] x s = Inr (y, t) \<and> P n y t"
  using step
proof (induction n)
  case 0
  then show ?case using init by simp
next
  case (Suc n)
  from Suc obtain y t where t: "fold_each f [0..<n] x s = Inr (y, t)" "P n y t"
    by (meson less_SucI)
  from Suc.prems[of n y t] t(2) obtain z t' where "f n y t = Inr (z, t')" "P (Suc n) z t'"
    by auto
  with t(1) show ?case by (auto simp: fold_each_append)
qed

text \<open>Values that may be errors, without a state.\<close>

definition bindE :: "'e + 'a \<Rightarrow> ('a \<Rightarrow> 'e + 'b) \<Rightarrow> 'e + 'b" where
  "bindE r f = (case r of Inl e \<Rightarrow> Inl e | Inr x \<Rightarrow> f x)"

lemma bindE_InrE:
  assumes "bindE r f = Inr y"
  obtains x where "r = Inr x" and "f x = Inr y"
  using assms by (auto simp: bindE_def split: sum.splits)

lemma bindE_simps [simp]: "bindE (Inr x) f = f x" "bindE (Inl e) f = Inl e"
  by (simp_all add: bindE_def)

subsection \<open>Blocks of a list\<close>

text \<open>An element of a list made of blocks of one length.\<close>

lemma concat_block_nth:
  assumes "\<And>j. j < m \<Longrightarrow> length (f j) = n" and "j < m" and "c < n"
  shows "concat (map f [0..<m]) ! (j * n + c) = f j ! c"
  using assms
proof (induction m)
  case (Suc m)
  have "length (concat (map f [0..<m])) = sum_list (map (\<lambda>j. length (f j)) [0..<m])"
    by (simp add: length_concat comp_def)
  also have "map (\<lambda>j. length (f j)) [0..<m] = map (\<lambda>j. n) [0..<m]" using Suc.prems(1) by simp
  finally have len: "length (concat (map f [0..<m])) = m * n" by (simp add: sum_list_triv)
  show ?case
  proof (cases "j = m")
    case True
    then show ?thesis using len by (simp add: nth_append)
  next
    case False
    then have j: "j < m" using Suc.prems(2) by simp
    have "(j + 1) * n \<le> m * n" using j by (intro mult_le_mono1) simp
    then have "j * n + c < m * n" using Suc.prems(3) by simp
    then show ?thesis using Suc.IH[OF _ j Suc.prems(3)] Suc.prems(1) len by (simp add: nth_append)
  qed
qed simp

subsection \<open>The remainder and the quotient of C\<close>

definition c_mod :: "int \<Rightarrow> int \<Rightarrow> int" where
  "c_mod a b = sgn a * (\<bar>a\<bar> mod \<bar>b\<bar>)"

definition c_div :: "int \<Rightarrow> int \<Rightarrow> int" where
  "c_div a b = sgn a * sgn b * (\<bar>a\<bar> div \<bar>b\<bar>)"

lemma c_div_even: "even e \<Longrightarrow> c_div e 2 = e div 2"
  by (elim evenE) (simp add: c_div_def abs_mult sgn_if)

lemma c_mod_abs_less: "b \<noteq> 0 \<Longrightarrow> \<bar>c_mod a b\<bar> < \<bar>b\<bar>"
  by (auto simp: c_mod_def abs_mult sgn_if)

text \<open>The idiom \<open>r = x % w; if (r < 0) r += w;\<close> of the code computes the mathematical residue.\<close>

lemma c_mod_fix:
  assumes "0 < w"
  shows "(if c_mod x w < 0 then c_mod x w + w else c_mod x w) = x mod w"
proof (cases "x < 0")
  case True
  then have c: "c_mod x w = - ((- x) mod w)"
    using assms by (simp add: c_mod_def sgn_if)
  show ?thesis
  proof (cases "(- x) mod w = 0")
    case True
    then have "x mod w = 0" by (simp add: zmod_zminus1_not_zero mod_eq_0_iff_dvd)
    with True c show ?thesis by simp
  next
    case False
    have "0 \<le> (- x) mod w" using assms by simp
    with False have "0 < (- x) mod w" by simp
    moreover have "x mod w = w - (- x) mod w"
      using zmod_zminus1_eq_if[of "- x" w] False by simp
    ultimately show ?thesis using c by simp
  qed
next
  case False
  then have "c_mod x w = x mod w"
    using assms by (auto simp: c_mod_def sgn_if)
  moreover have "0 \<le> x mod w" using assms by simp
  ultimately show ?thesis by simp
qed

subsection \<open>Powers of two with an integer exponent\<close>

definition pow2 :: "int \<Rightarrow> rat" where
  "pow2 e = 2 powi e"

lemma pow2_pos [simp]: "0 < pow2 e"
  by (simp add: pow2_def)

lemma pow2_nz [simp]: "pow2 e \<noteq> 0"
  by (simp add: pow2_def)

lemma pow2_nonneg [simp]: "0 \<le> pow2 e"
  using pow2_pos[of e] by linarith

lemma pow2_0 [simp]: "pow2 0 = 1"
  by (simp add: pow2_def)

lemma pow2_1 [simp]: "pow2 1 = 2"
  by (simp add: pow2_def)

lemma pow2_add: "pow2 (a + b) = pow2 a * pow2 b"
  by (simp add: pow2_def power_int_add)

lemma pow2_diff: "pow2 (a - b) = pow2 a / pow2 b"
  by (simp add: pow2_def power_int_diff)

lemma pow2_minus: "pow2 (- a) = 1 / pow2 a"
  by (simp add: pow2_def power_int_minus inverse_eq_divide)

lemma pow2_Suc: "pow2 (a + 1) = 2 * pow2 a"
  by (simp add: pow2_add)

lemma pow2_nat: "0 \<le> e \<Longrightarrow> pow2 e = of_int (2 ^ nat e)"
  by (simp add: pow2_def power_int_def)

lemma pow2_mono: "a \<le> b \<Longrightarrow> pow2 a \<le> pow2 b"
  by (simp add: pow2_def power_int_increasing)

lemma pow2_strict: "a < b \<Longrightarrow> pow2 a < pow2 b"
  by (simp add: pow2_def power_int_strict_increasing)

lemma pow2_le_iff [simp]: "pow2 a \<le> pow2 b \<longleftrightarrow> a \<le> b"
  by (meson linorder_not_le pow2_mono pow2_strict)

lemma pow2_less_iff [simp]: "pow2 a < pow2 b \<longleftrightarrow> a < b"
  by (meson linorder_not_le pow2_mono pow2_strict)

lemma pow2_eq_iff [simp]: "pow2 a = pow2 b \<longleftrightarrow> a = b"
  by (metis order_antisym order_refl pow2_le_iff)

lemma pow2_dvd: "0 \<le> a \<Longrightarrow> \<exists>n::int. pow2 a = of_int n"
  using pow2_nat by blast

end
