(* ===== verification/Fp.thy ===== *)
theory Fp
  imports Prelude
begin

text \<open>
  The binary floating-point numbers of C++ (\<open>float\<close>, \<open>double\<close>), with round to nearest, ties to
  even, as IEEE 754 and the compilers for the target define them. A value is a rational, an
  infinity or NaN; the two zeros are one value \<open>Fin 0\<close> (nothing the code computes tells them
  apart: its divisors are sums of squares, which are never \<open>-0\<close>, and it prints no zero's sign).
  Every operation is executable, the square root included.

  \<^item> \<open>ilog2\<close>, \<open>rne\<close>, \<open>rnd\<close>: the exponent of a rational, rounding to an integer, rounding to a format.
  \<^item> \<open>fadd\<close> \<dots> \<open>fsqrt\<close>, \<open>feq\<close>, \<open>flt\<close>, \<open>fle\<close>: arithmetic and C's comparisons.
  \<^item> \<open>frexp\<close>, \<open>ldexp\<close>, \<open>fcast\<close>, \<open>f2i\<close>: the library functions and casts the code uses.
  \<^item> the locale \<open>ieee\<close> states what is proved of rounding once for both formats.
\<close>

subsection \<open>Exponent and rounding to an integer\<close>

definition ilog2 :: "rat \<Rightarrow> int" where
  "ilog2 x = (if 1 \<le> x then bitlen \<lfloor>x\<rfloor> - 1 else - bitlen (\<lceil>1 / x\<rceil> - 1))"

lemma ilog2_bounds:
  assumes "0 < x"
  shows "pow2 (ilog2 x) \<le> x \<and> x < pow2 (ilog2 x + 1)"
proof (cases "1 \<le> x")
  case True
  define n where "n = \<lfloor>x\<rfloor>"
  define b where "b = bitlen n"
  have n: "0 < n" using True by (simp add: n_def)
  have b0: "0 < b" using n bitlen_nonneg[of n] bitlen_eq_zero_iff[of n] by (simp add: b_def less_le)
  have bb: "2 ^ nat (b - 1) \<le> n" "n < 2 ^ nat b"
    using bitlen_bounds[OF n] by (auto simp: b_def)
  have "pow2 (b - 1) = of_int (2 ^ nat (b - 1))" using b0 by (simp add: pow2_nat)
  also have "\<dots> \<le> of_int n" using bb(1) by (rule of_int_le_iff[THEN iffD2])
  also have "\<dots> \<le> x" by (simp add: n_def)
  finally have 1: "pow2 (b - 1) \<le> x" .
  have "x < of_int (n + 1)" unfolding n_def by linarith
  also have "\<dots> \<le> of_int (2 ^ nat b)" using bb(2) by (intro of_int_le_iff[THEN iffD2]) simp
  also have "\<dots> = pow2 b" using b0 by (simp add: pow2_nat)
  finally show ?thesis using 1 True by (simp add: ilog2_def n_def b_def)
next
  case False
  define n where "n = \<lceil>1 / x\<rceil> - 1"
  define b where "b = bitlen n"
  have "1 < 1 / x" using False assms by simp
  then have n: "0 < n" by (simp add: n_def)
  have b0: "0 < b" using n bitlen_nonneg[of n] bitlen_eq_zero_iff[of n] by (simp add: b_def less_le)
  have bb: "2 ^ nat (b - 1) \<le> n" "n < 2 ^ nat b"
    using bitlen_bounds[OF n] by (auto simp: b_def)
  have "1 / x \<le> of_int (n + 1)" unfolding n_def by linarith
  also have "\<dots> \<le> of_int (2 ^ nat b)" using bb(2) by (intro of_int_le_iff[THEN iffD2]) simp
  also have "\<dots> = pow2 b" using b0 by (simp add: pow2_nat)
  finally have "1 / pow2 b \<le> x" using assms by (simp add: field_simps)
  then have 1: "pow2 (- b) \<le> x" by (simp add: pow2_minus)
  have "pow2 (b - 1) = of_int (2 ^ nat (b - 1))" using b0 by (simp add: pow2_nat)
  also have "\<dots> \<le> of_int n" using bb(1) by (rule of_int_le_iff[THEN iffD2])
  also have "\<dots> < 1 / x" unfolding n_def by linarith
  finally have "x < 1 / pow2 (b - 1)" using assms by (simp add: field_simps)
  then have "x < pow2 (- b + 1)" using pow2_minus[of "b - 1"] by simp
  with 1 show ?thesis using False by (simp add: ilog2_def n_def b_def)
qed

lemma ilog2_unique:
  assumes "pow2 k \<le> x" and "x < pow2 (k + 1)"
  shows "ilog2 x = k"
proof -
  have "0 < x" using assms(1) pow2_pos[of k] by linarith
  from ilog2_bounds[OF this] have "pow2 (ilog2 x) < pow2 (k + 1)" "pow2 k < pow2 (ilog2 x + 1)"
    using assms by linarith+
  then show ?thesis by simp
qed

lemma ilog2_scale: "0 < x \<Longrightarrow> ilog2 (x * pow2 k) = ilog2 x + k"
  using ilog2_bounds[of x] by (intro ilog2_unique) (simp_all add: pow2_add ac_simps)

definition rne :: "rat \<Rightarrow> int" where
  "rne x = (let n = \<lfloor>x\<rfloor>; d = x - of_int n in
     if d < 1 / 2 then n else if 1 / 2 < d then n + 1 else if even n then n else n + 1)"

lemma rne_floor: "\<lfloor>x\<rfloor> \<le> rne x \<and> rne x \<le> \<lfloor>x\<rfloor> + 1"
  by (simp add: rne_def Let_def)

lemma rne_of_int [simp]: "rne (of_int n) = n"
  by (simp add: rne_def)

lemma rne_err: "\<bar>of_int (rne x) - x\<bar> \<le> 1 / 2"
proof -
  have "of_int \<lfloor>x\<rfloor> \<le> x" "x < of_int \<lfloor>x\<rfloor> + 1" by linarith+
  then show ?thesis by (auto simp: rne_def Let_def abs_le_iff)
qed

lemma rne_mono: "x \<le> y \<Longrightarrow> rne x \<le> rne y"
proof -
  assume xy: "x \<le> y"
  then have f: "\<lfloor>x\<rfloor> \<le> \<lfloor>y\<rfloor>" by (rule floor_mono)
  show ?thesis
  proof (cases "\<lfloor>x\<rfloor> = \<lfloor>y\<rfloor>")
    case True
    then show ?thesis using xy by (auto simp: rne_def Let_def)
  next
    case False
    with f have "\<lfloor>x\<rfloor> + 1 \<le> \<lfloor>y\<rfloor>" by simp
    then show ?thesis using rne_floor[of x] rne_floor[of y] by linarith
  qed
qed

lemma rne_le: "x \<le> of_int n \<Longrightarrow> rne x \<le> n"
  using rne_mono[of x "of_int n"] by simp

lemma rne_ge: "of_int n \<le> x \<Longrightarrow> n \<le> rne x"
  using rne_mono[of "of_int n" x] by simp

lemma rne_gt_half:
  assumes "of_int n - 1 / 2 < x"
  shows "n \<le> rne x"
proof -
  have "x - 1 / 2 \<le> of_int (rne x)" using rne_err[of x] by linarith
  then have "of_int (n - 1) < (of_int (rne x) :: rat)" using assms by simp
  then have "n - 1 < rne x" by (simp only: of_int_less_iff)
  then show ?thesis by simp
qed

lemma rne_tie: "rne (of_int n + 1 / 2) = (if even n then n else n + 1)"
proof -
  have "\<lfloor>of_int n + 1 / 2 :: rat\<rfloor> = n" by linarith
  then show ?thesis by (simp add: rne_def Let_def)
qed

lemma rne_half_odd: "odd m \<Longrightarrow> rne (of_int m / 2) = (if even (m div 2) then m div 2 else m div 2 + 1)"
proof -
  assume "odd m"
  then obtain k where m: "m = 2 * k + 1" by (elim oddE)
  then have "of_int m / 2 = (of_int k + 1 / 2 :: rat)" by (simp add: add_divide_distrib)
  then have "rne (of_int m / 2) = (if even k then k else k + 1)" by (simp only: rne_tie)
  then show ?thesis using m by simp
qed

lemma rne_half_even: "even m \<Longrightarrow> rne (of_int m / 2) = m div 2"
  by (elim evenE) simp

lemma rne_neg: "rne (- x) = - rne x"
proof (cases "x = of_int \<lfloor>x\<rfloor>")
  case True
  then have "- x = of_int (- \<lfloor>x\<rfloor>)" by simp
  then show ?thesis using True rne_of_int by metis
next
  case False
  then have "\<lfloor>- x\<rfloor> = - \<lfloor>x\<rfloor> - 1" by linarith
  then show ?thesis by (auto simp: rne_def Let_def)
qed

subsection \<open>Formats and rounding to a format\<close>

record fmt =
  prec :: nat
  emin :: int
  emax :: int

definition binary64 :: fmt where
  "binary64 = \<lparr>prec = 53, emin = - 1022, emax = 1023\<rparr>"

definition binary32 :: fmt where
  "binary32 = \<lparr>prec = 24, emin = - 126, emax = 127\<rparr>"

lemma binary64_sel [simp]: "prec binary64 = 53" "emin binary64 = - 1022" "emax binary64 = 1023"
  by (simp_all add: binary64_def)

lemma binary32_sel [simp]: "prec binary32 = 24" "emin binary32 = - 126" "emax binary32 = 127"
  by (simp_all add: binary32_def)

datatype fp = Fin rat | Inf bool | NaN

text \<open>\<open>Inf True\<close> is the negative infinity.\<close>

definition ulp_exp :: "fmt \<Rightarrow> rat \<Rightarrow> int" where
  "ulp_exp f x = max (ilog2 \<bar>x\<bar>) (emin f) - (int (prec f) - 1)"

definition rnd :: "fmt \<Rightarrow> rat \<Rightarrow> fp" where
  "rnd f x = (if x = 0 then Fin 0
     else let e = ulp_exp f x; v = of_int (rne (x / pow2 e)) * pow2 e
          in if pow2 (emax f + 1) \<le> \<bar>v\<bar> then Inf (x < 0) else Fin v)"

text \<open>The values of a format: what rounding leaves alone.\<close>

definition representable :: "fmt \<Rightarrow> rat \<Rightarrow> bool" where
  "representable f x \<longleftrightarrow> rnd f x = Fin x"

fun fp_ok :: "fmt \<Rightarrow> fp \<Rightarrow> bool" where
  "fp_ok f (Fin x) = representable f x"
| "fp_ok f (Inf _) = True"
| "fp_ok f NaN = True"

subsection \<open>Arithmetic and comparisons\<close>

fun fneg :: "fp \<Rightarrow> fp" where
  "fneg (Fin a) = Fin (- a)"
| "fneg (Inf s) = Inf (\<not> s)"
| "fneg NaN = NaN"

fun fabs :: "fp \<Rightarrow> fp" where
  "fabs (Fin a) = Fin \<bar>a\<bar>"
| "fabs (Inf _) = Inf False"
| "fabs NaN = NaN"

fun fadd :: "fmt \<Rightarrow> fp \<Rightarrow> fp \<Rightarrow> fp" where
  "fadd f (Fin a) (Fin b) = rnd f (a + b)"
| "fadd f (Inf s) (Inf t) = (if s = t then Inf s else NaN)"
| "fadd f (Inf s) (Fin b) = Inf s"
| "fadd f (Fin a) (Inf t) = Inf t"
| "fadd f NaN b = NaN"
| "fadd f a NaN = NaN"

definition fsub :: "fmt \<Rightarrow> fp \<Rightarrow> fp \<Rightarrow> fp" where
  "fsub f a b = fadd f a (fneg b)"

fun fmul :: "fmt \<Rightarrow> fp \<Rightarrow> fp \<Rightarrow> fp" where
  "fmul f (Fin a) (Fin b) = rnd f (a * b)"
| "fmul f (Inf s) (Inf t) = Inf (s \<noteq> t)"
| "fmul f (Inf s) (Fin b) = (if b = 0 then NaN else Inf (s \<noteq> (b < 0)))"
| "fmul f (Fin a) (Inf t) = (if a = 0 then NaN else Inf (t \<noteq> (a < 0)))"
| "fmul f NaN b = NaN"
| "fmul f a NaN = NaN"

fun fdiv :: "fmt \<Rightarrow> fp \<Rightarrow> fp \<Rightarrow> fp" where
  "fdiv f (Fin a) (Fin b) =
     (if b = 0 then (if a = 0 then NaN else Inf (a < 0)) else rnd f (a / b))"
| "fdiv f (Inf s) (Inf t) = NaN"
| "fdiv f (Inf s) (Fin b) = Inf (s \<noteq> (b < 0))"
| "fdiv f (Fin a) (Inf t) = Fin 0"
| "fdiv f NaN b = NaN"
| "fdiv f a NaN = NaN"

fun feq :: "fp \<Rightarrow> fp \<Rightarrow> bool" where
  "feq (Fin a) (Fin b) = (a = b)"
| "feq (Inf s) (Inf t) = (s = t)"
| "feq _ _ = False"

fun flt :: "fp \<Rightarrow> fp \<Rightarrow> bool" where
  "flt (Fin a) (Fin b) = (a < b)"
| "flt (Inf s) (Inf t) = (s \<and> \<not> t)"
| "flt (Inf s) (Fin b) = s"
| "flt (Fin a) (Inf t) = (\<not> t)"
| "flt _ _ = False"

definition fle :: "fp \<Rightarrow> fp \<Rightarrow> bool" where
  "fle a b \<longleftrightarrow> flt a b \<or> feq a b"

lemma fsub_Fin [simp]: "fsub f (Fin a) (Fin b) = rnd f (a - b)"
  by (simp add: fsub_def)

lemma fsub_NaN [simp]: "fsub f NaN b = NaN"
  by (simp add: fsub_def)

lemma fadd_NaN2 [simp]: "fadd f a NaN = NaN" and fmul_NaN2 [simp]: "fmul f a NaN = NaN"
  and fdiv_NaN2 [simp]: "fdiv f a NaN = NaN"
  by (cases a; simp)+

lemma feq_NaN2 [simp]: "feq a NaN = False" and flt_NaN2 [simp]: "flt a NaN = False"
  by (cases a; simp)+

lemma feq_refl: "feq a a \<longleftrightarrow> a \<noteq> NaN"
  by (cases a) auto

lemma fadd_commute: "fadd f a b = fadd f b a"
  by (cases a; cases b) (simp_all add: add.commute)

lemma fmul_commute: "fmul f a b = fmul f b a"
  by (cases a; cases b) (auto simp: mult.commute)

lemma fneg_fneg [simp]: "fneg (fneg a) = a"
  by (cases a) auto

abbreviation dadd :: "fp \<Rightarrow> fp \<Rightarrow> fp" where "dadd \<equiv> fadd binary64"
abbreviation dsub :: "fp \<Rightarrow> fp \<Rightarrow> fp" where "dsub \<equiv> fsub binary64"
abbreviation dmul :: "fp \<Rightarrow> fp \<Rightarrow> fp" where "dmul \<equiv> fmul binary64"
abbreviation ddiv :: "fp \<Rightarrow> fp \<Rightarrow> fp" where "ddiv \<equiv> fdiv binary64"

subsection \<open>Square root, rounded correctly\<close>

fun isqrt :: "nat \<Rightarrow> nat" where
  "isqrt n = (if n = 0 then 0
     else let r = 2 * isqrt (n div 4) in if (r + 1) * (r + 1) \<le> n then r + 1 else r)"

declare isqrt.simps [simp del]

lemma isqrt_bounds: "isqrt n * isqrt n \<le> n \<and> n < (isqrt n + 1) * (isqrt n + 1)"
proof (induction n rule: isqrt.induct)
  case (1 n)
  show ?case
  proof (cases "n = 0")
    case True
    then show ?thesis by (simp add: isqrt.simps)
  next
    case False
    define q where "q = isqrt (n div 4)"
    from "1.IH"[OF False] have ih: "q * q \<le> n div 4" "n div 4 < (q + 1) * (q + 1)"
      by (simp_all add: q_def)
    have "4 * (q * q) \<le> n" using ih(1) by linarith
    moreover have "n < 4 * ((q + 1) * (q + 1))" using ih(2) by linarith
    ultimately show ?thesis
      using False isqrt.simps[of n] by (auto simp: Let_def algebra_simps q_def[symmetric])
  qed
qed

fun fsqrt :: "fmt \<Rightarrow> fp \<Rightarrow> fp" where
  "fsqrt f (Fin a) = (if a < 0 then NaN else if a = 0 then Fin 0
     else let e = max (ilog2 a div 2) (emin f) - (int (prec f) - 1);
              t = a / pow2 (2 * e);
              m = int (isqrt (nat \<lfloor>t\<rfloor>));
              h = (of_int m + 1 / 2) * (of_int m + 1 / 2)
          in Fin (of_int (if t < h then m else if h < t then m + 1
                          else if even m then m else m + 1) * pow2 e))"
| "fsqrt f (Inf s) = (if s then NaN else Inf False)"
| "fsqrt f NaN = NaN"

subsection \<open>Library functions and casts\<close>

text \<open>
  \<open>frexp\<close> splits a finite positive value into a fraction in \<open>[1/2, 1)\<close> and an exponent. For an
  infinity or NaN it returns its argument and the standard leaves the stored exponent
  unspecified: \<open>u\<close> is that exponent.
\<close>

fun frexp :: "int \<Rightarrow> fp \<Rightarrow> fp \<times> int" where
  "frexp u (Fin x) = (if x = 0 then (Fin 0, 0)
     else let e = ilog2 \<bar>x\<bar> + 1 in (Fin (x / pow2 e), e))"
| "frexp u (Inf s) = (Inf s, u)"
| "frexp u NaN = (NaN, u)"

fun ldexp :: "fmt \<Rightarrow> fp \<Rightarrow> int \<Rightarrow> fp" where
  "ldexp f (Fin x) n = rnd f (x * pow2 n)"
| "ldexp f (Inf s) n = Inf s"
| "ldexp f NaN n = NaN"

text \<open>Conversion to another floating-point format, and to \<open>int\<close> (undefined out of range).\<close>

fun fcast :: "fmt \<Rightarrow> fp \<Rightarrow> fp" where
  "fcast f (Fin x) = rnd f x"
| "fcast f (Inf s) = Inf s"
| "fcast f NaN = NaN"

definition trunc :: "rat \<Rightarrow> int" where
  "trunc x = (if 0 \<le> x then \<lfloor>x\<rfloor> else \<lceil>x\<rceil>)"

fun f2i :: "fp \<Rightarrow> int option" where
  "f2i (Fin x) = (if - (2 ^ 31) \<le> trunc x \<and> trunc x < 2 ^ 31 then Some (trunc x) else None)"
| "f2i _ = None"

subsection \<open>Rounding, for any format\<close>

locale ieee =
  fixes f :: fmt
  assumes prec2: "2 \<le> prec f"
    and emin_emax: "emin f < emax f"
begin

lemma rnd_0: "rnd f 0 = Fin 0"
  by (simp add: rnd_def)

text \<open>Within one binade (its upper end included) rounding is rounding on an even grid.\<close>

lemma rnd_grid:
  assumes k: "emin f \<le> k" "k < emax f" and x: "pow2 k \<le> x" "x \<le> pow2 (k + 1)"
  shows "rnd f x = Fin (of_int (rne (x / pow2 (k - (int (prec f) - 1)))) * pow2 (k - (int (prec f) - 1)))"
proof -
  define p where "p = int (prec f) - 1"
  have p: "1 \<le> p" using prec2 by (simp add: p_def)
  have x0: "0 < x" using x(1) pow2_pos[of k] by linarith
  define n where "n = rne (x / pow2 (k - p))"
  have p2: "pow2 (p + 1) = of_int (2 ^ nat (p + 1))" using p by (intro pow2_nat) simp
  have "x / pow2 (k - p) \<le> pow2 (k + 1) / pow2 (k - p)" using x(2) by (simp add: divide_right_mono)
  also have "\<dots> = pow2 (p + 1)" by (simp add: pow2_diff[symmetric])
  finally have "n \<le> 2 ^ nat (p + 1)" unfolding n_def p2 by (rule rne_le)
  then have "(of_int n :: rat) \<le> pow2 (p + 1)" unfolding p2 by (simp only: of_int_le_iff)
  then have "of_int n * pow2 (k - p) \<le> pow2 (p + 1) * pow2 (k - p)" by (simp add: mult_right_mono)
  also have "\<dots> = pow2 (k + 1)" by (simp add: pow2_add[symmetric])
  also have "\<dots> < pow2 (emax f + 1)" using k by simp
  finally have small: "of_int n * pow2 (k - p) < pow2 (emax f + 1)" .
  have n0: "0 \<le> n" unfolding n_def using x0 by (intro rne_ge) simp
  show ?thesis
  proof (cases "x = pow2 (k + 1)")
    case False
    then have il: "ilog2 x = k" using x by (intro ilog2_unique) auto
    then have "ulp_exp f x = k - p" using x0 k by (simp add: ulp_exp_def p_def)
    then show ?thesis
      using x0 small n0 by (simp add: rnd_def Let_def n_def[symmetric] p_def[symmetric] abs_mult)
  next
    case True
    have il: "ilog2 x = k + 1" using True by (intro ilog2_unique) simp_all
    then have u: "ulp_exp f x = k + 1 - p" using x0 k by (simp add: ulp_exp_def p_def)
    have "x / pow2 (k + 1 - p) = pow2 p" using True by (simp add: pow2_diff[symmetric])
    also have "\<dots> = of_int (2 ^ nat p)" using p by (simp add: pow2_nat)
    finally have r1: "rne (x / pow2 (k + 1 - p)) = 2 ^ nat p" by (metis rne_of_int)
    have "x / pow2 (k - p) = pow2 (p + 1)" using True by (simp add: pow2_diff[symmetric])
    also have "\<dots> = of_int (2 ^ nat (p + 1))" using p by (simp add: pow2_nat)
    finally have r2: "n = 2 ^ nat (p + 1)" unfolding n_def by (metis rne_of_int)
    have v1: "of_int (2 ^ nat p) * pow2 (k + 1 - p) = (pow2 (k + 1) :: rat)"
      using p by (simp add: pow2_nat[symmetric] pow2_add[symmetric] del: of_int_power)
    have v2: "of_int n * pow2 (k - p) = (pow2 (k + 1) :: rat)"
      unfolding r2 using p by (simp add: pow2_nat[symmetric] pow2_add[symmetric] del: of_int_power)
    show ?thesis
      using x0 u r1 v1 v2 k n_def p_def by (simp add: rnd_def Let_def abs_mult)
  qed
qed

lemma rnd_neg: "rnd f (- x) = fneg (rnd f x)"
proof (cases "x = 0")
  case False
  then have "(- x < 0) = (\<not> x < 0)" by auto
  then show ?thesis using False by (simp add: rnd_def ulp_exp_def Let_def rne_neg)
qed (simp add: rnd_def)

lemma rnd_exact:
  assumes x: "x = of_int m * pow2 q" and m: "\<bar>m\<bar> \<le> 2 ^ prec f"
    and q: "emin f - (int (prec f) - 1) \<le> q" and big: "\<bar>x\<bar> < pow2 (emax f + 1)"
  shows "rnd f x = Fin x"
proof (cases "x = 0")
  case True
  then show ?thesis by (simp add: rnd_def)
next
  case False
  define p where "p = int (prec f)"
  define e where "e = ulp_exp f x"
  have e: "e = max (ilog2 \<bar>x\<bar>) (emin f) - (p - 1)" by (simp add: e_def ulp_exp_def p_def)
  have p2: "pow2 p = of_int (2 ^ prec f)" by (simp add: pow2_nat p_def)
  have ax: "\<bar>x\<bar> = of_int \<bar>m\<bar> * pow2 q" using x by (simp add: abs_mult)
  have le: "\<bar>x\<bar> \<le> pow2 (q + p)"
  proof -
    have "(of_int \<bar>m\<bar> :: rat) \<le> of_int (2 ^ prec f)" using m by (simp only: of_int_le_iff)
    then have "of_int \<bar>m\<bar> * pow2 q \<le> pow2 p * pow2 q" unfolding p2 by (rule mult_right_mono) simp
    then show ?thesis using ax by (simp add: pow2_add mult.commute)
  qed
  have il: "pow2 (ilog2 \<bar>x\<bar>) \<le> \<bar>x\<bar>" using ilog2_bounds[of "\<bar>x\<bar>"] False by simp
  have "\<exists>n. x / pow2 e = of_int n"
  proof (cases "e \<le> q")
    case True
    have "x / pow2 e = of_int m * pow2 (q - e)" using x by (simp add: pow2_diff)
    also have "\<dots> = of_int (m * 2 ^ nat (q - e))" using True by (simp add: pow2_nat)
    finally show ?thesis by blast
  next
    case F: False
    then have "q < ilog2 \<bar>x\<bar> - (p - 1)" using q e by (auto simp: p_def)
    moreover have "pow2 (ilog2 \<bar>x\<bar>) \<le> pow2 (q + p)" using il le by (rule order_trans)
    ultimately have i: "ilog2 \<bar>x\<bar> = q + p" by simp
    with il le have xv: "\<bar>x\<bar> = pow2 (q + p)" by simp
    have ev: "e = q + 1" using F e i q by (auto simp: p_def)
    have pp: "0 \<le> p - 1" using prec2 by (simp add: p_def)
    have "\<bar>x\<bar> / pow2 e = pow2 (p - 1)" using xv ev by (simp add: pow2_diff[symmetric])
    then have "\<bar>x\<bar> / pow2 e = of_int (2 ^ nat (p - 1))" using pp by (simp add: pow2_nat)
    then have "x / pow2 e = of_int (2 ^ nat (p - 1)) \<or> x / pow2 e = of_int (- (2 ^ nat (p - 1)))"
      by (cases "x < 0") auto
    then show ?thesis by blast
  qed
  then obtain n where n: "x / pow2 e = of_int n" by blast
  then have "of_int (rne (x / pow2 e)) * pow2 e = x" by (metis nonzero_eq_divide_eq pow2_nz rne_of_int)
  then show ?thesis using big False by (simp add: rnd_def e_def[symmetric] Let_def)
qed

text \<open>Conversely a value of the format is an integer of at most \<open>prec\<close> bits times a power of two.\<close>

lemma representable_form:
  assumes r: "representable f x"
  obtains m q where "x = of_int m * pow2 q" and "\<bar>m\<bar> \<le> 2 ^ prec f"
    and "emin f - (int (prec f) - 1) \<le> q" and "\<bar>x\<bar> < pow2 (emax f + 1)"
proof (cases "x = 0")
  case True
  show ?thesis
    by (rule that[of 0 "emin f"]) (use True prec2 in auto)
next
  case False
  define e where "e = ulp_exp f x"
  define n where "n = rne (x / pow2 e)"
  from r False have xn: "x = of_int n * pow2 e" and big: "\<bar>x\<bar> < pow2 (emax f + 1)"
    by (auto simp: representable_def rnd_def e_def[symmetric] n_def[symmetric] Let_def split: if_splits)
  have e: "ilog2 \<bar>x\<bar> - (int (prec f) - 1) \<le> e" by (simp add: e_def ulp_exp_def)
  have "\<bar>x\<bar> < pow2 (ilog2 \<bar>x\<bar> + 1)" using ilog2_bounds[of "\<bar>x\<bar>"] False by simp
  also have "\<dots> \<le> pow2 (int (prec f) + e)" using e by simp
  finally have "of_int \<bar>n\<bar> * pow2 e < pow2 (int (prec f)) * pow2 e"
    using xn by (simp add: abs_mult pow2_add)
  then have "(of_int \<bar>n\<bar> :: rat) < of_int (2 ^ prec f)" by (simp add: pow2_nat)
  then have "\<bar>n\<bar> \<le> 2 ^ prec f" by (simp only: of_int_less_iff)
  then show ?thesis using that[OF xn _ _ big] by (simp add: e_def ulp_exp_def)
qed

text \<open>Integers of at most \<open>prec\<close> bits are values of the format.\<close>

lemma rnd_of_int:
  assumes m: "\<bar>m\<bar> \<le> 2 ^ prec f" and e: "emin f \<le> 0" and b: "int (prec f) \<le> emax f"
  shows "rnd f (of_int m) = Fin (of_int m)"
proof (rule rnd_exact[where m = m and q = 0])
  show "emin f - (int (prec f) - 1) \<le> 0" using e prec2 by simp
  have "(of_int \<bar>m\<bar> :: rat) \<le> of_int (2 ^ prec f)" using m by (simp only: of_int_le_iff)
  also have "\<dots> = pow2 (int (prec f))" by (simp add: pow2_nat)
  also have "\<dots> < pow2 (emax f + 1)" using b by simp
  finally show "\<bar>of_int m :: rat\<bar> < pow2 (emax f + 1)" by simp
qed (use m in simp_all)

text \<open>Between the smallest normal number and the largest power of two, rounding errs by half a unit of the last place.\<close>

lemma rnd_relative:
  assumes x: "x = 0 \<or> pow2 (emin f) \<le> \<bar>x\<bar>" and big: "\<bar>x\<bar> < pow2 (emax f)"
  obtains y where "rnd f x = Fin y" and "\<bar>y - x\<bar> \<le> \<bar>x\<bar> * pow2 (- int (prec f))"
proof (cases "x = 0")
  case True
  then show ?thesis using that[of 0] by (simp add: rnd_def)
next
  case False
  define p where "p = int (prec f)"
  define e where "e = ulp_exp f x"
  define y where "y = of_int (rne (x / pow2 e)) * pow2 e"
  have b: "pow2 (ilog2 \<bar>x\<bar>) \<le> \<bar>x\<bar>" "\<bar>x\<bar> < pow2 (ilog2 \<bar>x\<bar> + 1)" using ilog2_bounds[of "\<bar>x\<bar>"] False by simp_all
  have "pow2 (emin f) < pow2 (ilog2 \<bar>x\<bar> + 1)" using x False b(2) by linarith
  then have e: "e = ilog2 \<bar>x\<bar> + 1 - p" by (simp add: e_def ulp_exp_def p_def)
  have "y - x = (of_int (rne (x / pow2 e)) - x / pow2 e) * pow2 e" by (simp add: y_def left_diff_distrib)
  then have "\<bar>y - x\<bar> \<le> 1 / 2 * pow2 e" using rne_err[of "x / pow2 e"] by (simp only: abs_mult abs_of_pos[OF pow2_pos] mult_right_mono pow2_nonneg)
  also have "\<dots> = pow2 (ilog2 \<bar>x\<bar>) * pow2 (- p)" unfolding e by (simp add: pow2_diff pow2_minus pow2_add)
  also have "\<dots> \<le> \<bar>x\<bar> * pow2 (- p)" using b(1) by (simp add: mult_right_mono)
  finally have err: "\<bar>y - x\<bar> \<le> \<bar>x\<bar> * pow2 (- p)" .
  have "pow2 (- p) \<le> pow2 0" unfolding pow2_le_iff by (simp add: p_def)
  then have "\<bar>x\<bar> * pow2 (- p) \<le> \<bar>x\<bar> * 1" by (intro mult_left_mono) simp_all
  then have "\<bar>y\<bar> < pow2 (emax f + 1)" using err big by (simp add: pow2_add)
  then have "rnd f x = Fin y" using False by (simp add: rnd_def Let_def e_def[symmetric] y_def[symmetric])
  then show ?thesis using that err unfolding p_def by blast
qed

end

interpretation dbl: ieee binary64
  by unfold_locales (simp_all add: binary64_def)

interpretation sgl: ieee binary32
  by unfold_locales (simp_all add: binary32_def)

end
