(* ===== verification/CvMat.thy ===== *)
theory CvMat
  imports Fp
begin

unbundle bit_operations_syntax

text \<open>
  The image container \<open>cv::Mat\<close> as the code sees it: a header (type, size, row stride, pointer to
  the first element) over a reference-counted buffer that several headers share. What is modelled
  is the code of the OpenCV headers in the repository that is compiled into the native library
  (beamerscope/src/main/include/opencv2/core): the type codes of cvdef.h and the inline members
  of mat.inl.hpp.

  A buffer is a flat list of elements, each the value of one channel (every depth's values are
  doubles); an offset counts elements. Headers are values, buffers live in the state \<open>world\<close>, so
  two headers with the same buffer alias. A reference count never shows: a buffer is kept while
  the state exists. An element access beyond the buffer, through a null pointer or through a
  pointer of the wrong element type is an error of its own.
\<close>

subsection \<open>Type codes\<close>

definition CV_8U :: int where "CV_8U = 0"
definition CV_16U :: int where "CV_16U = 2"
definition CV_16S :: int where "CV_16S = 3"
definition CV_32F :: int where "CV_32F = 5"
definition CV_64F :: int where "CV_64F = 6"

definition CV_MAT_DEPTH :: "int \<Rightarrow> int" where
  "CV_MAT_DEPTH flags = flags AND 7"

definition CV_MAKETYPE :: "int \<Rightarrow> int \<Rightarrow> int" where
  "CV_MAKETYPE depth cn = CV_MAT_DEPTH depth + push_bit 3 (cn - 1)"

definition CV_MAT_CN :: "int \<Rightarrow> int" where
  "CV_MAT_CN flags = drop_bit 3 (flags AND push_bit 3 511) + 1"

lemma CV_MAT_DEPTH_mod: "CV_MAT_DEPTH t = t mod 8"
  using take_bit_eq_mask[of 3 t] by (simp add: CV_MAT_DEPTH_def take_bit_eq_mod mask_eq_exp_minus_1)

lemma CV_MAT_CN_div: "CV_MAT_CN t = t div 8 mod 512 + 1"
proof -
  have "drop_bit 3 (t AND push_bit 3 511) = drop_bit 3 t AND 511"
    by (simp add: drop_bit_push_bit)
  also have "\<dots> = take_bit 9 (drop_bit 3 t)"
    by (simp add: take_bit_eq_mask mask_eq_exp_minus_1)
  finally show ?thesis by (simp add: CV_MAT_CN_def take_bit_eq_mod drop_bit_eq_div)
qed

lemma CV_MAT_CN_pos: "1 \<le> CV_MAT_CN t"
  by (simp add: CV_MAT_CN_div)

lemma maketype_depth: "CV_MAT_DEPTH (CV_MAKETYPE d cn) = CV_MAT_DEPTH d"
proof -
  have "(d mod 8 + (cn - 1) * 8) mod 8 = d mod 8" by presburger
  then show ?thesis by (simp add: CV_MAKETYPE_def CV_MAT_DEPTH_mod push_bit_eq_mult)
qed

lemma maketype_cn: "1 \<le> cn \<Longrightarrow> cn \<le> 512 \<Longrightarrow> CV_MAT_CN (CV_MAKETYPE d cn) = cn"
  by (simp add: CV_MAKETYPE_def CV_MAT_CN_div CV_MAT_DEPTH_mod push_bit_eq_mult)

definition CV_64FC1 :: int where "CV_64FC1 = CV_MAKETYPE CV_64F 1"
definition CV_64FC2 :: int where "CV_64FC2 = CV_MAKETYPE CV_64F 2"

lemma CV_64FC2_sel [simp]: "CV_MAT_DEPTH CV_64FC2 = CV_64F" "CV_MAT_CN CV_64FC2 = 2"
  by (simp_all add: CV_64FC2_def maketype_depth maketype_cn) (simp add: CV_64F_def CV_MAT_DEPTH_mod)

lemma CV_64FC1_sel [simp]: "CV_MAT_DEPTH CV_64FC1 = CV_64F" "CV_MAT_CN CV_64FC1 = 1"
  by (simp_all add: CV_64FC1_def maketype_depth maketype_cn) (simp add: CV_64F_def CV_MAT_DEPTH_mod)

subsection \<open>Headers, values and the state\<close>

record mat =
  mtype :: int
  mrows :: int
  mcols :: int
  mdata :: "(nat \<times> nat) option"
  mstep :: nat

text \<open>\<open>img\<close> is the value of an image: its type, its size and its rows of interleaved channels.\<close>

record img =
  itype :: int
  irows :: nat
  icols :: nat
  idata :: "fp list list"

text \<open>What the code prints or logs; the state also records the images shown and written.\<close>

datatype msg = Said string | MaxMin string fp fp | MatInfo int int int int | Value fp | Count string int

record world =
  bufs :: "fp list list"
  messages :: "msg list"
  gv_cMap :: int
  shown :: "(string \<times> img) list"
  files :: "(string \<times> img) list"

datatype err = CvException | OutOfBounds | NullData | BadDepth | DivByZero | BadCast | CheckFailed

type_synonym 'a cvact = "(err, world, 'a) act"

definition depth :: "mat \<Rightarrow> int" where
  "depth m = CV_MAT_DEPTH (mtype m)"

definition channels :: "mat \<Rightarrow> int" where
  "channels m = CV_MAT_CN (mtype m)"

definition total :: "mat \<Rightarrow> nat" where
  "total m = nat (mrows m) * nat (mcols m)"

definition empty :: "mat \<Rightarrow> bool" where
  "empty m \<longleftrightarrow> mdata m = None \<or> total m = 0"

definition mat_default :: mat where
  "mat_default = \<lparr>mtype = 0, mrows = 0, mcols = 0, mdata = None, mstep = 0\<rparr>"

definition nrows :: "mat \<Rightarrow> nat" where "nrows m = nat (mrows m)"
definition ncols :: "mat \<Rightarrow> nat" where "ncols m = nat (mcols m)"
definition nch :: "mat \<Rightarrow> nat" where "nch m = nat (channels m)"
definition rowlen :: "mat \<Rightarrow> nat" where "rowlen m = ncols m * nch m"

lemma nch_pos [simp]: "0 < nch m"
  using CV_MAT_CN_pos[of "mtype m"] by (simp add: nch_def channels_def)

subsection \<open>Element access\<close>

text \<open>\<open>ptr<double>(i)[k]\<close>: the element \<open>k\<close> places after the start of row \<open>i\<close>.\<close>

definition elem_addr :: "mat \<Rightarrow> nat \<Rightarrow> nat \<Rightarrow> err + (nat \<times> nat)" where
  "elem_addr m i k = (if depth m \<noteq> CV_64F then Inl BadDepth
     else case mdata m of None \<Rightarrow> Inl NullData | Some (b, a) \<Rightarrow> Inr (b, a + mstep m * i + k))"

definition valid_addr :: "world \<Rightarrow> nat \<Rightarrow> nat \<Rightarrow> bool" where
  "valid_addr w b a \<longleftrightarrow> b < length (bufs w) \<and> a < length (bufs w ! b)"

definition load :: "mat \<Rightarrow> nat \<Rightarrow> nat \<Rightarrow> fp cvact" where
  "load m i k w = (case elem_addr m i k of Inl e \<Rightarrow> Inl e
     | Inr (b, a) \<Rightarrow> if valid_addr w b a then Inr (bufs w ! b ! a, w) else Inl OutOfBounds)"

definition set_cell :: "nat \<Rightarrow> nat \<Rightarrow> fp \<Rightarrow> world \<Rightarrow> world" where
  "set_cell b a v w = w\<lparr>bufs := (bufs w)[b := (bufs w ! b)[a := v]]\<rparr>"

definition store :: "mat \<Rightarrow> nat \<Rightarrow> nat \<Rightarrow> fp \<Rightarrow> unit cvact" where
  "store m i k v w = (case elem_addr m i k of Inl e \<Rightarrow> Inl e
     | Inr (b, a) \<Rightarrow> if valid_addr w b a then Inr ((), set_cell b a v w) else Inl OutOfBounds)"

subsection \<open>Allocation\<close>

text \<open>\<open>Mat::create\<close> keeps a header whose size and type fit and whose pointer is set; otherwise a
  new buffer is made. A new buffer's elements are indeterminate: \<open>NaN\<close> stands for each.\<close>

definition alloc :: "int \<Rightarrow> int \<Rightarrow> int \<Rightarrow> mat cvact" where
  "alloc r c t w = (let n = nat c * nat (CV_MAT_CN t) in
     Inr (\<lparr>mtype = t, mrows = r, mcols = c, mdata = Some (length (bufs w), 0), mstep = n\<rparr>,
          w\<lparr>bufs := bufs w @ [replicate (nat r * n) NaN]\<rparr>))"

definition create :: "mat \<Rightarrow> int \<Rightarrow> int \<Rightarrow> int \<Rightarrow> mat cvact" where
  "create m r c t = (if mrows m = r \<and> mcols m = c \<and> mtype m = t \<and> mdata m \<noteq> None
     then retA m else alloc r c t)"

definition release :: "mat \<Rightarrow> mat" where
  "release m = m\<lparr>mdata := None, mrows := 0, mcols := 0\<rparr>"

subsection \<open>Well-formed headers and their elements\<close>

definition hdr_ok :: "world \<Rightarrow> mat \<Rightarrow> bool" where
  "hdr_ok w m \<longleftrightarrow> (case mdata m of None \<Rightarrow> False
     | Some (b, a) \<Rightarrow> b < length (bufs w) \<and> 0 \<le> mrows m \<and> 0 \<le> mcols m \<and> rowlen m \<le> mstep m
         \<and> (0 < nrows m \<longrightarrow> 0 < rowlen m \<longrightarrow>
              a + mstep m * (nrows m - 1) + rowlen m \<le> length (bufs w ! b)))"

definition cell :: "world \<Rightarrow> mat \<Rightarrow> nat \<Rightarrow> nat \<Rightarrow> fp" where
  "cell w m i k = (case mdata m of None \<Rightarrow> NaN | Some (b, a) \<Rightarrow> bufs w ! b ! (a + mstep m * i + k))"

definition buf_of :: "mat \<Rightarrow> nat option" where
  "buf_of m = map_option fst (mdata m)"

lemma hdr_okE:
  assumes "hdr_ok w m"
  obtains b a where "mdata m = Some (b, a)" and "b < length (bufs w)" and "0 \<le> mrows m"
    and "0 \<le> mcols m" and "rowlen m \<le> mstep m"
    and "\<And>i k. i < nrows m \<Longrightarrow> k < rowlen m \<Longrightarrow> a + mstep m * i + k < length (bufs w ! b)"
proof -
  from assms obtain b a where m: "mdata m = Some (b, a)" "b < length (bufs w)" "0 \<le> mrows m"
    "0 \<le> mcols m" "rowlen m \<le> mstep m"
    and end_le: "0 < nrows m \<Longrightarrow> 0 < rowlen m \<Longrightarrow> a + mstep m * (nrows m - 1) + rowlen m \<le> length (bufs w ! b)"
    by (auto simp: hdr_ok_def split: option.splits)
  have "a + mstep m * i + k < length (bufs w ! b)" if "i < nrows m" "k < rowlen m" for i k
  proof -
    have "mstep m * i \<le> mstep m * (nrows m - 1)" using that by (intro mult_le_mono2) simp
    then show ?thesis using end_le that by linarith
  qed
  then show ?thesis using that m by blast
qed

lemma load_ok [act_simps]:
  assumes "hdr_ok w m" and "depth m = CV_64F" and "i < nrows m" and "k < rowlen m"
  shows "load m i k w = Inr (cell w m i k, w)"
  using assms by (elim hdr_okE) (simp add: load_def elem_addr_def valid_addr_def cell_def)

lemma store_ok:
  assumes "hdr_ok w m" and "depth m = CV_64F" and "i < nrows m" and "k < rowlen m"
    and "mdata m = Some (b, a)"
  shows "store m i k v w = Inr ((), set_cell b (a + mstep m * i + k) v w)"
  using assms by (elim hdr_okE) (simp add: store_def elem_addr_def valid_addr_def)

lemma hdr_ok_signs: "hdr_ok w m \<Longrightarrow> 0 \<le> mrows m \<and> 0 \<le> mcols m"
  by (auto simp: hdr_ok_def split: option.splits)

lemma hdr_ok_sizes: "hdr_ok w m \<Longrightarrow> mrows m = int (nrows m)" "hdr_ok w m \<Longrightarrow> mcols m = int (ncols m)"
  using hdr_ok_signs by (auto simp: nrows_def ncols_def)

lemma hdr_ok_buf: "hdr_ok w m \<Longrightarrow> buf_of m \<noteq> None \<and> buf_of m \<noteq> Some (length (bufs w))"
  by (auto simp: hdr_ok_def buf_of_def split: option.splits)

text \<open>An update of elements changes no buffer's length, so it keeps every header well-formed.\<close>

definition same_shape :: "world \<Rightarrow> world \<Rightarrow> bool" where
  "same_shape v w \<longleftrightarrow> map length (bufs v) = map length (bufs w)"

lemma same_shape_refl [simp]: "same_shape w w"
  by (simp add: same_shape_def)

lemma same_shape_sym: "same_shape v w \<Longrightarrow> same_shape w v"
  by (simp add: same_shape_def)

lemma same_shape_trans: "same_shape u v \<Longrightarrow> same_shape v w \<Longrightarrow> same_shape u w"
  by (simp add: same_shape_def)

lemma same_shape_length: "same_shape v w \<Longrightarrow> length (bufs v) = length (bufs w)"
  unfolding same_shape_def by (metis length_map)

lemma same_shape_nth: "same_shape v w \<Longrightarrow> b < length (bufs w) \<Longrightarrow> length (bufs v ! b) = length (bufs w ! b)"
  unfolding same_shape_def by (metis length_map nth_map)

lemma set_cell_shape [simp]: "same_shape (set_cell b a v w) w"
  unfolding same_shape_def set_cell_def
  by (cases "b < length (bufs w)") (simp_all add: map_update list_update_same_conv list_update_beyond)

lemma hdr_ok_same_shape [wf_intros]:
  assumes "hdr_ok w m" and "same_shape v w"
  shows "hdr_ok v m"
proof -
  from assms(1) obtain b a where m: "mdata m = Some (b, a)" "b < length (bufs w)"
    by (auto simp: hdr_ok_def split: option.splits)
  show ?thesis
    using assms(1) m same_shape_length[OF assms(2)] same_shape_nth[OF assms(2) m(2)]
    by (simp add: hdr_ok_def)
qed

lemma bufs_set_cell: "b < length (bufs w) \<Longrightarrow> c < length (bufs w) \<Longrightarrow>
  bufs (set_cell b a v w) ! c = (if c = b then (bufs w ! b)[a := v] else bufs w ! c)"
  by (simp add: set_cell_def nth_list_update)

text \<open>Distinct places of one header are distinct elements.\<close>

lemma place_inj:
  fixes s :: nat
  assumes "k < s" and "l < s" and "s * i + k = s * j + l"
  shows "i = j \<and> k = l"
proof -
  have "(s * i + k) div s = i" "(s * j + l) div s = j" using assms(1,2) by simp_all
  then have "i = j" using assms(3) by simp
  then show ?thesis using assms(3) by simp
qed

subsection \<open>A state after an update of some elements of one header\<close>

text \<open>
  \<open>updated w m S F v\<close>: \<open>v\<close> is \<open>w\<close> with the elements \<open>S\<close> (row, place in the row) of the header \<open>m\<close>
  set to \<open>F\<close> and nothing else changed, neither another element nor another part of the state.
\<close>

definition places :: "nat \<Rightarrow> nat \<Rightarrow> (nat \<times> nat) set" where
  "places r l = {(i, k). i < r \<and> k < l}"

definition touches :: "mat \<Rightarrow> (nat \<times> nat) set \<Rightarrow> nat \<Rightarrow> nat \<Rightarrow> bool" where
  "touches m S b a \<longleftrightarrow> (\<exists>i k d. (i, k) \<in> S \<and> mdata m = Some (b, d) \<and> a = d + mstep m * i + k)"

definition updated :: "world \<Rightarrow> mat \<Rightarrow> (nat \<times> nat) set \<Rightarrow> (nat \<Rightarrow> nat \<Rightarrow> fp) \<Rightarrow> world \<Rightarrow> bool" where
  "updated w m S F v \<longleftrightarrow> v = w\<lparr>bufs := bufs v\<rparr> \<and> same_shape v w
     \<and> (\<forall>i k. (i, k) \<in> S \<longrightarrow> cell v m i k = F i k)
     \<and> (\<forall>b a. valid_addr w b a \<longrightarrow> \<not> touches m S b a \<longrightarrow> bufs v ! b ! a = bufs w ! b ! a)"

lemma mem_places [simp]: "(i, k) \<in> places r l \<longleftrightarrow> i < r \<and> k < l"
  by (simp add: places_def)

lemma updated_none [simp]: "updated w m {} F w"
  by (simp add: updated_def)

lemma updated_shape [wf_intros]: "updated w m S F v \<Longrightarrow> same_shape v w"
  by (simp add: updated_def)

lemma updated_hdr_ok [wf_intros]: "updated w m S F v \<Longrightarrow> hdr_ok w x \<Longrightarrow> hdr_ok v x"
  by (meson hdr_ok_same_shape updated_shape)

lemma updated_cell: "updated w m S F v \<Longrightarrow> (i, k) \<in> S \<Longrightarrow> cell v m i k = F i k"
  by (simp add: updated_def)

lemma hdr_ok_valid:
  assumes "hdr_ok w x" and "i < nrows x" and "k < rowlen x" and "mdata x = Some (b, a)"
  shows "valid_addr w b (a + mstep x * i + k)"
  using assms by (elim hdr_okE) (simp add: valid_addr_def)

lemma updated_other_buffer:
  assumes "updated w m S F v" and "buf_of x \<noteq> buf_of m" and "hdr_ok w x" and "i < nrows x" "k < rowlen x"
  shows "cell v x i k = cell w x i k"
proof -
  from assms(3) obtain b a where x: "mdata x = Some (b, a)" by (elim hdr_okE)
  have "\<not> touches m S b c" for c using assms(2) x by (auto simp: touches_def buf_of_def)
  then show ?thesis using assms(1) x hdr_ok_valid[OF assms(3-5) x] by (simp add: updated_def cell_def)
qed

lemma updated_other_place:
  assumes u: "updated w m S F v" and ok: "hdr_ok w m" and S: "S \<subseteq> places (nrows m) (rowlen m)"
    and ik: "i < nrows m" "k < rowlen m" "(i, k) \<notin> S"
  shows "cell v m i k = cell w m i k"
proof -
  from ok obtain b a where m: "mdata m = Some (b, a)" and st: "rowlen m \<le> mstep m" by (elim hdr_okE)
  have "\<not> touches m S b (a + mstep m * i + k)"
  proof
    assume "touches m S b (a + mstep m * i + k)"
    then obtain j l where jl: "(j, l) \<in> S" "mstep m * i + k = mstep m * j + l"
      using m by (auto simp: touches_def)
    then have "l < rowlen m" using S by auto
    with jl(2) ik(2) st have "i = j \<and> k = l" by (intro place_inj[of k "mstep m" l]) auto
    with jl(1) ik(3) show False by simp
  qed
  then show ?thesis using u m hdr_ok_valid[OF ok ik(1,2) m] by (simp add: updated_def cell_def)
qed

lemma set_cell_more [simp]: "set_cell b a x w\<lparr>bufs := bufs (set_cell b a x w)\<rparr> = set_cell b a x w"
  by (simp add: set_cell_def)

lemma updated_store:
  assumes u: "updated w m S F v" and ok: "hdr_ok w m" and S: "S \<subseteq> places (nrows m) (rowlen m)"
    and d: "depth m = CV_64F" and ik: "i < nrows m" "k < rowlen m" and x: "x = F i k"
  shows "\<exists>v'. store m i k x v = Inr ((), v') \<and> updated w m (insert (i, k) S) F v'"
proof -
  have okv: "hdr_ok v m" using u ok by (rule updated_hdr_ok)
  then obtain b a where m: "mdata m = Some (b, a)" and b: "b < length (bufs v)"
    and st: "rowlen m \<le> mstep m"
    and inb: "\<And>i k. i < nrows m \<Longrightarrow> k < rowlen m \<Longrightarrow> a + mstep m * i + k < length (bufs v ! b)"
    by (elim hdr_okE) blast
  define v' where "v' = set_cell b (a + mstep m * i + k) x v"
  have st': "store m i k x v = Inr ((), v')" using store_ok[OF okv d ik m] by (simp add: v'_def)
  have rest: "v' = w\<lparr>bufs := bufs v'\<rparr>"
    using u unfolding updated_def v'_def set_cell_def by (metis world.surjective world.update_convs(1) world.select_convs)
  have "cell v' m j l = F j l" if "(j, l) \<in> insert (i, k) S" for j l
  proof (cases "(j, l) = (i, k)")
    case True
    then show ?thesis using b m inb[OF ik] x by (simp add: v'_def cell_def bufs_set_cell)
  next
    case False
    then have jl: "(j, l) \<in> S" using that by auto
    then have "l < rowlen m" using S by auto
    then have "mstep m * j + l \<noteq> mstep m * i + k"
      using False ik st place_inj[of l "mstep m" k j i] by auto
    then have "cell v' m j l = cell v m j l" using b m by (simp add: v'_def cell_def bufs_set_cell)
    then show ?thesis using updated_cell[OF u jl] by simp
  qed
  moreover have "bufs v' ! c ! e = bufs w ! c ! e" if "valid_addr w c e" "\<not> touches m (insert (i, k) S) c e" for c e
  proof -
    have nt: "\<not> touches m S c e" "\<not> (c = b \<and> e = a + mstep m * i + k)"
      using that m by (auto simp: touches_def)
    from nt(2) have "bufs v' ! c ! e = bufs v ! c ! e"
      using b by (cases "c = b") (auto simp: v'_def set_cell_def)
    then show ?thesis using u nt(1) that(1) by (simp add: updated_def)
  qed
  ultimately have "updated w m (insert (i, k) S) F v'"
    using rest same_shape_trans[OF set_cell_shape updated_shape[OF u]] by (simp add: updated_def v'_def)
  then show ?thesis using st' by blast
qed

subsection \<open>Loops over the pixels of a two-channel image\<close>

text \<open>The code's pattern: rows outside, columns inside, two elements written per pixel.\<close>

definition pixel_loop :: "nat \<Rightarrow> nat \<Rightarrow> (nat \<Rightarrow> nat \<Rightarrow> unit cvact) \<Rightarrow> unit cvact" where
  "pixel_loop r c body = for_each [0..<r] (\<lambda>i. for_each [0..<c] (body i))"

definition before :: "nat \<Rightarrow> nat \<Rightarrow> nat \<Rightarrow> (nat \<times> nat) set" where
  "before c i j = {(a, k). (a < i \<and> k < 2 * c) \<or> (a = i \<and> k < 2 * j)}"

lemma before_next: "before c i (Suc j) = insert (i, 2 * j + 1) (insert (i, 2 * j) (before c i j))"
  by (auto simp: before_def)

lemma before_row: "before c (Suc i) 0 = before c i c"
  by (auto simp: before_def)

lemma before_0 [simp]: "before c 0 0 = {}"
  by (auto simp: before_def)

lemma before_all: "before c r 0 = places r (2 * c)"
  by (auto simp: before_def places_def)

lemma pixel_loop_rule:
  assumes body: "\<And>i j v. i < r \<Longrightarrow> j < c \<Longrightarrow> updated w m (before c i j) F v \<Longrightarrow>
      \<exists>v'. body i j v = Inr ((), v') \<and> updated w m (before c i (Suc j)) F v'"
  shows "\<exists>v. pixel_loop r c body w = Inr ((), v) \<and> updated w m (places r (2 * c)) F v"
proof -
  have row: "\<exists>v'. for_each [0..<c] (body i) v = Inr ((), v') \<and> updated w m (before c (Suc i) 0) F v'"
    if "i < r" "updated w m (before c i 0) F v" for i v
    using for_each_inv[of "\<lambda>j. updated w m (before c i j) F" v c "body i"] that body
    by (simp add: before_row)
  have "\<exists>v. for_each [0..<r] (\<lambda>i. for_each [0..<c] (body i)) w = Inr ((), v) \<and> updated w m (before c r 0) F v"
    by (rule for_each_inv[of "\<lambda>i. updated w m (before c i 0) F"]) (use row in auto)
  then show ?thesis by (simp add: pixel_loop_def before_all)
qed

end
