(* ===== verification/CvLib.thy ===== *)
theory CvLib
  imports CvMat
begin

text \<open>
  The OpenCV functions whose code is not in the repository (the compiled part of the library),
  as a parameter: the record \<open>opencv\<close> holds one function per library function the code calls, on
  the values of images (or on headers, for the two functions that only make headers). What the
  proofs rely on is stated by the named predicates \<open>\<dots>_law\<close>, each one the documented behaviour of
  one function, and is a hypothesis wherever it is used.

  What is modelled here is how such a call reads and writes memory: \<open>fetch\<close> reads the value of a
  header, \<open>put_out\<close> is an output argument that is a \<open>Mat\<close> variable (\<open>create\<close>, then write),
  \<open>put_fixed\<close> one that is a temporary header, whose size and type are fixed (mat.inl.hpp gives
  \<open>_OutputArray(const Mat&)\<close> the flags \<open>FIXED_TYPE + FIXED_SIZE\<close>).
\<close>

record rect =
  rx :: int
  ry :: int
  rwidth :: int
  rheight :: int

record opencv =
  lib_roi :: "mat \<Rightarrow> rect \<Rightarrow> err + mat"
  lib_reshape :: "mat \<Rightarrow> int \<Rightarrow> int \<Rightarrow> err + mat"
  lib_copyTo :: "img \<Rightarrow> err + img"
  lib_copyFixed :: "img \<Rightarrow> int \<Rightarrow> err + img"
  lib_zeros :: "int \<Rightarrow> int \<Rightarrow> int \<Rightarrow> err + img"
  lib_setTo :: "img \<Rightarrow> fp \<Rightarrow> err + img"
  lib_split :: "img \<Rightarrow> err + img list"
  lib_merge :: "img list \<Rightarrow> err + img"
  lib_hconcat :: "img \<Rightarrow> img \<Rightarrow> err + img"
  lib_transpose :: "img \<Rightarrow> err + img"
  lib_convertTo :: "img \<Rightarrow> int \<Rightarrow> fp \<Rightarrow> fp \<Rightarrow> err + img"
  lib_normalize :: "img \<Rightarrow> fp \<Rightarrow> fp \<Rightarrow> err + img"
  lib_minMaxLoc :: "img \<Rightarrow> err + (fp \<times> fp)"
  lib_mean :: "img \<Rightarrow> err + fp \<times> fp \<times> fp \<times> fp"
  lib_add :: "img \<Rightarrow> img \<Rightarrow> err + img"
  lib_subtract :: "img \<Rightarrow> img \<Rightarrow> err + img"
  lib_multiply :: "img \<Rightarrow> img \<Rightarrow> err + img"
  lib_divide :: "img \<Rightarrow> img \<Rightarrow> err + img"
  lib_magnitude :: "img \<Rightarrow> img \<Rightarrow> err + img"
  lib_pow :: "img \<Rightarrow> fp \<Rightarrow> err + img"
  lib_log :: "img \<Rightarrow> err + img"
  lib_optDFTSize :: "int \<Rightarrow> int"
  lib_copyMakeBorder :: "img \<Rightarrow> int \<Rightarrow> int \<Rightarrow> int \<Rightarrow> int \<Rightarrow> fp \<Rightarrow> err + img"
  lib_dft :: "img \<Rightarrow> int \<Rightarrow> err + img"
  lib_circle :: "img \<Rightarrow> int \<times> int \<Rightarrow> int \<Rightarrow> fp \<Rightarrow> err + img"
  lib_applyColorMap :: "img \<Rightarrow> int \<Rightarrow> err + img"
  lib_resize :: "img \<Rightarrow> int \<Rightarrow> int \<Rightarrow> err + img"

subsection \<open>Values of headers\<close>

definition value_of :: "world \<Rightarrow> mat \<Rightarrow> img" where
  "value_of w m = \<lparr>itype = mtype m, irows = nrows m, icols = ncols m,
     idata = map (\<lambda>i. map (cell w m i) [0..<rowlen m]) [0..<nrows m]\<rparr>"

definition empty_img :: "int \<Rightarrow> img" where
  "empty_img t = \<lparr>itype = t, irows = 0, icols = 0, idata = []\<rparr>"

definition fetch :: "mat \<Rightarrow> img cvact" where
  "fetch m w = (if mdata m = None then Inr (empty_img (mtype m), w)
     else if hdr_ok w m then Inr (value_of w m, w) else Inl OutOfBounds)"

definition icn :: "img \<Rightarrow> nat" where
  "icn v = nat (CV_MAT_CN (itype v))"

definition irowlen :: "img \<Rightarrow> nat" where
  "irowlen v = icols v * icn v"

definition img_at :: "img \<Rightarrow> nat \<Rightarrow> nat \<Rightarrow> fp" where
  "img_at v i k = idata v ! i ! k"

definition img_ok :: "img \<Rightarrow> bool" where
  "img_ok v \<longleftrightarrow> length (idata v) = irows v \<and> (\<forall>r \<in> set (idata v). length r = irowlen v)"

lemma icn_pos [simp]: "0 < icn v"
  using CV_MAT_CN_pos[of "itype v"] by (simp add: icn_def)

lemma value_of_sel [simp]:
  "itype (value_of w m) = mtype m" "irows (value_of w m) = nrows m" "icols (value_of w m) = ncols m"
  "irowlen (value_of w m) = rowlen m" "icn (value_of w m) = nch m"
  by (simp_all add: value_of_def irowlen_def icn_def rowlen_def nch_def channels_def)

lemma value_of_eqD: "value_of w m = x \<Longrightarrow> mtype m = itype x \<and> nrows m = irows x \<and> ncols m = icols x"
  by auto

lemma img_at_value_of: "i < nrows m \<Longrightarrow> k < rowlen m \<Longrightarrow> img_at (value_of w m) i k = cell w m i k"
  by (simp add: img_at_def value_of_def)

lemma value_of_ok: "img_ok (value_of w m)"
  by (auto simp: img_ok_def simp del: value_of_sel) (auto simp: value_of_def irowlen_def icn_def rowlen_def nch_def channels_def)

lemma fetch_ok [act_simps]: "hdr_ok w m \<Longrightarrow> fetch m w = Inr (value_of w m, w)"
  by (auto simp: fetch_def hdr_ok_def split: option.splits)

text \<open>Two images with the same type, size and elements are equal.\<close>

lemma img_eqI:
  assumes "img_ok u" and "img_ok v" and "itype u = itype v" and "irows u = irows v" and "icols u = icols v"
    and at: "\<And>i k. i < irows v \<Longrightarrow> k < irowlen v \<Longrightarrow> img_at u i k = img_at v i k"
  shows "u = v"
proof -
  have rl: "irowlen u = irowlen v" using assms by (simp add: irowlen_def icn_def)
  have "idata u = idata v"
  proof (rule nth_equalityI)
    show "length (idata u) = length (idata v)" using assms by (simp add: img_ok_def)
    fix i assume "i < length (idata u)"
    then have i: "i < irows u" "i < irows v" using assms by (simp_all add: img_ok_def)
    then have l: "length (idata u ! i) = irowlen v" "length (idata v ! i) = irowlen v"
      using assms rl by (simp_all add: img_ok_def)
    show "idata u ! i = idata v ! i"
      by (rule nth_equalityI) (use l at i in \<open>auto simp: img_at_def\<close>)
  qed
  then show ?thesis using assms by simp
qed

subsection \<open>The image of zeros\<close>

definition const_img :: "int \<Rightarrow> nat \<Rightarrow> nat \<Rightarrow> fp \<Rightarrow> img" where
  "const_img t r c x = \<lparr>itype = t, irows = r, icols = c,
     idata = replicate r (replicate (c * nat (CV_MAT_CN t)) x)\<rparr>"

lemma const_img_ok [simp]: "img_ok (const_img t r c x)"
  by (simp add: img_ok_def const_img_def irowlen_def icn_def)

lemma const_img_sel [simp]: "itype (const_img t r c x) = t" "irows (const_img t r c x) = r"
  "icols (const_img t r c x) = c"
  by (simp_all add: const_img_def)

text \<open>\<open>Mat::zeros\<close>: "Returns a zero array of the specified size and type" (core/mat.hpp).\<close>

definition zeros_law :: "opencv \<Rightarrow> bool" where
  "zeros_law cv \<longleftrightarrow> (\<forall>r c t. 0 \<le> r \<longrightarrow> 0 \<le> c \<longrightarrow>
     lib_zeros cv r c t = Inr (const_img t (nat r) (nat c) (Fin 0)))"

subsection \<open>Writing a value\<close>

definition write_img :: "mat \<Rightarrow> img \<Rightarrow> world \<Rightarrow> world" where
  "write_img m v w = (case mdata m of None \<Rightarrow> w
     | Some (b, d) \<Rightarrow> w\<lparr>bufs := (bufs w)[b := map (\<lambda>a.
          if d \<le> a \<and> (a - d) div mstep m < nrows m \<and> (a - d) mod mstep m < rowlen m
          then img_at v ((a - d) div mstep m) ((a - d) mod mstep m) else bufs w ! b ! a)
        [0..<length (bufs w ! b)]]\<rparr>)"

lemma write_img_updated:
  assumes ok: "hdr_ok w m"
  shows "updated w m (places (nrows m) (rowlen m)) (img_at v) (write_img m v w)"
proof -
  from ok obtain b d where m: "mdata m = Some (b, d)" and b: "b < length (bufs w)"
    and st: "rowlen m \<le> mstep m"
    and inb: "\<And>i k. i < nrows m \<Longrightarrow> k < rowlen m \<Longrightarrow> d + mstep m * i + k < length (bufs w ! b)"
    by (elim hdr_okE) blast
  define v' where "v' = write_img m v w"
  have bufs': "bufs v' ! c ! e = (if c = b \<and> d \<le> e \<and> (e - d) div mstep m < nrows m \<and> (e - d) mod mstep m < rowlen m
      then img_at v ((e - d) div mstep m) ((e - d) mod mstep m) else bufs w ! c ! e)"
    if "e < length (bufs w ! b) \<or> c \<noteq> b" for c e
    using m b that by (auto simp: v'_def write_img_def nth_list_update)
  have sh: "same_shape v' w"
    using m b by (simp add: v'_def write_img_def same_shape_def map_update list_update_same_conv)
  have "cell v' m i k = img_at v i k" if "i < nrows m" "k < rowlen m" for i k
  proof -
    have "(d + mstep m * i + k - d) div mstep m = i" "(d + mstep m * i + k - d) mod mstep m = k"
      using that st by (simp_all add: add.assoc)
    then show ?thesis using bufs'[of "d + mstep m * i + k" b] inb[OF that] that m
      by (simp add: cell_def)
  qed
  moreover have "bufs v' ! c ! e = bufs w ! c ! e"
    if va: "valid_addr w c e" and nt: "\<not> touches m (places (nrows m) (rowlen m)) c e" for c e
  proof -
    have "\<not> (c = b \<and> d \<le> e \<and> (e - d) div mstep m < nrows m \<and> (e - d) mod mstep m < rowlen m)"
    proof
      assume h: "c = b \<and> d \<le> e \<and> (e - d) div mstep m < nrows m \<and> (e - d) mod mstep m < rowlen m"
      have "e = d + mstep m * ((e - d) div mstep m) + (e - d) mod mstep m"
        using h by (simp add: add.assoc)
      then have "touches m (places (nrows m) (rowlen m)) c e"
        unfolding touches_def mem_places using h m by blast
      with nt show False by simp
    qed
    moreover have "e < length (bufs w ! b) \<or> c \<noteq> b" using va by (cases "c = b") (auto simp: valid_addr_def)
    ultimately show ?thesis using bufs'[of e c] by (simp only: if_False)
  qed
  moreover have "v' = w\<lparr>bufs := bufs v'\<rparr>" using m by (simp add: v'_def write_img_def)
  ultimately show ?thesis using sh unfolding updated_def v'_def by simp
qed

subsection \<open>Output arguments\<close>

text \<open>A \<open>Mat\<close> variable: re-created when size or type differ.\<close>

definition put_out :: "mat \<Rightarrow> img \<Rightarrow> mat cvact" where
  "put_out m v = bindA (create m (int (irows v)) (int (icols v)) (itype v))
     (\<lambda>m' w. Inr (m', write_img m' v w))"

text \<open>A temporary header: its size and type must be those of the value.\<close>

definition put_fixed :: "mat \<Rightarrow> img \<Rightarrow> unit cvact" where
  "put_fixed m v w = (if mtype m = itype v \<and> nrows m = irows v \<and> ncols m = icols v
     then (if mdata m = None then Inr ((), w)
           else if hdr_ok w m then Inr ((), write_img m v w) else Inl OutOfBounds)
     else Inl CvException)"

lemma alloc_hdr:
  assumes "0 \<le> r" and "0 \<le> c"
  obtains m v where "alloc r c t w = Inr (m, v)" and "mrows m = r" and "mcols m = c" and "mtype m = t"
    and "mdata m = Some (length (bufs w), 0)" and "hdr_ok v m" and "bufs v = bufs w @ [replicate (nat r * rowlen m) NaN]"
    and "v = w\<lparr>bufs := bufs v\<rparr>" and "mstep m = rowlen m"
proof -
  define n where "n = nat c * nat (CV_MAT_CN t)"
  define m where "m = \<lparr>mtype = t, mrows = r, mcols = c, mdata = Some (length (bufs w), 0), mstep = n\<rparr>"
  define v where "v = w\<lparr>bufs := bufs w @ [replicate (nat r * n) NaN]\<rparr>"
  have rl: "rowlen m = n" by (simp add: rowlen_def ncols_def nch_def channels_def m_def n_def)
  have "n * (nat r - 1) + n \<le> nat r * n" if "0 < nat r"
    using that by (cases "nat r") simp_all
  then have "hdr_ok v m" using assms rl by (simp add: hdr_ok_def v_def m_def nrows_def)
  moreover have "alloc r c t w = Inr (m, v)" by (simp add: alloc_def m_def v_def n_def Let_def)
  ultimately show ?thesis using that[of m v] rl by (simp add: m_def v_def)
qed

subsection \<open>Frames\<close>

text \<open>
  \<open>keeps w b w'\<close>: every header that was well-formed still is, and its image is unchanged unless it
  lives in the buffer \<open>b\<close>; nothing but the buffers changed.
\<close>

definition keeps :: "world \<Rightarrow> nat option \<Rightarrow> world \<Rightarrow> bool" where
  "keeps w b w' \<longleftrightarrow> w' = w\<lparr>bufs := bufs w'\<rparr> \<and> length (bufs w) \<le> length (bufs w')
     \<and> (\<forall>x. hdr_ok w x \<longrightarrow> hdr_ok w' x \<and> (buf_of x \<noteq> b \<longrightarrow> value_of w' x = value_of w x))"

lemma keepsD:
  assumes "keeps w b w'" and "hdr_ok w x"
  shows "hdr_ok w' x" and "buf_of x \<noteq> b \<Longrightarrow> value_of w' x = value_of w x"
  using assms by (simp_all add: keeps_def)

lemma keeps_refl [simp]: "keeps w b w"
  by (simp add: keeps_def)

lemma keeps_trans: "keeps u b v \<Longrightarrow> keeps v b w \<Longrightarrow> keeps u b w"
  unfolding keeps_def by (metis le_trans world.surjective world.update_convs(1) world.select_convs)

lemma keeps_weaken: "keeps w None v \<Longrightarrow> keeps w b v"
  by (auto simp: keeps_def hdr_ok_def buf_of_def split: option.splits)

lemma updated_keeps [wf_intros]:
  assumes u: "updated w m S F v"
  shows "keeps w (buf_of m) v"
proof -
  have "value_of v x = value_of w x" if "hdr_ok w x" "buf_of x \<noteq> buf_of m" for x
    unfolding value_of_def using updated_other_buffer[OF u that(2,1)] by (simp cong: map_cong)
  moreover have "length (bufs w) \<le> length (bufs v)"
    using same_shape_length[OF updated_shape[OF u]] by simp
  ultimately show ?thesis using u updated_hdr_ok[OF u] by (auto simp: keeps_def updated_def)
qed

lemma alloc_keeps:
  assumes v: "v = w\<lparr>bufs := bufs v\<rparr>" and b: "bufs v = bufs w @ [xs]"
  shows "keeps w None v"
proof -
  have nth: "c < length (bufs w) \<Longrightarrow> bufs v ! c = bufs w ! c" for c by (simp add: b nth_append)
  have "hdr_ok v x \<and> value_of v x = value_of w x" if "hdr_ok w x" for x
  proof
    from that obtain c a where x: "mdata x = Some (c, a)" "c < length (bufs w)" by (elim hdr_okE)
    show "hdr_ok v x" using that x nth[OF x(2)] by (auto simp: hdr_ok_def b)
    show "value_of v x = value_of w x" using x nth[OF x(2)] by (simp add: value_of_def cell_def)
  qed
  then show ?thesis using v b by (simp add: keeps_def)
qed

lemma updated_value:
  assumes u: "updated w m (places (nrows m) (rowlen m)) F v" and ok: "img_ok x"
    and sz: "itype x = mtype m" "irows x = nrows m" "icols x = ncols m"
    and F: "\<And>i k. i < nrows m \<Longrightarrow> k < rowlen m \<Longrightarrow> F i k = img_at x i k"
  shows "value_of v m = x"
proof (rule img_eqI)
  have rl: "irowlen x = rowlen m" using sz by (simp add: irowlen_def icn_def rowlen_def nch_def channels_def)
  fix i k assume "i < irows x" "k < irowlen x"
  then show "img_at (value_of v m) i k = img_at x i k"
    using updated_cell[OF u, of i k] F sz rl by (simp add: img_at_value_of)
qed (use ok sz value_of_ok in simp_all)

text \<open>What an output argument holds after the call: a header whose image is the value, either the
  old header or one over a new buffer.\<close>

lemma put_out_ok:
  assumes ok: "img_ok v" and m: "mdata m = None \<or> hdr_ok w m"
  shows "\<exists>m' w'. put_out m v w = Inr (m', w') \<and> hdr_ok w' m' \<and> value_of w' m' = v
     \<and> keeps w (buf_of m') w' \<and> ((m' = m \<and> mdata m \<noteq> None) \<or> buf_of m' = Some (length (bufs w)))"
proof (cases "mrows m = int (irows v) \<and> mcols m = int (icols v) \<and> mtype m = itype v \<and> mdata m \<noteq> None")
  case True
  then have okm: "hdr_ok w m" using m by auto
  note u = write_img_updated[OF okm, of v]
  have "put_out m v w = Inr (m, write_img m v w)" using True by (simp add: put_out_def create_def)
  moreover have "value_of (write_img m v w) m = v"
    by (rule updated_value[OF u ok]) (use True in \<open>auto simp: nrows_def ncols_def\<close>)
  ultimately show ?thesis using True updated_hdr_ok[OF u okm] updated_keeps[OF u] by blast
next
  case False
  obtain m' w1 where al: "alloc (int (irows v)) (int (icols v)) (itype v) w = Inr (m', w1)"
    and h: "mrows m' = int (irows v)" "mcols m' = int (icols v)" "mtype m' = itype v"
      "mdata m' = Some (length (bufs w), 0)" "hdr_ok w1 m'"
      "bufs w1 = bufs w @ [replicate (nat (int (irows v)) * rowlen m') NaN]" "w1 = w\<lparr>bufs := bufs w1\<rparr>"
    by (rule alloc_hdr[of "int (irows v)" "int (icols v)" "itype v" w]) auto
  note u = write_img_updated[OF h(5), of v]
  have "put_out m v w = Inr (m', write_img m' v w1)" using False al by (auto simp: put_out_def create_def)
  moreover have "value_of (write_img m' v w1) m' = v"
    by (rule updated_value[OF u ok]) (use h in \<open>auto simp: nrows_def ncols_def\<close>)
  moreover have "keeps w (buf_of m') (write_img m' v w1)"
    by (rule keeps_trans[OF keeps_weaken[OF alloc_keeps[OF h(7,6)]] updated_keeps[OF u]])
  ultimately show ?thesis using updated_hdr_ok[OF u h(5)] h(4) by (auto simp: buf_of_def)
qed

text \<open>A change confined to a buffer the caller does not have is no change for the caller.\<close>

lemma keeps_fresh: "keeps w (Some b) w' \<Longrightarrow> length (bufs w) \<le> b \<Longrightarrow> keeps w None w'"
  by (auto simp: keeps_def hdr_ok_def buf_of_def split: option.splits)

lemma keeps_new: "keeps w None v \<Longrightarrow> keeps v (Some b) v' \<Longrightarrow> length (bufs w) \<le> b \<Longrightarrow> keeps w None v'"
  by (meson keeps_fresh keeps_trans keeps_weaken)

lemma keeps_length: "keeps w b v \<Longrightarrow> length (bufs w) \<le> length (bufs v)"
  by (simp add: keeps_def)

text \<open>Output to the log changes no image.\<close>

lemma hdr_ok_messages [simp]: "hdr_ok (w\<lparr>messages := s\<rparr>) m = hdr_ok w m" and value_of_messages [simp]: "value_of (w\<lparr>messages := s\<rparr>) m = value_of w m"
  by (simp_all add: hdr_ok_def value_of_def cell_def split: option.splits)

text \<open>A new \<open>Mat\<close> variable holding a value.\<close>

lemma put_new_ok:
  assumes ok: "img_ok v"
  obtains m w' where "put_out mat_default v w = Inr (m, w')" and "hdr_ok w' m" and "value_of w' m = v"
    and "keeps w None w'" and "buf_of m = Some (length (bufs w))" and "mstep m = rowlen m"
proof -
  have d: "mdata mat_default = None" by (simp add: mat_default_def)
  from put_out_ok[OF ok, of mat_default w] d obtain m w' where
    "put_out mat_default v w = Inr (m, w')" "hdr_ok w' m" "value_of w' m = v"
    "keeps w (buf_of m) w'" "buf_of m = Some (length (bufs w))" by blast
  moreover from this(1) have "mstep m = rowlen m"
    by (auto simp: put_out_def create_def mat_default_def alloc_def Let_def rowlen_def ncols_def nch_def channels_def bindA_def
        split: if_splits)
  ultimately show ?thesis using that keeps_fresh[of w "length (bufs w)" w'] by simp
qed

subsection \<open>New images\<close>

text \<open>"The method copies the matrix data to another matrix".\<close>

definition copy_law :: "opencv \<Rightarrow> bool" where
  "copy_law cv \<longleftrightarrow> (\<forall>v. 0 < irows v \<longrightarrow> 0 < icols v \<longrightarrow> lib_copyTo cv v = Inr v)"

text \<open>\<open>output = shifted.clone()\<close>; \<open>clone\<close> copies to a new \<open>Mat\<close> (mat.inl.hpp).\<close>

definition clone :: "opencv \<Rightarrow> mat \<Rightarrow> mat cvact" where
  "clone cv m = bindA (fetch m) (\<lambda>v. bindA (liftA (lib_copyTo cv v)) (put_out mat_default))"

definition zeros_mat :: "opencv \<Rightarrow> int \<Rightarrow> int \<Rightarrow> int \<Rightarrow> mat cvact" where
  "zeros_mat cv r c t = bindA (liftA (lib_zeros cv r c t)) (put_out mat_default)"

lemma zeros_mat_ok:
  assumes "zeros_law cv" and "0 \<le> r" and "0 \<le> c"
  obtains m w' where "zeros_mat cv r c t w = Inr (m, w')" and "hdr_ok w' m"
    and "value_of w' m = const_img t (nat r) (nat c) (Fin 0)" and "keeps w None w'" and "buf_of m = Some (length (bufs w))"
proof (rule put_new_ok[OF const_img_ok[of t "nat r" "nat c" "Fin 0"]])
  fix m w' assume "put_out mat_default (const_img t (nat r) (nat c) (Fin 0)) w = Inr (m, w')"
    "hdr_ok w' m" "value_of w' m = const_img t (nat r) (nat c) (Fin 0)" "keeps w None w'" "buf_of m = Some (length (bufs w))"
  then show ?thesis using that[of m w'] assms by (simp add: zeros_mat_def zeros_law_def)
qed

lemma clone_ok:
  assumes "copy_law cv" and ok: "hdr_ok w m" and "0 < nrows m" "0 < ncols m"
  obtains m' w' where "clone cv m w = Inr (m', w')" and "hdr_ok w' m'" and "value_of w' m' = value_of w m"
    and "keeps w None w'" and "buf_of m' = Some (length (bufs w))" and "mstep m' = rowlen m'"
proof (rule put_new_ok[OF value_of_ok[of w m]])
  fix m' w' assume "put_out mat_default (value_of w m) w = Inr (m', w')"
    "hdr_ok w' m'" "value_of w' m' = value_of w m" "keeps w None w'" "buf_of m' = Some (length (bufs w))" "mstep m' = rowlen m'"
  then show ?thesis using that[of m' w'] assms(1,3,4) fetch_ok[OF ok] by (simp add: clone_def copy_law_def)
qed

subsection \<open>Frames over several buffers\<close>

text \<open>As \<open>keeps\<close>, for the images outside a set of buffers.\<close>

definition keeps_but :: "world \<Rightarrow> nat option set \<Rightarrow> world \<Rightarrow> bool" where
  "keeps_but w B w' \<longleftrightarrow> w' = w\<lparr>bufs := bufs w'\<rparr> \<and> length (bufs w) \<le> length (bufs w')
     \<and> (\<forall>x. hdr_ok w x \<longrightarrow> hdr_ok w' x \<and> (buf_of x \<notin> B \<longrightarrow> value_of w' x = value_of w x))"

lemma keeps_but_refl [simp]: "keeps_but w B w"
  by (simp add: keeps_but_def)

lemma keeps_but_trans: "keeps_but u B v \<Longrightarrow> keeps_but v B w \<Longrightarrow> keeps_but u B w"
  unfolding keeps_but_def by (metis le_trans world.surjective world.update_convs(1) world.select_convs)

lemma keeps_but_mono: "keeps_but w B v \<Longrightarrow> B \<subseteq> C \<Longrightarrow> keeps_but w C v"
  unfolding keeps_but_def by blast

lemma keeps_keeps_but: "keeps w b v \<Longrightarrow> keeps_but w {b} v"
  by (simp add: keeps_def keeps_but_def)

lemma keeps_but_new:
  assumes "keeps w None v" and "keeps_but v B v'" and "\<forall>b \<in> B. \<exists>n. b = Some n \<and> length (bufs w) \<le> n"
  shows "keeps w None v'"
proof -
  have "hdr_ok v' x \<and> value_of v' x = value_of w x" if x: "hdr_ok w x" for x
  proof -
    have "buf_of x \<noteq> None" "\<And>n. buf_of x = Some n \<Longrightarrow> n < length (bufs w)"
      using x by (auto simp: hdr_ok_def buf_of_def split: option.splits)
    then have "buf_of x \<notin> B" "buf_of x \<noteq> None" using assms(3) by fastforce+
    then show ?thesis using keepsD[OF assms(1) x] assms(2) by (simp add: keeps_but_def)
  qed
  moreover have "v' = w\<lparr>bufs := bufs v'\<rparr>" "length (bufs w) \<le> length (bufs v')"
    using assms(1,2) unfolding keeps_def keeps_but_def by (metis world.surjective world.update_convs(1) world.select_convs, linarith)
  ultimately show ?thesis by (simp add: keeps_def)
qed

subsection \<open>Results in output arguments\<close>

text \<open>
  What an operation with an output argument leaves: the image \<open>x\<close> in the returned header, which is the
  caller's or one over a new buffer; no image of another buffer changed.
\<close>

definition stored :: "world \<Rightarrow> mat \<Rightarrow> img \<Rightarrow> mat \<Rightarrow> world \<Rightarrow> bool" where
  "stored w output x o_i w' \<longleftrightarrow> value_of w' o_i = x \<and> hdr_ok w' o_i \<and> keeps w (buf_of o_i) w'
     \<and> ((o_i = output \<and> mdata output \<noteq> None) \<or> (\<exists>n. buf_of o_i = Some n \<and> length (bufs w) \<le> n))"

definition out_ok :: "world \<Rightarrow> mat \<Rightarrow> bool" where
  "out_ok w output \<longleftrightarrow> mdata output = None \<or> hdr_ok w output"

lemma out_ok_new [simp]: "out_ok w mat_default"
  by (simp add: out_ok_def mat_default_def)

lemma out_ok_keeps: "out_ok w output \<Longrightarrow> keeps w b v \<Longrightarrow> out_ok v output"
  using keepsD(1) by (auto simp: out_ok_def)

lemma storedD:
  assumes "stored w output x o_i w'"
  shows "value_of w' o_i = x" "hdr_ok w' o_i" "keeps w (buf_of o_i) w'"
    "mtype o_i = itype x" "nrows o_i = irows x" "ncols o_i = icols x"
  using assms value_of_eqD[of w' o_i x] by (auto simp: stored_def)

lemma stored_new: "stored w mat_default x o_i w' \<Longrightarrow> keeps w None w'"
  by (auto simp: stored_def mat_default_def dest: keeps_fresh)

lemma put_out_stored: "img_ok v \<Longrightarrow> out_ok w m \<Longrightarrow> \<exists>m' w'. put_out m v w = Inr (m', w') \<and> stored w m v m' w'"
  using put_out_ok[of v m w] unfolding out_ok_def stored_def by (metis order_refl)

lemma stored_after:
  assumes k: "keeps w None v" and s: "stored v output x o_i v'"
  shows "stored w output x o_i v'"
  using s keeps_trans[OF keeps_weaken[OF k]] keeps_length[OF k] unfolding stored_def by (meson order_trans)

text \<open>An image apart from the output is as before.\<close>

lemma stored_other:
  assumes "stored w output x o_i w'" and "hdr_ok w y" and "buf_of y \<noteq> buf_of output"
  shows "hdr_ok w' y" and "value_of w' y = value_of w y"
proof -
  have "buf_of y \<noteq> buf_of o_i"
    using assms by (auto simp: stored_def) (auto simp: hdr_ok_def buf_of_def split: option.splits)
  then show "hdr_ok w' y" "value_of w' y = value_of w y"
    using keepsD[OF _ assms(2)] storedD(3)[OF assms(1)] by blast+
qed

subsection \<open>Loops that fill two single-channel images\<close>

text \<open>
  \<open>pair_written w p q S F G v\<close>: \<open>v\<close> is \<open>w\<close> with the elements \<open>S\<close> of \<open>p\<close> set to \<open>F\<close> and those of \<open>q\<close> to
  \<open>G\<close>, and nothing else changed.
\<close>

definition pair_written :: "world \<Rightarrow> mat \<Rightarrow> mat \<Rightarrow> (nat \<times> nat) set \<Rightarrow> (nat \<Rightarrow> nat \<Rightarrow> fp) \<Rightarrow> (nat \<Rightarrow> nat \<Rightarrow> fp) \<Rightarrow> world \<Rightarrow> bool" where
  "pair_written w p q S F G v \<longleftrightarrow> v = w\<lparr>bufs := bufs v\<rparr> \<and> same_shape v w
     \<and> (\<forall>i k. (i, k) \<in> S \<longrightarrow> cell v p i k = F i k \<and> cell v q i k = G i k)
     \<and> (\<forall>x. hdr_ok w x \<longrightarrow> buf_of x \<noteq> buf_of p \<longrightarrow> buf_of x \<noteq> buf_of q \<longrightarrow> value_of v x = value_of w x)"

lemma pair_written_start: "pair_written w p q {} F G w"
  by (simp add: pair_written_def)

definition pair_ok :: "world \<Rightarrow> mat \<Rightarrow> mat \<Rightarrow> bool" where
  "pair_ok w p q \<longleftrightarrow> hdr_ok w p \<and> hdr_ok w q \<and> depth p = CV_64F \<and> depth q = CV_64F
     \<and> nrows p = nrows q \<and> rowlen p = rowlen q \<and> buf_of p \<noteq> buf_of q"

lemma pair_written_step:
  assumes u: "pair_written w p q S F G v" and pq: "pair_ok w p q"
    and S: "S \<subseteq> places (nrows p) (rowlen p)" and ik: "i < nrows p" "k < rowlen p"
  shows "\<exists>v'. thenA (store p i k (F i k)) (store q i k (G i k)) v = Inr ((), v') \<and> pair_written w p q (insert (i, k) S) F G v'"
proof -
  have ok: "hdr_ok w p" "hdr_ok w q" and d: "depth p = CV_64F" "depth q = CV_64F"
    and sz: "nrows q = nrows p" "rowlen q = rowlen p" and sep: "buf_of p \<noteq> buf_of q"
    using pq by (simp_all add: pair_ok_def)
  have sh: "same_shape v w" using u by (simp add: pair_written_def)
  note okv = hdr_ok_same_shape[OF ok(1) sh] hdr_ok_same_shape[OF ok(2) sh]
  obtain v1 where v1: "store p i k (F i k) v = Inr ((), v1)" "updated v p {(i, k)} F v1"
    using updated_store[OF updated_none okv(1) _ d(1) ik refl, of F] by auto
  note ok1 = updated_hdr_ok[OF v1(2) okv(1)] updated_hdr_ok[OF v1(2) okv(2)]
  obtain v2 where v2: "store q i k (G i k) v1 = Inr ((), v2)" "updated v1 q {(i, k)} G v2"
    using updated_store[OF updated_none ok1(2) _ d(2), of i k "G i k" G] ik sz by auto
  have one: "{(i, k)} \<subseteq> places (nrows p) (rowlen p)" "{(i, k)} \<subseteq> places (nrows q) (rowlen q)" using ik sz by auto
  have "cell v2 p a l = F a l \<and> cell v2 q a l = G a l" if al: "(a, l) \<in> insert (i, k) S" for a l
  proof -
    have r: "a < nrows p" "l < rowlen p" using al S ik by auto
    have p2: "cell v2 p a l = cell v1 p a l" using updated_other_buffer[OF v2(2) sep ok1(1) r] .
    have q1: "cell v1 q a l = cell v q a l" using updated_other_buffer[OF v1(2) _ okv(2)] sep r sz by auto
    show ?thesis
    proof (cases "(a, l) = (i, k)")
      case True
      then show ?thesis using p2 updated_cell[OF v1(2)] updated_cell[OF v2(2)] by simp
    next
      case False
      then have "(a, l) \<in> S" using al by auto
      then have "cell v p a l = F a l" "cell v q a l = G a l" using u by (auto simp: pair_written_def)
      moreover have "cell v1 p a l = cell v p a l" using False updated_other_place[OF v1(2) okv(1) one(1) r] by auto
      moreover have "cell v2 q a l = cell v1 q a l" using False updated_other_place[OF v2(2) ok1(2) one(2)] r sz by auto
      ultimately show ?thesis using p2 q1 by simp
    qed
  qed
  moreover have "value_of v2 x = value_of w x" if "hdr_ok w x" "buf_of x \<noteq> buf_of p" "buf_of x \<noteq> buf_of q" for x
  proof -
    have okx: "hdr_ok v x" using hdr_ok_same_shape[OF that(1) sh] .
    have "value_of v2 x = value_of v1 x"
      using keepsD(2)[OF updated_keeps[OF v2(2)] updated_hdr_ok[OF v1(2) okx] that(3)] .
    also have "\<dots> = value_of v x" using keepsD(2)[OF updated_keeps[OF v1(2)] okx that(2)] .
    finally show ?thesis using u that by (simp add: pair_written_def)
  qed
  moreover have "same_shape v2 w"
    using updated_shape[OF v1(2)] updated_shape[OF v2(2)] sh by (meson same_shape_trans)
  moreover have "v2 = w\<lparr>bufs := bufs v2\<rparr>"
    using u v1(2) v2(2) unfolding pair_written_def updated_def by (metis world.surjective world.update_convs(1) world.select_convs)
  ultimately have "pair_written w p q (insert (i, k) S) F G v2" by (simp add: pair_written_def)
  then show ?thesis using v1(1) v2(1) by simp
qed

definition scanned :: "nat \<Rightarrow> nat \<Rightarrow> nat \<Rightarrow> (nat \<times> nat) set" where
  "scanned c i j = {(a, k). (a < i \<and> k < c) \<or> (a = i \<and> k < j)}"

lemma scanned_simps [simp]: "scanned c 0 0 = {}" "scanned c (Suc i) 0 = scanned c i c"
  "scanned c i (Suc j) = insert (i, j) (scanned c i j)"
  by (auto simp: scanned_def)

lemma scanned_all: "scanned c r 0 = places r c"
  by (auto simp: scanned_def places_def)

lemma pair_loop:
  assumes pq: "pair_ok w p q" and sz: "r \<le> nrows p" "c \<le> rowlen p"
    and body: "\<And>i j v. i < r \<Longrightarrow> j < c \<Longrightarrow> pair_written w p q (scanned c i j) F G v \<Longrightarrow>
      body i j v = thenA (store p i j (F i j)) (store q i j (G i j)) v"
  shows "\<exists>v. for_each [0..<r] (\<lambda>i. for_each [0..<c] (body i)) w = Inr ((), v) \<and> pair_written w p q (places r c) F G v"
proof -
  have row: "\<exists>v'. for_each [0..<c] (body i) v = Inr ((), v') \<and> pair_written w p q (scanned c (Suc i) 0) F G v'"
    if "i < r" "pair_written w p q (scanned c i 0) F G v" for i v
  proof -
    have "\<exists>v'. body i j u = Inr ((), v') \<and> pair_written w p q (scanned c i (Suc j)) F G v'"
      if j: "j < c" "pair_written w p q (scanned c i j) F G u" for j u
    proof -
      have "scanned c i j \<subseteq> places (nrows p) (rowlen p)" using sz \<open>i < r\<close> j(1) by (auto simp: scanned_def)
      then show ?thesis using pair_written_step[OF j(2) pq] body[OF \<open>i < r\<close> j] sz \<open>i < r\<close> j(1) by simp
    qed
    from for_each_inv[of "\<lambda>j. pair_written w p q (scanned c i j) F G" v c "body i", OF that(2) this] show ?thesis by simp
  qed
  have "\<exists>v. for_each [0..<r] (\<lambda>i. for_each [0..<c] (body i)) w = Inr ((), v) \<and> pair_written w p q (scanned c r 0) F G v"
    by (rule for_each_inv[of "\<lambda>i. pair_written w p q (scanned c i 0) F G"]) (use row pair_written_start in auto)
  then show ?thesis by (simp add: scanned_all)
qed

text \<open>The images after the loop.\<close>

lemma pair_result:
  assumes u: "pair_written w p q (places (nrows p) (rowlen p)) F G v" and pq: "pair_ok w p q"
  shows "hdr_ok v p" "hdr_ok v q" "\<And>i k. i < nrows p \<Longrightarrow> k < rowlen p \<Longrightarrow> img_at (value_of v p) i k = F i k"
    and "\<And>i k. i < nrows p \<Longrightarrow> k < rowlen p \<Longrightarrow> img_at (value_of v q) i k = G i k"
    and "keeps_but w {buf_of p, buf_of q} v"
proof -
  have sh: "same_shape v w" using u by (simp add: pair_written_def)
  show "hdr_ok v p" "hdr_ok v q" using pq hdr_ok_same_shape[OF _ sh] by (simp_all add: pair_ok_def)
  show "img_at (value_of v p) i k = F i k" "img_at (value_of v q) i k = G i k" if "i < nrows p" "k < rowlen p" for i k
    using u pq that by (simp_all add: img_at_value_of pair_written_def pair_ok_def)
  show "keeps_but w {buf_of p, buf_of q} v"
    using u hdr_ok_same_shape[OF _ sh] same_shape_length[OF sh] by (auto simp: keeps_but_def pair_written_def)
qed

end
