(* ===== verification/CircShift.thy ===== *)
theory CircShift
  imports CvLib
begin

text \<open>
  \<open>circularShift\<close>, \<open>fftShift\<close> and \<open>ifftShift\<close> of jni-native/jni/cvComplex.cpp: four rectangles of one
  image are copied to four rectangles of another. The specification \<open>shift_img\<close> rotates rows and
  columns of an image's value; the rotations form a group action, stated as the locale
  \<open>torus_action\<close> and interpreted on \<open>shift_img\<close>.
\<close>

subsection \<open>Rectangles of an image\<close>

text \<open>
  \<open>m(roi)\<close> makes "a header for a part of another array", which "references the same data"
  (core/mat.hpp); a rectangle not inside the array is an error.
\<close>

definition sub :: "mat \<Rightarrow> rect \<Rightarrow> mat" where
  "sub m r = m\<lparr>mrows := rheight r, mcols := rwidth r,
     mdata := map_option (\<lambda>(b, a). (b, a + mstep m * nat (ry r) + nat (rx r) * nch m)) (mdata m)\<rparr>"

definition inside :: "mat \<Rightarrow> rect \<Rightarrow> bool" where
  "inside m r \<longleftrightarrow> 0 \<le> rx r \<and> 0 \<le> ry r \<and> 0 \<le> rwidth r \<and> 0 \<le> rheight r
     \<and> rx r + rwidth r \<le> mcols m \<and> ry r + rheight r \<le> mrows m"

definition roi_law :: "opencv \<Rightarrow> bool" where
  "roi_law cv \<longleftrightarrow> (\<forall>m r. inside m r \<longrightarrow> 0 < rwidth r \<longrightarrow> 0 < rheight r \<longrightarrow> lib_roi cv m r = Inr (sub m r))"

definition roi_reject_law :: "opencv \<Rightarrow> bool" where
  "roi_reject_law cv \<longleftrightarrow> (\<forall>m r. \<not> inside m r \<longrightarrow> lib_roi cv m r = Inl CvException)"

text \<open>A copy to an array of the same type.\<close>

definition copy_fixed_law :: "opencv \<Rightarrow> bool" where
  "copy_fixed_law cv \<longleftrightarrow> (\<forall>v. 0 < irows v \<longrightarrow> 0 < icols v \<longrightarrow> lib_copyFixed cv v (itype v) = Inr v)"

lemma sub_sel [simp]: "mtype (sub m r) = mtype m" "mrows (sub m r) = rheight r" "mcols (sub m r) = rwidth r"
  "mstep (sub m r) = mstep m" "nrows (sub m r) = nat (rheight r)" "ncols (sub m r) = nat (rwidth r)"
  "nch (sub m r) = nch m" "rowlen (sub m r) = nat (rwidth r) * nch m"
  by (simp_all add: sub_def nrows_def ncols_def nch_def channels_def rowlen_def)

lemma sub_buf [simp]: "buf_of (sub m r) = buf_of m"
  by (cases "mdata m") (auto simp: sub_def buf_of_def)

lemma sub_data: "mdata m = Some (b, a) \<Longrightarrow> mdata (sub m r) = Some (b, a + mstep m * nat (ry r) + nat (rx r) * nch m)"
  by (simp add: sub_def)

lemma sub_place: "a + s * y + x + s * i + k = a + s * (y + i) + (x + k)" for a s y x i k :: nat
  by (simp add: algebra_simps)

lemma sub_cell:
  assumes "mdata m \<noteq> None"
  shows "cell w (sub m r) i k = cell w m (nat (ry r) + i) (nat (rx r) * nch m + k)"
  using assms by (auto simp: cell_def sub_data sub_place)

lemma inside_row: "inside m r \<Longrightarrow> i < nat (rheight r) \<Longrightarrow> nat (ry r) + i < nrows m"
  by (simp add: inside_def nrows_def) linarith

lemma inside_col:
  assumes "inside m r" and "k < nat (rwidth r) * nch m"
  shows "nat (rx r) * nch m + k < rowlen m"
proof -
  have "nat (rx r) + nat (rwidth r) \<le> ncols m" using assms(1) by (simp add: inside_def ncols_def) linarith
  then have "(nat (rx r) + nat (rwidth r)) * nch m \<le> rowlen m" by (simp add: rowlen_def)
  then show ?thesis using assms(2) by (simp add: add_mult_distrib)
qed

lemma sub_hdr_ok [wf_intros]:
  assumes ok: "hdr_ok w m" and i: "inside m r" and p: "0 < rwidth r" "0 < rheight r"
  shows "hdr_ok w (sub m r)"
proof -
  from ok obtain b a where m: "mdata m = Some (b, a)" "b < length (bufs w)" "rowlen m \<le> mstep m"
    and inb: "\<And>i k. i < nrows m \<Longrightarrow> k < rowlen m \<Longrightarrow> a + mstep m * i + k < length (bufs w ! b)"
    by (elim hdr_okE) blast
  let ?l = "nat (rwidth r) * nch m" and ?i = "nat (rheight r) - 1"
  have l: "0 < ?l" using p by simp
  then have last: "nat (rx r) * nch m + (?l - 1) < rowlen m" by (intro inside_col[OF i]) simp
  have "nat (ry r) + ?i < nrows m" using inside_row[OF i, of ?i] p by simp
  from inb[OF this last]
  have "a + mstep m * nat (ry r) + nat (rx r) * nch m + mstep m * ?i + (?l - 1) < length (bufs w ! b)"
    by (simp only: sub_place)
  then have "a + mstep m * nat (ry r) + nat (rx r) * nch m + mstep m * ?i + ?l \<le> length (bufs w ! b)"
    using l by linarith
  then show ?thesis using m last p by (simp add: hdr_ok_def sub_data)
qed

subsection \<open>Updates through a rectangle\<close>

definition block :: "mat \<Rightarrow> rect \<Rightarrow> (nat \<times> nat) set" where
  "block m r = {(i, k). nat (ry r) \<le> i \<and> i < nat (ry r) + nat (rheight r)
     \<and> nat (rx r) * nch m \<le> k \<and> k < nat (rx r) * nch m + nat (rwidth r) * nch m}"

lemma block_places: "inside m r \<Longrightarrow> block m r \<subseteq> places (nrows m) (rowlen m)"
  using inside_row[of m r] inside_col[of m r]
  by (auto simp: block_def) (metis le_add_diff_inverse nat_add_left_cancel_less)+

lemma sub_updated:
  assumes u: "updated w (sub m r) (places (nat (rheight r)) (nat (rwidth r) * nch m)) G v"
    and ok: "hdr_ok w m"
    and F: "\<And>i k. i < nat (rheight r) \<Longrightarrow> k < nat (rwidth r) * nch m \<Longrightarrow>
      G i k = F (nat (ry r) + i) (nat (rx r) * nch m + k)"
  shows "updated w m (block m r) F v"
proof -
  from ok obtain b a where m: "mdata m = Some (b, a)" by (elim hdr_okE)
  have "cell v m i k = F i k" if ik: "(i, k) \<in> block m r" for i k
  proof -
    obtain i' k' where e: "i = nat (ry r) + i'" "k = nat (rx r) * nch m + k'"
      using ik unfolding block_def by (auto simp: le_iff_add)
    with ik have l: "i' < nat (rheight r)" "k' < nat (rwidth r) * nch m" by (auto simp: block_def)
    have "cell v (sub m r) i' k' = G i' k'" using updated_cell[OF u] l by simp
    then show ?thesis using F[OF l] e m by (simp add: sub_cell)
  qed
  moreover have "touches m (block m r) c e"
    if t: "touches (sub m r) (places (nat (rheight r)) (nat (rwidth r) * nch m)) c e" for c e
  proof -
    from t obtain i k where ik: "i < nat (rheight r)" "k < nat (rwidth r) * nch m" "c = b"
      "e = a + mstep m * nat (ry r) + nat (rx r) * nch m + mstep m * i + k"
      using m by (auto simp: touches_def sub_data)
    then have "(nat (ry r) + i, nat (rx r) * nch m + k) \<in> block m r" by (simp add: block_def)
    then show ?thesis unfolding touches_def using ik m sub_place by blast
  qed
  ultimately show ?thesis using u unfolding updated_def by blast
qed

lemma updated_union:
  assumes u: "updated w m S F v" and u': "updated v m T F v'" and ok: "hdr_ok w m"
    and S: "S \<subseteq> places (nrows m) (rowlen m)" and T: "T \<subseteq> places (nrows m) (rowlen m)"
  shows "updated w m (S \<union> T) F v'"
proof -
  have "cell v' m i k = F i k" if "(i, k) \<in> S \<union> T" for i k
  proof (cases "(i, k) \<in> T")
    case True
    then show ?thesis using u' by (rule updated_cell[rotated])
  next
    case False
    then have "(i, k) \<in> S" "i < nrows m" "k < rowlen m" using that S by auto
    then show ?thesis
      using updated_other_place[OF u' updated_hdr_ok[OF u ok] T _ _ False] updated_cell[OF u] by simp
  qed
  moreover have "bufs v' ! b ! a = bufs w ! b ! a" if "valid_addr w b a" "\<not> touches m (S \<union> T) b a" for b a
  proof -
    have "\<not> touches m S b a" "\<not> touches m T b a" using that(2) by (auto simp: touches_def)
    moreover have "valid_addr v b a"
      using that(1) updated_shape[OF u] same_shape_length same_shape_nth by (fastforce simp: valid_addr_def)
    ultimately show ?thesis using u u' that(1) by (simp add: updated_def)
  qed
  moreover have "v' = w\<lparr>bufs := bufs v'\<rparr>"
    using u u' unfolding updated_def by (metis world.surjective world.update_convs(1) world.select_convs)
  moreover have "same_shape v' w" using u u' by (meson same_shape_trans updated_shape)
  ultimately show ?thesis by (simp add: updated_def)
qed

subsection \<open>The code\<close>

text \<open>\<open>src.copyTo(cv::Mat(result, out))\<close>: the target is a temporary header, whose type is fixed.\<close>

definition copy_rect :: "opencv \<Rightarrow> mat \<Rightarrow> mat \<Rightarrow> rect \<Rightarrow> unit cvact" where
  "copy_rect cv src result out = bindA (liftA (lib_roi cv result out)) (\<lambda>dst.
     bindA (fetch src) (\<lambda>v. bindA (liftA (lib_copyFixed cv v (mtype dst))) (put_fixed dst)))"

definition mk_rect :: "int \<Rightarrow> int \<Rightarrow> int \<Rightarrow> int \<Rightarrow> rect" where
  "mk_rect x y width height = \<lparr>rx = x, ry = y, rwidth = width, rheight = height\<rparr>"

lemma mk_rect_sel [simp]: "rx (mk_rect x y a b) = x" "ry (mk_rect x y a b) = y"
  "rwidth (mk_rect x y a b) = a" "rheight (mk_rect x y a b) = b"
  by (simp_all add: mk_rect_def)

text \<open>\<open>int shiftR = x % w; if (shiftR < 0) shiftR += w;\<close> (a zero \<open>w\<close> is a division by zero).\<close>

definition shift_amount :: "int \<Rightarrow> int \<Rightarrow> err + int" where
  "shift_amount x w = (if w = 0 then Inl DivByZero
     else Inr (if c_mod x w < 0 then c_mod x w + w else c_mod x w))"

definition circularShift :: "opencv \<Rightarrow> mat \<Rightarrow> mat \<Rightarrow> int \<Rightarrow> int \<Rightarrow> unit cvact" where
  "circularShift cv img result x y = (let w = mcols img; h = mrows img in
     bindA (liftA (shift_amount x w)) (\<lambda>shiftR.
     bindA (liftA (shift_amount y h)) (\<lambda>shiftD.
     bindA (liftA (lib_roi cv img (mk_rect 0 0 (w - shiftR) (h - shiftD)))) (\<lambda>shift1.
     bindA (liftA (lib_roi cv img (mk_rect (w - shiftR) 0 shiftR (h - shiftD)))) (\<lambda>shift2.
     bindA (liftA (lib_roi cv img (mk_rect 0 (h - shiftD) (w - shiftR) shiftD))) (\<lambda>shift3.
     bindA (liftA (lib_roi cv img (mk_rect (w - shiftR) (h - shiftD) shiftR shiftD))) (\<lambda>shift4.
     thenA (copy_rect cv shift1 result (mk_rect shiftR shiftD (w - shiftR) (h - shiftD)))
    (thenA (copy_rect cv shift2 result (mk_rect 0 shiftD shiftR (h - shiftD)))
    (thenA (copy_rect cv shift3 result (mk_rect shiftR 0 (w - shiftR) shiftD))
           (copy_rect cv shift4 result (mk_rect 0 0 shiftR shiftD)))))))))))"

definition ceil_half :: "int \<Rightarrow> int" where
  "ceil_half n = \<lceil>rat_of_int n / 2\<rceil>"

definition floor_half :: "int \<Rightarrow> int" where
  "floor_half n = \<lfloor>rat_of_int n / 2\<rfloor>"

definition shift_half :: "(int \<Rightarrow> int) \<Rightarrow> opencv \<Rightarrow> mat \<Rightarrow> mat \<Rightarrow> mat cvact" where
  "shift_half half cv input output = (if mdata input = mdata output \<or> empty output
     then bindA (zeros_mat cv (mcols input) (mrows input) (mtype input)) (\<lambda>shifted.
       thenA (circularShift cv input shifted (half (mcols input)) (half (mrows input)))
             (clone cv shifted))
     else thenA (circularShift cv input output (half (mcols input)) (half (mrows input))) (retA output))"

definition fftShift :: "opencv \<Rightarrow> mat \<Rightarrow> mat \<Rightarrow> mat cvact" where
  "fftShift = shift_half ceil_half"

definition ifftShift :: "opencv \<Rightarrow> mat \<Rightarrow> mat \<Rightarrow> mat cvact" where
  "ifftShift = shift_half floor_half"

lemma ceil_half_eq: "ceil_half n = (n + 1) div 2"
proof -
  have "\<lceil>rat_of_int n / 2\<rceil> = - \<lfloor>- rat_of_int n / rat_of_int 2\<rfloor>" by (simp add: ceiling_def)
  also have "\<dots> = - (- n div 2)" using floor_divide_of_int_eq[of "- n" 2, where ?'a = rat] by simp
  also have "\<dots> = (n + 1) div 2" by linarith
  finally show ?thesis by (simp add: ceil_half_def)
qed

lemma floor_half_eq: "floor_half n = n div 2"
  using floor_divide_of_int_eq[of n 2, where ?'a = rat] by (simp add: floor_half_def)

lemma shift_amount_ok [act_simps]: "0 < w \<Longrightarrow> shift_amount x w = Inr (x mod w)"
  using c_mod_fix[of w x] by (simp add: shift_amount_def)

subsection \<open>One rectangle\<close>

definition shift_lib :: "opencv \<Rightarrow> bool" where
  "shift_lib cv \<longleftrightarrow> roi_law cv \<and> copy_fixed_law cv"

lemma rects_roi: "shift_lib cv \<Longrightarrow> inside m r \<Longrightarrow> 0 < rwidth r \<Longrightarrow> 0 < rheight r \<Longrightarrow> lib_roi cv m r = Inr (sub m r)"
  by (simp add: shift_lib_def roi_law_def)

lemma value_of_sub:
  assumes "hdr_ok w m" and "inside m r" and "i < nat (rheight r)" and "k < nat (rwidth r) * nch m"
  shows "img_at (value_of w (sub m r)) i k = cell w m (nat (ry r) + i) (nat (rx r) * nch m + k)"
  using assms by (simp add: img_at_value_of) (auto simp: sub_cell elim: hdr_okE)

lemma copy_rect_ok:
  assumes cv: "shift_lib cv" and pos: "0 < rwidth g" "0 < rheight g" and img: "hdr_ok w img" and res: "hdr_ok w result"
    and sep: "buf_of img \<noteq> buf_of result" and t: "mtype img = mtype result"
    and u: "updated w result S F v" and S: "S \<subseteq> places (nrows result) (rowlen result)"
    and g: "inside img g" and out: "inside result out" and sz: "rwidth out = rwidth g" "rheight out = rheight g"
    and F: "\<And>i k. i < nat (rheight g) \<Longrightarrow> k < nat (rwidth g) * nch img \<Longrightarrow>
      F (nat (ry out) + i) (nat (rx out) * nch img + k) = cell w img (nat (ry g) + i) (nat (rx g) * nch img + k)"
  shows "\<exists>v'. copy_rect cv (sub img g) result out v = Inr ((), v') \<and> updated w result (S \<union> block result out) F v'"
proof -
  have n: "nch img = nch result" using t by (simp add: nch_def channels_def)
  note okv = updated_hdr_ok[OF u res] updated_hdr_ok[OF u img]
  have ok: "hdr_ok v (sub result out)" "hdr_ok v (sub img g)"
    using sub_hdr_ok[OF okv(1) out] sub_hdr_ok[OF okv(2) g] sz pos by simp_all
  let ?x = "value_of v (sub img g)"
  have "\<forall>v. 0 < irows v \<longrightarrow> 0 < icols v \<longrightarrow> lib_copyFixed cv v (itype v) = Inr v"
    using cv by (simp add: shift_lib_def copy_fixed_law_def)
  from spec[OF this, of ?x] have "lib_copyFixed cv ?x (mtype (sub result out)) = Inr ?x" using pos t by simp
  moreover have "put_fixed (sub result out) ?x v = Inr ((), write_img (sub result out) ?x v)"
    using ok(1) t sz by (auto simp: put_fixed_def elim: hdr_okE)
  ultimately have "copy_rect cv (sub img g) result out v = Inr ((), write_img (sub result out) ?x v)"
    using pos sz rects_roi[OF cv out] fetch_ok[OF ok(2)] by (simp add: copy_rect_def)
  moreover have "updated v result (block result out) F (write_img (sub result out) ?x v)"
  proof (rule sub_updated[OF _ okv(1)])
    show "updated v (sub result out) (places (nat (rheight out)) (nat (rwidth out) * nch result))
        (img_at ?x) (write_img (sub result out) ?x v)"
      using write_img_updated[OF ok(1), of ?x] by simp
    fix i k assume ik: "i < nat (rheight out)" "k < nat (rwidth out) * nch result"
    then have ik': "i < nat (rheight g)" "k < nat (rwidth g) * nch img" using sz n by simp_all
    have "img_at ?x i k = cell v img (nat (ry g) + i) (nat (rx g) * nch img + k)"
      by (rule value_of_sub[OF okv(2) g ik'])
    also have "\<dots> = cell w img (nat (ry g) + i) (nat (rx g) * nch img + k)"
      by (rule updated_other_buffer[OF u sep img inside_row[OF g ik'(1)] inside_col[OF g ik'(2)]])
    finally show "img_at ?x i k = F (nat (ry out) + i) (nat (rx out) * nch result + k)"
      using F[OF ik'] n by simp
  qed
  ultimately show ?thesis using updated_union[OF u _ res S block_places[OF out]] by blast
qed

subsection \<open>The specification: rotation of an image\<close>

definition torus :: "nat \<Rightarrow> int \<Rightarrow> nat \<Rightarrow> nat" where
  "torus n s i = nat ((int i - s) mod int n)"

definition shift_img :: "int \<Rightarrow> int \<Rightarrow> img \<Rightarrow> img" where
  "shift_img x y v = v\<lparr>idata := map (\<lambda>i. map (\<lambda>k. img_at v (torus (irows v) y i)
       (torus (icols v) x (k div icn v) * icn v + k mod icn v)) [0..<irowlen v]) [0..<irows v]\<rparr>"

lemma shift_img_sel [simp]: "itype (shift_img x y v) = itype v" "irows (shift_img x y v) = irows v"
  "icols (shift_img x y v) = icols v" "icn (shift_img x y v) = icn v" "irowlen (shift_img x y v) = irowlen v"
  by (simp_all add: shift_img_def icn_def irowlen_def)

lemma shift_img_at: "i < irows v \<Longrightarrow> k < irowlen v \<Longrightarrow> img_at (shift_img x y v) i k =
  img_at v (torus (irows v) y i) (torus (icols v) x (k div icn v) * icn v + k mod icn v)"
  by (simp add: img_at_def shift_img_def)

lemma shift_img_ok [simp]: "img_ok (shift_img x y v)"
  by (auto simp: img_ok_def) (auto simp: shift_img_def)

lemma torus_less: "i < n \<Longrightarrow> torus n s i < n"
  by (simp add: torus_def nat_less_iff)

lemma torus_high:
  assumes "s mod int n \<le> int i" and "i < n"
  shows "torus n s i = nat (int i - s mod int n)"
proof -
  have "(int i - s) mod int n = (int i - s mod int n) mod int n" by (simp add: mod_simps)
  also have "0 \<le> s mod int n" using assms(2) by simp
  then have "(int i - s mod int n) mod int n = int i - s mod int n"
    using assms by (intro mod_pos_pos_trivial) linarith+
  finally show ?thesis by (simp add: torus_def)
qed

lemma torus_low:
  assumes "int i < s mod int n" and "0 < n"
  shows "torus n s i = nat (int n + int i - s mod int n)"
proof -
  have "(int i - s) mod int n = (int n + (int i - s)) mod int n" by simp
  also have "\<dots> = (int n + int i - s mod int n) mod int n" by (simp add: mod_simps add_diff_eq)
  also have "s mod int n < int n" using assms(2) by simp
  then have "(int n + int i - s mod int n) mod int n = int n + int i - s mod int n"
    using assms by (intro mod_pos_pos_trivial) linarith+
  finally show ?thesis by (simp add: torus_def)
qed

text \<open>One rectangle of the rotation: rows and columns move by a constant.\<close>

lemma shift_img_block:
  assumes v: "i < ht" "k < wd * icn v" and oy: "oy + ht \<le> irows v" and ox: "ox + wd \<le> icols v"
    and row: "\<And>i. i < ht \<Longrightarrow> torus (irows v) y (oy + i) = gy + i"
    and col: "\<And>j. j < wd \<Longrightarrow> torus (icols v) x (ox + j) = gx + j"
  shows "img_at (shift_img x y v) (oy + i) (ox * icn v + k) = img_at v (gy + i) (gx * icn v + k)"
proof -
  have j: "k div icn v < wd" using v(2) by (simp add: less_mult_imp_div_less)
  have "(ox + wd) * icn v \<le> irowlen v" using ox by (simp add: irowlen_def)
  then have "ox * icn v + k < irowlen v" using v(2) by (simp add: add_mult_distrib)
  then show ?thesis using v(1) oy row[OF v(1)] col[OF j] by (simp add: shift_img_at add_mult_distrib add.assoc)
qed

subsection \<open>\<open>circularShift\<close> rotates\<close>


lemma torus_parts:
  assumes "0 < h"
  shows "i < nat (h - s mod h) \<Longrightarrow> torus (nat h) s (nat (s mod h) + i) = 0 + i"
    and "i < nat (s mod h) \<Longrightarrow> torus (nat h) s (0 + i) = nat (h - s mod h) + i"
proof -
  have b: "0 \<le> s mod h" "s mod h < h" using assms by simp_all
  assume "i < nat (h - s mod h)"
  then have "nat (s mod h) + i < nat h" using b by linarith
  then show "torus (nat h) s (nat (s mod h) + i) = 0 + i" using torus_high[of s "nat h" "nat (s mod h) + i"] assms b(1) by simp
next
  have b: "0 \<le> s mod h" "s mod h < h" using assms by simp_all
  assume "i < nat (s mod h)"
  then have "int i < s mod h" by simp
  moreover from this have "nat (h + int i - s mod h) = nat (h - s mod h) + i" using b by linarith
  ultimately show "torus (nat h) s (0 + i) = nat (h - s mod h) + i" using torus_low[of i s "nat h"] assms by simp
qed

lemma shifted_cell:
  assumes "\<And>i. i < ht \<Longrightarrow> torus (nrows img) y (oy + i) = gy + i" "\<And>j. j < wd \<Longrightarrow> torus (ncols img) x (ox + j) = gx + j"
    and "oy + ht \<le> nrows img" "ox + wd \<le> ncols img" "gy + ht \<le> nrows img" "gx + wd \<le> ncols img" "i < ht" "k < wd * nch img"
  shows "img_at (shift_img x y (value_of w img)) (oy + i) (ox * nch img + k) = cell w img (gy + i) (gx * nch img + k)"
proof -
  have "(gx + wd) * nch img \<le> rowlen img" using assms(6) by (simp add: rowlen_def)
  then have "gx * nch img + k < rowlen img" using assms(8) by (simp add: add_mult_distrib)
  moreover have "gy + i < nrows img" using assms(5,7) by simp
  ultimately show ?thesis using shift_img_block[of i ht k wd "value_of w img" oy ox y gy x gx] assms by (simp add: img_at_value_of)
qed

lemma circularShift_updated:
  assumes cv: "shift_lib cv" and turn: "x mod mcols img \<noteq> 0" "y mod mrows img \<noteq> 0"
    and img: "hdr_ok w img" "0 < mcols img" "0 < mrows img"
    and res: "hdr_ok w result" and sep: "buf_of img \<noteq> buf_of result" and t: "mtype img = mtype result"
    and sz: "mrows img = mrows result" "mcols img = mcols result"
  shows "\<exists>v. circularShift cv img result x y w = Inr ((), v)
    \<and> updated w result (places (nrows result) (rowlen result)) (img_at (shift_img x y (value_of w img))) v"
proof -
  define W H R D where "W = mcols img" "H = mrows img" "R = x mod mcols img" "D = y mod mrows img"
  note defs = this
  have b: "0 < R" "R < W" "0 < D" "D < H"
    using img turn pos_mod_sign[of "mcols img" x] pos_mod_bound[of "mcols img" x] pos_mod_sign[of "mrows img" y]
      pos_mod_bound[of "mrows img" y] unfolding defs by linarith+
  let ?F = "img_at (shift_img x y (value_of w img))"
  define g1 g2 g3 g4 where "g1 = mk_rect 0 0 (W - R) (H - D)" "g2 = mk_rect (W - R) 0 R (H - D)"
    "g3 = mk_rect 0 (H - D) (W - R) D" "g4 = mk_rect (W - R) (H - D) R D"
  note gs = this
  define o1 o2 o3 o4 where "o1 = mk_rect R D (W - R) (H - D)" "o2 = mk_rect 0 D R (H - D)"
    "o3 = mk_rect R 0 (W - R) D" "o4 = mk_rect 0 0 R D"
  note os = this
  have pos: "0 < rwidth g1" "0 < rheight g1" "0 < rwidth g2" "0 < rheight g2" "0 < rwidth g3" "0 < rheight g3" "0 < rwidth g4" "0 < rheight g4"
    using b by (simp_all add: gs)
  have ins: "inside img g1" "inside img g2" "inside img g3" "inside img g4"
    "inside result o1" "inside result o2" "inside result o3" "inside result o4"
    using b sz by (auto simp: inside_def gs os defs)
  have nc: "nrows img = nat H" "ncols img = nat W" "nrows result = nat H" "rowlen result = nat W * nch img"
    "nch result = nch img"
    using sz t by (simp_all add: nrows_def ncols_def rowlen_def nch_def channels_def defs)
  have "D = y mod H" "R = x mod W" by (simp_all add: defs)
  then have row: "\<And>i. i < nat (H - D) \<Longrightarrow> torus (nat H) y (nat D + i) = 0 + i" "\<And>i. i < nat D \<Longrightarrow> torus (nat H) y (0 + i) = nat (H - D) + i"
    and col: "\<And>i. i < nat (W - R) \<Longrightarrow> torus (nat W) x (nat R + i) = 0 + i" "\<And>i. i < nat R \<Longrightarrow> torus (nat W) x (0 + i) = nat (W - R) + i"
    using torus_parts[of H _ y] torus_parts[of W _ x] b by simp_all
  note cells = shifted_cell[where img = img and w = w and x = x and y = y, unfolded nc(1,2)]
  note blk = cells[OF row(1) col(1)] cells[OF row(1) col(2)] cells[OF row(2) col(1)] cells[OF row(2) col(2)]
  note step = copy_rect_ok[OF cv _ _ img(1) res sep t]
  obtain v1 where v1: "copy_rect cv (sub img g1) result o1 w = Inr ((), v1)" "updated w result (block result o1) ?F v1"
    using step[OF pos(1,2) updated_none[of w result ?F] _ ins(1,5)] blk(1) b
    by (auto simp: gs os)
  obtain v2 where v2: "copy_rect cv (sub img g2) result o2 v1 = Inr ((), v2)"
    "updated w result (block result o1 \<union> block result o2) ?F v2"
    using step[OF pos(3,4) v1(2) _ ins(2,6)] block_places[OF ins(5)] blk(2) b
    by (auto simp: gs os)
  obtain v3 where v3: "copy_rect cv (sub img g3) result o3 v2 = Inr ((), v3)"
    "updated w result (block result o1 \<union> block result o2 \<union> block result o3) ?F v3"
    using step[OF pos(5,6) v2(2) _ ins(3,7)] block_places[OF ins(5)] block_places[OF ins(6)] blk(3) b
    by (auto simp: gs os)
  obtain v4 where v4: "copy_rect cv (sub img g4) result o4 v3 = Inr ((), v4)"
    "updated w result (block result o1 \<union> block result o2 \<union> block result o3 \<union> block result o4) ?F v4"
    using step[OF pos(7,8) v3(2) _ ins(4,8)] block_places[OF ins(5)] block_places[OF ins(6)] block_places[OF ins(7)] blk(4) b
    by (auto simp: gs os)
  have "nat R * nch img + nat (W - R) * nch img = nat W * nch img" "nat D + nat (H - D) = nat H"
    using b by (simp_all flip: add_mult_distrib add: nat_add_distrib[symmetric])
  then have "block result o1 \<union> block result o2 \<union> block result o3 \<union> block result o4
      = places (nrows result) (rowlen result)"
    by (auto simp: block_def os nc places_def)
  moreover have "shift_amount x W = Inr R" "shift_amount y H = Inr D"
    using img(2,3) by (simp_all add: shift_amount_ok defs)
  then have "circularShift cv img result x y w = Inr ((), v4)"
    using v1(1) v2(1) v3(1) v4(1) rects_roi[OF cv ins(1) pos(1,2)] rects_roi[OF cv ins(2) pos(3,4)]
      rects_roi[OF cv ins(3) pos(5,6)] rects_roi[OF cv ins(4) pos(7,8)]
    by (simp add: circularShift_def Let_def gs os flip: defs(1,2))
  ultimately show ?thesis using v4(2) by metis
qed

text \<open>The image in \<open>result\<close> is the rotated one; no image in another buffer changes.\<close>

lemma circularShift_value:
  assumes cv: "shift_lib cv" and turn: "x mod mcols img \<noteq> 0" "y mod mrows img \<noteq> 0"
    and img: "hdr_ok w img" "0 < mcols img" "0 < mrows img"
    and res: "hdr_ok w result" and sep: "buf_of img \<noteq> buf_of result" and t: "mtype img = mtype result"
    and sz: "mrows img = mrows result" "mcols img = mcols result"
  shows "\<exists>v. circularShift cv img result x y w = Inr ((), v)
    \<and> value_of v result = shift_img x y (value_of w img) \<and> keeps w (buf_of result) v"
proof -
  from circularShift_updated[OF assms] obtain v where v: "circularShift cv img result x y w = Inr ((), v)"
    "updated w result (places (nrows result) (rowlen result)) (img_at (shift_img x y (value_of w img))) v" by blast
  have "value_of v result = shift_img x y (value_of w img)"
    by (rule updated_value[OF v(2)]) (use t sz in \<open>auto simp: nrows_def ncols_def\<close>)
  then show ?thesis using v updated_keeps[OF v(2)] by blast
qed

text \<open>
  A shift by a multiple of the width or of the height leaves rectangles without a pixel, which are copied to temporary
  headers all the same. A library that refuses such a copy, as OpenCV 3.0 does (an empty source releases its
  target, which a temporary header does not allow), ends the call.
\<close>

definition refuses_empty :: "opencv \<Rightarrow> bool" where
  "refuses_empty cv \<longleftrightarrow> (\<forall>m r x. lib_roi cv m r = Inr x \<longrightarrow> rwidth r = 0 \<or> rheight r = 0 \<longrightarrow> nrows x = 0 \<or> ncols x = 0)
     \<and> (\<forall>v t. irows v = 0 \<or> icols v = 0 \<longrightarrow> lib_copyFixed cv v t = Inl CvException)"

lemma copy_rect_refused:
  assumes "refuses_empty cv" and "lib_roi cv m r = Inr src" and "rwidth r = 0 \<or> rheight r = 0"
  shows "copy_rect cv src result out w \<noteq> Inr x"
proof -
  have "nrows src = 0 \<or> ncols src = 0" using assms(2,3) conjunct1[OF assms(1)[unfolded refuses_empty_def]] by meson
  then have "\<forall>v u. fetch src w = Inr (v, u) \<longrightarrow> (\<forall>t. lib_copyFixed cv v t = Inl CvException)"
    using assms(1) by (auto simp: refuses_empty_def fetch_def empty_img_def split: if_splits)
  then show ?thesis by (auto simp: copy_rect_def bindA_def liftA_def split: sum.splits prod.splits)
qed

theorem circularShift_refuses_whole_turns:
  assumes "refuses_empty cv" and "0 < mcols img" "0 < mrows img" and "x mod mcols img = 0 \<or> y mod mrows img = 0"
  shows "circularShift cv img result x y w \<noteq> Inr r"
proof
  assume run: "circularShift cv img result x y w = Inr r"
  define W H R D where "W = mcols img" "H = mrows img" "R = x mod mcols img" "D = y mod mrows img"
  note defs = this
  have z: "R = 0 \<or> D = 0" using assms(4) by (simp add: defs)
  have "shift_amount x W = Inr R" "shift_amount y H = Inr D" using assms(2,3) by (simp_all add: shift_amount_ok defs)
  then show False
    using run z copy_rect_refused[OF assms(1), of img "mk_rect (W - R) 0 R (H - D)"]
      copy_rect_refused[OF assms(1), of img "mk_rect 0 (H - D) (W - R) D"]
    by (auto simp: circularShift_def Let_def bindA_def thenA_def liftA_def split: sum.splits prod.splits simp flip: defs(1,2))
qed

subsection \<open>The rotations as a group action\<close>

locale torus_action =
  fixes ok :: "'a \<Rightarrow> bool" and width height :: "'a \<Rightarrow> int" and act :: "int \<Rightarrow> int \<Rightarrow> 'a \<Rightarrow> 'a"
  assumes act_ok: "ok a \<Longrightarrow> ok (act x y a)"
    and act_size: "width (act x y a) = width a" "height (act x y a) = height a"
    and act_zero: "ok a \<Longrightarrow> act 0 0 a = a"
    and act_add: "ok a \<Longrightarrow> act x y (act x' y' a) = act (x + x') (y + y') a"
    and act_mod: "ok a \<Longrightarrow> act (x mod width a) (y mod height a) a = act x y a"
begin

lemma act_inverse: "ok a \<Longrightarrow> act (- x) (- y) (act x y a) = a"
  by (simp add: act_add act_zero)

lemma act_commute: "ok a \<Longrightarrow> act x y (act x' y' a) = act x' y' (act x y a)"
  by (simp add: act_add add.commute)

lemma act_full_turn:
  assumes "ok a" and "width a dvd x + x'" and "height a dvd y + y'"
  shows "act x y (act x' y' a) = a"
proof -
  have "act x y (act x' y' a) = act ((x + x') mod width a) ((y + y') mod height a) a"
    using assms(1) by (simp add: act_add act_mod)
  then show ?thesis using assms by (simp add: act_zero)
qed

end

lemma torus_add: "i < n \<Longrightarrow> torus n x (torus n y i) = torus n (x + y) i"
  by (simp add: torus_def mod_simps algebra_simps)

lemma torus_zero: "i < n \<Longrightarrow> torus n 0 i = i"
  by (simp add: torus_def)

lemma torus_mod: "torus n (x mod int n) i = torus n x i"
  by (simp add: torus_def mod_simps)

lemma shift_img_zero: "img_ok v \<Longrightarrow> shift_img 0 0 v = v"
  by (rule img_eqI) (auto simp: shift_img_at torus_zero irowlen_def less_mult_imp_div_less)

lemma torus_elem: "k < irowlen v \<Longrightarrow> torus (icols v) x (k div icn v) * icn v + k mod icn v < irowlen v"
proof -
  assume "k < irowlen v"
  then have "torus (icols v) x (k div icn v) < icols v"
    by (intro torus_less) (simp add: irowlen_def less_mult_imp_div_less)
  then have "(torus (icols v) x (k div icn v) + 1) * icn v \<le> irowlen v"
    unfolding irowlen_def by (intro mult_le_mono1) simp
  then have "torus (icols v) x (k div icn v) * icn v + icn v \<le> irowlen v" by (simp add: add.commute)
  moreover have "k mod icn v < icn v" by simp
  ultimately show ?thesis by linarith
qed

lemma shift_img_add: "shift_img x y (shift_img x' y' v) = shift_img (x + x') (y + y') v"
proof (rule img_eqI)
  fix i k assume "i < irows (shift_img (x + x') (y + y') v)" "k < irowlen (shift_img (x + x') (y + y') v)"
  then have l: "i < irows v" "k < irowlen v" "k div icn v < icols v"
    by (auto simp: irowlen_def less_mult_imp_div_less)
  then show "img_at (shift_img x y (shift_img x' y' v)) i k = img_at (shift_img (x + x') (y + y') v) i k"
    by (simp add: shift_img_at torus_less torus_elem torus_add) (simp add: add.commute)
qed simp_all

interpretation rot: torus_action img_ok "\<lambda>v. int (icols v)" "\<lambda>v. int (irows v)" shift_img
  by unfold_locales (simp_all add: shift_img_zero shift_img_add, simp add: shift_img_def torus_mod)

subsection \<open>\<open>fftShift\<close> and \<open>ifftShift\<close>\<close>

text \<open>A rounding of \<open>n / 2\<close> that is a proper shift of every axis of at least two pixels.\<close>

definition proper_half :: "(int \<Rightarrow> int) \<Rightarrow> bool" where
  "proper_half half \<longleftrightarrow> (\<forall>n \<ge> 2. 0 < half n \<and> half n < n)"

lemma ceil_half_proper: "proper_half ceil_half" and floor_half_proper: "proper_half floor_half"
  by (auto simp: proper_half_def ceil_half_eq floor_half_eq)

definition copies_lib :: "opencv \<Rightarrow> bool" where
  "copies_lib cv \<longleftrightarrow> roi_law cv \<and> copy_law cv \<and> copy_fixed_law cv"

text \<open>The copying form, for a square image: a new image, the caller's images kept.\<close>

definition square :: "world \<Rightarrow> mat \<Rightarrow> bool" where
  "square w m \<longleftrightarrow> hdr_ok w m \<and> mrows m = mcols m \<and> 2 \<le> mrows m"

lemma shift_half_square:
  assumes laws: "zeros_law cv" "copies_lib cv" and half: "proper_half half"
    and sq: "square w input" and out: "mdata input = mdata output \<or> empty output"
  shows "\<exists>o_i w'. shift_half half cv input output w = Inr (o_i, w') \<and> square w' o_i
    \<and> value_of w' o_i = shift_img (half (mcols input)) (half (mrows input)) (value_of w input) \<and> keeps w None w' \<and> mstep o_i = rowlen o_i"
proof -
  have ok: "hdr_ok w input" and sz: "mrows input = mcols input" "2 \<le> mcols input"
    using sq by (auto simp: square_def)
  obtain s w1 where s: "zeros_mat cv (mcols input) (mrows input) (mtype input) w = Inr (s, w1)" "hdr_ok w1 s"
    "value_of w1 s = const_img (mtype input) (nat (mcols input)) (nat (mrows input)) (Fin 0)"
    "keeps w None w1" "buf_of s = Some (length (bufs w))"
    using zeros_mat_ok[OF laws(1), of "mcols input" "mrows input" "mtype input" w] sz by auto
  have st: "mtype s = mtype input" "nrows s = nrows input" "ncols s = ncols input"
    using value_of_eqD[OF s(3)] sz by (simp_all add: nrows_def ncols_def)
  have sm: "mrows input = mrows s" "mcols input = mcols s"
    using st(2,3) hdr_ok_signs[OF s(2)] sz by (simp_all add: nrows_def ncols_def)
  have h: "0 < half (mcols input)" "half (mcols input) < mcols input"
    using half sz by (simp_all add: proper_half_def)
  then have turn: "half (mcols input) mod mcols input \<noteq> 0" "half (mrows input) mod mrows input \<noteq> 0" using sz by simp_all
  have lib: "shift_lib cv" using laws by (simp add: shift_lib_def copies_lib_def)
  have sep: "buf_of input \<noteq> buf_of s" using hdr_ok_buf[OF ok] s(5) by simp
  note ok1 = keepsD(1)[OF s(4) ok]
  have v1: "value_of w1 input = value_of w input"
    using keepsD(2)[OF s(4) ok] hdr_ok_buf[OF ok] by simp
  from circularShift_value[OF lib turn ok1 _ _ s(2) sep st(1)[symmetric] sm] sz obtain w2 where
    c: "circularShift cv input s (half (mcols input)) (half (mrows input)) w1 = Inr ((), w2)"
    "value_of w2 s = shift_img (half (mcols input)) (half (mrows input)) (value_of w input)" "keeps w1 (buf_of s) w2"
    unfolding v1 by auto
  have ok2: "hdr_ok w2 s" using keepsD(1)[OF c(3) s(2)] .
  have k2: "keeps w None w2" using keeps_new[OF s(4), of "length (bufs w)" w2] c(3) s(5) by simp
  have pos: "0 < nrows s" "0 < ncols s" using st sz by (simp_all add: nrows_def ncols_def)
  obtain o_i w3 where o: "clone cv s w2 = Inr (o_i, w3)" "hdr_ok w3 o_i" "value_of w3 o_i = value_of w2 s"
    "keeps w2 None w3" "mstep o_i = rowlen o_i"
    using clone_ok[OF _ ok2 pos] laws(2) unfolding copies_lib_def by metis
  have "mrows o_i = mcols input" "mcols o_i = mcols input"
    using value_of_eqD[OF o(3)] hdr_ok_sizes[OF o(2)] st hdr_ok_sizes[OF ok] sz by simp_all
  then have "square w3 o_i" using o(2) sz by (simp add: square_def)
  moreover have "shift_half half cv input output w = Inr (o_i, w3)"
    using out s(1) c(1) o(1) by (simp add: shift_half_def)
  ultimately show ?thesis using o(3,5) c(2) keeps_trans[OF k2 o(4)] by auto
qed

text \<open>The exchange of quadrants and its inverse.\<close>

lemma fftShift_value:
  assumes "zeros_law cv" "copies_lib cv" and "square w input" and "mdata input = mdata output \<or> empty output"
  shows "\<exists>o_i w'. fftShift cv input output w = Inr (o_i, w') \<and> square w' o_i
    \<and> value_of w' o_i = shift_img ((mcols input + 1) div 2) ((mrows input + 1) div 2) (value_of w input) \<and> keeps w None w'
    \<and> mstep o_i = rowlen o_i"
  using shift_half_square[OF assms(1,2) ceil_half_proper assms(3,4)] by (simp add: fftShift_def ceil_half_eq)

lemma ifftShift_value:
  assumes "zeros_law cv" "copies_lib cv" and "square w input" and "mdata input = mdata output \<or> empty output"
  shows "\<exists>o_i w'. ifftShift cv input output w = Inr (o_i, w') \<and> square w' o_i
    \<and> value_of w' o_i = shift_img (mcols input div 2) (mrows input div 2) (value_of w input) \<and> keeps w None w'
    \<and> mstep o_i = rowlen o_i"
  using shift_half_square[OF assms(1,2) floor_half_proper assms(3,4)] by (simp add: ifftShift_def floor_half_eq)

lemma square_sizes:
  assumes "square w m"
  shows "int (icols (value_of w m)) = mcols m" and "int (irows (value_of w m)) = mcols m"
  using assms hdr_ok_signs by (auto simp: square_def nrows_def ncols_def)

theorem ifftShift_fftShift:
  assumes laws: "zeros_law cv" "copies_lib cv" and sq: "square w m"
  shows "\<exists>o1 w1 o2 w2. fftShift cv m m w = Inr (o1, w1) \<and> ifftShift cv o1 o1 w1 = Inr (o2, w2)
    \<and> value_of w2 o2 = value_of w m \<and> value_of w2 m = value_of w m"
proof -
  obtain o1 w1 where 1: "fftShift cv m m w = Inr (o1, w1)" "square w1 o1" "keeps w None w1"
    "value_of w1 o1 = shift_img ((mcols m + 1) div 2) ((mrows m + 1) div 2) (value_of w m)"
    using fftShift_value[OF laws sq] by blast
  obtain o2 w2 where 2: "ifftShift cv o1 o1 w1 = Inr (o2, w2)" "keeps w1 None w2"
    "value_of w2 o2 = shift_img (mcols o1 div 2) (mrows o1 div 2) (value_of w1 o1)"
    using ifftShift_value[OF laws 1(2)] by blast
  have n: "mcols o1 = mcols m" "mrows o1 = mrows m" "mrows m = mcols m"
    using square_sizes[OF 1(2)] square_sizes[OF sq] sq 1(2,4) by (auto simp: square_def)
  have "mcols m div 2 + (mcols m + 1) div 2 = mcols m" by linarith
  then have "value_of w2 o2 = value_of w m"
    using 2(3) 1(4) n rot.act_full_turn[OF value_of_ok, of w m] square_sizes[OF sq] by simp
  moreover have "value_of w2 m = value_of w m"
    using sq keepsD[OF keeps_trans[OF 1(3) 2(2)], of m] hdr_ok_buf[of w m] by (auto simp: square_def)
  ultimately show ?thesis using 1(1) 2(1) by blast
qed

text \<open>Twice the same exchange turns an image of odd size by one pixel.\<close>

lemma fftShift_twice:
  assumes laws: "zeros_law cv" "copies_lib cv" and sq: "square w m" and odd: "odd (mcols m)"
  shows "\<exists>o1 w1 o2 w2. fftShift cv m m w = Inr (o1, w1) \<and> fftShift cv o1 o1 w1 = Inr (o2, w2)
    \<and> value_of w2 o2 = shift_img 1 1 (value_of w m)"
proof -
  obtain o1 w1 where 1: "fftShift cv m m w = Inr (o1, w1)" "square w1 o1"
    "value_of w1 o1 = shift_img ((mcols m + 1) div 2) ((mrows m + 1) div 2) (value_of w m)"
    using fftShift_value[OF laws sq] by blast
  obtain o2 w2 where 2: "fftShift cv o1 o1 w1 = Inr (o2, w2)"
    "value_of w2 o2 = shift_img ((mcols o1 + 1) div 2) ((mrows o1 + 1) div 2) (value_of w1 o1)"
    using fftShift_value[OF laws 1(2)] by blast
  have n: "mcols o1 = mcols m" "mrows o1 = mcols m" "mrows m = mcols m"
    using square_sizes[OF 1(2)] square_sizes[OF sq] sq 1(2,3) by (auto simp: square_def)
  have h: "(mcols m + 1) div 2 + (mcols m + 1) div 2 = 1 + mcols m" using odd by presburger
  have "value_of w2 o2 = shift_img (1 + mcols m) (1 + mcols m) (value_of w m)"
    using 2(2) 1(3) n h by (simp add: shift_img_add)
  also have "\<dots> = shift_img 1 1 (value_of w m)"
    using rot.act_mod[OF value_of_ok, of "1 + mcols m" w m "1 + mcols m"] rot.act_mod[OF value_of_ok, of 1 w m 1] square_sizes[OF sq]
    by simp
  finally show ?thesis using 1(1) 2(1) by blast
qed

text \<open>An image that is not square: the new image has its sides exchanged, and a rectangle is outside.\<close>

lemma shift_half_not_square:
  assumes laws: "zeros_law cv" "roi_law cv" "roi_reject_law cv" and half: "proper_half half"
    and m: "hdr_ok w input" "2 \<le> mrows input" "2 \<le> mcols input" "mrows input \<noteq> mcols input"
    and out: "mdata input = mdata output \<or> empty output"
  shows "shift_half half cv input output w = Inl CvException"
proof -
  obtain s w1 where s: "zeros_mat cv (mcols input) (mrows input) (mtype input) w = Inr (s, w1)" "hdr_ok w1 s"
    "value_of w1 s = const_img (mtype input) (nat (mcols input)) (nat (mrows input)) (Fin 0)"
    using zeros_mat_ok[OF laws(1), of "mcols input" "mrows input" "mtype input" w] m
    by (metis order_trans zero_le_numeral)
  have st: "mrows s = mcols input" "mcols s = mrows input"
    using value_of_eqD[OF s(3)] hdr_ok_signs[OF s(2)] m by (auto simp: nrows_def ncols_def)
  have h: "0 < half (mcols input)" "half (mcols input) < mcols input"
    "0 < half (mrows input)" "half (mrows input) < mrows input"
    using half m by (simp_all add: proper_half_def)
  let ?R = "half (mcols input)" and ?D = "half (mrows input)"
  have am: "shift_amount ?R (mcols input) = Inr ?R" "shift_amount ?D (mrows input) = Inr ?D"
    using h by (simp_all add: shift_amount_ok)
  have roi: "lib_roi cv input (mk_rect x y a b) = Inr (sub input (mk_rect x y a b))"
    if "0 \<le> x" "0 \<le> y" "0 < a" "0 < b" "x + a \<le> mcols input" "y + b \<le> mrows input" for x y a b
    using laws(2) that by (simp add: roi_law_def inside_def)
  have "lib_roi cv s (mk_rect ?R ?D (mcols input - ?R) (mrows input - ?D)) = Inl CvException"
    using laws(3) m(4) st by (auto simp: roi_reject_law_def inside_def)
  then have "circularShift cv input s ?R ?D w1 = Inl CvException"
    using am h by (simp add: circularShift_def Let_def roi copy_rect_def)
  then show ?thesis using out s(1) by (simp add: shift_half_def)
qed

end
