(* ===== verification/ComplexOps.thy ===== *)
theory ComplexOps
  imports CvLib
begin

text \<open>
  The element-wise operations on two-channel (complex) double images of jni-native/jni/cvComplex.cpp:
  \<open>complexConj\<close>, \<open>complexAbs\<close>, \<open>complexMultiply\<close>, \<open>complexScalarMultiply\<close>, \<open>complexDivide\<close>,
  \<open>complexInverse\<close>. Each is the double loop of the code over \<open>ptr<double>\<close> rows, two assignments per
  pixel, each expression reading memory where the code does, so that aliasing of inputs and output
  is visible: the second assignment reads after the first has been stored.
\<close>

subsection \<open>The code\<close>

definition opA :: "(fp \<Rightarrow> fp \<Rightarrow> fp) \<Rightarrow> fp cvact \<Rightarrow> fp cvact \<Rightarrow> fp cvact" where
  "opA f x y = bindA x (\<lambda>a. bindA y (\<lambda>b. retA (f a b)))"

definition mapA :: "(fp \<Rightarrow> fp) \<Rightarrow> fp cvact \<Rightarrow> fp cvact" where
  "mapA f x = bindA x (\<lambda>a. retA (f a))"

definition assignA :: "mat \<Rightarrow> nat \<Rightarrow> nat \<Rightarrow> fp cvact \<Rightarrow> unit cvact" where
  "assignA o_i i k e = bindA e (store o_i i k)"

text \<open>\<open>if (output.empty()) output = cv::Mat::zeros(m.rows, m.cols, CV_64FC2);\<close>\<close>

definition ensure_out :: "opencv \<Rightarrow> mat \<Rightarrow> mat \<Rightarrow> mat cvact" where
  "ensure_out cv m output = (if empty output
     then bindA (liftA (lib_zeros cv (mrows m) (mcols m) CV_64FC2)) (put_out output)
     else retA output)"

definition complexConj :: "opencv \<Rightarrow> mat \<Rightarrow> mat \<Rightarrow> mat cvact" where
  "complexConj cv m output = bindA (ensure_out cv m output) (\<lambda>o_i.
     thenA (pixel_loop (nrows m) (ncols m) (\<lambda>i j.
       thenA (assignA o_i i (j * 2) (load m i (j * 2)))
             (assignA o_i i (j * 2 + 1) (mapA (dmul (Fin (- 1))) (load m i (j * 2 + 1))))))
     (retA o_i))"

definition complexAbs :: "opencv \<Rightarrow> mat \<Rightarrow> mat \<Rightarrow> mat cvact" where
  "complexAbs cv m output = bindA (ensure_out cv m output) (\<lambda>o_i.
     thenA (pixel_loop (nrows m) (ncols m) (\<lambda>i j.
       thenA (assignA o_i i (j * 2) (mapA (fsqrt binary64)
                (opA dadd (opA dmul (load m i (j * 2)) (load m i (j * 2)))
                          (opA dmul (load m i (j * 2 + 1)) (load m i (j * 2 + 1))))))
             (assignA o_i i (j * 2 + 1) (retA (Fin 0)))))
     (retA o_i))"

definition complexMultiply :: "opencv \<Rightarrow> mat \<Rightarrow> mat \<Rightarrow> mat \<Rightarrow> mat cvact" where
  "complexMultiply cv m1 m2 output = bindA (ensure_out cv m1 output) (\<lambda>o_i.
     thenA (pixel_loop (nrows m1) (ncols m1) (\<lambda>i j.
       thenA (assignA o_i i (j * 2)
                (opA dsub (opA dmul (load m1 i (j * 2)) (load m2 i (j * 2)))
                          (opA dmul (load m1 i (j * 2 + 1)) (load m2 i (j * 2 + 1)))))
             (assignA o_i i (j * 2 + 1)
                (opA dadd (opA dmul (load m1 i (j * 2)) (load m2 i (j * 2 + 1)))
                          (opA dmul (load m1 i (j * 2 + 1)) (load m2 i (j * 2)))))))
     (retA o_i))"

text \<open>Here \<open>output\<close> is passed by value: the header made for an empty one is lost.\<close>

definition complexScalarMultiply :: "opencv \<Rightarrow> fp \<Rightarrow> mat \<Rightarrow> mat \<Rightarrow> unit cvact" where
  "complexScalarMultiply cv scaler m output = bindA (ensure_out cv m output) (\<lambda>o_i.
     pixel_loop (nrows m) (ncols m) (\<lambda>i j.
       thenA (assignA o_i i (j * 2) (mapA (dmul scaler) (load m i (j * 2))))
             (assignA o_i i (j * 2 + 1) (mapA (dmul scaler) (load m i (j * 2 + 1))))))"

definition complexDivide :: "opencv \<Rightarrow> mat \<Rightarrow> mat \<Rightarrow> mat \<Rightarrow> mat cvact" where
  "complexDivide cv m1 m2 output = bindA (ensure_out cv m1 output) (\<lambda>o_i.
     thenA (pixel_loop (nrows m1) (ncols m1) (\<lambda>i j.
       thenA (assignA o_i i (j * 2)
                (opA ddiv
                  (opA dadd (opA dmul (load m1 i (j * 2)) (load m2 i (j * 2)))
                            (opA dmul (load m1 i (j * 2 + 1)) (load m2 i (j * 2 + 1))))
                  (opA dadd (opA dmul (load m2 i (j * 2)) (load m2 i (j * 2)))
                            (opA dmul (load m2 i (j * 2 + 1)) (load m2 i (j * 2 + 1))))))
             (assignA o_i i (j * 2 + 1)
                (opA ddiv
                  (opA dsub (opA dmul (load m1 i (j * 2 + 1)) (load m2 i (j * 2)))
                            (opA dmul (load m1 i (j * 2)) (load m2 i (j * 2 + 1))))
                  (opA dadd (opA dmul (load m2 i (j * 2)) (load m2 i (j * 2)))
                            (opA dmul (load m2 i (j * 2 + 1)) (load m2 i (j * 2 + 1))))))))
     (retA o_i))"

definition complexInverse :: "opencv \<Rightarrow> mat \<Rightarrow> mat \<Rightarrow> mat \<Rightarrow> mat cvact" where
  "complexInverse cv m1 m2 output = bindA (ensure_out cv m1 output) (\<lambda>o_i.
     thenA (pixel_loop (nrows m1) (ncols m1) (\<lambda>i j.
       thenA (assignA o_i i (j * 2)
                (opA ddiv (opA dadd (load m2 i (j * 2)) (load m2 i (j * 2 + 1)))
                  (opA dadd (opA dmul (load m2 i (j * 2)) (load m2 i (j * 2)))
                            (opA dmul (load m2 i (j * 2 + 1)) (load m2 i (j * 2 + 1))))))
             (assignA o_i i (j * 2 + 1)
                (opA ddiv (opA dsub (load m2 i (j * 2)) (load m2 i (j * 2 + 1)))
                  (opA dadd (opA dmul (load m2 i (j * 2)) (load m2 i (j * 2)))
                            (opA dmul (load m2 i (j * 2 + 1)) (load m2 i (j * 2 + 1))))))))
     (retA o_i))"

subsection \<open>Pixel-wise specification\<close>

text \<open>An image of two-channel doubles given by its pixels, and the pixels of an image.\<close>

type_synonym cpixel = "fp \<times> fp"

definition cimage :: "nat \<Rightarrow> nat \<Rightarrow> (nat \<Rightarrow> nat \<Rightarrow> cpixel) \<Rightarrow> img" where
  "cimage r c g = \<lparr>itype = CV_64FC2, irows = r, icols = c,
     idata = map (\<lambda>i. map (\<lambda>k. (if even k then fst else snd) (g i (k div 2))) [0..<2 * c]) [0..<r]\<rparr>"

definition cpix :: "img \<Rightarrow> nat \<Rightarrow> nat \<Rightarrow> cpixel" where
  "cpix v i j = (img_at v i (2 * j), img_at v i (2 * j + 1))"

definition cmul :: "cpixel \<Rightarrow> cpixel \<Rightarrow> cpixel" where
  "cmul p q = (dsub (dmul (fst p) (fst q)) (dmul (snd p) (snd q)),
               dadd (dmul (fst p) (snd q)) (dmul (snd p) (fst q)))"

definition cconj :: "cpixel \<Rightarrow> cpixel" where
  "cconj p = (fst p, dmul (Fin (- 1)) (snd p))"

definition cabs :: "cpixel \<Rightarrow> cpixel" where
  "cabs p = (fsqrt binary64 (dadd (dmul (fst p) (fst p)) (dmul (snd p) (snd p))), Fin 0)"

definition cscale :: "fp \<Rightarrow> cpixel \<Rightarrow> cpixel" where
  "cscale s p = (dmul s (fst p), dmul s (snd p))"

definition cnorm2 :: "cpixel \<Rightarrow> fp" where
  "cnorm2 q = dadd (dmul (fst q) (fst q)) (dmul (snd q) (snd q))"

definition cdiv :: "cpixel \<Rightarrow> cpixel \<Rightarrow> cpixel" where
  "cdiv p q = (ddiv (dadd (dmul (fst p) (fst q)) (dmul (snd p) (snd q))) (cnorm2 q),
               ddiv (dsub (dmul (snd p) (fst q)) (dmul (fst p) (snd q))) (cnorm2 q))"

lemma irowlen_cimage [simp]: "irowlen (cimage r c g) = 2 * c"
  by (simp add: irowlen_def icn_def cimage_def)

lemma cimage_sel [simp]: "itype (cimage r c g) = CV_64FC2" "irows (cimage r c g) = r" "icols (cimage r c g) = c"
  by (simp_all add: cimage_def)

lemma cimage_ok [simp]: "img_ok (cimage r c g)"
  by (auto simp: img_ok_def) (auto simp: cimage_def)

lemma img_at_cimage: "i < r \<Longrightarrow> k < 2 * c \<Longrightarrow>
  img_at (cimage r c g) i k = (if even k then fst else snd) (g i (k div 2))"
  by (simp add: img_at_def cimage_def)

lemma cpix_cimage [simp]: "i < r \<Longrightarrow> j < c \<Longrightarrow> cpix (cimage r c g) i j = g i j"
  by (simp add: cpix_def img_at_cimage)

lemma cimage_cong: "(\<And>i j. i < r \<Longrightarrow> j < c \<Longrightarrow> f i j = g i j) \<Longrightarrow> cimage r c f = cimage r c g"
  by (auto simp: cimage_def)

lemma cimage_cpix:
  assumes "img_ok v" and "itype v = CV_64FC2"
  shows "cimage (irows v) (icols v) (cpix v) = v"
proof (rule img_eqI)
  fix i k assume "i < irows v" "k < irowlen v"
  moreover have "irowlen v = 2 * icols v" using assms(2) by (simp add: irowlen_def icn_def)
  ultimately show "img_at (cimage (irows v) (icols v) (cpix v)) i k = img_at v i k"
    by (auto simp: img_at_cimage cpix_def elim: oddE)
qed (use assms in simp_all)

subsection \<open>Two-channel double images in memory\<close>

definition cmat :: "world \<Rightarrow> mat \<Rightarrow> bool" where
  "cmat w m \<longleftrightarrow> hdr_ok w m \<and> mtype m = CV_64FC2"

lemma cmat_facts:
  assumes "cmat w m"
  shows "hdr_ok w m" "depth m = CV_64F" "rowlen m = 2 * ncols m" "mtype m = CV_64FC2"
  using assms by (simp_all add: cmat_def depth_def rowlen_def nch_def channels_def)

lemma cpix_value_of:
  assumes "cmat w m" and "i < nrows m" and "j < ncols m"
  shows "cpix (value_of w m) i j = (cell w m i (2 * j), cell w m i (2 * j + 1))"
  using assms cmat_facts[OF assms(1)] by (simp add: cpix_def img_at_value_of)

lemma opA_eval [act_simps, simp]: "x s = Inr (a, s) \<Longrightarrow> y s = Inr (b, s) \<Longrightarrow> opA f x y s = Inr (f a b, s)"
  by (simp add: opA_def)

lemma mapA_eval [act_simps, simp]: "x s = Inr (a, s) \<Longrightarrow> mapA f x s = Inr (f a, s)"
  by (simp add: mapA_def)

text \<open>Reading an element the update has not reached, or one of another buffer.\<close>

lemma load_updated:
  assumes u: "updated w m S F v" and om: "hdr_ok w m" and S: "S \<subseteq> places (nrows m) (rowlen m)"
    and x: "hdr_ok w x" "depth x = CV_64F" "i < nrows x" "k < rowlen x"
    and sep: "buf_of x \<noteq> buf_of m \<or> (x = m \<and> (i, k) \<notin> S)"
  shows "load x i k v = Inr (cell w x i k, v)"
proof -
  have "load x i k v = Inr (cell v x i k, v)"
    using updated_hdr_ok[OF u x(1)] x by (intro load_ok)
  moreover have "cell v x i k = cell w x i k"
    using sep updated_other_buffer[OF u _ x(1) x(3,4)] updated_other_place[OF u om S] x by blast
  ultimately show ?thesis by simp
qed

text \<open>Reading back an element that was just written.\<close>

lemma load_written:
  assumes "updated w m S F v" and "hdr_ok w m" and "depth m = CV_64F"
    and "i < nrows m" "k < rowlen m" and "(i, k) \<in> S"
  shows "load m i k v = Inr (F i k, v)"
  using load_ok[OF updated_hdr_ok[OF assms(1,2)] assms(3-5)] updated_cell[OF assms(1,6)] by simp

text \<open>The loop all six operations share: both expressions of a pixel, evaluated where the code
  evaluates them, give the values \<open>F\<close>.\<close>

lemma two_assignments:
  assumes o: "hdr_ok w m" "depth m = CV_64F" "r \<le> nrows m" "2 * c \<le> rowlen m"
    and e1: "\<And>i j v. i < r \<Longrightarrow> j < c \<Longrightarrow> updated w m (before c i j) F v \<Longrightarrow> e1 i j v = Inr (F i (j * 2), v)"
    and e2: "\<And>i j v. i < r \<Longrightarrow> j < c \<Longrightarrow> updated w m (insert (i, j * 2) (before c i j)) F v \<Longrightarrow>
      e2 i j v = Inr (F i (j * 2 + 1), v)"
  shows "\<exists>v. pixel_loop r c (\<lambda>i j. thenA (assignA m i (j * 2) (e1 i j)) (assignA m i (j * 2 + 1) (e2 i j))) w
      = Inr ((), v) \<and> updated w m (places r (2 * c)) F v"
proof (rule pixel_loop_rule)
  fix i j v
  assume ij: "i < r" "j < c" and u: "updated w m (before c i j) F v"
  have B: "before c i j \<subseteq> places (nrows m) (rowlen m)" using o ij by (auto simp: before_def)
  obtain v1 where v1: "store m i (j * 2) (F i (j * 2)) v = Inr ((), v1)"
    "updated w m (insert (i, j * 2) (before c i j)) F v1"
    using updated_store[OF u o(1) B o(2), of i "j * 2"] ij o by auto
  have B1: "insert (i, j * 2) (before c i j) \<subseteq> places (nrows m) (rowlen m)" using B ij o by auto
  obtain v2 where v2: "store m i (j * 2 + 1) (F i (j * 2 + 1)) v1 = Inr ((), v2)"
    "updated w m (insert (i, j * 2 + 1) (insert (i, j * 2) (before c i j))) F v2"
    using updated_store[OF v1(2) o(1) B1 o(2), of i "j * 2 + 1"] ij o by auto
  have "thenA (assignA m i (j * 2) (e1 i j)) (assignA m i (j * 2 + 1) (e2 i j)) v = Inr ((), v2)"
    using e1[OF ij u] e2[OF ij v1(2)] v1(1) v2(1) by (simp add: assignA_def)
  then show "\<exists>v'. thenA (assignA m i (j * 2) (e1 i j)) (assignA m i (j * 2 + 1) (e2 i j)) v = Inr ((), v')
      \<and> updated w m (before c i (Suc j)) F v'"
    using v2(2) by (auto simp: before_next mult.commute)
qed

subsection \<open>The output argument\<close>

text \<open>Either no buffer yet (the code allocates one) or an image of the right size.\<close>

definition out_fits :: "world \<Rightarrow> mat \<Rightarrow> mat \<Rightarrow> bool" where
  "out_fits w m output \<longleftrightarrow> mdata output = None
     \<or> (cmat w output \<and> nrows output = nrows m \<and> ncols output = ncols m)"

lemma ensure_out_ok:
  assumes law: "zeros_law cv" and m: "cmat w m" and out: "out_fits w m output"
  obtains o_i w1 where "ensure_out cv m output w = Inr (o_i, w1)" and "cmat w1 o_i"
    and "nrows o_i = nrows m" and "ncols o_i = ncols m" and "keeps w (buf_of o_i) w1"
    and "(o_i = output \<and> mdata output \<noteq> None) \<or> buf_of o_i = Some (length (bufs w))"
    and "\<not> empty output \<Longrightarrow> o_i = output \<and> w1 = w"
proof (cases "empty output")
  case False
  then show ?thesis using that[of "output" w] out by (auto simp: ensure_out_def out_fits_def empty_def)
next
  case True
  have z: "lib_zeros cv (mrows m) (mcols m) CV_64FC2 = Inr (const_img CV_64FC2 (nrows m) (ncols m) (Fin 0))"
    using law hdr_ok_signs[OF cmat_facts(1)[OF m]] by (simp add: zeros_law_def nrows_def ncols_def)
  have "mdata output = None \<or> hdr_ok w output" using out by (auto simp: out_fits_def cmat_def)
  from put_out_ok[OF const_img_ok[of CV_64FC2 "nrows m" "ncols m" "Fin 0"] this] obtain o_i w1 where
    po: "put_out output (const_img CV_64FC2 (nrows m) (ncols m) (Fin 0)) w = Inr (o_i, w1)"
    and h: "hdr_ok w1 o_i" "value_of w1 o_i = const_img CV_64FC2 (nrows m) (ncols m) (Fin 0)"
      "keeps w (buf_of o_i) w1" "(o_i = output \<and> mdata output \<noteq> None) \<or> buf_of o_i = Some (length (bufs w))"
    by (elim exE conjE) blast
  have "mtype o_i = CV_64FC2" "nrows o_i = nrows m" "ncols o_i = ncols m"
    using value_of_eqD[OF h(2)] by simp_all
  then have sz: "cmat w1 o_i" "nrows o_i = nrows m" "ncols o_i = ncols m"
    using h(1) by (simp_all only: cmat_def simp_thms)
  have "ensure_out cv m output w = Inr (o_i, w1)"
    using True z po by (simp only: ensure_out_def if_True bindA_def liftA_def sum.case retA_apply prod.case)
  from that[OF this sz h(3,4)] True show ?thesis by blast
qed

lemma ensure_out_sep:
  assumes "(o_i = output \<and> mdata output \<noteq> None) \<or> buf_of o_i = Some (length (bufs w))"
    and "hdr_ok w x" and "buf_of x \<noteq> buf_of output"
  shows "buf_of x \<noteq> buf_of o_i"
  using assms hdr_ok_buf[OF assms(2)] by auto

lemma load_sep:
  assumes "updated w1 o_i S F v" and "keeps w (buf_of o_i) w1" and x: "cmat w x"
    and sep: "buf_of x \<noteq> buf_of o_i" and ik: "i < nrows x" "k < rowlen x"
  shows "load x i k v = Inr (cell w x i k, v)"
proof -
  note ok1 = keepsD(1)[OF assms(2) cmat_facts(1)[OF x]]
  have "value_of w1 x = value_of w x" using keepsD(2)[OF assms(2) cmat_facts(1)[OF x] sep] .
  then have "cell w1 x i k = cell w x i k" using img_at_value_of[OF ik] by metis
  then show ?thesis
    using load_ok[OF updated_hdr_ok[OF assms(1) ok1] cmat_facts(2)[OF x] ik]
      updated_other_buffer[OF assms(1) sep ok1 ik] by simp
qed

text \<open>The image after the loop.\<close>

definition chans :: "(nat \<Rightarrow> nat \<Rightarrow> cpixel) \<Rightarrow> nat \<Rightarrow> nat \<Rightarrow> fp" where
  "chans g i k = (if even k then fst else snd) (g i (k div 2))"

lemma chans_simps [simp]: "chans g i (j * 2) = fst (g i j)" "chans g i (Suc (j * 2)) = snd (g i j)"
  by (simp_all add: chans_def)

lemma pixelwise_result:
  assumes o: "cmat w1 o_i" "nrows o_i = r" "ncols o_i = c"
    and u: "updated w1 o_i (places r (2 * c)) (chans g) v" and k: "keeps w (buf_of o_i) w1"
  shows "value_of v o_i = cimage r c g \<and> cmat v o_i \<and> keeps w (buf_of o_i) v"
proof (intro conjI)
  have u': "updated w1 o_i (places (nrows o_i) (rowlen o_i)) (chans g) v"
    using u o cmat_facts[OF o(1)] by simp
  show "value_of v o_i = cimage r c g"
    by (rule updated_value[OF u']) (use o cmat_facts[OF o(1)] in \<open>simp_all add: img_at_cimage chans_def\<close>)
  show "cmat v o_i" using o(1) updated_hdr_ok[OF u] by (simp add: cmat_def)
  show "keeps w (buf_of o_i) v" using k updated_keeps[OF u] by (rule keeps_trans)
qed

subsection \<open>Every operation computes its pixel function\<close>

text \<open>
  What a call leaves behind: the returned header holds the image \<open>x\<close>, in the caller's output buffer
  or in a new one, and no other image changed.
\<close>

definition leaves :: "world \<Rightarrow> mat \<Rightarrow> img \<Rightarrow> mat \<Rightarrow> world \<Rightarrow> bool" where
  "leaves w output x o_i w' \<longleftrightarrow> value_of w' o_i = x \<and> hdr_ok w' o_i \<and> keeps w (buf_of o_i) w'
     \<and> (o_i = output \<or> buf_of o_i = Some (length (bufs w))) \<and> (\<not> empty output \<longrightarrow> o_i = output)"

text \<open>
  What holds before each assignment of the loop: the elements \<open>S\<close> of the output \<open>o_i\<close> have their
  new values in \<open>v\<close>, nothing else of the loop's start state \<open>w1\<close> changed, and \<open>w1\<close> is the caller's
  state \<open>w\<close> but for the allocation of the output.
\<close>

definition midway :: "world \<Rightarrow> mat \<Rightarrow> mat \<Rightarrow> (nat \<times> nat) set \<Rightarrow> (nat \<Rightarrow> nat \<Rightarrow> fp) \<Rightarrow> world \<Rightarrow> bool" where
  "midway w output m S F v \<longleftrightarrow> (\<exists>o_i w1. updated w1 o_i S F v \<and> keeps w (buf_of o_i) w1 \<and> cmat w1 o_i
     \<and> nrows o_i = nrows m \<and> ncols o_i = ncols m \<and> S \<subseteq> places (nrows o_i) (rowlen o_i)
     \<and> (\<forall>x. hdr_ok w x \<longrightarrow> buf_of x \<noteq> buf_of output \<longrightarrow> buf_of x \<noteq> buf_of o_i)
     \<and> (\<not> empty output \<longrightarrow> o_i = output \<and> w1 = w))"

lemma cell_cpix:
  assumes "cmat w x" and "i < nrows x" and "j < ncols x"
  shows "cell w x i (j * 2) = fst (cpix (value_of w x) i j)"
    and "cell w x i (Suc (j * 2)) = snd (cpix (value_of w x) i j)"
  using cpix_value_of[OF assms] by (simp_all add: mult.commute)

text \<open>An operand that shares no buffer with the output is read as it was before the call.\<close>

lemma load_operand:
  assumes "midway w output m S F v" and x: "cmat w x" and sep: "buf_of x \<noteq> buf_of output"
    and ij: "i < nrows x" "j < ncols x"
  shows "load x i (j * 2) v = Inr (fst (cpix (value_of w x) i j), v)"
    and "load x i (Suc (j * 2)) v = Inr (snd (cpix (value_of w x) i j), v)"
proof -
  from assms(1) obtain o_i w1 where u: "updated w1 o_i S F v" and k: "keeps w (buf_of o_i) w1"
    and s: "\<forall>x. hdr_ok w x \<longrightarrow> buf_of x \<noteq> buf_of output \<longrightarrow> buf_of x \<noteq> buf_of o_i"
    unfolding midway_def by blast
  have "buf_of x \<noteq> buf_of o_i" using s sep cmat_facts(1)[OF x] by blast
  from load_sep[OF u k x this ij(1)] ij(2) cell_cpix[OF x ij] cmat_facts(3)[OF x]
  show "load x i (j * 2) v = Inr (fst (cpix (value_of w x) i j), v)"
    and "load x i (Suc (j * 2)) v = Inr (snd (cpix (value_of w x) i j), v)" by simp_all
qed

text \<open>An operand that is the output itself: an element not assigned yet has its old value, one
  already assigned its new value.\<close>

lemma load_in_place:
  assumes "midway w x m S F v" and x: "cmat w x" and ik: "i < nrows x" "k < rowlen x"
  shows "load x i k v = Inr (if (i, k) \<in> S then F i k else cell w x i k, v)"
proof -
  from ik have "\<not> empty x"
    using x by (auto simp: empty_def total_def nrows_def rowlen_def ncols_def cmat_def hdr_ok_def split: option.splits)
  with assms(1) have u: "updated w x S F v" and S: "S \<subseteq> places (nrows x) (rowlen x)"
    unfolding midway_def by auto
  show ?thesis
    using load_updated[OF u cmat_facts(1)[OF x] S cmat_facts(1,2)[OF x] ik]
      load_written[OF u cmat_facts(1,2)[OF x] ik] by simp
qed

lemma pixelwise_op:
  assumes law: "zeros_law cv" and m: "cmat w m" and out: "out_fits w m output"
    and e1: "\<And>i j v. i < nrows m \<Longrightarrow> j < ncols m \<Longrightarrow>
      midway w output m (before (ncols m) i j) (chans g) v \<Longrightarrow> e1 i j v = Inr (fst (g i j), v)"
    and e2: "\<And>i j v. i < nrows m \<Longrightarrow> j < ncols m \<Longrightarrow>
      midway w output m (insert (i, j * 2) (before (ncols m) i j)) (chans g) v \<Longrightarrow> e2 i j v = Inr (snd (g i j), v)"
  shows "\<exists>o_i w1 w'. ensure_out cv m output w = Inr (o_i, w1)
    \<and> pixel_loop (nrows m) (ncols m)
        (\<lambda>i j. thenA (assignA o_i i (j * 2) (e1 i j)) (assignA o_i i (j * 2 + 1) (e2 i j))) w1 = Inr ((), w')
    \<and> leaves w output (cimage (nrows m) (ncols m) g) o_i w'"
proof -
  from ensure_out_ok[OF law m out] obtain o_i w1 where
    en: "ensure_out cv m output w = Inr (o_i, w1)" and o: "cmat w1 o_i" "nrows o_i = nrows m" "ncols o_i = ncols m"
    and k: "keeps w (buf_of o_i) w1"
    and al: "(o_i = output \<and> mdata output \<noteq> None) \<or> buf_of o_i = Some (length (bufs w))"
    and ne: "\<not> empty output \<Longrightarrow> o_i = output \<and> w1 = w" by metis
  have mid: "midway w output m S F v" if "updated w1 o_i S F v" "S \<subseteq> places (nrows o_i) (rowlen o_i)" for S F v
    unfolding midway_def using that o k ensure_out_sep[OF al] ne by blast
  have S: "before (ncols m) i j \<subseteq> places (nrows o_i) (rowlen o_i)"
    "insert (i, j * 2) (before (ncols m) i j) \<subseteq> places (nrows o_i) (rowlen o_i)"
    if "i < nrows m" "j < ncols m" for i j
    using that o cmat_facts(3)[OF o(1)] by (auto simp: before_def)
  from two_assignments[OF cmat_facts(1,2)[OF o(1)], where r = "nrows m" and c = "ncols m" and F = "chans g" and ?e1.0 = e1 and ?e2.0 = e2]
  obtain w' where w': "pixel_loop (nrows m) (ncols m)
      (\<lambda>i j. thenA (assignA o_i i (j * 2) (e1 i j)) (assignA o_i i (j * 2 + 1) (e2 i j))) w1 = Inr ((), w')"
    "updated w1 o_i (places (nrows m) (2 * ncols m)) (chans g) w'"
    using o cmat_facts(3)[OF o(1)] e1[OF _ _ mid] e2[OF _ _ mid] S by auto
  show ?thesis
    using en w'(1) pixelwise_result[OF o w'(2) k] al ne cmat_facts(1) unfolding leaves_def by blast
qed

lemma complexConj_value:
  assumes "zeros_law cv" and m: "cmat w m" and "out_fits w m output" and sep: "buf_of m \<noteq> buf_of output"
  shows "\<exists>o_i w'. complexConj cv m output w = Inr (o_i, w')
    \<and> leaves w output (cimage (nrows m) (ncols m) (\<lambda>i j. cconj (cpix (value_of w m) i j))) o_i w'"
  using pixelwise_op[OF assms(1-3), of "\<lambda>i j. cconj (cpix (value_of w m) i j)"
      "\<lambda>i j. load m i (j * 2)" "\<lambda>i j. mapA (dmul (Fin (- 1))) (load m i (j * 2 + 1))"]
    load_operand[OF _ m sep]
  by (fastforce simp: complexConj_def cconj_def)

lemma complexAbs_value:
  assumes "zeros_law cv" and m: "cmat w m" and "out_fits w m output" and sep: "buf_of m \<noteq> buf_of output"
  shows "\<exists>o_i w'. complexAbs cv m output w = Inr (o_i, w')
    \<and> leaves w output (cimage (nrows m) (ncols m) (\<lambda>i j. cabs (cpix (value_of w m) i j))) o_i w'"
  using pixelwise_op[OF assms(1-3), of "\<lambda>i j. cabs (cpix (value_of w m) i j)"
      "\<lambda>i j. mapA (fsqrt binary64)
                (opA dadd (opA dmul (load m i (j * 2)) (load m i (j * 2)))
                          (opA dmul (load m i (j * 2 + 1)) (load m i (j * 2 + 1))))"
      "\<lambda>i j. retA (Fin 0)"]
    load_operand[OF _ m sep]
  by (fastforce simp: complexAbs_def cabs_def)

text \<open>A second operand: a two-channel double image at least as large as the first, apart from the output.\<close>

definition operand :: "world \<Rightarrow> mat \<Rightarrow> mat \<Rightarrow> mat \<Rightarrow> bool" where
  "operand w m output x \<longleftrightarrow> cmat w x \<and> nrows m \<le> nrows x \<and> ncols m \<le> ncols x \<and> buf_of x \<noteq> buf_of output"

lemma load_second:
  assumes "operand w m output x" and "midway w output m S F v" and "i < nrows m" "j < ncols m"
  shows "load x i (j * 2) v = Inr (fst (cpix (value_of w x) i j), v)"
    and "load x i (Suc (j * 2)) v = Inr (snd (cpix (value_of w x) i j), v)"
  using assms load_operand[OF assms(2), of x i j] by (simp_all add: operand_def)

lemma complexMultiply_value:
  assumes "zeros_law cv" and m: "cmat w m1" and "out_fits w m1 output" and sep: "buf_of m1 \<noteq> buf_of output"
    and m2: "operand w m1 output m2"
  shows "\<exists>o_i w'. complexMultiply cv m1 m2 output w = Inr (o_i, w')
    \<and> leaves w output (cimage (nrows m1) (ncols m1)
        (\<lambda>i j. cmul (cpix (value_of w m1) i j) (cpix (value_of w m2) i j))) o_i w'"
  using pixelwise_op[OF assms(1-3), of "\<lambda>i j. cmul (cpix (value_of w m1) i j) (cpix (value_of w m2) i j)"
      "\<lambda>i j. opA dsub (opA dmul (load m1 i (j * 2)) (load m2 i (j * 2)))
                      (opA dmul (load m1 i (j * 2 + 1)) (load m2 i (j * 2 + 1)))"
      "\<lambda>i j. opA dadd (opA dmul (load m1 i (j * 2)) (load m2 i (j * 2 + 1)))
                      (opA dmul (load m1 i (j * 2 + 1)) (load m2 i (j * 2)))"]
    load_operand[OF _ m sep] load_second[OF m2]
  by (fastforce simp: complexMultiply_def cmul_def)

lemma complexDivide_value:
  assumes "zeros_law cv" and m: "cmat w m1" and "out_fits w m1 output" and sep: "buf_of m1 \<noteq> buf_of output"
    and m2: "operand w m1 output m2"
  shows "\<exists>o_i w'. complexDivide cv m1 m2 output w = Inr (o_i, w')
    \<and> leaves w output (cimage (nrows m1) (ncols m1)
        (\<lambda>i j. cdiv (cpix (value_of w m1) i j) (cpix (value_of w m2) i j))) o_i w'"
  using pixelwise_op[OF assms(1-3), of "\<lambda>i j. cdiv (cpix (value_of w m1) i j) (cpix (value_of w m2) i j)"
      "\<lambda>i j. opA ddiv
                  (opA dadd (opA dmul (load m1 i (j * 2)) (load m2 i (j * 2)))
                            (opA dmul (load m1 i (j * 2 + 1)) (load m2 i (j * 2 + 1))))
                  (opA dadd (opA dmul (load m2 i (j * 2)) (load m2 i (j * 2)))
                            (opA dmul (load m2 i (j * 2 + 1)) (load m2 i (j * 2 + 1))))"
      "\<lambda>i j. opA ddiv
                  (opA dsub (opA dmul (load m1 i (j * 2 + 1)) (load m2 i (j * 2)))
                            (opA dmul (load m1 i (j * 2)) (load m2 i (j * 2 + 1))))
                  (opA dadd (opA dmul (load m2 i (j * 2)) (load m2 i (j * 2)))
                            (opA dmul (load m2 i (j * 2 + 1)) (load m2 i (j * 2 + 1))))"]
    load_operand[OF _ m sep] load_second[OF m2]
  by (fastforce simp: complexDivide_def cdiv_def cnorm2_def)

text \<open>What \<open>complexInverse\<close> computes: the first operand gives the size only, and the two channels of
  a pixel \<open>(c, d)\<close> become \<open>(c + d) / (c\<^sup>2 + d\<^sup>2)\<close> and \<open>(c - d) / (c\<^sup>2 + d\<^sup>2)\<close>.\<close>

definition cinverse :: "cpixel \<Rightarrow> cpixel" where
  "cinverse q = (ddiv (dadd (fst q) (snd q)) (cnorm2 q), ddiv (dsub (fst q) (snd q)) (cnorm2 q))"

lemma complexInverse_value:
  assumes "zeros_law cv" and m: "cmat w m1" and "out_fits w m1 output" and m2: "operand w m1 output m2"
  shows "\<exists>o_i w'. complexInverse cv m1 m2 output w = Inr (o_i, w')
    \<and> leaves w output (cimage (nrows m1) (ncols m1) (\<lambda>i j. cinverse (cpix (value_of w m2) i j))) o_i w'"
  using pixelwise_op[OF assms(1-3), of "\<lambda>i j. cinverse (cpix (value_of w m2) i j)"
      "\<lambda>i j. opA ddiv (opA dadd (load m2 i (j * 2)) (load m2 i (j * 2 + 1)))
                  (opA dadd (opA dmul (load m2 i (j * 2)) (load m2 i (j * 2)))
                            (opA dmul (load m2 i (j * 2 + 1)) (load m2 i (j * 2 + 1))))"
      "\<lambda>i j. opA ddiv (opA dsub (load m2 i (j * 2)) (load m2 i (j * 2 + 1)))
                  (opA dadd (opA dmul (load m2 i (j * 2)) (load m2 i (j * 2)))
                            (opA dmul (load m2 i (j * 2 + 1)) (load m2 i (j * 2 + 1))))"]
    load_second[OF m2]
  by (fastforce simp: complexInverse_def cinverse_def cnorm2_def)

lemma complexScalarMultiply_leaves:
  assumes "zeros_law cv" and m: "cmat w m" and "out_fits w m output" and sep: "buf_of m \<noteq> buf_of output"
  shows "\<exists>o_i w'. complexScalarMultiply cv s m output w = Inr ((), w')
    \<and> leaves w output (cimage (nrows m) (ncols m) (\<lambda>i j. cscale s (cpix (value_of w m) i j))) o_i w'"
  using pixelwise_op[OF assms(1-3), of "\<lambda>i j. cscale s (cpix (value_of w m) i j)"
      "\<lambda>i j. mapA (dmul s) (load m i (j * 2))" "\<lambda>i j. mapA (dmul s) (load m i (j * 2 + 1))"]
    load_operand[OF _ m sep]
  by (fastforce simp: complexScalarMultiply_def cscale_def)

text \<open>With an output buffer the product is in it; without one every image the caller has is as before.\<close>

lemma complexScalarMultiply_value:
  assumes "zeros_law cv" and m: "cmat w m" and "out_fits w m output" and ne: "\<not> empty output"
    and "buf_of m \<noteq> buf_of output"
  shows "\<exists>w'. complexScalarMultiply cv s m output w = Inr ((), w')
    \<and> leaves w output (cimage (nrows m) (ncols m) (\<lambda>i j. cscale s (cpix (value_of w m) i j))) output w'"
  using complexScalarMultiply_leaves[OF assms(1-3,5), of s] ne unfolding leaves_def by metis

lemma complexScalarMultiply_lost:
  assumes "zeros_law cv" and m: "cmat w m" and "mdata output = None"
  shows "\<exists>w'. complexScalarMultiply cv s m output w = Inr ((), w')
    \<and> (\<forall>x. hdr_ok w x \<longrightarrow> value_of w' x = value_of w x)"
proof -
  have "buf_of m \<noteq> buf_of output" "out_fits w m output"
    using hdr_ok_buf[OF cmat_facts(1)[OF m]] assms(3) by (simp_all add: buf_of_def out_fits_def)
  from complexScalarMultiply_leaves[OF assms(1) m this(2,1)] obtain o_i w' where
    "complexScalarMultiply cv s m output w = Inr ((), w')" "keeps w (buf_of o_i) w'"
    "o_i = output \<or> buf_of o_i = Some (length (bufs w))" "hdr_ok w' o_i"
    unfolding leaves_def by blast
  then show ?thesis
    using hdr_ok_buf assms(3) by (metis buf_of_def keepsD(2) option.map(1))
qed

text \<open>In place: an operation whose expressions read only their own element is as good in place.\<close>

lemma complexConj_in_place:
  assumes "zeros_law cv" and m: "cmat w m"
  shows "\<exists>o_i w'. complexConj cv m m w = Inr (o_i, w')
    \<and> leaves w m (cimage (nrows m) (ncols m) (\<lambda>i j. cconj (cpix (value_of w m) i j))) o_i w'"
  using pixelwise_op[OF assms, of m "\<lambda>i j. cconj (cpix (value_of w m) i j)"
      "\<lambda>i j. load m i (j * 2)" "\<lambda>i j. mapA (dmul (Fin (- 1))) (load m i (j * 2 + 1))"]
    load_in_place[OF _ m] m cell_cpix[OF m] cmat_facts(3)[OF m]
  by (fastforce simp: complexConj_def cconj_def out_fits_def before_def)

text \<open>The product in place: the second expression reads the real part already replaced.\<close>

definition cmul_in_place :: "cpixel \<Rightarrow> cpixel \<Rightarrow> cpixel" where
  "cmul_in_place p q = (fst (cmul p q), dadd (dmul (fst (cmul p q)) (snd q)) (dmul (snd p) (fst q)))"

lemma complexMultiply_in_place:
  assumes "zeros_law cv" and m: "cmat w m1" and m2: "operand w m1 m1 m2"
  shows "\<exists>o_i w'. complexMultiply cv m1 m2 m1 w = Inr (o_i, w')
    \<and> leaves w m1 (cimage (nrows m1) (ncols m1)
        (\<lambda>i j. cmul_in_place (cpix (value_of w m1) i j) (cpix (value_of w m2) i j))) o_i w'"
  using pixelwise_op[OF assms(1,2), of m1 "\<lambda>i j. cmul_in_place (cpix (value_of w m1) i j) (cpix (value_of w m2) i j)"
      "\<lambda>i j. opA dsub (opA dmul (load m1 i (j * 2)) (load m2 i (j * 2)))
                      (opA dmul (load m1 i (j * 2 + 1)) (load m2 i (j * 2 + 1)))"
      "\<lambda>i j. opA dadd (opA dmul (load m1 i (j * 2)) (load m2 i (j * 2 + 1)))
                      (opA dmul (load m1 i (j * 2 + 1)) (load m2 i (j * 2)))"]
    load_in_place[OF _ m] m cell_cpix[OF m] cmat_facts(3)[OF m] load_second[OF m2]
  by (fastforce simp: complexMultiply_def cmul_def cmul_in_place_def out_fits_def before_def)

end
