(* ===== verification/ImageOps.thy ===== *)
theory ImageOps
  imports ComplexOps
begin

text \<open>
  The operations of jni-native/jni/cvComplex.cpp on whole images: splitting and merging the two
  channels (\<open>maxComplexReal\<close>, \<open>getMagnitude\<close>, \<open>realMean\<close>, \<open>imagMean\<close>, \<open>complex_create\<close>,
  \<open>complex_imwrite\<close>), the padded Fourier transforms \<open>fft2\<close>, \<open>ifft2\<close>, the display functions
  \<open>showImg\<close>, \<open>showComplexImg\<close>, \<open>setColorMap\<close>, \<open>printMat\<close>, and \<open>GetSquareImage\<close>.
\<close>

subsection \<open>Arrays of images\<close>

definition tell :: "msg \<Rightarrow> unit cvact" where
  "tell s w = Inr ((), w\<lparr>messages := messages w @ [s]\<rparr>)"

text \<open>\<open>cv::Mat planes[] = {Mat::zeros(m.rows, m.cols, m.type()), \<dots>}\<close>\<close>

fun zeros_planes :: "opencv \<Rightarrow> mat \<Rightarrow> nat \<Rightarrow> mat list cvact" where
  "zeros_planes cv m 0 = retA []"
| "zeros_planes cv m (Suc n) = bindA (zeros_mat cv (mrows m) (mcols m) (mtype m)) (\<lambda>p.
     bindA (zeros_planes cv m n) (\<lambda>ps. retA (p # ps)))"

text \<open>Writing several output arguments; more values than array elements is a write past the array.\<close>

fun put_outs :: "mat list \<Rightarrow> img list \<Rightarrow> mat list cvact" where
  "put_outs ms [] = retA ms"
| "put_outs [] (v # vs) = failA OutOfBounds"
| "put_outs (m # ms) (v # vs) = bindA (put_out m v) (\<lambda>m'. bindA (put_outs ms vs) (\<lambda>ms'. retA (m' # ms')))"

fun fetch_all :: "mat list \<Rightarrow> img list cvact" where
  "fetch_all [] = retA []"
| "fetch_all (m # ms) = bindA (fetch m) (\<lambda>v. bindA (fetch_all ms) (\<lambda>vs. retA (v # vs)))"

definition split_into :: "opencv \<Rightarrow> mat \<Rightarrow> mat list \<Rightarrow> mat list cvact" where
  "split_into cv m planes = bindA (fetch m) (\<lambda>v. bindA (liftA (lib_split cv v)) (put_outs planes))"

definition merge_into :: "opencv \<Rightarrow> mat list \<Rightarrow> mat \<Rightarrow> mat cvact" where
  "merge_into cv ms output = bindA (fetch_all ms) (\<lambda>vs. bindA (liftA (lib_merge cv vs)) (put_out output))"

text \<open>The two channels in a new array of two images.\<close>

definition split2 :: "opencv \<Rightarrow> mat \<Rightarrow> mat list cvact" where
  "split2 cv m = bindA (zeros_planes cv m 2) (split_into cv m)"

text \<open>A library function of one or two images, its result stored in an output argument.\<close>

definition call1 :: "(img \<Rightarrow> err + img) \<Rightarrow> mat \<Rightarrow> mat \<Rightarrow> mat cvact" where
  "call1 f a output = bindA (fetch a) (\<lambda>v. bindA (liftA (f v)) (put_out output))"

definition call2 :: "(img \<Rightarrow> img \<Rightarrow> err + img) \<Rightarrow> mat \<Rightarrow> mat \<Rightarrow> mat \<Rightarrow> mat cvact" where
  "call2 f a b output = bindA (fetch a) (\<lambda>u. bindA (fetch b) (\<lambda>v. bindA (liftA (f u v)) (put_out output)))"

subsection \<open>Channels\<close>

definition maxComplexReal :: "opencv \<Rightarrow> mat \<Rightarrow> string \<Rightarrow> unit cvact" where
  "maxComplexReal cv m label = bindA (split2 cv m) (\<lambda>planes.
     bindA (fetch (planes ! 0)) (\<lambda>v. bindA (liftA (lib_minMaxLoc cv v)) (\<lambda>(minVal, maxVal).
       tell (MaxMin label maxVal minVal))))"

definition not_complex :: msg where
  "not_complex = Said ''ERROR ( cvComplex::shotComplexImg ) : Input Mat is not complex (m.channels() != 2)''"

definition getMagnitude :: "opencv \<Rightarrow> mat \<Rightarrow> mat \<Rightarrow> mat cvact" where
  "getMagnitude cv input output = (if channels input = 2
     then bindA (split2 cv input) (\<lambda>planes. call2 (lib_magnitude cv) (planes ! 0) (planes ! 1) output)
     else thenA (tell not_complex) (retA output))"

definition channel_mean :: "opencv \<Rightarrow> nat \<Rightarrow> mat \<Rightarrow> fp cvact" where
  "channel_mean cv k input = (if channels input = 2
     then bindA (split2 cv input) (\<lambda>planes. bindA (fetch (planes ! k)) (\<lambda>v.
       bindA (liftA (lib_mean cv v)) (\<lambda>s. retA (fst s))))
     else thenA (tell not_complex) (retA (Fin 0)))"

definition realMean :: "opencv \<Rightarrow> mat \<Rightarrow> fp cvact" where
  "realMean cv input = channel_mean cv 0 input"

definition imagMean :: "opencv \<Rightarrow> mat \<Rightarrow> fp cvact" where
  "imagMean cv input = channel_mean cv 1 input"

definition complex_create :: "opencv \<Rightarrow> mat \<Rightarrow> mat \<Rightarrow> mat \<Rightarrow> mat cvact" where
  "complex_create cv mat_real mat_imag output = (if mrows mat_real = 0 \<or> mrows mat_imag = 0
     then thenA (tell (Said ''ERROR - images not found!'')) (retA output)
     else bindA (zeros_planes cv mat_real 2) (\<lambda>complexPlanes.
       merge_into cv (complexPlanes[0 := mat_real, 1 := mat_imag]) output))"

text \<open>\<open>imwrite\<close> is recorded with the image it gets.\<close>

definition imwrite :: "string \<Rightarrow> mat \<Rightarrow> unit cvact" where
  "imwrite fname m = bindA (fetch m) (\<lambda>v w. Inr ((), w\<lparr>files := files w @ [(fname, v)]\<rparr>))"

definition complex_imwrite :: "opencv \<Rightarrow> string \<Rightarrow> mat \<Rightarrow> unit cvact" where
  "complex_imwrite cv fname m1 = bindA (zeros_planes cv m1 3) (\<lambda>outputPlanes.
     bindA (zeros_planes cv m1 2) (\<lambda>inputPlanes.
     bindA (split_into cv m1 inputPlanes) (\<lambda>inputPlanes.
     bindA (merge_into cv (outputPlanes[0 := inputPlanes ! 0, 1 := inputPlanes ! 1]) mat_default) (\<lambda>outMat.
       imwrite fname outMat))))"

subsection \<open>Fourier transforms\<close>

definition DFT_INVERSE :: int where "DFT_INVERSE = 1"
definition DFT_SCALE :: int where "DFT_SCALE = 2"
definition DFT_COMPLEX_OUTPUT :: int where "DFT_COMPLEX_OUTPUT = 16"

definition pad_optimal :: "opencv \<Rightarrow> mat \<Rightarrow> mat cvact" where
  "pad_optimal cv input = (let m = lib_optDFTSize cv (mrows input); n = lib_optDFTSize cv (mcols input) in
     call1 (\<lambda>v. lib_copyMakeBorder cv v 0 (m - mrows input) 0 (n - mcols input) (Fin 0)) input mat_default)"

definition fft2 :: "opencv \<Rightarrow> mat \<Rightarrow> mat \<Rightarrow> mat cvact" where
  "fft2 cv input output = bindA (pad_optimal cv input) (\<lambda>paddedInput.
     call1 (\<lambda>v. lib_dft cv v DFT_COMPLEX_OUTPUT) paddedInput output)"

definition ifft2 :: "opencv \<Rightarrow> mat \<Rightarrow> mat \<Rightarrow> mat cvact" where
  "ifft2 cv input output = bindA (pad_optimal cv input) (\<lambda>paddedInput.
     call1 (\<lambda>v. lib_dft cv v (DFT_INVERSE OR DFT_COMPLEX_OUTPUT OR DFT_SCALE)) paddedInput output)"

subsection \<open>Display\<close>

definition CMAP_MIN :: int where "CMAP_MIN = 0"
definition CMAP_MAX :: int where "CMAP_MAX = 11"
definition COLORMAP_NONE :: int where "COLORMAP_NONE = - 1"

definition setColorMap :: "int \<Rightarrow> unit cvact" where
  "setColorMap cMap = (if CMAP_MIN \<le> cMap \<and> cMap \<le> CMAP_MAX
     then (\<lambda>w. Inr ((), w\<lparr>gv_cMap := cMap\<rparr>))
     else tell (Said ''ERROR ( cvComplex::setColorMap )  : Invalid Color Map (Valid Values are between 0 and 11''))"

definition imshow :: "string \<Rightarrow> mat \<Rightarrow> unit cvact" where
  "imshow windowTitle m = bindA (fetch m) (\<lambda>v w. Inr ((), w\<lparr>shown := shown w @ [(windowTitle, v)]\<rparr>))"

definition showImg :: "opencv \<Rightarrow> mat \<Rightarrow> string \<Rightarrow> unit cvact" where
  "showImg cv m windowTitle =
     bindA (call1 (\<lambda>v. lib_normalize cv v (Fin 0) (Fin 255)) m mat_default) (\<lambda>scaledMat.
     bindA (call1 (\<lambda>v. lib_convertTo cv v CV_8U (Fin 1) (Fin 0)) scaledMat scaledMat) (\<lambda>scaledMat.
     bindA (\<lambda>w. Inr (gv_cMap w, w)) (\<lambda>cMap.
     bindA (if 0 \<le> cMap then call1 (\<lambda>v. lib_applyColorMap cv v cMap) scaledMat mat_default
            else retA scaledMat) (\<lambda>displayMat.
       imshow windowTitle displayMat))))"

definition SHOW_COMPLEX_MAG :: int where "SHOW_COMPLEX_MAG = 0"
definition SHOW_COMPLEX_COMPONENTS :: int where "SHOW_COMPLEX_COMPONENTS = 1"
definition SHOW_COMPLEX_REAL :: int where "SHOW_COMPLEX_REAL = 2"
definition SHOW_COMPLEX_IMAGINARY :: int where "SHOW_COMPLEX_IMAGINARY = 3"

definition showComplexImg :: "opencv \<Rightarrow> mat \<Rightarrow> int \<Rightarrow> string \<Rightarrow> unit cvact" where
  "showComplexImg cv m displayFlag windowTitle = thenA (tell (Said ''Showing Image'')) (if channels m = 2
     then bindA (split2 cv m) (\<lambda>planes.
       if displayFlag = SHOW_COMPLEX_MAG
       then bindA (call2 (lib_magnitude cv) (planes ! 0) (planes ! 1) (planes ! 0)) (\<lambda>p0.
            bindA (call1 (\<lambda>v. lib_pow cv v (Fin 2)) p0 p0) (\<lambda>p0.
              showImg cv p0 (windowTitle @ '' Magnitude'')))
       else if displayFlag = SHOW_COMPLEX_REAL then showImg cv (planes ! 0) (windowTitle @ '' Real'')
       else if displayFlag = SHOW_COMPLEX_IMAGINARY then showImg cv (planes ! 1) (windowTitle @ '' Imaginary'')
       else thenA (showImg cv (planes ! 0) (windowTitle @ '' Real''))
                  (showImg cv (planes ! 1) (windowTitle @ '' Imaginary'')))
     else tell not_complex)"

definition printMat :: "mat \<Rightarrow> unit cvact" where
  "printMat m = tell (MatInfo (mcols m) (mrows m) (depth m) (mtype m))"

subsection \<open>\<open>GetSquareImage\<close>\<close>

text \<open>\<open>int\<close> to \<open>float\<close>, and the region of the square the image is scaled to; a value that is not an
  \<open>int\<close> cannot be converted.\<close>

definition i2f :: "fmt \<Rightarrow> int \<Rightarrow> fp" where
  "i2f f n = rnd f (of_int n)"

definition square_roi :: "int \<Rightarrow> int \<Rightarrow> int \<Rightarrow> rect option" where
  "square_roi width height target_width = (let
     max_dim = (if height \<le> width then width else height);
     scale = fdiv binary32 (i2f binary32 target_width) (i2f binary32 max_dim) in
     if height \<le> width
     then (case f2i (fmul binary32 (i2f binary32 height) scale) of None \<Rightarrow> None
           | Some h \<Rightarrow> Some \<lparr>rx = 0, ry = c_div (target_width - h) 2, rwidth = target_width, rheight = h\<rparr>)
     else (case f2i (fmul binary32 (i2f binary32 width) scale) of None \<Rightarrow> None
           | Some v \<Rightarrow> Some \<lparr>rx = c_div (target_width - v) 2, ry = 0, rwidth = v, rheight = target_width\<rparr>))"

definition GetSquareImage :: "opencv \<Rightarrow> mat \<Rightarrow> int \<Rightarrow> mat cvact" where
  "GetSquareImage cv img target_width =
     bindA (zeros_mat cv target_width target_width (mtype img)) (\<lambda>square.
     bindA (liftA (case square_roi (mcols img) (mrows img) target_width of
         None \<Rightarrow> Inl BadCast | Some roi \<Rightarrow> Inr roi)) (\<lambda>roi.
     bindA (liftA (lib_roi cv square roi)) (\<lambda>dst.
     bindA (fetch img) (\<lambda>v.
     thenA (bindA (liftA (lib_resize cv v (rwidth roi) (rheight roi))) (put_fixed dst))
       (retA square)))))"

subsection \<open>Channels of an image\<close>

definition chan_img :: "img \<Rightarrow> nat \<Rightarrow> img" where
  "chan_img v c = \<lparr>itype = CV_MAKETYPE (itype v) 1, irows = irows v, icols = icols v,
     idata = map (\<lambda>i. map (\<lambda>j. img_at v i (j * icn v + c)) [0..<icols v]) [0..<irows v]\<rparr>"

text \<open>"each element of the output array will be a concatenation of the elements of the input arrays"\<close>

definition merge_img :: "img list \<Rightarrow> img" where
  "merge_img vs = \<lparr>itype = CV_MAKETYPE (itype (hd vs)) (int (\<Sum>v\<leftarrow>vs. icn v)),
     irows = irows (hd vs), icols = icols (hd vs),
     idata = map (\<lambda>i. concat (map (\<lambda>j. concat (map (\<lambda>v. map (\<lambda>c. img_at v i (j * icn v + c)) [0..<icn v]) vs))
       [0..<icols (hd vs)])) [0..<irows (hd vs)]\<rparr>"

definition same_planes :: "img list \<Rightarrow> bool" where
  "same_planes vs \<longleftrightarrow> vs \<noteq> [] \<and> (\<forall>v \<in> set vs. CV_MAT_DEPTH (itype v) = CV_MAT_DEPTH (itype (hd vs))
     \<and> irows v = irows (hd vs) \<and> icols v = icols (hd vs) \<and> 0 < irows v \<and> 0 < icols v)
     \<and> (\<Sum>v\<leftarrow>vs. icn v) \<le> 512"

definition split_law :: "opencv \<Rightarrow> bool" where
  "split_law cv \<longleftrightarrow> (\<forall>v. img_ok v \<longrightarrow> 0 < irows v \<longrightarrow> 0 < icols v \<longrightarrow>
     lib_split cv v = Inr (map (chan_img v) [0..<icn v]))"

definition merge_law :: "opencv \<Rightarrow> bool" where
  "merge_law cv \<longleftrightarrow> (\<forall>vs. same_planes vs \<longrightarrow> lib_merge cv vs = Inr (merge_img vs))"

lemma chan_img_sel [simp]: "itype (chan_img v c) = CV_MAKETYPE (itype v) 1" "irows (chan_img v c) = irows v"
  "icols (chan_img v c) = icols v" "icn (chan_img v c) = 1" "irowlen (chan_img v c) = icols v"
  by (simp_all add: chan_img_def icn_def irowlen_def maketype_cn)

lemma chan_img_ok [simp]: "img_ok (chan_img v c)"
  by (auto simp: img_ok_def) (auto simp: chan_img_def)

lemma chan_img_at: "i < irows v \<Longrightarrow> j < icols v \<Longrightarrow> img_at (chan_img v c) i j = img_at v i (j * icn v + c)"
  by (simp add: img_at_def chan_img_def)

lemma same_planesD:
  assumes "same_planes vs" and "v \<in> set vs"
  shows "irows v = irows (hd vs)" and "icols v = icols (hd vs)"
    and "CV_MAT_DEPTH (itype v) = CV_MAT_DEPTH (itype (hd vs))"
  using assms unfolding same_planes_def by blast+

lemma same_planes_cn: "same_planes vs \<Longrightarrow> 1 \<le> (\<Sum>v\<leftarrow>vs. icn v) \<and> (\<Sum>v\<leftarrow>vs. icn v) \<le> 512"
proof (cases vs)
  case (Cons v us)
  assume "same_planes vs"
  moreover have "1 \<le> icn v" using icn_pos[of v] by linarith
  ultimately show ?thesis using Cons unfolding same_planes_def by simp
qed (simp add: same_planes_def)

lemma merge_img_cn:
  assumes "same_planes vs"
  shows "icn (merge_img vs) = (\<Sum>v\<leftarrow>vs. icn v)"
proof -
  have "CV_MAT_CN (CV_MAKETYPE (itype (hd vs)) (int (\<Sum>v\<leftarrow>vs. icn v))) = int (\<Sum>v\<leftarrow>vs. icn v)"
    using same_planes_cn[OF assms] by (intro maketype_cn) linarith+
  then show ?thesis by (simp add: icn_def merge_img_def)
qed

lemma merge_img_ok:
  assumes "same_planes vs"
  shows "img_ok (merge_img vs)"
proof -
  note n = merge_img_cn[OF assms]
  have "length (concat (map (\<lambda>j. concat (map (\<lambda>v. map (\<lambda>c. img_at v i (j * icn v + c)) [0..<icn v]) vs)) js))
      = length js * (\<Sum>v\<leftarrow>vs. icn v)" for i js
    by (induction js) (simp_all add: length_concat comp_def)
  then show ?thesis using n by (auto simp: img_ok_def irowlen_def) (auto simp: merge_img_def)
qed

text \<open>Single-channel images are the channels of their merge.\<close>

definition plane :: "img \<Rightarrow> bool" where
  "plane v \<longleftrightarrow> itype v = CV_MAT_DEPTH (itype v)"

lemma plane_cn: "plane v \<Longrightarrow> icn v = 1"
proof -
  assume "plane v"
  then have "0 \<le> itype v" "itype v < 8" unfolding plane_def CV_MAT_DEPTH_mod by presburger+
  then show ?thesis by (simp add: icn_def CV_MAT_CN_div)
qed

lemma maketype_1: "CV_MAKETYPE t 1 = CV_MAT_DEPTH t"
  by (simp add: CV_MAKETYPE_def)

lemma chan_img_plane [simp]: "plane (chan_img v c)"
  by (simp add: plane_def maketype_1) (simp add: CV_MAT_DEPTH_mod)

lemma merge_img_at:
  assumes "\<forall>v \<in> set vs. plane v" and "vs \<noteq> []" and "i < irows (hd vs)" "j < icols (hd vs)" "c < length vs"
  shows "img_at (merge_img vs) i (j * length vs + c) = img_at (vs ! c) i j"
proof -
  have one: "concat (map (\<lambda>v. map (\<lambda>c. img_at v i (j * icn v + c)) [0..<icn v]) vs) = map (\<lambda>v. img_at v i j) vs" for j
    using assms(1) by (induction vs) (simp_all add: plane_cn)
  have "img_at (merge_img vs) i (j * length vs + c) = concat (map (\<lambda>j. map (\<lambda>v. img_at v i j) vs) [0..<icols (hd vs)]) ! (j * length vs + c)"
    using assms(3) by (simp add: img_at_def[of "merge_img vs"]) (simp add: merge_img_def one)
  also have "\<dots> = map (\<lambda>v. img_at v i j) vs ! c"
    using assms(4,5) by (intro concat_block_nth) simp_all
  finally show ?thesis using assms(5) by simp
qed

lemma plane_sum: "\<forall>v \<in> set vs. plane v \<Longrightarrow> (\<Sum>v\<leftarrow>vs. icn v) = length vs"
  by (induction vs) (simp_all add: plane_cn)

lemma chan_merge:
  assumes s: "same_planes vs" and m: "\<forall>v \<in> set vs. plane v \<and> img_ok v" and c: "c < length vs"
  shows "chan_img (merge_img vs) c = vs ! c"
proof (rule img_eqI)
  have v: "vs ! c \<in> set vs" "vs \<noteq> []" using c by auto
  then have sz: "irows (vs ! c) = irows (hd vs)" "icols (vs ! c) = icols (hd vs)"
    "CV_MAT_DEPTH (itype (vs ! c)) = CV_MAT_DEPTH (itype (hd vs))"
    using same_planesD[OF s v(1)] by blast+
  have n: "icn (merge_img vs) = length vs" using merge_img_cn[OF s] plane_sum m by simp
  have md: "irows (merge_img vs) = irows (hd vs)" "icols (merge_img vs) = icols (hd vs)" by (simp_all add: merge_img_def)
  show "itype (chan_img (merge_img vs) c) = itype (vs ! c)"
    using m v(1) sz(3) by (simp add: maketype_1) (simp add: merge_img_def maketype_depth plane_def)
  show "irows (chan_img (merge_img vs) c) = irows (vs ! c)" "icols (chan_img (merge_img vs) c) = icols (vs ! c)"
    using sz md by simp_all
  show "img_ok (vs ! c)" using m v(1) by blast
  fix i j assume ij: "i < irows (vs ! c)" "j < irowlen (vs ! c)"
  then have "j < icols (hd vs)" using m v(1) sz by (simp add: irowlen_def plane_cn)
  then show "img_at (chan_img (merge_img vs) c) i j = img_at (vs ! c) i j"
    using merge_img_at[of vs i j c] m v c ij sz md n by (simp add: chan_img_at)
qed simp

text \<open>A complex image from its two parts.\<close>

lemma merge_pair:
  assumes "itype u = CV_64FC1" and "itype v = CV_64FC1" and "irows u = irows v" "icols u = icols v"
    and "0 < irows v" "0 < icols v"
  shows "merge_img [u, v] = cimage (irows u) (icols u) (\<lambda>i j. (img_at u i j, img_at v i j))"
proof (rule img_eqI)
  have m: "plane u" "plane v" using assms by (simp_all add: plane_def) (simp_all add: CV_64FC1_def maketype_1 CV_MAT_DEPTH_mod CV_64F_def)
  have s: "same_planes [u, v]" using assms m by (simp add: same_planes_def plane_cn)
  have n: "icn (merge_img [u, v]) = 2" using merge_img_cn[OF s] m by (simp add: plane_cn)
  show "img_ok (merge_img [u, v])" by (rule merge_img_ok[OF s])
  have "CV_MAKETYPE (itype u) 2 = CV_64FC2"
    using assms(1) by (simp add: CV_64FC2_def CV_64FC1_def CV_MAKETYPE_def CV_MAT_DEPTH_mod)
  then show "itype (merge_img [u, v]) = itype (cimage (irows u) (icols u) (\<lambda>i j. (img_at u i j, img_at v i j)))"
    using m by (simp add: merge_img_def plane_cn)
  fix i k assume ik: "i < irows (cimage (irows u) (icols u) (\<lambda>i j. (img_at u i j, img_at v i j)))"
    "k < irowlen (cimage (irows u) (icols u) (\<lambda>i j. (img_at u i j, img_at v i j)))"
  then have "k div 2 < icols u" by simp
  moreover have e: "k div 2 * length [u, v] + k mod 2 = k" by (simp, presburger)
  ultimately have "img_at (merge_img [u, v]) i k = img_at ([u, v] ! (k mod 2)) i (k div 2)"
    using merge_img_at[of "[u, v]" i "k div 2" "k mod 2"] m ik unfolding e by simp
  then show "img_at (merge_img [u, v]) i k = img_at (cimage (irows u) (icols u) (\<lambda>i j. (img_at u i j, img_at v i j))) i k"
    using ik by (cases "even k") (simp_all add: img_at_cimage odd_iff_mod_2_eq_one even_iff_mod_2_eq_zero)
qed (simp_all add: merge_img_def)

subsection \<open>Arrays of images in memory\<close>

definition new_planes :: "nat \<Rightarrow> world \<Rightarrow> mat list \<Rightarrow> bool" where
  "new_planes n w ms \<longleftrightarrow> (\<forall>m \<in> set ms. hdr_ok w m \<and> (\<exists>b. buf_of m = Some b \<and> n \<le> b)) \<and> distinct (map buf_of ms)"

lemma zeros_planes_ok:
  assumes z: "zeros_law cv" and m: "0 \<le> mrows m" "0 \<le> mcols m"
  shows "\<exists>ms w'. zeros_planes cv m n w = Inr (ms, w') \<and> length ms = n \<and> new_planes (length (bufs w)) w' ms \<and> keeps w None w'
    \<and> (\<forall>p \<in> set ms. mtype p = mtype m \<and> nrows p = nrows m \<and> ncols p = ncols m)"
proof (induction n arbitrary: w)
  case 0
  then show ?case by (simp add: new_planes_def)
next
  case (Suc n)
  obtain p w1 where p: "zeros_mat cv (mrows m) (mcols m) (mtype m) w = Inr (p, w1)" "hdr_ok w1 p"
    "keeps w None w1" "buf_of p = Some (length (bufs w))"
    "value_of w1 p = const_img (mtype m) (nat (mrows m)) (nat (mcols m)) (Fin 0)"
    using zeros_mat_ok[OF z m, of "mtype m" w] by metis
  obtain ms w2 where ms: "zeros_planes cv m n w1 = Inr (ms, w2)" "length ms = n"
    "new_planes (length (bufs w1)) w2 ms" "keeps w1 None w2"
    "\<forall>p \<in> set ms. mtype p = mtype m \<and> nrows p = nrows m \<and> ncols p = ncols m" using Suc by blast
  have sz: "mtype p = mtype m \<and> nrows p = nrows m \<and> ncols p = ncols m"
    using value_of_eqD[OF p(5)] by (simp add: nrows_def ncols_def)
  have lt: "length (bufs w) < length (bufs w1)"
    using p(2,4) by (auto simp: hdr_ok_def buf_of_def split: option.splits)
  then have "new_planes (length (bufs w)) w2 (p # ms)"
    using ms(3) p(4) keepsD(1)[OF ms(4) p(2)] by (fastforce simp: new_planes_def)
  then show ?case using p(1) ms(1,2,5) sz keeps_trans[OF p(3) ms(4)] by auto
qed

lemma put_outs_ok:
  assumes "length vs \<le> length ms" and "\<forall>v \<in> set vs. img_ok v" and "\<forall>m \<in> set ms. hdr_ok w m"
    and "distinct (map buf_of ms)"
  shows "\<exists>ms' w'. put_outs ms vs w = Inr (ms', w') \<and> length ms' = length ms
    \<and> (\<forall>k < length vs. hdr_ok w' (ms' ! k) \<and> value_of w' (ms' ! k) = vs ! k)
    \<and> (\<forall>k. length vs \<le> k \<longrightarrow> k < length ms \<longrightarrow> ms' ! k = ms ! k)
    \<and> keeps_but w (set (map buf_of (take (length vs) ms)) \<union> {b. \<exists>n. b = Some n \<and> length (bufs w) \<le> n}) w'"
  using assms
proof (induction ms vs arbitrary: w rule: put_outs.induct)
  case (3 m ms v vs)
  obtain m' w1 where p: "put_out m v w = Inr (m', w1)" "hdr_ok w1 m'" "value_of w1 m' = v" "keeps w (buf_of m') w1"
    "m' = m \<or> buf_of m' = Some (length (bufs w))"
    using put_out_ok[of v m w] 3(2-5) by auto
  have ok1: "\<forall>m \<in> set ms. hdr_ok w1 m" using 3(4) keepsD(1)[OF p(4)] by auto
  from 3(1)[OF _ _ ok1] 3(2-5) obtain ms' w2 where i: "put_outs ms vs w1 = Inr (ms', w2)" "length ms' = length ms"
    "\<forall>k < length vs. hdr_ok w2 (ms' ! k) \<and> value_of w2 (ms' ! k) = vs ! k"
    "\<forall>k. length vs \<le> k \<longrightarrow> k < length ms \<longrightarrow> ms' ! k = ms ! k"
    "keeps_but w1 (set (map buf_of (take (length vs) ms)) \<union> {b. \<exists>n. b = Some n \<and> length (bufs w1) \<le> n}) w2"
    by auto
  have "buf_of m' \<notin> set (map buf_of ms)"
  proof -
    have "buf_of m \<notin> set (map buf_of ms)" using 3(5) by simp
    moreover have "Some (length (bufs w)) \<notin> set (map buf_of ms)" using 3(4) hdr_ok_buf by fastforce
    ultimately show ?thesis using p(5) by auto
  qed
  moreover have "buf_of m' \<notin> {b. \<exists>n. b = Some n \<and> length (bufs w1) \<le> n}"
    using p(2) by (auto simp: hdr_ok_def buf_of_def split: option.splits)
  ultimately have "buf_of m' \<notin> set (map buf_of (take (length vs) ms)) \<union> {b. \<exists>n. b = Some n \<and> length (bufs w1) \<le> n}"
    using set_take_subset[of "length vs" ms] by auto
  then have m': "hdr_ok w2 m'" "value_of w2 m' = v"
    using i(5) p(2,3) unfolding keeps_but_def by blast+
  have "\<forall>k < length (v # vs). hdr_ok w2 ((m' # ms') ! k) \<and> value_of w2 ((m' # ms') ! k) = (v # vs) ! k"
    using m' i(3) by (auto simp: less_Suc_eq_0_disj)
  moreover have "\<forall>k. length (v # vs) \<le> k \<longrightarrow> k < length (m # ms) \<longrightarrow> (m' # ms') ! k = (m # ms) ! k"
    using i(4) by (auto simp: Suc_le_eq nth_Cons')
  moreover have "keeps_but w (set (map buf_of (take (length (v # vs)) (m # ms))) \<union> {b. \<exists>n. b = Some n \<and> length (bufs w) \<le> n}) w2"
    (is "keeps_but w ?B w2")
  proof (rule keeps_but_trans)
    show "keeps_but w ?B w1" by (rule keeps_but_mono[OF keeps_keeps_but[OF p(4)]]) (use p(5) in auto)
    show "keeps_but w1 ?B w2" using i(5) keeps_length[OF p(4)] by (auto elim: keeps_but_mono)
  qed
  ultimately show ?case using p(1) i(1,2) by auto
qed auto

text \<open>\<open>split\<close> of a two-channel image to a new array: the two planes, nothing else changed.\<close>

definition channel_lib :: "opencv \<Rightarrow> bool" where
  "channel_lib cv \<longleftrightarrow> zeros_law cv \<and> split_law cv \<and> merge_law cv"

definition has_pixels :: "world \<Rightarrow> mat \<Rightarrow> bool" where
  "has_pixels w m \<longleftrightarrow> hdr_ok w m \<and> 0 < nrows m \<and> 0 < ncols m"

lemma split_planes_ok:
  assumes law: "split_law cv" and m: "has_pixels w m" and ms: "new_planes n w ms" "nch m \<le> length ms"
    and k: "keeps u None w" "n = length (bufs u)"
  shows "\<exists>ms' w'. split_into cv m ms w = Inr (ms', w') \<and> length ms' = length ms
    \<and> (\<forall>c < nch m. hdr_ok w' (ms' ! c) \<and> value_of w' (ms' ! c) = chan_img (value_of w m) c)
    \<and> keeps u None w'"
proof -
  let ?vs = "map (chan_img (value_of w m)) [0..<nch m]"
  obtain ms' w' where p: "put_outs ms ?vs w = Inr (ms', w')" "length ms' = length ms"
    "\<forall>c < nch m. hdr_ok w' (ms' ! c) \<and> value_of w' (ms' ! c) = ?vs ! c"
    "keeps_but w (set (map buf_of (take (nch m) ms)) \<union> {b. \<exists>n. b = Some n \<and> length (bufs w) \<le> n}) w'"
    using put_outs_ok[of ?vs ms w] ms by (auto simp: new_planes_def)
  have "lib_split cv (value_of w m) = Inr ?vs"
    using law m by (simp add: split_law_def has_pixels_def value_of_ok)
  then have "split_into cv m ms w = Inr (ms', w')"
    using p(1) m by (simp add: split_into_def has_pixels_def fetch_ok)
  moreover have "keeps u None w'"
    by (rule keeps_but_new[OF k(1) p(4)])
      (use ms(1) k keeps_length[OF k(1)] set_take_subset[of "nch m" ms] in \<open>fastforce simp: new_planes_def\<close>)
  ultimately show ?thesis using p(2,3) by auto
qed

lemma split2_ok:
  assumes law: "channel_lib cv" and m: "has_pixels w m" and c2: "channels m = 2"
  shows "\<exists>ps w'. split2 cv m w = Inr (ps, w') \<and> length ps = 2 \<and> keeps w None w'
    \<and> (\<forall>c < 2. hdr_ok w' (ps ! c) \<and> value_of w' (ps ! c) = chan_img (value_of w m) c)"
proof -
  have z: "zeros_law cv" "split_law cv" using law by (simp_all add: channel_lib_def)
  have sg: "0 \<le> mrows m" "0 \<le> mcols m" and ok: "hdr_ok w m" using m hdr_ok_signs by (auto simp: has_pixels_def)
  obtain ms w1 where ms: "zeros_planes cv m 2 w = Inr (ms, w1)" "length ms = 2"
    "new_planes (length (bufs w)) w1 ms" "keeps w None w1" using zeros_planes_ok[OF z(1) sg, of 2 w] by blast
  have v: "value_of w1 m = value_of w m" using keepsD(2)[OF ms(4) ok] hdr_ok_buf[OF ok] by simp
  have "has_pixels w1 m" using m keepsD(1)[OF ms(4) ok] by (simp add: has_pixels_def)
  moreover have "nch m = 2" using c2 by (simp add: nch_def)
  ultimately show ?thesis
    using split_planes_ok[OF z(2) _ ms(3) _ ms(4), of m] ms(1,2) v by (auto simp: split2_def)
qed

text \<open>\<open>split\<close> to two variables without an image.\<close>

lemma split_new2_ok:
  assumes law: "split_law cv" and m: "has_pixels w m" "nch m = 2"
  shows "\<exists>p q w'. split_into cv m [mat_default, mat_default] w = Inr ([p, q], w') \<and> keeps w None w'
    \<and> hdr_ok w' p \<and> value_of w' p = chan_img (value_of w m) 0 \<and> hdr_ok w' q \<and> value_of w' q = chan_img (value_of w m) 1"
proof -
  let ?u = "chan_img (value_of w m) 0" and ?v = "chan_img (value_of w m) 1"
  have "lib_split cv (value_of w m) = Inr [?u, ?v]"
    using law m by (simp add: split_law_def has_pixels_def value_of_ok numeral_2_eq_2)
  moreover obtain p w1 where p: "put_out mat_default ?u w = Inr (p, w1)" "hdr_ok w1 p" "value_of w1 p = ?u" "keeps w None w1"
    using put_new_ok[of ?u w] by (metis chan_img_ok)
  moreover obtain q w2 where q: "put_out mat_default ?v w1 = Inr (q, w2)" "hdr_ok w2 q" "value_of w2 q = ?v" "keeps w1 None w2"
    using put_new_ok[of ?v w1] by (metis chan_img_ok)
  moreover have "hdr_ok w2 p" "value_of w2 p = ?u"
    using keepsD[OF q(4) p(2)] hdr_ok_buf[OF p(2)] p(3) by auto
  ultimately show ?thesis
    using m keeps_trans[OF p(4) q(4)] by (simp add: split_into_def fetch_ok has_pixels_def)
qed

lemma call1_ok:
  assumes "hdr_ok w a" and "f (value_of w a) = Inr x" and "img_ok x" and "out_ok w output"
  shows "\<exists>m w'. call1 f a output w = Inr (m, w') \<and> stored w output x m w'"
  using put_out_stored[OF assms(3,4)] assms(1,2) by (simp add: call1_def fetch_ok)

lemma call2_ok:
  assumes "hdr_ok w a" and "hdr_ok w b" and "f (value_of w a) (value_of w b) = Inr x" and "img_ok x" and "out_ok w output"
  shows "\<exists>m w'. call2 f a b output w = Inr (m, w') \<and> stored w output x m w'"
  using put_out_stored[OF assms(4,5)] assms(1-3) by (simp add: call2_def fetch_ok)

text \<open>To a new variable.\<close>

lemma call1_new:
  assumes "hdr_ok w a" and "f (value_of w a) = Inr x" and "img_ok x"
  obtains m w' where "call1 f a mat_default w = Inr (m, w')" and "hdr_ok w' m" and "value_of w' m = x" and "keeps w None w'"
  using call1_ok[of w a f x mat_default] assms storedD stored_new by (metis out_ok_new)

subsection \<open>What the operations compute\<close>

theorem getMagnitude_value:
  assumes law: "channel_lib cv" and m: "has_pixels w input" and c2: "channels input = 2" and out: "out_ok w output"
    and f: "lib_magnitude cv (chan_img (value_of w input) 0) (chan_img (value_of w input) 1) = Inr x" and x: "img_ok x"
  shows "\<exists>o_i w'. getMagnitude cv input output w = Inr (o_i, w') \<and> stored w output x o_i w'"
proof -
  obtain ps w1 where ps: "split2 cv input w = Inr (ps, w1)" "keeps w None w1"
    "hdr_ok w1 (ps ! 0)" "value_of w1 (ps ! 0) = chan_img (value_of w input) 0"
    "hdr_ok w1 (ps ! 1)" "value_of w1 (ps ! 1) = chan_img (value_of w input) 1"
    using split2_ok[OF law m c2] by fastforce
  from call2_ok[OF ps(3,5) _ x out_ok_keeps[OF out ps(2)], of "lib_magnitude cv"] f ps(4,6) obtain o_i w2 where
    o: "call2 (lib_magnitude cv) (ps ! 0) (ps ! 1) output w1 = Inr (o_i, w2)" "stored w1 output x o_i w2" by auto
  show ?thesis using stored_after[OF ps(2) o(2)] o(1) ps(1) c2 by (auto simp: getMagnitude_def)
qed

text \<open>The mean of a channel; an image of another channel count is reported and gives 0.\<close>

lemma channel_mean_ok:
  assumes law: "channel_lib cv" and m: "has_pixels w input" and c2: "channels input = 2" and k: "k < 2"
    and f: "lib_mean cv (chan_img (value_of w input) k) = Inr s"
  shows "\<exists>w'. channel_mean cv k input w = Inr (fst s, w') \<and> keeps w None w'"
proof -
  obtain ps w1 where ps: "split2 cv input w = Inr (ps, w1)" "keeps w None w1"
    "hdr_ok w1 (ps ! k)" "value_of w1 (ps ! k) = chan_img (value_of w input) k"
    using split2_ok[OF law m c2] k by blast
  then show ?thesis using f c2 by (simp add: channel_mean_def fetch_ok)
qed

lemma channel_mean_other: "channels input \<noteq> 2 \<Longrightarrow>
  channel_mean cv k input w = Inr (Fin 0, w\<lparr>messages := messages w @ [not_complex]\<rparr>)"
  by (simp add: channel_mean_def tell_def thenA_def bindA_def)

text \<open>\<open>complex_create\<close> interleaves two real images.\<close>

definition real_pair :: "world \<Rightarrow> mat \<Rightarrow> mat \<Rightarrow> bool" where
  "real_pair w a b \<longleftrightarrow> has_pixels w a \<and> has_pixels w b \<and> mtype a = CV_64FC1 \<and> mtype b = CV_64FC1
     \<and> nrows a = nrows b \<and> ncols a = ncols b"

lemma complex_create_ok:
  assumes law: "channel_lib cv" and p: "real_pair w a b" and out: "out_ok w output"
  shows "\<exists>o_i w'. complex_create cv a b output w = Inr (o_i, w') \<and> stored w output
    (cimage (nrows a) (ncols a) (\<lambda>i j. (img_at (value_of w a) i j, img_at (value_of w b) i j))) o_i w'"
proof -
  have px: "hdr_ok w a" "hdr_ok w b" "0 < nrows a" "0 < ncols a" "0 < nrows b" "0 < ncols b"
    and sz: "mtype a = CV_64FC1" "mtype b = CV_64FC1" "nrows a = nrows b" "ncols a = ncols b"
    using p by (auto simp: real_pair_def has_pixels_def)
  have z: "zeros_law cv" "merge_law cv" using law by (simp_all add: channel_lib_def)
  obtain ms w1 where ms: "zeros_planes cv a 2 w = Inr (ms, w1)" "length ms = 2" "keeps w None w1"
    using zeros_planes_ok[OF z(1), of a 2 w] hdr_ok_signs[OF px(1)] by blast
  have v: "hdr_ok w1 a" "value_of w1 a = value_of w a" "hdr_ok w1 b" "value_of w1 b = value_of w b"
    using keepsD[OF ms(3) px(1)] keepsD[OF ms(3) px(2)] hdr_ok_buf[OF px(1)] hdr_ok_buf[OF px(2)] by auto
  have upd: "ms[0 := a, 1 := b] = [a, b]" using ms(2) by (auto simp: length_Suc_conv numeral_2_eq_2)
  let ?vs = "[value_of w a, value_of w b]"
  have pl: "plane (value_of w a)" "plane (value_of w b)"
    using sz by (simp_all add: plane_def) (simp_all add: CV_64FC1_def maketype_1 CV_MAT_DEPTH_mod CV_64F_def)
  have "same_planes ?vs" using sz px plane_cn[OF pl(1)] plane_cn[OF pl(2)] by (simp add: same_planes_def)
  then have mg: "lib_merge cv ?vs = Inr (merge_img ?vs)" "img_ok (merge_img ?vs)"
    using z(2) merge_img_ok by (auto simp: merge_law_def)
  have mp: "merge_img ?vs = cimage (nrows a) (ncols a) (\<lambda>i j. (img_at (value_of w a) i j, img_at (value_of w b) i j))"
    using merge_pair[of "value_of w a" "value_of w b"] sz px by simp
  from put_out_stored[OF mg(2) out_ok_keeps[OF out ms(3)]] obtain o_i w2 where
    o: "put_out output (merge_img ?vs) w1 = Inr (o_i, w2)" "stored w1 output (merge_img ?vs) o_i w2" by auto
  have "merge_into cv [a, b] output w1 = Inr (o_i, w2)"
    using mg(1) o(1) v by (simp add: merge_into_def fetch_ok)
  moreover have "mrows a \<noteq> 0 \<and> mrows b \<noteq> 0" using px by (auto simp: nrows_def)
  ultimately have "complex_create cv a b output w = Inr (o_i, w2)"
    using ms(1) upd by (simp add: complex_create_def)
  then show ?thesis using stored_after[OF ms(3) o(2)] mp by auto
qed

text \<open>Splitting what \<open>complex_create\<close> made gives the two parts back.\<close>

lemma chan_cimage:
  assumes "img_ok u" "img_ok v" and "itype u = CV_64FC1" "itype v = CV_64FC1" and "irows u = irows v" "icols u = icols v"
    and "0 < irows v" "0 < icols v"
  shows "chan_img (cimage (irows u) (icols u) (\<lambda>i j. (img_at u i j, img_at v i j))) 0 = u"
    and "chan_img (cimage (irows u) (icols u) (\<lambda>i j. (img_at u i j, img_at v i j))) 1 = v"
proof -
  have pl: "plane u" "plane v"
    using assms by (simp_all add: plane_def) (simp_all add: CV_64FC1_def maketype_1 CV_MAT_DEPTH_mod CV_64F_def)
  have "same_planes [u, v]" using assms pl by (simp add: same_planes_def plane_cn)
  then show "chan_img (cimage (irows u) (icols u) (\<lambda>i j. (img_at u i j, img_at v i j))) 0 = u"
    and "chan_img (cimage (irows u) (icols u) (\<lambda>i j. (img_at u i j, img_at v i j))) 1 = v"
    using chan_merge[of "[u, v]" 0] chan_merge[of "[u, v]" 1] merge_pair[of u v] assms pl by simp_all
qed

theorem complex_create_split:
  assumes law: "channel_lib cv" and p: "real_pair w a b"
  shows "\<exists>z w1 ps w2. complex_create cv a b mat_default w = Inr (z, w1) \<and> split2 cv z w1 = Inr (ps, w2)
    \<and> value_of w2 (ps ! 0) = value_of w a \<and> value_of w2 (ps ! 1) = value_of w b"
proof -
  let ?u = "value_of w a" and ?v = "value_of w b"
  obtain z w1 where z: "complex_create cv a b mat_default w = Inr (z, w1)"
    "stored w mat_default (cimage (nrows a) (ncols a) (\<lambda>i j. (img_at ?u i j, img_at ?v i j))) z w1"
    using complex_create_ok[OF law p out_ok_new] by blast
  have zt: "mtype z = CV_64FC2" "nrows z = nrows a" "ncols z = ncols a" using storedD[OF z(2)] by simp_all
  have "has_pixels w1 z" using storedD(2)[OF z(2)] zt p by (simp add: has_pixels_def real_pair_def)
  moreover have "channels z = 2" using zt by (simp add: channels_def)
  ultimately obtain ps w2 where ps: "split2 cv z w1 = Inr (ps, w2)"
    "\<forall>c < 2. value_of w2 (ps ! c) = chan_img (value_of w1 z) c"
    using split2_ok[OF law] by blast
  have "chan_img (value_of w1 z) 0 = ?u" "chan_img (value_of w1 z) 1 = ?v"
    using chan_cimage[of ?u ?v] storedD(1)[OF z(2)] p by (simp_all add: value_of_ok real_pair_def has_pixels_def)
  then show ?thesis using z(1) ps by auto
qed

text \<open>\<open>complex_imwrite\<close> writes four channels: the third plane it merges is a two-channel image of zeros.\<close>

lemma keeps_files: "keeps w b v \<Longrightarrow> files v = files w \<and> shown v = shown w \<and> messages v = messages w \<and> gv_cMap v = gv_cMap w"
  unfolding keeps_def by (metis world.surjective world.update_convs(1) world.select_convs)

lemma complex_imwrite_four_channels:
  assumes law: "channel_lib cv" and m: "has_pixels w m1" "mtype m1 = CV_64FC2"
  shows "\<exists>v w'. complex_imwrite cv fname m1 w = Inr ((), w') \<and> files w' = files w @ [(fname, v)] \<and> icn v = 4"
proof -
  have z: "zeros_law cv" "split_law cv" "merge_law cv" using law by (simp_all add: channel_lib_def)
  have ok: "hdr_ok w m1" and sg: "0 \<le> mrows m1" "0 \<le> mcols m1" and px: "0 < nrows m1" "0 < ncols m1"
    using m hdr_ok_signs by (auto simp: has_pixels_def)
  obtain os w1 where os: "zeros_planes cv m1 3 w = Inr (os, w1)" "length os = 3" "new_planes (length (bufs w)) w1 os"
    "keeps w None w1" "\<forall>p \<in> set os. mtype p = mtype m1 \<and> nrows p = nrows m1 \<and> ncols p = ncols m1"
    using zeros_planes_ok[OF z(1) sg, of 3 w] by blast
  obtain ms w2 where ms: "zeros_planes cv m1 2 w1 = Inr (ms, w2)" "length ms = 2" "new_planes (length (bufs w1)) w2 ms"
    "keeps w1 None w2" using zeros_planes_ok[OF z(1) sg, of 2 w1] by blast
  have ok1: "hdr_ok w1 m1" and ok2: "hdr_ok w2 m1"
    using keepsD(1)[OF os(4) ok] keepsD(1)[OF ms(4)] by auto
  have n: "nch m1 = 2" using m(2) by (simp add: nch_def channels_def)
  have px2: "has_pixels w2 m1" using ok2 px by (simp add: has_pixels_def)
  obtain ps w3 where ps: "split_into cv m1 ms w2 = Inr (ps, w3)" "length ps = 2"
    "\<forall>c < 2. hdr_ok w3 (ps ! c) \<and> value_of w3 (ps ! c) = chan_img (value_of w2 m1) c" "keeps w1 None w3"
    using split_planes_ok[OF z(2) px2 ms(3) _ ms(4)] n ms(2) by auto
  let ?o2 = "os ! 2" and ?vs = "[value_of w3 (ps ! 0), value_of w3 (ps ! 1), value_of w3 (os ! 2)]"
  have o2: "hdr_ok w1 ?o2" "mtype ?o2 = CV_64FC2" "nrows ?o2 = nrows m1" "ncols ?o2 = ncols m1"
    using os(2,3,5) m(2) by (auto simp: new_planes_def)
  have ok3: "hdr_ok w3 (ps ! 0)" "hdr_ok w3 (ps ! 1)" "hdr_ok w3 ?o2" using ps(3) keepsD(1)[OF ps(4) o2(1)] by auto
  have cn: "icn (value_of w3 ?o2) = 2" using o2(2) by (simp add: nch_def channels_def)
  have "same_planes ?vs"
    using ps(3) o2 cn px m(2) by (simp add: same_planes_def maketype_depth del: value_of_sel(5))
  then have mg: "lib_merge cv ?vs = Inr (merge_img ?vs)" "img_ok (merge_img ?vs)" "icn (merge_img ?vs) = 4"
    using z(3) merge_img_ok merge_img_cn ps(3) cn by (auto simp: merge_law_def simp del: value_of_sel(5))
  obtain o_i w4 where o: "put_out mat_default (merge_img ?vs) w3 = Inr (o_i, w4)" "hdr_ok w4 o_i"
    "value_of w4 o_i = merge_img ?vs" "keeps w3 None w4"
    using put_new_ok[OF mg(2)] by metis
  have upd: "os[0 := ps ! 0, 1 := ps ! 1] = [ps ! 0, ps ! 1, ?o2]"
    using os(2) by (auto simp: length_Suc_conv numeral_3_eq_3 numeral_2_eq_2)
  have "merge_into cv [ps ! 0, ps ! 1, ?o2] mat_default w3 = Inr (o_i, w4)"
    using mg(1) o(1) ok3 by (simp add: merge_into_def fetch_ok)
  then have "complex_imwrite cv fname m1 w = Inr ((), w4\<lparr>files := files w4 @ [(fname, merge_img ?vs)]\<rparr>)"
    using os(1) ms(1) ps(1) upd fetch_ok[OF o(2)] o(3) by (simp add: complex_imwrite_def imwrite_def)
  moreover have "files w4 = files w" using keeps_files[OF os(4)] keeps_files[OF ps(4)] keeps_files[OF o(4)] by simp
  ultimately show ?thesis using mg(3) by auto
qed

subsection \<open>The padded transforms\<close>

text \<open>"The function copies the source image into the middle of the destination image", with a constant
  around it; the transform of a complex image is a complex image of the same size; an optimal size is
  not smaller than the size asked for.\<close>

definition border_img :: "img \<Rightarrow> int \<Rightarrow> int \<Rightarrow> int \<Rightarrow> int \<Rightarrow> fp \<Rightarrow> img" where
  "border_img v t b l r x = \<lparr>itype = itype v, irows = nat (int (irows v) + t + b), icols = nat (int (icols v) + l + r),
     idata = map (\<lambda>i. map (\<lambda>k. if nat t \<le> i \<and> i < nat t + irows v \<and> nat l * icn v \<le> k \<and> k < (nat l + icols v) * icn v
         then img_at v (i - nat t) (k - nat l * icn v) else x)
       [0..<nat (int (icols v) + l + r) * icn v]) [0..<nat (int (irows v) + t + b)]\<rparr>"

definition border_law :: "opencv \<Rightarrow> bool" where
  "border_law cv \<longleftrightarrow> (\<forall>v t b l r x. img_ok v \<longrightarrow> 0 < irows v \<longrightarrow> 0 < icols v \<longrightarrow> 0 \<le> t \<longrightarrow> 0 \<le> b \<longrightarrow> 0 \<le> l \<longrightarrow> 0 \<le> r \<longrightarrow>
     lib_copyMakeBorder cv v t b l r x = Inr (border_img v t b l r x))"

definition dft_law :: "opencv \<Rightarrow> bool" where
  "dft_law cv \<longleftrightarrow> (\<forall>v flags. img_ok v \<longrightarrow> itype v = CV_64FC2 \<longrightarrow> 0 < irows v \<longrightarrow> 0 < icols v \<longrightarrow> flags AND 32 = 0 \<longrightarrow>
     (\<exists>x. lib_dft cv v flags = Inr x \<and> img_ok x \<and> itype x = CV_64FC2 \<and> irows x = irows v \<and> icols x = icols v))"

definition optimal_law :: "opencv \<Rightarrow> bool" where
  "optimal_law cv \<longleftrightarrow> (\<forall>n. 1 \<le> n \<longrightarrow> n \<le> 2 ^ 24 \<longrightarrow> n \<le> lib_optDFTSize cv n)"

definition fourier_lib :: "opencv \<Rightarrow> bool" where
  "fourier_lib cv \<longleftrightarrow> border_law cv \<and> dft_law cv \<and> optimal_law cv"

lemma border_img_sel [simp]: "itype (border_img v t b l r x) = itype v"
  "irows (border_img v t b l r x) = nat (int (irows v) + t + b)" "icols (border_img v t b l r x) = nat (int (icols v) + l + r)"
  "icn (border_img v t b l r x) = icn v"
  by (simp_all add: border_img_def icn_def)

lemma border_img_ok [simp]: "img_ok (border_img v t b l r x)"
  by (auto simp: img_ok_def irowlen_def) (auto simp: border_img_def)

definition padded :: "opencv \<Rightarrow> img \<Rightarrow> img" where
  "padded cv v = border_img v 0 (lib_optDFTSize cv (int (irows v)) - int (irows v)) 0
     (lib_optDFTSize cv (int (icols v)) - int (icols v)) (Fin 0)"

lemma dft_pads:
  assumes law: "fourier_lib cv" and m: "has_pixels w input" "mtype input = CV_64FC2" "nrows input \<le> 2 ^ 24" "ncols input \<le> 2 ^ 24"
    and out: "out_ok w output" and fl: "flags AND 32 = 0"
  shows "\<exists>x o_i w'. lib_dft cv (padded cv (value_of w input)) flags = Inr x
    \<and> bindA (pad_optimal cv input) (\<lambda>paddedInput. call1 (\<lambda>v. lib_dft cv v flags) paddedInput output) w = Inr (o_i, w')
    \<and> stored w output x o_i w' \<and> mtype o_i = CV_64FC2
    \<and> mrows o_i = lib_optDFTSize cv (mrows input) \<and> mcols o_i = lib_optDFTSize cv (mcols input)"
proof -
  have ok: "hdr_ok w input" and px: "0 < nrows input" "0 < ncols input" using m by (auto simp: has_pixels_def)
  note sz = hdr_ok_sizes[OF ok]
  let ?v = "value_of w input" and ?p = "padded cv (value_of w input)"
  have opt: "int (nrows input) \<le> lib_optDFTSize cv (mrows input)" "int (ncols input) \<le> lib_optDFTSize cv (mcols input)"
    using law px m(3,4) by (auto simp: fourier_lib_def optimal_law_def sz)
  then have oz: "0 < lib_optDFTSize cv (mrows input)" "0 < lib_optDFTSize cv (mcols input)" using px by linarith+
  have b: "lib_copyMakeBorder cv ?v 0 (lib_optDFTSize cv (mrows input) - mrows input) 0 (lib_optDFTSize cv (mcols input) - mcols input) (Fin 0)
      = Inr ?p"
    using law px opt by (simp add: fourier_lib_def border_law_def padded_def value_of_ok flip: sz)
  obtain p w1 where p: "pad_optimal cv input w = Inr (p, w1)" "hdr_ok w1 p" "value_of w1 p = ?p" "keeps w None w1"
    using call1_new[OF ok, of "\<lambda>v. lib_copyMakeBorder cv v 0 (lib_optDFTSize cv (mrows input) - mrows input) 0
      (lib_optDFTSize cv (mcols input) - mcols input) (Fin 0)" ?p] b
    by (auto simp: pad_optimal_def Let_def padded_def)
  have "img_ok ?p" "itype ?p = CV_64FC2" "0 < irows ?p" "0 < icols ?p"
    using oz m(2) by (auto simp: padded_def simp flip: sz)
  then obtain x where x: "lib_dft cv ?p flags = Inr x" "img_ok x" "itype x = CV_64FC2" "irows x = irows ?p" "icols x = icols ?p"
    using law fl unfolding fourier_lib_def dft_law_def by blast
  from call1_ok[OF p(2) _ x(2) out_ok_keeps[OF out p(4)], of "\<lambda>v. lib_dft cv v flags"] x(1) p(3) obtain o_i w2 where
    o: "call1 (\<lambda>v. lib_dft cv v flags) p output w1 = Inr (o_i, w2)" "stored w1 output x o_i w2" by auto
  have "mtype o_i = CV_64FC2" "mrows o_i = lib_optDFTSize cv (mrows input)" "mcols o_i = lib_optDFTSize cv (mcols input)"
    using storedD[OF o(2)] x(3-5) hdr_ok_sizes[OF storedD(2)[OF o(2)]] oz by (simp_all add: padded_def flip: sz)
  then show ?thesis using stored_after[OF p(4) o(2)] p(1) o(1) x(1) by auto
qed

theorem fft2_value:
  assumes "fourier_lib cv" and "has_pixels w input" "mtype input = CV_64FC2" "nrows input \<le> 2 ^ 24" "ncols input \<le> 2 ^ 24"
    and "out_ok w output"
  shows "\<exists>x o_i w'. lib_dft cv (padded cv (value_of w input)) DFT_COMPLEX_OUTPUT = Inr x
    \<and> fft2 cv input output w = Inr (o_i, w') \<and> stored w output x o_i w' \<and> mtype o_i = CV_64FC2
    \<and> mrows o_i = lib_optDFTSize cv (mrows input) \<and> mcols o_i = lib_optDFTSize cv (mcols input)"
  unfolding fft2_def by (rule dft_pads[OF assms]) (simp add: DFT_COMPLEX_OUTPUT_def)

theorem ifft2_value:
  assumes "fourier_lib cv" and "has_pixels w input" "mtype input = CV_64FC2" "nrows input \<le> 2 ^ 24" "ncols input \<le> 2 ^ 24"
    and "out_ok w output"
  shows "\<exists>x o_i w'. lib_dft cv (padded cv (value_of w input)) (DFT_INVERSE OR DFT_COMPLEX_OUTPUT OR DFT_SCALE) = Inr x
    \<and> ifft2 cv input output w = Inr (o_i, w') \<and> stored w output x o_i w' \<and> mtype o_i = CV_64FC2
    \<and> mrows o_i = lib_optDFTSize cv (mrows input) \<and> mcols o_i = lib_optDFTSize cv (mcols input)"
  unfolding ifft2_def by (rule dft_pads[OF assms]) (simp add: DFT_INVERSE_def DFT_COMPLEX_OUTPUT_def DFT_SCALE_def)

subsection \<open>The colour map stays valid\<close>

text \<open>Operations that never touch the global colour map.\<close>

definition keeps_cmap :: "'a cvact \<Rightarrow> bool" where
  "keeps_cmap f \<longleftrightarrow> (\<forall>w x w'. f w = Inr (x, w') \<longrightarrow> gv_cMap w' = gv_cMap w)"

named_theorems cmap_intros "operations that keep the colour map"

lemma keeps_cmap_ret [cmap_intros]: "keeps_cmap (retA x)" and keeps_cmap_lift [cmap_intros]: "keeps_cmap (liftA r)"
  and keeps_cmap_fail [cmap_intros]: "keeps_cmap (failA e)"
  by (auto simp: keeps_cmap_def liftA_def split: sum.splits)

lemma keeps_cmap_pure [cmap_intros]: "keeps_cmap (\<lambda>w. Inr (x, w))" "keeps_cmap (\<lambda>w. Inl e)"
  by (auto simp: keeps_cmap_def)

lemma keeps_cmap_bind [cmap_intros]: "keeps_cmap f \<Longrightarrow> (\<And>x. keeps_cmap (g x)) \<Longrightarrow> keeps_cmap (bindA f g)"
  unfolding keeps_cmap_def by (metis bindA_InrE)

lemma keeps_cmap_then [cmap_intros]: "keeps_cmap f \<Longrightarrow> keeps_cmap g \<Longrightarrow> keeps_cmap (thenA f g)"
  unfolding thenA_def by (rule keeps_cmap_bind)

lemma keeps_cmap_prim [cmap_intros]: "keeps_cmap (fetch m)" "keeps_cmap (put_out m v)" "keeps_cmap (tell s)" "keeps_cmap (imshow t m)"
  "keeps_cmap (\<lambda>w. Inr (gv_cMap w, w))"
  by (auto simp: keeps_cmap_def fetch_def put_out_def create_def alloc_def write_img_def tell_def imshow_def bindA_def Let_def
      split: if_splits option.splits sum.splits prod.splits)

lemma keeps_cmap_if [cmap_intros]: "(b \<Longrightarrow> keeps_cmap f) \<Longrightarrow> (\<not> b \<Longrightarrow> keeps_cmap g) \<Longrightarrow> keeps_cmap (if b then f else g)"
  by simp

lemma keeps_cmap_zeros [cmap_intros]: "keeps_cmap (zeros_planes cv m n)"
  by (induction n) (auto simp: zeros_mat_def intro!: cmap_intros)

lemma keeps_cmap_put_outs [cmap_intros]: "keeps_cmap (put_outs ms vs)"
  by (induction ms vs rule: put_outs.induct) (auto intro!: cmap_intros)

lemma keeps_cmap_calls [cmap_intros]: "keeps_cmap (call1 f a o_i)" "keeps_cmap (call2 g a b o_i)" "keeps_cmap (split2 cv m)"
  by (auto simp: call1_def call2_def split2_def split_into_def intro!: cmap_intros)

lemma keeps_cmap_show [cmap_intros]: "keeps_cmap (showImg cv m t)" and keeps_cmap_showC [cmap_intros]: "keeps_cmap (showComplexImg cv m f t)"
  unfolding showImg_def showComplexImg_def by (intro cmap_intros)+

text \<open>The displays and settings a program can make, from the initial setting on.\<close>

inductive display :: "opencv \<Rightarrow> world \<Rightarrow> bool" for cv where
  start: "gv_cMap w = COLORMAP_NONE \<Longrightarrow> display cv w"
| set_map: "display cv w \<Longrightarrow> setColorMap c w = Inr ((), w') \<Longrightarrow> display cv w'"
| show_img: "display cv w \<Longrightarrow> showImg cv m t w = Inr ((), w') \<Longrightarrow> display cv w'"
| show_complex: "display cv w \<Longrightarrow> showComplexImg cv m f t w = Inr ((), w') \<Longrightarrow> display cv w'"

definition valid_cmap :: "world \<Rightarrow> bool" where
  "valid_cmap w \<longleftrightarrow> gv_cMap w = COLORMAP_NONE \<or> (CMAP_MIN \<le> gv_cMap w \<and> gv_cMap w \<le> CMAP_MAX)"

lemma setColorMap_total: "\<exists>w'. setColorMap c w = Inr ((), w') \<and>
  gv_cMap w' = (if CMAP_MIN \<le> c \<and> c \<le> CMAP_MAX then c else gv_cMap w)"
  by (simp add: setColorMap_def tell_def)

lemma display_valid: "display cv w \<Longrightarrow> valid_cmap w"
proof (induction rule: display.induct)
  case (set_map w c w')
  then show ?case using setColorMap_total[of c w] by (auto simp: valid_cmap_def split: if_splits)
next
  case (show_img w m t w')
  then show ?case using keeps_cmap_show[of cv m t] by (auto simp: valid_cmap_def keeps_cmap_def)
next
  case (show_complex w m f t w')
  then show ?case using keeps_cmap_showC[of cv m f t] by (auto simp: valid_cmap_def keeps_cmap_def)
qed (simp add: valid_cmap_def)

text \<open>So \<open>applyColorMap\<close> is never called with another map: a library without others serves as well.\<close>

definition known_maps_only :: "opencv \<Rightarrow> opencv" where
  "known_maps_only cv = cv\<lparr>lib_applyColorMap := \<lambda>v c. if 0 \<le> c \<and> c \<le> 11 then lib_applyColorMap cv v c else Inl CvException\<rparr>"

lemma known_maps_same:
  assumes "valid_cmap w" and "0 \<le> gv_cMap w"
  shows "call1 (\<lambda>v. lib_applyColorMap (known_maps_only cv) v (gv_cMap w)) m o_i = call1 (\<lambda>v. lib_applyColorMap cv v (gv_cMap w)) m o_i"
  using assms by (auto simp: known_maps_only_def valid_cmap_def COLORMAP_NONE_def CMAP_MAX_def)

lemma bindA_cong_at: "(\<And>x t. f s = Inr (x, t) \<Longrightarrow> g x t = h x t) \<Longrightarrow> bindA f g s = bindA f h s"
  by (auto simp: bindA_def split: sum.splits)

theorem showImg_known_maps:
  assumes "display cv w"
  shows "showImg (known_maps_only cv) m t w = showImg cv m t w"
proof -
  have v: "valid_cmap w" using assms by (rule display_valid)
  have k: "keeps_cmap (call1 f a o_i)" for f a o_i by (intro cmap_intros)
  have sel: "lib_normalize (known_maps_only cv) = lib_normalize cv" "lib_convertTo (known_maps_only cv) = lib_convertTo cv"
    by (simp_all add: known_maps_only_def)
  show ?thesis
    unfolding showImg_def sel
  proof (intro bindA_cong_at)
    fix s1 w1 s2 w2 c w3
    assume 1: "call1 (\<lambda>v. lib_normalize cv v (Fin 0) (Fin 255)) m mat_default w = Inr (s1, w1)"
      "call1 (\<lambda>v. lib_convertTo cv v CV_8U (Fin 1) (Fin 0)) s1 s1 w1 = Inr (s2, w2)"
      "Inr (gv_cMap w2, w2) = Inr (c, w3)"
    then have c: "c = gv_cMap w3" "gv_cMap w3 = gv_cMap w" using k unfolding keeps_cmap_def by (metis Inr_inject prod.inject)+
    then have "valid_cmap w3" using v by (simp add: valid_cmap_def)
    then have "(if 0 \<le> c then call1 (\<lambda>v. lib_applyColorMap (known_maps_only cv) v c) s2 mat_default else retA s2)
        = (if 0 \<le> c then call1 (\<lambda>v. lib_applyColorMap cv v c) s2 mat_default else retA s2)"
      using known_maps_same[of w3 cv s2 mat_default] c(1) by auto
    then show "bindA (if 0 \<le> c then call1 (\<lambda>v. lib_applyColorMap (known_maps_only cv) v c) s2 mat_default else retA s2) (imshow t) w3
        = bindA (if 0 \<le> c then call1 (\<lambda>v. lib_applyColorMap cv v c) s2 mat_default else retA s2) (imshow t) w3"
      by (rule arg_cong[where f = "\<lambda>a. bindA a (imshow t) w3"])
  qed
qed

end
