(* ===== verification/StdComplex.thy ===== *)
theory StdComplex
  imports Fp
begin

text \<open>
  \<open>std::complex<double>\<close> as the sources use it: a pair of doubles. Sums and products with a real are
  component-wise; the product of two complex values is the compiler's, with the recovery of
  infinities when both components of the plain product are NaN (C99, annex G). The exponential
  and the absolute value come from the C library; they are the fields of the record \<open>libm\<close>.
\<close>

type_synonym cdouble = "fp \<times> fp"

record libm =
  m_cexp :: "cdouble \<Rightarrow> cdouble"
  m_cabs :: "cdouble \<Rightarrow> fp"

fun is_inf :: "fp \<Rightarrow> bool" where
  "is_inf (Inf _) = True"
| "is_inf _ = False"

definition is_nan :: "fp \<Rightarrow> bool" where
  "is_nan x \<longleftrightarrow> x = NaN"

definition cx_add :: "cdouble \<Rightarrow> cdouble \<Rightarrow> cdouble" where
  "cx_add a b = (dadd (fst a) (fst b), dadd (snd a) (snd b))"

definition cx_neg :: "cdouble \<Rightarrow> cdouble" where
  "cx_neg a = (fneg (fst a), fneg (snd a))"

definition cx_scale :: "cdouble \<Rightarrow> fp \<Rightarrow> cdouble" where
  "cx_scale a x = (dmul (fst a) x, dmul (snd a) x)"

definition cx_over :: "cdouble \<Rightarrow> fp \<Rightarrow> cdouble" where
  "cx_over a x = (ddiv (fst a) x, ddiv (snd a) x)"

text \<open>\<open>copysign(isinf(x) ? 1 : 0, x)\<close>, and \<open>copysign(0, x)\<close> for a NaN.\<close>

fun unit_inf :: "fp \<Rightarrow> fp" where
  "unit_inf (Inf s) = Fin (if s then - 1 else 1)"
| "unit_inf _ = Fin 0"

definition no_nan :: "fp \<Rightarrow> fp" where
  "no_nan x = (if is_nan x then Fin 0 else x)"

definition recovered :: "fp \<Rightarrow> fp \<Rightarrow> fp \<Rightarrow> fp \<Rightarrow> cdouble" where
  "recovered a b c d = (dmul (Inf False) (dsub (dmul a c) (dmul b d)), dmul (Inf False) (dadd (dmul a d) (dmul b c)))"

definition cx_mul :: "cdouble \<Rightarrow> cdouble \<Rightarrow> cdouble" where
  "cx_mul p q = (let a = fst p; b = snd p; c = fst q; d = snd q;
     ac = dmul a c; bd = dmul b d; ad = dmul a d; bc = dmul b c; x = dsub ac bd; y = dadd ad bc in
     if is_nan x \<and> is_nan y then
       let i1 = is_inf a \<or> is_inf b;
           a1 = (if i1 then unit_inf a else a); b1 = (if i1 then unit_inf b else b);
           c1 = (if i1 then no_nan c else c); d1 = (if i1 then no_nan d else d);
           i2 = is_inf c1 \<or> is_inf d1;
           c2 = (if i2 then unit_inf c1 else c1); d2 = (if i2 then unit_inf d1 else d1);
           a2 = (if i2 then no_nan a1 else a1); b2 = (if i2 then no_nan b1 else b1);
           i3 = (\<not> i1 \<and> \<not> i2 \<and> (is_inf ac \<or> is_inf bd \<or> is_inf ad \<or> is_inf bc));
           a3 = (if i3 then no_nan a2 else a2); b3 = (if i3 then no_nan b2 else b2);
           c3 = (if i3 then no_nan c2 else c2); d3 = (if i3 then no_nan d2 else d2)
       in if i1 \<or> i2 \<or> i3 then recovered a3 b3 c3 d3 else (x, y)
     else (x, y))"

text \<open>The plain product, when it is a number in one component.\<close>

lemma cx_mul_plain:
  assumes "dsub (dmul (fst p) (fst q)) (dmul (snd p) (snd q)) \<noteq> NaN \<or> dadd (dmul (fst p) (snd q)) (dmul (snd p) (fst q)) \<noteq> NaN"
  shows "cx_mul p q = (dsub (dmul (fst p) (fst q)) (dmul (snd p) (snd q)), dadd (dmul (fst p) (snd q)) (dmul (snd p) (fst q)))"
proof -
  have "\<not> (is_nan (dsub (dmul (fst p) (fst q)) (dmul (snd p) (snd q)))
      \<and> is_nan (dadd (dmul (fst p) (snd q)) (dmul (snd p) (fst q))))"
    using assms by (auto simp: is_nan_def)
  then show ?thesis unfolding cx_mul_def Let_def by (rule if_not_P)
qed

end
