(* ===== verification/Fresnel.thy ===== *)
theory Fresnel
  imports CircShift ImageOps StdComplex
begin

text \<open>
  Propagation of a complex field: \<open>genFresnelKernel\<close> and \<open>fresnelProp\<close> of
  jni-native/jni/cvComplex.cpp, composed of the transforms, the exchange of quadrants and the
  product of the other theories.
\<close>

subsection \<open>The code\<close>

text \<open>\<open>M_PI\<close>, the double next to pi.\<close>

definition M_PI :: fp where
  "M_PI = Fin (884279719003555 / 281474976710656)"

definition ii :: cdouble where
  "ii = (Fin 0, Fin 1)"

text \<open>\<open>exp(ii * (2 * M_PI / lambda) * zDist) * exp(-ii * M_PI * lambda * zDist * (fx*fx + fy*fy))\<close>\<close>

definition fresnel_value :: "libm \<Rightarrow> fp \<Rightarrow> fp \<Rightarrow> fp \<Rightarrow> fp \<Rightarrow> cdouble" where
  "fresnel_value lm zDist lambda fx fy = cx_mul
     (m_cexp lm (cx_scale (cx_scale ii (ddiv (dmul (Fin 2) M_PI) lambda)) zDist))
     (m_cexp lm (cx_scale (cx_scale (cx_scale (cx_scale (cx_neg ii) M_PI) lambda) zDist)
       (dadd (dmul fx fx) (dmul fy fy))))"

text \<open>\<open>(i - floor(n / 2.)) * d\<close>\<close>

definition freq :: "nat \<Rightarrow> int \<Rightarrow> fp \<Rightarrow> fp" where
  "freq i n d = dmul (dsub (i2f binary64 (int i)) (i2f binary64 (floor_half n))) d"

definition kernel_pixel :: "libm \<Rightarrow> mat \<Rightarrow> fp \<Rightarrow> fp \<Rightarrow> fp \<Rightarrow> fp \<Rightarrow> nat \<Rightarrow> nat \<Rightarrow> cdouble" where
  "kernel_pixel lm input zDist lambda du dv i j =
     fresnel_value lm zDist lambda (freq i (mcols input) du) (freq j (mrows input) dv)"

definition genFresnelKernel :: "opencv \<Rightarrow> libm \<Rightarrow> mat \<Rightarrow> mat \<Rightarrow> fp \<Rightarrow> fp \<Rightarrow> fp \<Rightarrow> fp \<Rightarrow> mat cvact" where
  "genFresnelKernel cv lm input kernelMat zDist lambda du dv =
     bindA (zeros_mat cv (mcols input) (mrows input) CV_64F) (\<lambda>p0.
     bindA (zeros_mat cv (mcols input) (mrows input) CV_64F) (\<lambda>p1.
     thenA (for_each [0..<ncols input] (\<lambda>i. for_each [0..<nrows input] (\<lambda>j.
       thenA (store p0 i j (fst (kernel_pixel lm input zDist lambda du dv i j)))
             (store p1 i j (snd (kernel_pixel lm input zDist lambda du dv i j))))))
     (merge_into cv [p0, p1] kernelMat)))"

definition fresnelProp :: "opencv \<Rightarrow> libm \<Rightarrow> mat \<Rightarrow> mat \<Rightarrow> fp \<Rightarrow> fp \<Rightarrow> fp \<Rightarrow> mat cvact" where
  "fresnelProp cv lm input output zDist lambda ps_eff =
     bindA (zeros_mat cv (mrows input) (mcols input) (mtype input)) (\<lambda>kernel.
     bindA (genFresnelKernel cv lm input kernel zDist lambda
       (ddiv (Fin 1) (dmul (i2f binary64 (mcols input)) ps_eff)) (ddiv (Fin 1) (dmul (i2f binary64 (mrows input)) ps_eff))) (\<lambda>kernel.
     bindA (fft2 cv input mat_default) (\<lambda>I_h_Ft.
     bindA (fftShift cv I_h_Ft I_h_Ft) (\<lambda>I_h_Ft.
     bindA (complexMultiply cv I_h_Ft kernel mat_default) (\<lambda>output_Ft.
     bindA (fftShift cv output_Ft output_Ft) (\<lambda>output_Ft.
       ifft2 cv output_Ft output))))))"

subsection \<open>The kernel\<close>

lemma CV_64F_plane: "CV_MAT_CN CV_64F = 1" "CV_MAT_DEPTH CV_64F = CV_64F" "CV_64FC1 = CV_64F"
  by (simp_all add: CV_64F_def CV_64FC1_def CV_MAT_CN_div CV_MAT_DEPTH_mod CV_MAKETYPE_def)

text \<open>Two new images of zeros for the parts of a complex one.\<close>

lemma two_zeros_ok:
  assumes z: "zeros_law cv" and sg: "0 \<le> r" "0 \<le> c"
  obtains p q w1 w' where "zeros_mat cv r c CV_64F w = Inr (p, w1)" and "zeros_mat cv r c CV_64F w1 = Inr (q, w')"
    and "pair_ok w' p q" and "nrows p = nat r" and "rowlen p = nat c" and "ncols p = nat c" and "ncols q = nat c"
    and "mtype p = CV_64FC1" and "mtype q = CV_64FC1" and "keeps w None w'"
    and "\<forall>b \<in> {buf_of p, buf_of q}. \<exists>n. b = Some n \<and> length (bufs w) \<le> n"
proof -
  obtain p w1 where p: "zeros_mat cv r c CV_64F w = Inr (p, w1)" "hdr_ok w1 p"
    "value_of w1 p = const_img CV_64F (nat r) (nat c) (Fin 0)" "keeps w None w1" "buf_of p = Some (length (bufs w))"
    by (rule zeros_mat_ok[OF z sg, of CV_64F w])
  obtain q w2 where q: "zeros_mat cv r c CV_64F w1 = Inr (q, w2)" "hdr_ok w2 q"
    "value_of w2 q = const_img CV_64F (nat r) (nat c) (Fin 0)" "keeps w1 None w2" "buf_of q = Some (length (bufs w1))"
    by (rule zeros_mat_ok[OF z sg, of CV_64F w1])
  have t: "mtype p = CV_64F" "nrows p = nat r" "ncols p = nat c" "mtype q = CV_64F" "nrows q = nat r" "ncols q = nat c"
    using value_of_eqD[OF p(3)] value_of_eqD[OF q(3)] by simp_all
  have rl: "rowlen p = nat c" "rowlen q = nat c" "depth p = CV_64F" "depth q = CV_64F"
    using t by (simp_all add: rowlen_def nch_def channels_def depth_def CV_64F_plane)
  have "buf_of p \<noteq> buf_of q" using p(2,5) q(5) hdr_ok_buf by fastforce
  then have "pair_ok w2 p q"
    using keepsD(1)[OF q(4) p(2)] q(2) rl t by (simp add: pair_ok_def)
  then show ?thesis
    using that[OF p(1) q(1)] t rl p(5) q(5) keeps_trans[OF p(4) q(4)] keeps_length[OF p(4)] by (simp add: CV_64F_plane)
qed

text \<open>Two filled parts, merged: a complex image with their pixels.\<close>

lemma merge_filled:
  assumes law: "merge_law cv" and pq: "pair_ok w p q" and t: "mtype p = CV_64FC1" "mtype q = CV_64FC1"
    and pos: "0 < nrows p" "0 < rowlen p" and out: "out_ok v output"
    and u: "pair_written w p q (places (nrows p) (rowlen p)) F G v"
  shows "\<exists>o_i v'. merge_into cv [p, q] output v = Inr (o_i, v')
    \<and> stored v output (cimage (nrows p) (ncols p) (\<lambda>i j. (F i j, G i j))) o_i v'"
proof -
  let ?a = "value_of v p" and ?b = "value_of v q"
  note r = pair_result[OF u pq]
  have nch: "nch p = 1" "nch q = 1" using t by (simp_all add: nch_def channels_def)
  have sz: "nrows q = nrows p" "ncols q = ncols p" "rowlen p = ncols p"
    using pq nch by (simp_all add: pair_ok_def rowlen_def)
  have mp: "merge_img [?a, ?b] = cimage (nrows p) (ncols p) (\<lambda>i j. (img_at ?a i j, img_at ?b i j))"
    using merge_pair[of ?a ?b] t sz pos by simp
  have mp': "\<dots> = cimage (nrows p) (ncols p) (\<lambda>i j. (F i j, G i j))"
    by (rule cimage_cong) (use r(3,4) sz in auto)
  have "same_planes [?a, ?b]" using t sz pos nch by (simp add: same_planes_def)
  then have mg: "lib_merge cv [?a, ?b] = Inr (merge_img [?a, ?b])" "img_ok (merge_img [?a, ?b])"
    using law merge_img_ok by (auto simp: merge_law_def)
  from put_out_stored[OF mg(2) out] mg(1) show ?thesis
    using r(1,2) mp mp' by (simp add: merge_into_def fetch_ok)
qed

lemma genFresnelKernel_ok:
  assumes law: "channel_lib cv" and sz: "0 < mrows input" "0 < mcols input" and out: "out_ok w kernelMat"
  shows "\<exists>o_i w'. genFresnelKernel cv lm input kernelMat zDist lambda du dv w = Inr (o_i, w')
    \<and> stored w kernelMat (cimage (ncols input) (nrows input) (kernel_pixel lm input zDist lambda du dv)) o_i w'"
proof -
  have z: "zeros_law cv" "merge_law cv" using law by (simp_all add: channel_lib_def)
  obtain p q w1 w2 where pq: "zeros_mat cv (mcols input) (mrows input) CV_64F w = Inr (p, w1)"
    "zeros_mat cv (mcols input) (mrows input) CV_64F w1 = Inr (q, w2)" "pair_ok w2 p q"
    "nrows p = ncols input" "rowlen p = nrows input" "ncols p = nrows input" "mtype p = CV_64FC1" "mtype q = CV_64FC1"
    "keeps w None w2" "\<forall>b \<in> {buf_of p, buf_of q}. \<exists>n. b = Some n \<and> length (bufs w) \<le> n"
    by (rule two_zeros_ok[OF z(1), of "mcols input" "mrows input" w]) (use sz in \<open>simp_all add: nrows_def ncols_def\<close>)
  let ?F = "\<lambda>i j. fst (kernel_pixel lm input zDist lambda du dv i j)"
  let ?G = "\<lambda>i j. snd (kernel_pixel lm input zDist lambda du dv i j)"
  obtain v where v: "for_each [0..<ncols input] (\<lambda>i. for_each [0..<nrows input] (\<lambda>j.
       thenA (store p i j (?F i j)) (store q i j (?G i j)))) w2 = Inr ((), v)"
    "pair_written w2 p q (places (nrows p) (rowlen p)) ?F ?G v"
    using pair_loop[OF pq(3), where r = "ncols input" and c = "nrows input" and F = ?F and G = ?G
      and body = "\<lambda>i j. thenA (store p i j (?F i j)) (store q i j (?G i j))"] pq(4,5) by auto
  have kv: "keeps w None v" by (rule keeps_but_new[OF pq(9) pair_result(5)[OF v(2) pq(3)] pq(10)])
  have "0 < nrows p" "0 < rowlen p" using pq(4,5) sz by (simp_all add: nrows_def ncols_def)
  then obtain o_i v' where o: "merge_into cv [p, q] kernelMat v = Inr (o_i, v')"
    "stored v kernelMat (cimage (nrows p) (ncols p) (\<lambda>i j. (?F i j, ?G i j))) o_i v'"
    using merge_filled[OF z(2) pq(3,7,8) _ _ out_ok_keeps[OF out kv] v(2)] by blast
  then show ?thesis using pq(1,2,4,6) v(1) stored_after[OF kv o(2)] by (simp add: genFresnelKernel_def)
qed

subsection \<open>The propagated field\<close>

text \<open>For a square image whose size needs no padding, in terms of values.\<close>

definition half_turn :: "img \<Rightarrow> img" where
  "half_turn v = shift_img ((int (icols v) + 1) div 2) ((int (irows v) + 1) div 2) v"

definition times :: "img \<Rightarrow> (nat \<Rightarrow> nat \<Rightarrow> cpixel) \<Rightarrow> img" where
  "times v k = cimage (irows v) (icols v) (\<lambda>i j. cmul (cpix v i j) (k i j))"

lemma padded_same:
  assumes "img_ok v" and "lib_optDFTSize cv (int (irows v)) = int (irows v)" and "lib_optDFTSize cv (int (icols v)) = int (icols v)"
  shows "padded cv v = v"
proof (rule img_eqI)
  show "img_ok (padded cv v)" by (simp add: padded_def)
  fix i k assume "i < irows v" "k < irowlen v"
  then show "img_at (padded cv v) i k = img_at v i k"
    using assms(2,3) by (simp add: padded_def img_at_def[of "border_img v 0 0 0 0 (Fin 0)"]) (simp add: border_img_def irowlen_def)
qed (use assms in \<open>simp_all add: padded_def\<close>)

definition fresnel_lib :: "opencv \<Rightarrow> bool" where
  "fresnel_lib cv \<longleftrightarrow> channel_lib cv \<and> fourier_lib cv \<and> copies_lib cv"

text \<open>A square complex image that the transforms do not pad.\<close>

definition fft_ready :: "opencv \<Rightarrow> world \<Rightarrow> mat \<Rightarrow> bool" where
  "fft_ready cv w m \<longleftrightarrow> square w m \<and> mtype m = CV_64FC2 \<and> mcols m \<le> 2 ^ 24 \<and> lib_optDFTSize cv (mcols m) = mcols m"

lemma fft_readyD:
  assumes "fft_ready cv w m"
  shows "hdr_ok w m" "has_pixels w m" "mtype m = CV_64FC2" "mrows m = mcols m" "2 \<le> mcols m" "nrows m = ncols m"
    "nrows m \<le> 2 ^ 24" "ncols m \<le> 2 ^ 24" "padded cv (value_of w m) = value_of w m" "cmat w m"
    "lib_optDFTSize cv (mrows m) = mrows m" "lib_optDFTSize cv (mcols m) = mcols m" "square w m"
proof -
  show a: "hdr_ok w m" "mtype m = CV_64FC2" "mrows m = mcols m" "2 \<le> mcols m" "lib_optDFTSize cv (mrows m) = mrows m"
    "lib_optDFTSize cv (mcols m) = mcols m" "square w m"
    using assms by (auto simp: fft_ready_def square_def)
  show "has_pixels w m" "nrows m = ncols m" "nrows m \<le> 2 ^ 24" "ncols m \<le> 2 ^ 24"
    using a assms by (auto simp: has_pixels_def fft_ready_def nrows_def ncols_def)
  show "padded cv (value_of w m) = value_of w m"
    using a by (intro padded_same) (simp_all add: value_of_ok flip: hdr_ok_sizes)
  show "cmat w m" using a by (simp add: cmat_def)
qed

text \<open>Each step of the propagation on such an image gives such an image.\<close>

lemma fft_step:
  assumes law: "fresnel_lib cv" and m: "fft_ready cv w m"
  shows "\<exists>x o_i w'. lib_dft cv (value_of w m) DFT_COMPLEX_OUTPUT = Inr x \<and> fft2 cv m mat_default w = Inr (o_i, w')
    \<and> value_of w' o_i = x \<and> fft_ready cv w' o_i \<and> keeps w None w' \<and> mcols o_i = mcols m"
proof -
  note d = fft_readyD[OF m]
  have f: "fourier_lib cv" using law by (simp add: fresnel_lib_def)
  from fft2_value[OF f d(2,3,7,8) out_ok_new] obtain x o_i w' where
    o: "lib_dft cv (padded cv (value_of w m)) DFT_COMPLEX_OUTPUT = Inr x" "fft2 cv m mat_default w = Inr (o_i, w')"
    "stored w mat_default x o_i w'" "mtype o_i = CV_64FC2"
    "mrows o_i = lib_optDFTSize cv (mrows m)" "mcols o_i = lib_optDFTSize cv (mcols m)" by blast
  have "fft_ready cv w' o_i"
    using o d m storedD(2)[OF o(3)] by (simp add: fft_ready_def square_def)
  then show ?thesis using o d storedD(1)[OF o(3)] stored_new[OF o(3)] by auto
qed

lemma turn_step:
  assumes law: "fresnel_lib cv" and m: "fft_ready cv w m"
  shows "\<exists>o_i w'. fftShift cv m m w = Inr (o_i, w') \<and> value_of w' o_i = half_turn (value_of w m)
    \<and> fft_ready cv w' o_i \<and> keeps w None w' \<and> mcols o_i = mcols m"
proof -
  note d = fft_readyD[OF m]
  have f: "zeros_law cv" "copies_lib cv" using law by (simp_all add: fresnel_lib_def channel_lib_def)
  from fftShift_value[OF f d(13)] obtain o_i w' where
    o: "fftShift cv m m w = Inr (o_i, w')" "square w' o_i" "keeps w None w'"
    "value_of w' o_i = shift_img ((mcols m + 1) div 2) ((mrows m + 1) div 2) (value_of w m)" by blast
  have v: "value_of w' o_i = half_turn (value_of w m)"
    using o(4) hdr_ok_sizes[OF d(1)] by (simp add: half_turn_def)
  have ok: "hdr_ok w' o_i" using o(2) by (simp add: square_def)
  have "mtype o_i = CV_64FC2" "mcols o_i = mcols m"
    using value_of_eqD[OF v] d(3) hdr_ok_sizes[OF ok] hdr_ok_sizes[OF d(1)] by (auto simp: half_turn_def)
  then have "fft_ready cv w' o_i" using o(2) m d by (simp add: fft_ready_def)
  then show ?thesis using o v \<open>mcols o_i = mcols m\<close> by blast
qed

lemma times_step:
  assumes law: "fresnel_lib cv" and m: "fft_ready cv w m" and k: "hdr_ok w k"
    "value_of w k = cimage (ncols m) (ncols m) g"
  shows "\<exists>o_i w'. complexMultiply cv m k mat_default w = Inr (o_i, w') \<and> value_of w' o_i = times (value_of w m) g
    \<and> fft_ready cv w' o_i \<and> keeps w None w' \<and> mcols o_i = mcols m"
proof -
  note d = fft_readyD[OF m]
  have z: "zeros_law cv" using law by (simp add: fresnel_lib_def channel_lib_def)
  have none: "buf_of mat_default = None" "mdata mat_default = None" by (simp_all add: buf_of_def mat_default_def)
  have kt: "mtype k = CV_64FC2" "nrows k = ncols m" "ncols k = ncols m" using value_of_eqD[OF k(2)] by simp_all
  have op: "operand w m mat_default k"
    using k(1) kt d(6) hdr_ok_buf[OF k(1)] none by (simp add: operand_def cmat_def)
  have "out_fits w m mat_default" using none by (simp add: out_fits_def)
  moreover have "buf_of m \<noteq> buf_of mat_default" using hdr_ok_buf[OF d(1)] none by simp
  ultimately obtain o_i w' where
    o: "complexMultiply cv m k mat_default w = Inr (o_i, w')"
    "leaves w mat_default (cimage (nrows m) (ncols m) (\<lambda>i j. cmul (cpix (value_of w m) i j) (cpix (value_of w k) i j))) o_i w'"
    using complexMultiply_value[OF z d(10) _ _ op] by blast
  have "cimage (nrows m) (ncols m) (\<lambda>i j. cmul (cpix (value_of w m) i j) (cpix (value_of w k) i j)) = times (value_of w m) g"
    unfolding times_def k(2) value_of_sel using d(6) by (intro cimage_cong) simp
  then have v: "value_of w' o_i = times (value_of w m) g" "hdr_ok w' o_i" using o(2) by (simp_all add: leaves_def)
  have "mdata o_i \<noteq> None" using v(2) by (auto simp: hdr_ok_def split: option.splits)
  then have "o_i \<noteq> mat_default" using none by auto
  then have kp: "keeps w None w'" using o(2) keeps_fresh unfolding leaves_def by auto
  have "mtype o_i = CV_64FC2" "mrows o_i = mrows m" "mcols o_i = mcols m"
    using value_of_eqD[OF v(1)] hdr_ok_sizes[OF v(2)] hdr_ok_sizes[OF d(1)] by (simp_all add: times_def)
  then have "fft_ready cv w' o_i" using m v(2) by (simp add: fft_ready_def square_def)
  then show ?thesis using o(1) v(1) kp \<open>mcols o_i = mcols m\<close> by blast
qed

definition prop_kernel :: "libm \<Rightarrow> mat \<Rightarrow> fp \<Rightarrow> fp \<Rightarrow> fp \<Rightarrow> nat \<Rightarrow> nat \<Rightarrow> cpixel" where
  "prop_kernel lm input zDist lambda ps_eff = kernel_pixel lm input zDist lambda
     (ddiv (Fin 1) (dmul (i2f binary64 (mcols input)) ps_eff)) (ddiv (Fin 1) (dmul (i2f binary64 (mrows input)) ps_eff))"

theorem fresnelProp_value:
  assumes law: "fresnel_lib cv" and m: "fft_ready cv w input" and out: "out_ok w output"
  shows "\<exists>x y o_i w'. lib_dft cv (value_of w input) DFT_COMPLEX_OUTPUT = Inr x
    \<and> lib_dft cv (half_turn (times (half_turn x) (prop_kernel lm input zDist lambda ps_eff)))
        (DFT_INVERSE OR DFT_COMPLEX_OUTPUT OR DFT_SCALE) = Inr y
    \<and> fresnelProp cv lm input output zDist lambda ps_eff w = Inr (o_i, w') \<and> stored w output y o_i w'"
proof -
  note d = fft_readyD[OF m]
  have l: "channel_lib cv" "zeros_law cv" "fourier_lib cv" using law by (simp_all add: fresnel_lib_def channel_lib_def)
  obtain k0 w0 where k0: "zeros_mat cv (mrows input) (mcols input) (mtype input) w = Inr (k0, w0)" "hdr_ok w0 k0" "keeps w None w0"
    "buf_of k0 = Some (length (bufs w))"
    using zeros_mat_ok[OF l(2), of "mrows input" "mcols input" "mtype input" w] hdr_ok_signs[OF d(1)] by metis
  let ?K = "prop_kernel lm input zDist lambda ps_eff"
  have pos: "0 < mrows input" "0 < mcols input" using d by simp_all
  obtain k w1 where k: "genFresnelKernel cv lm input k0 zDist lambda (ddiv (Fin 1) (dmul (i2f binary64 (mcols input)) ps_eff))
      (ddiv (Fin 1) (dmul (i2f binary64 (mrows input)) ps_eff)) w0 = Inr (k, w1)"
    "stored w0 k0 (cimage (ncols input) (nrows input) ?K) k w1"
    using genFresnelKernel_ok[OF l(1) pos, of w0 k0] k0(2) unfolding out_ok_def prop_kernel_def by blast
  have kw1: "keeps w None w1"
    using k(2) k0 keeps_new[OF k0(3)] keeps_length[OF k0(3)] unfolding stored_def by (metis order_refl order_trans)
  note in1 = keepsD[OF kw1 d(1)]
  have v1: "value_of w1 input = value_of w input" "fft_ready cv w1 input"
    using in1 hdr_ok_buf[OF d(1)] m by (auto simp: fft_ready_def square_def)
  obtain x f w2 where f: "lib_dft cv (value_of w input) DFT_COMPLEX_OUTPUT = Inr x" "fft2 cv input mat_default w1 = Inr (f, w2)"
    "value_of w2 f = x" "fft_ready cv w2 f" "keeps w1 None w2" "mcols f = mcols input"
    using fft_step[OF law v1(2)] v1(1) by auto
  obtain g w3 where g: "fftShift cv f f w2 = Inr (g, w3)" "value_of w3 g = half_turn x" "fft_ready cv w3 g" "keeps w2 None w3"
    "mcols g = mcols input" using turn_step[OF law f(4)] f(3,6) by metis
  note k3 = keepsD[OF keeps_trans[OF f(5) g(4)] storedD(2)[OF k(2)]]
  have "ncols g = ncols input" using g(5) by (simp add: ncols_def)
  then have kv: "value_of w3 k = cimage (ncols g) (ncols g) ?K"
    using k3(2) storedD(1)[OF k(2)] hdr_ok_buf[OF storedD(2)[OF k(2)]] d(6) by simp
  obtain h w4 where h: "complexMultiply cv g k mat_default w3 = Inr (h, w4)" "value_of w4 h = times (half_turn x) ?K"
    "fft_ready cv w4 h" "keeps w3 None w4" using times_step[OF law g(3) k3(1) kv] g(2) by metis
  obtain s w5 where s: "fftShift cv h h w4 = Inr (s, w5)" "value_of w5 s = half_turn (times (half_turn x) ?K)"
    "fft_ready cv w5 s" "keeps w4 None w5" using turn_step[OF law h(3)] h(2) by metis
  have kw5: "keeps w None w5" using kw1 f(5) g(4) h(4) s(4) by (meson keeps_trans)
  note ds = fft_readyD[OF s(3)]
  obtain y o_i w6 where y: "lib_dft cv (value_of w5 s) (DFT_INVERSE OR DFT_COMPLEX_OUTPUT OR DFT_SCALE) = Inr y"
    "ifft2 cv s output w5 = Inr (o_i, w6)" "stored w5 output y o_i w6"
    using ifft2_value[OF l(3) ds(2,3,7,8) out_ok_keeps[OF out kw5]] ds(9) by auto
  have "fresnelProp cv lm input output zDist lambda ps_eff w = Inr (o_i, w6)"
    using k0(1) k(1) f(2) g(1) h(1) s(1) y(2) by (simp add: fresnelProp_def)
  then show ?thesis using f(1) y(1) s(2) stored_after[OF kw5 y(3)] by auto
qed

text \<open>
  With a kernel of ones (a distance of zero) the field that is transformed back is the transform
  turned by one pixel when the size is odd: the second exchange of quadrants is not the inverse of
  the first one.
\<close>

definition finite_img :: "img \<Rightarrow> bool" where
  "finite_img v \<longleftrightarrow> (\<forall>i < irows v. \<forall>k < irowlen v. \<exists>a. img_at v i k = Fin a \<and> representable binary64 a)"

lemma shift_img_finite:
  assumes "finite_img v"
  shows "finite_img (shift_img x y v)"
  unfolding finite_img_def
proof (intro allI impI)
  fix i k assume "i < irows (shift_img x y v)" "k < irowlen (shift_img x y v)"
  then have "i < irows v" "k < irowlen v" by simp_all
  then show "\<exists>a. img_at (shift_img x y v) i k = Fin a \<and> representable binary64 a"
    using assms by (simp add: finite_img_def shift_img_at torus_less torus_elem)
qed

lemma cmul_one: "representable binary64 a \<Longrightarrow> representable binary64 b \<Longrightarrow> cmul (Fin a, Fin b) (Fin 1, Fin 0) = (Fin a, Fin b)"
  by (simp add: cmul_def dbl.rnd_0 representable_def)

lemma times_one:
  assumes "img_ok v" and "itype v = CV_64FC2" and f: "finite_img v" and k: "\<And>i j. k i j = (Fin 1, Fin 0)"
  shows "times v k = v"
proof -
  have rl: "irowlen v = 2 * icols v" using assms(2) by (simp add: irowlen_def icn_def)
  have "cmul (cpix v i j) (k i j) = cpix v i j" if "i < irows v" "j < icols v" for i j
  proof -
    have l: "2 * j < irowlen v" "2 * j + 1 < irowlen v" using that(2) rl by simp_all
    have fin: "\<exists>a. img_at v i k = Fin a \<and> representable binary64 a" if "k < irowlen v" for k
      using f \<open>i < irows v\<close> that by (simp add: finite_img_def)
    obtain a where "img_at v i (2 * j) = Fin a" "representable binary64 a" using fin[OF l(1)] by blast
    moreover obtain b where "img_at v i (2 * j + 1) = Fin b" "representable binary64 b" using fin[OF l(2)] by blast
    ultimately show ?thesis using cmul_one by (simp add: cpix_def k)
  qed
  then have "times v k = cimage (irows v) (icols v) (cpix v)" unfolding times_def by (rule cimage_cong)
  then show ?thesis using cimage_cpix[OF assms(1,2)] by simp
qed

lemma half_turn_twice:
  assumes "img_ok v" and "icols v = irows v"
  shows "half_turn (half_turn v) = shift_img (int (icols v) mod 2) (int (icols v) mod 2) v"
proof -
  let ?n = "int (icols v)"
  have h: "2 * ((int (irows v) + 1) div 2) = int (irows v) mod 2 + int (irows v)" by presburger
  have "half_turn (half_turn v) = shift_img (?n mod 2 + ?n) (?n mod 2 + ?n) v"
    using assms(2) by (simp add: half_turn_def shift_img_add h)
  also have "\<dots> = shift_img (?n mod 2) (?n mod 2) v"
    using rot.act_mod[OF assms(1), of "?n mod 2 + ?n" "?n mod 2 + ?n"] rot.act_mod[OF assms(1), of "?n mod 2" "?n mod 2"] assms(2)
    by (simp add: mod_simps)
  finally show ?thesis .
qed

theorem fresnelProp_unit_kernel:
  assumes law: "fresnel_lib cv" and m: "fft_ready cv w input" and out: "out_ok w output"
    and one: "\<And>i j. prop_kernel lm input zDist lambda ps_eff i j = (Fin 1, Fin 0)"
    and fin: "\<And>x. lib_dft cv (value_of w input) DFT_COMPLEX_OUTPUT = Inr x \<Longrightarrow> finite_img x"
  shows "\<exists>x y o_i w'. lib_dft cv (value_of w input) DFT_COMPLEX_OUTPUT = Inr x
    \<and> lib_dft cv (shift_img (mcols input mod 2) (mcols input mod 2) x) (DFT_INVERSE OR DFT_COMPLEX_OUTPUT OR DFT_SCALE) = Inr y
    \<and> fresnelProp cv lm input output zDist lambda ps_eff w = Inr (o_i, w') \<and> value_of w' o_i = y"
proof -
  note d = fft_readyD[OF m]
  obtain x y o_i w' where x: "lib_dft cv (value_of w input) DFT_COMPLEX_OUTPUT = Inr x"
    and y: "lib_dft cv (half_turn (times (half_turn x) (prop_kernel lm input zDist lambda ps_eff)))
        (DFT_INVERSE OR DFT_COMPLEX_OUTPUT OR DFT_SCALE) = Inr y"
    and o: "fresnelProp cv lm input output zDist lambda ps_eff w = Inr (o_i, w')" "stored w output y o_i w'"
    using fresnelProp_value[OF law m out] by blast
  have xo: "img_ok x" "itype x = CV_64FC2" "irows x = nrows input" "icols x = ncols input"
  proof -
    have "dft_law cv" "DFT_COMPLEX_OUTPUT AND 32 = 0"
      using law by (simp_all add: fresnel_lib_def fourier_lib_def DFT_COMPLEX_OUTPUT_def)
    then have "\<exists>x. lib_dft cv (value_of w input) DFT_COMPLEX_OUTPUT = Inr x \<and> img_ok x \<and> itype x = CV_64FC2
        \<and> irows x = irows (value_of w input) \<and> icols x = icols (value_of w input)"
      using spec[OF iffD1[OF dft_law_def], of cv "value_of w input"] d(2,3) value_of_ok[of w input]
      by (simp add: has_pixels_def)
    then show "img_ok x" "itype x = CV_64FC2" "irows x = nrows input" "icols x = ncols input" using x by auto
  qed
  have "img_ok (half_turn x)" "itype (half_turn x) = CV_64FC2" "finite_img (half_turn x)"
    using xo fin[OF x] by (simp_all add: half_turn_def shift_img_finite)
  from times_one[OF this one] have "half_turn (times (half_turn x) (prop_kernel lm input zDist lambda ps_eff))
      = shift_img (mcols input mod 2) (mcols input mod 2) x"
    using half_turn_twice[OF xo(1)] xo(3,4) d(6) hdr_ok_sizes[OF d(1)] by simp
  then show ?thesis using x y o storedD(1)[OF o(2)] by auto
qed

end
