(* ===== verification/QDpc.thy ===== *)
theory QDpc
  imports Fresnel
begin

text \<open>
  Differential phase contrast, jni-native/jni/jni_qDPC.cpp: the refocused images of a stack
  (\<open>computeFocusDPC\<close>), the normalised difference of two images (\<open>calcDPC\<close>), the regularised inversion
  of two such differences (\<open>qDPC_loop\<close>) and their composition \<open>qDPC\<close>.
\<close>

subsection \<open>The LED tables\<close>

definition leftList :: "int list" where
  "leftList = [159,160,180,181,182,201,202,203,223,224,225,226,246,247,248,249,270,271,272,292,293,294,295,315,316,317,338,339,340,361]"

definition rightList :: "int list" where
  "rightList = [161,162,183,184,204,205,206,227,228,229,250,251,252,253,273,274,275,276,296,297,298,299,318,319,320,321,341,342,343,362]"

definition topList :: "int list" where
  "topList = [270,271,272,273,274,275,276,292,293,294,295,296,297,298,299,315,316,317,318,319,320,321,338,339,340,341,342,343,361,362]"

definition bottomList :: "int list" where
  "bottomList = [159,160,161,162,180,181,182,183,184,201,202,203,204,205,206,223,224,225,226,227,228,229,246,247,248,249,250,251,252,253]"

text \<open>Each pair of tables splits the same sixty LEDs in two halves.\<close>

lemma led_tables:
  shows "set leftList \<inter> set rightList = {}" and "set topList \<inter> set bottomList = {}"
    and "set leftList \<union> set rightList = set topList \<union> set bottomList"
    and "card (set leftList \<union> set rightList) = 60"
  by (simp_all add: leftList_def rightList_def topList_def bottomList_def insert_commute)

subsection \<open>The code\<close>

definition CV_8UC1 :: int where "CV_8UC1 = CV_MAKETYPE CV_8U 1"
definition CV_8UC3 :: int where "CV_8UC3 = CV_MAKETYPE CV_8U 3"
definition CV_8UC4 :: int where "CV_8UC4 = CV_MAKETYPE CV_8U 4"
definition CV_16UC3 :: int where "CV_16UC3 = CV_MAKETYPE CV_16U 3"
definition CV_16SC1 :: int where "CV_16SC1 = CV_MAKETYPE CV_16S 1"
definition CV_32FC1 :: int where "CV_32FC1 = CV_MAKETYPE CV_32F 1"

record r_image =
  Image :: mat
  led_num :: int
  tan_x :: fp
  tan_y :: fp

text \<open>\<open>round\<close>: to the nearest integer, halves away from zero.\<close>

fun fround :: "fp \<Rightarrow> fp" where
  "fround (Fin x) = Fin (if 0 \<le> x then of_int \<lfloor>x + 1 / 2\<rfloor> else of_int \<lceil>x - 1 / 2\<rceil>)"
| "fround y = y"

definition shift_of :: "fp \<Rightarrow> fp \<Rightarrow> err + int" where
  "shift_of z t = (case f2i (fround (fmul binary32 z t)) of None \<Rightarrow> Inl BadCast | Some n \<Rightarrow> Inr n)"

text \<open>\<open>cv::Mat(rows, cols, type, s)\<close>: \<open>create\<close>, then all elements set.\<close>

definition new_filled :: "opencv \<Rightarrow> int \<Rightarrow> int \<Rightarrow> int \<Rightarrow> fp \<Rightarrow> mat cvact" where
  "new_filled cv r c t s = bindA (alloc r c t) (\<lambda>m. bindA (fetch m) (\<lambda>v.
     bindA (liftA (lib_setTo cv v s)) (\<lambda>x. thenA (put_fixed m x) (retA m))))"

text \<open>\<open>split(m, vector)\<close>: the vector gets as many elements as \<open>m\<close> has channels.\<close>

definition split_vec :: "opencv \<Rightarrow> mat \<Rightarrow> mat list \<Rightarrow> mat list cvact" where
  "split_vec cv m planes = bindA (fetch m) (\<lambda>v. bindA (liftA (lib_split cv v)) (\<lambda>vs.
     put_outs (take (length vs) (planes @ replicate (length vs) mat_default)) vs))"

text \<open>\<open>v.at(k)\<close> of a vector raises out of range; \<open>v[k]\<close> reads past its end.\<close>

definition nth_at :: "'a list \<Rightarrow> nat \<Rightarrow> 'a cvact" where
  "nth_at xs k = (if k < length xs then retA (xs ! k) else failA OutOfBounds)"

record focus =
  bf_result :: mat
  dpc_lr :: mat
  dpc_tb :: mat
  planes_of :: "mat list"

definition focus_step :: "opencv \<Rightarrow> r_image list \<Rightarrow> fp \<Rightarrow> mat \<Rightarrow> nat \<Rightarrow> focus \<Rightarrow> focus cvact" where
  "focus_step cv iStack z shifted idx s =
     bindA (nth_at iStack idx) (\<lambda>e.
     bindA (liftA (shift_of z (tan_x e))) (\<lambda>xShift.
     bindA (liftA (shift_of z (tan_y e))) (\<lambda>yShift.
     thenA (circularShift cv (Image e) shifted yShift xShift)
    (bindA (call2 (lib_add cv) (bf_result s) shifted (bf_result s)) (\<lambda>bf.
     bindA (split_vec cv shifted (planes_of s)) (\<lambda>channels.
     bindA (nth_at channels 1) (\<lambda>c1.
     bindA (call1 (\<lambda>v. lib_convertTo cv v (mtype (dpc_lr s)) (Fin 1) (Fin 0)) c1 c1) (\<lambda>c1.
     bindA (call2 (if led_num e \<in> set leftList then lib_add cv else lib_subtract cv) (dpc_lr s) c1 (dpc_lr s)) (\<lambda>lr.
     bindA (call2 (if led_num e \<in> set topList then lib_add cv else lib_subtract cv) (dpc_tb s) c1 (dpc_tb s)) (\<lambda>tb.
       retA \<lparr>bf_result = bf, dpc_lr = lr, dpc_tb = tb, planes_of = channels[1 := c1]\<rparr>))))))))))"

text \<open>\<open>m.convertTo(out, rtype, 255/(max - min), - min * 255.0/(max - min))\<close>\<close>

definition stretch :: "opencv \<Rightarrow> int \<Rightarrow> fp \<times> fp \<Rightarrow> img \<Rightarrow> err + img" where
  "stretch cv t mm v = (let d = dsub (snd mm) (fst mm) in
     lib_convertTo cv v t (ddiv (Fin 255) d) (ddiv (dmul (fneg (fst mm)) (Fin 255)) d))"

definition scale_to_8 :: "opencv \<Rightarrow> mat \<Rightarrow> mat \<Rightarrow> mat \<Rightarrow> mat cvact" where
  "scale_to_8 cv range_of m out = bindA (fetch range_of) (\<lambda>r. bindA (liftA (lib_minMaxLoc cv r)) (\<lambda>mm.
     call1 (stretch cv CV_8UC4 mm) m out))"

definition computeFocusDPC :: "opencv \<Rightarrow> r_image list \<Rightarrow> int \<Rightarrow> fp \<Rightarrow> int \<Rightarrow> int \<Rightarrow> mat list cvact" where
  "computeFocusDPC cv iStack fileCount z width height =
     bindA (new_filled cv height width CV_16UC3 (Fin 0)) (\<lambda>bf.
     bindA (new_filled cv height width CV_16SC1 (Fin 0)) (\<lambda>tb.
     bindA (new_filled cv height width CV_16SC1 (Fin 0)) (\<lambda>lr.
     bindA (alloc height width CV_8UC3) (\<lambda>bf8.
     bindA (alloc height width CV_8UC1) (\<lambda>tb8.
     bindA (alloc height width CV_8UC1) (\<lambda>lr8.
     bindA (nth_at iStack 0) (\<lambda>e0.
     bindA (new_filled cv (mrows (Image e0)) (mcols (Image e0)) CV_16UC3 (Fin 0)) (\<lambda>shifted.
     bindA (fold_each (focus_step cv iStack z shifted) [0..<nat fileCount]
       \<lparr>bf_result = bf, dpc_lr = lr, dpc_tb = tb, planes_of = replicate 3 mat_default\<rparr>) (\<lambda>s.
     bindA (scale_to_8 cv (bf_result s) (bf_result s) bf8) (\<lambda>bf8.
     bindA (liftA (lib_reshape cv (dpc_lr s) 1 0)) (\<lambda>lr1.
     bindA (scale_to_8 cv lr1 (dpc_lr s) lr8) (\<lambda>lr8.
     bindA (liftA (lib_reshape cv (dpc_tb s) 1 0)) (\<lambda>tb1.
     bindA (scale_to_8 cv tb1 (dpc_tb s) tb8) (\<lambda>tb8.
       retA [bf8, lr8, tb8]))))))))))))))"

definition circPad :: int where "circPad = 100"

definition to_float :: "opencv \<Rightarrow> img \<Rightarrow> err + img" where
  "to_float cv v = lib_convertTo cv v CV_32FC1 (Fin 1) (Fin 0)"

definition calcDPC :: "opencv \<Rightarrow> mat \<Rightarrow> mat \<Rightarrow> mat cvact" where
  "calcDPC cv image1 image2 =
     bindA (call1 (to_float cv) image1 image1) (\<lambda>image1.
     bindA (call1 (to_float cv) image2 image2) (\<lambda>image2.
     bindA (call2 (lib_subtract cv) image1 image2 mat_default) (\<lambda>tmp1.
     bindA (call2 (lib_add cv) image1 image2 mat_default) (\<lambda>tmp2.
     bindA (call2 (lib_divide cv) tmp1 tmp2 mat_default) (\<lambda>output.
     bindA (new_filled cv (mrows output) (mcols output) CV_32FC1 (Fin 0)) (\<lambda>circMask.
     bindA (call1 (\<lambda>v. lib_circle cv v (c_div (mrows output) 2, c_div (mcols output) 2)
       (c_div (mrows output) 2 - circPad) (Fin 1)) circMask circMask) (\<lambda>circMask.
     bindA (call2 (lib_multiply cv) output circMask output) (\<lambda>output.
     bindA (fetch output) (\<lambda>v. bindA (liftA (lib_minMaxLoc cv v)) (\<lambda>mm.
       call1 (stretch cv CV_8UC1 mm) output output))))))))))"

text \<open>\<open>Mat_<double>(m)\<close> (mat.inl.hpp): the same header, a reshaped one, or a converted image.\<close>

definition to_double :: "opencv \<Rightarrow> mat \<Rightarrow> mat cvact" where
  "to_double cv m = (if mtype m = CV_64FC1 then retA m
     else if depth m = CV_64F then liftA (lib_reshape cv m 1 0)
     else call1 (\<lambda>v. lib_convertTo cv v CV_64FC1 (Fin 1) (Fin 0)) m mat_default)"

record qprep =
  padded_m :: mat
  dpcComplex :: mat
  complexPlanes :: "mat list"
  dpcFtReal :: "mat list"
  dpcFtImag :: "mat list"

text \<open>\<open>cout << image.at<double>(500,500)\<close>\<close>

definition print_at :: "mat \<Rightarrow> unit cvact" where
  "print_at m = bindA (load m 500 500) (\<lambda>x. tell (Value x))"

definition prep_images :: "opencv \<Rightarrow> mat list \<Rightarrow> mat list \<Rightarrow> int \<Rightarrow> int \<Rightarrow> nat \<Rightarrow> qprep \<Rightarrow> qprep cvact" where
  "prep_images cv dpcList tfList m n idx s =
     bindA (nth_at tfList idx) (\<lambda>t.
     bindA (call1 (\<lambda>v. lib_copyMakeBorder cv v 0 (m - mrows t) 0 (n - mcols t) (Fin 0)) t (padded_m s)) (\<lambda>p.
     bindA (nth_at dpcList idx) (\<lambda>d.
     bindA (call1 (\<lambda>v. lib_copyMakeBorder cv v 0 (m - mrows d) 0 (n - mcols d) (Fin 0)) d p) (\<lambda>p.
     bindA (to_double cv d) (\<lambda>plane0.
     bindA (zeros_mat cv (mrows d) (mcols d) CV_64F) (\<lambda>plane1.
     bindA (merge_into cv [plane0, plane1] (dpcComplex s)) (\<lambda>c.
     bindA (call1 (\<lambda>v. lib_dft cv v 0) c c) (\<lambda>c.
     bindA (split_vec cv c (complexPlanes s)) (\<lambda>ps.
     bindA (nth_at ps 0) (\<lambda>re. bindA (nth_at (dpcFtReal s) idx) (\<lambda>r.
     bindA (call1 (lib_copyTo cv) re r) (\<lambda>r.
     bindA (nth_at ps 1) (\<lambda>im. bindA (nth_at (dpcFtImag s) idx) (\<lambda>i.
     bindA (call1 (lib_copyTo cv) im i) (\<lambda>i.
       retA \<lparr>padded_m = p, dpcComplex = c, complexPlanes = ps,
         dpcFtReal = (dpcFtReal s)[idx := r], dpcFtImag = (dpcFtImag s)[idx := i]\<rparr>)))))))))))))))"

definition prep_step :: "opencv \<Rightarrow> mat list \<Rightarrow> mat list \<Rightarrow> int \<Rightarrow> int \<Rightarrow> nat \<Rightarrow> qprep \<Rightarrow> qprep cvact" where
  "prep_step cv dpcList tfList m n idx s = bindA (prep_images cv dpcList tfList m n idx s) (\<lambda>s.
     bindA (nth_at (dpcFtImag s) idx) (\<lambda>i. thenA (print_at i) (retA s)))"

text \<open>One pixel of the inversion: \<open>(I_sum * Hi_sum) / (abs(H_sum) * abs(H_sum) + reg)\<close>.\<close>

definition qdpc_pixel :: "libm \<Rightarrow> fp \<Rightarrow> fp \<Rightarrow> fp \<Rightarrow> cdouble \<Rightarrow> cdouble \<Rightarrow> cdouble" where
  "qdpc_pixel lm reg t1 t2 p1 p2 = (let
     H_sum = cx_add (cx_add (Fin 0, Fin 0) (Fin 0, t1)) (Fin 0, t2);
     Hi_sum = cx_add (cx_add (Fin 0, Fin 0) (Fin 0, dmul (Fin (- 1)) t1)) (Fin 0, dmul (Fin (- 1)) t2);
     I_sum = cx_add (cx_add (Fin 0, Fin 0) p1) p2 in
     cx_over (cx_mul I_sum Hi_sum) (dadd (dmul (m_cabs lm H_sum) (m_cabs lm H_sum)) reg))"

definition qdpc_body :: "libm \<Rightarrow> fp \<Rightarrow> mat \<Rightarrow> mat \<Rightarrow> mat \<Rightarrow> mat \<Rightarrow> mat \<Rightarrow> mat \<Rightarrow> mat \<Rightarrow> mat \<Rightarrow> nat \<Rightarrow> nat \<Rightarrow> unit cvact" where
  "qdpc_body lm reg tf1 tf2 r1 i1 r2 i2 ph_real ph_imag i j =
     bindA (load tf1 i j) (\<lambda>t1. bindA (load r1 i j) (\<lambda>a1. bindA (load i1 i j) (\<lambda>b1.
     bindA (load tf2 i j) (\<lambda>t2. bindA (load r2 i j) (\<lambda>a2. bindA (load i2 i j) (\<lambda>b2.
       let result = qdpc_pixel lm reg t1 t2 (a1, b1) (a2, b2) in
       thenA (store ph_real i j (fst result)) (store ph_imag i j (snd result))))))))"

definition qDPC_loop :: "opencv \<Rightarrow> libm \<Rightarrow> mat list \<Rightarrow> mat list \<Rightarrow> fp \<Rightarrow> mat cvact" where
  "qDPC_loop cv lm dpcList tfList reg =
     bindA (nth_at dpcList 0) (\<lambda>d0.
     bindA (zeros_mat cv (mrows d0) (mcols d0) CV_64F) (\<lambda>ph_real.
     bindA (zeros_mat cv (mrows d0) (mcols d0) CV_64F) (\<lambda>ph_imag.
     bindA (fold_each (prep_step cv dpcList tfList (lib_optDFTSize cv (mrows d0)) (lib_optDFTSize cv (mcols d0))) [0, 1]
       \<lparr>padded_m = mat_default, dpcComplex = mat_default, complexPlanes = [],
         dpcFtReal = replicate (length dpcList) mat_default, dpcFtImag = replicate (length dpcList) mat_default\<rparr>) (\<lambda>s.
     thenA (tell (Said ''After assignment:''))
    (bindA (nth_at (dpcFtImag s) 0) (\<lambda>i1. bindA (nth_at (dpcFtImag s) 1) (\<lambda>i2.
     thenA (print_at i1) (thenA (print_at i2)
    (bindA (nth_at tfList 0) (\<lambda>tf1. bindA (nth_at tfList 1) (\<lambda>tf2.
     bindA (nth_at (dpcFtReal s) 0) (\<lambda>r1. bindA (nth_at (dpcFtReal s) 1) (\<lambda>r2.
     thenA (for_each [0..<ncols (dpcComplex s)] (\<lambda>i. for_each [0..<nrows (dpcComplex s)]
         (qdpc_body lm reg tf1 tf2 r1 i1 r2 i2 ph_real ph_imag i)))
    (bindA (merge_into cv [ph_real, ph_imag] mat_default) (\<lambda>ph_complex_ft.
     bindA (call1 (\<lambda>v. lib_dft cv v DFT_INVERSE) ph_complex_ft mat_default) (\<lambda>ph_complex.
     bindA (split_vec cv ph_complex (complexPlanes s)) (\<lambda>ps.
       nth_at ps 0)))))))))))))))))"

definition COLORMAP_COOL :: int where "COLORMAP_COOL = 8"

definition qDPC :: "opencv \<Rightarrow> libm \<Rightarrow> mat \<Rightarrow> mat \<Rightarrow> mat \<Rightarrow> mat \<Rightarrow> mat \<Rightarrow> mat \<Rightarrow> mat cvact" where
  "qDPC cv lm dpc11 dpc12 dpc21 dpc22 trans1 trans2 =
     bindA (call1 (\<lambda>v. lib_convertTo cv v CV_64FC1 (Fin 1) (Fin 0)) trans1 trans1) (\<lambda>trans1.
     bindA (call1 (\<lambda>v. lib_convertTo cv v CV_64FC1 (Fin 1) (Fin 0)) trans2 trans2) (\<lambda>trans2.
     bindA (call1 (\<lambda>v. lib_normalize cv v (Fin (- 1)) (Fin 1)) trans1 trans1) (\<lambda>trans1.
     bindA (call1 (\<lambda>v. lib_normalize cv v (Fin (- 1)) (Fin 1)) trans2 trans2) (\<lambda>trans2.
     bindA (calcDPC cv dpc11 dpc12) (\<lambda>dpc1.
     bindA (calcDPC cv dpc21 dpc22) (\<lambda>dpc2.
     bindA (qDPC_loop cv lm [dpc1, dpc2] [trans1, trans2] (Fin 1)) (\<lambda>ph_dpc.
     bindA (call1 (\<lambda>v. lib_normalize cv v (rnd binary64 (- 3 / 10)) (rnd binary64 (14 / 10))) ph_dpc ph_dpc) (\<lambda>ph_dpc.
     thenA (call1 (\<lambda>v. lib_applyColorMap cv v COLORMAP_COOL) ph_dpc mat_default)
       (call1 (\<lambda>v. lib_normalize cv v (Fin 0) (Fin 255)) ph_dpc ph_dpc)))))))))"

subsection \<open>\<open>calcDPC\<close> computes the normalised difference\<close>

text \<open>
  The same computation on values: the difference of the images, as floats, divided by their sum inside a disc around the centre;
  then the straight line that takes the smallest value to 0 and the largest to 255.
\<close>

definition dpc_quotient :: "opencv \<Rightarrow> img \<Rightarrow> img \<Rightarrow> err + img" where
  "dpc_quotient cv image1 image2 =
     bindE (lib_convertTo cv image1 CV_32FC1 (Fin 1) (Fin 0)) (\<lambda>a. bindE (lib_convertTo cv image2 CV_32FC1 (Fin 1) (Fin 0)) (\<lambda>b.
     bindE (lib_subtract cv a b) (\<lambda>difference. bindE (lib_add cv a b) (\<lambda>sum.
     bindE (lib_divide cv difference sum) (\<lambda>q.
     bindE (lib_circle cv (const_img CV_32FC1 (irows q) (icols q) (Fin 0)) (int (irows q) div 2, int (icols q) div 2)
       (int (irows q) div 2 - 100) (Fin 1)) (\<lambda>mask.
     lib_multiply cv q mask))))))"

definition calcDPC_spec :: "opencv \<Rightarrow> img \<Rightarrow> img \<Rightarrow> err + img" where
  "calcDPC_spec cv image1 image2 = bindE (dpc_quotient cv image1 image2) (\<lambda>p. bindE (lib_minMaxLoc cv p) (\<lambda>(lo, hi).
     lib_convertTo cv p CV_8UC1 (ddiv (Fin 255) (dsub hi lo)) (ddiv (dmul (fneg lo) (Fin 255)) (dsub hi lo))))"

text \<open>The line \<open>a * x + b\<close> takes \<open>lo\<close> to 0 and \<open>hi\<close> to 255, up to four rounding errors.\<close>

definition maps_range :: "rat \<Rightarrow> rat \<Rightarrow> rat \<Rightarrow> rat \<Rightarrow> bool" where
  "maps_range lo hi a b \<longleftrightarrow> \<bar>a * (hi - lo) - 255\<bar> \<le> 255 / 2 ^ 51 \<and> \<bar>a * lo + b\<bar> \<le> \<bar>a * lo\<bar> / 2 ^ 51"

lemma floats_apart:
  assumes "representable binary32 lo" "representable binary32 hi" "lo \<noteq> hi"
  shows "pow2 (- 149) \<le> \<bar>hi - lo\<bar>" and "\<bar>hi - lo\<bar> < pow2 129"
proof -
  obtain m q where m: "lo = of_int m * pow2 q" "- 149 \<le> q" "\<bar>lo\<bar> < pow2 128"
    by (rule sgl.representable_form[OF assms(1)]) simp
  obtain n s where n: "hi = of_int n * pow2 s" "- 149 \<le> s" "\<bar>hi\<bar> < pow2 128"
    by (rule sgl.representable_form[OF assms(2)]) simp
  have g: "of_int k * pow2 t = of_int (k * 2 ^ nat (t + 149)) * pow2 (- 149)" if "- 149 \<le> t" for k t
    using that pow2_nat[of "t + 149"] pow2_add[of "t + 149" "- 149"] by simp
  define d where "d = n * 2 ^ nat (s + 149) - m * 2 ^ nat (q + 149)"
  have d: "hi - lo = of_int d * pow2 (- 149)" unfolding m(1) n(1) g[OF m(2)] g[OF n(2)] d_def by (simp add: left_diff_distrib)
  then have "d \<noteq> 0" using assms(3) by auto
  then have "1 \<le> \<bar>d\<bar>" by simp
  then have "(1 :: rat) \<le> of_int \<bar>d\<bar>" by (simp only: of_int_le_iff[of 1, simplified])
  then have "1 * pow2 (- 149) \<le> of_int \<bar>d\<bar> * pow2 (- 149)" by (intro mult_right_mono) simp_all
  then show "pow2 (- 149) \<le> \<bar>hi - lo\<bar>" using d by (simp add: abs_mult)
  show "\<bar>hi - lo\<bar> < pow2 129" using m(3) n(3) pow2_Suc[of 128] by simp
qed

lemma rnd_double:
  assumes "x = 0 \<or> pow2 (- 1022) \<le> \<bar>x\<bar>" and "\<bar>x\<bar> < pow2 1023"
  obtains y where "rnd binary64 x = Fin y" and "\<bar>y - x\<bar> \<le> \<bar>x\<bar> * (1 / 2 ^ 53)" and "\<bar>x\<bar> / 2 \<le> \<bar>y\<bar>" and "\<bar>y\<bar> \<le> 2 * \<bar>x\<bar>"
proof -
  have e: "pow2 (- int (prec binary64)) = 1 / 2 ^ 53" by (simp add: pow2_minus pow2_nat)
  obtain y where y: "rnd binary64 x = Fin y" "\<bar>y - x\<bar> \<le> \<bar>x\<bar> * (1 / 2 ^ 53)"
    using dbl.rnd_relative[of x, unfolded e] assms by (metis binary64_sel(2,3))
  then have "\<bar>y - x\<bar> \<le> \<bar>x\<bar> / 2" by simp
  then have "\<bar>x\<bar> / 2 \<le> \<bar>y\<bar>" "\<bar>y\<bar> \<le> 2 * \<bar>x\<bar>" by linarith+
  then show ?thesis using that y by blast
qed

lemma quotient_range:
  assumes "pow2 k \<le> \<bar>x\<bar>" "\<bar>x\<bar> \<le> pow2 l" and "pow2 m \<le> \<bar>y\<bar>" "\<bar>y\<bar> \<le> pow2 n"
  shows "pow2 (k - n) \<le> \<bar>x / y\<bar>" and "\<bar>x / y\<bar> \<le> pow2 (l - m)"
proof -
  have y: "0 < \<bar>y\<bar>" using assms(3) pow2_pos[of m] by linarith
  show "pow2 (k - n) \<le> \<bar>x / y\<bar>" unfolding pow2_diff abs_divide using assms y by (intro frac_le) simp_all
  show "\<bar>x / y\<bar> \<le> pow2 (l - m)" unfolding pow2_diff abs_divide using assms by (intro frac_le) simp_all
qed

lemma float_range:
  assumes "representable binary32 x" and "x \<noteq> 0"
  shows "pow2 (- 149) \<le> \<bar>x\<bar>" and "\<bar>x\<bar> < pow2 128"
proof -
  have "representable binary32 0" by (simp add: representable_def rnd_def)
  then show "pow2 (- 149) \<le> \<bar>x\<bar>" using floats_apart(1)[of 0 x] assms by simp
  obtain m q where "\<bar>x\<bar> < pow2 128" by (rule sgl.representable_form[OF assms(1)]) simp
  then show "\<bar>x\<bar> < pow2 128" .
qed

lemma scaled_err: "\<bar>x - y\<bar> \<le> e \<Longrightarrow> \<bar>x * t - y * t\<bar> \<le> e * \<bar>t\<bar>" for x y e t :: rat
  unfolding left_diff_distrib[symmetric] abs_mult by (rule mult_right_mono) simp_all

lemma four_roundings:
  fixes E :: rat
  defines "E \<equiv> 1 / 2 ^ 53"
  assumes lt: "lo < hi" and dpos: "0 < d" and d: "\<bar>d - (hi - lo)\<bar> \<le> \<bar>hi - lo\<bar> * E" and a: "\<bar>a - 255 / d\<bar> \<le> \<bar>255 / d\<bar> * E"
    and c: "\<bar>c - (- lo * 255)\<bar> \<le> \<bar>- lo * 255\<bar> * E" and b: "\<bar>b - c / d\<bar> \<le> \<bar>c / d\<bar> * E"
  shows "maps_range lo hi a b"
proof -
  have E: "0 < E" "E \<le> 1 / 8" by (simp_all add: E_def)
  define h u L where "h = hi - lo" "u = (hi - lo) / d" "L = 255 / d * lo"
  note defs = this
  have h: "0 < h" and u0: "0 < u" using lt dpos by (simp_all add: defs)
  have "\<bar>1 - u\<bar> \<le> u * E" using scaled_err[OF d, of "1 / d"] dpos lt by (simp add: defs)
  moreover have "u * E \<le> u * (1 / 8)" using E u0 by (intro mult_left_mono) simp_all
  ultimately have u: "255 * u - 255 \<le> 255 * (u * E)" "255 - 255 * u \<le> 255 * (u * E)" "u \<le> 2" by (simp_all add: abs_le_iff)
  have "\<bar>a * h - 255 * u\<bar> \<le> 255 * (u * E)" using scaled_err[OF a, of h] dpos h by (simp add: defs ac_simps)
  moreover have "u * E \<le> 2 * E" using u(3) E by (intro mult_right_mono) simp_all
  ultimately have 1: "\<bar>a * h - 255\<bar> \<le> 255 * (4 * E)" using u(1,2) unfolding abs_le_iff by linarith
  have l: "\<bar>a * lo - L\<bar> \<le> \<bar>L\<bar> * E" using scaled_err[OF a, of lo] by (simp add: defs abs_mult ac_simps)
  have c: "\<bar>c / d + L\<bar> \<le> \<bar>L\<bar> * E" using scaled_err[OF c, of "1 / d"] by (simp add: defs abs_mult ac_simps)
  have le: "\<bar>L\<bar> * E \<le> \<bar>L\<bar> * (1 / 8)" using E by (intro mult_left_mono) simp_all
  have "\<bar>c / d\<bar> \<le> \<bar>L\<bar> * (9 / 8)" using c le abs_triangle_ineq4[of "c / d + L" L] unfolding add_diff_cancel_right' by linarith
  then have "\<bar>c / d\<bar> * E \<le> \<bar>L\<bar> * (9 / 8) * E" using E by (intro mult_right_mono) simp_all
  then have "\<bar>a * lo + b\<bar> \<le> \<bar>L\<bar> * E * (25 / 8)" using l c b unfolding abs_le_iff by linarith
  moreover have "\<bar>L\<bar> * (7 / 8) \<le> \<bar>a * lo\<bar>" using l le abs_triangle_ineq2_sym[of "a * lo" L] by linarith
  then have "\<bar>L\<bar> * (7 / 8) * (4 * E) \<le> \<bar>a * lo\<bar> * (4 * E)" using E by (intro mult_right_mono) simp_all
  moreover have "\<bar>L\<bar> * E * (25 / 8) \<le> \<bar>L\<bar> * (7 / 8) * (4 * E)" using E by simp
  ultimately have 2: "\<bar>a * lo + b\<bar> \<le> \<bar>a * lo\<bar> * (4 * E)" by linarith
  from 1 2 show ?thesis by (simp add: maps_range_def E_def defs)
qed

lemma range_line:
  assumes r: "representable binary32 lo" "representable binary32 hi" and lt: "lo < hi"
  obtains a b where "ddiv (Fin 255) (dsub (Fin hi) (Fin lo)) = Fin a"
    and "ddiv (dmul (fneg (Fin lo)) (Fin 255)) (dsub (Fin hi) (Fin lo)) = Fin b" and "maps_range lo hi a b"
proof -
  let ?E = "1 / 2 ^ 53 :: rat"
  have ap: "pow2 (- 149) \<le> \<bar>hi - lo\<bar>" "\<bar>hi - lo\<bar> < pow2 129" using floats_apart[OF r] lt by simp_all
  have dr: "pow2 (- 1022) \<le> \<bar>hi - lo\<bar>" "\<bar>hi - lo\<bar> < pow2 1023"
    using ap pow2_mono[of "- 1022" "- 149"] pow2_mono[of 129 1023] by linarith+
  obtain d where d: "rnd binary64 (hi - lo) = Fin d" "\<bar>d - (hi - lo)\<bar> \<le> \<bar>hi - lo\<bar> * ?E" "\<bar>hi - lo\<bar> / 2 \<le> \<bar>d\<bar>" "\<bar>d\<bar> \<le> 2 * \<bar>hi - lo\<bar>"
    by (rule rnd_double[of "hi - lo"]) (use dr in blast)+
  have "\<bar>d - (hi - lo)\<bar> \<le> (hi - lo) / 2" using d(2) lt by simp
  then have "- (d - (hi - lo)) \<le> (hi - lo) / 2" by (rule abs_le_D2)
  then have dpos: "0 < d" using lt by (simp add: field_simps)
  have db: "pow2 (- 150) \<le> \<bar>d\<bar>" "\<bar>d\<bar> \<le> pow2 130" using ap d(3,4) pow2_Suc[of "- 150"] pow2_Suc[of 129] by simp_all
  have "pow2 0 \<le> \<bar>255 :: rat\<bar>" "\<bar>255 :: rat\<bar> \<le> pow2 8" by (simp_all add: pow2_nat)
  note q = quotient_range[OF this db]
  have "pow2 (- 1022) \<le> \<bar>255 / d\<bar>" "\<bar>255 / d\<bar> < pow2 1023"
    using q pow2_mono[of "- 1022" "0 - 130"] pow2_strict[of "8 - - 150" 1023] by linarith+
  then obtain a where a: "rnd binary64 (255 / d) = Fin a" "\<bar>a - 255 / d\<bar> \<le> \<bar>255 / d\<bar> * ?E"
    by (metis rnd_double)
  obtain c where c: "rnd binary64 (- lo * 255) = Fin c" "\<bar>c - (- lo * 255)\<bar> \<le> \<bar>- lo * 255\<bar> * ?E"
    "c = 0 \<or> pow2 (- 150) \<le> \<bar>c\<bar> \<and> \<bar>c\<bar> \<le> pow2 137"
  proof (cases "lo = 0")
    case True
    then show ?thesis using that[of 0] by (simp add: rnd_def)
  next
    case False
    have "pow2 (- 149) \<le> \<bar>lo\<bar>" "\<bar>lo\<bar> < pow2 128" by (rule float_range[OF r(1) False])+
    then have l: "pow2 (- 149) \<le> \<bar>- lo * 255\<bar>" "\<bar>- lo * 255\<bar> \<le> pow2 136" using pow2_add[of 128 8] by (simp_all add: abs_mult pow2_nat)
    then have "pow2 (- 1022) \<le> \<bar>- lo * 255\<bar>" "\<bar>- lo * 255\<bar> < pow2 1023"
      using pow2_mono[of "- 1022" "- 149"] pow2_strict[of 136 1023] by linarith+
    then obtain c where c: "rnd binary64 (- lo * 255) = Fin c" "\<bar>c - (- lo * 255)\<bar> \<le> \<bar>- lo * 255\<bar> * ?E" "\<bar>- lo * 255\<bar> / 2 \<le> \<bar>c\<bar>" "\<bar>c\<bar> \<le> 2 * \<bar>- lo * 255\<bar>"
      by (metis rnd_double)
    have "pow2 (- 149) = 2 * pow2 (- 150)" "pow2 137 = 2 * pow2 136" using pow2_Suc[of "- 150"] pow2_Suc[of 136] by simp_all
    then have "pow2 (- 150) \<le> \<bar>c\<bar> \<and> \<bar>c\<bar> \<le> pow2 137" using c(3,4) l by linarith
    then show ?thesis using that[OF c(1,2)] by blast
  qed
  obtain b where b: "rnd binary64 (c / d) = Fin b" "\<bar>b - c / d\<bar> \<le> \<bar>c / d\<bar> * ?E"
  proof (cases "c = 0")
    case True
    then show ?thesis using that[of 0] by (simp add: rnd_def)
  next
    case False
    then have "pow2 (- 150) \<le> \<bar>c\<bar>" "\<bar>c\<bar> \<le> pow2 137" using c(3) by simp_all
    note q = quotient_range[OF this db]
    have "pow2 (- 1022) \<le> \<bar>c / d\<bar>" "\<bar>c / d\<bar> < pow2 1023"
      using q pow2_mono[of "- 1022" "- 150 - 130"] pow2_strict[of "137 - - 150" 1023] by linarith+
    then show ?thesis using that by (metis rnd_double)
  qed
  have "maps_range lo hi a b" by (rule four_roundings[OF lt dpos d(2) a(2) c(2) b(2)])
  then show ?thesis using that[of a b] a(1) b(1) c(1) d(1) dpos by simp
qed

lemma calcDPC_spec_line:
  assumes "calcDPC_spec cv u v = Inr x"
  shows "\<exists>p. dpc_quotient cv u v = Inr p \<and> (\<forall>lo hi. lib_minMaxLoc cv p = Inr (Fin lo, Fin hi) \<longrightarrow> representable binary32 lo \<longrightarrow>
    representable binary32 hi \<longrightarrow> lo < hi \<longrightarrow> (\<exists>a b. maps_range lo hi a b \<and> lib_convertTo cv p CV_8UC1 (Fin a) (Fin b) = Inr x))"
proof -
  obtain p where p: "dpc_quotient cv u v = Inr p" using assms unfolding calcDPC_spec_def by (elim bindE_InrE)
  have "\<exists>a b. maps_range lo hi a b \<and> lib_convertTo cv p CV_8UC1 (Fin a) (Fin b) = Inr x"
    if m: "lib_minMaxLoc cv p = Inr (Fin lo, Fin hi)" and f: "representable binary32 lo" "representable binary32 hi" "lo < hi" for lo hi
    by (rule range_line[OF f]) (use assms p m in \<open>auto simp: calcDPC_spec_def bindE_def\<close>)
  then show ?thesis using p by blast
qed

definition setTo_law :: "opencv \<Rightarrow> bool" where
  "setTo_law cv \<longleftrightarrow> (\<forall>v. img_ok v \<longrightarrow> lib_setTo cv v (Fin 0) = Inr (const_img (itype v) (irows v) (icols v) (Fin 0)))"

text \<open>Results of the library are images; \<open>convertTo\<close> keeps the size and the number of channels.\<close>

definition images_lib :: "opencv \<Rightarrow> bool" where
  "images_lib cv \<longleftrightarrow> (\<forall>v t a b x. lib_convertTo cv v t a b = Inr x \<longrightarrow> img_ok x
        \<and> itype x = CV_MAKETYPE t (int (icn v)) \<and> irows x = irows v \<and> icols x = icols v)
     \<and> (\<forall>u v x. lib_subtract cv u v = Inr x \<longrightarrow> img_ok x) \<and> (\<forall>u v x. lib_add cv u v = Inr x \<longrightarrow> img_ok x)
     \<and> (\<forall>u v x. lib_divide cv u v = Inr x \<longrightarrow> img_ok x) \<and> (\<forall>u v x. lib_multiply cv u v = Inr x \<longrightarrow> img_ok x)
     \<and> (\<forall>v c r s x. lib_circle cv v c r s = Inr x \<longrightarrow> img_ok x)"

lemma images_libD:
  assumes "images_lib cv"
  shows "lib_convertTo cv v t a b = Inr x \<Longrightarrow> img_ok x" and "lib_subtract cv u v = Inr x \<Longrightarrow> img_ok x"
    and "lib_add cv u v = Inr x \<Longrightarrow> img_ok x" and "lib_divide cv u v = Inr x \<Longrightarrow> img_ok x"
    and "lib_multiply cv u v = Inr x \<Longrightarrow> img_ok x" and "lib_circle cv v c r s = Inr x \<Longrightarrow> img_ok x"
  using assms unfolding images_lib_def by metis+

lemma images_lib_type: "images_lib cv \<Longrightarrow> lib_convertTo cv v t a b = Inr x \<Longrightarrow> itype x = CV_MAKETYPE t (int (icn v))"
  by (simp add: images_lib_def)

lemma new_filled_ok:
  assumes law: "setTo_law cv" and sg: "0 \<le> r" "0 \<le> c"
  shows "\<exists>m w'. new_filled cv r c t (Fin 0) w = Inr (m, w') \<and> hdr_ok w' m \<and> value_of w' m = const_img t (nat r) (nat c) (Fin 0)
    \<and> keeps w None w' \<and> buf_of m = Some (length (bufs w))"
proof -
  obtain m v where m: "alloc r c t w = Inr (m, v)" "mrows m = r" "mcols m = c" "mtype m = t"
    "mdata m = Some (length (bufs w), 0)" "hdr_ok v m" "bufs v = bufs w @ [replicate (nat r * rowlen m) NaN]" "v = w\<lparr>bufs := bufs v\<rparr>"
    by (rule alloc_hdr[OF sg])
  let ?x = "const_img t (nat r) (nat c) (Fin 0)"
  have sz: "nrows m = nat r" "ncols m = nat c" using m(2,3) by (simp_all add: nrows_def ncols_def)
  have "lib_setTo cv (value_of v m) (Fin 0) = Inr ?x"
    using law m(4) sz by (simp add: setTo_law_def value_of_ok)
  moreover have "put_fixed m ?x v = Inr ((), write_img m ?x v)" using m(4-6) sz by (simp add: put_fixed_def)
  ultimately have n: "new_filled cv r c t (Fin 0) w = Inr (m, write_img m ?x v)"
    using m(1) fetch_ok[OF m(6)] by (simp add: new_filled_def)
  note u = write_img_updated[OF m(6), of ?x]
  have "value_of (write_img m ?x v) m = ?x" by (rule updated_value[OF u]) (use m(4) sz in simp_all)
  moreover have "keeps w None (write_img m ?x v)"
    using keeps_new[OF alloc_keeps[OF m(8,7)], of "length (bufs w)"] updated_keeps[OF u] m(5) by (simp add: buf_of_def)
  ultimately show ?thesis using n updated_hdr_ok[OF u m(6)] m(5) by (auto simp: buf_of_def)
qed

text \<open>An image in a buffer the caller of the operation (state \<open>u\<close>) does not have.\<close>

definition owned :: "world \<Rightarrow> world \<Rightarrow> mat \<Rightarrow> img \<Rightarrow> bool" where
  "owned u w m x \<longleftrightarrow> hdr_ok w m \<and> value_of w m = x \<and> (\<exists>n. buf_of m = Some n \<and> length (bufs u) \<le> n) \<and> keeps u None w"

lemma owned_keeps: "owned u w m x \<Longrightarrow> keeps w None w' \<Longrightarrow> owned u w' m x"
  unfolding owned_def using keepsD keeps_trans by (metis option.distinct(1))

lemma put_out_retype: "itype x \<noteq> mtype a \<Longrightarrow> put_out a x w = put_out mat_default x w"
  by (simp add: put_out_def create_def mat_default_def)

lemma put_new_owned:
  assumes "img_ok x" and k: "keeps u None w"
  shows "\<exists>m w'. put_out mat_default x w = Inr (m, w') \<and> owned u w' m x \<and> keeps w None w'"
  using put_new_ok[OF assms(1), of w] keeps_trans[OF k] keeps_length[OF k] unfolding owned_def by metis

lemma call1_fresh:
  assumes "hdr_ok w a" and "f (value_of w a) = Inr x" and "img_ok x" and "keeps u None w"
  shows "\<exists>m w'. call1 f a mat_default w = Inr (m, w') \<and> owned u w' m x \<and> keeps w None w'"
  using put_new_owned[OF assms(3,4)] assms(1,2) by (simp add: call1_def fetch_ok)

lemma call1_retype:
  assumes "hdr_ok w a" and "f (value_of w a) = Inr x" and "img_ok x" and "itype x \<noteq> mtype a" and "keeps u None w"
  shows "\<exists>m w'. call1 f a a w = Inr (m, w') \<and> owned u w' m x \<and> keeps w None w'"
  using call1_fresh[where f = f, OF assms(1-3,5)] put_out_retype[OF assms(4)] assms(1,2) by (simp add: call1_def fetch_ok)

lemma call2_fresh:
  assumes "hdr_ok w a" and "hdr_ok w b" and "f (value_of w a) (value_of w b) = Inr x" and "img_ok x" and "keeps u None w"
  shows "\<exists>m w'. call2 f a b mat_default w = Inr (m, w') \<and> owned u w' m x \<and> keeps w None w'"
  using put_new_owned[OF assms(4,5)] assms(1-3) by (simp add: call2_def fetch_ok)

text \<open>A result stored over an owned image is owned.\<close>

lemma put_owned:
  assumes "img_ok x" and m: "owned u w m y"
  shows "\<exists>m' w'. put_out m x w = Inr (m', w') \<and> owned u w' m' x"
proof -
  have ok: "hdr_ok w m" and k: "keeps u None w" using m by (simp_all add: owned_def)
  then have "out_ok w m" by (simp add: out_ok_def)
  from put_out_stored[OF assms(1) this] obtain m' w' where p: "put_out m x w = Inr (m', w')" "stored w m x m' w'" by blast
  have n: "\<exists>n. buf_of m' = Some n \<and> length (bufs u) \<le> n"
    using p(2) m keeps_length[OF k] unfolding stored_def owned_def by (meson order_trans)
  then have "keeps u None w'" using keeps_new[OF k] storedD(3)[OF p(2)] by auto
  then show ?thesis using p n storedD[OF p(2)] unfolding owned_def by blast
qed

lemma call1_owned:
  assumes "hdr_ok w a" and "f (value_of w a) = Inr x" and "img_ok x" and "owned u w m y"
  shows "\<exists>m' w'. call1 f a m w = Inr (m', w') \<and> owned u w' m' x"
  using put_owned[OF assms(3,4)] assms(1,2) by (simp add: call1_def fetch_ok)

lemma call2_owned:
  assumes "hdr_ok w a" and "hdr_ok w b" and "f (value_of w a) (value_of w b) = Inr x" and "img_ok x" and "owned u w m y"
  shows "\<exists>m' w'. call2 f a b m w = Inr (m', w') \<and> owned u w' m' x"
  using put_owned[OF assms(4,5)] assms(1-3) by (simp add: call2_def fetch_ok)

lemma calcDPC_spec_steps:
  assumes "calcDPC_spec cv u v = Inr x"
  obtains a b difference sum q mask p mm where "to_float cv u = Inr a" "to_float cv v = Inr b"
    "lib_subtract cv a b = Inr difference" "lib_add cv a b = Inr sum" "lib_divide cv difference sum = Inr q"
    "lib_circle cv (const_img CV_32FC1 (irows q) (icols q) (Fin 0)) (int (irows q) div 2, int (icols q) div 2)
       (int (irows q) div 2 - 100) (Fin 1) = Inr mask"
    "lib_multiply cv q mask = Inr p" "lib_minMaxLoc cv p = Inr mm" "stretch cv CV_8UC1 mm p = Inr x"
  using assms unfolding calcDPC_spec_def dpc_quotient_def
  by (elim bindE_InrE) (auto simp: to_float_def stretch_def Let_def split: prod.splits)

theorem calcDPC_refines:
  assumes lib: "images_lib cv" "setTo_law cv" and i1: "hdr_ok w image1" "depth image1 \<noteq> CV_32F" and i2: "hdr_ok w image2" "depth image2 \<noteq> CV_32F"
    and spec: "calcDPC_spec cv (value_of w image1) (value_of w image2) = Inr x"
  shows "\<exists>m w'. calcDPC cv image1 image2 w = Inr (m, w') \<and> value_of w' m = x \<and> keeps w None w'"
proof -
  obtain a b difference sum q mask p mm where
    a: "to_float cv (value_of w image1) = Inr a" and b: "to_float cv (value_of w image2) = Inr b"
    and d: "lib_subtract cv a b = Inr difference" and s: "lib_add cv a b = Inr sum" and q: "lib_divide cv difference sum = Inr q"
    and mask: "lib_circle cv (const_img CV_32FC1 (irows q) (icols q) (Fin 0)) (int (irows q) div 2, int (icols q) div 2)
       (int (irows q) div 2 - 100) (Fin 1) = Inr mask"
    and p: "lib_multiply cv q mask = Inr p" and mm: "lib_minMaxLoc cv p = Inr mm" and x: "stretch cv CV_8UC1 mm p = Inr x"
    using calcDPC_spec_steps[OF spec] by metis
  note il = images_libD[OF lib(1)]
  have ok: "img_ok a" "img_ok b" "img_ok difference" "img_ok sum" "img_ok q" "img_ok mask" "img_ok p" "img_ok x"
    using il(1)[OF a[unfolded to_float_def]] il(1)[OF b[unfolded to_float_def]] il(2)[OF d] il(3)[OF s] il(4)[OF q]
      il(6)[OF mask] il(5)[OF p] il(1)[OF x[unfolded stretch_def Let_def]] .
  have dp: "CV_MAT_DEPTH (CV_MAKETYPE CV_32FC1 n) = CV_32F" for n
    by (simp only: maketype_depth CV_32FC1_def) (simp add: CV_32F_def CV_MAT_DEPTH_mod)
  have t: "itype a \<noteq> mtype image1" "itype b \<noteq> mtype image2"
    using images_lib_type[OF lib(1) a[unfolded to_float_def]] images_lib_type[OF lib(1) b[unfolded to_float_def]]
      i1(2) i2(2) dp unfolding depth_def by metis+
  obtain m1 w1 where 1: "call1 (to_float cv) image1 image1 w = Inr (m1, w1)" "owned w w1 m1 a" "keeps w None w1"
    using call1_retype[where f = "to_float cv", OF i1(1) a ok(1) t(1) keeps_refl] by blast
  have i2': "hdr_ok w1 image2" "to_float cv (value_of w1 image2) = Inr b"
    using keepsD[OF 1(3) i2(1)] hdr_ok_buf[OF i2(1)] b by auto
  obtain m2 w2 where 2: "call1 (to_float cv) image2 image2 w1 = Inr (m2, w2)" "owned w w2 m2 b" "keeps w1 None w2"
    using call1_retype[where f = "to_float cv", OF i2' ok(2) t(2) 1(3)] by blast
  have k2: "keeps w None w2" using 2(2) by (simp add: owned_def)
  note m1 = owned_keeps[OF 1(2) 2(3)]
  have ds: "lib_subtract cv (value_of w2 m1) (value_of w2 m2) = Inr difference" using d m1 2(2) by (simp add: owned_def)
  obtain m3 w3 where 3: "call2 (lib_subtract cv) m1 m2 mat_default w2 = Inr (m3, w3)" "owned w w3 m3 difference" "keeps w2 None w3"
    using call2_fresh[where f = "lib_subtract cv", OF _ _ ds ok(3) k2] m1 2(2) by (auto simp: owned_def)
  note m1 = owned_keeps[OF m1 3(3)] and m2 = owned_keeps[OF 2(2) 3(3)]
  have sm: "lib_add cv (value_of w3 m1) (value_of w3 m2) = Inr sum" and k3: "keeps w None w3" using s m1 m2 by (simp_all add: owned_def)
  obtain m4 w4 where 4: "call2 (lib_add cv) m1 m2 mat_default w3 = Inr (m4, w4)" "owned w w4 m4 sum" "keeps w3 None w4"
    using call2_fresh[where f = "lib_add cv", OF _ _ sm ok(4) k3] m1 m2 by (auto simp: owned_def)
  note m3 = owned_keeps[OF 3(2) 4(3)]
  have qq: "lib_divide cv (value_of w4 m3) (value_of w4 m4) = Inr q" and k4: "keeps w None w4" using q m3 4(2) by (simp_all add: owned_def)
  obtain m5 w5 where 5: "call2 (lib_divide cv) m3 m4 mat_default w4 = Inr (m5, w5)" "owned w w5 m5 q"
    using call2_fresh[where f = "lib_divide cv", OF _ _ qq ok(5) k4] m3 4(2) by (auto simp: owned_def)
  have sz: "mrows m5 = int (irows q)" "mcols m5 = int (icols q)" and k5: "keeps w None w5"
    using 5(2) hdr_ok_sizes[of w5 m5] value_of_eqD[of w5 m5 q] by (auto simp: owned_def)
  have half: "c_div (int n) 2 = int n div 2" for n by (cases "n = 0") (simp_all add: c_div_def)
  obtain m6 w6 where 6: "new_filled cv (mrows m5) (mcols m5) CV_32FC1 (Fin 0) w5 = Inr (m6, w6)" "hdr_ok w6 m6"
    "value_of w6 m6 = const_img CV_32FC1 (irows q) (icols q) (Fin 0)" "keeps w5 None w6" "buf_of m6 = Some (length (bufs w5))"
    using new_filled_ok[OF lib(2), of "mrows m5" "mcols m5" CV_32FC1 w5] sz by auto
  have o6: "owned w5 w6 m6 (const_img CV_32FC1 (irows q) (icols q) (Fin 0))" using 6 by (simp add: owned_def)
  let ?circ = "\<lambda>v. lib_circle cv v (c_div (mrows m5) 2, c_div (mcols m5) 2) (c_div (mrows m5) 2 - circPad) (Fin 1)"
  have cm: "?circ (value_of w6 m6) = Inr mask" using mask 6(3) sz by (simp add: half circPad_def)
  obtain m7 w7 where 7: "call1 ?circ m6 m6 w6 = Inr (m7, w7)" "owned w5 w7 m7 mask"
    using call1_owned[where f = ?circ, OF 6(2) cm ok(6) o6] by blast
  have m5: "owned w w7 m5 q" using owned_keeps[OF 5(2)] 7(2) unfolding owned_def[of w5] by blast
  have pp: "lib_multiply cv (value_of w7 m5) (value_of w7 m7) = Inr p" using p m5 7(2) by (simp add: owned_def)
  obtain m8 w8 where 8: "call2 (lib_multiply cv) m5 m7 m5 w7 = Inr (m8, w8)" "owned w w8 m8 p"
    using call2_owned[where f = "lib_multiply cv", OF _ _ pp ok(7) m5] m5 7(2) by (auto simp: owned_def)
  have v8: "hdr_ok w8 m8" "stretch cv CV_8UC1 mm (value_of w8 m8) = Inr x" using 8(2) x by (simp_all add: owned_def)
  obtain m9 w9 where 9: "call1 (stretch cv CV_8UC1 mm) m8 m8 w8 = Inr (m9, w9)" "owned w w9 m9 x"
    using call1_owned[where f = "stretch cv CV_8UC1 mm", OF v8 ok(8) 8(2)] by blast
  have "calcDPC cv image1 image2 w = Inr (m9, w9)"
    unfolding calcDPC_def using 1(1) 2(1) 3(1) 4(1) 5(1) 6(1) 7(1) 8 9(1) mm fetch_ok[OF v8(1)] by (simp add: owned_def)
  then show ?thesis using 9(2) by (auto simp: owned_def)
qed

subsection \<open>The diagnostic output of \<open>qDPC_loop\<close>\<close>

text \<open>
  After each transform the loop prints element (500, 500). For an image with at most 500 rows
  that is outside its buffer: the read is undefined behaviour, an error here.
\<close>

lemma put_new_layout:
  assumes "put_out mat_default v w = Inr (m, w')"
  shows "mdata m = Some (length (bufs w), 0)" "mstep m = irowlen v" "mtype m = itype v"
    "length (bufs w') = Suc (length (bufs w))" "length (bufs w' ! length (bufs w)) = irows v * irowlen v"
proof -
  have "m = \<lparr>mtype = itype v, mrows = int (irows v), mcols = int (icols v), mdata = Some (length (bufs w), 0), mstep = irowlen v\<rparr>"
    and "w' = write_img m v (w\<lparr>bufs := bufs w @ [replicate (irows v * irowlen v) NaN]\<rparr>)"
    using assms by (auto simp: put_out_def create_def mat_default_def alloc_def Let_def bindA_def irowlen_def icn_def split: if_splits)
  then show "mdata m = Some (length (bufs w), 0)" "mstep m = irowlen v" "mtype m = itype v"
    "length (bufs w') = Suc (length (bufs w))" "length (bufs w' ! length (bufs w)) = irows v * irowlen v"
    by (simp_all add: write_img_def)
qed

lemma print_at_small:
  assumes p: "put_out mat_default v w = Inr (m, w')" and t: "itype v = CV_64FC1" and small: "irows v \<le> 500"
  shows "print_at m w' = Inl OutOfBounds"
proof -
  note l = put_new_layout[OF p]
  have rl: "irowlen v = icols v" using t by (simp add: irowlen_def icn_def)
  have "irows v * icols v \<le> 500 * icols v + 500" using mult_le_mono1[OF small, of "icols v"] by linarith
  then have "\<not> valid_addr w' (length (bufs w)) (icols v * 500 + 500)"
    using l(5) rl by (simp add: valid_addr_def mult.commute)
  moreover have "depth m = CV_64F" using l(3) t by (simp add: depth_def)
  ultimately have "load m 500 500 w' = Inl OutOfBounds"
    using l(1,2) rl by (simp add: load_def elem_addr_def)
  then show ?thesis by (simp add: print_at_def)
qed

definition convert_law :: "opencv \<Rightarrow> bool" where
  "convert_law cv \<longleftrightarrow> (\<forall>v t a b. img_ok v \<longrightarrow> (\<exists>x. lib_convertTo cv v t a b = Inr x \<and> img_ok x
     \<and> itype x = CV_MAKETYPE t (int (icn v)) \<and> irows x = irows v \<and> icols x = icols v))"

definition qdpc_lib :: "opencv \<Rightarrow> bool" where
  "qdpc_lib cv \<longleftrightarrow> channel_lib cv \<and> fourier_lib cv \<and> convert_law cv \<and> copy_law cv"

text \<open>One byte image and one transfer function of the same size.\<close>

definition qdpc_input :: "world \<Rightarrow> mat \<Rightarrow> mat \<Rightarrow> bool" where
  "qdpc_input w d t \<longleftrightarrow> has_pixels w d \<and> mtype d = CV_8UC1 \<and> has_pixels w t \<and> nrows t = nrows d \<and> ncols t = ncols d
     \<and> nrows d \<le> 2 ^ 24 \<and> ncols d \<le> 2 ^ 24"

lemma border_owned:
  assumes law: "border_law cv" and m: "has_pixels w a" and le: "mrows a \<le> r" "mcols a \<le> c"
    and k: "keeps u None w" and out: "p = mat_default \<or> owned u w p y"
  shows "\<exists>m w' x. call1 (\<lambda>v. lib_copyMakeBorder cv v 0 (r - mrows a) 0 (c - mcols a) (Fin 0)) a p w = Inr (m, w') \<and> owned u w' m x"
proof -
  let ?x = "border_img (value_of w a) 0 (r - mrows a) 0 (c - mcols a) (Fin 0)"
  have ok: "hdr_ok w a" using m by (simp add: has_pixels_def)
  have f: "lib_copyMakeBorder cv (value_of w a) 0 (r - mrows a) 0 (c - mcols a) (Fin 0) = Inr ?x"
    using law m le by (simp add: border_law_def value_of_ok has_pixels_def)
  let ?f = "\<lambda>v. lib_copyMakeBorder cv v 0 (r - mrows a) 0 (c - mcols a) (Fin 0)"
  from out show ?thesis
  proof
    assume "p = mat_default"
    then show ?thesis using call1_fresh[where f = ?f, OF ok f border_img_ok k] by blast
  next
    assume "owned u w p y"
    then show ?thesis using call1_owned[where f = ?f, OF ok f border_img_ok] by blast
  qed
qed

text \<open>The transform of one image: converted, given an imaginary part of zeros, transformed and split.\<close>

lemma image_transformed:
  assumes law: "qdpc_lib cv" and d: "hdr_ok w d" "has_pixels w d" "mtype d = CV_8UC1" "0 < nrows d" "0 < ncols d" and k: "keeps w None w2"
  shows "\<exists>q w3 z w4 c w5 f w6 y re im w7. to_double cv d w2 = Inr (q, w3) \<and> zeros_mat cv (mrows d) (mcols d) CV_64F w3 = Inr (z, w4)
    \<and> merge_into cv [q, z] mat_default w4 = Inr (c, w5) \<and> call1 (\<lambda>v. lib_dft cv v 0) c c w5 = Inr (f, w6)
    \<and> split_vec cv f [] w6 = Inr ([re, im], w7) \<and> itype y = CV_64FC2 \<and> irows y = nrows d \<and> icols y = ncols d
    \<and> hdr_ok w7 re \<and> hdr_ok w7 im \<and> value_of w7 re = chan_img y 0 \<and> value_of w7 im = chan_img y 1"
proof -
  have l: "channel_lib cv" "zeros_law cv" "split_law cv" "merge_law cv" "border_law cv" "dft_law cv" "optimal_law cv" "convert_law cv" "copy_law cv"
    using law by (simp_all add: qdpc_lib_def channel_lib_def fourier_lib_def)
  note d2 = keepsD[OF k d(1)] and sg = hdr_ok_signs[OF d(1)]
  have nd: "nch d = 1" using d(3) by (simp add: nch_def channels_def CV_8UC1_def maketype_cn)
  have t1: "CV_MAKETYPE CV_64FC1 1 = CV_64FC1" by (simp add: maketype_1 CV_64F_plane)
  obtain x where x: "lib_convertTo cv (value_of w2 d) CV_64FC1 (Fin 1) (Fin 0) = Inr x" "img_ok x" "itype x = CV_64FC1"
    "irows x = nrows d" "icols x = ncols d"
    using l(8) value_of_ok[of w2 d] nd t1 unfolding convert_law_def by (metis value_of_sel(2,3,5) of_nat_1)
  obtain q w3 where q: "call1 (\<lambda>v. lib_convertTo cv v CV_64FC1 (Fin 1) (Fin 0)) d mat_default w2 = Inr (q, w3)" "owned w w3 q x"
    using call1_fresh[where f = "\<lambda>v. lib_convertTo cv v CV_64FC1 (Fin 1) (Fin 0)", OF d2(1) x(1,2) k] by blast
  have "mtype d \<noteq> CV_64FC1" "depth d \<noteq> CV_64F"
    using d(3) by (simp_all add: CV_8UC1_def CV_64FC1_def CV_64F_def CV_8U_def CV_MAKETYPE_def depth_def CV_MAT_DEPTH_mod)
  then have td: "to_double cv d w2 = Inr (q, w3)" using q(1) by (simp add: to_double_def)
  obtain z w4 where z: "zeros_mat cv (mrows d) (mcols d) CV_64F w3 = Inr (z, w4)" "hdr_ok w4 z"
    "value_of w4 z = const_img CV_64F (nat (mrows d)) (nat (mcols d)) (Fin 0)" "keeps w3 None w4"
    using zeros_mat_ok[OF l(2), of "mrows d" "mcols d" CV_64F w3] sg by metis
  note q4 = owned_keeps[OF q(2) z(4)]
  have k4: "keeps w None w4" using q4 by (simp add: owned_def)
  let ?z = "const_img CV_64F (nrows d) (ncols d) (Fin 0)"
  let ?c = "cimage (nrows d) (ncols d) (\<lambda>i j. (img_at x i j, img_at ?z i j))"
  have vz: "value_of w4 z = ?z" using z(3) by (simp add: nrows_def ncols_def)
  have "same_planes [x, ?z]" using x d(4,5) by (simp add: same_planes_def icn_def CV_64F_plane)
  then have "lib_merge cv [x, ?z] = Inr (merge_img [x, ?z])" using l(4) by (simp add: merge_law_def)
  moreover have "merge_img [x, ?z] = ?c" using merge_pair[of x ?z] x d(4,5) by (simp add: CV_64F_plane)
  ultimately have mg: "lib_merge cv [x, ?z] = Inr ?c" by simp
  obtain c w5 where c: "put_out mat_default ?c w4 = Inr (c, w5)" "owned w w5 c ?c"
    using put_new_owned[OF cimage_ok k4] by blast
  have mi: "merge_into cv [q, z] mat_default w4 = Inr (c, w5)"
    using c(1) mg q4 z(2) vz by (simp add: merge_into_def fetch_ok owned_def)
  obtain y where y: "lib_dft cv (value_of w5 c) 0 = Inr y" "img_ok y" "itype y = CV_64FC2" "irows y = nrows d" "icols y = ncols d"
    using l(6) c(2) d(4,5) unfolding dft_law_def owned_def by (metis cimage_ok cimage_sel bit.conj_zero_left)
  have c5: "hdr_ok w5 c" using c(2) by (simp add: owned_def)
  obtain f w6 where f: "call1 (\<lambda>v. lib_dft cv v 0) c c w5 = Inr (f, w6)" "owned w w6 f y"
    using call1_owned[where f = "\<lambda>v. lib_dft cv v 0", OF c5 y(1,2) c(2)] by blast
  have fs: "has_pixels w6 f" "nch f = 2" "hdr_ok w6 f" "value_of w6 f = y"
    using f(2) value_of_eqD[of w6 f y] y(3-5) d(4,5) by (auto simp: owned_def has_pixels_def nch_def channels_def)
  obtain re im w7 where s: "split_into cv f [mat_default, mat_default] w6 = Inr ([re, im], w7)" "hdr_ok w7 re" "hdr_ok w7 im"
    "value_of w7 re = chan_img y 0" "value_of w7 im = chan_img y 1"
    using split_new2_ok[OF l(3) fs(1,2)] fs(4) by auto
  have sv: "split_vec cv f [] w6 = Inr ([re, im], w7)"
  proof -
    have "lib_split cv y = Inr (map (chan_img y) [0..<icn y])" "icn y = 2"
      using l(3) y d(4,5) by (simp_all add: split_law_def icn_def)
    then show ?thesis using s(1) fs(3,4) by (simp add: split_vec_def split_into_def fetch_ok numeral_2_eq_2)
  qed
  show ?thesis using td z(1) mi f(1) sv y(3-5) s(2-5) by blast
qed

theorem qDPC_loop_small_image:
  assumes law: "qdpc_lib cv" and lists: "dpcList = d # ds" "tfList = t # ts" and i: "qdpc_input w d t"
    and small: "nrows d \<le> 500"
  shows "qDPC_loop cv lm dpcList tfList reg w = Inl OutOfBounds"
proof -
  have l: "channel_lib cv" "zeros_law cv" "split_law cv" "merge_law cv" "border_law cv" "dft_law cv" "optimal_law cv" "convert_law cv" "copy_law cv"
    using law by (simp_all add: qdpc_lib_def channel_lib_def fourier_lib_def)
  have d: "hdr_ok w d" "has_pixels w d" "mtype d = CV_8UC1" "0 < nrows d" "0 < ncols d" and t: "hdr_ok w t" "has_pixels w t"
    "nrows t = nrows d" "ncols t = ncols d"
    using i by (auto simp: qdpc_input_def has_pixels_def)
  note sd = hdr_ok_sizes[OF d(1)] and st = hdr_ok_sizes[OF t(1)] and sg = hdr_ok_signs[OF d(1)]
  let ?m = "lib_optDFTSize cv (mrows d)" and ?n = "lib_optDFTSize cv (mcols d)"
  have opt: "mrows d \<le> ?m" "mcols d \<le> ?n" "mrows t \<le> ?m" "mcols t \<le> ?n"
    using l(7) d(4,5) i st t(3,4) by (auto simp: optimal_law_def qdpc_input_def sd)
  obtain z1 wa where a: "zeros_mat cv (mrows d) (mcols d) CV_64F w = Inr (z1, wa)" "keeps w None wa"
    using zeros_mat_ok[OF l(2), of "mrows d" "mcols d" CV_64F w] sg by metis
  obtain z2 wb where b: "zeros_mat cv (mrows d) (mcols d) CV_64F wa = Inr (z2, wb)" "keeps wa None wb"
    using zeros_mat_ok[OF l(2), of "mrows d" "mcols d" CV_64F wa] sg by metis
  have kb: "keeps w None wb" using keeps_trans[OF a(2) b(2)] .
  have pb: "has_pixels v x" if "keeps w None v" "has_pixels w x" for v x
    using that keepsD(1) by (auto simp: has_pixels_def)
  obtain p1 w1 x1 where p1: "call1 (\<lambda>v. lib_copyMakeBorder cv v 0 (?m - mrows t) 0 (?n - mcols t) (Fin 0)) t mat_default wb = Inr (p1, w1)"
    "owned w w1 p1 x1" using border_owned[OF l(5) pb[OF kb t(2)] opt(3,4) kb] by blast
  have k1: "keeps w None w1" using p1(2) by (simp add: owned_def)
  obtain p2 w2 x2 where p2: "call1 (\<lambda>v. lib_copyMakeBorder cv v 0 (?m - mrows d) 0 (?n - mcols d) (Fin 0)) d p1 w1 = Inr (p2, w2)"
    "owned w w2 p2 x2" using border_owned[OF l(5) pb[OF k1 d(2)] opt(1,2) k1] p1(2) by blast
  have k2: "keeps w None w2" using p2(2) by (simp add: owned_def)
  obtain q w3 z w4 c w5 f w6 y re im w7 where tr: "to_double cv d w2 = Inr (q, w3)" "zeros_mat cv (mrows d) (mcols d) CV_64F w3 = Inr (z, w4)"
    "merge_into cv [q, z] mat_default w4 = Inr (c, w5)" "call1 (\<lambda>v. lib_dft cv v 0) c c w5 = Inr (f, w6)" "split_vec cv f [] w6 = Inr ([re, im], w7)"
    and y: "itype y = CV_64FC2" "irows y = nrows d" "icols y = ncols d"
    and s: "hdr_ok w7 re" "hdr_ok w7 im" "value_of w7 re = chan_img y 0" "value_of w7 im = chan_img y 1"
    using image_transformed[OF law d k2] by blast
  have cp: "lib_copyTo cv (chan_img y k) = Inr (chan_img y k)" for k
    using l(9) y(2,3) d(4,5) by (simp add: copy_law_def)
  obtain r w8 where r: "put_out mat_default (chan_img y 0) w7 = Inr (r, w8)" "keeps w7 None w8"
    using put_new_ok[OF chan_img_ok] by metis
  have im8: "hdr_ok w8 im" "value_of w8 im = chan_img y 1"
    using keepsD[OF r(2) s(2)] s(4) hdr_ok_buf[OF s(2)] by auto
  obtain j w9 where j: "put_out mat_default (chan_img y 1) w8 = Inr (j, w9)" using put_new_ok[OF chan_img_ok] by metis
  have "prep_images cv dpcList tfList ?m ?n 0 \<lparr>padded_m = mat_default, dpcComplex = mat_default, complexPlanes = [],
         dpcFtReal = replicate (length dpcList) mat_default, dpcFtImag = replicate (length dpcList) mat_default\<rparr> wb
     = Inr (\<lparr>padded_m = p2, dpcComplex = f, complexPlanes = [re, im],
         dpcFtReal = (replicate (length dpcList) mat_default)[0 := r], dpcFtImag = (replicate (length dpcList) mat_default)[0 := j]\<rparr>, w9)"
    unfolding prep_images_def
    using p1(1) p2(1) tr r(1) j cp s(1,3) im8 lists by (simp add: nth_at_def call1_def[of "lib_copyTo cv"] fetch_ok)
  moreover have "print_at j w9 = Inl OutOfBounds"
    by (rule print_at_small[OF j]) (use y small in \<open>simp_all add: maketype_1 CV_64F_plane\<close>)
  ultimately have "prep_step cv dpcList tfList ?m ?n 0 \<lparr>padded_m = mat_default, dpcComplex = mat_default, complexPlanes = [],
         dpcFtReal = replicate (length dpcList) mat_default, dpcFtImag = replicate (length dpcList) mat_default\<rparr> wb = Inl OutOfBounds"
    using lists(1) by (simp add: prep_step_def nth_at_def)
  then show ?thesis using a(1) b(1) lists(1) by (simp add: qDPC_loop_def nth_at_def)
qed

end
