(* ===== verification/IllParameter.thy ===== *)
theory IllParameter
  imports Fresnel
begin

text \<open>
  The vectors handed to the neural network, jni-native/jni/jni_illparameter.cpp: \<open>getFFTVector\<close>
  (spectrum of an image as one column: real parts, then imaginary parts, logarithm, normalised)
  and \<open>getAngleVector\<close> (an image as one column, normalised).
\<close>

subsection \<open>The code\<close>

definition rat_lit :: "rat \<Rightarrow> fp" where
  "rat_lit r = rnd binary64 r"

definition getFFTVector :: "opencv \<Rightarrow> mat \<Rightarrow> mat cvact" where
  "getFFTVector cv img =
     bindA (complex_create cv img img mat_default) (\<lambda>complex_img.
     bindA (fft2 cv complex_img mat_default) (\<lambda>img_Ft.
     bindA (fftShift cv img_Ft img_Ft) (\<lambda>img_Ft.
     bindA (liftA (lib_reshape cv img_Ft 0 1)) (\<lambda>img_Ft_vec.
     bindA (split_into cv img_Ft_vec [mat_default, mat_default]) (\<lambda>Ft_planes.
     bindA (call2 (lib_hconcat cv) (Ft_planes ! 0) (Ft_planes ! 1) mat_default) (\<lambda>img_Ft_vec_concat.
     bindA (call1 (lib_transpose cv) img_Ft_vec_concat img_Ft_vec_concat) (\<lambda>img_Ft_vec_concat.
     bindA (call1 (lib_log cv) img_Ft_vec_concat img_Ft_vec_concat) (\<lambda>img_Ft_vec_concat.
       call1 (\<lambda>v. lib_normalize cv v (rat_lit (1 / 2)) (rat_lit (- 1 / 2))) img_Ft_vec_concat img_Ft_vec_concat))))))))"

definition getAngleVector :: "opencv \<Rightarrow> mat \<Rightarrow> mat cvact" where
  "getAngleVector cv cmplx_angle =
     bindA (liftA (lib_reshape cv cmplx_angle 1 1)) (\<lambda>cmplx_vec.
     thenA (tell (Said ''*********cmplx_vec**********''))
    (thenA (printMat cmplx_vec)
    (bindA (call1 (lib_transpose cv) cmplx_vec cmplx_vec) (\<lambda>cmplx_vec.
       call1 (\<lambda>v. lib_normalize cv v (Fin 0) (dmul (Fin 2) (rat_lit (314 / 100)))) cmplx_vec cmplx_vec))))"

subsection \<open>Rows and columns\<close>

definition row_img :: "int \<Rightarrow> fp list \<Rightarrow> img" where
  "row_img t xs = \<lparr>itype = t, irows = 1, icols = length xs, idata = [xs]\<rparr>"

definition col_img :: "int \<Rightarrow> fp list \<Rightarrow> img" where
  "col_img t xs = \<lparr>itype = t, irows = length xs, icols = 1, idata = map (\<lambda>x. [x]) xs\<rparr>"

text \<open>An array in one piece read as one row: "the data is not copied" (core/mat.hpp, \<open>reshape\<close>).\<close>

definition reshaped :: "mat \<Rightarrow> int \<Rightarrow> mat" where
  "reshaped m cn = m\<lparr>mtype := (if cn = 0 then mtype m else CV_MAKETYPE (mtype m) cn), mrows := 1,
     mcols := (if cn = 0 then mrows m * mcols m else mrows m * mcols m * channels m div cn),
     mstep := nrows m * rowlen m\<rparr>"

definition reshape_law :: "opencv \<Rightarrow> bool" where
  "reshape_law cv \<longleftrightarrow> (\<forall>m cn. mdata m \<noteq> None \<longrightarrow> mstep m = rowlen m \<longrightarrow> 0 < mrows m \<longrightarrow> 0 < mcols m \<longrightarrow>
     cn = 0 \<or> cn = 1 \<longrightarrow> lib_reshape cv m cn 1 = Inr (reshaped m cn))"

definition hconcat_law :: "opencv \<Rightarrow> bool" where
  "hconcat_law cv \<longleftrightarrow> (\<forall>t xs ys. xs \<noteq> [] \<longrightarrow> ys \<noteq> [] \<longrightarrow>
     lib_hconcat cv (row_img t xs) (row_img t ys) = Inr (row_img t (xs @ ys)))"

definition transpose_law :: "opencv \<Rightarrow> bool" where
  "transpose_law cv \<longleftrightarrow> (\<forall>t xs. CV_MAT_CN t = 1 \<longrightarrow> xs \<noteq> [] \<longrightarrow> lib_transpose cv (row_img t xs) = Inr (col_img t xs))"

text \<open>"output array of the same size and type as input array"\<close>

definition same_shape_law :: "(img \<Rightarrow> err + img) \<Rightarrow> bool" where
  "same_shape_law f \<longleftrightarrow> (\<forall>v. img_ok v \<longrightarrow> 0 < irows v \<longrightarrow> 0 < icols v \<longrightarrow>
     (\<exists>x. f v = Inr x \<and> img_ok x \<and> itype x = itype v \<and> irows x = irows v \<and> icols x = icols v))"

definition vector_lib :: "opencv \<Rightarrow> bool" where
  "vector_lib cv \<longleftrightarrow> reshape_law cv \<and> hconcat_law cv \<and> transpose_law cv \<and> same_shape_law (lib_log cv)
     \<and> (\<forall>a b. same_shape_law (\<lambda>v. lib_normalize cv v a b))"

lemma row_img_ok [simp]: "CV_MAT_CN t = 1 \<Longrightarrow> img_ok (row_img t xs)" and col_img_ok [simp]: "CV_MAT_CN t = 1 \<Longrightarrow> img_ok (col_img t xs)"
  by (auto simp: img_ok_def irowlen_def icn_def row_img_def col_img_def)

lemma reshaped_ok:
  assumes ok: "hdr_ok w m" and c: "mstep m = rowlen m" and pos: "0 < nrows m" "0 < ncols m" and cn: "cn = 0 \<or> cn = 1"
  shows "hdr_ok w (reshaped m cn)" and "rowlen (reshaped m cn) = nrows m * rowlen m" and "nrows (reshaped m cn) = 1"
    and "ncols (reshaped m cn) = (if cn = 0 then nrows m * ncols m else nrows m * rowlen m)"
    and "cell w (reshaped m cn) 0 (i * rowlen m + k) = cell w m i k"
proof -
  from ok obtain b a where m: "mdata m = Some (b, a)" "b < length (bufs w)" and inb: "\<And>i k. i < nrows m \<Longrightarrow> k < rowlen m \<Longrightarrow>
      a + mstep m * i + k < length (bufs w ! b)" by (elim hdr_okE) blast
  note sg = hdr_ok_signs[OF ok]
  show rl: "nrows (reshaped m cn) = 1" by (simp add: reshaped_def nrows_def)
  show nc: "ncols (reshaped m cn) = (if cn = 0 then nrows m * ncols m else nrows m * rowlen m)"
    using cn sg by (auto simp: reshaped_def ncols_def nrows_def rowlen_def nch_def nat_mult_distrib)
  have "nch (reshaped m cn) = (if cn = 0 then nch m else 1)"
    using cn by (auto simp: reshaped_def nch_def channels_def maketype_cn)
  then show l: "rowlen (reshaped m cn) = nrows m * rowlen m"
    using nc cn by (auto simp: rowlen_def)
  show "cell w (reshaped m cn) 0 (i * rowlen m + k) = cell w m i k"
    using m c by (simp add: reshaped_def cell_def mult.commute add.assoc)
  have rp: "0 < rowlen m" using pos by (simp add: rowlen_def)
  have "a + rowlen m * (nrows m - 1) + (rowlen m - 1) < length (bufs w ! b)"
    using inb[of "nrows m - 1" "rowlen m - 1"] pos rp c by simp
  moreover have "nrows m * rowlen m = rowlen m * (nrows m - 1) + rowlen m"
    using pos(1) by (cases "nrows m") simp_all
  ultimately have "a + nrows m * rowlen m \<le> length (bufs w ! b)" using rp by linarith
  then show "hdr_ok w (reshaped m cn)"
    using m l rl sg cn CV_MAT_CN_pos[of "mtype m"] by (auto simp: hdr_ok_def) (auto simp: reshaped_def channels_def)
qed

text \<open>The elements of an image in the order of memory.\<close>

definition elems :: "img \<Rightarrow> fp list" where
  "elems v = map (\<lambda>p. img_at v (p div irowlen v) (p mod irowlen v)) [0..<irows v * irowlen v]"

lemma reshaped_value:
  assumes ok: "hdr_ok w m" and c: "mstep m = rowlen m" and pos: "0 < nrows m" "0 < ncols m" and cn: "cn = 0 \<or> cn = 1"
  shows "value_of w (reshaped m cn) = \<lparr>itype = mtype (reshaped m cn), irows = 1, icols = ncols (reshaped m cn),
    idata = [elems (value_of w m)]\<rparr>"
proof -
  note r = reshaped_ok[OF assms]
  have rp: "0 < rowlen m" using pos by (simp add: rowlen_def)
  have "map (cell w (reshaped m cn) 0) [0..<nrows m * rowlen m] = elems (value_of w m)"
    unfolding elems_def value_of_sel
  proof (rule map_cong[OF refl])
    fix p assume "p \<in> set [0..<nrows m * rowlen m]"
    then have p: "p div rowlen m < nrows m" "p mod rowlen m < rowlen m" using rp by (simp_all add: less_mult_imp_div_less)
    have "cell w (reshaped m cn) 0 (p div rowlen m * rowlen m + p mod rowlen m) = cell w m (p div rowlen m) (p mod rowlen m)"
      by (rule r(5))
    then show "cell w (reshaped m cn) 0 p = img_at (value_of w m) (p div rowlen m) (p mod rowlen m)"
      using p by (simp add: img_at_value_of)
  qed
  then show ?thesis using r(2,3) by (simp add: value_of_def)
qed

subsection \<open>The vector of a spectrum\<close>

definition pixel_list :: "img \<Rightarrow> cpixel list" where
  "pixel_list v = map (\<lambda>p. cpix v (p div icols v) (p mod icols v)) [0..<irows v * icols v]"

definition spectrum_vector :: "img \<Rightarrow> fp list" where
  "spectrum_vector v = map fst (pixel_list v) @ map snd (pixel_list v)"

lemma elems_pixel:
  assumes "itype v = CV_64FC2" and "j < irows v * icols v" and "c < 2"
  shows "elems v ! (j * 2 + c) = (if c = 0 then fst else snd) (pixel_list v ! j)"
proof -
  have rl: "irowlen v = 2 * icols v" using assms(1) by (simp add: irowlen_def icn_def)
  have "j * 2 + c < irows v * irowlen v" using assms(2,3) rl by simp
  moreover have "(j * 2 + c) div (2 * icols v) = j div icols v"
    using assms(3) by (simp add: div_mult2_eq)
  moreover have "(j * 2 + c) mod (2 * icols v) = 2 * (j mod icols v) + c"
    using assms(3) by (simp add: mod_mult2_eq)
  ultimately have "elems v ! (j * 2 + c) = img_at v (j div icols v) (2 * (j mod icols v) + c)"
    by (simp add: elems_def rl)
  moreover have "c = 0 \<or> c = 1" using assms(3) by auto
  ultimately show ?thesis using assms(2) by (auto simp: pixel_list_def cpix_def)
qed

lemma chan_row:
  assumes t: "itype v = CV_64FC2" and c: "c < 2"
  shows "chan_img \<lparr>itype = CV_64FC2, irows = 1, icols = irows v * icols v, idata = [elems v]\<rparr> c
    = row_img CV_64FC1 (map (if c = 0 then fst else snd) (pixel_list v))" (is "?l = ?r")
proof -
  have "CV_MAKETYPE CV_64FC2 1 = CV_64FC1" by (simp add: maketype_1 CV_64F_plane)
  moreover have "map (\<lambda>j. elems v ! (j * 2 + c)) [0..<irows v * icols v] = map (if c = 0 then fst else snd) (pixel_list v)"
    by (rule nth_equalityI) (use elems_pixel[OF t _ c] in \<open>simp_all add: pixel_list_def\<close>)
  moreover have "length (pixel_list v) = irows v * icols v" by (simp add: pixel_list_def)
  ultimately show ?thesis by (simp add: chan_img_def row_img_def icn_def img_at_def)
qed

text \<open>A chain of library calls on one variable.\<close>

lemma call1_self:
  assumes ok: "hdr_ok w a" and f: "f (value_of w a) = Inr x" "img_ok x" and new: "keeps u None w" and b: "buf_of a = Some n" "length (bufs u) \<le> n"
  shows "\<exists>m w' n'. call1 f a a w = Inr (m, w') \<and> hdr_ok w' m \<and> value_of w' m = x \<and> keeps u None w'
    \<and> buf_of m = Some n' \<and> length (bufs u) \<le> n'"
proof -
  have "out_ok w a" using ok by (simp add: out_ok_def)
  from call1_ok[where f = f, OF ok f this] obtain m w' where m: "call1 f a a w = Inr (m, w')" "stored w a x m w'" by auto
  have "\<exists>n'. buf_of m = Some n' \<and> length (bufs u) \<le> n'"
    using m(2) b keeps_length[OF new] unfolding stored_def by (meson order_trans)
  moreover from this have "keeps u None w'"
    using keeps_new[OF new] storedD(3)[OF m(2)] by auto
  ultimately show ?thesis using m storedD[OF m(2)] by blast
qed

text \<open>A real image of a size that the transform does not pad.\<close>

definition vector_ready :: "opencv \<Rightarrow> world \<Rightarrow> mat \<Rightarrow> bool" where
  "vector_ready cv w m \<longleftrightarrow> square w m \<and> mtype m = CV_64FC1 \<and> mcols m \<le> 2 ^ 24 \<and> lib_optDFTSize cv (mcols m) = mcols m"

text \<open>The first half of the function: the transform of the image, its quadrants exchanged.\<close>

lemma spectrum_shifted:
  assumes law: "fresnel_lib cv" and m: "vector_ready cv w img"
  shows "\<exists>x c w1 f w2 s w3. lib_dft cv (cimage (ncols img) (ncols img)
        (\<lambda>i j. (img_at (value_of w img) i j, img_at (value_of w img) i j))) DFT_COMPLEX_OUTPUT = Inr x
    \<and> complex_create cv img img mat_default w = Inr (c, w1) \<and> fft2 cv c mat_default w1 = Inr (f, w2) \<and> fftShift cv f f w2 = Inr (s, w3)
    \<and> itype x = CV_64FC2 \<and> irows x = ncols img \<and> icols x = ncols img \<and> 2 \<le> ncols img
    \<and> value_of w3 s = half_turn x \<and> keeps w None w3 \<and> hdr_ok w3 s \<and> mtype s = CV_64FC2 \<and> nrows s = ncols img \<and> ncols s = ncols img
    \<and> mstep s = rowlen s"
proof -
  have sq: "square w img" "mtype img = CV_64FC1" "mcols img \<le> 2 ^ 24" "lib_optDFTSize cv (mcols img) = mcols img"
    using m by (simp_all add: vector_ready_def)
  have ok: "hdr_ok w img" "2 \<le> mcols img" "mrows img = mcols img" using sq(1) by (auto simp: square_def)
  have sz: "nrows img = ncols img" "2 \<le> ncols img" using ok by (simp_all add: nrows_def ncols_def)
  have l: "channel_lib cv" "zeros_law cv" "copies_lib cv" using law by (simp_all add: fresnel_lib_def channel_lib_def)
  have "real_pair w img img" using sq(2) sz ok(1) by (simp add: real_pair_def has_pixels_def)
  from complex_create_ok[OF l(1) this out_ok_new] obtain c w1 where
    c: "complex_create cv img img mat_default w = Inr (c, w1)"
    "stored w mat_default (cimage (ncols img) (ncols img) (\<lambda>i j. (img_at (value_of w img) i j, img_at (value_of w img) i j))) c w1"
    using sz(1) by auto
  have cs: "mrows c = mcols img" "mcols c = mcols img" "mtype c = CV_64FC2"
    using storedD[OF c(2)] hdr_ok_sizes[OF storedD(2)[OF c(2)]] hdr_ok_sizes[OF ok(1)] by simp_all
  have "fft_ready cv w1 c"
    using storedD(2)[OF c(2)] cs sq ok by (simp add: fft_ready_def square_def)
  from fft_step[OF law this] obtain x f w2 where
    f: "lib_dft cv (value_of w1 c) DFT_COMPLEX_OUTPUT = Inr x" "fft2 cv c mat_default w1 = Inr (f, w2)"
    "value_of w2 f = x" "fft_ready cv w2 f" "keeps w1 None w2" "mcols f = mcols c" by blast
  note df = fft_readyD[OF f(4)]
  from fftShift_value[OF l(2,3) df(13)] obtain s w3 where
    s: "fftShift cv f f w2 = Inr (s, w3)" "square w3 s" "keeps w2 None w3" "mstep s = rowlen s"
    "value_of w3 s = shift_img ((mcols f + 1) div 2) ((mrows f + 1) div 2) (value_of w2 f)" by blast
  have sv: "value_of w3 s = half_turn x" using s(5) hdr_ok_sizes[OF df(1)] by (simp add: half_turn_def flip: f(3))
  have xs: "itype x = CV_64FC2" "irows x = ncols img" "icols x = ncols img"
    using f(3) df(3,4,6) f(6) cs(2) by (auto simp: ncols_def)
  have ss: "hdr_ok w3 s" "mtype s = CV_64FC2" "nrows s = ncols img" "ncols s = ncols img"
    using s(2) value_of_eqD[OF sv] xs by (simp_all add: square_def half_turn_def)
  have "keeps w None w3" using stored_new[OF c(2)] f(5) s(3) by (meson keeps_trans)
  then show ?thesis using f(1,2) c(1) s(1,4) storedD(1)[OF c(2)] sv xs ss sz(2) by auto
qed

text \<open>Its two channels as one row.\<close>

lemma spectrum_in_a_row:
  assumes law: "split_law cv" "vector_lib cv"
    and s: "hdr_ok w s" "mstep s = rowlen s" "mtype s = CV_64FC2" "value_of w s = v" "0 < nrows s" "0 < ncols s"
  shows "\<exists>p q w4 h w5. lib_reshape cv s 0 1 = Inr (reshaped s 0) \<and> split_into cv (reshaped s 0) [mat_default, mat_default] w = Inr ([p, q], w4)
    \<and> call2 (lib_hconcat cv) p q mat_default w4 = Inr (h, w5) \<and> keeps w None w4
    \<and> stored w4 mat_default (row_img CV_64FC1 (spectrum_vector v)) h w5"
proof -
  let ?r = "reshaped s 0"
  note r = reshaped_ok[OF s(1,2,5,6), of 0] and rv = reshaped_value[OF s(1,2,5,6), of 0]
  have rt: "mtype ?r = CV_64FC2" using s(3) by (simp add: reshaped_def)
  have vs: "itype v = CV_64FC2" "irows v = nrows s" "icols v = ncols s" using s(3,4) by auto
  have rval: "value_of w ?r = \<lparr>itype = CV_64FC2, irows = 1, icols = irows v * icols v, idata = [elems v]\<rparr>"
    using rv rt r(4) vs s(4) by simp
  have re: "lib_reshape cv s 0 1 = Inr ?r"
    using law(2) s(1,2,5,6) by (auto simp: vector_lib_def reshape_law_def nrows_def ncols_def elim!: hdr_okE)
  have "has_pixels w ?r" "nch ?r = 2" using r s(5,6) rt by (simp_all add: has_pixels_def nch_def channels_def)
  with split_new2_ok[OF law(1)] obtain p q w4 where p: "split_into cv ?r [mat_default, mat_default] w = Inr ([p, q], w4)"
    "keeps w None w4" "hdr_ok w4 p" "value_of w4 p = chan_img (value_of w ?r) 0"
    "hdr_ok w4 q" "value_of w4 q = chan_img (value_of w ?r) 1" by blast
  let ?a = "map fst (pixel_list v)" and ?b = "map snd (pixel_list v)"
  have pq: "value_of w4 p = row_img CV_64FC1 ?a" "value_of w4 q = row_img CV_64FC1 ?b"
    using p(4,6) rval chan_row[OF vs(1), of 0] chan_row[OF vs(1), of 1] by simp_all
  have "length (pixel_list v) \<noteq> 0" using vs s(5,6) by (simp add: pixel_list_def)
  then have ne: "?a \<noteq> []" "?b \<noteq> []" by auto
  then have "lib_hconcat cv (value_of w4 p) (value_of w4 q) = Inr (row_img CV_64FC1 (spectrum_vector v))"
    using law(2) pq by (simp add: vector_lib_def hconcat_law_def spectrum_vector_def)
  from call2_ok[where f = "lib_hconcat cv", OF p(3,5) this _ out_ok_new] obtain h w5 where
    "call2 (lib_hconcat cv) p q mat_default w4 = Inr (h, w5)" "stored w4 mat_default (row_img CV_64FC1 (spectrum_vector v)) h w5"
    by auto
  then show ?thesis using re p(1,2) by blast
qed

text \<open>What \<open>vector_lib\<close> says of a function that keeps the shape of a column.\<close>

lemma same_shape_column:
  assumes "same_shape_law f" and "img_ok a" "irows a = n" "0 < n" "icols a = 1" "itype a = CV_64FC1"
  obtains y where "f a = Inr y" "img_ok y" "irows y = n" "icols y = 1" "itype y = CV_64FC1"
  using assms unfolding same_shape_law_def by (metis zero_less_one)

theorem getFFTVector_value:
  assumes law: "fresnel_lib cv" "vector_lib cv" and m: "vector_ready cv w img"
  shows "\<exists>x y z m w'. lib_dft cv (cimage (ncols img) (ncols img)
        (\<lambda>i j. (img_at (value_of w img) i j, img_at (value_of w img) i j))) DFT_COMPLEX_OUTPUT = Inr x
    \<and> lib_log cv (col_img CV_64FC1 (spectrum_vector (half_turn x))) = Inr y
    \<and> lib_normalize cv y (rat_lit (1 / 2)) (rat_lit (- 1 / 2)) = Inr z
    \<and> getFFTVector cv img w = Inr (m, w') \<and> value_of w' m = z \<and> keeps w None w'
    \<and> hdr_ok w' m \<and> itype z = CV_64FC1 \<and> irows z = 2 * (ncols img * ncols img) \<and> icols z = 1"
proof -
  let ?N = "ncols img"
  obtain x c w1 f w2 s w3 where x: "lib_dft cv (cimage ?N ?N (\<lambda>i j. (img_at (value_of w img) i j, img_at (value_of w img) i j))) DFT_COMPLEX_OUTPUT = Inr x"
    and run: "complex_create cv img img mat_default w = Inr (c, w1)" "fft2 cv c mat_default w1 = Inr (f, w2)" "fftShift cv f f w2 = Inr (s, w3)"
    and xs: "irows x = ?N" "icols x = ?N" "2 \<le> ?N"
    and s: "value_of w3 s = half_turn x" "keeps w None w3" "hdr_ok w3 s" "mtype s = CV_64FC2" "nrows s = ?N" "ncols s = ?N" "mstep s = rowlen s"
    using spectrum_shifted[OF law(1) m] by blast
  have sp: "split_law cv" and pos: "0 < nrows s" "0 < ncols s" using law(1) s(5,6) xs(3) by (simp_all add: fresnel_lib_def channel_lib_def)
  let ?v = "spectrum_vector (half_turn x)" and ?n = "2 * (?N * ?N)"
  obtain p q w4 h w5 where h: "lib_reshape cv s 0 1 = Inr (reshaped s 0)" "split_into cv (reshaped s 0) [mat_default, mat_default] w3 = Inr ([p, q], w4)"
    "call2 (lib_hconcat cv) p q mat_default w4 = Inr (h, w5)" "keeps w3 None w4" "stored w4 mat_default (row_img CV_64FC1 ?v) h w5"
    using spectrum_in_a_row[OF sp law(2) s(3,7,4,1) pos] by blast
  have k4: "keeps w None w4" using keeps_trans[OF s(2) h(4)] .
  have k5: "keeps w None w5" using keeps_trans[OF k4 stored_new[OF h(5)]] .
  obtain n where n: "buf_of h = Some n" "length (bufs w) \<le> n"
    using h(5) keeps_length[OF k4] by (auto simp: stored_def mat_default_def intro: order_trans)
  have len: "length ?v = ?n" "0 < ?n" using xs by (simp_all add: spectrum_vector_def pixel_list_def half_turn_def)
  then have "?v \<noteq> []" by fastforce
  then have tr: "lib_transpose cv (value_of w5 h) = Inr (col_img CV_64FC1 ?v)"
    using law(2) storedD(1)[OF h(5)] by (simp add: vector_lib_def transpose_law_def)
  from call1_self[where f = "lib_transpose cv", OF storedD(2)[OF h(5)] tr _ k5 n] obtain t w6 n6 where
    t: "call1 (lib_transpose cv) h h w5 = Inr (t, w6)" "hdr_ok w6 t"
    "value_of w6 t = col_img CV_64FC1 ?v" "keeps w None w6" "buf_of t = Some n6" "length (bufs w) \<le> n6" by auto
  have t6: "irows (value_of w6 t) = ?n" "icols (value_of w6 t) = 1" "itype (value_of w6 t) = CV_64FC1"
    unfolding t(3) using len(1) by (simp_all add: col_img_def)
  let ?f = "\<lambda>v. lib_normalize cv v (rat_lit (1 / 2)) (rat_lit (- 1 / 2))"
  have sh: "same_shape_law (lib_log cv)" "same_shape_law ?f" using law(2) by (simp_all add: vector_lib_def)
  obtain y where y: "lib_log cv (value_of w6 t) = Inr y" "img_ok y" "irows y = ?n" "icols y = 1" "itype y = CV_64FC1"
    by (rule same_shape_column[OF sh(1) value_of_ok t6(1) len(2) t6(2,3)])
  from call1_self[where f = "lib_log cv", OF t(2) y(1,2) t(4,5,6)] obtain g w7 n7 where
    g: "call1 (lib_log cv) t t w6 = Inr (g, w7)" "hdr_ok w7 g" "value_of w7 g = y" "keeps w None w7" "buf_of g = Some n7" "length (bufs w) \<le> n7"
    by auto
  obtain z where z: "?f y = Inr z" "img_ok z" "irows z = ?n" "icols z = 1" "itype z = CV_64FC1"
    by (rule same_shape_column[OF sh(2) y(2,3) len(2) y(4,5)])
  from call1_self[where f = ?f, OF g(2) _ z(2) g(4,5,6)] obtain k w8 n8 where
    k: "call1 ?f g g w7 = Inr (k, w8)" "value_of w8 k = z" "keeps w None w8" "hdr_ok w8 k" using z(1) g(3) by auto
  have "getFFTVector cv img w = Inr (k, w8)"
    unfolding getFFTVector_def using run h(1-3) t(1) g(1) k(1) by simp
  then show ?thesis using x y(1) t(3) z(1,3-5) k(2-4) by auto
qed

subsection \<open>The vector of angles\<close>

definition angle_notes :: "mat \<Rightarrow> msg list" where
  "angle_notes m = [Said ''*********cmplx_vec**********'', MatInfo (mcols m) (mrows m) (depth m) (mtype m)]"

theorem getAngleVector_value:
  assumes law: "vector_lib cv" and m: "has_pixels w a" "mstep a = rowlen a" and big: "2 \<le> nrows a * rowlen a"
  shows "\<exists>z m w'. lib_normalize cv (col_img (CV_MAKETYPE (mtype a) 1) (elems (value_of w a))) (Fin 0)
        (dmul (Fin 2) (rat_lit (314 / 100))) = Inr z
    \<and> getAngleVector cv a w = Inr (m, w') \<and> value_of w' m = z \<and> irows z = nrows a * rowlen a \<and> icols z = 1
    \<and> value_of w' a = value_of w a \<and> messages w' = messages w @ angle_notes (reshaped a 1)"
proof -
  have ok: "hdr_ok w a" and pos: "0 < nrows a" "0 < ncols a" using m by (simp_all add: has_pixels_def)
  let ?r = "reshaped a 1" and ?t = "CV_MAKETYPE (mtype a) 1" and ?xs = "elems (value_of w a)"
  note r = reshaped_ok[OF ok m(2) pos, of 1, simplified] and rv = reshaped_value[OF ok m(2) pos, of 1, simplified]
  define w0 where "w0 = w\<lparr>messages := messages w @ angle_notes ?r\<rparr>"
  have t1: "mtype ?r = ?t" "CV_MAT_CN ?t = 1" by (simp_all add: reshaped_def maketype_cn)
  have len: "length ?xs = nrows a * rowlen a" by (simp add: elems_def)
  have v0: "value_of w0 ?r = row_img ?t ?xs" using rv r(4) t1 len by (simp add: w0_def row_img_def)
  have ne: "?xs \<noteq> []" using len big by fastforce
  then have tr: "lib_transpose cv (value_of w0 ?r) = Inr (col_img ?t ?xs)"
    using law v0 t1(2) by (simp add: vector_lib_def transpose_law_def)
  have ok0: "hdr_ok w0 ?r" "hdr_ok w0 a" using r(1) ok by (simp_all add: w0_def)
  have "nrows ?r = 1" "irows (col_img ?t ?xs) \<noteq> 1" using r(3) len big by (auto simp: col_img_def simp del: One_nat_def)
  then have diff: "mrows ?r \<noteq> int (irows (col_img ?t ?xs))" using hdr_ok_sizes(1)[OF r(1)] by simp
  have "img_ok (col_img ?t ?xs)" using t1(2) by simp
  from put_new_ok[OF this, of w0] obtain h w1 where
    h: "put_out mat_default (col_img ?t ?xs) w0 = Inr (h, w1)" "hdr_ok w1 h" "value_of w1 h = col_img ?t ?xs"
    "keeps w0 None w1" "buf_of h = Some (length (bufs w0))" by metis
  have "put_out ?r (col_img ?t ?xs) w0 = put_out mat_default (col_img ?t ?xs) w0"
    using diff by (simp add: put_out_def create_def) (simp add: mat_default_def)
  then have c: "call1 (lib_transpose cv) ?r ?r w0 = Inr (h, w1)"
    using h(1) tr ok0(1) by (simp add: call1_def fetch_ok)
  let ?f = "\<lambda>v. lib_normalize cv v (Fin 0) (dmul (Fin 2) (rat_lit (314 / 100)))"
  have sz: "irows (col_img ?t ?xs) = nrows a * rowlen a" "icols (col_img ?t ?xs) = 1" using len by (simp_all add: col_img_def)
  have "0 < irows (col_img ?t ?xs)" "0 < icols (col_img ?t ?xs)" unfolding sz using big by linarith+
  then obtain z where z: "?f (col_img ?t ?xs) = Inr z" "img_ok z" "irows z = nrows a * rowlen a" "icols z = 1"
    using law \<open>img_ok (col_img ?t ?xs)\<close> sz unfolding vector_lib_def same_shape_law_def by metis
  from call1_self[where f = ?f, OF h(2) _ z(2) h(4,5)] z(1) h(3) obtain k w2 where
    k: "call1 ?f h h w1 = Inr (k, w2)" "value_of w2 k = z" "keeps w0 None w2" by auto
  have "lib_reshape cv a 1 1 = Inr ?r"
    using law ok m(2) pos by (auto simp: vector_lib_def reshape_law_def nrows_def ncols_def elim!: hdr_okE)
  then have "getAngleVector cv a w = Inr (k, w2)"
    using c k(1) by (simp add: getAngleVector_def tell_def printMat_def thenA_def bindA_def w0_def angle_notes_def)
  moreover have "value_of w2 a = value_of w a"
    using keepsD(2)[OF k(3) ok0(2)] hdr_ok_buf[OF ok] by (simp add: w0_def)
  moreover have "messages w2 = messages w @ angle_notes ?r" using keeps_files[OF k(3)] by (simp add: w0_def)
  ultimately show ?thesis using z k(2) by auto
qed

end
