(* ===== verification/TfUtils.thy ===== *)
theory TfUtils
  imports Prelude "HOL-Library.Word" "HOL-Library.Sublist"
begin

text \<open>
  The helpers of jni-native_OLD/jni/jni_utils.cc: telling an asset from a file, reading a message
  from either, and the wall clock in microseconds. Strings are lists of characters without a NUL.
  Opening, sizes and parsing belong to the operating system and to protobuf: the record \<open>asset_lib\<close>.
\<close>

subsection \<open>Assets and files\<close>

text \<open>\<open>strstr\<close>: the offset of the first occurrence.\<close>

fun strstr :: "string \<Rightarrow> string \<Rightarrow> nat option" where
  "strstr [] p = (if p = [] then Some 0 else None)"
| "strstr (c # s) p = (if take (length p) (c # s) = p then Some 0 else map_option Suc (strstr s p))"

definition ASSET_PREFIX :: string where
  "ASSET_PREFIX = ''file:///android_asset/''"

definition IsAsset :: "string \<Rightarrow> bool" where
  "IsAsset filename \<longleftrightarrow> strstr filename ASSET_PREFIX = Some 0"

datatype io_err = CheckFailure

text \<open>A message is a parsed graph; a file or an asset is its bytes.\<close>

record ('fd, 'msg) asset_lib =
  file_bytes :: "string \<Rightarrow> nat list option"
  has_manager :: bool
  asset_bytes :: "string \<Rightarrow> nat list option"
  open_fd :: "string \<Rightarrow> ('fd \<times> nat \<times> nat) option"
  fd_bytes :: "'fd \<Rightarrow> nat list"
  parse_msg :: "nat list \<Rightarrow> 'msg option"

text \<open>The coded streams refuse more than their total bytes limit.\<close>

definition TOTAL_LIMIT :: nat where "TOTAL_LIMIT = 1024 * 2 ^ 20"
definition DEFAULT_LIMIT :: nat where "DEFAULT_LIMIT = 64 * 1024 * 1024"

definition limited_parse :: "('fd, 'msg) asset_lib \<Rightarrow> nat \<Rightarrow> nat \<Rightarrow> nat list \<Rightarrow> 'msg option" where
  "limited_parse lib limit skipped bytes = (if skipped + length bytes \<le> limit then parse_msg lib bytes else None)"

definition PortableReadFileToProto :: "('fd, 'msg) asset_lib \<Rightarrow> string \<Rightarrow> 'msg option" where
  "PortableReadFileToProto lib file_name = (case file_bytes lib file_name of None \<Rightarrow> None
     | Some bytes \<Rightarrow> limited_parse lib TOTAL_LIMIT 0 bytes)"

text \<open>\<open>CHECK(\<dots>)\<close> ends the process when the condition is false.\<close>

definition check_msg :: "'msg option \<Rightarrow> io_err + 'msg" where
  "check_msg r = (case r of None \<Rightarrow> Inl CheckFailure | Some g \<Rightarrow> Inr g)"

definition ReadFileToProtoOrDie :: "('fd, 'msg) asset_lib \<Rightarrow> string \<Rightarrow> io_err + 'msg" where
  "ReadFileToProtoOrDie lib filename =
     (if \<not> IsAsset filename then check_msg (PortableReadFileToProto lib filename)
      else if \<not> has_manager lib then Inl CheckFailure
      else let asset_filename = drop (length ASSET_PREFIX) filename in
        case asset_bytes lib asset_filename of None \<Rightarrow> Inl CheckFailure
        | Some content \<Rightarrow> (case open_fd lib asset_filename of
            Some (fd, start, len) \<Rightarrow>
              let bytes = drop start (take (start + len) (fd_bytes lib fd)) in
              if len < DEFAULT_LIMIT then check_msg (parse_msg lib bytes)
              else check_msg (limited_parse lib TOTAL_LIMIT start bytes)
          | None \<Rightarrow> check_msg (parse_msg lib content)))"

lemma strstr_0: "strstr s p = Some 0 \<longleftrightarrow> prefix p s"
proof (cases s)
  case Nil
  then show ?thesis by (cases p) auto
next
  case (Cons c t)
  have "take (length p) (c # t) = p \<longleftrightarrow> prefix p (c # t)"
    by (metis append_take_drop_id prefix_def append_eq_conv_conj)
  then show ?thesis using Cons by auto
qed

lemma IsAsset_prefix: "IsAsset f \<longleftrightarrow> prefix ASSET_PREFIX f"
  by (simp add: IsAsset_def strstr_0)

text \<open>An asset whose descriptor gives its bytes inside the package file is read the same from
  the descriptor as from memory; a path that is no asset never reaches the asset manager.\<close>

definition honest_assets :: "('fd, 'msg) asset_lib \<Rightarrow> bool" where
  "honest_assets lib \<longleftrightarrow> (\<forall>f fd start len. open_fd lib f = Some (fd, start, len) \<longrightarrow>
     asset_bytes lib f = Some (drop start (take (start + len) (fd_bytes lib fd))) \<and> start + len \<le> length (fd_bytes lib fd))"

lemma ReadFile_asset:
  assumes h: "honest_assets lib" and m: "has_manager lib" and b: "asset_bytes lib f = Some bytes" and g: "parse_msg lib bytes = Some g"
    and small: "\<And>fd start len. open_fd lib f = Some (fd, start, len) \<Longrightarrow> start + len \<le> TOTAL_LIMIT"
  shows "ReadFileToProtoOrDie lib (ASSET_PREFIX @ f) = Inr g"
proof (cases "open_fd lib f")
  case None
  then show ?thesis using b g m by (simp add: ReadFileToProtoOrDie_def IsAsset_prefix check_msg_def)
next
  case (Some e)
  then obtain fd start len where e: "open_fd lib f = Some (fd, start, len)" by (cases e) auto
  then have h': "asset_bytes lib f = Some (drop start (take (start + len) (fd_bytes lib fd)))" "start + len \<le> length (fd_bytes lib fd)"
    using h unfolding honest_assets_def by blast+
  have bs: "bytes = drop start (take (start + len) (fd_bytes lib fd))" using h'(1) b by simp
  then have "length bytes = len" using h'(2) by simp
  then show ?thesis using e b g m small[OF e] bs
    by (simp add: ReadFileToProtoOrDie_def IsAsset_prefix check_msg_def limited_parse_def Let_def)
qed

lemma ReadFile_plain:
  assumes "\<not> prefix ASSET_PREFIX f"
  shows "ReadFileToProtoOrDie lib f = (case file_bytes lib f of None \<Rightarrow> Inl CheckFailure
    | Some bytes \<Rightarrow> if length bytes \<le> TOTAL_LIMIT then check_msg (parse_msg lib bytes) else Inl CheckFailure)"
  using assms by (simp add: ReadFileToProtoOrDie_def IsAsset_prefix PortableReadFileToProto_def limited_parse_def check_msg_def
      split: option.splits)

subsection \<open>The wall clock\<close>

text \<open>
  \<open>return tv.tv_sec * 1000000 + tv.tv_usec\<close>: on the ABI of the build (armeabi-v7a) \<open>long\<close> has 32
  bits, and so have the product and the sum; only the result is widened to 64 bits.
\<close>

definition CurrentWallTimeUs :: "32 word \<Rightarrow> 32 word \<Rightarrow> 64 word" where
  "CurrentWallTimeUs tv_sec tv_usec = scast (tv_sec * 1000000 + tv_usec)"

lemma sint_widen: "signed_take_bit 63 (sint (x :: 32 word)) = sint x"
  by (simp add: sint_uint signed_take_bit_signed_take_bit min_def)

lemma sint_ring: "sint ((x :: 32 word) * y + z) = signed_take_bit 31 (sint x * sint y + sint z)"
proof -
  have "x * y + z = word_of_int (sint x * sint y + sint z)" by (simp add: wi_hom_syms)
  moreover have "sint (word_of_int e :: 32 word) = signed_take_bit 31 e" for e by (subst sint_sbintrunc') simp
  ultimately show ?thesis by (simp only:)
qed

lemma CurrentWallTimeUs_sint: "sint (CurrentWallTimeUs s u) = signed_take_bit 31 (sint s * 1000000 + sint u)"
proof -
  have "sint (CurrentWallTimeUs s u) = signed_take_bit 63 (sint (s * 1000000 + u))"
    unfolding CurrentWallTimeUs_def by transfer simp
  then show ?thesis using sint_ring[of s 1000000 u] by (simp add: sint_widen)
qed

text \<open>The result is the time exactly as long as it is below 2^31 microseconds (36 minutes after 1970).\<close>

lemma CurrentWallTimeUs_exact:
  assumes "0 \<le> sint s" and "0 \<le> sint u" "sint u < 1000000"
  shows "sint (CurrentWallTimeUs s u) = sint s * 1000000 + sint u \<longleftrightarrow> sint s * 1000000 + sint u < 2 ^ 31"
proof
  assume "sint (CurrentWallTimeUs s u) = sint s * 1000000 + sint u"
  then have "sint s * 1000000 + sint u = signed_take_bit 31 (sint s * 1000000 + sint u)"
    using CurrentWallTimeUs_sint[of s u] by simp
  moreover have "signed_take_bit 31 (sint s * 1000000 + sint u) < 2 ^ 31"
    using signed_take_bit_int_less_exp[of 31 "sint s * 1000000 + sint u"] by simp
  ultimately show "sint s * 1000000 + sint u < 2 ^ 31" by simp
next
  assume "sint s * 1000000 + sint u < 2 ^ 31"
  then show "sint (CurrentWallTimeUs s u) = sint s * 1000000 + sint u"
    using assms CurrentWallTimeUs_sint[of s u] by (simp add: signed_take_bit_int_eq_self)
qed

end
