(* ===== verification/TfSession.thy ===== *)
theory TfSession
  imports ImageOps TfUtils
begin

text \<open>
  The neural network, jni-native_OLD/jni/jni_tensorflow.cc: loading the graph once (\<open>init\<close>, a state
  machine on the global session and flag), running it on a column of 4096 values and normalising
  the 48 results (\<open>process\<close>). TensorFlow's session is the record \<open>tf_lib\<close>; a session without a graph
  is \<open>Some None\<close>, the null pointer \<open>None\<close>.
\<close>

subsection \<open>The code\<close>

definition NUM_OUTPUT :: nat where "NUM_OUTPUT = 48"
definition NUM_INPUT :: nat where "NUM_INPUT = 4096"

record ('fd, 'g) tf_lib =
  assets :: "('fd, 'g) asset_lib"
  tf_create :: "'g \<Rightarrow> bool"
  tf_run :: "'g option \<Rightarrow> (string \<times> fp list) list \<Rightarrow> string list \<Rightarrow> bool \<times> fp list list"

record 'g tf_state =
  session :: "'g option option"
  g_compute_graph_initialized :: bool

definition init :: "('fd, 'g) tf_lib \<Rightarrow> string \<Rightarrow> 'g tf_state \<Rightarrow> io_err + (int \<times> 'g tf_state)" where
  "init lib model st = (if g_compute_graph_initialized st then Inr (0, st)
     else let st = st\<lparr>session := Some None\<rparr> in
       case ReadFileToProtoOrDie (assets lib) model of Inl e \<Rightarrow> Inl e
       | Inr graph_def \<Rightarrow> if \<not> tf_create lib graph_def then Inr (- 1, st)
         else Inr (0, st\<lparr>session := Some (Some graph_def), g_compute_graph_initialized := True\<rparr>))"

text \<open>\<open>inputMat.at<double>(i, 0)\<close>, NaN replaced by 0, to \<open>float\<close>.\<close>

definition input_value :: "mat \<Rightarrow> nat \<Rightarrow> fp cvact" where
  "input_value inputMat i = bindA (load inputMat i 0) (\<lambda>value.
     retA (fcast binary32 (if \<not> feq value value then Fin 0 else value)))"

definition input_tensor :: "mat \<Rightarrow> fp list cvact" where
  "input_tensor inputMat = fold_each (\<lambda>i xs. bindA (input_value inputMat i) (\<lambda>x. retA (xs @ [x]))) [0..<NUM_INPUT] []"

text \<open>\<open>output_flat(i)\<close>: reading past the tensor is an error.\<close>

definition flat_at :: "fp list \<Rightarrow> nat \<Rightarrow> fp cvact" where
  "flat_at xs i = (if i < length xs then retA (xs ! i) else failA OutOfBounds)"

definition output_step :: "fp list \<Rightarrow> mat \<Rightarrow> nat \<Rightarrow> fp \<times> fp \<Rightarrow> (fp \<times> fp) cvact" where
  "output_step output_flat outputmat i mm =
     bindA (flat_at output_flat i) (\<lambda>x.
     thenA (store outputmat 0 i x)
    (bindA (load outputmat 0 i) (\<lambda>a. let max_value = (if flt (fst mm) a then a else fst mm) in
     bindA (load outputmat 0 i) (\<lambda>b. let min_value = (if flt b (snd mm) then b else snd mm) in
     thenA (tell (Value b)) (retA (max_value, min_value))))))"

definition normalize_step :: "mat \<Rightarrow> fp \<times> fp \<Rightarrow> nat \<Rightarrow> unit cvact" where
  "normalize_step outputmat mm i = bindA (load outputmat 0 i) (\<lambda>x. store outputmat 0 i (ddiv (dsub x (snd mm)) (fst mm)))"

definition process :: "opencv \<Rightarrow> ('fd, 'g) tf_lib \<Rightarrow> 'g option option \<Rightarrow> mat \<Rightarrow> mat cvact" where
  "process cv lib sess inputMat =
     thenA (tell (Said ''*********inputMat**********'')) (thenA (printMat inputMat)
    (bindA (input_tensor inputMat) (\<lambda>tensor. thenA (tell (Said ''Start computing.''))
    (case sess of None \<Rightarrow> failA NullData
     | Some graph \<Rightarrow> let r = tf_run lib graph [(''input'', tensor)] [''output''] in
       thenA (tell (Said ''End computing.''))
      (thenA (if fst r then retA () else tell (Said ''Error during inference:''))
      (thenA (tell (Count ''final output size= '' (int (length (snd r)))))
      (if snd r = [] then failA OutOfBounds
       else bindA (zeros_mat cv 1 48 CV_64F) (\<lambda>outputmat.
         bindA (fold_each (output_step (hd (snd r)) outputmat) [0..<NUM_OUTPUT] (Fin (- 10000000000), Fin 10000000000)) (\<lambda>mm.
         thenA (for_each [0..<NUM_OUTPUT] (normalize_step outputmat mm)) (retA outputmat))))))))))"

subsection \<open>Loading the graph\<close>

text \<open>The calls a program makes, from the initial state; a failed check ends the process.\<close>

definition start_state :: "'g tf_state" where
  "start_state = \<lparr>session = None, g_compute_graph_initialized = False\<rparr>"

inductive loads :: "('fd, 'g) tf_lib \<Rightarrow> 'g tf_state \<Rightarrow> bool" for lib where
  start: "loads lib start_state"
| call: "loads lib st \<Longrightarrow> init lib model st = Inr (r, st') \<Longrightarrow> loads lib st'"

inductive_cases loadsE: "loads lib st"

text \<open>The flag is set exactly when a graph that TensorFlow accepted is in the session.\<close>

definition ready :: "('fd, 'g) tf_lib \<Rightarrow> 'g tf_state \<Rightarrow> bool" where
  "ready lib st \<longleftrightarrow> (\<exists>g. session st = Some (Some g) \<and> tf_create lib g)"

lemma init_result:
  assumes "init lib model st = Inr (r, st')"
  shows "(r = 0 \<and> g_compute_graph_initialized st') \<or> (r = - 1 \<and> \<not> g_compute_graph_initialized st' \<and> session st' = Some None)"
  using assms by (auto simp: init_def Let_def split: if_splits sum.splits)

lemma init_keeps_ready:
  assumes "g_compute_graph_initialized st \<longleftrightarrow> ready lib st" and "init lib model st = Inr (r, st')"
  shows "g_compute_graph_initialized st' \<longleftrightarrow> ready lib st'"
  using assms by (auto simp: init_def Let_def ready_def split: if_splits sum.splits)

lemma loads_ready: "loads lib st \<Longrightarrow> g_compute_graph_initialized st \<longleftrightarrow> ready lib st"
proof (induction rule: loads.induct)
  case start
  then show ?case by (simp add: start_state_def ready_def)
next
  case (call st model r st')
  then show ?case using init_keeps_ready by blast
qed

text \<open>Once loaded, a further call returns 0 and changes nothing; a failed one may be repeated.\<close>

lemma init_idempotent: "g_compute_graph_initialized st \<Longrightarrow> init lib model st = Inr (0, st)"
  by (simp add: init_def)

lemma init_retry:
  assumes "init lib bad st = Inr (- 1, st')" and "ReadFileToProtoOrDie (assets lib) good = Inr g" and "tf_create lib g"
  shows "init lib good st' = Inr (0, \<lparr>session = Some (Some g), g_compute_graph_initialized = True\<rparr>)"
  using init_result[OF assms(1)] assms(2,3) by (simp add: init_def Let_def)

subsection \<open>Running the network\<close>

text \<open>What a run of the loops knows of the image \<open>m\<close>, and of the others.\<close>

definition apart :: "world \<Rightarrow> mat \<Rightarrow> world \<Rightarrow> bool" where
  "apart w m v \<longleftrightarrow> (\<forall>x. hdr_ok w x \<longrightarrow> hdr_ok v x \<and> (buf_of x \<noteq> buf_of m \<longrightarrow> value_of v x = value_of w x))"

lemma apart_trans: "apart u m v \<Longrightarrow> apart v m w \<Longrightarrow> apart u m w"
  unfolding apart_def by metis

lemma apart_log [simp]: "apart w m (v\<lparr>messages := s\<rparr>) = apart w m v"
  by (simp add: apart_def)

lemma cell_log [simp]: "cell (v\<lparr>messages := s\<rparr>) m i k = cell v m i k"
  by (simp add: cell_def split: option.splits)

lemma store_row:
  assumes ok: "hdr_ok v m" "depth m = CV_64F" and r: "0 < nrows m" "j < rowlen m"
  shows "\<exists>v1. store m 0 j x v = Inr ((), v1) \<and> hdr_ok v1 m \<and> apart v m v1
    \<and> (\<forall>l < rowlen m. cell v1 m 0 l = (if l = j then x else cell v m 0 l))"
proof -
  obtain v1 where s: "store m 0 j x v = Inr ((), v1)" "updated v m {(0, j)} (\<lambda>_ _. x) v1"
    using updated_store[OF updated_none ok(1) _ ok(2) r refl, of "\<lambda>_ _. x"] by auto
  have "{(0, j)} \<subseteq> places (nrows m) (rowlen m)" using r by simp
  from updated_other_place[OF s(2) ok(1) this r(1)] updated_cell[OF s(2)]
  have "\<forall>l < rowlen m. cell v1 m 0 l = (if l = j then x else cell v m 0 l)" by auto
  moreover have "apart v m v1" using updated_keeps[OF s(2)] by (simp add: apart_def keeps_def)
  ultimately show ?thesis using s updated_hdr_ok[OF s(2) ok(1)] by blast
qed

definition run_max :: "fp list \<Rightarrow> fp" where
  "run_max xs = foldl (\<lambda>m a. if flt m a then a else m) (Fin (- 10000000000)) xs"

definition run_min :: "fp list \<Rightarrow> fp" where
  "run_min xs = foldl (\<lambda>m b. if flt b m then b else m) (Fin 10000000000) xs"

definition normalized :: "fp list \<Rightarrow> fp list" where
  "normalized xs = map (\<lambda>x. ddiv (dsub x (run_min xs)) (run_max xs)) xs"

definition tensor_of :: "world \<Rightarrow> mat \<Rightarrow> fp list" where
  "tensor_of w m = map (\<lambda>i. fcast binary32 (if \<not> feq (cell w m i 0) (cell w m i 0) then Fin 0 else cell w m i 0)) [0..<NUM_INPUT]"

definition network_input :: "world \<Rightarrow> mat \<Rightarrow> bool" where
  "network_input w m \<longleftrightarrow> hdr_ok w m \<and> depth m = CV_64F \<and> NUM_INPUT \<le> nrows m \<and> 0 < ncols m"

lemma input_tensor_ok:
  assumes "network_input w m"
  shows "input_tensor m w = Inr (tensor_of w m, w)"
proof -
  have rl: "0 < rowlen m" using assms by (simp add: network_input_def rowlen_def)
  have one: "input_value m i w = Inr (fcast binary32 (if \<not> feq (cell w m i 0) (cell w m i 0) then Fin 0 else cell w m i 0), w)"
    if "i < NUM_INPUT" for i
    using assms that rl load_ok[of w m i 0] by (simp add: network_input_def input_value_def)
  have "\<exists>y t. fold_each (\<lambda>i xs. bindA (input_value m i) (\<lambda>x. retA (xs @ [x]))) [0..<NUM_INPUT] [] w = Inr (y, t)
      \<and> y = map (\<lambda>i. fcast binary32 (if \<not> feq (cell w m i 0) (cell w m i 0) then Fin 0 else cell w m i 0)) [0..<NUM_INPUT] \<and> t = w"
    by (rule fold_each_inv[of "\<lambda>k y t. y = map (\<lambda>i. fcast binary32 (if \<not> feq (cell w m i 0) (cell w m i 0) then Fin 0 else cell w m i 0)) [0..<k] \<and> t = w"])
      (simp_all add: one)
  then show ?thesis by (auto simp: input_tensor_def tensor_of_def)
qed

text \<open>Both loops on the output row.\<close>

lemma output_loop:
  assumes ok: "hdr_ok w m" "depth m = CV_64F" and r: "0 < nrows m" "NUM_OUTPUT \<le> rowlen m" and xs: "NUM_OUTPUT \<le> length xs"
  shows "\<exists>v. fold_each (output_step xs m) [0..<NUM_OUTPUT] (Fin (- 10000000000), Fin 10000000000) w
      = Inr ((run_max (take NUM_OUTPUT xs), run_min (take NUM_OUTPUT xs)), v)
    \<and> hdr_ok v m \<and> apart w m v \<and> (\<forall>j < NUM_OUTPUT. cell v m 0 j = xs ! j)"
proof -
  let ?P = "\<lambda>k mm v. mm = (run_max (take k xs), run_min (take k xs)) \<and> hdr_ok v m \<and> apart w m v \<and> (\<forall>j < k. cell v m 0 j = xs ! j)"
  have "\<exists>z t'. output_step xs m k mm v = Inr (z, t') \<and> ?P (Suc k) z t'" if k: "k < NUM_OUTPUT" and P: "?P k mm v" for k mm v
  proof -
    have kl: "k < length xs" "k < rowlen m" using k xs r by simp_all
    have okv: "hdr_ok v m" using P by blast
    obtain v1 where s: "store m 0 k (xs ! k) v = Inr ((), v1)" "hdr_ok v1 m" "apart v m v1"
      "\<forall>l < rowlen m. cell v1 m 0 l = (if l = k then xs ! k else cell v m 0 l)"
      using store_row[OF okv ok(2) r(1) kl(2), of "xs ! k"] by blast
    have ld: "load m 0 k v1 = Inr (xs ! k, v1)"
      using load_ok[OF s(2) ok(2) r(1) kl(2)] s(4) kl(2) by simp
    have mx: "run_max (take (Suc k) xs) = (if flt (run_max (take k xs)) (xs ! k) then xs ! k else run_max (take k xs))"
      "run_min (take (Suc k) xs) = (if flt (xs ! k) (run_min (take k xs)) then xs ! k else run_min (take k xs))"
      using kl(1) by (simp_all add: run_max_def run_min_def take_Suc_conv_app_nth)
    have "output_step xs m k mm v = Inr ((run_max (take (Suc k) xs), run_min (take (Suc k) xs)),
        v1\<lparr>messages := messages v1 @ [Value (xs ! k)]\<rparr>)"
      using s(1) ld kl(1) mx P by (simp add: output_step_def flat_at_def Let_def tell_def thenA_def bindA_def)
    moreover have "\<forall>j < Suc k. cell v1 m 0 j = xs ! j" using s(4) P kl(2) by (auto simp: less_Suc_eq)
    moreover have "apart w m v1" using P s(3) apart_trans by blast
    ultimately show ?thesis using s(2) by simp
  qed
  from fold_each_inv[of ?P "(Fin (- 10000000000), Fin 10000000000)" w NUM_OUTPUT "output_step xs m", OF _ this]
  show ?thesis using ok(1) by (fastforce simp: run_max_def run_min_def apart_def)
qed

lemma normalize_loop:
  assumes ok: "hdr_ok w m" "depth m = CV_64F" and r: "0 < nrows m" "NUM_OUTPUT \<le> rowlen m"
  shows "\<exists>v. for_each [0..<NUM_OUTPUT] (normalize_step m (mx, mn)) w = Inr ((), v) \<and> hdr_ok v m \<and> apart w m v
    \<and> (\<forall>j < NUM_OUTPUT. cell v m 0 j = ddiv (dsub (cell w m 0 j) mn) mx)"
proof -
  let ?P = "\<lambda>k v. hdr_ok v m \<and> apart w m v
    \<and> (\<forall>j < rowlen m. cell v m 0 j = (if j < k then ddiv (dsub (cell w m 0 j) mn) mx else cell w m 0 j))"
  have "\<exists>t'. normalize_step m (mx, mn) k v = Inr ((), t') \<and> ?P (Suc k) t'" if k: "k < NUM_OUTPUT" and P: "?P k v" for k v
  proof -
    have kl: "k < rowlen m" using k r by simp
    have okv: "hdr_ok v m" using P by blast
    have ld: "load m 0 k v = Inr (cell w m 0 k, v)" using load_ok[OF okv ok(2) r(1) kl] P kl by simp
    obtain v1 where s: "store m 0 k (ddiv (dsub (cell w m 0 k) mn) mx) v = Inr ((), v1)" "hdr_ok v1 m" "apart v m v1"
      "\<forall>l < rowlen m. cell v1 m 0 l = (if l = k then ddiv (dsub (cell w m 0 k) mn) mx else cell v m 0 l)"
      using store_row[OF okv ok(2) r(1) kl] by blast
    have "apart w m v1" using P s(3) apart_trans by blast
    then show ?thesis using s ld P by (simp add: normalize_step_def less_Suc_eq)
  qed
  from for_each_inv[of ?P w NUM_OUTPUT "normalize_step m (mx, mn)", OF _ this]
  show ?thesis using ok(1) r(2) by (fastforce simp: apart_def)
qed

lemma process_value:
  assumes z: "zeros_law cv" and m: "network_input w m" and run: "tf_run lib graph [(''input'', tensor_of w m)] [''output''] = (ok, xs # rest)"
    and xs: "NUM_OUTPUT \<le> length xs"
  shows "\<exists>o_i w'. process cv lib (Some graph) m w = Inr (o_i, w') \<and> hdr_ok w' o_i
    \<and> value_of w' o_i = \<lparr>itype = CV_64F, irows = 1, icols = NUM_OUTPUT, idata = [normalized (take NUM_OUTPUT xs)]\<rparr>
    \<and> (\<forall>y. hdr_ok w y \<longrightarrow> value_of w' y = value_of w y)"
proof -
  let ?said = "\<lambda>w ms. w\<lparr>messages := messages w @ ms\<rparr>"
  define u where "u = ?said w ([Said ''*********inputMat**********'', MatInfo (mcols m) (mrows m) (depth m) (mtype m),
    Said ''Start computing.'', Said ''End computing.''] @ (if ok then [] else [Said ''Error during inference:''])
    @ [Count ''final output size= '' (int (length (xs # rest)))])"
  have tens: "input_tensor m (?said w ms) = Inr (tensor_of w m, ?said w ms)" for ms
  proof -
    have "network_input (?said w ms) m" using m by (simp add: network_input_def)
    from input_tensor_ok[OF this] show ?thesis by (simp add: tensor_of_def)
  qed
  obtain o_i w1 where o: "zeros_mat cv 1 48 CV_64F u = Inr (o_i, w1)" "hdr_ok w1 o_i"
    "value_of w1 o_i = const_img CV_64F (nat 1) (nat 48) (Fin 0)" "keeps u None w1" "buf_of o_i = Some (length (bufs u))"
    by (rule zeros_mat_ok[OF z, of 1 48 CV_64F u]) simp_all
  have t: "mtype o_i = CV_64F" "nrows o_i = 1" "ncols o_i = 48" using value_of_eqD[OF o(3)] by simp_all
  have cn: "CV_MAT_CN CV_64F = 1" "CV_MAT_DEPTH CV_64F = CV_64F" by (simp_all add: CV_64F_def CV_MAT_CN_div CV_MAT_DEPTH_mod)
  have rl: "rowlen o_i = 48" "depth o_i = CV_64F" using t cn by (simp_all add: rowlen_def nch_def channels_def depth_def)
  have r: "0 < nrows o_i" "NUM_OUTPUT \<le> rowlen o_i" using t rl by (simp_all add: NUM_OUTPUT_def)
  obtain w2 where l: "fold_each (output_step xs o_i) [0..<NUM_OUTPUT] (Fin (- 10000000000), Fin 10000000000) w1
      = Inr ((run_max (take NUM_OUTPUT xs), run_min (take NUM_OUTPUT xs)), w2)"
    "hdr_ok w2 o_i" "apart w1 o_i w2" "\<forall>j < NUM_OUTPUT. cell w2 o_i 0 j = xs ! j"
    using output_loop[OF o(2) rl(2) r xs] by blast
  obtain w3 where n: "for_each [0..<NUM_OUTPUT] (normalize_step o_i (run_max (take NUM_OUTPUT xs), run_min (take NUM_OUTPUT xs))) w2 = Inr ((), w3)"
    "hdr_ok w3 o_i" "apart w2 o_i w3"
    "\<forall>j < NUM_OUTPUT. cell w3 o_i 0 j = ddiv (dsub (cell w2 o_i 0 j) (run_min (take NUM_OUTPUT xs))) (run_max (take NUM_OUTPUT xs))"
    using normalize_loop[OF l(2) rl(2) r] by blast
  have "process cv lib (Some graph) m w = Inr (o_i, w3)"
    using run o(1) l(1) n(1) tens[of "[Said ''*********inputMat**********'', MatInfo (mcols m) (mrows m) (depth m) (mtype m)]"]
    by (simp add: process_def tell_def printMat_def thenA_def bindA_def Let_def u_def split: if_splits)
  moreover have "value_of w3 o_i = \<lparr>itype = CV_64F, irows = 1, icols = NUM_OUTPUT, idata = [normalized (take NUM_OUTPUT xs)]\<rparr>"
  proof -
    have "map (cell w3 o_i 0) [0..<NUM_OUTPUT] = normalized (take NUM_OUTPUT xs)"
      by (rule nth_equalityI) (use n(4) l(4) xs in \<open>auto simp: normalized_def\<close>)
    then show ?thesis using t rl by (simp add: value_of_def NUM_OUTPUT_def)
  qed
  moreover have "value_of w3 y = value_of w y" if y: "hdr_ok w y" for y
  proof -
    have uy: "hdr_ok u y" "value_of u y = value_of w y" using y by (simp_all add: u_def)
    have "buf_of y \<noteq> buf_of o_i" "buf_of y \<noteq> None" using hdr_ok_buf[OF uy(1)] o(5) by auto
    then show ?thesis using keepsD[OF o(4) uy(1)] l(3) n(3) uy(2) unfolding apart_def by metis
  qed
  ultimately show ?thesis using n(2) by blast
qed

text \<open>Without a session, and with a run that gave no output, there is nothing to read.\<close>

lemma process_no_session: "network_input w m \<Longrightarrow> process cv lib None m w = Inl NullData"
proof -
  assume m: "network_input w m"
  then have "network_input (w\<lparr>messages := ms\<rparr>) m" for ms by (simp add: network_input_def)
  from input_tensor_ok[OF this] show ?thesis
    by (simp add: process_def tell_def printMat_def thenA_def bindA_def)
qed

lemma process_no_output:
  assumes m: "network_input w m" and run: "\<And>t. snd (tf_run lib graph [(''input'', t)] [''output'']) = []"
  shows "process cv lib (Some graph) m w = Inl OutOfBounds"
proof -
  have "network_input (w\<lparr>messages := ms\<rparr>) m" for ms using m by (simp add: network_input_def)
  from input_tensor_ok[OF this] show ?thesis
    using run by (simp add: process_def tell_def printMat_def thenA_def bindA_def Let_def)
qed

text \<open>The results are divided by the maximum, not by the range: with results -2 and -1 the
  normalised values are 0 and -1.\<close>

lemma normalized_negative: "normalized (Fin (- 2) # replicate 47 (Fin (- 1))) = Fin 0 # replicate 47 (Fin (- 1))"
proof -
  have rep: "foldl (\<lambda>m a. if flt m a then a else m) (Fin (- 1)) (replicate n (Fin (- 1))) = Fin (- 1)"
    "foldl (\<lambda>m b. if flt b m then b else m) (Fin (- 2)) (replicate n (Fin (- 1))) = Fin (- 2)" for n
    by (induction n) simp_all
  have mx: "run_max (Fin (- 2) # replicate 47 (Fin (- 1))) = Fin (- 1)"
  proof -
    have "replicate 47 (Fin (- 1)) = Fin (- 1) # replicate 46 (Fin (- 1))" by (simp add: numeral_eq_Suc)
    then show ?thesis using rep(1)[of 46] by (simp add: run_max_def)
  qed
  have mn: "run_min (Fin (- 2) # replicate 47 (Fin (- 1))) = Fin (- 2)"
    using rep(2)[of 47] by (simp add: run_min_def)
  have i: "rnd binary64 (of_int n) = Fin (of_int n)" if "\<bar>n\<bar> \<le> 2 ^ 53" for n
    using dbl.rnd_of_int[of n] that by simp
  have "ddiv (dsub (Fin (- 2)) (Fin (- 2))) (Fin (- 1)) = Fin 0" using i[of 0] by simp
  moreover have "ddiv (dsub (Fin (- 1)) (Fin (- 2))) (Fin (- 1)) = Fin (- 1)" using i[of 1] i[of "- 1"] by simp
  ultimately show ?thesis by (simp add: normalized_def mx mn)
qed

end
