(* ===== verification/NativeBridge.thy ===== *)
theory NativeBridge
  imports QDpc IllParameter TfSession
begin

text \<open>
  The functions the Java side calls, jni-native/jni/common.cpp and jni-native_OLD/jni/jni_tensorflow.cc.
  An image is passed as the address of its \<open>cv::Mat\<close>; the Java objects behind the addresses are the
  partial map \<open>mats\<close>, and an address without an object is an invalid pointer.
\<close>

subsection \<open>The code\<close>

record 'g native =
  mats :: "int \<Rightarrow> mat option"
  wld :: world
  tf :: "'g tf_state"

type_synonym ('g, 'a) nact = "(err, 'g native, 'a) act"

definition in_world :: "'a cvact \<Rightarrow> ('g, 'a) nact" where
  "in_world f s = (case f (wld s) of Inl e \<Rightarrow> Inl e | Inr (x, w) \<Rightarrow> Inr (x, s\<lparr>wld := w\<rparr>))"

definition deref :: "int \<Rightarrow> ('g, mat) nact" where
  "deref a s = (case mats s a of None \<Rightarrow> Inl NullData | Some m \<Rightarrow> Inr (m, s))"

definition assign :: "int \<Rightarrow> mat \<Rightarrow> ('g, unit) nact" where
  "assign a m s = (case mats s a of None \<Rightarrow> Inl NullData | Some _ \<Rightarrow> Inr ((), s\<lparr>mats := (mats s)(a \<mapsto> m)\<rparr>))"

definition log_line :: "string \<Rightarrow> ('g, unit) nact" where
  "log_line t = in_world (tell (Said t))"

definition NativePart_qDPC :: "opencv \<Rightarrow> libm \<Rightarrow> int \<Rightarrow> int \<Rightarrow> int \<Rightarrow> int \<Rightarrow> int \<Rightarrow> int \<Rightarrow> int \<Rightarrow> int \<Rightarrow> int \<Rightarrow> ('g, unit) nact" where
  "NativePart_qDPC cv lm addrI11 addrI12 addrI21 addrI22 addrTrans1 addrTrans2 addrOutputMat addrDiffX addrDiffY =
     thenA (log_line ''*********start QPDC**********'') (thenA (log_line ''*********Variables Assigned**********'')
    (bindA (deref addrI11) (\<lambda>i11. bindA (deref addrI12) (\<lambda>i12. bindA (deref addrI21) (\<lambda>i21. bindA (deref addrI22) (\<lambda>i22.
     bindA (deref addrTrans1) (\<lambda>t1. bindA (deref addrTrans2) (\<lambda>t2.
     bindA (in_world (qDPC cv lm i11 i12 i21 i22 t1 t2)) (\<lambda>r. thenA (assign addrOutputMat r)
    (bindA (deref addrI11) (\<lambda>i11. bindA (deref addrI12) (\<lambda>i12.
     bindA (in_world (calcDPC cv i11 i12)) (\<lambda>r. thenA (assign addrDiffX r)
    (bindA (deref addrI21) (\<lambda>i21. bindA (deref addrI22) (\<lambda>i22.
     bindA (in_world (calcDPC cv i21 i22)) (\<lambda>r. thenA (assign addrDiffY r)
    (log_line ''*********Done**********''))))))))))))))))))"

definition NativePart_getFFTVector :: "opencv \<Rightarrow> int \<Rightarrow> int \<Rightarrow> ('g, unit) nact" where
  "NativePart_getFFTVector cv addrInputMat addrOutputMat =
     thenA (log_line ''*********start getFFTVector**********'')
    (bindA (deref addrInputMat) (\<lambda>m. bindA (in_world (getFFTVector cv m)) (assign addrOutputMat)))"

definition NativePart_getAngleVector :: "opencv \<Rightarrow> int \<Rightarrow> int \<Rightarrow> ('g, unit) nact" where
  "NativePart_getAngleVector cv addrInputMat addrOutputMat =
     thenA (log_line ''*********start getAngleVector**********'')
    (bindA (deref addrInputMat) (\<lambda>m. bindA (in_world (getAngleVector cv m)) (assign addrOutputMat)))"

definition NativePart_init :: "('fd, 'g) tf_lib \<Rightarrow> string \<Rightarrow> ('g, int) nact" where
  "NativePart_init lib model s = (case init lib model (tf s) of Inl _ \<Rightarrow> Inl CheckFailed
     | Inr (r, st) \<Rightarrow> Inr (r, s\<lparr>tf := st\<rparr>))"

definition NativePart_getOptimizedParams :: "opencv \<Rightarrow> ('fd, 'g) tf_lib \<Rightarrow> int \<Rightarrow> int \<Rightarrow> ('g, unit) nact" where
  "NativePart_getOptimizedParams cv lib addrInputMat addrOutputMat =
     thenA (log_line ''*********start Illparameter**********'')
    (bindA (deref addrInputMat) (\<lambda>m. thenA (in_world (printMat m))
    (bindA (\<lambda>s. in_world (process cv lib (session (tf s)) m) s) (assign addrOutputMat))))"

subsection \<open>From an image to the parameters\<close>

lemma in_world_Inr: "f (wld s) = Inr (x, w) \<Longrightarrow> in_world f s = Inr (x, s\<lparr>wld := w\<rparr>)"
  and in_world_Inl: "f (wld s) = Inl e \<Longrightarrow> in_world f s = Inl e"
  by (simp_all add: in_world_def)

text \<open>The values the network gets: the first 4096 elements of a column.\<close>

definition column_tensor :: "img \<Rightarrow> fp list" where
  "column_tensor z = map (\<lambda>i. fcast binary32 (if \<not> feq (img_at z i 0) (img_at z i 0) then Fin 0 else img_at z i 0)) [0..<NUM_INPUT]"

lemma tensor_of_column:
  assumes "hdr_ok w m" and "NUM_INPUT \<le> nrows m" and "0 < rowlen m"
  shows "tensor_of w m = column_tensor (value_of w m)"
  unfolding tensor_of_def column_tensor_def using assms(2,3) by (intro map_cong) (simp_all add: img_at_value_of)

definition logged :: "world \<Rightarrow> msg list \<Rightarrow> world" where
  "logged w ms = w\<lparr>messages := messages w @ ms\<rparr>"

lemma logged_simps [simp]: "hdr_ok (logged w ms) m = hdr_ok w m" "value_of (logged w ms) m = value_of w m"
  "square (logged w ms) m = square w m" "vector_ready cv (logged w ms) m = vector_ready cv w m"
  by (simp_all add: logged_def square_def vector_ready_def)

lemma log_line_run: "log_line t s = Inr ((), s\<lparr>wld := logged (wld s) [Said t]\<rparr>)"
  by (simp add: log_line_def in_world_def tell_def logged_def)

text \<open>
  A square real image at address \<open>a\<close> becomes the vector at \<open>b\<close>: the column of the logarithm of its
  spectrum. The image itself is unchanged.
\<close>

lemma getFFTVector_call:
  assumes law: "fresnel_lib cv" "vector_lib cv" and a: "mats s a = Some img" and b: "mats s b \<noteq> None"
    and r: "vector_ready cv (wld s) img"
  shows "\<exists>x y z m s'. lib_dft cv (cimage (ncols img) (ncols img)
        (\<lambda>i j. (img_at (value_of (wld s) img) i j, img_at (value_of (wld s) img) i j))) DFT_COMPLEX_OUTPUT = Inr x
    \<and> lib_log cv (col_img CV_64FC1 (spectrum_vector (half_turn x))) = Inr y
    \<and> lib_normalize cv y (rat_lit (1 / 2)) (rat_lit (- 1 / 2)) = Inr z
    \<and> NativePart_getFFTVector cv a b s = Inr ((), s') \<and> mats s' = (mats s)(b \<mapsto> m) \<and> tf s' = tf s
    \<and> hdr_ok (wld s') m \<and> value_of (wld s') m = z \<and> value_of (wld s') img = value_of (wld s) img
    \<and> itype z = CV_64FC1 \<and> irows z = 2 * (ncols img * ncols img) \<and> icols z = 1"
proof -
  let ?w = "logged (wld s) [Said ''*********start getFFTVector**********'']"
  have "vector_ready cv ?w img" using r by simp
  from getFFTVector_value[OF law this] obtain x y z m w' where
    x: "lib_dft cv (cimage (ncols img) (ncols img)
        (\<lambda>i j. (img_at (value_of (wld s) img) i j, img_at (value_of (wld s) img) i j))) DFT_COMPLEX_OUTPUT = Inr x"
      "lib_log cv (col_img CV_64FC1 (spectrum_vector (half_turn x))) = Inr y"
      "lib_normalize cv y (rat_lit (1 / 2)) (rat_lit (- 1 / 2)) = Inr z"
    and f: "getFFTVector cv img ?w = Inr (m, w')" "value_of w' m = z" "keeps ?w None w'" "hdr_ok w' m"
    and z: "itype z = CV_64FC1" "irows z = 2 * (ncols img * ncols img)" "icols z = 1"
    unfolding logged_simps by blast
  have "hdr_ok ?w img" using r by (simp add: vector_ready_def square_def)
  then have "value_of w' img = value_of (wld s) img" using keepsD(2)[OF f(3)] hdr_ok_buf by fastforce
  moreover have "NativePart_getFFTVector cv a b s = Inr ((), s\<lparr>wld := w', mats := (mats s)(b \<mapsto> m)\<rparr>)"
    using a b f(1) by (auto simp: NativePart_getFFTVector_def log_line_run deref_def in_world_def assign_def thenA_def bindA_def)
  ultimately show ?thesis using x f(2,4) z by (intro exI conjI) (assumption | simp)+
qed

lemma getOptimizedParams_call:
  assumes law: "zeros_law cv" and a: "mats s a = Some m" and b: "mats s b \<noteq> None" and t: "session (tf s) = Some graph"
    and m: "network_input (wld s) m"
    and run: "tf_run lib graph [(''input'', column_tensor (value_of (wld s) m))] [''output''] = (ok, xs # rest)" and xs: "NUM_OUTPUT \<le> length xs"
  shows "\<exists>o_i s'. NativePart_getOptimizedParams cv lib a b s = Inr ((), s') \<and> mats s' = (mats s)(b \<mapsto> o_i)
    \<and> value_of (wld s') o_i = \<lparr>itype = CV_64F, irows = 1, icols = NUM_OUTPUT, idata = [normalized (take NUM_OUTPUT xs)]\<rparr>"
proof -
  let ?w = "logged (wld s) [Said ''*********start Illparameter**********'', MatInfo (mcols m) (mrows m) (depth m) (mtype m)]"
  have ni: "network_input ?w m" using m by (simp add: network_input_def)
  then have "tensor_of ?w m = column_tensor (value_of (wld s) m)"
    using tensor_of_column[of ?w m] by (simp add: network_input_def rowlen_def)
  then obtain o_i w' where p: "process cv lib (Some graph) m ?w = Inr (o_i, w')"
    "value_of w' o_i = \<lparr>itype = CV_64F, irows = 1, icols = NUM_OUTPUT, idata = [normalized (take NUM_OUTPUT xs)]\<rparr>"
    using process_value[OF law ni _ xs] run by metis
  have "NativePart_getOptimizedParams cv lib a b s = Inr ((), s\<lparr>wld := w', mats := (mats s)(b \<mapsto> o_i)\<rparr>)"
    using a b t p(1)
    by (auto simp: NativePart_getOptimizedParams_def log_line_run deref_def in_world_def assign_def printMat_def tell_def logged_def thenA_def bindA_def)
  then show ?thesis using p(2) by (intro exI conjI) (assumption | simp)+
qed

end
