(* ===== verification/FastSqrt.thy ===== *)
theory FastSqrt
  imports Fp
begin

text \<open>
  \<open>fastSqrt\<close> of jni-native/jni/cvComplex.cpp: Newton's iteration for the square root, run until
  two successive doubles are equal. The loop is a partial function into \<open>option\<close>: \<open>None\<close> is a
  call that never returns.

  The proof works on the integer grid of the binade the iteration lives in: with unit \<open>u\<close>,
  argument \<open>X * u\<close> and iterate \<open>Y * u\<close>, one round of the loop is \<open>nstep D Y\<close> for \<open>D = X / u\<close>,
  two roundings to even of integer quotients. The \<open>nstep\<close> lemmas hold for every \<open>D\<close>; the
  iteration can only cycle between \<open>P\<close> and \<open>P + 1\<close> when \<open>2 * D = P * (2 * P + 3)\<close> with \<open>P\<close> even,
  which no double reaches, because \<open>D\<close> is a multiple of \<open>2 ^ 52\<close>.
\<close>

subsection \<open>The code\<close>

partial_function (option) fastSqrt_loop :: "fp \<Rightarrow> fp \<Rightarrow> fp \<Rightarrow> fp option" where
  "fastSqrt_loop x y z =
     (if \<not> feq y z
      then fastSqrt_loop x (fdiv binary64 (fadd binary64 y (fdiv binary64 x y)) (Fin 2)) y
      else Some y)"

definition fastSqrt :: "int \<Rightarrow> fp \<Rightarrow> fp option" where
  "fastSqrt u x = (if fle x (Fin 0) then Some (Fin 0)
     else let (x1, e1) = frexp u x;
              (x2, e2) = (if odd e1 then (fmul binary64 x1 (Fin 2), e1 - 1) else (x1, e1));
              y = fdiv binary64 (fadd binary64 (Fin 1) x2) (Fin 2)
          in map_option (\<lambda>y. ldexp binary64 y (c_div e2 2)) (fastSqrt_loop x2 y (Fin 0)))"

subsection \<open>One round on the integer grid\<close>

definition nr :: "int \<Rightarrow> int \<Rightarrow> int" where
  "nr D Y = rne (of_int D / of_int Y)"

definition nstep :: "int \<Rightarrow> int \<Rightarrow> int" where
  "nstep D Y = rne (of_int (Y + nr D Y) / 2)"

lemma of_int_mult_le: "n * Y \<le> D \<Longrightarrow> of_int n * of_int Y \<le> (of_int D :: rat)"
  by (metis of_int_le_iff of_int_mult)

lemma nr_ge: "0 < Y \<Longrightarrow> n * Y \<le> D \<Longrightarrow> n \<le> nr D Y"
  unfolding nr_def using of_int_mult_le[of n Y D] by (intro rne_ge) (simp add: pos_le_divide_eq)

lemma nr_le: "0 < Y \<Longrightarrow> D \<le> n * Y \<Longrightarrow> nr D Y \<le> n"
  unfolding nr_def
  by (intro rne_le) (simp add: pos_divide_le_eq, metis of_int_le_iff of_int_mult)

lemma nr_gt_half:
  assumes "0 < Y" and "(2 * n - 1) * Y < 2 * D"
  shows "n \<le> nr D Y"
proof -
  have "(of_int ((2 * n - 1) * Y) :: rat) < of_int (2 * D)"
    using assms(2) by (simp only: of_int_less_iff)
  then have "(2 * of_int n - 1) * of_int Y < (2 * of_int D :: rat)" by simp
  then have "(of_int n - 1 / 2 :: rat) < of_int D / of_int Y"
    using assms(1) by (simp add: field_simps)
  then show ?thesis unfolding nr_def by (rule rne_gt_half)
qed

lemma nr_geD:
  assumes "0 < Y" and "n \<le> nr D Y"
  shows "(2 * n - 1) * Y \<le> 2 * D"
proof -
  have "of_int (nr D Y) - 1 / 2 \<le> (of_int D / of_int Y :: rat)"
    using rne_err[of "of_int D / of_int Y"] unfolding nr_def by linarith
  moreover have "(of_int n :: rat) \<le> of_int (nr D Y)" using assms(2) by simp
  ultimately have "of_int n - 1 / 2 \<le> (of_int D / of_int Y :: rat)" by linarith
  then have "(2 * of_int n - 1) * of_int Y \<le> (2 * of_int D :: rat)"
    using assms(1) by (simp add: field_simps)
  then have "(of_int ((2 * n - 1) * Y) :: rat) \<le> of_int (2 * D)" by simp
  then show ?thesis by (simp only: of_int_le_iff)
qed

lemma half_le:
  assumes "m \<le> 2 * n"
  shows "rne (of_int m / 2) \<le> n"
proof (rule rne_le)
  have "(of_int m :: rat) \<le> of_int (2 * n)" using assms by (simp only: of_int_le_iff)
  then show "of_int m / 2 \<le> (of_int n :: rat)" by simp
qed

lemma half_ge:
  assumes "2 * n \<le> m"
  shows "n \<le> rne (of_int m / 2)"
proof (rule rne_ge)
  have "(of_int (2 * n) :: rat) \<le> of_int m" using assms by (simp only: of_int_le_iff)
  then show "of_int n \<le> (of_int m / 2 :: rat)" by simp
qed

lemma half_up: "2 * n + 1 \<le> m \<Longrightarrow> odd n \<Longrightarrow> n + 1 \<le> rne (of_int m / 2)"
proof (cases "m = 2 * n + 1")
  case True
  assume "odd n"
  then show ?thesis using True rne_half_odd[of m] by simp
next
  case False
  assume "2 * n + 1 \<le> m"
  with False show ?thesis by (intro half_ge) simp
qed

lemma half_upD:
  assumes "n + 1 \<le> rne (of_int m / 2)"
  shows "2 * n + 2 \<le> m \<or> (m = 2 * n + 1 \<and> odd n)"
proof (cases "m \<le> 2 * n")
  case True
  with half_le[OF this] assms show ?thesis by simp
next
  case False
  then consider "m = 2 * n + 1" | "2 * n + 2 \<le> m" by linarith
  then show ?thesis
  proof cases
    case 1
    then show ?thesis using assms rne_half_odd[of m] by (auto split: if_splits)
  qed simp
qed

subsection \<open>Newton's iteration on the grid, around \<open>P = floor (sqrt D)\<close>\<close>

lemma nstep_le:
  assumes "0 < P" "D < (P + 1) * (P + 1)" "P + 1 \<le> Y"
  shows "nstep D Y \<le> Y"
proof -
  have "(P + 1) * (P + 1) \<le> Y * Y" using assms by (intro mult_mono) auto
  then have "nr D Y \<le> Y" using assms by (intro nr_le) auto
  then show ?thesis unfolding nstep_def by (intro half_le) simp
qed

lemma nstep_ge:
  assumes "0 < P" "P * P \<le> D" "P \<le> Y"
  shows "P \<le> nstep D Y"
proof -
  have "0 \<le> (P - Y) * (P - Y)" by simp
  then have "(2 * P - Y) * Y \<le> P * P" by (simp add: algebra_simps)
  then have "2 * P - Y \<le> nr D Y" using assms by (intro nr_ge) auto
  then show ?thesis unfolding nstep_def by (intro half_ge) simp
qed

lemma nstep_P_le:
  assumes "0 < P" "D < (P + 1) * (P + 1)"
  shows "nstep D P \<le> P + 1"
proof -
  have "nr D P \<le> P + 2" using assms by (intro nr_le) (auto simp: algebra_simps)
  then show ?thesis unfolding nstep_def by (intro half_le) simp
qed

text \<open>If the iteration leaves \<open>P\<close> upwards, it never comes back to it.\<close>

lemma nstep_stays_above:
  assumes P: "0 < P" and D: "P * P \<le> D"
    and up: "P + 1 \<le> nstep D P" and Y: "P + 1 \<le> Y"
    and no_tie: "\<not> (even P \<and> 2 * D = P * (2 * P + 3))"
  shows "P + 1 \<le> nstep D Y"
proof -
  define k where "k = Y - P"
  have k: "1 \<le> k" "Y = P + k" using Y by (auto simp: k_def)
  from half_upD[of P "P + nr D P"] up
  have "P + 2 \<le> nr D P \<or> (nr D P = P + 1 \<and> odd P)" by (auto simp: nstep_def)
  then show ?thesis
  proof
    assume r: "nr D P = P + 1 \<and> odd P"
    then have "(2 * (P + 1) - 1) * P \<le> 2 * D" using P by (intro nr_geD) auto
    then have d: "2 * (P * P) + P \<le> 2 * D" by (simp add: algebra_simps)
    have "1 * k \<le> k * k" using k by (intro mult_right_mono) auto
    moreover have "(2 * (P - k + 1) - 1) * (P + k) = 2 * (P * P) + P + k - 2 * (k * k)"
      by (simp add: algebra_simps)
    ultimately have "(2 * (P - k + 1) - 1) * (P + k) < 2 * D" using d k by linarith
    then have "P - k + 1 \<le> nr D Y" using P k by (intro nr_gt_half) auto
    then show ?thesis unfolding nstep_def using r k by (intro half_up) auto
  next
    assume r: "P + 2 \<le> nr D P"
    then have "(2 * (P + 2) - 1) * P \<le> 2 * D" using P by (intro nr_geD) auto
    then have d: "2 * (P * P) + 3 * P \<le> 2 * D" by (simp add: algebra_simps)
    show ?thesis
    proof (cases "k = 1")
      case False
      then have k2: "2 \<le> k" using k by simp
      then have "2 * k \<le> k * k" by (intro mult_right_mono) auto
      moreover have "(2 * (P - k + 2) - 1) * (P + k) = 2 * (P * P) + 3 * P + 3 * k - 2 * (k * k)"
        by (simp add: algebra_simps)
      ultimately have "(2 * (P - k + 2) - 1) * (P + k) < 2 * D" using d k2 by linarith
      then have "P - k + 2 \<le> nr D Y" using P k by (intro nr_gt_half) auto
      then show ?thesis unfolding nstep_def using k by (intro half_ge) auto
    next
      case True
      then have Yv: "Y = P + 1" using k by simp
      show ?thesis
      proof (cases "even P")
        case False
        have "P * (P + 1) \<le> D" using d P by (simp add: algebra_simps)
        then have "P \<le> nr D Y" using P Yv by (intro nr_ge) (auto simp: algebra_simps)
        then show ?thesis unfolding nstep_def using False Yv by (intro half_up) auto
      next
        case True
        with no_tie d have "2 * (P * P) + 3 * P < 2 * D" by (simp add: algebra_simps less_le)
        moreover have "even (2 * (P * P) + 3 * P)" using True by simp
        ultimately have "2 * (P * P) + 3 * P + 2 \<le> 2 * D" by presburger
        then have "(2 * (P + 1) - 1) * (P + 1) < 2 * D" by (simp add: algebra_simps)
        then have "P + 1 \<le> nr D Y" using P Yv by (intro nr_gt_half) auto
        then show ?thesis unfolding nstep_def using Yv by (intro half_ge) auto
      qed
    qed
  qed
qed

lemma nstep_fixpoint_near:
  assumes P: "2 \<le> P" and D: "D < (P + 1) * (P + 1)" and Y: "P \<le> Y" and stop: "nstep D Y = Y"
  shows "Y \<le> P + 1"
proof (rule ccontr)
  assume "\<not> Y \<le> P + 1"
  then have y: "P + 1 \<le> Y - 1" by simp
  have "Y - 1 \<le> nr D Y"
  proof (rule ccontr)
    assume "\<not> Y - 1 \<le> nr D Y"
    then have "Y + nr D Y \<le> 2 * (Y - 1)" by simp
    then have "nstep D Y \<le> Y - 1" unfolding nstep_def by (rule half_le)
    with stop show False by simp
  qed
  then have "(2 * (Y - 1) - 1) * Y \<le> 2 * D" using P Y by (intro nr_geD) auto
  moreover have "(P + 1) * (P + 1) \<le> (Y - 1) * (Y - 1)" using y P by (intro mult_mono) auto
  ultimately show False using D y P by (simp add: algebra_simps)
qed

subsection \<open>One round of the loop in doubles\<close>

text \<open>
  \<open>gridv k Y\<close> is the double \<open>Y * 2 ^ (k - 52)\<close>; for \<open>2 ^ 52 \<le> Y \<le> 2 ^ 53\<close> these are the doubles of
  the binade \<open>[2 ^ k, 2 ^ (k + 1)]\<close>.
\<close>

definition gridv :: "int \<Rightarrow> int \<Rightarrow> rat" where
  "gridv k Y = of_int Y * pow2 (k - 52)"

lemma gridv_range:
  assumes "2 ^ 52 \<le> Y" and "Y \<le> 2 ^ 53"
  shows "pow2 k \<le> gridv k Y \<and> gridv k Y \<le> pow2 (k + 1)"
proof -
  have 1: "pow2 52 = of_int (2 ^ 52)" "pow2 53 = of_int (2 ^ 53)" by (simp_all add: pow2_nat)
  have "pow2 52 \<le> of_int Y" "of_int Y \<le> pow2 53"
    unfolding 1 using assms by (simp_all only: of_int_le_iff)
  then have "pow2 52 * pow2 (k - 52) \<le> gridv k Y" "gridv k Y \<le> pow2 53 * pow2 (k - 52)"
    unfolding gridv_def by (auto intro!: mult_right_mono)
  then show ?thesis by (simp add: pow2_add[symmetric] add.commute)
qed

lemma gridv_inj [simp]: "gridv k Y = gridv k Z \<longleftrightarrow> Y = Z"
  by (simp add: gridv_def)

lemma gridv_pos: "0 < Y \<Longrightarrow> 0 < gridv k Y"
  by (simp add: gridv_def)

lemma rnd_on_grid:
  assumes k: "- 1022 \<le> k" "k < 1023" and t: "2 ^ 52 \<le> t" "t \<le> 2 ^ 53"
  shows "rnd binary64 (t * pow2 (k - 52)) = Fin (gridv k (rne t))"
proof -
  have p: "(2 ^ 52 :: rat) = pow2 52" "(2 ^ 53 :: rat) = pow2 53" by (simp_all add: pow2_def)
  have "pow2 52 * pow2 (k - 52) \<le> t * pow2 (k - 52)" "t * pow2 (k - 52) \<le> pow2 53 * pow2 (k - 52)"
    using t unfolding p by (auto intro!: mult_right_mono)
  then have "pow2 k \<le> t * pow2 (k - 52)" "t * pow2 (k - 52) \<le> pow2 (k + 1)"
    by (simp_all add: pow2_add[symmetric] add.commute)
  from dbl.rnd_grid[OF _ _ this] k show ?thesis by (simp add: gridv_def)
qed

lemma rnd_gridv:
  assumes k: "- 1022 \<le> k" "k < 1023" and "\<bar>Y\<bar> \<le> 2 ^ 53"
  shows "rnd binary64 (gridv k Y) = Fin (gridv k Y)"
proof (rule dbl.rnd_exact)
  show "gridv k Y = of_int Y * pow2 (k - 52)" by (simp add: gridv_def)
  have "(of_int \<bar>Y\<bar> :: rat) \<le> of_int (2 ^ 53)" using assms(3) by (simp only: of_int_le_iff)
  also have "\<dots> = pow2 53" by (simp add: pow2_nat)
  finally have "of_int \<bar>Y\<bar> * pow2 (k - 52) \<le> pow2 53 * pow2 (k - 52)" by (rule mult_right_mono) simp
  then have "\<bar>gridv k Y\<bar> \<le> pow2 (k + 1)" by (simp add: gridv_def abs_mult pow2_add[symmetric] add.commute)
  also have "\<dots> < pow2 (emax binary64 + 1)" using k by simp
  finally show "\<bar>gridv k Y\<bar> < pow2 (emax binary64 + 1)" .
qed (use assms in simp_all)

lemma half_sum:
  assumes k: "- 1000 \<le> k" "k < 1000" and s: "2 ^ 53 \<le> S" "S \<le> 2 ^ 54"
  shows "fdiv binary64 (rnd binary64 (gridv k S)) (Fin 2) = Fin (gridv k (rne (of_int S / 2)))"
proof -
  have "(2 ^ 53 :: rat) \<le> of_int S" "of_int S \<le> (2 ^ 54 :: rat)"
    using s of_int_le_iff[of "2 ^ 53" S, where 'a = rat] of_int_le_iff[of S "2 ^ 54", where 'a = rat]
    by simp_all
  moreover have "gridv k S = of_int S / 2 * pow2 (k + 1 - 52)"
    using pow2_add[of 1 "k - 52"] by (simp add: gridv_def algebra_simps)
  ultimately have 1: "rnd binary64 (gridv k S) = Fin (gridv (k + 1) (rne (of_int S / 2)))"
    using k rnd_on_grid[of "k + 1" "of_int S / 2"] by (simp del: times_divide_eq_left)
  define n where "n = rne (of_int S / 2)"
  have "n \<le> 2 ^ 53" "0 \<le> n" unfolding n_def using s by (auto intro!: half_le half_ge)
  moreover have "gridv (k + 1) n / 2 = gridv k n"
    using pow2_add[of 1 "k - 52"] by (simp add: gridv_def algebra_simps)
  ultimately show ?thesis
    using k unfolding 1 n_def[symmetric] by (simp add: rnd_gridv)
qed

text \<open>The argument is \<open>X * 2 ^ (k - 52)\<close>, so that \<open>D = X * 2 ^ (52 - k)\<close>.\<close>

lemma loop_step:
  assumes k: "k = - 1 \<or> k = 0" and D: "D = X * 2 ^ nat (52 - k)"
    and Y: "2 ^ 52 \<le> Y" "Y \<le> 2 ^ 53" and Q: "2 ^ 52 * Y \<le> D" "D \<le> 2 ^ 53 * Y"
  shows "fdiv binary64 (fadd binary64 (Fin (gridv k Y))
           (fdiv binary64 (Fin (gridv k X)) (Fin (gridv k Y)))) (Fin 2) = Fin (gridv k (nstep D Y))"
proof -
  have y0: "0 < Y" using Y by simp
  have "gridv k X / gridv k Y = of_int X / of_int Y" by (simp add: gridv_def)
  also have "\<dots> = of_int D / of_int Y * pow2 (k - 52)"
  proof -
    have "of_int D = (of_int X :: rat) * pow2 (52 - k)" using k by (auto simp: D pow2_nat)
    then have "of_int D * pow2 (k - 52) = (of_int X :: rat)"
      by (simp add: mult.assoc pow2_add[symmetric])
    then show ?thesis by simp
  qed
  finally have q: "gridv k X / gridv k Y = of_int D / of_int Y * pow2 (k - 52)" .
  have "(2 ^ 52 :: rat) \<le> of_int D / of_int Y" "of_int D / of_int Y \<le> (2 ^ 53 :: rat)"
    using of_int_mult_le[OF Q(1)] of_int_mult_le[of D 1 "2 ^ 53 * Y"] Q(2) y0
    by (simp_all add: pos_le_divide_eq pos_divide_le_eq)
  then have "rnd binary64 (gridv k X / gridv k Y) = Fin (gridv k (nr D Y))"
    unfolding q nr_def using k by (intro rnd_on_grid) auto
  then have r: "fdiv binary64 (Fin (gridv k X)) (Fin (gridv k Y)) = Fin (gridv k (nr D Y))"
    using gridv_pos[OF y0, of k] by simp
  have "2 ^ 52 \<le> nr D Y" "nr D Y \<le> 2 ^ 53"
    using y0 Q by (auto intro!: nr_ge nr_le)
  then have "fdiv binary64 (rnd binary64 (gridv k (Y + nr D Y))) (Fin 2)
      = Fin (gridv k (rne (of_int (Y + nr D Y) / 2)))"
    using k Y by (intro half_sum) auto
  moreover have "gridv k Y + gridv k (nr D Y) = gridv k (Y + nr D Y)"
    by (simp add: gridv_def algebra_simps)
  ultimately show ?thesis by (simp only: r nstep_def fadd.simps)
qed

subsection \<open>The loop\<close>

text \<open>A descending stretch: above \<open>Q\<close> no round goes up, so the loop stops at a fixed point.\<close>

lemma loop_descends:
  assumes step: "\<And>Y. Q \<le> Y \<Longrightarrow> Y \<le> B \<Longrightarrow>
      fdiv binary64 (fadd binary64 (Fin (gridv k Y)) (fdiv binary64 x (Fin (gridv k Y)))) (Fin 2)
        = Fin (gridv k (g Y))"
    and down: "\<And>Y. Q \<le> Y \<Longrightarrow> Y \<le> B \<Longrightarrow> Q \<le> g Y \<and> g Y \<le> Y"
    and Y: "Q \<le> Y" "Y \<le> B" and z: "feq (Fin (gridv k Y)) z \<Longrightarrow> g Y = Y"
  shows "\<exists>R. fastSqrt_loop x (Fin (gridv k Y)) z = Some (Fin (gridv k R)) \<and> Q \<le> R \<and> R \<le> B \<and> g R = R"
  using Y z
proof (induction "nat (Y - Q)" arbitrary: Y z rule: less_induct)
  case less
  show ?case
  proof (cases "feq (Fin (gridv k Y)) z")
    case True
    then show ?thesis using less.prems by (subst fastSqrt_loop.simps) auto
  next
    case False
    then have unf: "fastSqrt_loop x (Fin (gridv k Y)) z = fastSqrt_loop x (Fin (gridv k (g Y))) (Fin (gridv k Y))"
      using step[OF less.prems(1,2)] by (subst fastSqrt_loop.simps) simp
    show ?thesis
    proof (cases "g Y = Y")
      case True
      then show ?thesis using less.prems by (simp add: unf, subst fastSqrt_loop.simps) auto
    next
      case F: False
      then have "Q \<le> g Y" "g Y < Y" using down[OF less.prems(1,2)] by auto
      moreover have "\<not> feq (Fin (gridv k (g Y))) (Fin (gridv k Y))" using F by simp
      ultimately show ?thesis
        unfolding unf using less.prems by (intro less.hyps) auto
    qed
  qed
qed

lemma no_newton_tie:
  fixes P D :: int
  assumes "0 < P" and "P < 2 ^ 53" and "2 ^ 53 dvd 2 * D"
  shows "2 * D \<noteq> P * (2 * P + 3)"
proof
  assume "2 * D = P * (2 * P + 3)"
  then have "2 ^ 53 dvd P * (2 * P + 3)" using assms(3) by simp
  moreover have "coprime (2 ^ 53) (2 * P + 3)"
    by (rule coprime_power_left_iff[THEN iffD2]) simp
  ultimately have "2 ^ 53 dvd P" by (simp add: coprime_dvd_mult_left_iff)
  then show False using assms(1,2) zdvd_imp_le by force
qed

text \<open>
  From any start \<open>Y0\<close> between \<open>P\<close> and \<open>B\<close> the loop returns \<open>P\<close> or \<open>P + 1\<close>, when the interval is
  inside the binade and one round never leaves it.
\<close>

lemma loop_returns:
  assumes step: "\<And>Y. P \<le> Y \<Longrightarrow> Y \<le> B \<Longrightarrow>
      fdiv binary64 (fadd binary64 (Fin (gridv k Y)) (fdiv binary64 x (Fin (gridv k Y)))) (Fin 2)
        = Fin (gridv k (nstep D Y))"
    and P: "2 \<le> P" "P * P \<le> D" "D < (P + 1) * (P + 1)" "P < 2 ^ 53" and dvd: "2 ^ 53 dvd 2 * D"
    and B: "nstep D P = P + 1 \<Longrightarrow> P + 1 \<le> B" and Y0: "P \<le> Y0" "Y0 \<le> B"
  shows "\<exists>R. fastSqrt_loop x (Fin (gridv k Y0)) (Fin 0) = Some (Fin (gridv k R)) \<and> P \<le> R \<and> R \<le> P + 1"
proof -
  have P0: "0 < P" using P by simp
  have near: "R \<le> P + 1" if "P \<le> R" "nstep D R = R" for R
    using nstep_fixpoint_near P that by blast
  have nz: "\<not> feq (Fin (gridv k Y)) (Fin 0)" if "P \<le> Y" for Y
    using gridv_pos[of Y k] that P0 by simp
  from nstep_ge[OF P0 P(2), of P] nstep_P_le[OF P0 P(3)]
  consider "nstep D P = P" | "nstep D P = P + 1" by force
  then show ?thesis
  proof cases
    case 1
    have "P \<le> nstep D Y \<and> nstep D Y \<le> Y" if "P \<le> Y" for Y
      using nstep_ge[OF P0 P(2) that] nstep_le[OF P0 P(3), of Y] 1 that by (cases "Y = P") auto
    then have "\<exists>R. fastSqrt_loop x (Fin (gridv k Y0)) (Fin 0) = Some (Fin (gridv k R))
        \<and> P \<le> R \<and> R \<le> B \<and> nstep D R = R"
      by (intro loop_descends) (use step Y0 nz[OF Y0(1)] in auto)
    then show ?thesis using near by blast
  next
    case 2
    have up: "P + 1 \<le> nstep D Y \<and> nstep D Y \<le> Y" if "P + 1 \<le> Y" for Y
      using nstep_stays_above[OF P0 P(2) _ that] nstep_le[OF P0 P(3) that] 2
        no_newton_tie[OF P0 P(4) dvd] by auto
    have desc: "\<exists>R. fastSqrt_loop x (Fin (gridv k Y)) z = Some (Fin (gridv k R)) \<and> P + 1 \<le> R \<and> R \<le> B \<and> nstep D R = R"
      if "P + 1 \<le> Y" "Y \<le> B" "\<not> feq (Fin (gridv k Y)) z" for Y z
      by (rule loop_descends) (use step up that in auto)
    show ?thesis
    proof (cases "Y0 = P")
      case False
      with Y0 nz[OF Y0(1)] desc[of Y0 "Fin 0"] near show ?thesis by force
    next
      case True
      have "fastSqrt_loop x (Fin (gridv k Y0)) (Fin 0)
          = fastSqrt_loop x (Fin (gridv k (P + 1))) (Fin (gridv k P))"
        using nz[of P] step[of P] Y0 2 True by (subst fastSqrt_loop.simps) simp
      moreover have "\<not> feq (Fin (gridv k (P + 1))) (Fin (gridv k P))" by simp
      ultimately show ?thesis using desc[of "P + 1" "Fin (gridv k P)"] B[OF 2] near by force
    qed
  qed
qed

subsection \<open>The whole loop for an argument of the grid\<close>

text \<open>
  The facts about \<open>P = floor (sqrt D)\<close> and the upper end \<open>B\<close> of the iteration, with \<open>N\<close> for
  \<open>2 ^ 52\<close>: in the upper binade (\<open>L = N\<close>) the iterates stay below \<open>X\<close>, in the lower one (\<open>L = 2 * N\<close>)
  below \<open>2 * N\<close>.
\<close>

lemma newton_bounds:
  fixes N X P D B L :: int
  assumes N: "2 \<le> N" "N \<le> X" "X < 2 * N" and P: "0 \<le> P" "P * P \<le> D" "D < (P + 1) * (P + 1)"
    and LB: "(L = 2 * N \<and> B = 2 * N) \<or> (L = N \<and> B = X)" and D: "D = X * L"
  shows "N \<le> P" and "P < 2 * N" and "P \<le> B" and "B \<le> 2 * N"
    and "\<And>Y. P \<le> Y \<Longrightarrow> Y \<le> B \<Longrightarrow> N * Y \<le> D \<and> D \<le> 2 * N * Y"
    and "2 * P \<le> L + X" and "L + X \<le> 2 * B"
proof -
  have ND: "N * N \<le> D" using LB N D mult_mono[of N X N L] by auto
  show NP: "N \<le> P"
  proof (rule ccontr)
    assume "\<not> N \<le> P"
    then have "(P + 1) * (P + 1) \<le> N * N" using P(1) by (intro mult_mono) auto
    with P(3) ND show False by simp
  qed
  have DN: "D < (2 * N) * (2 * N)"
    using LB N D mult_strict_mono[of X "2 * N" L "2 * N"] mult_strict_right_mono[of X "2 * N" "2 * N"] by auto
  show P2: "P < 2 * N"
  proof (rule ccontr)
    assume "\<not> P < 2 * N"
    then have "(2 * N) * (2 * N) \<le> P * P" using N by (intro mult_mono) auto
    with P(2) DN show False by simp
  qed
  show PB: "P \<le> B"
  proof (rule ccontr)
    assume n: "\<not> P \<le> B"
    with P2 LB have "L = N" "B = X" by auto
    with n N D have "X * X < P * P" "D \<le> X * X" by (auto intro: mult_strict_mono mult_left_mono)
    with P(2) show False by simp
  qed
  show "B \<le> 2 * N" using LB N by auto
  show "N * Y \<le> D \<and> D \<le> 2 * N * Y" if Y: "P \<le> Y" "Y \<le> B" for Y
  proof (cases "L = 2 * N \<and> B = 2 * N")
    case True
    have "X \<le> P"
    proof (rule ccontr)
      assume "\<not> X \<le> P"
      then have "(P + 1) * (P + 1) \<le> X * X" using P(1) by (intro mult_mono) auto
      also have "\<dots> \<le> D" using True D N by (simp add: mult_left_mono)
      finally show False using P(3) by simp
    qed
    then have "X * (2 * N) \<le> Y * (2 * N)" using Y N by (intro mult_right_mono) auto
    moreover have "N * Y \<le> N * (2 * N)" using Y True N by (intro mult_left_mono) auto
    moreover have "N * (2 * N) \<le> X * (2 * N)" using N by (intro mult_right_mono) auto
    moreover have "D = X * (2 * N)" using True D by simp
    moreover have "Y * (2 * N) = 2 * N * Y" by simp
    ultimately show ?thesis by (intro conjI) linarith+
  next
    case False
    then have LB': "L = N" "B = X" using LB by auto
    have "N * Y \<le> N * X" using Y LB' N by (intro mult_left_mono) auto
    moreover have "N * X \<le> N * (2 * Y)" using Y NP N by (intro mult_left_mono) auto
    moreover have "D = N * X" "N * (2 * Y) = 2 * N * Y" using D LB' by simp_all
    ultimately show ?thesis by (intro conjI) linarith+
  qed
  show "2 * P \<le> L + X"
  proof (rule ccontr)
    assume "\<not> 2 * P \<le> L + X"
    then have "(L + X) * (L + X) < (2 * P) * (2 * P)" using N LB by (intro mult_strict_mono) auto
    also have "\<dots> \<le> 4 * D" using P(2) by simp
    finally have "(L - X) * (L - X) < 0" using D by (simp add: algebra_simps)
    then show False by (simp add: not_less)
  qed
  show "L + X \<le> 2 * B" using LB N by auto
qed

lemma newton_P_below_B:
  fixes N X P D B L :: int
  assumes N: "2 \<le> N" "N \<le> X" "X < 2 * N" and P: "0 < P" "P * P \<le> D" "P \<le> B" "P < 2 * N"
    and LB: "(L = 2 * N \<and> B = 2 * N) \<or> (L = N \<and> B = X)" and D: "D = X * L"
    and up: "nstep D P = P + 1"
  shows "P + 1 \<le> B"
proof (cases "P = X \<and> L = N")
  case False
  with LB P show ?thesis by auto
next
  case True
  then have "X * X \<le> X * N" using P D by simp
  then have "X = N" using N by (simp add: mult_le_cancel_left)
  with True D have "nr D P = P" using P by (simp add: nr_def)
  then have "nstep D P = P" by (simp add: nstep_def)
  with up show ?thesis by simp
qed

lemma int_isqrt_le: "0 \<le> D \<Longrightarrow> int (isqrt (nat D)) * int (isqrt (nat D)) \<le> D"
  using isqrt_bounds[of "nat D"] by (simp add: le_nat_iff)

lemma int_isqrt_less: "0 \<le> D \<Longrightarrow> D < (int (isqrt (nat D)) + 1) * (int (isqrt (nat D)) + 1)"
  using isqrt_bounds[of "nat D"] by (simp add: nat_less_iff algebra_simps)

lemma fastSqrt_loop_grid:
  assumes k: "k = - 1 \<or> k = 0" and X: "2 ^ 52 \<le> X" "X < 2 ^ 53" and D: "D = X * 2 ^ nat (52 - k)"
  shows "\<exists>R. fastSqrt_loop (Fin (gridv k X))
              (fdiv binary64 (fadd binary64 (Fin 1) (Fin (gridv k X))) (Fin 2)) (Fin 0)
            = Some (Fin (gridv k R))
          \<and> 2 ^ 52 \<le> R \<and> R \<le> 2 ^ 53 \<and> (R - 1) * (R - 1) \<le> D \<and> D < (R + 1) * (R + 1)"
proof -
  define N :: int where "N = 2 ^ 52"
  have N2: "2 ^ 53 = 2 * N" "2 \<le> N" by (simp_all add: N_def)
  define P where "P = int (isqrt (nat D))"
  define L :: int where "L = 2 ^ nat (52 - k)"
  define B where "B = (if k = 0 then X else 2 * N)"
  have LB: "(L = 2 * N \<and> B = 2 * N) \<or> (L = N \<and> B = X)" and DL: "D = X * L"
    using k by (auto simp: L_def B_def N_def D)
  have X': "N \<le> X" "X < 2 * N" using X by (simp_all add: N_def)
  have "0 \<le> D" using X by (simp add: D)
  then have P: "P * P \<le> D" "D < (P + 1) * (P + 1)" "0 \<le> P"
    unfolding P_def by (rule int_isqrt_le, rule int_isqrt_less) simp
  note nb = newton_bounds[OF N2(2) X' P(3) P(1) P(2) LB DL]
  have P0: "2 \<le> P" "0 < P" using nb(1) N2 by auto
  have step: "fdiv binary64 (fadd binary64 (Fin (gridv k Y)) (fdiv binary64 (Fin (gridv k X)) (Fin (gridv k Y)))) (Fin 2)
      = Fin (gridv k (nstep D Y))" if "P \<le> Y" "Y \<le> B" for Y
    using loop_step[OF k D, of Y] nb(1,4) nb(5)[OF that] that by (simp add: N_def)
  have dvd: "2 ^ 53 dvd 2 * D" using k by (auto simp: D)
  define Y0 where "Y0 = rne (of_int (L + X) / 2)"
  have Y0: "P \<le> Y0" "Y0 \<le> B"
    unfolding Y0_def by (rule half_ge, rule nb(6)) (rule half_le, rule nb(7))
  have one: "gridv k L = 1" using k by (auto simp: gridv_def L_def pow2_def power_int_minus)
  have "1 + gridv k X = gridv k (L + X)" unfolding one[symmetric] by (simp add: gridv_def algebra_simps)
  moreover have "2 ^ 53 \<le> L + X" "L + X \<le> 2 ^ 54" using LB X' N2 by (auto simp: N_def)
  ultimately have start: "fdiv binary64 (fadd binary64 (Fin 1) (Fin (gridv k X))) (Fin 2) = Fin (gridv k Y0)"
    using k half_sum[of k "L + X"] by (auto simp: Y0_def)
  have PB: "nstep D P = P + 1 \<Longrightarrow> P + 1 \<le> B"
    using newton_P_below_B[OF N2(2) X' P0(2) P(1) nb(3,2) LB DL] .
  from loop_returns[OF step P0(1) P(1,2) _ dvd PB Y0] nb(2) N2
  obtain R where R: "fastSqrt_loop (Fin (gridv k X)) (Fin (gridv k Y0)) (Fin 0) = Some (Fin (gridv k R))"
    "P \<le> R" "R \<le> P + 1" by force
  have "(R - 1) * (R - 1) \<le> P * P" "(P + 1) * (P + 1) \<le> (R + 1) * (R + 1)"
    using R P0 by (auto intro!: mult_mono)
  then have "(R - 1) * (R - 1) \<le> D" "D < (R + 1) * (R + 1)" using P by linarith+
  moreover have "2 ^ 52 \<le> R" "R \<le> 2 ^ 53" using R nb(1,2) N2 by (auto simp: N_def)
  ultimately show ?thesis unfolding start using R(1) by blast
qed

subsection \<open>The function\<close>

text \<open>\<open>frexp\<close> of a positive double: 53 bits of fraction, so a value of the grid \<open>k = - 1\<close>.\<close>

lemma frexp_grid:
  assumes r: "representable binary64 x" and x: "0 < x"
  obtains X e where "frexp u (Fin x) = (Fin (gridv (- 1) X), e)" and "2 ^ 52 \<le> X" and "X < 2 ^ 53"
    and "x = gridv (- 1) X * pow2 e" and "- 1073 \<le> e" and "e \<le> 1024"
proof -
  from r obtain m q where xm: "x = of_int m * pow2 q" and m: "\<bar>m\<bar> \<le> 2 ^ 53"
    and q: "- 1074 \<le> q" and big: "\<bar>x\<bar> < pow2 1024"
    by (elim dbl.representable_form) simp
  define e where "e = ilog2 x + 1"
  from ilog2_bounds[OF x] have l: "pow2 (e - 1) \<le> x" "x < pow2 e" by (simp_all add: e_def)
  have m0: "0 < m" using x xm pow2_pos[of q] by (simp add: zero_less_mult_iff)
  have "1 * pow2 q \<le> of_int m * pow2 q" using m0 by (intro mult_right_mono) simp_all
  then have m1: "pow2 q \<le> x" unfolding xm by simp
  have "pow2 q < pow2 e" using m1 l(2) by linarith
  then have e1: "- 1073 \<le> e" using q by simp
  have "pow2 (e - 1) < pow2 1024" using l(1) big x by linarith
  then have e2: "e \<le> 1024" by simp
  have "(of_int m :: rat) \<le> of_int (2 ^ 53)" using m by (simp only: of_int_le_iff)
  then have "x \<le> pow2 53 * pow2 q" unfolding xm by (intro mult_right_mono) (simp_all add: pow2_nat)
  then have "pow2 (e - 1) \<le> pow2 (53 + q)" using l(1) by (simp add: pow2_add)
  then have eq: "e \<le> q + 54" by simp
  have int: "\<exists>X. x / pow2 e = gridv (- 1) X"
  proof (cases "e \<le> q + 53")
    case True
    have "x / pow2 e = of_int m * pow2 (q + 53 - e) * pow2 (- 53)"
      by (simp add: xm pow2_add[symmetric] pow2_diff[symmetric] mult.assoc) (simp add: pow2_diff)
    also have "\<dots> = gridv (- 1) (m * 2 ^ nat (q + 53 - e))"
      using True by (simp add: gridv_def pow2_nat)
    finally show ?thesis by blast
  next
    case False
    then have "e = q + 54" using eq by simp
    moreover have "x \<le> pow2 (53 + q)" using \<open>x \<le> pow2 53 * pow2 q\<close> by (simp add: pow2_add)
    ultimately have "x = pow2 (e - 1)" using l(1) by (simp add: add.commute)
    then have "x / pow2 e = gridv (- 1) (2 ^ 52)"
      by (simp add: gridv_def pow2_diff[symmetric]) (simp add: pow2_def power_int_minus)
    then show ?thesis by blast
  qed
  then obtain X where X: "x / pow2 e = gridv (- 1) X" by blast
  have xe: "x = gridv (- 1) X * pow2 e" using X by (simp add: field_simps)
  have "pow2 (- 1) \<le> x / pow2 e" "x / pow2 e < 1"
    using l by (simp_all add: pos_le_divide_eq pow2_add[symmetric])
  then have "pow2 52 \<le> of_int X" "of_int X < pow2 53"
    unfolding X gridv_def by (simp_all add: pow2_minus pos_le_divide_eq pow2_diff[symmetric] pow2_add[symmetric])
       (simp_all add: pow2_def power_int_minus)
  then have "(of_int (2 ^ 52) :: rat) \<le> of_int X" "of_int X < (of_int (2 ^ 53) :: rat)"
    by (simp_all add: pow2_def)
  then have XX: "2 ^ 52 \<le> X" "X < 2 ^ 53" by (simp_all only: of_int_le_iff of_int_less_iff)
  have "frexp u (Fin x) = (Fin (gridv (- 1) X), e)"
    using x X by (simp add: e_def Let_def)
  then show ?thesis using that XX xe e1 e2 by blast
qed

lemma relative_error:
  fixes R D :: int and v :: rat
  assumes R: "2 ^ 52 \<le> R" "(R - 1) * (R - 1) \<le> D" "D < (R + 1) * (R + 1)" and v: "0 < v"
  shows "(of_int R * v * (1 - 1 / 2 ^ 52)) ^ 2 \<le> of_int D * v ^ 2
       \<and> of_int D * v ^ 2 \<le> (of_int R * v * (1 + 1 / 2 ^ 52)) ^ 2"
proof -
  define r :: rat where "r = of_int R"
  have "(of_int (2 ^ 52) :: rat) \<le> of_int R" using R(1) by (simp only: of_int_le_iff)
  then have r: "2 ^ 52 \<le> r" by (simp add: r_def)
  have d: "(r - 1) * (r - 1) \<le> of_int D" "of_int D \<le> (r + 1) * (r + 1)"
    using of_int_le_iff[of "(R - 1) * (R - 1)" D, where 'a = rat]
      of_int_le_iff[of D "(R + 1) * (R + 1)", where 'a = rat] R by (simp_all add: r_def)
  have "0 \<le> r * (1 - 1 / 2 ^ 52)" "r * (1 - 1 / 2 ^ 52) \<le> r - 1" "r + 1 \<le> r * (1 + 1 / 2 ^ 52)"
    using r by (simp_all add: field_simps)
  then have "(r * (1 - 1 / 2 ^ 52)) * (r * (1 - 1 / 2 ^ 52)) \<le> (r - 1) * (r - 1)"
    "(r + 1) * (r + 1) \<le> (r * (1 + 1 / 2 ^ 52)) * (r * (1 + 1 / 2 ^ 52))"
    using r by (intro mult_mono; simp)+
  with d have "(r * (1 - 1 / 2 ^ 52)) ^ 2 \<le> of_int D" "of_int D \<le> (r * (1 + 1 / 2 ^ 52)) ^ 2"
    unfolding power2_eq_square by linarith+
  then have "(r * (1 - 1 / 2 ^ 52)) ^ 2 * v ^ 2 \<le> of_int D * v ^ 2"
    "of_int D * v ^ 2 \<le> (r * (1 + 1 / 2 ^ 52)) ^ 2 * v ^ 2"
    by (intro mult_right_mono; simp)+
  then show ?thesis unfolding r_def[symmetric] by (simp only: power_mult_distrib ac_simps)
qed

text \<open>The scaled result is a double again: the square root of a double is never close to the
  ends of the exponent range.\<close>

lemma ldexp_exact:
  assumes "0 \<le> R" "R \<le> 2 ^ 53" and "k = - 1 \<or> k = 0" and h: "- 540 \<le> h" "h \<le> 600"
  shows "ldexp binary64 (Fin (gridv k R)) h = Fin (gridv (k + h) R)"
proof -
  have "gridv k R * pow2 h = gridv (k + h) R"
    by (simp add: gridv_def pow2_add[symmetric] algebra_simps)
  then show ?thesis using assms rnd_gridv[of "k + h" R] by auto
qed

text \<open>The unit in the last place of \<open>r\<close> is \<open>pow2 (ulp_exp binary64 r)\<close>.\<close>

lemma one_ulp:
  assumes R: "2 ^ 52 \<le> R" "R \<le> 2 ^ 53" and D: "(R - 1) * (R - 1) \<le> D" "D < (R + 1) * (R + 1)" and q: "- 1074 \<le> q"
    and r: "r = of_int R * pow2 q" and u: "u = pow2 (ulp_exp binary64 r)"
  shows "(r - u) ^ 2 \<le> of_int D * pow2 q ^ 2" and "of_int D * pow2 q ^ 2 < (r + u) ^ 2"
proof -
  have R': "2 ^ 52 \<le> (of_int R :: rat)" using R(1) by (metis of_int_le_iff of_int_numeral of_int_power)
  have "pow2 (q + 52) \<le> r" using mult_right_mono[OF R', of "pow2 q"] by (simp add: r pow2_add pow2_nat mult.commute)
  moreover from this have r0: "0 < r" using pow2_pos[of "q + 52"] by linarith
  note b = ilog2_bounds[OF r0]
  ultimately have "pow2 (q + 52) < pow2 (ilog2 r + 1)" using b by linarith
  then have il: "q + 52 \<le> ilog2 r" by simp
  then have ue: "ulp_exp binary64 r = ilog2 r - 52" using q r0 by (simp add: ulp_exp_def)
  have v: "pow2 q \<le> u" unfolding u ue using il by simp
  have "u \<le> pow2 (ilog2 r)" unfolding u ue by simp
  then have ur: "u \<le> r" using b by linarith
  have "(r - u) ^ 2 \<le> (r - pow2 q) ^ 2" using v ur by (intro power_mono) linarith+
  also have "\<dots> = of_int ((R - 1) * (R - 1)) * pow2 q ^ 2" by (simp add: r power2_eq_square algebra_simps)
  also have "\<dots> \<le> of_int D * pow2 q ^ 2" using D(1) by (intro mult_right_mono) (simp_all only: of_int_le_iff zero_le_power2)
  finally show "(r - u) ^ 2 \<le> of_int D * pow2 q ^ 2" .
  have "of_int D * pow2 q ^ 2 < of_int ((R + 1) * (R + 1)) * pow2 q ^ 2"
    using D(2) by (intro mult_strict_right_mono) (simp_all only: of_int_less_iff zero_less_power pow2_pos)
  also have "\<dots> = (r + pow2 q) ^ 2" by (simp add: r power2_eq_square algebra_simps)
  also have "\<dots> \<le> (r + u) ^ 2" using v r0 by (intro power_mono) simp_all
  finally show "of_int D * pow2 q ^ 2 < (r + u) ^ 2" .
qed

text \<open>
  C7. \<open>fastSqrt\<close> of cvComplex.cpp returns for every positive double, subnormal or normal, and the
  square root lies within one unit in the last place of the result, and within \<open>2 ^ (- 52)\<close> of it
  relatively. The comment "yes, we CAN compare doubles here" is right.
\<close>

theorem fastSqrt_correct:
  assumes "representable binary64 x" and "0 < x"
  shows "\<exists>r. fastSqrt u (Fin x) = Some (Fin r) \<and> 0 < r
       \<and> (r - pow2 (ulp_exp binary64 r)) ^ 2 \<le> x \<and> x < (r + pow2 (ulp_exp binary64 r)) ^ 2
       \<and> (r * (1 - 1 / 2 ^ 52)) ^ 2 \<le> x \<and> x \<le> (r * (1 + 1 / 2 ^ 52)) ^ 2"
proof -
  from frexp_grid[OF assms, of u] obtain X e where fx: "frexp u (Fin x) = (Fin (gridv (- 1) X), e)"
    and X: "2 ^ 52 \<le> X" "X < 2 ^ 53" and xe: "x = gridv (- 1) X * pow2 e"
    and e: "- 1073 \<le> e" "e \<le> 1024" .
  define k :: int where "k = (if odd e then 0 else - 1)"
  define e2 where "e2 = (if odd e then e - 1 else e)"
  define h where "h = e2 div 2"
  have k: "k = - 1 \<or> k = 0" by (simp add: k_def)
  have ev: "even e2" by (simp add: e2_def)
  then have e2h: "e2 = 2 * h" by (simp add: h_def)
  have h: "- 540 \<le> h" "h \<le> 600" using e e2h by (auto simp: e2_def split: if_splits)
  have g2: "gridv (- 1) X * 2 = gridv 0 X"
    using pow2_add[of "- 53" 1] by (simp add: gridv_def mult.assoc)
  have "(if odd e then (fmul binary64 (Fin (gridv (- 1) X)) (Fin 2), e - 1) else (Fin (gridv (- 1) X), e))
      = (Fin (gridv k X), e2)"
    using X rnd_gridv[of 0 X] by (simp add: k_def e2_def g2)
  then have fs: "fastSqrt u (Fin x) = map_option (\<lambda>y. ldexp binary64 y (c_div e2 2))
      (fastSqrt_loop (Fin (gridv k X)) (fdiv binary64 (fadd binary64 (Fin 1) (Fin (gridv k X))) (Fin 2)) (Fin 0))"
    using assms(2) by (simp add: fastSqrt_def fle_def fx Let_def del: fadd.simps fmul.simps frexp.simps)
  define D where "D = X * 2 ^ nat (52 - k)"
  from fastSqrt_loop_grid[OF k X D_def] obtain R where
    lp: "fastSqrt_loop (Fin (gridv k X)) (fdiv binary64 (fadd binary64 (Fin 1) (Fin (gridv k X))) (Fin 2)) (Fin 0)
       = Some (Fin (gridv k R))" and R: "2 ^ 52 \<le> R" "R \<le> 2 ^ 53"
    and RD: "(R - 1) * (R - 1) \<le> D" "D < (R + 1) * (R + 1)" by blast
  define v where "v = pow2 (k + h - 52)"
  have "fastSqrt u (Fin x) = Some (Fin (of_int R * v))"
    using fs lp ldexp_exact[OF _ R(2) k h] R ev by (simp add: c_div_even h_def gridv_def v_def)
  moreover have "x = of_int D * v ^ 2"
  proof -
    have "gridv (- 1) X * pow2 e = gridv k X * pow2 e2"
      using g2 pow2_add[of "e - 1" 1] by (simp add: k_def e2_def)
    moreover have "of_int D = of_int X * pow2 (52 - k)" using k by (auto simp: D_def pow2_nat)
    ultimately show ?thesis
      by (simp add: xe v_def gridv_def power2_eq_square e2h mult.assoc pow2_add[symmetric])
  qed
  moreover have "0 < of_int R * v" using R by (simp add: v_def)
  moreover have "- 1074 \<le> k + h - 52" using k h by linarith
  ultimately show ?thesis using relative_error[OF R(1) RD, of v] one_ulp[OF R RD _ refl refl, of "k + h - 52"] by (auto simp: v_def)
qed

lemma representable_of_int: "\<bar>m\<bar> \<le> 2 ^ 53 \<Longrightarrow> representable binary64 (of_int m)"
  by (simp add: representable_def dbl.rnd_of_int)

theorem fastSqrt_correct_witness:
  "representable binary64 2 \<and> (\<exists>r. fastSqrt 0 (Fin 2) = Some (Fin r) \<and> 0 < r
     \<and> (r - pow2 (ulp_exp binary64 r)) ^ 2 \<le> 2 \<and> 2 < (r + pow2 (ulp_exp binary64 r)) ^ 2)"
proof -
  have "representable binary64 2" using representable_of_int[of 2] by simp
  with fastSqrt_correct[of 2 0] show ?thesis by auto
qed

text \<open>The loop never ends once an iterate is NaN: NaN is not equal to itself.\<close>

lemma fastSqrt_loop_NaN: "fastSqrt_loop x NaN z = None"
proof (rule ccontr)
  assume "fastSqrt_loop x NaN z \<noteq> None"
  then obtain r where r: "fastSqrt_loop x NaN z = Some r" by blast
  have "NaN \<noteq> NaN"
  proof (rule fastSqrt_loop.raw_induct[where P = "\<lambda>x y z r. y \<noteq> NaN" and xa = "((x, NaN), z)",
        unfolded prod.case, OF _ r])
    fix f x y z r
    assume IH: "\<And>x y z r. f x y z = Some r \<Longrightarrow> y \<noteq> NaN"
      and eq: "(if \<not> feq y z
           then f x (fdiv binary64 (fadd binary64 y (fdiv binary64 x y)) (Fin 2)) y else Some y) = Some r"
    show "y \<noteq> NaN"
    proof
      assume "y = NaN"
      with eq have "f x NaN NaN = Some r" by simp
      from IH[OF this] show False by simp
    qed
  qed
  then show False by simp
qed

text \<open>
  C8. \<open>fastSqrt\<close> guards only against \<open>x <= 0\<close>: for NaN and for the positive infinity the loop
  condition \<open>y != z\<close> is true in every round, and the call never returns.
\<close>

theorem fastSqrt_diverges: "fastSqrt u NaN = None \<and> fastSqrt u (Inf False) = None"
proof
  show "fastSqrt u NaN = None"
    by (simp add: fastSqrt_def fle_def Let_def fastSqrt_loop_NaN)
  have "fastSqrt_loop (Inf False) (Inf False) (Fin 0) = fastSqrt_loop (Inf False) NaN (Inf False)"
    by (subst fastSqrt_loop.simps) simp
  then show "fastSqrt u (Inf False) = None"
    by (simp add: fastSqrt_def fle_def Let_def fastSqrt_loop_NaN)
qed

end
