(* ===== verification/Sample.thy ===== *)
theory Sample
  imports NativeBridge FastSqrt
begin

text \<open>
  A concrete library and concrete states, for the witnesses: \<open>plain_cv\<close> is an instance of the record
  \<open>opencv\<close> that has every law the theorems assume (its transform is the identity, its optimal sizes
  are the sizes themselves), and \<open>small_world\<close> holds a few images of two by two pixels.
\<close>

subsection \<open>A library\<close>

definition cell_wise :: "(fp \<Rightarrow> fp) \<Rightarrow> int \<Rightarrow> img \<Rightarrow> img" where
  "cell_wise f t v = \<lparr>itype = t, irows = irows v, icols = icols v,
     idata = map (\<lambda>i. map (\<lambda>k. f (img_at v i k)) [0..<irowlen v]) [0..<irows v]\<rparr>"

definition cell_wise2 :: "(fp \<Rightarrow> fp \<Rightarrow> fp) \<Rightarrow> img \<Rightarrow> img \<Rightarrow> err + img" where
  "cell_wise2 f u v = (if itype u = itype v \<and> irows u = irows v \<and> icols u = icols v
     then Inr \<lparr>itype = itype u, irows = irows u, icols = icols u,
       idata = map (\<lambda>i. map (\<lambda>k. f (img_at u i k) (img_at v i k)) [0..<irowlen u]) [0..<irows u]\<rparr>
     else Inl CvException)"

definition flip_img :: "img \<Rightarrow> img" where
  "flip_img v = \<lparr>itype = itype v, irows = icols v, icols = irows v,
     idata = map (\<lambda>j. map (\<lambda>i. img_at v i j) [0..<irows v]) [0..<icols v]\<rparr>"

definition beside :: "img \<Rightarrow> img \<Rightarrow> err + img" where
  "beside u v = (if itype u = itype v \<and> irows u = irows v then Inr \<lparr>itype = itype u, irows = irows u,
     icols = icols u + icols v, idata = map2 (@) (idata u) (idata v)\<rparr> else Inl CvException)"

definition plain_cv :: opencv where
  "plain_cv = \<lparr>
     lib_roi = (\<lambda>m r. if inside m r then Inr (if 0 < rwidth r \<and> 0 < rheight r then sub m r else release m) else Inl CvException),
     lib_reshape = (\<lambda>m cn rows. if rows = 1 \<and> mstep m = rowlen m then Inr (reshaped m cn) else Inl CvException),
     lib_copyTo = Inr,
     lib_copyFixed = (\<lambda>v t. if itype v = t \<and> 0 < irows v \<and> 0 < icols v then Inr v else Inl CvException),
     lib_zeros = (\<lambda>r c t. if 0 \<le> r \<and> 0 \<le> c then Inr (const_img t (nat r) (nat c) (Fin 0)) else Inl CvException),
     lib_setTo = (\<lambda>v x. Inr (const_img (itype v) (irows v) (icols v) x)),
     lib_split = (\<lambda>v. Inr (map (chan_img v) [0..<icn v])),
     lib_merge = (\<lambda>vs. if same_planes vs then Inr (merge_img vs) else Inl CvException),
     lib_hconcat = beside,
     lib_transpose = (\<lambda>v. Inr (flip_img v)),
     lib_convertTo = (\<lambda>v t a b. Inr (cell_wise (\<lambda>x. dadd (dmul x a) b) (CV_MAKETYPE t (int (icn v))) v)),
     lib_normalize = (\<lambda>v a b. Inr v),
     lib_minMaxLoc = (\<lambda>v. Inr (Fin 0, Fin 1)),
     lib_mean = (\<lambda>v. Inr (img_at v 0 0, Fin 0, Fin 0, Fin 0)),
     lib_add = cell_wise2 dadd,
     lib_subtract = cell_wise2 dsub,
     lib_multiply = cell_wise2 dmul,
     lib_divide = cell_wise2 ddiv,
     lib_magnitude = cell_wise2 (\<lambda>x y. fsqrt binary64 (dadd (dmul x x) (dmul y y))),
     lib_pow = (\<lambda>v p. Inr v),
     lib_log = Inr,
     lib_optDFTSize = id,
     lib_copyMakeBorder = (\<lambda>v t b l r x. if 0 \<le> t \<and> 0 \<le> b \<and> 0 \<le> l \<and> 0 \<le> r then Inr (border_img v t b l r x) else Inl CvException),
     lib_dft = (\<lambda>v flags. Inr v),
     lib_circle = (\<lambda>v c r x. Inr (const_img (itype v) (irows v) (icols v) x)),
     lib_applyColorMap = (\<lambda>v c. if 0 \<le> c \<and> c \<le> 11 then Inr v else Inl CvException),
     lib_resize = (\<lambda>v c r. if 0 < c \<and> 0 < r then Inr (const_img (itype v) (nat r) (nat c) (Fin 0)) else Inl CvException)\<rparr>"

definition plain_libm :: libm where
  "plain_libm = \<lparr>m_cexp = (\<lambda>_. (Fin 1, Fin 0)), m_cabs = (\<lambda>z. fsqrt binary64 (dadd (dmul (fst z) (fst z)) (dmul (snd z) (snd z))))\<rparr>"

lemma icn_le: "icn v \<le> 512"
  by (simp add: icn_def CV_MAT_CN_div)

lemma cell_wise_facts: "img_ok (cell_wise f (CV_MAKETYPE t (int (icn v))) v)"
proof -
  have "1 \<le> int (icn v)" "int (icn v) \<le> 512" using icn_pos[of v] icn_le[of v] by linarith+
  then have "CV_MAT_CN (CV_MAKETYPE t (int (icn v))) = int (icn v)" by (rule maketype_cn)
  then have "irowlen (cell_wise f (CV_MAKETYPE t (int (icn v))) v) = irowlen v"
    by (simp add: irowlen_def cell_wise_def) (simp add: icn_def)
  then show ?thesis by (auto simp: img_ok_def) (auto simp: cell_wise_def)
qed

lemma cell_wise2_ok: "cell_wise2 f u v = Inr x \<Longrightarrow> img_ok x"
  by (auto simp: cell_wise2_def img_ok_def irowlen_def icn_def split: if_splits)

lemma plain_zeros [simp]: "zeros_law plain_cv"
  by (simp add: zeros_law_def plain_cv_def)

lemma plain_rois [simp]: "roi_law plain_cv" "roi_reject_law plain_cv"
  by (simp_all add: roi_law_def roi_reject_law_def plain_cv_def)

lemma plain_refuses: "refuses_empty plain_cv"
  by (auto simp: refuses_empty_def plain_cv_def inside_def release_def nrows_def ncols_def)

lemma plain_copies [simp]: "copy_law plain_cv" "copy_fixed_law plain_cv" "copies_lib plain_cv"
  by (simp_all add: copy_law_def copy_fixed_law_def copies_lib_def) (simp_all add: plain_cv_def)

lemma plain_channels [simp]: "channel_lib plain_cv"
  by (simp add: channel_lib_def split_law_def merge_law_def) (simp add: plain_cv_def)

lemma plain_fourier [simp]: "fourier_lib plain_cv"
  by (auto simp: fourier_lib_def border_law_def dft_law_def optimal_law_def plain_cv_def)

lemma plain_fresnel [simp]: "fresnel_lib plain_cv"
  by (simp add: fresnel_lib_def)

lemma plain_vector [simp]: "vector_lib plain_cv"
proof -
  have "reshape_law plain_cv" by (simp add: reshape_law_def plain_cv_def)
  moreover have "hconcat_law plain_cv"
    by (simp add: hconcat_law_def plain_cv_def beside_def row_img_def)
  moreover have "transpose_law plain_cv"
  proof -
    have "flip_img (row_img t xs) = col_img t xs" for t xs
      by (simp add: flip_img_def row_img_def col_img_def img_at_def) (rule nth_equalityI, simp_all)
    then show ?thesis by (simp add: transpose_law_def plain_cv_def)
  qed
  moreover have "same_shape_law (lib_log plain_cv)" "same_shape_law (\<lambda>v. lib_normalize plain_cv v a b)" for a b
    by (simp_all add: same_shape_law_def plain_cv_def)
  ultimately show ?thesis by (simp add: vector_lib_def)
qed

lemma plain_images [simp]: "images_lib plain_cv" "setTo_law plain_cv"
  using cell_wise_facts cell_wise2_ok
  by (auto simp: images_lib_def plain_cv_def setTo_law_def) (simp_all add: cell_wise_def)

lemma plain_convert [simp]: "convert_law plain_cv"
  using cell_wise_facts by (auto simp: convert_law_def plain_cv_def) (simp_all add: cell_wise_def)

lemma plain_qdpc [simp]: "qdpc_lib plain_cv"
  by (simp add: qdpc_lib_def)

subsection \<open>A few images\<close>

definition two :: "fp list" where "two = map (\<lambda>n. Fin (of_nat n)) [1..<9]"

text \<open>Buffers 0 and 1: complex images, 2: a real image, 3 and 4: byte images, 5: a complex image of two
  rows and three columns, 6: one of three by three pixels.\<close>

definition small_world :: world where
  "small_world = \<lparr>bufs = [two, two, take 4 two, take 4 two, take 4 two, replicate 12 (Fin 1), replicate 18 (Fin 1)],
     messages = [], gv_cMap = COLORMAP_NONE, shown = [], files = []\<rparr>"

definition flat_mat :: "int \<Rightarrow> int \<Rightarrow> int \<Rightarrow> nat \<Rightarrow> mat" where
  "flat_mat t r c b = \<lparr>mtype = t, mrows = r, mcols = c, mdata = Some (b, 0), mstep = nat c * nat (CV_MAT_CN t)\<rparr>"

definition za :: mat where "za = flat_mat CV_64FC2 2 2 0"
definition zb :: mat where "zb = flat_mat CV_64FC2 2 2 1"
definition ra :: mat where "ra = flat_mat CV_64FC1 2 2 2"
definition ba :: mat where "ba = flat_mat CV_8UC1 2 2 3"
definition bb :: mat where "bb = flat_mat CV_8UC1 2 2 4"
definition zw :: mat where "zw = flat_mat CV_64FC2 2 3 5"

definition zo :: mat where "zo = flat_mat CV_64FC2 3 3 6"

lemmas samples = za_def zb_def ra_def ba_def bb_def zw_def zo_def

lemma flat_mat_sel [simp]: "mtype (flat_mat t r c b) = t" "mrows (flat_mat t r c b) = r" "mcols (flat_mat t r c b) = c"
  "mdata (flat_mat t r c b) = Some (b, 0)" "nrows (flat_mat t r c b) = nat r" "ncols (flat_mat t r c b) = nat c"
  "nch (flat_mat t r c b) = nat (CV_MAT_CN t)" "rowlen (flat_mat t r c b) = nat c * nat (CV_MAT_CN t)"
  "mstep (flat_mat t r c b) = nat c * nat (CV_MAT_CN t)" "buf_of (flat_mat t r c b) = Some b"
  "channels (flat_mat t r c b) = CV_MAT_CN t" "depth (flat_mat t r c b) = CV_MAT_DEPTH t"
  by (simp_all add: flat_mat_def nrows_def ncols_def nch_def rowlen_def buf_of_def channels_def depth_def)

lemma CV_8UC1_sel [simp]: "CV_MAT_CN CV_8UC1 = 1" "CV_MAT_DEPTH CV_8UC1 = 0"
  by (simp_all add: CV_8UC1_def maketype_cn maketype_depth) (simp add: CV_8U_def CV_MAT_DEPTH_mod)

lemma small_bufs: "length (bufs small_world) = 7" "length (bufs small_world ! 0) = 8" "length (bufs small_world ! Suc 0) = 8"
  "length (bufs small_world ! 2) = 4" "length (bufs small_world ! 3) = 4" "length (bufs small_world ! 4) = 4"
  "length (bufs small_world ! 5) = 12" "length (bufs small_world ! 6) = 18"
  by (simp_all add: small_world_def two_def)

lemma samples_ok [simp]: "hdr_ok small_world za" "hdr_ok small_world zb" "hdr_ok small_world ra" "hdr_ok small_world ba"
  "hdr_ok small_world bb" "hdr_ok small_world zw" "hdr_ok small_world zo"
  by (simp_all add: samples hdr_ok_def small_bufs)

lemma samples_complex [simp]: "cmat small_world za" "cmat small_world zb" "cmat small_world zw" "cmat small_world zo"
  by (simp_all add: cmat_def) (simp_all add: samples)

lemma samples_square [simp]: "square small_world za" "square small_world zb" "square small_world ra" "square small_world zo"
  by (simp_all add: square_def) (simp_all add: samples)

lemma samples_pixels [simp]: "has_pixels small_world za" "has_pixels small_world zb" "has_pixels small_world ra"
  "has_pixels small_world ba" "has_pixels small_world bb"
  by (simp_all add: has_pixels_def) (simp_all add: samples)

lemma plain_opt [simp]: "lib_optDFTSize plain_cv n = n"
  by (simp add: plain_cv_def)

lemma samples_ready [simp]: "fft_ready plain_cv small_world za" "fft_ready plain_cv small_world zo" "vector_ready plain_cv small_world ra"
  by (simp_all add: fft_ready_def vector_ready_def) (simp_all add: samples)

end
