(* ===== verification/Codec.thy ===== *)
theory Codec
  imports Prelude
begin

text \<open>
  What a pair of functions that appends a value to a string and reads it back promises: the contract of
  the encoders and decoders of tensorflow/core/lib, and of those whose encodings sort as the values do.
  The results on sequences of fields follow from it once and for all of them.
\<close>

subsection \<open>Sequences of fields\<close>

fun put_all :: "('b list \<Rightarrow> 'a \<Rightarrow> 'b list option) \<Rightarrow> 'b list \<Rightarrow> 'a list \<Rightarrow> 'b list option" where
  "put_all put dst [] = Some dst"
| "put_all put dst (x # xs) = (case put dst x of None \<Rightarrow> None | Some dst \<Rightarrow> put_all put dst xs)"

fun get_all :: "('b list \<Rightarrow> ('a \<times> 'b list) option) \<Rightarrow> nat \<Rightarrow> 'b list \<Rightarrow> ('a list \<times> 'b list) option" where
  "get_all get 0 src = Some ([], src)"
| "get_all get (Suc n) src = (case get src of None \<Rightarrow> None
     | Some (x, src) \<Rightarrow> map_option (\<lambda>(xs, src). (x # xs, src)) (get_all get n src))"

subsection \<open>Codes\<close>

locale codec =
  fixes put :: "'b list \<Rightarrow> 'a \<Rightarrow> 'b list option" and get :: "'b list \<Rightarrow> ('a \<times> 'b list) option"
  assumes writes: "\<exists>e. \<forall>dst. put dst x = Some (dst @ e)"
    and reads_back: "put [] x = Some e \<Longrightarrow> get (e @ rest) = Some (x, rest)"
begin

lemma put_appends: "put [] x = Some e \<Longrightarrow> put dst x = Some (dst @ e)"
  using writes[of x] by force

lemma prefix_free:
  assumes "put [] x = Some d" and "put [] y = Some e" and "d @ u = e @ v"
  shows "x = y \<and> u = v"
  using reads_back[OF assms(1), of u] reads_back[OF assms(2), of v] assms(3) by simp

lemma put_all_appends: "\<exists>e. \<forall>dst. put_all put dst xs = Some (dst @ e)"
proof (induction xs)
  case (Cons x xs)
  obtain d e where "\<And>dst. put dst x = Some (dst @ d)" "\<And>dst. put_all put dst xs = Some (dst @ e)" using writes[of x] Cons by blast
  then show ?case by (intro exI[of _ "d @ e"]) simp
qed simp

lemma put_all_Cons:
  assumes "put_all put [] (x # xs) = Some d"
  obtains a b where "put [] x = Some a" "put_all put [] xs = Some b" "d = a @ b"
proof -
  obtain a b where "\<And>dst. put dst x = Some (dst @ a)" "\<And>dst. put_all put dst xs = Some (dst @ b)" using writes[of x] put_all_appends[of xs] by blast
  then show ?thesis using that[of a b] assms by simp
qed

lemma all_read_back: "put_all put [] xs = Some e \<Longrightarrow> get_all get (length xs) (e @ rest) = Some (xs, rest)"
proof (induction xs arbitrary: e)
  case (Cons x xs)
  from Cons(2) obtain a b where "put [] x = Some a" "put_all put [] xs = Some b" "e = a @ b" by (rule put_all_Cons)
  then show ?case using Cons(1) reads_back[of x a] by simp
qed simp

end

lemma lexord_asym_bytes: "(x, y) \<in> lexord {(a, b). a < (b :: 'b::linorder)} \<Longrightarrow> (y, x) \<notin> lexord {(a, b). a < b}"
  by (rule lexord_asymmetric) (auto intro: asymI)

text \<open>A code that sorts: the encodings, with anything behind them, compare as the values.\<close>

locale ordered_codec = codec put get
  for put :: "'b::linorder list \<Rightarrow> 'a \<Rightarrow> 'b list option" and get :: "'b list \<Rightarrow> ('a \<times> 'b list) option" +
  fixes less :: "'a \<Rightarrow> 'a \<Rightarrow> bool"
  assumes ordered: "less x y \<Longrightarrow> put [] x = Some d \<Longrightarrow> put [] y = Some e \<Longrightarrow> (d @ u, e @ v) \<in> lexord {(a, b). a < b}"
    and total: "less x y \<or> x = y \<or> less y x"
begin

lemma field_order:
  assumes "put [] x = Some d" and "put [] y = Some e"
  shows "(d @ u, e @ v) \<in> lexord {(a, b). a < b} \<longleftrightarrow> less x y \<or> x = y \<and> (u, v) \<in> lexord {(a, b). a < b}"
proof -
  have n: "(d @ u, e @ v) \<notin> lexord {(a, b). a < b}" if "less y x" using lexord_asym_bytes ordered[OF that assms(2,1)] by blast
  have s: "\<not> less x x" using lexord_asym_bytes ordered[of x x d d "[]" "[]"] assms(1) by blast
  have "x = y \<Longrightarrow> d = e" using assms by simp
  then show ?thesis using total[of x y] ordered[OF _ assms] n s
    by (cases "x = y") (auto simp: lexord_same_pref_iff)
qed

text \<open>Composite keys of the same number of fields sort field by field.\<close>

lemma fields_order:
  assumes "put_all put [] xs = Some d" and "put_all put [] ys = Some e" and "length xs = length ys"
  shows "(d @ u, e @ v) \<in> lexord {(a, b). a < b} \<longleftrightarrow> (xs, ys) \<in> lexord {(x, y). less x y} \<or> xs = ys \<and> (u, v) \<in> lexord {(a, b). a < b}"
  using assms(3,1,2)
proof (induction xs ys arbitrary: d e rule: list_induct2)
  case (Cons x xs y ys)
  obtain a b where a: "put [] x = Some a" "put_all put [] xs = Some b" "d = a @ b" using Cons(3) by (rule put_all_Cons)
  obtain a' b' where a': "put [] y = Some a'" "put_all put [] ys = Some b'" "e = a' @ b'" using Cons(4) by (rule put_all_Cons)
  show ?case using field_order[OF a(1) a'(1), of "b @ u" "b' @ v"] Cons(2)[OF a(2) a'(2)] by (auto simp: a(3) a'(3))
qed simp

end

end
