(* ===== verification/Coding.thy ===== *)
theory Coding
  imports Codec "HOL-Library.Word"
begin

unbundle bit_operations_syntax

text \<open>
  The integer codings of tensorflow/core/lib/core/coding.cc and raw_coding.h: fixed-width little-endian
  integers and varints. A byte is an \<open>8 word\<close>, a character buffer the list of its bytes; a routine
  that reads between \<open>p\<close> and \<open>limit\<close> gets that range as a list and returns the bytes it left.
\<close>

type_synonym byte = "8 word"

definition kLittleEndian :: bool where
  "kLittleEndian = True"

text \<open>The bytes of a word in memory, and the word of some bytes, on a little-endian machine.\<close>

definition mem_bytes :: "nat \<Rightarrow> 'a::len word \<Rightarrow> byte list" where
  "mem_bytes n v = map (\<lambda>i. ucast (drop_bit (8 * i) v)) [0..<n]"

fun word_of_mem :: "byte list \<Rightarrow> 'a::len word" where
  "word_of_mem [] = 0"
| "word_of_mem (b # bs) = ucast b OR push_bit 8 (word_of_mem bs)"

definition host_bytes :: "nat \<Rightarrow> 'a::len word \<Rightarrow> byte list" where
  "host_bytes n v = (if kLittleEndian then mem_bytes n v else rev (mem_bytes n v))"

definition host_word :: "byte list \<Rightarrow> 'a::len word" where
  "host_word bs = (if kLittleEndian then word_of_mem bs else word_of_mem (rev bs))"

text \<open>The order of strings: \<open>memcmp\<close>, then the lengths.\<close>

definition bytes_less :: "byte list \<Rightarrow> byte list \<Rightarrow> bool" where
  "bytes_less x y \<longleftrightarrow> (x, y) \<in> lexord {(a, b). a < b}"

lemma bytes_less_simps [simp]: "bytes_less [] (b # y)" "\<not> bytes_less x []"
  "bytes_less (a # x) (b # y) \<longleftrightarrow> a < b \<or> a = b \<and> bytes_less x y"
  by (simp_all add: bytes_less_def)

lemma bytes_less_prefix [simp]: "bytes_less (p @ x) (p @ y) \<longleftrightarrow> bytes_less x y"
  by (induction p) auto

lemma bytes_less_irrefl [simp]: "\<not> bytes_less x x"
  by (induction x) simp_all

lemma bytes_total: "bytes_less x y \<or> x = y \<or> bytes_less y x"
proof -
  have "\<forall>a b :: byte. (a, b) \<in> {(a, b). a < b} \<or> a = b \<or> (b, a) \<in> {(a, b). a < b}" by auto
  then show ?thesis unfolding bytes_less_def by (rule lexord_linear)
qed

lemma bytes_less_trans: "bytes_less x y \<Longrightarrow> bytes_less y z \<Longrightarrow> bytes_less x z"
  unfolding bytes_less_def by (rule lexord_trans) (auto intro: transI)

subsection \<open>Fixed width\<close>

definition EncodeFixed16 :: "16 word \<Rightarrow> byte list" where
  "EncodeFixed16 v = (if kLittleEndian then host_bytes 2 v
     else [ucast (v AND 0xff), ucast (drop_bit 8 v AND 0xff)])"

definition EncodeFixed32 :: "32 word \<Rightarrow> byte list" where
  "EncodeFixed32 v = (if kLittleEndian then host_bytes 4 v
     else [ucast (v AND 0xff), ucast (drop_bit 8 v AND 0xff), ucast (drop_bit 16 v AND 0xff), ucast (drop_bit 24 v AND 0xff)])"

definition EncodeFixed64 :: "64 word \<Rightarrow> byte list" where
  "EncodeFixed64 v = (if kLittleEndian then host_bytes 8 v
     else [ucast (v AND 0xff), ucast (drop_bit 8 v AND 0xff), ucast (drop_bit 16 v AND 0xff), ucast (drop_bit 24 v AND 0xff),
           ucast (drop_bit 32 v AND 0xff), ucast (drop_bit 40 v AND 0xff), ucast (drop_bit 48 v AND 0xff), ucast (drop_bit 56 v AND 0xff)])"

definition PutFixed16 :: "byte list \<Rightarrow> 16 word \<Rightarrow> byte list" where
  "PutFixed16 dst v = dst @ EncodeFixed16 v"

definition PutFixed32 :: "byte list \<Rightarrow> 32 word \<Rightarrow> byte list" where
  "PutFixed32 dst v = dst @ EncodeFixed32 v"

definition PutFixed64 :: "byte list \<Rightarrow> 64 word \<Rightarrow> byte list" where
  "PutFixed64 dst v = dst @ EncodeFixed64 v"

text \<open>"without any bounds checking": a buffer that is too short is an error.\<close>

definition DecodeFixed16 :: "byte list \<Rightarrow> 16 word option" where
  "DecodeFixed16 p = (if length p < 2 then None
     else if kLittleEndian then Some (host_word (take 2 p))
     else Some (ucast (p ! 0) OR push_bit 8 (ucast (p ! 1))))"

definition DecodeFixed32 :: "byte list \<Rightarrow> 32 word option" where
  "DecodeFixed32 p = (if length p < 4 then None
     else if kLittleEndian then Some (host_word (take 4 p))
     else Some (ucast (p ! 0) OR push_bit 8 (ucast (p ! 1)) OR push_bit 16 (ucast (p ! 2)) OR push_bit 24 (ucast (p ! 3))))"

definition DecodeFixed64 :: "byte list \<Rightarrow> 64 word option" where
  "DecodeFixed64 p = (if length p < 8 then None
     else if kLittleEndian then Some (host_word (take 8 p))
     else (case DecodeFixed32 p of None \<Rightarrow> None
       | Some lo \<Rightarrow> (case DecodeFixed32 (drop 4 p) of None \<Rightarrow> None
         | Some hi \<Rightarrow> Some (push_bit 32 (ucast hi) OR ucast lo))))"

subsection \<open>Varints\<close>

definition EncodeVarint32 :: "32 word \<Rightarrow> byte list" where
  "EncodeVarint32 v =
     (if v < 2 ^ 7 then [ucast v]
      else if v < 2 ^ 14 then [ucast (v OR 128), ucast (drop_bit 7 v)]
      else if v < 2 ^ 21 then [ucast (v OR 128), ucast (drop_bit 7 v OR 128), ucast (drop_bit 14 v)]
      else if v < 2 ^ 28 then [ucast (v OR 128), ucast (drop_bit 7 v OR 128), ucast (drop_bit 14 v OR 128), ucast (drop_bit 21 v)]
      else [ucast (v OR 128), ucast (drop_bit 7 v OR 128), ucast (drop_bit 14 v OR 128), ucast (drop_bit 21 v OR 128), ucast (drop_bit 28 v)])"

lemma unat_less: "unat (v :: 'a::len word) < 2 ^ LENGTH('a)"
  by (rule unsigned_less)

lemma unat_drop: "unat (drop_bit k (v :: 'a::len word)) = unat v div 2 ^ k"
  unfolding unat_drop_bit_eq by (rule drop_bit_eq_div)

lemma shrinks: "128 \<le> (v :: 64 word) \<Longrightarrow> unat (drop_bit 7 v) < unat v"
  by (simp add: unat_drop word_le_nat_alt)

function EncodeVarint64 :: "64 word \<Rightarrow> byte list" where
  "EncodeVarint64 v = (if 128 \<le> v then ucast ((v AND 127) OR 128) # EncodeVarint64 (drop_bit 7 v) else [ucast v])"
  by pat_completeness auto
termination by (relation "measure unat") (simp_all add: shrinks)

function VarintLength :: "64 word \<Rightarrow> nat" where
  "VarintLength v = (if 128 \<le> v then Suc (VarintLength (drop_bit 7 v)) else 1)"
  by pat_completeness auto
termination by (relation "measure unat") (simp_all add: shrinks)

declare EncodeVarint64.simps [simp del] VarintLength.simps [simp del]

text \<open>The callers' buffers have 5 and 10 bytes: a longer encoding would overrun them.\<close>

definition PutVarint32 :: "byte list \<Rightarrow> 32 word \<Rightarrow> byte list option" where
  "PutVarint32 dst v = (if length (EncodeVarint32 v) \<le> 5 then Some (dst @ EncodeVarint32 v) else None)"

definition PutVarint64 :: "byte list \<Rightarrow> 64 word \<Rightarrow> byte list option" where
  "PutVarint64 dst v = (if length (EncodeVarint64 v) \<le> 10 then Some (dst @ EncodeVarint64 v) else None)"

fun varint32_loop :: "byte list \<Rightarrow> nat \<Rightarrow> 32 word \<Rightarrow> (32 word \<times> byte list) option" where
  "varint32_loop [] shift result = None"
| "varint32_loop (p # ps) shift result = (if shift \<le> 28
     then let b = ucast p :: 32 word in
       if b AND 128 \<noteq> 0 then varint32_loop ps (shift + 7) (result OR push_bit shift (b AND 127))
       else Some (result OR push_bit shift b, ps)
     else None)"

definition GetVarint32PtrFallback :: "byte list \<Rightarrow> (32 word \<times> byte list) option" where
  "GetVarint32PtrFallback p = varint32_loop p 0 0"

definition GetVarint32Ptr :: "byte list \<Rightarrow> (32 word \<times> byte list) option" where
  "GetVarint32Ptr p = (case p of b # ps \<Rightarrow> if (ucast b :: 32 word) AND 128 = 0 then Some (ucast b, ps) else GetVarint32PtrFallback p
     | [] \<Rightarrow> GetVarint32PtrFallback p)"

definition GetVarint32 :: "byte list \<Rightarrow> (32 word \<times> byte list) option" where
  "GetVarint32 input = GetVarint32Ptr input"

fun varint64_loop :: "byte list \<Rightarrow> nat \<Rightarrow> 64 word \<Rightarrow> (64 word \<times> byte list) option" where
  "varint64_loop [] shift result = None"
| "varint64_loop (p # ps) shift result = (if shift \<le> 63
     then let b = ucast p :: 64 word in
       if b AND 128 \<noteq> 0 then varint64_loop ps (shift + 7) (result OR push_bit shift (b AND 127))
       else Some (result OR push_bit shift b, ps)
     else None)"

definition GetVarint64Ptr :: "byte list \<Rightarrow> (64 word \<times> byte list) option" where
  "GetVarint64Ptr p = varint64_loop p 0 0"

definition GetVarint64 :: "byte list \<Rightarrow> (64 word \<times> byte list) option" where
  "GetVarint64 input = GetVarint64Ptr input"

subsection \<open>Round trips\<close>

lemma xor_twice: "((x :: 'a::len word) XOR y) XOR y = x"
  by (rule bit_word_eqI) (auto simp: bit_xor_iff)

lemma xor_cancel: "x XOR z = y XOR z \<longleftrightarrow> x = (y :: 'a::len word)"
  by (metis xor_twice)

lemma times_unit:
  fixes m :: "'a::len word"
  assumes "m * i = 1"
  shows "x * m = y * m \<longleftrightarrow> x = y"
proof
  assume "x * m = y * m"
  then have "x * (m * i) = y * (m * i)" by (simp only: mult.assoc[symmetric])
  then show "x = y" by (simp only: assms mult_1_right)
qed simp

lemma and_255: "(v :: 'a::len word) AND 255 = take_bit 8 v"
  using take_bit_eq_mask[of 8 v] by (simp add: mask_eq_exp_minus_1)

lemma and_127: "(v :: 'a::len word) AND 127 = take_bit 7 v"
  using take_bit_eq_mask[of 7 v] by (simp add: mask_eq_exp_minus_1)

lemma xor_cancel_left: "z XOR x = z XOR y \<longleftrightarrow> x = (y :: 'a::len word)"
  using xor_cancel[of x z y] by (simp only: xor.commute)

lemma bit_128_int [simp]: "bit (128 :: int) n \<longleftrightarrow> n = 7"
proof -
  have "(128 :: int) = push_bit 7 1" by (simp add: push_bit_eq_mult)
  then show ?thesis by (auto simp only: bit_push_bit_iff bit_1_iff) auto
qed

lemma bit_128: "bit (128 :: 'a::len word) n \<longleftrightarrow> n = 7 \<and> 7 < LENGTH('a)"
  by auto

lemma and_128: "(v :: 'a::len word) AND 128 \<noteq> 0 \<longleftrightarrow> bit v 7"
proof
  assume "v AND 128 \<noteq> 0"
  then obtain n where "bit (v AND 128) n" unfolding bit_eq_iff by auto
  then have "bit v n" "bit (128 :: 'a word) n" by (simp_all only: bit_and_iff)
  then show "bit v 7" unfolding bit_128 by simp
next
  assume "bit v 7"
  then have "bit (v AND 128) 7" by (auto simp: bit_and_iff dest: bit_imp_le_length)
  then show "v AND 128 \<noteq> 0" by auto
qed

lemma bit_below:
  fixes v :: "'a::len word"
  assumes "unat v < 2 ^ k" and "bit v n"
  shows "n < k"
proof -
  have "take_bit k (unat v) = unat v" using assms(1) by (simp add: take_bit_nat_eq_self_iff)
  moreover have "bit (unat v) n" using assms(2) by (simp add: bit_unsigned_iff bit_imp_le_length)
  ultimately show ?thesis by (metis bit_take_bit_iff)
qed

lemma word_of_mem_bit: "bit (word_of_mem bs :: 'a::len word) n \<longleftrightarrow>
    n < LENGTH('a) \<and> n div 8 < length bs \<and> bit (bs ! (n div 8)) (n mod 8)"
proof (induction bs arbitrary: n)
  case (Cons b bs)
  show ?case
  proof (cases "n < 8")
    case True
    then show ?thesis by (simp add: bit_simps)
  next
    case False
    then have d: "n div 8 = Suc ((n - 8) div 8)" "n mod 8 = (n - 8) mod 8" by (auto simp: le_div_geq le_mod_geq)
    have "\<not> bit b n" using False by (auto dest: bit_imp_le_length)
    then show ?thesis using False Cons[of "n - 8"] by (auto simp: bit_simps d)
  qed
qed simp

lemma word_of_mem_bytes:
  fixes v :: "'a::len word"
  assumes "LENGTH('a) \<le> 8 * n"
  shows "word_of_mem (mem_bytes n v) = v"
proof (rule bit_word_eqI)
  fix i assume "i < LENGTH('a)"
  moreover from this have "i div 8 < n" using assms by (simp add: less_mult_imp_div_less)
  ultimately show "bit (word_of_mem (mem_bytes n v) :: 'a word) i = bit v i"
    by (simp add: word_of_mem_bit mem_bytes_def bit_simps)
qed

lemma mem_bytes_of_mem:
  assumes "length bs = n" and "8 * n \<le> LENGTH('a)"
  shows "mem_bytes n (word_of_mem bs :: 'a::len word) = bs"
proof (rule nth_equalityI)
  fix i assume "i < length (mem_bytes n (word_of_mem bs :: 'a word))"
  then have i: "i < n" by (simp add: mem_bytes_def)
  then have "8 * i + 8 \<le> LENGTH('a)" using assms(2) by simp
  then have "ucast (drop_bit (8 * i) (word_of_mem bs :: 'a word)) = bs ! i"
    using i assms(1) by (intro bit_word_eqI) (simp add: bit_simps word_of_mem_bit)
  then show "mem_bytes n (word_of_mem bs :: 'a word) ! i = bs ! i" using i by (simp add: mem_bytes_def)
qed (use assms in \<open>simp add: mem_bytes_def\<close>)

lemma word_of_mem_inj:
  assumes "length b = length b'" and "8 * length b \<le> LENGTH('a)" and "(word_of_mem b :: 'a::len word) = word_of_mem b'"
  shows "b = b'"
  using mem_bytes_of_mem[of b "length b", where ?'a = 'a] mem_bytes_of_mem[of b' "length b", where ?'a = 'a] assms by simp

lemma word_of_mem_xor: "(word_of_mem (b # bs) :: 'a::len word) = ucast b XOR push_bit 8 (word_of_mem bs)"
  by (rule bit_word_eqI) (auto simp: bit_or_iff bit_xor_iff bit_push_bit_iff bit_unsigned_iff dest: bit_imp_le_length)

lemma mem_bytes_len [simp]: "length (mem_bytes n v) = n"
  by (simp add: mem_bytes_def)

lemma fixed16_roundtrip: "DecodeFixed16 (EncodeFixed16 v @ rest) = Some v"
  by (simp add: DecodeFixed16_def EncodeFixed16_def host_bytes_def host_word_def kLittleEndian_def word_of_mem_bytes)

lemma Encode_len [simp]: "length (EncodeFixed16 h) = 2" "length (EncodeFixed32 c) = 4" "length (EncodeFixed64 l) = 8"
  by (simp_all add: EncodeFixed16_def EncodeFixed32_def EncodeFixed64_def host_bytes_def kLittleEndian_def mem_bytes_def)

lemma fixed32_roundtrip: "DecodeFixed32 (EncodeFixed32 v @ rest) = Some v"
  by (simp add: DecodeFixed32_def EncodeFixed32_def host_bytes_def host_word_def kLittleEndian_def word_of_mem_bytes)

lemma fixed64_roundtrip: "DecodeFixed64 (EncodeFixed64 v @ rest) = Some v"
  by (simp add: DecodeFixed64_def EncodeFixed64_def host_bytes_def host_word_def kLittleEndian_def word_of_mem_bytes)

text \<open>Reading a varint back, from any shift the value still fits above.\<close>

lemma cont_byte:
  fixes v :: "'a::len word"
  assumes "8 \<le> LENGTH('a)"
  shows "(ucast (ucast ((v AND 127) OR 128) :: byte) :: 'a word) AND 128 \<noteq> 0"
    and "(ucast (ucast ((v AND 127) OR 128) :: byte) :: 'a word) AND 127 = take_bit 7 v"
proof -
  show "(ucast (ucast ((v AND 127) OR 128) :: byte) :: 'a word) AND 128 \<noteq> 0"
    unfolding and_128 using assms by (simp add: bit_unsigned_iff bit_or_iff)
  show "(ucast (ucast ((v AND 127) OR 128) :: byte) :: 'a word) AND 127 = take_bit 7 v"
    unfolding and_127 by (rule bit_word_eqI) (auto simp: bit_unsigned_iff bit_or_iff bit_take_bit_iff)
qed

lemma last_byte:
  fixes v :: "'a::len word"
  assumes "unat v < 2 ^ 7"
  shows "(ucast (ucast v :: byte) :: 'a word) = v" and "((ucast (ucast v :: byte) :: 'a word) AND 128 \<noteq> 0) = False"
proof -
  have n: "bit v n \<Longrightarrow> n < 7" for n using bit_below[OF assms] .
  then show id: "(ucast (ucast v :: byte) :: 'a word) = v"
    by (intro bit_word_eqI) (fastforce simp: bit_unsigned_iff)
  show "((ucast (ucast v :: byte) :: 'a word) AND 128 \<noteq> 0) = False"
    unfolding id and_128 using n[of 7] by auto
qed

lemma join_chunks:
  fixes v :: "'a::len word"
  shows "(r OR push_bit s (take_bit 7 v)) OR push_bit (s + 7) (drop_bit 7 v) = r OR push_bit s v"
proof (rule bit_word_eqI)
  fix n assume "n < LENGTH('a)"
  then show "bit ((r OR push_bit s (take_bit 7 v)) OR push_bit (s + 7) (drop_bit 7 v)) n = bit (r OR push_bit s v) n"
    by (cases "n < s + 7") (auto simp: bit_or_iff bit_push_bit_iff bit_take_bit_iff bit_drop_bit_eq)
qed

lemma varint64_loop_reads:
  assumes "s \<le> 63" and "unat v < 2 ^ (64 - s)"
  shows "varint64_loop (EncodeVarint64 v @ rest) s r = Some (r OR push_bit s v, rest)"
  using assms
proof (induction v arbitrary: s r rule: EncodeVarint64.induct)
  case (1 v)
  show ?case
  proof (cases "128 \<le> v")
    case True
    have "2 ^ 7 \<le> unat v" using True by (simp add: word_le_nat_alt)
    then have "(2::nat) ^ 7 < 2 ^ (64 - s)" using 1(3) by linarith
    then have s: "7 < 64 - s" by (rule power_less_imp_less_exp[rotated]) simp
    have "64 - s = 64 - (s + 7) + 7" using s by linarith
    then have "(2::nat) ^ (64 - s) = 2 ^ (64 - (s + 7)) * 2 ^ 7" by (metis power_add)
    then have d: "unat (drop_bit 7 v) < 2 ^ (64 - (s + 7))"
      unfolding unat_drop using 1(3) by (metis less_mult_imp_div_less)
    have "s + 7 \<le> 63" using s by simp
    note IH = 1(1)[OF True this d]
    define c :: byte where "c = ucast ((v AND 127) OR 128)"
    have b: "(ucast c :: 64 word) AND 128 \<noteq> 0" "(ucast c :: 64 word) AND 127 = take_bit 7 v"
      unfolding c_def by (rule cont_byte, simp)+
    have "(r OR push_bit s (take_bit 7 v)) OR push_bit (s + 7) (drop_bit 7 v) = r OR push_bit s v"
      by (rule join_chunks)
    moreover have "EncodeVarint64 v = c # EncodeVarint64 (drop_bit 7 v)"
      using True by (subst EncodeVarint64.simps) (simp only: c_def if_True)
    ultimately show ?thesis using IH b 1(2) by (simp only: append_Cons varint64_loop.simps Let_def if_True not_False_eq_True)
  next
    case False
    then have v: "unat v < 2 ^ 7" by (simp add: word_less_nat_alt not_le)
    have "EncodeVarint64 v = [ucast v]" using False by (subst EncodeVarint64.simps) (simp only: if_False)
    then show ?thesis using last_byte[OF v] 1(2) by (simp only: append_Cons append_Nil varint64_loop.simps Let_def if_True if_False not_True_eq_False)
  qed
qed


lemma GetVarint64_EncodeVarint64: "GetVarint64 (EncodeVarint64 v @ rest) = Some (v, rest)"
proof -
  have "unat v < 2 ^ 64" using unat_less[of v] by simp
  then show ?thesis using varint64_loop_reads[of 0 v rest 0] by (simp add: GetVarint64_def GetVarint64Ptr_def)
qed

lemma VarintLength_length: "VarintLength v = length (EncodeVarint64 v)"
proof (induction v rule: EncodeVarint64.induct)
  case (1 v)
  then show ?case by (subst EncodeVarint64.simps, subst VarintLength.simps) simp
qed

lemma VarintLength_bound: "unat v < 2 ^ (7 * Suc n) \<Longrightarrow> VarintLength v \<le> Suc n"
proof (induction n arbitrary: v)
  case 0
  then have "\<not> 128 \<le> v" by (simp add: word_le_nat_alt)
  then show ?case by (subst VarintLength.simps) simp
next
  case (Suc n)
  have "7 * Suc (Suc n) = 7 * Suc n + 7" by simp
  then have "2 ^ (7 * Suc (Suc n)) = 2 ^ (7 * Suc n) * (2::nat) ^ 7" by (metis power_add)
  then have "unat (drop_bit 7 v) < 2 ^ (7 * Suc n)"
    unfolding unat_drop using Suc.prems by (metis less_mult_imp_div_less)
  then show ?case using Suc.IH by (subst VarintLength.simps) simp
qed

lemma VarintLength_le_10: "VarintLength v \<le> 10"
proof -
  have "unat v < 2 ^ 64" using unat_less[of v] by simp
  also have "(2::nat) ^ 64 \<le> 2 ^ (7 * Suc 9)" by (rule power_increasing) simp_all
  finally show ?thesis using VarintLength_bound[of v 9] by simp
qed

lemma PutVarint64_fits: "PutVarint64 dst v = Some (dst @ EncodeVarint64 v)"
  using VarintLength_le_10[of v] by (simp add: PutVarint64_def VarintLength_length)

text \<open>The unrolled 32-bit encoder writes what the 64-bit loop writes.\<close>

lemma chunk_byte:
  fixes v :: "32 word"
  shows "(ucast (drop_bit k (ucast v :: 64 word) AND 127 OR 128) :: byte) = ucast (drop_bit k v OR 128)"
proof (rule bit_word_eqI)
  fix n assume "n < LENGTH(8)"
  then have "n < 8" by simp
  then show "bit (ucast (drop_bit k (ucast v :: 64 word) AND 127 OR 128) :: byte) n = bit (ucast (drop_bit k v OR 128) :: byte) n"
    by (cases "n = 7") (auto simp: and_127 bit_unsigned_iff bit_or_iff bit_take_bit_iff bit_drop_bit_eq dest: bit_imp_le_length)
qed

lemma last_chunk:
  fixes v :: "32 word"
  shows "(ucast (drop_bit k (ucast v :: 64 word)) :: byte) = ucast (drop_bit k v)"
  by (rule bit_word_eqI) (auto simp: bit_unsigned_iff bit_drop_bit_eq dest: bit_imp_le_length)

lemma unat_widen: "unat (ucast (v :: 32 word) :: 64 word) = unat v"
  using unat_less[of v] by (simp add: unsigned_ucast_eq take_bit_nat_eq_self)

lemma less_chunk:
  fixes v :: "32 word"
  assumes "k \<in> {0, 7, 14, 21}"
  shows "128 \<le> drop_bit k (ucast v :: 64 word) \<longleftrightarrow> \<not> v < 2 ^ (k + 7)"
proof -
  have "128 \<le> drop_bit k (ucast v :: 64 word) \<longleftrightarrow> 128 \<le> unat v div 2 ^ k"
    unfolding word_le_nat_alt unat_drop unat_widen by simp
  also have "\<dots> \<longleftrightarrow> 128 * 2 ^ k \<le> unat v" by (simp add: less_eq_div_iff_mult_less_eq)
  also have "128 * 2 ^ k = (2::nat) ^ (k + 7)" by (simp add: power_add)
  also have "\<dots> = unat (2 ^ (k + 7) :: 32 word)" using assms by auto
  finally show ?thesis by (simp add: word_less_nat_alt not_less)
qed


lemma unrolled_step:
  fixes v :: "32 word"
  assumes "k \<in> {0, 7, 14, 21}"
  shows "EncodeVarint64 (drop_bit k (ucast v)) = (if v < 2 ^ (k + 7) then [ucast (drop_bit k v)]
    else ucast (drop_bit k v OR 128) # EncodeVarint64 (drop_bit (k + 7) (ucast v)))"
  using less_chunk[OF assms, of v] by (subst EncodeVarint64.simps) (simp add: chunk_byte last_chunk drop_bit_drop_bit add.commute)

lemma unrolled_last: "EncodeVarint64 (drop_bit 28 (ucast (v :: 32 word))) = [ucast (drop_bit 28 v)]"
proof -
  have "unat v div 2 ^ 28 < 128" using unat_less[of v] by simp
  then have "\<not> 128 \<le> drop_bit 28 (ucast v :: 64 word)" unfolding word_le_nat_alt unat_drop unat_widen by simp
  then show ?thesis by (subst EncodeVarint64.simps) (simp add: last_chunk)
qed

lemma EncodeVarint32_64: "EncodeVarint32 v = EncodeVarint64 (ucast v)"
proof -
  have "EncodeVarint64 (ucast v) = EncodeVarint64 (drop_bit 0 (ucast v))" by simp
  then show ?thesis
    using unrolled_step[of 0 v] unrolled_step[of 7 v] unrolled_step[of 14 v] unrolled_step[of 21 v] unrolled_last[of v]
    by (simp add: EncodeVarint32_def)
qed

lemma varint32_loop_reads:
  assumes "s \<in> {0, 7, 14, 21, 28}" and "unat v < 2 ^ (32 - s)"
  shows "varint32_loop (EncodeVarint64 (ucast v) @ rest) s r = Some (r OR push_bit s v, rest)"
  using assms
proof (induction "ucast v :: 64 word" arbitrary: v s r rule: EncodeVarint64.induct)
  case 1
  show ?case
  proof (cases "128 \<le> (ucast v :: 64 word)")
    case True
    have v: "2 ^ 7 \<le> unat v" using True unfolding word_le_nat_alt unat_widen by simp
    then have "(2::nat) ^ 7 < 2 ^ (32 - s)" using 1(3) by linarith
    then have s: "7 < 32 - s" by (rule power_less_imp_less_exp[rotated]) simp
    then have s': "s + 7 \<in> {0, 7, 14, 21, 28}" "s \<le> 28" using 1(2) by auto
    have "32 - s = 32 - (s + 7) + 7" using s by linarith
    then have "(2::nat) ^ (32 - s) = 2 ^ (32 - (s + 7)) * 2 ^ 7" by (metis power_add)
    then have d: "unat (drop_bit 7 v) < 2 ^ (32 - (s + 7))" unfolding unat_drop using 1(3) by (metis less_mult_imp_div_less)
    have dv: "drop_bit 7 (ucast v :: 64 word) = ucast (drop_bit 7 v)"
      by (rule bit_word_eqI) (auto simp: bit_unsigned_iff bit_drop_bit_eq dest: bit_imp_le_length)
    note IH = 1(1)[OF True dv s'(1) d]
    define c :: byte where "c = ucast ((v AND 127) OR 128)"
    have b: "(ucast c :: 32 word) AND 128 \<noteq> 0" "(ucast c :: 32 word) AND 127 = take_bit 7 v"
      unfolding c_def by (rule cont_byte, simp)+
    have "ucast ((ucast v :: 64 word) AND 127 OR 128) = c"
      unfolding c_def by (rule bit_word_eqI) (auto simp: and_127 bit_unsigned_iff bit_or_iff bit_take_bit_iff)
    then have "EncodeVarint64 (ucast v) = c # EncodeVarint64 (ucast (drop_bit 7 v))"
      using True dv by (subst EncodeVarint64.simps) (simp only: if_True)
    moreover have "(r OR push_bit s (take_bit 7 v)) OR push_bit (s + 7) (drop_bit 7 v) = r OR push_bit s v"
      by (rule join_chunks)
    ultimately show ?thesis using IH b s'(2) by (simp only: append_Cons varint32_loop.simps Let_def if_True not_False_eq_True)
  next
    case False
    then have v: "unat v < 2 ^ 7" unfolding word_le_nat_alt unat_widen by simp
    have "ucast (ucast v :: 64 word) = (ucast v :: byte)" using last_chunk[of 0 v] by simp
    then have "EncodeVarint64 (ucast v) = [ucast v]" using False by (subst EncodeVarint64.simps) (simp only: if_False)
    moreover have "s \<le> 28" using 1(2) by auto
    ultimately show ?thesis using last_byte[OF v]
      by (simp only: append_Cons append_Nil varint32_loop.simps Let_def if_True if_False not_True_eq_False)
  qed
qed

lemma GetVarint32_EncodeVarint32: "GetVarint32 (EncodeVarint32 v @ rest) = Some (v, rest)"
proof -
  have f: "GetVarint32PtrFallback (EncodeVarint32 v @ rest) = Some (v, rest)"
    using varint32_loop_reads[of 0 v rest 0] unat_less[of v] by (simp add: GetVarint32PtrFallback_def EncodeVarint32_64)
  moreover have "GetVarint32PtrFallback (b # ps) = Some (ucast b, ps)" if "(ucast b :: 32 word) AND 128 = 0" for b ps
    using that by (simp add: GetVarint32PtrFallback_def)
  ultimately show ?thesis by (auto simp: GetVarint32_def GetVarint32Ptr_def split: list.splits)
qed

lemma PutVarint32_fits: "PutVarint32 dst v = Some (dst @ EncodeVarint32 v)"
  by (simp add: PutVarint32_def EncodeVarint32_def)

text \<open>The decoder accepts at most ten bytes, and of a longer run of continuation bytes nothing.\<close>

lemma varint64_loop_rejects:
  assumes "\<And>b. b \<in> set p \<Longrightarrow> bit b 7" and "63 < s + 7 * length p"
  shows "varint64_loop (p @ rest) s r = None"
  using assms
proof (induction p arbitrary: s r)
  case Nil
  then show ?case by (cases rest) simp_all
next
  case (Cons b p)
  have "(ucast b :: 64 word) AND 128 \<noteq> 0" using Cons.prems(1)[of b] by (simp only: and_128) (simp add: bit_unsigned_iff)
  then show ?case using Cons by simp
qed

subsection \<open>The codes as interfaces\<close>

interpretation fixed16: codec "\<lambda>dst v. Some (PutFixed16 dst v)" "\<lambda>src. map_option (\<lambda>v. (v, drop 2 src)) (DecodeFixed16 src)"
  by unfold_locales (auto simp: PutFixed16_def fixed16_roundtrip Encode_len)

interpretation fixed32: codec "\<lambda>dst v. Some (PutFixed32 dst v)" "\<lambda>src. map_option (\<lambda>v. (v, drop 4 src)) (DecodeFixed32 src)"
  by unfold_locales (auto simp: PutFixed32_def fixed32_roundtrip)

interpretation fixed64: codec "\<lambda>dst v. Some (PutFixed64 dst v)" "\<lambda>src. map_option (\<lambda>v. (v, drop 8 src)) (DecodeFixed64 src)"
  by unfold_locales (auto simp: PutFixed64_def fixed64_roundtrip)

interpretation varint32: codec PutVarint32 GetVarint32
  by unfold_locales (auto simp: PutVarint32_fits GetVarint32_EncodeVarint32)

interpretation varint64: codec PutVarint64 GetVarint64
  by unfold_locales (auto simp: PutVarint64_fits GetVarint64_EncodeVarint64)

end
