(* ===== verification/Hash.thy ===== *)
theory Hash
  imports Coding
begin

text \<open>
  The hash functions of tensorflow/core/lib/hash/hash.cc. The switches over the bytes left are chains of
  conditionals, one for each label, because every case falls through to the next.
\<close>

definition ByteAs32 :: "byte \<Rightarrow> 32 word" where
  "ByteAs32 c = scast c AND 0xff"

definition ByteAs64 :: "byte \<Rightarrow> 64 word" where
  "ByteAs64 c = scast c AND 0xff"

definition m32 :: "32 word" where
  "m32 = 0x5bd1e995"

definition m64 :: "64 word" where
  "m64 = 0xc6a4a7935bd1e995"

definition mix32 :: "32 word \<Rightarrow> 32 word \<Rightarrow> 32 word" where
  "mix32 h k = (let k = k * m32; k = k XOR drop_bit 24 k; k = k * m32; h = h * m32 in h XOR k)"

definition mix64 :: "64 word \<Rightarrow> 64 word \<Rightarrow> 64 word" where
  "mix64 h k = (let k = k * m64; k = k XOR drop_bit 47 k; k = k * m64; h = h XOR k in h * m64)"

function hash32_loop :: "32 word \<Rightarrow> byte list \<Rightarrow> (32 word \<times> byte list) option" where
  "hash32_loop h data = (if 4 \<le> length data
     then (case DecodeFixed32 data of None \<Rightarrow> None | Some k \<Rightarrow> hash32_loop (mix32 h k) (drop 4 data))
     else Some (h, data))"
  by pat_completeness auto
termination by (relation "measure (length \<circ> snd)") auto

function hash64_loop :: "64 word \<Rightarrow> byte list \<Rightarrow> (64 word \<times> byte list) option" where
  "hash64_loop h data = (if 8 \<le> length data
     then (case DecodeFixed64 data of None \<Rightarrow> None | Some k \<Rightarrow> hash64_loop (mix64 h k) (drop 8 data))
     else Some (h, data))"
  by pat_completeness auto
termination by (relation "measure (length \<circ> snd)") auto

declare hash32_loop.simps [simp del] hash64_loop.simps [simp del]

definition hash32_tail :: "32 word \<Rightarrow> byte list \<Rightarrow> 32 word" where
  "hash32_tail h data = (let n = length data;
     h = (if n = 3 then h XOR push_bit 16 (ByteAs32 (data ! 2)) else h);
     h = (if n = 3 \<or> n = 2 then h XOR push_bit 8 (ByteAs32 (data ! 1)) else h)
     in if n = 3 \<or> n = 2 \<or> n = 1 then (h XOR ByteAs32 (data ! 0)) * m32 else h)"

definition hash64_tail :: "64 word \<Rightarrow> byte list \<Rightarrow> 64 word" where
  "hash64_tail h data = (let n = length data;
     h = (if n = 7 then h XOR push_bit 48 (ByteAs64 (data ! 6)) else h);
     h = (if n \<in> {6, 7} then h XOR push_bit 40 (ByteAs64 (data ! 5)) else h);
     h = (if n \<in> {5, 6, 7} then h XOR push_bit 32 (ByteAs64 (data ! 4)) else h);
     h = (if n \<in> {4, 5, 6, 7} then h XOR push_bit 24 (ByteAs64 (data ! 3)) else h);
     h = (if n \<in> {3, 4, 5, 6, 7} then h XOR push_bit 16 (ByteAs64 (data ! 2)) else h);
     h = (if n \<in> {2, 3, 4, 5, 6, 7} then h XOR push_bit 8 (ByteAs64 (data ! 1)) else h)
     in if n \<in> {1, 2, 3, 4, 5, 6, 7} then (h XOR ByteAs64 (data ! 0)) * m64 else h)"

definition Hash32 :: "byte list \<Rightarrow> 32 word \<Rightarrow> 32 word option" where
  "Hash32 data seed = (case hash32_loop (seed XOR of_nat (length data)) data of None \<Rightarrow> None
     | Some (h, data) \<Rightarrow> let h = hash32_tail h data;
         h = h XOR drop_bit 13 h; h = h * m32; h = h XOR drop_bit 15 h in Some h)"

definition Hash64 :: "byte list \<Rightarrow> 64 word \<Rightarrow> 64 word option" where
  "Hash64 data seed = (case hash64_loop (seed XOR (of_nat (length data) * m64)) data of None \<Rightarrow> None
     | Some (h, data) \<Rightarrow> let h = hash64_tail h data;
         h = h XOR drop_bit 47 h; h = h * m64; h = h XOR drop_bit 47 h in Some h)"

subsection \<open>Every step can be undone\<close>

lemma scast_byte:
  assumes "8 \<le> LENGTH('a)"
  shows "(scast (c :: byte) :: 'a::len word) AND 0xff = ucast c"
  unfolding and_255
proof (rule bit_word_eqI)
  fix n assume "n < LENGTH('a)"
  then show "bit (take_bit 8 (scast c :: 'a word)) n = bit (ucast c :: 'a word) n"
    by (cases "n < 7"; cases "n = 7") (auto simp: bit_take_bit_iff bit_signed_iff bit_unsigned_iff min_def dest: bit_imp_le_length)
qed

lemma ByteAs: "ByteAs32 c = ucast c" "ByteAs64 c = ucast c"
  unfolding ByteAs32_def ByteAs64_def by (rule scast_byte, simp)+

lemma times_m32: "x * m32 = y * m32 \<longleftrightarrow> x = y"
proof -
  have "m32 * 0xe59b19bd = 1" by (simp add: m32_def)
  then show ?thesis by (rule times_unit)
qed

lemma times_m64: "x * m64 = y * m64 \<longleftrightarrow> x = y"
proof -
  have "m64 * 0x5f7a0ea7e59b19bd = 1" by (simp add: m64_def)
  then show ?thesis by (rule times_unit)
qed

lemma xor_shift:
  fixes x y :: "'a::len word"
  assumes "0 < r"
  shows "x XOR drop_bit r x = y XOR drop_bit r y \<longleftrightarrow> x = y"
proof
  assume e: "x XOR drop_bit r x = y XOR drop_bit r y"
  have "bit x n = bit y n" for n
  proof (induction "LENGTH('a) - n" arbitrary: n rule: less_induct)
    case less
    show ?case
    proof (cases "n < LENGTH('a)")
      case True
      then have "bit x (n + r) = bit y (n + r)" using assms by (intro less) simp
      moreover have "bit (x XOR drop_bit r x) n = bit (y XOR drop_bit r y) n" by (simp only: e)
      ultimately show ?thesis by (auto simp: bit_xor_iff bit_drop_bit_eq add.commute)
    qed (auto dest: bit_imp_le_length)
  qed
  then show "x = y" by (intro bit_word_eqI) simp
qed simp

lemma mix32_left: "mix32 h k = mix32 h' k \<longleftrightarrow> h = h'"
  by (simp add: mix32_def Let_def xor_cancel times_m32)

lemma mix32_right: "mix32 h k = mix32 h k' \<longleftrightarrow> k = k'"
  by (simp add: mix32_def Let_def xor_cancel_left times_m32 xor_shift)

lemma mix64_left: "mix64 h k = mix64 h' k \<longleftrightarrow> h = h'"
  by (simp add: mix64_def Let_def xor_cancel times_m64)

lemma mix64_right: "mix64 h k = mix64 h k' \<longleftrightarrow> k = k'"
  by (simp add: mix64_def Let_def xor_cancel_left times_m64 xor_shift)

subsection \<open>Blocks and tails\<close>

lemma tail32:
  assumes "length p < 4"
  shows "hash32_tail h p = (if p = [] then h else (h XOR word_of_mem p) * m32)"
proof -
  consider "p = []" | a where "p = [a]" | a b where "p = [a, b]" | a b c where "p = [a, b, c]"
    using assms by (cases p rule: remdups_adj.cases; cases "tl (tl p)") auto
  then show ?thesis
    by cases (simp_all add: hash32_tail_def Let_def ByteAs word_of_mem_xor push_bit_xor push_bit_push_bit ac_simps
      del: word_of_mem.simps(2))
qed

lemma short_list: "length p < Suc n \<longleftrightarrow> p = [] \<or> (\<exists>a q. p = a # q \<and> length q < n)"
  by (cases p) auto

lemma tail64:
  assumes "length p < 8"
  shows "hash64_tail h p = (if p = [] then h else (h XOR word_of_mem p) * m64)"
  using assms unfolding numeral_eq_Suc pred_numeral_simps BitM.simps short_list
  by (elim disjE exE conjE) (simp_all add: hash64_tail_def Let_def ByteAs word_of_mem_xor push_bit_xor push_bit_push_bit ac_simps
      del: word_of_mem.simps(2))

lemma hash32_loop_block:
  assumes "length b = 4"
  shows "hash32_loop h (b @ q) = hash32_loop (mix32 h (word_of_mem b)) q"
  using assms by (subst hash32_loop.simps) (simp add: DecodeFixed32_def kLittleEndian_def host_word_def)

lemma hash64_loop_block:
  assumes "length b = 8"
  shows "hash64_loop h (b @ q) = hash64_loop (mix64 h (word_of_mem b)) q"
  using assms by (subst hash64_loop.simps) (simp add: DecodeFixed64_def kLittleEndian_def host_word_def)

text \<open>The loop stops with less than a block, and from two registers or two blocks it never ends alike.\<close>

lemma hash32_loop_inj:
  assumes "hash32_loop h p = Some (g, r)" and "hash32_loop h' p = Some (g', r')"
  shows "r = r' \<and> length r < 4 \<and> (g = g' \<longleftrightarrow> h = h')"
  using assms
proof (induction h p arbitrary: h' rule: hash32_loop.induct)
  case (1 h p)
  show ?case
  proof (cases "4 \<le> length p")
    case True
    then obtain k where k: "DecodeFixed32 p = Some k" by (simp add: DecodeFixed32_def kLittleEndian_def)
    have s: "hash32_loop h p = hash32_loop (mix32 h k) (drop 4 p)" for h
      using True k by (subst hash32_loop.simps) simp
    show ?thesis using 1(1)[OF True k, of "mix32 h' k"] 1(2,3) by (auto simp: s mix32_left)
  next
    case False
    then have "hash32_loop h p = Some (h, p)" for h by (subst hash32_loop.simps) simp
    then show ?thesis using 1(2,3) False by simp
  qed
qed

lemma hash32_loop_returns: "\<exists>g r. hash32_loop h p = Some (g, r)"
proof (induction h p rule: hash32_loop.induct)
  case (1 h p)
  then show ?case by (subst hash32_loop.simps) (simp add: DecodeFixed32_def)
qed

lemma hash64_loop_inj:
  assumes "hash64_loop h p = Some (g, r)" and "hash64_loop h' p = Some (g', r')"
  shows "r = r' \<and> length r < 8 \<and> (g = g' \<longleftrightarrow> h = h')"
  using assms
proof (induction h p arbitrary: h' rule: hash64_loop.induct)
  case (1 h p)
  show ?case
  proof (cases "8 \<le> length p")
    case True
    then obtain k where k: "DecodeFixed64 p = Some k" by (simp add: DecodeFixed64_def kLittleEndian_def)
    have s: "hash64_loop h p = hash64_loop (mix64 h k) (drop 8 p)" for h
      using True k by (subst hash64_loop.simps) simp
    show ?thesis using 1(1)[OF True k, of "mix64 h' k"] 1(2,3) by (auto simp: s mix64_left)
  next
    case False
    then have "hash64_loop h p = Some (h, p)" for h by (subst hash64_loop.simps) simp
    then show ?thesis using 1(2,3) False by simp
  qed
qed

lemma hash64_loop_returns: "\<exists>g r. hash64_loop h p = Some (g, r)"
proof (induction h p rule: hash64_loop.induct)
  case (1 h p)
  then show ?case by (subst hash64_loop.simps) (simp add: DecodeFixed64_def kLittleEndian_def)
qed

definition last32 :: "32 word \<Rightarrow> 32 word" where
  "last32 h = (let h = h XOR drop_bit 13 h; h = h * m32 in h XOR drop_bit 15 h)"

definition last64 :: "64 word \<Rightarrow> 64 word" where
  "last64 h = (let h = h XOR drop_bit 47 h; h = h * m64 in h XOR drop_bit 47 h)"

lemma last_inj: "last32 h = last32 h' \<longleftrightarrow> h = h'" "last64 g = last64 g' \<longleftrightarrow> g = g'"
  by (simp_all add: last32_def last64_def Let_def xor_shift times_m32 times_m64)

lemma Hash32_last: "Hash32 p seed = map_option (\<lambda>(h, p). last32 (hash32_tail h p)) (hash32_loop (seed XOR of_nat (length p)) p)"
  by (simp add: Hash32_def last32_def Let_def split: option.splits)

lemma Hash64_last: "Hash64 p seed = map_option (\<lambda>(h, p). last64 (hash64_tail h p)) (hash64_loop (seed XOR (of_nat (length p) * m64)) p)"
  by (simp add: Hash64_def last64_def Let_def split: option.splits)

lemma Hash_returns: "\<exists>h. Hash32 p s = Some h" "\<exists>h. Hash64 p s' = Some h"
  using hash32_loop_returns[of _ p] hash64_loop_returns[of _ p] by (force simp: Hash32_last Hash64_last)+

lemma tail32_inj: "length p < 4 \<Longrightarrow> hash32_tail h p = hash32_tail h' p \<longleftrightarrow> h = h'"
  by (simp add: tail32 times_m32 xor_cancel)

lemma tail64_inj: "length p < 8 \<Longrightarrow> hash64_tail h p = hash64_tail h' p \<longleftrightarrow> h = h'"
  by (simp add: tail64 times_m64 xor_cancel)

text \<open>Two buffers that differ in one block only never collide.\<close>

lemma hash32_loop_prefix:
  assumes "length p mod 4 = 0"
  shows "\<exists>g. \<forall>q. hash32_loop h (p @ q) = hash32_loop g q"
  using assms
proof (induction "length p" arbitrary: h p rule: less_induct)
  case less
  show ?case
  proof (cases "p = []")
    case False
    then have l: "4 \<le> length p" using less.prems by (cases "length p < 4") auto
    then have "\<exists>g. \<forall>q. hash32_loop (mix32 h (word_of_mem (take 4 p))) (drop 4 p @ q) = hash32_loop g q"
      using less.prems by (intro less.hyps) (auto simp: le_mod_geq)
    moreover have "hash32_loop h (p @ q) = hash32_loop (mix32 h (word_of_mem (take 4 p))) (drop 4 p @ q)" for q
      using hash32_loop_block[of "take 4 p" h "drop 4 p @ q"] l by (simp flip: append_assoc)
    ultimately show ?thesis by simp
  qed auto
qed

lemma hash64_loop_prefix:
  assumes "length p mod 8 = 0"
  shows "\<exists>g. \<forall>q. hash64_loop h (p @ q) = hash64_loop g q"
  using assms
proof (induction "length p" arbitrary: h p rule: less_induct)
  case less
  show ?case
  proof (cases "p = []")
    case False
    then have l: "8 \<le> length p" using less.prems by (cases "length p < 8") auto
    then have "\<exists>g. \<forall>q. hash64_loop (mix64 h (word_of_mem (take 8 p))) (drop 8 p @ q) = hash64_loop g q"
      using less.prems by (intro less.hyps) (auto simp: le_mod_geq)
    moreover have "hash64_loop h (p @ q) = hash64_loop (mix64 h (word_of_mem (take 8 p))) (drop 8 p @ q)" for q
      using hash64_loop_block[of "take 8 p" h "drop 8 p @ q"] l by (simp flip: append_assoc)
    ultimately show ?thesis by simp
  qed auto
qed

lemma Hash32_block_inj:
  assumes "length p mod 4 = 0" and "length b = 4" and "length b' = 4" and "b \<noteq> b'"
  shows "Hash32 (p @ b @ q) seed \<noteq> Hash32 (p @ b' @ q) seed"
proof
  assume e: "Hash32 (p @ b @ q) seed = Hash32 (p @ b' @ q) seed"
  define s where "s = seed XOR of_nat (length (p @ b @ q))"
  have s': "seed XOR of_nat (length (p @ b' @ q)) = s" by (simp add: s_def assms(2,3))
  obtain g where g: "hash32_loop s (p @ q) = hash32_loop g q" for q
    using hash32_loop_prefix[OF assms(1)] by blast
  obtain x r where x: "hash32_loop (mix32 g (word_of_mem b)) q = Some (x, r)" using hash32_loop_returns by blast
  obtain y r' where y: "hash32_loop (mix32 g (word_of_mem b')) q = Some (y, r')" using hash32_loop_returns by blast
  note i = hash32_loop_inj[OF x y]
  have "last32 (hash32_tail x r) = last32 (hash32_tail y r)"
    using e i unfolding Hash32_last s_def[symmetric] s' by (simp add: g hash32_loop_block assms(2,3) x y)
  then have "mix32 g (word_of_mem b) = mix32 g (word_of_mem b')" using i tail32_inj[of r x y] by (auto simp: last_inj)
  then have "(word_of_mem b :: 32 word) = word_of_mem b'" by (simp add: mix32_right)
  then show False using word_of_mem_inj[of b b', where ?'a = 32] assms(2-4) by simp
qed

lemma Hash64_block_inj:
  assumes "length p mod 8 = 0" and "length b = 8" and "length b' = 8" and "b \<noteq> b'"
  shows "Hash64 (p @ b @ q) seed \<noteq> Hash64 (p @ b' @ q) seed"
proof
  assume e: "Hash64 (p @ b @ q) seed = Hash64 (p @ b' @ q) seed"
  define s where "s = seed XOR (of_nat (length (p @ b @ q)) * m64)"
  have s': "seed XOR (of_nat (length (p @ b' @ q)) * m64) = s" by (simp add: s_def assms(2,3))
  obtain g where g: "hash64_loop s (p @ q) = hash64_loop g q" for q
    using hash64_loop_prefix[OF assms(1)] by blast
  obtain x r where x: "hash64_loop (mix64 g (word_of_mem b)) q = Some (x, r)" using hash64_loop_returns by blast
  obtain y r' where y: "hash64_loop (mix64 g (word_of_mem b')) q = Some (y, r')" using hash64_loop_returns by blast
  note i = hash64_loop_inj[OF x y]
  have "last64 (hash64_tail x r) = last64 (hash64_tail y r)"
    using e i unfolding Hash64_last s_def[symmetric] s' by (simp add: g hash64_loop_block assms(2,3) x y)
  then have "mix64 g (word_of_mem b) = mix64 g (word_of_mem b')" using i tail64_inj[of r x y] by (auto simp: last_inj)
  then have "(word_of_mem b :: 64 word) = word_of_mem b'" by (simp add: mix64_right)
  then show False using word_of_mem_inj[of b b', where ?'a = 64] assms(2-4) by simp
qed

end
