(* ===== verification/Philox.thy ===== *)
theory Philox
  imports Coding
begin

text \<open>
  The random numbers of tensorflow/core/lib/random: the counter-based generator of philox_random.h, the
  adapter of random_distributions.h that hands its blocks out word by word, the uniform distributions
  over integers, and the rejection sampling of exact_uniform_int.h and simple_philox.cc.

  A generator is a record; an operation that changes it returns the new one. The rejection loop may not
  end for a bad source of bits, so it is a \<open>partial_function\<close> into \<open>option\<close>.
\<close>

type_synonym u32 = "32 word"
type_synonym block4 = "u32 \<times> u32 \<times> u32 \<times> u32"

record PhiloxRandom =
  rng_counter :: block4
  rng_key :: "u32 \<times> u32"

definition PhiloxRandom_seed :: "64 word \<Rightarrow> PhiloxRandom" where
  "PhiloxRandom_seed seed = \<lparr>rng_counter = (0, 0, 0, 0), rng_key = (ucast seed, ucast (drop_bit 32 seed))\<rparr>"

definition PhiloxRandom_seed2 :: "64 word \<Rightarrow> 64 word \<Rightarrow> PhiloxRandom" where
  "PhiloxRandom_seed2 seed_lo seed_hi = \<lparr>rng_counter = (0, 0, ucast seed_hi, ucast (drop_bit 32 seed_hi)),
     rng_key = (ucast seed_lo, ucast (drop_bit 32 seed_lo))\<rparr>"

definition Skip :: "64 word \<Rightarrow> PhiloxRandom \<Rightarrow> PhiloxRandom" where
  "Skip count g = (case rng_counter g of (c0, c1, c2, c3) \<Rightarrow>
     let count_lo = ucast count; count_hi = ucast (drop_bit 32 count);
       c0 = c0 + count_lo;
       count_hi = (if c0 < count_lo then count_hi + 1 else count_hi);
       c1 = c1 + count_hi;
       (c2, c3) = (if c1 < count_hi then (c2 + 1, if c2 + 1 = 0 then c3 + 1 else c3) else (c2, c3))
     in g\<lparr>rng_counter := (c0, c1, c2, c3)\<rparr>)"

definition kPhiloxW32A :: u32 where
  "kPhiloxW32A = 0x9E3779B9"

definition kPhiloxW32B :: u32 where
  "kPhiloxW32B = 0xBB67AE85"

definition kPhiloxM4x32A :: u32 where
  "kPhiloxM4x32A = 0xD2511F53"

definition kPhiloxM4x32B :: u32 where
  "kPhiloxM4x32B = 0xCD9E8D57"

definition SkipOne :: "PhiloxRandom \<Rightarrow> PhiloxRandom" where
  "SkipOne g = (case rng_counter g of (c0, c1, c2, c3) \<Rightarrow>
     let c0 = c0 + 1 in
     if c0 \<noteq> 0 then g\<lparr>rng_counter := (c0, c1, c2, c3)\<rparr> else let c1 = c1 + 1 in
     if c1 \<noteq> 0 then g\<lparr>rng_counter := (c0, c1, c2, c3)\<rparr> else let c2 = c2 + 1 in
     if c2 \<noteq> 0 then g\<lparr>rng_counter := (c0, c1, c2, c3)\<rparr> else g\<lparr>rng_counter := (c0, c1, c2, c3 + 1)\<rparr>)"

text \<open>The low and the high word of a product.\<close>

definition MultiplyHighLow :: "u32 \<Rightarrow> u32 \<Rightarrow> u32 \<times> u32" where
  "MultiplyHighLow a b = (let product = ucast a * ucast b :: 64 word in (ucast product, ucast (drop_bit 32 product)))"

definition ComputeSingleRound :: "block4 \<Rightarrow> u32 \<times> u32 \<Rightarrow> block4" where
  "ComputeSingleRound counter key = (case counter of (c0, c1, c2, c3) \<Rightarrow>
     let (lo0, hi0) = MultiplyHighLow kPhiloxM4x32A c0; (lo1, hi1) = MultiplyHighLow kPhiloxM4x32B c2
     in (hi1 XOR c1 XOR fst key, lo1, hi0 XOR c3 XOR snd key, lo0))"

definition RaiseKey :: "u32 \<times> u32 \<Rightarrow> u32 \<times> u32" where
  "RaiseKey key = (fst key + kPhiloxW32A, snd key + kPhiloxW32B)"

text \<open>The ten rounds, unrolled as in the code.\<close>

definition rounds :: "block4 \<Rightarrow> u32 \<times> u32 \<Rightarrow> block4" where
  "rounds counter key =
     (let counter = ComputeSingleRound counter key; key = RaiseKey key;
          counter = ComputeSingleRound counter key; key = RaiseKey key;
          counter = ComputeSingleRound counter key; key = RaiseKey key;
          counter = ComputeSingleRound counter key; key = RaiseKey key;
          counter = ComputeSingleRound counter key; key = RaiseKey key;
          counter = ComputeSingleRound counter key; key = RaiseKey key;
          counter = ComputeSingleRound counter key; key = RaiseKey key;
          counter = ComputeSingleRound counter key; key = RaiseKey key;
          counter = ComputeSingleRound counter key; key = RaiseKey key
      in ComputeSingleRound counter key)"

definition philox :: "PhiloxRandom \<Rightarrow> block4 \<times> PhiloxRandom" where
  "philox g = (rounds (rng_counter g) (rng_key g), SkipOne g)"

subsection \<open>The counter\<close>

fun counter_value :: "block4 \<Rightarrow> nat" where
  "counter_value (c0, c1, c2, c3) = unat c0 + 2 ^ 32 * unat c1 + 2 ^ 64 * unat c2 + 2 ^ 96 * unat c3"

definition position :: "PhiloxRandom \<Rightarrow> nat" where
  "position g = counter_value (rng_counter g)"

lemma wrap_mod: "v < M \<Longrightarrow> v = x \<or> v + M = x \<Longrightarrow> v = x mod (M :: nat)"
  by auto

lemma unat_sum:
  "unat (a + b :: u32) = (if unat a + unat b < 2 ^ 32 then unat a + unat b else unat a + unat b - 2 ^ 32)"
  using unat_plus_if'[of a b] by simp

lemma unat_inc: "(c :: u32) + 1 = 0 \<longleftrightarrow> unat c + 1 = 2 ^ 32"
proof -
  have "c + 1 = 0 \<longleftrightarrow> unat (c + 1) = 0" by (simp only: unat_eq_0)
  also have "\<dots> \<longleftrightarrow> unat c + 1 = 2 ^ 32" using unat_sum[of c 1] unat_less[of c] by auto
  finally show ?thesis .
qed

lemma counter_value_less: "counter_value c < 2 ^ 128"
proof -
  obtain c0 c1 c2 c3 where c: "c = (c0, c1, c2, c3)" by (cases c) auto
  show ?thesis using unat_less[of c0] unat_less[of c1] unat_less[of c2] unat_less[of c3] by (simp add: c)
qed

lemma SkipOne_position: "position (SkipOne g) = (position g + 1) mod 2 ^ 128"
proof (rule wrap_mod)
  obtain c0 c1 c2 c3 where c: "rng_counter g = (c0, c1, c2, c3)" by (cases "rng_counter g") auto
  consider "c0 + 1 \<noteq> 0" | "c0 + 1 = 0" "c1 + 1 \<noteq> 0" | "c0 + 1 = 0" "c1 + 1 = 0" "c2 + 1 \<noteq> 0"
    | "c0 + 1 = 0" "c1 + 1 = 0" "c2 + 1 = 0" by blast
  then show "position (SkipOne g) = position g + 1 \<or> position (SkipOne g) + 2 ^ 128 = position g + 1"
    by cases (use unat_less[of c0] unat_less[of c1] unat_less[of c2] unat_less[of c3] in
      \<open>auto simp: position_def SkipOne_def c Let_def unat_inc unat_sum\<close>)
qed (unfold position_def, rule counter_value_less)

text \<open>The carry into the upper half of the counter is lost when the upper word of the count is all ones
  and the lower words carry: \<open>++count_hi\<close> is then zero.\<close>

definition carry_lost :: "64 word \<Rightarrow> PhiloxRandom \<Rightarrow> bool" where
  "carry_lost count g \<longleftrightarrow> 2 ^ 32 \<le> unat (fst (rng_counter g)) + unat (ucast count :: u32)
     \<and> (ucast (drop_bit 32 count) :: u32) + 1 = 0"

lemma unat_halves: "unat (count :: 64 word) = unat (ucast count :: u32) + 2 ^ 32 * unat (ucast (drop_bit 32 count) :: u32)"
proof -
  have "unat (ucast count :: u32) = unat count mod 2 ^ 32" by (simp add: unsigned_ucast_eq take_bit_eq_mod)
  moreover have "unat (ucast (drop_bit 32 count) :: u32) = unat count div 2 ^ 32"
    using unat_less[of count] by (simp add: unsigned_ucast_eq unat_drop take_bit_eq_mod less_mult_imp_div_less)
  ultimately show ?thesis by simp
qed

lemma sum_less: "(a + b :: u32) < b \<longleftrightarrow> 2 ^ 32 \<le> unat a + unat b"
  using unat_less[of a] unat_less[of b] by (auto simp: word_less_nat_alt unat_sum)

lemma Skip_position:
  "position (Skip count g) = (position g + unat count - (if carry_lost count g then 2 ^ 64 else 0)) mod 2 ^ 128"
proof (rule wrap_mod)
  obtain c0 c1 c2 c3 where c: "rng_counter g = (c0, c1, c2, c3)" by (cases "rng_counter g") auto
  define lo hi :: u32 where "lo = ucast count" and "hi = ucast (drop_bit 32 count)"
  have n: "unat count = unat lo + 2 ^ 32 * unat hi" unfolding lo_def hi_def by (rule unat_halves)
  define h where "h = (if c0 + lo < lo then hi + 1 else hi)"
  have h: "unat h = (if 2 ^ 32 \<le> unat c0 + unat lo then if hi + 1 = 0 then 0 else unat hi + 1 else unat hi)"
    using unat_less[of hi] by (auto simp: h_def sum_less unat_inc unat_sum)
  have p: "position (Skip count g) = counter_value (c0 + lo, c1 + h, if c1 + h < h then c2 + 1 else c2,
      if c1 + h < h \<and> c2 + 1 = 0 then c3 + 1 else c3)"
    by (simp add: position_def Skip_def c Let_def h_def lo_def hi_def)
  show "position (Skip count g) = position g + unat count - (if carry_lost count g then 2 ^ 64 else 0) \<or>
      position (Skip count g) + 2 ^ 128 = position g + unat count - (if carry_lost count g then 2 ^ 64 else 0)"
    unfolding p unfolding n carry_lost_def position_def c lo_def[symmetric] hi_def[symmetric]
    using h unat_less[of c0] unat_less[of c1] unat_less[of c2] unat_less[of c3] unat_less[of lo] unat_less[of hi]
    by (auto simp: sum_less unat_inc unat_sum)
qed (unfold position_def, rule counter_value_less)

subsection \<open>No block twice\<close>

text \<open>The low word of a product with an odd constant determines the other factor.\<close>

lemma MultiplyHighLow_low: "fst (MultiplyHighLow a b) = a * b"
proof -
  have "ucast (ucast a * ucast b :: 64 word) = a * b"
    by transfer (simp add: take_bit_mult)
  then show ?thesis by (simp add: MultiplyHighLow_def Let_def)
qed

lemma low_inj:
  "fst (MultiplyHighLow kPhiloxM4x32A b) = fst (MultiplyHighLow kPhiloxM4x32A b') \<longleftrightarrow> b = b'"
  "fst (MultiplyHighLow kPhiloxM4x32B b) = fst (MultiplyHighLow kPhiloxM4x32B b') \<longleftrightarrow> b = b'"
proof -
  have "kPhiloxM4x32A * 0x991a7cdb = 1" "kPhiloxM4x32B * 0x6d7cae67 = 1" by (simp_all add: kPhiloxM4x32A_def kPhiloxM4x32B_def)
  from this[THEN times_unit]
  show "fst (MultiplyHighLow kPhiloxM4x32A b) = fst (MultiplyHighLow kPhiloxM4x32A b') \<longleftrightarrow> b = b'"
    "fst (MultiplyHighLow kPhiloxM4x32B b) = fst (MultiplyHighLow kPhiloxM4x32B b') \<longleftrightarrow> b = b'"
    by (simp_all add: MultiplyHighLow_low mult.commute[of kPhiloxM4x32A] mult.commute[of kPhiloxM4x32B])
qed

lemma ComputeSingleRound_inj: "ComputeSingleRound c k = ComputeSingleRound c' k \<longleftrightarrow> c = c'"
proof
  obtain c0 c1 c2 c3 where c: "c = (c0, c1, c2, c3)" by (cases c) auto
  obtain d0 d1 d2 d3 where d: "c' = (d0, d1, d2, d3)" by (cases c') auto
  assume e: "ComputeSingleRound c k = ComputeSingleRound c' k"
  then have "c0 = d0" "c2 = d2" using low_inj unfolding c d
    by (auto simp: ComputeSingleRound_def case_prod_unfold Let_def)
  then show "c = c'" using e unfolding c d
    by (auto simp: ComputeSingleRound_def case_prod_unfold Let_def xor_cancel xor_cancel_left)
qed simp

lemma rounds_inj: "rounds c k = rounds c' k \<longleftrightarrow> c = c'"
  by (simp add: rounds_def Let_def ComputeSingleRound_inj)

definition steps :: "nat \<Rightarrow> PhiloxRandom \<Rightarrow> PhiloxRandom" where
  "steps n = (snd \<circ> philox) ^^ n"

definition philox_block :: "nat \<Rightarrow> PhiloxRandom \<Rightarrow> block4" where
  "philox_block n g = fst (philox (steps n g))"

lemma steps_Suc: "steps (Suc n) g = SkipOne (steps n g)"
  by (simp add: steps_def philox_def)

lemma key_SkipOne: "rng_key (SkipOne g) = rng_key g"
  by (simp add: SkipOne_def Let_def split: prod.splits)

lemma key_steps: "rng_key (steps n g) = rng_key g"
  by (induction n) (simp_all add: steps_Suc key_SkipOne, simp add: steps_def)

lemma steps_position: "position (steps n g) = (position g + n) mod 2 ^ 128"
proof (induction n)
  case 0
  have "position g < 2 ^ 128" unfolding position_def by (rule counter_value_less)
  then show ?case by (simp add: steps_def)
next
  case (Suc n)
  then have "position (steps (Suc n) g) = ((position g + n) mod 2 ^ 128 + 1) mod 2 ^ 128"
    by (simp only: steps_Suc SkipOne_position)
  also have "\<dots> = (position g + Suc n) mod 2 ^ 128" by (simp only: mod_add_left_eq add.assoc Suc_eq_plus1)
  finally show ?case .
qed

lemma blocks_differ:
  assumes "i < j" and "j < i + 2 ^ 128"
  shows "philox_block i g \<noteq> philox_block j g"
proof
  assume "philox_block i g = philox_block j g"
  then have "rng_counter (steps i g) = rng_counter (steps j g)"
    by (simp add: philox_block_def philox_def key_steps rounds_inj)
  then have "position (steps i g) = position (steps j g)" by (simp only: position_def)
  then have "(position g + i) mod 2 ^ 128 = (position g + j) mod 2 ^ 128" by (simp only: steps_position)
  then have "(position g + j) mod 2 ^ 128 = (position g + i) mod 2 ^ 128" ..
  moreover have "position g + i \<le> position g + j" using assms(1) by simp
  ultimately have "(2 :: nat) ^ 128 dvd (position g + j) - (position g + i)" by (simp only: mod_eq_dvd_iff_nat)
  then have "(2 :: nat) ^ 128 \<le> (position g + j) - (position g + i)" by (rule dvd_imp_le) (use assms(1) in simp)
  then show False using assms(2) by simp
qed

text \<open>\<open>Skip\<close> without a lost carry is that many calls.\<close>

lemma digit_eq: "x < M \<Longrightarrow> x' < M \<Longrightarrow> x + M * y = x' + M * (y' :: nat) \<Longrightarrow> x = x' \<and> y = y'"
proof -
  assume l: "x < M" "x' < M" and e: "x + M * y = x' + M * y'"
  have "(x + M * y) mod M = (x' + M * y') mod M" by (simp only: e)
  then have "x = x'" using l by simp
  then show ?thesis using e l by simp
qed

lemma counter_value_inj: "counter_value c = counter_value d \<longleftrightarrow> c = d"
proof
  obtain c0 c1 c2 c3 where c: "c = (c0, c1, c2, c3)" by (cases c) auto
  obtain d0 d1 d2 d3 where d: "d = (d0, d1, d2, d3)" by (cases d) auto
  assume e: "counter_value c = counter_value d"
  have "unat c0 + 2 ^ 32 * (unat c1 + 2 ^ 32 * (unat c2 + 2 ^ 32 * unat c3))
      = unat d0 + 2 ^ 32 * (unat d1 + 2 ^ 32 * (unat d2 + 2 ^ 32 * unat d3))" using e unfolding c d by simp
  from digit_eq[OF _ _ this] have "unat c0 = unat d0" and r: "unat c1 + 2 ^ 32 * (unat c2 + 2 ^ 32 * unat c3)
      = unat d1 + 2 ^ 32 * (unat d2 + 2 ^ 32 * unat d3)" using unat_less[of c0] unat_less[of d0] by simp_all
  from digit_eq[OF _ _ r] have "unat c1 = unat d1" and r': "unat c2 + 2 ^ 32 * unat c3 = unat d2 + 2 ^ 32 * unat d3"
    using unat_less[of c1] unat_less[of d1] by simp_all
  from digit_eq[OF _ _ r'] have "unat c2 = unat d2" "unat c3 = unat d3"
    using unat_less[of c2] unat_less[of d2] by simp_all
  with \<open>unat c0 = unat d0\<close> \<open>unat c1 = unat d1\<close>
  show "c = d" unfolding c d by (simp add: word_unat_eq_iff)
qed simp

lemma Skip_steps:
  assumes "\<not> carry_lost count g"
  shows "Skip count g = steps (unat count) g"
proof (rule PhiloxRandom.equality)
  have "position (Skip count g) = position (steps (unat count) g)"
    using assms by (simp add: Skip_position steps_position)
  then show "rng_counter (Skip count g) = rng_counter (steps (unat count) g)"
    by (simp only: position_def counter_value_inj)
  show "rng_key (Skip count g) = rng_key (steps (unat count) g)"
    by (simp add: key_steps Skip_def Let_def split: prod.splits)
qed simp

end
