(* ===== verification/Uniform.thy ===== *)
theory Uniform
  imports Philox Fp
begin

text \<open>
  Single random numbers from the blocks of the generator (tensorflow/core/lib/random/random_distributions.h,
  simple_philox.h, simple_philox.cc, exact_uniform_int.h): the adapter that hands out a block word by
  word, integers and floating-point numbers of an interval, and integers below a bound by rejection. The
  rejection loop may not end for a bad source of bits: it is a \<open>partial_function\<close> into \<open>option\<close>.
\<close>

subsection \<open>One word at a time\<close>

record SingleSampleAdapter =
  generator :: PhiloxRandom
  unused_results :: "u32 list"
  used_result_index :: nat

definition kResultElementCount :: nat where
  "kResultElementCount = 4"

definition block_list :: "block4 \<Rightarrow> u32 list" where
  "block_list b = (case b of (b0, b1, b2, b3) \<Rightarrow> [b0, b1, b2, b3])"

definition SimplePhilox_new :: "PhiloxRandom \<Rightarrow> SingleSampleAdapter" where
  "SimplePhilox_new gen = \<lparr>generator = gen, unused_results = [0, 0, 0, 0], used_result_index = kResultElementCount\<rparr>"

definition single :: "SingleSampleAdapter \<Rightarrow> u32 \<times> SingleSampleAdapter" where
  "single a = (let a = (if used_result_index a = kResultElementCount
       then (case philox (generator a) of (r, g) \<Rightarrow> \<lparr>generator = g, unused_results = block_list r, used_result_index = 0\<rparr>)
       else a)
     in (unused_results a ! used_result_index a, a\<lparr>used_result_index := used_result_index a + 1\<rparr>))"

definition Rand32 :: "SingleSampleAdapter \<Rightarrow> u32 \<times> SingleSampleAdapter" where
  "Rand32 a = single a"

definition Rand64 :: "SingleSampleAdapter \<Rightarrow> 64 word \<times> SingleSampleAdapter" where
  "Rand64 a = (case single a of (lo, a) \<Rightarrow> case single a of (hi, a) \<Rightarrow> (ucast lo OR push_bit 32 (ucast hi), a))"

subsection \<open>Numbers of the unit interval\<close>

definition binary16 :: fmt where
  "binary16 = \<lparr>prec = 11, emin = - 14, emax = 15\<rparr>"

text \<open>The value of an interchange format's bits: a sign, the biased exponent, and \<open>prec - 1\<close> bits.\<close>

definition fp_of_bits :: "fmt \<Rightarrow> 'a::len word \<Rightarrow> fp" where
  "fp_of_bits f w = (let p = prec f - 1; m = int (unat (take_bit p w)); e = int (unat (take_bit (LENGTH('a) - prec f) (drop_bit p w)));
       s = bit w (LENGTH('a) - 1); v = (if e = 0 then of_int m * pow2 (emin f - int p) else of_int (2 ^ p + m) * pow2 (e - emax f - int p))
     in if e = 2 ^ (LENGTH('a) - prec f) - 1 then (if m = 0 then Inf s else NaN) else Fin (if s then - v else v))"

definition Uint16ToHalf :: "16 word \<Rightarrow> fp" where
  "Uint16ToHalf x = (let man = x AND 0x3ff; exp = 15; val = push_bit 10 exp OR man
     in fcast binary16 (fsub binary32 (fp_of_bits binary16 val) (Fin 1)))"

definition Uint32ToFloat :: "u32 \<Rightarrow> fp" where
  "Uint32ToFloat x = (let man = x AND 0x7fffff; exp = 127; val = push_bit 23 exp OR man
     in fsub binary32 (fp_of_bits binary32 val) (Fin 1))"

definition Uint64ToDouble :: "u32 \<Rightarrow> u32 \<Rightarrow> fp" where
  "Uint64ToDouble x0 x1 = (let mhi = x0 AND 0xfffff; mlo = x1; man = push_bit 32 (ucast mhi) OR ucast mlo :: 64 word;
       exp = 1023; val = push_bit 52 exp OR man
     in fsub binary64 (fp_of_bits binary64 val) (Fin 1))"

definition RandFloat :: "SingleSampleAdapter \<Rightarrow> fp \<times> SingleSampleAdapter" where
  "RandFloat a = (case single a of (x, a) \<Rightarrow> (Uint32ToFloat x, a))"

definition RandDouble :: "SingleSampleAdapter \<Rightarrow> fp \<times> SingleSampleAdapter" where
  "RandDouble a = (case single a of (x0, a) \<Rightarrow> case single a of (x1, a) \<Rightarrow> (Uint64ToDouble x0 x1, a))"

subsection \<open>Distributions over a block\<close>

definition uniform_half :: "PhiloxRandom \<Rightarrow> fp list \<times> PhiloxRandom" where
  "uniform_half gen = (case philox gen of (sample, gen) \<Rightarrow> (map (\<lambda>x. Uint16ToHalf (ucast x)) (block_list sample), gen))"

definition uniform_float :: "PhiloxRandom \<Rightarrow> fp list \<times> PhiloxRandom" where
  "uniform_float gen = (case philox gen of (sample, gen) \<Rightarrow> (map Uint32ToFloat (block_list sample), gen))"

definition uniform_double :: "PhiloxRandom \<Rightarrow> fp list \<times> PhiloxRandom" where
  "uniform_double gen = (case philox gen of (sample, gen) \<Rightarrow>
     (map (\<lambda>i. Uint64ToDouble (block_list sample ! (2 * i)) (block_list sample ! (2 * i + 1))) [0..<kResultElementCount div 2], gen))"

text \<open>A bound \<open>lo\<close> and the number of values, as the constructor computes it. A remainder by zero does not
  return a value.\<close>

definition uniform_int32 :: "32 word \<Rightarrow> 32 word \<Rightarrow> PhiloxRandom \<Rightarrow> (32 word list \<times> PhiloxRandom) option" where
  "uniform_int32 lo hi gen = (let range = hi - lo in if range = 0 then None
     else case philox gen of (sample, gen) \<Rightarrow> Some (map (\<lambda>x. lo + x mod range) (block_list sample), gen))"

definition uniform_int64 :: "64 word \<Rightarrow> 64 word \<Rightarrow> PhiloxRandom \<Rightarrow> (64 word list \<times> PhiloxRandom) option" where
  "uniform_int64 lo hi gen = (let range = hi - lo in if range = 0 then None
     else case philox gen of (sample, gen) \<Rightarrow> Some (map (\<lambda>i. let bits = ucast (block_list sample ! (2 * i))
         OR push_bit 32 (ucast (block_list sample ! (2 * i + 1))) in lo + bits mod range) [0..<kResultElementCount div 2], gen))"

subsection \<open>Rejection\<close>

partial_function (option) reject :: "('s \<Rightarrow> 'a::len word \<times> 's) \<Rightarrow> 'a word \<Rightarrow> 's \<Rightarrow> ('a word \<times> 's) option" where
  "reject random rem s = (case random s of (r, s) \<Rightarrow> if r < rem then reject random rem s else Some (r, s))"

definition ExactUniformInt :: "'a::len word \<Rightarrow> ('s \<Rightarrow> 'a word \<times> 's) \<Rightarrow> 's \<Rightarrow> ('a word \<times> 's) option" where
  "ExactUniformInt n random s =
     (if n = 0 then (case random s of (r, s) \<Rightarrow> Some (r * n, s))
      else if n AND (n - 1) = 0 then (case random s of (r, s) \<Rightarrow> Some (r AND (n - 1), s))
      else let range = NOT 0; rem = range mod n + 1 in
        (case reject random rem s of None \<Rightarrow> None | Some (r, s) \<Rightarrow> Some (r mod n, s)))"

definition Uniform32 :: "u32 \<Rightarrow> SingleSampleAdapter \<Rightarrow> (u32 \<times> SingleSampleAdapter) option" where
  "Uniform32 n a = ExactUniformInt n Rand32 a"

definition Uniform64 :: "64 word \<Rightarrow> SingleSampleAdapter \<Rightarrow> (64 word \<times> SingleSampleAdapter) option" where
  "Uniform64 n a = ExactUniformInt n Rand64 a"

definition OneIn :: "u32 \<Rightarrow> SingleSampleAdapter \<Rightarrow> (bool \<times> SingleSampleAdapter) option" where
  "OneIn n a = (case Uniform32 n a of None \<Rightarrow> None | Some (r, a) \<Rightarrow> Some (r = 0, a))"

text \<open>\<open>CHECK\<close> aborts. The shift of an \<open>int\<close> by 31 wraps.\<close>

definition Skewed :: "int \<Rightarrow> SingleSampleAdapter \<Rightarrow> (u32 \<times> SingleSampleAdapter) option" where
  "Skewed max_log a = (if 0 \<le> max_log \<and> max_log \<le> 32
     then (case Rand32 a of (r, a) \<Rightarrow>
       let shift = unat (r mod of_int (max_log + 1)); mask = (if shift = 32 then NOT 0 else push_bit shift 1 - 1)
       in case Rand32 a of (r, a) \<Rightarrow> Some (r AND mask, a))
     else None)"

subsection \<open>The words come in the order of the blocks\<close>

lemma block_list_len [simp]: "length (block_list b) = 4"
  by (simp add: block_list_def split: prod.splits)

definition draws :: "nat \<Rightarrow> SingleSampleAdapter \<Rightarrow> SingleSampleAdapter" where
  "draws n = (snd \<circ> single) ^^ n"

lemma draws_Suc: "draws (Suc n) a = snd (single (draws n a))"
  by (simp add: draws_def)

lemma single_state:
  "draws (Suc n) (SimplePhilox_new g) = \<lparr>generator = steps (Suc (n div 4)) g,
     unused_results = block_list (philox_block (n div 4) g), used_result_index = Suc (n mod 4)\<rparr>"
proof (induction n)
  case 0
  show ?case
    by (simp add: draws_def single_def SimplePhilox_new_def philox_block_def steps_def split: prod.splits)
next
  case (Suc n)
  have s: "snd (philox x) = SkipOne x" for x by (simp add: philox_def)
  show ?case
  proof (cases "n mod 4 = 3")
    case True
    then have "Suc n div 4 = Suc (n div 4)" "Suc n mod 4 = 0" by presburger+
    then show ?thesis using True unfolding draws_Suc[of "Suc n"] Suc
      by (simp add: single_def kResultElementCount_def steps_Suc philox_block_def case_prod_unfold s)
  next
    case False
    then have "Suc n div 4 = n div 4" "Suc n mod 4 = Suc (n mod 4)" by presburger+
    then show ?thesis using False unfolding draws_Suc[of "Suc n"] Suc
      by (simp add: single_def kResultElementCount_def)
  qed
qed

lemma single_reads: "fst (single (draws n (SimplePhilox_new g))) = block_list (philox_block (n div 4) g) ! (n mod 4)"
proof (cases n)
  case 0
  then show ?thesis by (simp add: draws_def single_def SimplePhilox_new_def philox_block_def steps_def split: prod.splits)
next
  case (Suc m)
  show ?thesis
  proof (cases "m mod 4 = 3")
    case True
    then have "Suc m div 4 = Suc (m div 4)" "Suc m mod 4 = 0" by presburger+
    then show ?thesis using True unfolding Suc single_state
      by (simp add: single_def kResultElementCount_def philox_block_def case_prod_unfold)
  next
    case False
    then have "Suc m div 4 = m div 4" "Suc m mod 4 = Suc (m mod 4)" by presburger+
    then show ?thesis using False unfolding Suc single_state
      by (simp add: single_def kResultElementCount_def)
  qed
qed

subsection \<open>The rejection\<close>

definition rejected :: "'a::len word \<Rightarrow> 'a word" where
  "rejected n = NOT 0 mod n + 1"

lemma reject_result:
  assumes "reject random rem s = Some y"
  shows "\<not> fst y < rem"
  by (rule reject.raw_induct[where P = "\<lambda>random rem s y. \<not> fst y < rem", OF _ assms]) (auto split: prod.splits if_splits)

lemma reject_returns:
  assumes "\<not> fst (random (((snd \<circ> random) ^^ k) s)) < rem"
  shows "\<exists>r t. reject random rem s = Some (r, t)"
  using assms
proof (induction k arbitrary: s)
  case 0
  then show ?case by (subst reject.simps) (auto split: prod.splits)
next
  case (Suc k)
  obtain r t where r: "random s = (r, t)" by fastforce
  have "((snd \<circ> random) ^^ Suc k) s = ((snd \<circ> random) ^^ k) t" by (simp only: funpow_Suc_right comp_apply r snd_conv)
  with Suc.prems have "\<not> fst (random (((snd \<circ> random) ^^ k) t)) < rem" by (simp only: not_False_eq_True)
  then have "\<exists>r' t'. reject random rem t = Some (r', t')" by (rule Suc.IH)
  then show ?case by (subst reject.simps) (simp add: r)
qed

lemma ExactUniformInt_less:
  assumes "ExactUniformInt n random s = Some (r, t)" and "n \<noteq> 0"
  shows "r < n"
proof -
  have m: "x mod n < n" for x using assms(2) by (simp add: word_less_nat_alt unat_mod unat_gt_0)
  have a: "x AND (n - 1) < n" for x
  proof -
    have "x AND (n - 1) \<le> n - 1" by (rule word_and_le1)
    also have "n - 1 < n" using assms(2) by (simp add: word_less_nat_alt unat_minus_one unat_gt_0)
    finally show ?thesis .
  qed
  show ?thesis using assms m a by (auto simp: ExactUniformInt_def Let_def split: if_splits prod.splits option.splits)
qed

lemma rejected_unat:
  fixes n :: "'a::len word"
  assumes "n \<noteq> 0" and "\<not> unat n dvd 2 ^ LENGTH('a)"
  shows "unat (rejected n) = 2 ^ LENGTH('a) mod unat n"
proof -
  let ?N = "2 ^ LENGTH('a) :: nat"
  have m: "unat (NOT 0 mod n :: 'a word) = (?N - 1) mod unat n" by (simp add: unat_mod unsigned_not_eq unsigned_minus_1_eq_mask mask_eq_exp_minus_1)
  have n: "0 < unat n" using assms(1) by (simp add: unat_gt_0)
  have s: "?N mod unat n = Suc ((?N - 1) mod unat n)"
    using assms(2) mod_Suc[of "?N - 1" "unat n"] by (auto simp: dvd_eq_mod_eq_0 split: if_splits)
  have "?N mod unat n < unat n" using n by simp
  also have "unat n < ?N" by (rule unat_less)
  finally show ?thesis unfolding rejected_def using s m by (subst unat_plus_if') simp
qed

lemma ExactUniformInt_returns:
  assumes "n \<noteq> 0 \<and> n AND (n - 1) \<noteq> 0 \<Longrightarrow> \<not> fst (random (((snd \<circ> random) ^^ k) s)) < rejected n"
  shows "\<exists>r t. ExactUniformInt n random s = Some (r, t)"
proof (cases "n \<noteq> 0 \<and> n AND (n - 1) \<noteq> 0")
  case True
  then show ?thesis using reject_returns[of random k s "rejected n"] assms
    by (auto simp: ExactUniformInt_def Let_def rejected_def)
qed (auto simp: ExactUniformInt_def split: prod.splits)

text \<open>Every result has the same number of accepted words.\<close>

lemma residues:
  assumes "0 < n" and "r < n"
  shows "card {x \<in> {a..<a + q * n}. x mod n = r} = (q :: nat)"
proof (induction q)
  case (Suc q)
  define b where "b = a + q * n"
  have "\<exists>!x. x \<in> {b..<b + n} \<and> x mod n = r"
  proof (rule ex_ex1I)
    define x where "x = b + (r + n - b mod n) mod n"
    have "x mod n = (b mod n + (r + n - b mod n)) mod n" unfolding x_def by (simp only: mod_add_right_eq mod_add_left_eq)
    also have "b mod n + (r + n - b mod n) = r + n" using mod_less_divisor[OF assms(1), of b] by linarith
    finally have "x mod n = r" using assms(2) by simp
    moreover have "x \<in> {b..<b + n}" using assms(1) by (simp add: x_def)
    ultimately show "\<exists>x. x \<in> {b..<b + n} \<and> x mod n = r" by blast
    have "x = y" if "x \<le> y" "x \<in> {b..<b + n}" "y \<in> {b..<b + n}" "y mod n = x mod n" for x y
    proof (rule ccontr)
      assume "x \<noteq> y"
      moreover have "n dvd y - x" using that mod_eq_dvd_iff_nat[of x y n] by simp
      ultimately have "n \<le> y - x" using that(1) by (intro dvd_imp_le) simp_all
      then show False using that by simp
    qed
    then show "x = y" if "x \<in> {b..<b + n} \<and> x mod n = r" "y \<in> {b..<b + n} \<and> y mod n = r" for x y
      using that by (metis nat_le_linear)
  qed
  then obtain x where x: "{x \<in> {b..<b + n}. x mod n = r} = {x}" by (auto simp: set_eq_iff)
  have "{x \<in> {a..<a + Suc q * n}. x mod n = r} = {x \<in> {a..<b}. x mod n = r} \<union> {x \<in> {b..<b + n}. x mod n = r}"
    by (auto simp: b_def)
  moreover have "card ({x \<in> {a..<b}. x mod n = r} \<union> {x \<in> {b..<b + n}. x mod n = r})
      = card {x \<in> {a..<b}. x mod n = r} + card {x \<in> {b..<b + n}. x mod n = r}"
    by (rule card_Un_disjoint) auto
  moreover have "card {x \<in> {b..<b + n}. x mod n = r} = 1" unfolding x by simp
  ultimately have "card {x \<in> {a..<a + Suc q * n}. x mod n = r} = card {x \<in> {a..<b}. x mod n = r} + 1" by (simp only:)
  then show ?case using Suc by (simp add: b_def)
qed simp

text \<open>Which results a word gives, and which words are drawn again.\<close>

definition accepted :: "'a::len word \<Rightarrow> 'a word \<Rightarrow> 'a word \<Rightarrow> bool" where
  "accepted n x r \<longleftrightarrow> \<not> x < rejected n \<and> x mod n = r"

lemma card_words: "card {x :: 'a::len word. P (unat x)} = card {k. k < 2 ^ LENGTH('a) \<and> P k}"
proof -
  have "bij_betw unat {x :: 'a word. P (unat x)} {k. k < 2 ^ LENGTH('a) \<and> P k}"
  proof (rule bij_betw_imageI)
    show "inj_on unat {x :: 'a word. P (unat x)}" by (rule inj_onI) (simp add: word_unat_eq_iff)
    show "unat ` {x :: 'a word. P (unat x)} = {k. k < 2 ^ LENGTH('a) \<and> P k}"
    proof (intro equalityI subsetI)
      fix k assume "k \<in> {k. k < 2 ^ LENGTH('a) \<and> P k}"
      then have "unat (of_nat k :: 'a word) = k" "P k" by (simp_all add: unat_of_nat)
      then show "k \<in> unat ` {x :: 'a word. P (unat x)}" by (intro image_eqI[of _ _ "of_nat k"]) simp_all
    qed (auto simp: unat_less)
  qed
  then show ?thesis by (rule bij_betw_same_card)
qed

lemma accepted_count:
  fixes n r :: "'a::len word"
  assumes "n \<noteq> 0" and "\<not> unat n dvd 2 ^ LENGTH('a)" and "r < n"
  shows "card {x. accepted n x r} = 2 ^ LENGTH('a) div unat n"
proof -
  let ?N = "2 ^ LENGTH('a) :: nat"
  have e: "?N mod unat n + ?N div unat n * unat n = ?N" by simp
  have "accepted n x r \<longleftrightarrow> ?N mod unat n \<le> unat x \<and> unat x mod unat n = unat r" for x
    using rejected_unat[OF assms(1,2)] by (simp add: accepted_def word_less_nat_alt not_less word_unat_eq_iff unat_mod)
  then have "card {x. accepted n x r} = card {x :: 'a word. ?N mod unat n \<le> unat x \<and> unat x mod unat n = unat r}" by simp
  also have "\<dots> = card {k. k < ?N \<and> ?N mod unat n \<le> k \<and> k mod unat n = unat r}" by (rule card_words)
  also have "{k. k < ?N \<and> ?N mod unat n \<le> k \<and> k mod unat n = unat r}
      = {k \<in> {?N mod unat n..<?N mod unat n + ?N div unat n * unat n}. k mod unat n = unat r}" unfolding e by auto
  also have "card \<dots> = ?N div unat n"
    using assms(1,3) by (intro residues) (simp_all add: unat_gt_0 word_less_nat_alt)
  finally show ?thesis .
qed

subsection \<open>Intervals\<close>

lemma offset_between:
  fixes lo hi k :: "'a::len word"
  assumes "sint lo < sint hi" and "k < hi - lo"
  shows "sint lo \<le> sint (lo + k) \<and> sint (lo + k) < sint hi"
proof -
  let ?H = "2 ^ (LENGTH('a) - 1) :: int"
  have N: "2 ^ LENGTH('a) = 2 * ?H" by (simp flip: power_Suc)
  have b: "- ?H \<le> sint x" "sint x < ?H" for x :: "'a word" by (rule sint_ge, rule sint_lt)
  have "hi - lo = word_of_int (sint hi - sint lo)" by simp
  then have "uint (hi - lo) = (sint hi - sint lo) mod 2 ^ LENGTH('a)" by (simp only: uint_word_of_int)
  also have "\<dots> = sint hi - sint lo" using b[of hi] b[of lo] assms(1) N by (intro mod_pos_pos_trivial) linarith+
  finally have "uint k < sint hi - sint lo" using assms(2) by (simp add: word_less_def)
  moreover have "0 \<le> uint k" by simp
  ultimately have r: "sint lo \<le> sint lo + uint k" "sint lo + uint k < sint hi" by linarith+
  have "lo + k = word_of_int (sint lo + uint k)" by simp
  then have "sint (lo + k) = signed_take_bit (LENGTH('a) - 1) (sint lo + uint k)" by (simp only: sint_sbintrunc')
  also have "\<dots> = sint lo + uint k" using b[of hi] b[of lo] r by (intro signed_take_bit_int_eq_self) linarith+
  finally show ?thesis using r by simp
qed

lemma and_mask_less: "unat (y AND mask k) < 2 ^ k"
  by (simp add: take_bit_eq_mask[symmetric] unsigned_take_bit_eq)

lemma Skewed_bound:
  assumes "0 \<le> max_log" and "max_log \<le> 32"
  shows "\<exists>r b. Skewed max_log a = Some (r, b) \<and> unat r < 2 ^ nat max_log"
proof -
  obtain x a' where x: "Rand32 a = (x, a')" by fastforce
  obtain y b where y: "Rand32 a' = (y, b)" by fastforce
  define n :: u32 where "n = of_int (max_log + 1)"
  have "uint n = max_log + 1" unfolding n_def using assms by (subst uint_word_of_int_eq) (simp add: take_bit_int_eq_self)
  then have m: "unat n = nat (max_log + 1)" by (metis nat_uint_eq)
  define shift where "shift = unat (x mod n)"
  have "shift < nat (max_log + 1)" unfolding shift_def unat_mod m using assms by (intro mod_less_divisor) simp
  then have s: "shift \<le> nat max_log" using assms by linarith
  have k: "(if shift = 32 then NOT 0 else push_bit shift 1 - 1 :: u32) = mask shift"
    by (simp add: mask_eq_exp_minus_1 push_bit_of_1)
  have "unat (y AND mask shift) < 2 ^ shift" by (rule and_mask_less)
  also have "(2 :: nat) ^ shift \<le> 2 ^ nat max_log" using s by (simp add: power_increasing)
  finally have "unat (y AND mask shift) < 2 ^ nat max_log" .
  moreover have "Skewed max_log a = Some (y AND mask shift, b)"
    unfolding Skewed_def Let_def x y prod.case n_def[symmetric] shift_def[symmetric] k using assms by simp
  ultimately show ?thesis by blast
qed

subsection \<open>Floating-point numbers\<close>

text \<open>With the exponent of one the random bits are the fraction, and the subtraction is exact.\<close>

context ieee
begin

lemma fraction_exact:
  assumes m: "0 \<le> m" "m < 2 ^ p" and p: "p + 1 \<le> prec f" "emin f \<le> 0" "0 < emax f"
  shows "rnd f (of_int m * pow2 (- int p)) = Fin (of_int m * pow2 (- int p))" and "of_int m * pow2 (- int p) < (1 :: rat)"
proof -
  have one: "of_int (2 ^ p) * pow2 (- int p) = (1 :: rat)" by (simp add: pow2_minus pow2_nat)
  have "(of_int m :: rat) < of_int (2 ^ p)" using m(2) by (simp only: of_int_less_iff)
  then have "of_int m * pow2 (- int p) < of_int (2 ^ p) * pow2 (- int p)" by (simp add: mult_strict_right_mono)
  then show l: "of_int m * pow2 (- int p) < (1 :: rat)" unfolding one .
  have "(1 :: rat) \<le> pow2 (emax f + 1)" using pow2_mono[of 0 "emax f + 1"] p(3) by simp
  then have "\<bar>of_int m * pow2 (- int p) :: rat\<bar> < pow2 (emax f + 1)" using l m(1) by (simp add: abs_mult)
  moreover have "(2 :: int) ^ p \<le> 2 ^ prec f" using p(1) by (intro power_increasing) simp_all
  then have "\<bar>m\<bar> \<le> 2 ^ prec f" using m by linarith
  ultimately show "rnd f (of_int m * pow2 (- int p)) = Fin (of_int m * pow2 (- int p))"
    using m p by (intro rnd_exact[where m = m and q = "- int p"]) simp_all
qed

lemma one_to_two:
  assumes "0 \<le> m" "m < 2 ^ p" and "p + 1 \<le> prec f" "emin f \<le> 0" "0 < emax f"
  shows "fsub f (Fin (of_int (2 ^ p + m) * pow2 (- int p))) (Fin 1) = Fin (of_int m * pow2 (- int p))"
proof -
  have "of_int (2 ^ p) * pow2 (- int p) = (1 :: rat)" by (simp add: pow2_minus pow2_nat)
  then have "of_int (2 ^ p + m) * pow2 (- int p) - 1 = (of_int m * pow2 (- int p) :: rat)"
    unfolding of_int_add distrib_right by simp
  then show ?thesis using fraction_exact(1)[OF assms] by (simp only: fsub_Fin)
qed

end

lemma joined:
  fixes e x :: "'a::len word"
  shows "drop_bit k (push_bit k e OR take_bit k x) = take_bit (LENGTH('a) - k) e"
    and "take_bit k (push_bit k e OR take_bit k x) = take_bit k x"
    and "k \<le> n \<Longrightarrow> n < LENGTH('a) \<Longrightarrow> bit (push_bit k e OR take_bit k x) n = bit e (n - k)"
proof -
  show "drop_bit k (push_bit k e OR take_bit k x) = take_bit (LENGTH('a) - k) e"
    by (rule bit_word_eqI) (auto simp: bit_take_bit_iff bit_drop_bit_eq bit_or_iff bit_push_bit_iff)
  show "take_bit k (push_bit k e OR take_bit k x) = take_bit k x"
    by (rule bit_word_eqI) (auto simp: bit_take_bit_iff bit_or_iff bit_push_bit_iff)
  show "k \<le> n \<Longrightarrow> n < LENGTH('a) \<Longrightarrow> bit (push_bit k e OR take_bit k x) n = bit e (n - k)"
    by (auto simp: bit_take_bit_iff bit_or_iff bit_push_bit_iff)
qed

lemma and_mask: "(x :: 'a::len word) AND 0x3ff = take_bit 10 x" "x AND 0x7fffff = take_bit 23 x" "x AND 0xfffff = take_bit 20 x"
  using take_bit_eq_mask[of 10 x] take_bit_eq_mask[of 23 x] take_bit_eq_mask[of 20 x] by (simp_all add: mask_eq_exp_minus_1)

lemma unat_take: "int (unat (take_bit k x)) < 2 ^ k" for x :: "'a::len word"
proof -
  have "unat (take_bit k x) < 2 ^ k" by (simp add: unsigned_take_bit_eq)
  then show ?thesis by (metis of_nat_less_iff of_nat_numeral of_nat_power)
qed

lemma fp_of_one:
  fixes e x :: "'a::len word"
  assumes p: "prec f = p + 1" "p < LENGTH('a) - 1" and e: "int (unat e) = emax f" "emax f \<noteq> 0" "emax f < 2 ^ (LENGTH('a) - prec f) - 1"
  shows "fp_of_bits f (push_bit p e OR take_bit p x) = Fin (of_int (2 ^ p + int (unat (take_bit p x))) * pow2 (- int p))"
proof -
  have lt: "unat e < 2 ^ (LENGTH('a) - prec f)"
  proof -
    have "int (unat e) < int (2 ^ (LENGTH('a) - prec f))" using e by simp
    then show ?thesis by (simp only: of_nat_less_iff)
  qed
  have b: "\<not> bit e (LENGTH('a) - 1 - p)" using bit_below[OF lt] p by auto
  have t: "take_bit (LENGTH('a) - prec f) (take_bit (LENGTH('a) - p) e) = e"
    by (rule bit_word_eqI) (use bit_below[OF lt] p in \<open>auto simp: bit_take_bit_iff\<close>)
  have s: "\<not> bit (push_bit p e OR take_bit p x) (LENGTH('a) - 1)" using joined(3)[of p "LENGTH('a) - 1" e x] b p by simp
  have q: "prec f - 1 = p" using p by simp
  show ?thesis unfolding fp_of_bits_def Let_def q joined(1,2) t using s e by simp
qed

lemma Uint32ToFloat_exact: "Uint32ToFloat x = Fin (of_int (int (unat (take_bit 23 x))) * pow2 (- 23))"
proof -
  have "fp_of_bits binary32 (push_bit 23 127 OR take_bit 23 x)
      = Fin (of_int (2 ^ 23 + int (unat (take_bit 23 x))) * pow2 (- int 23))"
    by (rule fp_of_one) simp_all
  then show ?thesis using sgl.one_to_two[of "int (unat (take_bit 23 x))" 23] unat_take[of 23 x]
    unfolding Uint32ToFloat_def Let_def and_mask by simp
qed

lemma mantissa64:
  fixes x0 x1 :: u32
  defines "man \<equiv> push_bit 32 (ucast (take_bit 20 x0)) OR ucast x1 :: 64 word"
  shows "take_bit 52 man = man" and "int (unat man) = int (unat (take_bit 20 x0)) * 2 ^ 32 + int (unat x1)"
proof -
  show "take_bit 52 man = man" unfolding man_def
    by (rule bit_word_eqI) (auto simp: bit_take_bit_iff bit_or_iff bit_push_bit_iff bit_unsigned_iff dest: bit_imp_le_length)
  have "man = push_bit 32 (ucast (take_bit 20 x0)) OR take_bit 32 (ucast x1)" unfolding man_def
    by (rule bit_word_eqI) (auto simp: bit_take_bit_iff bit_or_iff bit_push_bit_iff bit_unsigned_iff dest: bit_imp_le_length)
  then have "drop_bit 32 man = take_bit 32 (ucast (take_bit 20 x0))" "take_bit 32 man = take_bit 32 (ucast x1)"
    by (simp_all only: joined) simp
  moreover have "take_bit 32 (ucast y :: 64 word) = ucast y" for y :: u32
    by (rule bit_word_eqI) (auto simp: bit_take_bit_iff bit_unsigned_iff dest: bit_imp_le_length)
  ultimately have d: "drop_bit 32 man = ucast (take_bit 20 x0)" "take_bit 32 man = ucast x1" by simp_all
  have "unat man = unat (drop_bit 32 man) * 2 ^ 32 + unat (take_bit 32 man)"
    unfolding unat_drop unsigned_take_bit_eq by (simp only: take_bit_eq_mod div_mult_mod_eq)
  then have "unat man = unat (take_bit 20 x0) * 2 ^ 32 + unat x1" unfolding d unat_widen .
  then show "int (unat man) = int (unat (take_bit 20 x0)) * 2 ^ 32 + int (unat x1)" by simp
qed

lemma Uint64ToDouble_exact:
  "Uint64ToDouble x0 x1 = Fin (of_int (int (unat (take_bit 20 x0)) * 2 ^ 32 + int (unat x1)) * pow2 (- 52))"
proof -
  define man :: "64 word" where "man = push_bit 32 (ucast (take_bit 20 x0)) OR ucast x1"
  have "fp_of_bits binary64 (push_bit 52 1023 OR take_bit 52 man)
      = Fin (of_int (2 ^ 52 + int (unat (take_bit 52 man))) * pow2 (- int 52))"
    by (rule fp_of_one) simp_all
  moreover note mantissa64[of x0 x1, folded man_def]
  ultimately show ?thesis using dbl.one_to_two[of "int (unat man)" 52] unat_take[of 52 man]
    unfolding Uint64ToDouble_def Let_def and_mask man_def[symmetric] mantissa64(2)[of x0 x1, folded man_def, symmetric]
    by simp
qed

interpretation hlf: ieee binary16
  by unfold_locales (simp_all add: binary16_def)

lemma Uint16ToHalf_exact: "Uint16ToHalf x = Fin (of_int (int (unat (take_bit 10 x))) * pow2 (- 10))"
proof -
  let ?m = "int (unat (take_bit 10 x))"
  have f: "prec binary16 = 11" "emin binary16 = - 14" "emax binary16 = 15" by (simp_all add: binary16_def)
  have "fp_of_bits binary16 (push_bit 10 15 OR take_bit 10 x) = Fin (of_int (2 ^ 10 + ?m) * pow2 (- int 10))"
    by (rule fp_of_one) (simp_all add: f)
  then have "Uint16ToHalf x = fcast binary16 (fsub binary32 (Fin (of_int (2 ^ 10 + ?m) * pow2 (- int 10))) (Fin 1))"
    unfolding Uint16ToHalf_def Let_def and_mask by (simp only:)
  also have "fsub binary32 (Fin (of_int (2 ^ 10 + ?m) * pow2 (- int 10))) (Fin 1) = Fin (of_int ?m * pow2 (- int 10))"
    by (rule sgl.one_to_two) (simp_all only: unat_take of_nat_0_le_iff, simp_all)
  also have "fcast binary16 (Fin (of_int ?m * pow2 (- int 10))) = Fin (of_int ?m * pow2 (- int 10))"
    unfolding fcast.simps using unat_take[of 10 x] by (intro hlf.fraction_exact) (simp_all add: f)
  finally show ?thesis by simp
qed

lemma uniform_int32_in:
  assumes "sint lo < sint hi"
  shows "\<exists>ys g'. uniform_int32 lo hi g = Some (ys, g') \<and> length ys = 4 \<and> (\<forall>y \<in> set ys. sint lo \<le> sint y \<and> sint y < sint hi)"
proof -
  have n: "hi - lo \<noteq> 0" using assms by auto
  then have "x mod (hi - lo) < hi - lo" for x by (intro word_mod_less_divisor) (simp add: word_greater_zero_iff)
  from offset_between[OF assms this] show ?thesis using n by (auto simp: uniform_int32_def Let_def split: prod.splits)
qed

lemma uniform_int64_in:
  assumes "sint lo < sint hi"
  shows "\<exists>ys g'. uniform_int64 lo hi g = Some (ys, g') \<and> length ys = 2 \<and> (\<forall>y \<in> set ys. sint lo \<le> sint y \<and> sint y < sint hi)"
proof -
  have n: "hi - lo \<noteq> 0" using assms by auto
  then have "x mod (hi - lo) < hi - lo" for x by (intro word_mod_less_divisor) (simp add: word_greater_zero_iff)
  from offset_between[OF assms this] show ?thesis using n
    by (auto simp: uniform_int64_def Let_def kResultElementCount_def split: prod.splits)
qed

text \<open>Every floating-point result is in the interval from zero up to, not including, one.\<close>

definition unit_interval :: "fp \<Rightarrow> bool" where
  "unit_interval x \<longleftrightarrow> fle (Fin 0) x \<and> flt x (Fin 1)"

lemma unit_intervalI:
  assumes "0 \<le> m" and "m < 2 ^ p"
  shows "unit_interval (Fin (of_int m * pow2 (- int p)))"
proof -
  have "of_int (2 ^ p) * pow2 (- int p) = (1 :: rat)" by (simp add: pow2_minus pow2_nat)
  moreover have "(of_int m :: rat) < of_int (2 ^ p)" using assms(2) by (simp only: of_int_less_iff)
  then have "of_int m * pow2 (- int p) < of_int (2 ^ p) * pow2 (- int p)" by (simp add: mult_strict_right_mono)
  moreover have "0 \<le> of_int m * pow2 (- int p)" using assms(1) by simp
  ultimately show ?thesis by (simp add: unit_interval_def fle_def less_le)
qed

lemma float_unit: "unit_interval (Uint16ToHalf h)" "unit_interval (Uint32ToFloat x)" "unit_interval (Uint64ToDouble x0 x1)"
proof -
  show "unit_interval (Uint16ToHalf h)"
    unfolding Uint16ToHalf_exact using unit_intervalI[of "int (unat (take_bit 10 h))" 10] unat_take[of 10 h] by simp
  show "unit_interval (Uint32ToFloat x)"
    unfolding Uint32ToFloat_exact using unit_intervalI[of "int (unat (take_bit 23 x))" 23] unat_take[of 23 x] by simp
  define man :: "64 word" where "man = push_bit 32 (ucast (take_bit 20 x0)) OR ucast x1"
  note e = mantissa64[of x0 x1, folded man_def]
  have "int (unat man) < 2 ^ 52" using unat_take[of 52 man] unfolding e(1) .
  then show "unit_interval (Uint64ToDouble x0 x1)"
    unfolding Uint64ToDouble_exact e(2)[symmetric] using unit_intervalI[of "int (unat man)" 52] by simp
qed

end
