(* ===== verification/Sampler.thy ===== *)
theory Sampler
  imports Uniform
begin

text \<open>
  The alias method of tensorflow/core/lib/random/distribution_sampler.cc and distribution_sampler.h: the
  table is built from the weights with a stack of likely and a stack of unlikely elements, and a sample
  takes one element of the table and then it or its alias. A vector is a list, its back the last element.
\<close>

record DistributionSampler =
  num :: nat
  entries :: "(fp \<times> int) list"

definition prob :: "nat \<Rightarrow> (fp \<times> int) list \<Rightarrow> fp" where
  "prob idx data = fst (data ! idx)"

definition alt :: "nat \<Rightarrow> (fp \<times> int) list \<Rightarrow> int" where
  "alt idx data = snd (data ! idx)"

definition set_prob :: "nat \<Rightarrow> fp \<Rightarrow> (fp \<times> int) list \<Rightarrow> (fp \<times> int) list" where
  "set_prob idx f data = data[idx := (f, snd (data ! idx))]"

definition set_alt :: "nat \<Rightarrow> int \<Rightarrow> (fp \<times> int) list \<Rightarrow> (fp \<times> int) list" where
  "set_alt idx v data = data[idx := (fst (data ! idx), v)]"

text \<open>The proportional weight of an element, in \<open>float\<close> up to the division.\<close>

definition proportional :: "fp list \<Rightarrow> fp \<Rightarrow> nat \<Rightarrow> fp" where
  "proportional weights wsum i = ddiv (fmul binary32 (weights ! i) (rnd binary32 (of_nat (length weights)))) wsum"

text \<open>The first two loops: the sum of the weights, with no aliases yet, and the two stacks.\<close>

definition sum_up :: "fp list \<Rightarrow> fp \<times> (fp \<times> int) list" where
  "sum_up weights = (let n = length weights in
     foldl (\<lambda>(wsum, data) i. (dadd wsum (weights ! i), set_alt i (- 1) data)) (Fin 0, replicate n (Fin 0, 0)) [0..<n])"

definition classify :: "fp list \<Rightarrow> fp \<Rightarrow> fp list \<times> nat list \<times> nat list" where
  "classify weights wsum = (let n = length weights in
     foldl (\<lambda>(pr, high, low) i. let p = proportional weights wsum i; pr = pr[i := p] in
       if flt p (Fin 1) then (pr, high, low @ [i]) else (pr, high @ [i], low)) (replicate n (Fin 0), [], []) [0..<n])"

function pair_up :: "nat list \<Rightarrow> nat list \<Rightarrow> fp list \<Rightarrow> (fp \<times> int) list \<Rightarrow> nat list \<times> nat list \<times> fp list \<times> (fp \<times> int) list" where
  "pair_up high low pr data = (if high \<noteq> [] \<and> low \<noteq> []
     then let l = last low; low = butlast low; h = last high; high = butlast high;
              data = set_alt l (int h) data;
              remaining = dsub (pr ! h) (dsub (Fin 1) (pr ! l));
              pr = pr[h := remaining]
          in if flt remaining (Fin 1) then pair_up high (low @ [h]) pr data else pair_up (high @ [h]) low pr data
     else (high, low, pr, data))"
  by pat_completeness auto
termination by (relation "measure (\<lambda>(high, low, pr, data). length high + length low)")
  (auto simp: Let_def neq_Nil_conv)

declare pair_up.simps [simp del]

definition own_alias :: "(fp \<times> int) list \<Rightarrow> nat \<Rightarrow> (fp \<times> int) list" where
  "own_alias data idx = set_alt idx (int idx) (set_prob idx (Fin 1) data)"

definition DistributionSampler_new :: "fp list \<Rightarrow> DistributionSampler" where
  "DistributionSampler_new weights = (let n = length weights;
     (wsum, data) = sum_up weights;
     (pr, high, low) = classify weights wsum;
     (high, low, pr, data) = pair_up high low pr data;
     data = foldl (\<lambda>data i. set_prob i (fcast binary32 (pr ! i)) data) data [0..<n];
     data = foldl own_alias data high;
     data = foldl own_alias data low
   in \<lparr>num = n, entries = data\<rparr>)"

text \<open>The table of no weights has no element to read.\<close>

definition Sample :: "DistributionSampler \<Rightarrow> SingleSampleAdapter \<Rightarrow> (int \<times> SingleSampleAdapter) option" where
  "Sample d rand = (case RandFloat rand of (r, rand) \<Rightarrow> case Uniform32 (of_nat (num d)) rand of None \<Rightarrow> None
     | Some (i, rand) \<Rightarrow> let idx = unat i in if length (entries d) \<le> idx then None
         else Some (if flt r (prob idx (entries d)) then int idx else alt idx (entries d), rand))"

subsection \<open>Every alias is an element\<close>

text \<open>Until it has an alias, an element is on one of the stacks.\<close>

definition aliases :: "nat \<Rightarrow> nat set \<Rightarrow> (fp \<times> int) list \<Rightarrow> bool" where
  "aliases n pending data \<longleftrightarrow> length data = n \<and> pending \<subseteq> {..<n}
     \<and> (\<forall>i < n. i \<in> pending \<or> 0 \<le> alt i data \<and> alt i data < int n)"

lemma set_alt_simps [simp]: "length (set_alt i v data) = length data"
  "j < length data \<Longrightarrow> alt j (set_alt i v data) = (if j = i then v else alt j data)"
  "length (set_prob i f data) = length data"
  "j < length data \<Longrightarrow> alt j (set_prob i f data) = alt j data"
  by (cases "i < length data"; auto simp: set_alt_def set_prob_def alt_def nth_list_update)+

lemma pair_up_aliases:
  assumes "aliases n (set high \<union> set low) data" and "pair_up high low pr data = (high', low', pr', data')"
  shows "aliases n (set high' \<union> set low') data'"
  using assms
proof (induction high low pr data arbitrary: high' low' pr' data' rule: pair_up.induct)
  case (1 high low pr data)
  show ?case
  proof (cases "high \<noteq> [] \<and> low \<noteq> []")
    case True
    then obtain hs h ls l where e: "high = hs @ [h]" "low = ls @ [l]" by (metis rev_exhaust)
    define pr1 where "pr1 = pr[h := dsub (pr ! h) (dsub (Fin 1) (pr ! l))]"
    have p: "pair_up high low pr data = (if flt (dsub (pr ! h) (dsub (Fin 1) (pr ! l))) (Fin 1)
        then pair_up hs (ls @ [h]) pr1 (set_alt l (int h) data) else pair_up (hs @ [h]) ls pr1 (set_alt l (int h) data))"
      using True by (subst pair_up.simps) (simp add: e pr1_def Let_def)
    have "aliases n (set hs \<union> set ls \<union> {h}) (set_alt l (int h) data)"
      using 1(3) unfolding e aliases_def by auto
    then have a: "aliases n (set hs \<union> set (ls @ [h])) (set_alt l (int h) data)"
        "aliases n (set (hs @ [h]) \<union> set ls) (set_alt l (int h) data)" by (simp_all add: Un_commute Un_left_commute)
    show ?thesis
    proof (cases "flt (dsub (pr ! h) (dsub (Fin 1) (pr ! l))) (Fin 1)")
      case T: True
      have "pair_up hs (ls @ [h]) pr1 (set_alt l (int h) data) = (high', low', pr', data')" using 1(4) T p by simp
      with 1(1)[OF True refl refl refl refl refl refl refl] a(1) T show ?thesis by (simp add: e pr1_def)
    next
      case F: False
      have "pair_up (hs @ [h]) ls pr1 (set_alt l (int h) data) = (high', low', pr', data')" using 1(4) F p by simp
      with 1(2)[OF True refl refl refl refl refl refl refl] a(2) F show ?thesis by (simp add: e pr1_def)
    qed
  next
    case False
    then show ?thesis using 1(3,4) by (subst (asm) pair_up.simps) auto
  qed
qed

lemma own_alias_aliases: "aliases n (A \<union> set xs) data \<Longrightarrow> aliases n A (foldl own_alias data xs)"
proof (induction xs arbitrary: data)
  case (Cons x xs)
  have "aliases n (A \<union> set xs) (own_alias data x)" using Cons.prems by (auto simp: aliases_def own_alias_def)
  then show ?case using Cons.IH by simp
qed simp

lemma probs_aliases: "aliases n A data \<Longrightarrow> aliases n A (foldl (\<lambda>data i. set_prob i (f i) data) data xs)"
  by (induction xs arbitrary: data) (auto simp: aliases_def)

lemma first_loop_length: "length (snd (foldl (\<lambda>(wsum, data) i. (dadd wsum (weights ! i), set_alt i (- 1) data)) (s, data) xs)) = length data"
  by (induction xs arbitrary: s data) simp_all

lemma second_loop_covers:
  assumes "foldl (\<lambda>(pr, high, low) i. let p = f i; pr = pr[i := p] in
       if flt p (Fin 1) then (pr, high, low @ [i]) else (pr, high @ [i], low)) (pr, high, low) xs = (pr', high', low')"
  shows "set high' \<union> set low' = set high \<union> set low \<union> set xs"
  using assms by (induction xs arbitrary: pr high low) (auto simp: Let_def split: if_splits)

lemma classify_covers: "classify weights wsum = (pr, high, low) \<Longrightarrow> set high \<union> set low = {..<length weights}"
  using second_loop_covers[of "proportional weights wsum" "replicate (length weights) (Fin 0)" "[]" "[]" "[0..<length weights]" pr high low]
  unfolding classify_def Let_def by (simp only: list.set set_upt Un_empty_left atLeast0LessThan)

lemma new_aliases: "aliases (length weights) {} (entries (DistributionSampler_new weights)) \<and> num (DistributionSampler_new weights) = length weights"
proof -
  let ?n = "length weights"
  obtain wsum d where 1: "sum_up weights = (wsum, d)" by fastforce
  obtain pr high low where 2: "classify weights wsum = (pr, high, low)" by (cases "classify weights wsum") auto
  obtain high' low' pr' d' where 3: "pair_up high low pr d = (high', low', pr', d')" by (cases "pair_up high low pr d") auto
  have "length d = ?n" using first_loop_length[of weights "Fin 0" "replicate ?n (Fin 0, 0)" "[0..<?n]"] 1 by (simp add: sum_up_def Let_def)
  moreover have "set high \<union> set low = {..<?n}" using classify_covers[OF 2] .
  ultimately have "aliases ?n (set high \<union> set low) d" by (auto simp: aliases_def)
  from pair_up_aliases[OF this 3] have "aliases ?n (set low' \<union> set high') d'" by (simp add: Un_commute)
  define d1 where "d1 = foldl (\<lambda>data i. set_prob i (fcast binary32 (pr' ! i)) data) d' [0..<?n]"
  have "aliases ?n (set low' \<union> set high') d1" unfolding d1_def by (rule probs_aliases) fact
  then have "aliases ?n (set low') (foldl own_alias d1 high')" by (rule own_alias_aliases)
  then have "aliases ?n ({} \<union> set low') (foldl own_alias d1 high')" by simp
  then have "aliases ?n {} (foldl own_alias (foldl own_alias d1 high') low')" by (rule own_alias_aliases)
  moreover have "DistributionSampler_new weights = \<lparr>num = ?n, entries = foldl own_alias (foldl own_alias d1 high') low'\<rparr>"
    unfolding DistributionSampler_new_def Let_def 1 2 3 prod.case d1_def ..
  ultimately show ?thesis by (simp only: DistributionSampler.simps)
qed

text \<open>A sample is an element, whatever the weights: negative, infinite or not a number.\<close>

lemma Uniform32_less:
  assumes "Uniform32 n a = Some (i, b)" and "n \<noteq> 0"
  shows "unat i < unat n"
  using ExactUniformInt_less[OF assms[unfolded Uniform32_def]] by (simp add: word_less_nat_alt)

lemma Sample_element:
  assumes "weights \<noteq> []" and "length weights < 2 ^ 31"
    and r: "Sample (DistributionSampler_new weights) rand = Some (i, rand')"
  shows "0 \<le> i \<and> i < int (length weights)"
proof -
  let ?d = "DistributionSampler_new weights"
  have n: "unat (of_nat (length weights) :: u32) = length weights" using assms(2) by (simp add: unat_of_nat)
  then have "(of_nat (length weights) :: u32) \<noteq> 0" using assms(1) by auto
  then have u: "unat k < length weights" if "Uniform32 (of_nat (length weights)) a = Some (k, b)" for k a b
    using Uniform32_less[OF that] n by simp
  have a: "num ?d = length weights" "\<And>j. j < length weights \<Longrightarrow> 0 \<le> alt j (entries ?d) \<and> alt j (entries ?d) < int (length weights)"
    using new_aliases[of weights] by (auto simp: aliases_def)
  have u': "uint k < int (length weights)" if "Uniform32 (of_nat (length weights)) a = Some (k, b)" for k a b
  proof -
    have "int (unat k) < int (length weights)" using u[OF that] by (simp only: of_nat_less_iff)
    then show ?thesis by simp
  qed
  obtain x rand1 where x: "RandFloat rand = (x, rand1)" by fastforce
  obtain k where k: "Uniform32 (of_nat (length weights)) rand1 = Some (k, rand')"
    using r by (auto simp: Sample_def Let_def x a(1) split: option.splits if_splits)
  show ?thesis using r u[OF k] u'[OF k] a(2)[OF u[OF k]]
    by (auto simp: Sample_def Let_def x a(1) k split: if_splits)
qed

lemma Sample_reads_its_table:
  assumes "weights \<noteq> []" and "length weights < 2 ^ 31"
    and "RandFloat rand = (r, rand1)" and "Uniform32 (of_nat (length weights)) rand1 = Some (k, rand')"
  shows "\<exists>i. Sample (DistributionSampler_new weights) rand = Some (i, rand')"
proof -
  have n: "unat (of_nat (length weights) :: u32) = length weights" using assms(2) by (simp add: unat_of_nat)
  then have "(of_nat (length weights) :: u32) \<noteq> 0" using assms(1) by auto
  then have "unat k < length weights" using Uniform32_less[OF assms(4)] n by simp
  then show ?thesis using new_aliases[of weights] assms(3,4) by (simp add: Sample_def aliases_def Let_def)
qed

end
