(* ===== verification/Simulation.thy ===== *)
theory Simulation
  imports Prelude
begin

text \<open>
  The contract between a structure and the abstract value it stands for: every operation that is allowed
  on the value succeeds on the structure, and the structure then stands for the new value. A whole
  sequence of operations follows.
\<close>

fun run_ops :: "('o \<Rightarrow> 's \<Rightarrow> 's option) \<Rightarrow> 'o list \<Rightarrow> 's \<Rightarrow> 's option" where
  "run_ops step [] s = Some s"
| "run_ops step (p # ps) s = (case step p s of None \<Rightarrow> None | Some s \<Rightarrow> run_ops step ps s)"

fun allowed :: "('o \<Rightarrow> 'a \<Rightarrow> bool) \<Rightarrow> ('o \<Rightarrow> 'a \<Rightarrow> 'a) \<Rightarrow> 'o list \<Rightarrow> 'a \<Rightarrow> bool" where
  "allowed ok spec [] a \<longleftrightarrow> True"
| "allowed ok spec (p # ps) a \<longleftrightarrow> ok p a \<and> allowed ok spec ps (spec p a)"

locale simulation =
  fixes step :: "'o \<Rightarrow> 's \<Rightarrow> 's option" and stands_for :: "'s \<Rightarrow> 'a \<Rightarrow> bool" and spec :: "'o \<Rightarrow> 'a \<Rightarrow> 'a" and ok :: "'o \<Rightarrow> 'a \<Rightarrow> bool"
  assumes simulates: "stands_for s a \<Longrightarrow> ok p a \<Longrightarrow> \<exists>s'. step p s = Some s' \<and> stands_for s' (spec p a)"
begin

lemma runs: "stands_for s a \<Longrightarrow> allowed ok spec ps a \<Longrightarrow> \<exists>s'. run_ops step ps s = Some s' \<and> stands_for s' (fold spec ps a)"
proof (induction ps arbitrary: s a)
  case (Cons p ps)
  obtain s1 where "step p s = Some s1" "stands_for s1 (spec p a)" using simulates[of s a p] Cons(2,3) by auto
  then show ?case using Cons(1)[of s1 "spec p a"] Cons(3) by simp
qed simp

end

text \<open>
  The contract of an iterator that stands before a list of elements, and the loop of a client,
  \<open>for (; it->Valid(); it->Next())\<close>. The fuel bounds the number of elements.
\<close>

fun collect :: "('s \<Rightarrow> bool) \<Rightarrow> ('s \<Rightarrow> 'e option) \<Rightarrow> ('s \<Rightarrow> 's option) \<Rightarrow> nat \<Rightarrow> 's \<Rightarrow> 'e list option" where
  "collect valid item next 0 s = (if valid s then None else Some [])"
| "collect valid item next (Suc n) s = (if \<not> valid s then Some []
     else case (item s, next s) of (Some x, Some s) \<Rightarrow> map_option (Cons x) (collect valid item next n s) | _ \<Rightarrow> None)"

locale iterator =
  fixes valid :: "'s \<Rightarrow> bool" and item :: "'s \<Rightarrow> 'e option" and advance :: "'s \<Rightarrow> 's option" and before :: "'e list \<Rightarrow> 's \<Rightarrow> bool"
  assumes at_end: "before [] s \<Longrightarrow> \<not> valid s"
    and at_item: "before (x # xs) s \<Longrightarrow> valid s \<and> item s = Some x \<and> (\<exists>s'. advance s = Some s' \<and> before xs s')"
begin

lemma collects: "before xs s \<Longrightarrow> length xs \<le> n \<Longrightarrow> collect valid item advance n s = Some xs"
proof (induction xs arbitrary: s n)
  case Nil
  then show ?case using at_end by (cases n) simp_all
next
  case (Cons x xs)
  obtain m where n: "n = Suc m" using Cons(3) by (cases n) simp_all
  obtain s' where "advance s = Some s'" "before xs s'" "valid s" "item s = Some x" using at_item[OF Cons(2)] by blast
  then show ?case using Cons(1)[of s' m] Cons(3) by (simp add: n)
qed

end

end
