(* ===== verification/Picker.thy ===== *)
theory Picker
  imports Uniform Simulation
begin

text \<open>
  The weighted picker of tensorflow/core/lib/random/weighted_picker.cc and weighted_picker.h: a binary tree of
  32-bit sums over the weights, level by level. \<open>wf_picker\<close> is the invariant of the tree, \<open>weights\<close> what a picker
  stands for, a list of weights; every operation keeps the first and is a list operation on the second.

  \<open>CHECK\<close>, \<open>assert\<close> and accesses outside an array are \<open>None\<close>, and so is a constructor that never returns.
\<close>

type_synonym int32 = "32 word"

record WeightedPicker =
  num_elements :: nat
  num_levels :: nat
  level :: "int32 list list"

subsection \<open>The code\<close>

text \<open>\<open>1 << level\<close> in \<open>int\<close>: the value is negative for level 31, and zero above on the machine.\<close>

definition LevelSize :: "nat \<Rightarrow> int" where
  "LevelSize l = sint (push_bit l 1 :: int32)"

partial_function (option) find_levels :: "int \<Rightarrow> nat \<Rightarrow> nat option" where
  "find_levels n nl = (if LevelSize (nl - 1) < n then find_levels n (nl + 1) else Some nl)"

definition parents :: "nat \<Rightarrow> int32 list \<Rightarrow> int32 list" where
  "parents l children = map (\<lambda>i. children ! (2 * i) + children ! (2 * i + 1)) [0..<nat (LevelSize l)]"

text \<open>The loop of \<open>RebuildTreeWeights\<close> below a level.\<close>

fun rebuild :: "nat \<Rightarrow> int32 list list \<Rightarrow> int32 list list" where
  "rebuild 0 lv = lv"
| "rebuild (Suc l) lv = rebuild l (lv[l := parents l (lv ! Suc l)])"

definition RebuildTreeWeights :: "WeightedPicker \<Rightarrow> WeightedPicker" where
  "RebuildTreeWeights p = p\<lparr>level := rebuild (num_levels p - 1) (level p)\<rparr>"

definition set_leaves :: "int32 list \<Rightarrow> WeightedPicker \<Rightarrow> WeightedPicker" where
  "set_leaves ws p = (let l = num_levels p - 1 in
     p\<lparr>level := (level p)[l := ws @ replicate (nat (LevelSize l) - length ws) 0]\<rparr>)"

definition SetAllWeights :: "int32 \<Rightarrow> WeightedPicker \<Rightarrow> WeightedPicker" where
  "SetAllWeights w p = RebuildTreeWeights (set_leaves (replicate (num_elements p) w) p)"

text \<open>The new arrays are not initialised: \<open>junk\<close> is what they hold.\<close>

definition WeightedPicker_new :: "int32 \<Rightarrow> int \<Rightarrow> WeightedPicker option" where
  "WeightedPicker_new junk n = (if n < 0 then None
     else case find_levels n 1 of None \<Rightarrow> None
     | Some nl \<Rightarrow> Some (SetAllWeights 1 \<lparr>num_elements = nat n, num_levels = nl,
         level = map (\<lambda>l. replicate (nat (LevelSize l)) junk) [0..<nl]\<rparr>))"

definition get_weight :: "nat \<Rightarrow> WeightedPicker \<Rightarrow> int32 option" where
  "get_weight i p = (if i < num_elements p then Some (level p ! (num_levels p - 1) ! i) else None)"

definition total_weight :: "WeightedPicker \<Rightarrow> int32" where
  "total_weight p = level p ! 0 ! 0"

text \<open>The loop of \<open>set_weight\<close>, from the leaves to the root.\<close>

fun add_up :: "nat \<Rightarrow> nat \<Rightarrow> int32 \<Rightarrow> int32 list list \<Rightarrow> int32 list list" where
  "add_up 0 index delta lv = lv"
| "add_up (Suc l) index delta lv = add_up l (index div 2) delta (lv[l := (lv ! l)[index := lv ! l ! index + delta]])"

definition set_weight :: "nat \<Rightarrow> int32 \<Rightarrow> WeightedPicker \<Rightarrow> WeightedPicker option" where
  "set_weight index weight p = (case get_weight index p of None \<Rightarrow> None
     | Some old \<Rightarrow> Some (p\<lparr>level := add_up (num_levels p) index (weight - old) (level p)\<rparr>))"

fun zero_weights :: "nat list \<Rightarrow> WeightedPicker \<Rightarrow> WeightedPicker option" where
  "zero_weights [] p = Some p"
| "zero_weights (i # is) p = (case set_weight i 0 p of None \<Rightarrow> None | Some p \<Rightarrow> zero_weights is p)"

definition Resize :: "int32 \<Rightarrow> int \<Rightarrow> WeightedPicker \<Rightarrow> WeightedPicker option" where
  "Resize junk new_size p = (if new_size < 0 then None
     else if new_size \<le> LevelSize (num_levels p - 1)
     then (case zero_weights [nat new_size..<num_elements p] p of None \<Rightarrow> None
       | Some p \<Rightarrow> Some (p\<lparr>num_elements := nat new_size\<rparr>))
     else if \<not> int (num_elements p) < new_size then None
     else case WeightedPicker_new junk new_size of None \<Rightarrow> None
       | Some q \<Rightarrow> let n = num_elements p; l = num_levels q - 1; dst = level q ! l;
             dst = take n (level p ! (num_levels p - 1)) @ drop n dst;
             dst = take n dst @ replicate (nat new_size - n) 0 @ drop (nat new_size) dst
           in Some (RebuildTreeWeights (q\<lparr>level := (level q)[l := dst]\<rparr>)))"

text \<open>The array of the weights has to have the elements the loop reads.\<close>

definition SetWeightsFromArray :: "int32 \<Rightarrow> int \<Rightarrow> int32 list \<Rightarrow> WeightedPicker \<Rightarrow> WeightedPicker option" where
  "SetWeightsFromArray junk n ws p = (case Resize junk n p of None \<Rightarrow> None
     | Some p \<Rightarrow> if length ws < num_elements p then None
         else Some (RebuildTreeWeights (set_leaves (take (num_elements p) ws) p)))"

definition Append :: "int32 \<Rightarrow> int32 \<Rightarrow> WeightedPicker \<Rightarrow> WeightedPicker option" where
  "Append junk weight p = (case Resize junk (int (num_elements p) + 1) p of None \<Rightarrow> None
     | Some p \<Rightarrow> set_weight (num_elements p - 1) weight p)"

fun descend :: "int32 list list \<Rightarrow> nat list \<Rightarrow> nat \<Rightarrow> int32 \<Rightarrow> nat \<times> int32" where
  "descend lv [] index pos = (index, pos)"
| "descend lv (l # ls) index pos = (let left = lv ! l ! (2 * index) in
     if pos <s left then descend lv ls (2 * index) pos
     else descend lv ls (2 * index + 1) (pos - left))"

definition PickAt :: "int32 \<Rightarrow> WeightedPicker \<Rightarrow> int option" where
  "PickAt weight_index p = (if weight_index <s 0 \<or> \<not> weight_index <s total_weight p then Some (- 1)
     else case descend (level p) [1..<num_levels p] 0 weight_index of (index, pos) \<Rightarrow>
       if index < num_elements p \<and> pos \<le>s level p ! (num_levels p - 1) ! index then Some (int index) else None)"

definition UnbiasedUniform :: "int32 \<Rightarrow> SingleSampleAdapter \<Rightarrow> (int32 \<times> SingleSampleAdapter) option" where
  "UnbiasedUniform n r = (if n <s 0 then None
     else let range = NOT 0 in
       if n = 0 then (case Rand32 r of (x, r) \<Rightarrow> Some (x * n, r))
       else if n AND (n - 1) = 0 then (case Rand32 r of (x, r) \<Rightarrow> Some (x AND (n - 1), r))
       else let rem = range mod n + 1 in (case reject Rand32 rem r of None \<Rightarrow> None | Some (x, r) \<Rightarrow> Some (x mod n, r)))"

definition Pick :: "SingleSampleAdapter \<Rightarrow> WeightedPicker \<Rightarrow> (int \<times> SingleSampleAdapter) option" where
  "Pick r p = (if total_weight p = 0 then Some (- 1, r)
     else case UnbiasedUniform (total_weight p) r of None \<Rightarrow> None
     | Some (x, r) \<Rightarrow> (case PickAt x p of None \<Rightarrow> None | Some i \<Rightarrow> Some (i, r)))"

subsection \<open>Levels\<close>

lemma LevelSize_pow: "l \<le> 30 \<Longrightarrow> LevelSize l = 2 ^ l"
proof -
  assume l: "l \<le> 30"
  have "(2 :: int) ^ l \<le> 2 ^ 30" using l by (intro power_increasing) simp_all
  then have "(2 :: int) ^ l < 2 ^ 31" by simp
  moreover have "(push_bit l 1 :: int32) = word_of_int (2 ^ l)" by (simp add: push_bit_of_1)
  ultimately show ?thesis unfolding LevelSize_def
    using signed_take_bit_int_eq_self[of 31 "2 ^ l"] order_trans[of "- (2 ^ 31)" 0 "2 ^ l :: int"] by (simp only: sint_sbintrunc') simp
qed

lemma LevelSize_big: "31 \<le> l \<Longrightarrow> LevelSize l \<le> 0"
proof -
  assume l: "31 \<le> l"
  show ?thesis
  proof (cases "l = 31")
    case True
    then show ?thesis by (simp add: LevelSize_def)
  next
    case False
    then have "(push_bit l 1 :: int32) = 0" using l by (intro bit_word_eqI) (auto simp: bit_push_bit_iff simp del: push_bit_of_1)
    then show ?thesis unfolding LevelSize_def by (simp only: signed_0 order_refl)
  qed
qed

text \<open>The constructor finds the levels of up to \<open>2 ^ 30\<close> elements, and does not return for more.\<close>

lemma find_levels_from:
  assumes "n \<le> 2 ^ k" and "k \<le> 30" and "0 < nl" and "nl \<le> Suc k"
  shows "\<exists>m. find_levels n nl = Some m \<and> nl \<le> m \<and> m \<le> Suc k \<and> n \<le> 2 ^ (m - 1)"
  using assms
proof (induction "Suc k - nl" arbitrary: nl)
  case 0
  then have "nl - 1 = k" by simp
  then have "LevelSize (nl - 1) = 2 ^ k" using LevelSize_pow[of k] 0 by simp
  then show ?case using 0 \<open>nl - 1 = k\<close> by (subst find_levels.simps) auto
next
  case (Suc x)
  have p: "LevelSize (nl - 1) = 2 ^ (nl - 1)" using Suc by (intro LevelSize_pow) simp
  show ?case
  proof (cases "2 ^ (nl - 1) < n")
    case True
    have "\<exists>m. find_levels n (nl + 1) = Some m \<and> nl + 1 \<le> m \<and> m \<le> Suc k \<and> n \<le> 2 ^ (m - 1)"
      using Suc by (intro Suc.hyps(1)) simp_all
    then show ?thesis using True p by (subst find_levels.simps) auto
  next
    case False
    then show ?thesis using p Suc by (subst find_levels.simps) simp
  qed
qed

lemma find_levels_diverges:
  assumes "2 ^ 30 < n"
  shows "find_levels n nl = None"
proof (rule ccontr)
  assume "find_levels n nl \<noteq> None"
  then obtain m where "find_levels n nl = Some m" by blast
  then have "\<not> LevelSize (m - 1) < n"
    by (rule find_levels.raw_induct[where P = "\<lambda>n nl m. \<not> LevelSize (m - 1) < n", rotated]) (auto split: if_splits)
  moreover have "LevelSize l < n" for l
  proof (cases "l \<le> 30")
    case True
    have "(2 :: int) ^ l \<le> 2 ^ 30" using True by (intro power_increasing) simp_all
    then show ?thesis using LevelSize_pow[OF True] assms by linarith
  next
    case False
    then show ?thesis using LevelSize_big[of l] assms by simp
  qed
  ultimately show False by blast
qed

subsection \<open>The tree\<close>

definition shaped :: "nat \<Rightarrow> int32 list list \<Rightarrow> bool" where
  "shaped nl lv \<longleftrightarrow> length lv = nl \<and> (\<forall>l < nl. length (lv ! l) = 2 ^ l)"

definition summed :: "nat \<Rightarrow> int32 list list \<Rightarrow> bool" where
  "summed n lv \<longleftrightarrow> (\<forall>l < n. \<forall>i < 2 ^ l. lv ! l ! i = lv ! Suc l ! (2 * i) + lv ! Suc l ! (2 * i + 1))"

lemma parents_len: "l \<le> 30 \<Longrightarrow> length (parents l cs) = 2 ^ l"
  by (simp add: parents_def LevelSize_pow nat_power_eq)

lemma parents_nth: "l \<le> 30 \<Longrightarrow> i < 2 ^ l \<Longrightarrow> parents l cs ! i = cs ! (2 * i) + cs ! (2 * i + 1)"
  by (simp add: parents_def LevelSize_pow nat_power_eq)

lemma rebuild_keeps:
  assumes "k < nl" and "nl \<le> 31" and "shaped nl lv"
  shows "shaped nl (rebuild k lv) \<and> (\<forall>l. k \<le> l \<longrightarrow> rebuild k lv ! l = lv ! l) \<and> summed k (rebuild k lv)"
  using assms
proof (induction k arbitrary: lv)
  case (Suc k)
  define lv' where "lv' = lv[k := parents k (lv ! Suc k)]"
  have s: "shaped nl lv'" using Suc.prems parents_len[of k] by (auto simp: shaped_def lv'_def nth_list_update)
  have IH: "shaped nl (rebuild k lv')" "\<And>l. k \<le> l \<Longrightarrow> rebuild k lv' ! l = lv' ! l" "summed k (rebuild k lv')"
    using Suc.IH[of lv'] s Suc.prems by auto
  have "lv' ! k = parents k (lv ! Suc k)" "lv' ! Suc k = lv ! Suc k" using Suc.prems by (auto simp: lv'_def shaped_def)
  then have "rebuild k lv' ! k ! i = rebuild k lv' ! Suc k ! (2 * i) + rebuild k lv' ! Suc k ! (2 * i + 1)" if "i < 2 ^ k" for i
    using IH(2)[of k] IH(2)[of "Suc k"] parents_nth[of k i] that Suc.prems by simp
  then have "summed (Suc k) (rebuild k lv')" using IH(3) by (auto simp: summed_def less_Suc_eq)
  moreover have "rebuild k lv' ! l = lv ! l" if "Suc k \<le> l" for l using IH(2)[of l] that by (simp add: lv'_def)
  ultimately show ?case using IH(1) by (simp add: lv'_def)
qed (simp add: summed_def)

lemma add_up_nth:
  assumes "shaped nl lv" and "n \<le> nl" and "l < nl" and "i < 2 ^ l"
  shows "add_up n index delta lv ! l ! i = lv ! l ! i + (if l < n \<and> i = index div 2 ^ (n - 1 - l) then delta else 0)"
  using assms
proof (induction n arbitrary: index lv)
  case (Suc n)
  define lv' where "lv' = lv[n := (lv ! n)[index := lv ! n ! index + delta]]"
  have "shaped nl lv'" using Suc.prems by (auto simp: shaped_def lv'_def nth_list_update)
  then have IH: "add_up n (index div 2) delta lv' ! l ! i = lv' ! l ! i + (if l < n \<and> i = index div 2 div 2 ^ (n - 1 - l) then delta else 0)"
    using Suc by simp
  have len: "n < length lv" "length (lv ! n) = 2 ^ n" using Suc.prems by (auto simp: shaped_def)
  show ?case
  proof (cases "l < n")
    case True
    then have "(2 :: nat) ^ (Suc n - 1 - l) = 2 * 2 ^ (n - 1 - l)" by (simp flip: power_Suc add: Suc_diff_Suc)
    then have "index div 2 ^ (Suc n - 1 - l) = index div 2 div 2 ^ (n - 1 - l)" by (simp add: div_mult2_eq)
    then show ?thesis using IH True by (simp add: lv'_def)
  next
    case False
    show ?thesis
    proof (cases "l = n")
      case True
      then show ?thesis using IH len Suc.prems(4) by (auto simp: lv'_def nth_list_update)
    next
      case F: False
      then show ?thesis using IH False by (simp add: lv'_def)
    qed
  qed
qed simp

lemma add_up_shaped: "shaped nl lv \<Longrightarrow> shaped nl (add_up n index delta lv)"
proof (induction n arbitrary: index lv)
  case (Suc n)
  have "shaped nl (lv[n := (lv ! n)[index := lv ! n ! index + delta]])"
    using Suc.prems by (cases "n < length lv") (auto simp: shaped_def nth_list_update list_update_beyond)
  then show ?case using Suc.IH by simp
qed simp

lemma half_eq: "x div 2 = i \<longleftrightarrow> x = 2 * i \<or> x = 2 * i + (1 :: nat)"
  by presburger

lemma add_up_summed:
  assumes "shaped nl lv" and "summed (nl - 1) lv"
  shows "summed (nl - 1) (add_up nl index delta lv)"
  unfolding summed_def
proof (intro allI impI)
  fix l and i :: nat assume l: "l < nl - 1" and i: "i < 2 ^ l"
  define j where "j = index div 2 ^ (nl - 1 - Suc l)"
  have "nl - 1 - l = Suc (nl - 1 - Suc l)" using l by simp
  then have d: "index div 2 ^ (nl - 1 - l) = j div 2" unfolding j_def by (simp add: div_mult2_eq mult.commute[of 2])
  have c: "2 * i < 2 ^ Suc l" "2 * i + 1 < 2 ^ Suc l" "l < nl" "Suc l < nl" using i l by auto
  have e: "lv ! l ! i = lv ! Suc l ! (2 * i) + lv ! Suc l ! (2 * i + 1)" using assms(2) l i by (auto simp: summed_def)
  have e0: "add_up nl index delta lv ! l ! i = lv ! l ! i + (if i = j div 2 then delta else 0)"
    using add_up_nth[OF assms(1) order_refl c(3) i, of index delta] c unfolding d by simp
  have e1: "add_up nl index delta lv ! Suc l ! (2 * i) = lv ! Suc l ! (2 * i) + (if 2 * i = j then delta else 0)"
    using add_up_nth[OF assms(1) order_refl c(4,1), of index delta] c unfolding j_def by simp
  have e2: "add_up nl index delta lv ! Suc l ! (2 * i + 1) = lv ! Suc l ! (2 * i + 1) + (if 2 * i + 1 = j then delta else 0)"
    using add_up_nth[OF assms(1) order_refl c(4,2), of index delta] c unfolding j_def by simp
  consider "i \<noteq> j div 2" "2 * i \<noteq> j" "2 * i + 1 \<noteq> j" | "i = j div 2" "2 * i = j" "2 * i + 1 \<noteq> j" | "i = j div 2" "2 * i \<noteq> j" "2 * i + 1 = j"
    using half_eq[of j i] by fastforce
  then have "(if i = j div 2 then delta else 0) = (if 2 * i = j then delta else 0) + (if 2 * i + 1 = j then delta else 0)"
    by cases simp_all
  then show "add_up nl index delta lv ! l ! i = add_up nl index delta lv ! Suc l ! (2 * i) + add_up nl index delta lv ! Suc l ! (2 * i + 1)"
    unfolding e0 e1 e2 e by (simp only: ac_simps)
qed

definition wf_picker :: "WeightedPicker \<Rightarrow> bool" where
  "wf_picker p \<longleftrightarrow> 0 < num_levels p \<and> num_levels p \<le> 31 \<and> shaped (num_levels p) (level p) \<and> summed (num_levels p - 1) (level p)
     \<and> num_elements p \<le> 2 ^ (num_levels p - 1)
     \<and> (\<forall>i. num_elements p \<le> i \<and> i < 2 ^ (num_levels p - 1) \<longrightarrow> level p ! (num_levels p - 1) ! i = 0)"

definition weights :: "WeightedPicker \<Rightarrow> int32 list" where
  "weights p = take (num_elements p) (level p ! (num_levels p - 1))"

lemma weights_len: "wf_picker p \<Longrightarrow> length (weights p) = num_elements p"
  by (simp add: wf_picker_def weights_def shaped_def)

lemma rebuild_wf:
  assumes "0 < num_levels p" and "num_levels p \<le> 31" and "shaped (num_levels p) (level p)" and "length ws \<le> 2 ^ (num_levels p - 1)"
    and "num_elements p = length ws"
  shows "wf_picker (RebuildTreeWeights (set_leaves ws p)) \<and> weights (RebuildTreeWeights (set_leaves ws p)) = ws
    \<and> num_levels (RebuildTreeWeights (set_leaves ws p)) = num_levels p"
proof -
  let ?l = "num_levels p - 1"
  define lv where "lv = (level p)[?l := ws @ replicate (2 ^ ?l - length ws) 0]"
  have e: "RebuildTreeWeights (set_leaves ws p) = p\<lparr>level := rebuild ?l lv\<rparr>"
    using assms(2) by (simp add: RebuildTreeWeights_def set_leaves_def Let_def LevelSize_pow nat_power_eq lv_def)
  have s: "shaped (num_levels p) lv" using assms by (auto simp: lv_def shaped_def nth_list_update)
  have r: "shaped (num_levels p) (rebuild ?l lv)" "rebuild ?l lv ! ?l = lv ! ?l" "summed ?l (rebuild ?l lv)"
    using rebuild_keeps[OF _ assms(2) s, of ?l] assms(1) by auto
  have "lv ! ?l = ws @ replicate (2 ^ ?l - length ws) 0" using assms by (simp add: lv_def shaped_def)
  then show ?thesis using assms r by (auto simp: e wf_picker_def weights_def nth_append)
qed

lemma new_wf:
  assumes "0 \<le> n" and "n \<le> 2 ^ 30"
  shows "\<exists>p. WeightedPicker_new junk n = Some p \<and> wf_picker p \<and> weights p = replicate (nat n) 1"
proof -
  obtain nl where f: "find_levels n 1 = Some nl" and nl: "1 \<le> nl" "nl \<le> 31" "n \<le> 2 ^ (nl - 1)"
    using find_levels_from[of n 30 1] assms by auto
  define p where "p = \<lparr>num_elements = nat n, num_levels = nl, level = map (\<lambda>l. replicate (nat (LevelSize l)) junk) [0..<nl]\<rparr>"
  have "shaped nl (level p)" using nl(2) by (auto simp: p_def shaped_def LevelSize_pow nat_power_eq)
  moreover have "nat n \<le> 2 ^ (nl - 1)" using nl(3) by (simp add: nat_le_iff)
  ultimately have "wf_picker (RebuildTreeWeights (set_leaves (replicate (nat n) 1) p)) \<and> weights (RebuildTreeWeights (set_leaves (replicate (nat n) 1) p)) = replicate (nat n) 1"
    using nl(1,2) rebuild_wf[of p "replicate (nat n) 1"] by (simp add: p_def)
  then show ?thesis using assms f by (simp add: WeightedPicker_new_def SetAllWeights_def p_def)
qed

lemma set_weight_wf:
  assumes "wf_picker p" and "i < num_elements p"
  shows "\<exists>q. set_weight i w p = Some q \<and> wf_picker q \<and> weights q = (weights p)[i := w] \<and> num_elements q = num_elements p \<and> num_levels q = num_levels p"
proof -
  let ?n = "num_levels p"
  define d where "d = w - level p ! (?n - 1) ! i"
  define lv where "lv = add_up ?n i d (level p)"
  have p: "0 < ?n" "shaped ?n (level p)" "summed (?n - 1) (level p)" "num_elements p \<le> 2 ^ (?n - 1)" using assms(1) by (auto simp: wf_picker_def)
  have s: "shaped ?n lv" "summed (?n - 1) lv" unfolding lv_def using add_up_shaped[OF p(2)] add_up_summed[OF p(2,3)] by blast+
  have l: "lv ! (?n - 1) ! j = (if j = i then w else level p ! (?n - 1) ! j)" if "j < 2 ^ (?n - 1)" for j
    unfolding lv_def using add_up_nth[OF p(2) order_refl _ that, of i d] p(1) by (simp add: d_def)
  have "take (num_elements p) (lv ! (?n - 1)) = (take (num_elements p) (level p ! (?n - 1)))[i := w]"
    by (rule nth_equalityI) (use l p s in \<open>auto simp: shaped_def nth_list_update\<close>)
  moreover have "lv ! (?n - 1) ! j = 0" if "num_elements p \<le> j" "j < 2 ^ (?n - 1)" for j
    using l[OF that(2)] assms that by (auto simp: wf_picker_def)
  moreover have "set_weight i w p = Some (p\<lparr>level := lv\<rparr>)"
    using assms(2) by (simp add: set_weight_def get_weight_def lv_def d_def)
  ultimately show ?thesis using assms s p by (simp add: wf_picker_def weights_def)
qed

lemma zero_weights_wf:
  assumes "wf_picker p" and "a \<le> num_elements p" and "b \<le> num_elements p" and "a \<le> b"
  shows "\<exists>q. zero_weights [a..<b] p = Some q \<and> wf_picker q \<and> num_elements q = num_elements p \<and> num_levels q = num_levels p
    \<and> (\<forall>i < num_elements p. weights q ! i = (if a \<le> i \<and> i < b then 0 else weights p ! i))"
  using assms
proof (induction "b - a" arbitrary: a p)
  case 0
  then show ?case by auto
next
  case (Suc n)
  then have a: "a < b" "a < num_elements p" by simp_all
  obtain q where q: "set_weight a 0 p = Some q" "wf_picker q" "weights q = (weights p)[a := 0]" "num_elements q = num_elements p" "num_levels q = num_levels p"
    using set_weight_wf[OF Suc.prems(1) a(2)] by blast
  obtain r where r: "zero_weights [Suc a..<b] q = Some r" "wf_picker r" "num_elements r = num_elements q" "num_levels r = num_levels q"
      "\<forall>i < num_elements q. weights r ! i = (if Suc a \<le> i \<and> i < b then 0 else weights q ! i)"
    using Suc.hyps(1)[of "Suc a" q] Suc.hyps(2) Suc.prems q a by fastforce
  have "weights r ! i = (if a \<le> i \<and> i < b then 0 else weights p ! i)" if "i < num_elements p" for i
    using r(5) q(3,4) a that weights_len[OF Suc.prems(1)] by (auto simp: nth_list_update)
  then show ?case using a q r by (simp add: upt_conv_Cons)
qed

text \<open>Resizing cuts the weights off or fills them up with zeros.\<close>

definition resized :: "nat \<Rightarrow> int32 list \<Rightarrow> int32 list" where
  "resized n ws = take n ws @ replicate (n - length ws) 0"

lemma leaf: "wf_picker p \<Longrightarrow> i < 2 ^ (num_levels p - 1) \<Longrightarrow> level p ! (num_levels p - 1) ! i = (if i < num_elements p then weights p ! i else 0)"
  by (simp add: wf_picker_def weights_def)

lemma weights_take: "wf_picker p \<Longrightarrow> n \<le> num_elements p \<Longrightarrow> take n (level p ! (num_levels p - 1)) = take n (weights p)"
  by (simp add: weights_def min_absorb1)

lemma Resize_fits:
  assumes "wf_picker p" and "0 \<le> n" and "n \<le> 2 ^ (num_levels p - 1)"
  shows "\<exists>q. Resize junk n p = Some q \<and> wf_picker q \<and> weights q = resized (nat n) (weights p)"
proof -
  let ?l = "num_levels p - 1"
  define m where "m = min (nat n) (num_elements p)"
  obtain q where q: "zero_weights [m..<num_elements p] p = Some q" "wf_picker q" "num_elements q = num_elements p" "num_levels q = num_levels p"
      "\<forall>i < num_elements p. weights q ! i = (if m \<le> i \<and> i < num_elements p then 0 else weights p ! i)"
    using zero_weights_wf[OF assms(1), of m "num_elements p"] by (auto simp: m_def)
  have z: "[nat n..<num_elements p] = [m..<num_elements p]" by (cases "nat n \<le> num_elements p") (simp_all add: m_def)
  have "LevelSize ?l = 2 ^ ?l" using assms(1) by (intro LevelSize_pow) (auto simp: wf_picker_def)
  then have "n \<le> LevelSize ?l" using assms(3) by simp
  then have R: "Resize junk n p = Some (q\<lparr>num_elements := nat n\<rparr>)" using assms(2) q(1) by (simp add: Resize_def z)
  have leaf_q: "level q ! ?l ! i = (if i < m then weights p ! i else 0)" if "i < 2 ^ ?l" for i
    using leaf[OF q(2), of i] that q(3-5) by (auto simp: m_def)
  have len: "length (level q ! ?l) = 2 ^ ?l" "length (weights p) = num_elements p" "nat n \<le> 2 ^ ?l"
    using q(2,4) weights_len[OF assms(1)] assms(3) by (auto simp: wf_picker_def shaped_def nat_le_iff)
  have "take (nat n) (level q ! ?l) = resized (nat n) (weights p)"
  proof (rule nth_equalityI)
    show "length (take (nat n) (level q ! ?l)) = length (resized (nat n) (weights p))" using len by (simp add: resized_def)
    fix i assume "i < length (take (nat n) (level q ! ?l))"
    then have i: "i < nat n" "i < 2 ^ ?l" using len by simp_all
    then show "take (nat n) (level q ! ?l) ! i = resized (nat n) (weights p) ! i"
      using leaf_q[OF i(2)] len by (simp add: resized_def nth_append m_def)
  qed
  then show ?thesis using R q(2,4) leaf_q len(3) by (auto simp: wf_picker_def weights_def m_def)
qed

lemma Resize_grows:
  assumes "wf_picker p" and "2 ^ (num_levels p - 1) < n" and "n \<le> 2 ^ 30"
  shows "\<exists>q. Resize junk n p = Some q \<and> wf_picker q \<and> weights q = resized (nat n) (weights p)"
proof -
  let ?l = "num_levels p - 1" and ?N = "num_elements p"
  obtain q where q: "WeightedPicker_new junk n = Some q" "wf_picker q" "weights q = replicate (nat n) 1"
    using new_wf[of n junk] assms by (metis less_imp_le order_trans zero_le_numeral zero_le_power)
  let ?k = "num_levels q - 1"
  have lp: "?N \<le> 2 ^ ?l" "length (level p ! ?l) = 2 ^ ?l" "LevelSize ?l = 2 ^ ?l"
    using assms(1) by (auto simp: wf_picker_def shaped_def intro: LevelSize_pow)
  have "int ?N \<le> int (2 ^ ?l)" using lp(1) by (simp only: of_nat_le_iff)
  then have "int ?N \<le> 2 ^ ?l" by (simp only: of_nat_power of_nat_numeral)
  then have Nn: "int ?N < n" using assms(2) by linarith
  have nq: "num_elements q = nat n" using weights_len[OF q(2)] q(3) by simp
  have lq: "nat n \<le> 2 ^ ?k" "length (level q ! ?k) = 2 ^ ?k" "LevelSize ?k = 2 ^ ?k" "0 < num_levels q" "num_levels q \<le> 31" "shaped (num_levels q) (level q)"
    using q(2) nq by (auto simp: wf_picker_def shaped_def intro: LevelSize_pow)
  have dr: "drop (nat n) (level q ! ?k) = replicate (2 ^ ?k - nat n) 0"
    by (rule nth_equalityI) (use lq(1,2) leaf[OF q(2)] nq in auto)
  have tk: "take ?N (level p ! ?l) = weights p" "length (weights p) = ?N" using weights_len[OF assms(1)] by (simp_all add: weights_def)
  define ws where "ws = resized (nat n) (weights p)"
  have wl: "length ws = nat n" using Nn tk(2) by (simp add: ws_def resized_def)
  have "weights p @ replicate (nat n - ?N) 0 @ drop (nat n) (level q ! ?k) = ws @ replicate (2 ^ ?k - length ws) 0"
    unfolding dr wl using Nn tk(2) by (simp add: ws_def resized_def)
  then have "Resize junk n p = Some (RebuildTreeWeights (set_leaves ws q))"
    using assms(2) Nn lp lq(3) q(1) tk by (simp add: Resize_def Let_def set_leaves_def nat_power_eq min.absorb2)
  moreover have "wf_picker (RebuildTreeWeights (set_leaves ws q)) \<and> weights (RebuildTreeWeights (set_leaves ws q)) = ws"
    using rebuild_wf[of q ws] lq wl nq by simp
  ultimately show ?thesis by (simp add: ws_def)
qed

lemma Resize_wf:
  assumes "wf_picker p" and "0 \<le> n" and "n \<le> 2 ^ 30"
  shows "\<exists>q. Resize junk n p = Some q \<and> wf_picker q \<and> weights q = resized (nat n) (weights p)"
  using Resize_fits[OF assms(1,2)] Resize_grows[OF assms(1) _ assms(3)] by (cases "n \<le> 2 ^ (num_levels p - 1)") auto

lemma SetAllWeights_wf:
  assumes "wf_picker p"
  shows "wf_picker (SetAllWeights w p) \<and> weights (SetAllWeights w p) = replicate (num_elements p) w"
proof -
  have "0 < num_levels p" "num_levels p \<le> 31" "shaped (num_levels p) (level p)" "num_elements p \<le> 2 ^ (num_levels p - 1)"
    using assms by (auto simp: wf_picker_def)
  then show ?thesis using rebuild_wf[of p "replicate (num_elements p) w"] by (simp add: SetAllWeights_def)
qed

lemma SetWeightsFromArray_wf:
  assumes "wf_picker p" and "length ws \<le> 2 ^ 30"
  shows "\<exists>q. SetWeightsFromArray junk (int (length ws)) ws p = Some q \<and> wf_picker q \<and> weights q = ws"
proof -
  have "int (length ws) \<le> int (2 ^ 30)" using assms(2) by (simp only: of_nat_le_iff)
  then obtain r where r: "Resize junk (int (length ws)) p = Some r" "wf_picker r" "weights r = resized (length ws) (weights p)"
    using Resize_wf[OF assms(1), of "int (length ws)" junk] by auto
  then have n: "num_elements r = length ws" using weights_len[OF r(2)] by (simp add: resized_def)
  then show ?thesis using r rebuild_wf[of r ws] by (auto simp: SetWeightsFromArray_def wf_picker_def)
qed

lemma Append_wf:
  assumes "wf_picker p" and "num_elements p < 2 ^ 30"
  shows "\<exists>q. Append junk w p = Some q \<and> wf_picker q \<and> weights q = weights p @ [w]"
proof -
  have "int (num_elements p) < int (2 ^ 30)" using assms(2) by (simp only: of_nat_less_iff)
  then obtain r where r: "Resize junk (int (num_elements p) + 1) p = Some r" "wf_picker r" "weights r = resized (Suc (num_elements p)) (weights p)"
    using Resize_wf[OF assms(1), of "int (num_elements p) + 1" junk] by (auto simp: nat_add_distrib)
  have l: "length (weights p) = num_elements p" by (rule weights_len[OF assms(1)])
  then have wr: "weights r = weights p @ [0]" using r(3) by (simp add: resized_def)
  then have n: "num_elements r = Suc (num_elements p)" using weights_len[OF r(2)] l by simp
  then obtain q where "set_weight (num_elements p) w r = Some q" "wf_picker q" "weights q = (weights r)[num_elements p := w]"
    using set_weight_wf[OF r(2), of "num_elements p" w] by auto
  then show ?thesis using r(1) n wr l by (simp add: Append_def list_update_append)
qed

subsection \<open>Picking\<close>

text \<open>A node is the sum of the leaves below it.\<close>

lemma node_sum:
  assumes "summed (nl - 1) lv" and "l < nl" and "i < 2 ^ l"
  shows "lv ! l ! i = (\<Sum>j \<in> {i * 2 ^ (nl - 1 - l)..<(i + 1) * 2 ^ (nl - 1 - l)}. lv ! (nl - 1) ! j)"
  using assms(2,3)
proof (induction "nl - 1 - l" arbitrary: l i)
  case 0
  then have "l = nl - 1" by simp
  then show ?case by simp
next
  case (Suc k)
  have l: "k = nl - 1 - Suc l" "Suc l < nl" "2 * i < 2 ^ Suc l" "2 * i + 1 < 2 ^ Suc l" using Suc by auto
  have p: "2 ^ (nl - 1 - l) = 2 * (2 :: nat) ^ k" by (simp only: Suc.hyps(2)[symmetric] power_Suc)
  have "lv ! l ! i = lv ! Suc l ! (2 * i) + lv ! Suc l ! (2 * i + 1)" using assms(1) Suc.prems l(2) by (auto simp: summed_def)
  also have "\<dots> = (\<Sum>j \<in> {2 * i * 2 ^ k..<(2 * i + 1) * 2 ^ k}. lv ! (nl - 1) ! j) + (\<Sum>j \<in> {(2 * i + 1) * 2 ^ k..<(2 * i + 1 + 1) * 2 ^ k}. lv ! (nl - 1) ! j)"
    using Suc.hyps(1)[OF l(1,2,3)] Suc.hyps(1)[OF l(1,2,4)] by (simp only: l(1)[symmetric])
  also have "\<dots> = (\<Sum>j \<in> {2 * i * 2 ^ k..<(2 * i + 1 + 1) * 2 ^ k}. lv ! (nl - 1) ! j)"
    by (rule sum.atLeastLessThan_concat) simp_all
  also have "{2 * i * 2 ^ k..<(2 * i + 1 + 1) * 2 ^ k} = {i * 2 ^ (nl - 1 - l)..<(i + 1) * 2 ^ (nl - 1 - l)}"
    unfolding p by (simp add: algebra_simps)
  finally show ?case .
qed

lemma total_weight_sum:
  assumes "wf_picker p"
  shows "total_weight p = sum_list (weights p)"
proof -
  let ?l = "num_levels p - 1"
  have w: "0 < num_levels p" "summed ?l (level p)" "num_elements p \<le> 2 ^ ?l" "length (level p ! ?l) = 2 ^ ?l"
    using assms by (auto simp: wf_picker_def shaped_def)
  have "total_weight p = (\<Sum>j \<in> {0..<2 ^ ?l}. level p ! ?l ! j)"
    using node_sum[OF w(2,1), of 0] by (simp add: total_weight_def)
  also have "\<dots> = (\<Sum>j \<in> {0..<num_elements p}. level p ! ?l ! j) + (\<Sum>j \<in> {num_elements p..<2 ^ ?l}. level p ! ?l ! j)"
    using w(3) by (intro sum.atLeastLessThan_concat[symmetric]) simp_all
  also have "(\<Sum>j \<in> {num_elements p..<2 ^ ?l}. level p ! ?l ! j) = 0"
    using leaf[OF assms] by (intro sum.neutral) auto
  also have "(\<Sum>j \<in> {0..<num_elements p}. level p ! ?l ! j) = (\<Sum>j \<in> {0..<num_elements p}. weights p ! j)"
    by (rule sum.cong) (simp_all add: weights_def)
  also have "\<dots> = sum_list (weights p)" using weights_len[OF assms] by (simp add: sum_list_sum_nth)
  finally show ?thesis by simp
qed

text \<open>When the sum of the weights is an \<open>int32\<close>, so is every node, without wrapping.\<close>

definition small :: "WeightedPicker \<Rightarrow> bool" where
  "small p \<longleftrightarrow> sum_list (map unat (weights p)) < 2 ^ 31"

definition prefix_sum :: "WeightedPicker \<Rightarrow> nat \<Rightarrow> nat" where
  "prefix_sum p i = (\<Sum>j \<in> {0..<i}. unat (level p ! (num_levels p - 1) ! j))"

lemma unat_sum_exact:
  assumes "finite A" and "(\<Sum>j \<in> A. unat (f j :: int32)) < 2 ^ 32"
  shows "unat (\<Sum>j \<in> A. f j) = (\<Sum>j \<in> A. unat (f j))"
  using assms
proof (induction A rule: finite_induct)
  case (insert a A)
  then show ?case by (simp add: unat_sum)
qed simp

lemma signed_small: "unat (a :: int32) < 2 ^ 31 \<Longrightarrow> sint a = int (unat a)"
proof -
  assume "unat a < 2 ^ 31"
  then have "int (unat a) < int (2 ^ 31)" by (simp only: of_nat_less_iff)
  then have "uint a < 2 ^ 31" by simp
  then have "signed_take_bit 31 (uint a) = uint a" using signed_take_bit_int_eq_self[of 31 "uint a"] uint_ge_0[of a] by simp
  then show ?thesis by (simp add: sint_uint)
qed

lemma signed_less: "unat a < 2 ^ 31 \<Longrightarrow> unat b < 2 ^ 31 \<Longrightarrow> a <s b \<longleftrightarrow> unat a < unat (b :: int32)"
  unfolding word_sless_alt by (simp only: signed_small of_nat_less_iff)

lemma prefix_sum_add: "a \<le> b \<Longrightarrow> prefix_sum p b = prefix_sum p a + (\<Sum>j \<in> {a..<b}. unat (level p ! (num_levels p - 1) ! j))"
  unfolding prefix_sum_def by (rule sum.atLeastLessThan_concat[symmetric]) simp_all

lemma prefix_sum_mono: "a \<le> b \<Longrightarrow> prefix_sum p a \<le> prefix_sum p b"
  using prefix_sum_add[of a b p] by simp

lemma prefix_sum_take:
  assumes "wf_picker p" and "i \<le> num_elements p"
  shows "prefix_sum p i = sum_list (map unat (take i (weights p)))"
proof -
  have "prefix_sum p i = (\<Sum>j \<in> {0..<i}. unat (weights p ! j))"
    unfolding prefix_sum_def using assms(2) by (intro sum.cong) (simp_all add: weights_def)
  also have "\<dots> = sum_list (map unat (take i (weights p)))"
    using weights_len[OF assms(1)] assms(2) by (simp add: sum_list_sum_nth)
  finally show ?thesis .
qed

lemma prefix_sum_all:
  assumes "wf_picker p"
  shows "prefix_sum p (2 ^ (num_levels p - 1)) = sum_list (map unat (weights p))"
proof -
  have n: "num_elements p \<le> 2 ^ (num_levels p - 1)" using assms by (simp add: wf_picker_def)
  have "(\<Sum>j \<in> {num_elements p..<2 ^ (num_levels p - 1)}. unat (level p ! (num_levels p - 1) ! j)) = 0"
    using leaf[OF assms] by (intro sum.neutral) auto
  then have "prefix_sum p (2 ^ (num_levels p - 1)) = prefix_sum p (num_elements p)" using prefix_sum_add[OF n, of p] by simp
  then show ?thesis using prefix_sum_take[OF assms order_refl] weights_len[OF assms] by simp
qed

lemma node_exact:
  assumes "wf_picker p" and "small p" and "l < num_levels p" and "i < 2 ^ l"
  defines "k \<equiv> num_levels p - 1 - l"
  shows "prefix_sum p ((i + 1) * 2 ^ k) = prefix_sum p (i * 2 ^ k) + unat (level p ! l ! i)" and "prefix_sum p ((i + 1) * 2 ^ k) < 2 ^ 31"
proof -
  let ?L = "num_levels p - 1"
  have L: "?L = l + k" using assms(3) by (simp add: k_def)
  have "(i + 1) * 2 ^ k \<le> 2 ^ l * 2 ^ k" using assms(4) by (intro mult_right_mono) simp_all
  then have "(i + 1) * 2 ^ k \<le> 2 ^ ?L" unfolding L power_add .
  from prefix_sum_mono[OF this, of p] show b: "prefix_sum p ((i + 1) * 2 ^ k) < 2 ^ 31"
    using assms(2) prefix_sum_all[OF assms(1)] by (simp add: small_def)
  have a: "prefix_sum p ((i + 1) * 2 ^ k) = prefix_sum p (i * 2 ^ k) + (\<Sum>j \<in> {i * 2 ^ k..<(i + 1) * 2 ^ k}. unat (level p ! ?L ! j))"
    by (rule prefix_sum_add) simp
  moreover have "unat (level p ! l ! i) = (\<Sum>j \<in> {i * 2 ^ k..<(i + 1) * 2 ^ k}. unat (level p ! ?L ! j))"
    using assms(1) node_sum[of "num_levels p" "level p" l i] assms(3,4) a b
    by (simp only: k_def[symmetric] wf_picker_def, subst unat_sum_exact) simp_all
  ultimately show "prefix_sum p ((i + 1) * 2 ^ k) = prefix_sum p (i * 2 ^ k) + unat (level p ! l ! i)" by (simp only:)
qed

lemma descend_finds:
  assumes p: "wf_picker p" "small p" and "l < num_levels p" and "i < 2 ^ l"
    and "prefix_sum p (i * 2 ^ (num_levels p - 1 - l)) + unat pos = t" and "t < prefix_sum p ((i + 1) * 2 ^ (num_levels p - 1 - l))"
  shows "\<exists>j pos'. descend (level p) [Suc l..<num_levels p] i pos = (j, pos') \<and> j < 2 ^ (num_levels p - 1)
    \<and> prefix_sum p j + unat pos' = t \<and> t < prefix_sum p (j + 1)"
  using assms(3-)
proof (induction "num_levels p - 1 - l" arbitrary: l i pos)
  case 0
  then have "l = num_levels p - 1" by simp
  then show ?case using 0 by simp
next
  case (Suc k)
  have l: "k = num_levels p - 1 - Suc l" "Suc l < num_levels p" "2 * i < 2 ^ Suc l" "2 * i + 1 < 2 ^ Suc l" using Suc by auto
  define left where "left = level p ! Suc l ! (2 * i)"
  have e: "num_levels p - 1 - l = Suc k" using Suc.hyps(2) by simp
  have m: "i * 2 ^ Suc k = 2 * i * 2 ^ k" "(i + 1) * 2 ^ Suc k = (2 * i + 1 + 1) * 2 ^ k" by simp_all
  have nl: "prefix_sum p ((2 * i + 1) * 2 ^ k) = prefix_sum p (2 * i * 2 ^ k) + unat left" "prefix_sum p ((2 * i + 1) * 2 ^ k) < 2 ^ 31"
    using node_exact[OF p l(2,3)] unfolding l(1)[symmetric] left_def by auto
  have nr: "prefix_sum p ((2 * i + 1 + 1) * 2 ^ k) < 2 ^ 31" using node_exact(2)[OF p l(2,4)] unfolding l(1)[symmetric] .
  have t: "prefix_sum p (2 * i * 2 ^ k) + unat pos = t" "t < prefix_sum p ((2 * i + 1 + 1) * 2 ^ k)"
    using Suc.prems(3,4) unfolding e m by auto
  have c: "pos <s left \<longleftrightarrow> unat pos < unat left" using nl nr t by (intro signed_less) linarith+
  have u: "[Suc l..<num_levels p] = Suc l # [Suc (Suc l)..<num_levels p]" using l(2) by (simp add: upt_conv_Cons)
  show ?case
  proof (cases "unat pos < unat left")
    case True
    have "t < prefix_sum p ((2 * i + 1) * 2 ^ k)" using True t nl by linarith
    then show ?thesis using Suc.hyps(1)[OF l(1,2,3), of pos] t True c unfolding l(1)[symmetric] u by (simp add: left_def)
  next
    case False
    then have s: "unat (pos - left) = unat pos - unat left" by (intro unat_sub) (simp add: word_le_nat_alt)
    have "prefix_sum p ((2 * i + 1) * 2 ^ k) + unat (pos - left) = t" using False t nl s by linarith
    then show ?thesis using Suc.hyps(1)[OF l(1,2,4), of "pos - left"] t False c unfolding l(1)[symmetric] u by (simp add: left_def)
  qed
qed

lemma PickAt_picks:
  assumes p: "wf_picker p" "small p" and t: "t < sum_list (map unat (weights p))"
  shows "\<exists>i < num_elements p. PickAt (of_nat t) p = Some (int i)
    \<and> sum_list (map unat (take i (weights p))) \<le> t \<and> t < sum_list (map unat (take (Suc i) (weights p)))"
proof -
  let ?L = "num_levels p - 1"
  have n: "0 < num_levels p" "num_elements p \<le> 2 ^ ?L" using p(1) by (auto simp: wf_picker_def)
  have t31: "t < 2 ^ 31" using t p(2) by (simp add: small_def)
  then have ut: "unat (of_nat t :: int32) = t" by (simp add: unat_of_nat)
  have all: "prefix_sum p (2 ^ ?L) = sum_list (map unat (weights p))" by (rule prefix_sum_all[OF p(1)])
  have tot: "unat (total_weight p) = sum_list (map unat (weights p))" "unat (total_weight p) < 2 ^ 31"
    using node_exact[OF p n(1), of 0] all by (simp_all add: total_weight_def prefix_sum_def)
  obtain j pos where d: "descend (level p) [1..<num_levels p] 0 (of_nat t) = (j, pos)" and j: "j < 2 ^ ?L" "prefix_sum p j + unat pos = t" "t < prefix_sum p (j + 1)"
    using descend_finds[OF p n(1), of 0 "of_nat t" t] ut t all by (auto simp: prefix_sum_def)
  have lf: "prefix_sum p (j + 1) = prefix_sum p j + unat (level p ! ?L ! j)" using prefix_sum_add[of j "j + 1" p] by simp
  have jn: "j < num_elements p" using leaf[OF p(1) j(1)] lf j by (cases "j < num_elements p") auto
  have small: "unat (level p ! ?L ! j) < 2 ^ 31" "unat pos < unat (level p ! ?L ! j)"
    using lf j node_exact(2)[OF p, of ?L j] n(1) by simp_all
  then have "pos <s level p ! ?L ! j" using signed_less[of pos "level p ! ?L ! j"] by linarith
  then have le: "pos \<le>s level p ! ?L ! j" by (simp add: signed.less_imp_le)
  have "\<not> (of_nat t :: int32) <s 0" using signed_less[of "of_nat t" 0] t31 by (simp add: ut)
  moreover have "(of_nat t :: int32) <s total_weight p" using signed_less[of "of_nat t" "total_weight p"] t31 ut tot t by simp
  ultimately have "PickAt (of_nat t) p = Some (int j)" using d jn le by (simp add: PickAt_def)
  moreover have "sum_list (map unat (take j (weights p))) \<le> t" using prefix_sum_take[OF p(1), of j] jn j by simp
  moreover have "t < sum_list (map unat (take (Suc j) (weights p)))" using prefix_sum_take[OF p(1), of "Suc j"] jn j by simp
  ultimately show ?thesis using jn by blast
qed

lemma same_interval:
  assumes "prefix_sum p i \<le> t" "t < prefix_sum p (Suc i)" and "prefix_sum p j \<le> t" "t < prefix_sum p (Suc j)"
  shows "i = j"
proof (rule ccontr)
  assume "i \<noteq> j"
  then consider "Suc i \<le> j" | "Suc j \<le> i" by linarith
  then show False using assms prefix_sum_mono[of "Suc i" j p] prefix_sum_mono[of "Suc j" i p] by cases linarith+
qed

text \<open>As many positions pick an element as its weight says.\<close>

lemma PickAt_count:
  assumes p: "wf_picker p" "small p" and i: "i < num_elements p"
  shows "card {t. t < sum_list (map unat (weights p)) \<and> PickAt (of_nat t) p = Some (int i)} = unat (weights p ! i)"
proof -
  have take: "prefix_sum p k = sum_list (map unat (take k (weights p)))" if "k \<le> num_elements p" for k
    using prefix_sum_take[OF p(1) that] .
  have all: "prefix_sum p (num_elements p) = sum_list (map unat (weights p))" using take[OF order_refl] weights_len[OF p(1)] by simp
  have "{t. t < sum_list (map unat (weights p)) \<and> PickAt (of_nat t) p = Some (int i)} = {prefix_sum p i..<prefix_sum p (Suc i)}"
  proof (intro equalityI subsetI)
    fix t assume "t \<in> {t. t < sum_list (map unat (weights p)) \<and> PickAt (of_nat t) p = Some (int i)}"
    then show "t \<in> {prefix_sum p i..<prefix_sum p (Suc i)}" using PickAt_picks[OF p, of t] i take[of i] take[of "Suc i"] by auto
  next
    fix t assume t: "t \<in> {prefix_sum p i..<prefix_sum p (Suc i)}"
    then have l: "t < sum_list (map unat (weights p))" using prefix_sum_mono[of "Suc i" "num_elements p" p] i all by auto
    then obtain j where j: "j < num_elements p" "PickAt (of_nat t) p = Some (int j)"
        "sum_list (map unat (take j (weights p))) \<le> t" "t < sum_list (map unat (take (Suc j) (weights p)))"
      using PickAt_picks[OF p] by blast
    then have "i = j" using t take[of j] take[of "Suc j"] by (intro same_interval[of p i t j]) auto
    then show "t \<in> {t. t < sum_list (map unat (weights p)) \<and> PickAt (of_nat t) p = Some (int i)}" using j l by simp
  qed
  then have "card {t. t < sum_list (map unat (weights p)) \<and> PickAt (of_nat t) p = Some (int i)} = prefix_sum p (Suc i) - prefix_sum p i" by simp
  also have "\<dots> = unat (level p ! (num_levels p - 1) ! i)" using prefix_sum_add[of i "Suc i" p] by simp
  also have "\<dots> = unat (weights p ! i)" using i by (simp add: weights_def)
  finally show ?thesis .
qed

lemma UnbiasedUniform_exact: "\<not> n <s 0 \<Longrightarrow> UnbiasedUniform n r = ExactUniformInt n Rand32 r"
  by (simp add: UnbiasedUniform_def ExactUniformInt_def Let_def)

lemma total_weight_nat:
  assumes p: "wf_picker p" "small p"
  shows "unat (total_weight p) = sum_list (map unat (weights p))"
proof -
  have "0 < num_levels p" using p(1) by (simp add: wf_picker_def)
  then show ?thesis using node_exact(1)[OF p, of 0 0] prefix_sum_all[OF p(1)] by (simp add: total_weight_def prefix_sum_def)
qed

lemma Pick_positive:
  assumes p: "wf_picker p" "small p" and "Pick r p = Some (i, r')" and "total_weight p \<noteq> 0"
  shows "0 \<le> i \<and> nat i < num_elements p \<and> weights p ! nat i \<noteq> 0"
proof -
  let ?S = "sum_list (map unat (weights p))"
  have tot: "unat (total_weight p) = ?S" by (rule total_weight_nat[OF p])
  then have "\<not> total_weight p <s 0" using signed_less[of "total_weight p" 0] p(2) by (simp add: small_def)
  then obtain x where x: "ExactUniformInt (total_weight p) Rand32 r = Some (x, r')" "PickAt x p = Some i"
    using assms(3,4) by (auto simp: Pick_def UnbiasedUniform_exact split: option.splits)
  have "unat x < ?S" using ExactUniformInt_less[OF x(1) assms(4)] tot by (simp add: word_less_nat_alt)
  from PickAt_picks[OF p this] x(2) obtain j where j: "j < num_elements p" "i = int j"
      "sum_list (map unat (take j (weights p))) \<le> unat x" "unat x < sum_list (map unat (take (Suc j) (weights p)))" by auto
  then have "weights p ! j \<noteq> 0" using weights_len[OF p(1)] by (auto simp: take_Suc_conv_app_nth)
  then show ?thesis using j by simp
qed

subsection \<open>A picker stands for its list of weights\<close>

datatype picker_op = SetWeight nat int32 | SetAll int32 | FromArray "int32 list" | AppendOne int32 | ResizeTo nat

definition picker_step :: "int32 \<Rightarrow> picker_op \<Rightarrow> WeightedPicker \<Rightarrow> WeightedPicker option" where
  "picker_step junk act p = (case act of SetWeight i w \<Rightarrow> set_weight i w p | SetAll w \<Rightarrow> Some (SetAllWeights w p)
     | FromArray ws \<Rightarrow> SetWeightsFromArray junk (int (length ws)) ws p | AppendOne w \<Rightarrow> Append junk w p | ResizeTo n \<Rightarrow> Resize junk (int n) p)"

definition picker_spec :: "picker_op \<Rightarrow> int32 list \<Rightarrow> int32 list" where
  "picker_spec act ws = (case act of SetWeight i w \<Rightarrow> ws[i := w] | SetAll w \<Rightarrow> replicate (length ws) w
     | FromArray vs \<Rightarrow> vs | AppendOne w \<Rightarrow> ws @ [w] | ResizeTo n \<Rightarrow> resized n ws)"

definition picker_ok :: "picker_op \<Rightarrow> int32 list \<Rightarrow> bool" where
  "picker_ok act ws = (case act of SetWeight i w \<Rightarrow> i < length ws | SetAll w \<Rightarrow> True
     | FromArray vs \<Rightarrow> length vs \<le> 2 ^ 30 | AppendOne w \<Rightarrow> length ws < 2 ^ 30 | ResizeTo n \<Rightarrow> n \<le> 2 ^ 30)"

definition holds_weights :: "WeightedPicker \<Rightarrow> int32 list \<Rightarrow> bool" where
  "holds_weights p ws \<longleftrightarrow> wf_picker p \<and> weights p = ws"

interpretation picker: simulation "picker_step junk" holds_weights picker_spec picker_ok for junk
proof
  fix p ws act
  assume p: "holds_weights p ws" and k: "picker_ok act ws"
  then have w: "wf_picker p" "weights p = ws" "num_elements p = length ws" using weights_len by (auto simp: holds_weights_def)
  have nat30: "int n \<le> 2 ^ 30 \<longleftrightarrow> n \<le> 2 ^ 30" for n by simp
  show "\<exists>q. picker_step junk act p = Some q \<and> holds_weights q (picker_spec act ws)"
  proof (cases act)
    case (SetWeight i v)
    then show ?thesis using set_weight_wf[OF w(1), of i v] k w by (auto simp: holds_weights_def picker_step_def picker_spec_def picker_ok_def)
  next
    case (SetAll v)
    then show ?thesis using SetAllWeights_wf[OF w(1), of v] w by (simp add: holds_weights_def picker_step_def picker_spec_def)
  next
    case (FromArray vs)
    then show ?thesis using SetWeightsFromArray_wf[OF w(1), of vs junk] k by (simp add: holds_weights_def picker_step_def picker_spec_def picker_ok_def)
  next
    case (AppendOne v)
    then show ?thesis using Append_wf[OF w(1), of junk v] k w by (simp add: holds_weights_def picker_step_def picker_spec_def picker_ok_def)
  next
    case (ResizeTo n)
    then have "int n \<le> 2 ^ 30" using k by (simp add: picker_ok_def)
    then show ?thesis using Resize_wf[OF w(1), of "int n" junk] w ResizeTo by (simp add: holds_weights_def picker_step_def picker_spec_def)
  qed
qed

end
