(* ===== verification/OrderedCode.thy ===== *)
theory OrderedCode
  imports Coding
begin

text \<open>
  The order-preserving codes of tensorflow/core/lib/strings/ordered_code.cc: strings with escapes and a
  terminator, and unsigned numbers with their length in front. A \<open>StringPiece\<close> is the list of its bytes;
  reading returns the value and the bytes left, or \<open>None\<close> where the code returns false. The order of
  strings is that of \<open>memcmp\<close>, lexicographic in the unsigned bytes.
\<close>

subsection \<open>Strings\<close>

definition kEscape1 :: byte where
  "kEscape1 = 0"

definition kNullCharacter :: byte where
  "kNullCharacter = 0xff"

definition kSeparator :: byte where
  "kSeparator = 1"

definition kEscape2 :: byte where
  "kEscape2 = 0xff"

definition kFFCharacter :: byte where
  "kFFCharacter = 0"

definition kEscape1_Separator :: "byte list" where
  "kEscape1_Separator = [kEscape1, kSeparator]"

definition IsSpecialByte :: "byte \<Rightarrow> bool" where
  "IsSpecialByte c \<longleftrightarrow> c + 1 < 2"

text \<open>The bytes skipped and the bytes from there to the limit.\<close>

fun SkipToNextSpecialByte :: "byte list \<Rightarrow> byte list \<times> byte list" where
  "SkipToNextSpecialByte [] = ([], [])"
| "SkipToNextSpecialByte (c # p) = (if IsSpecialByte c then ([], c # p)
     else case SkipToNextSpecialByte p of (skipped, rest) \<Rightarrow> (c # skipped, rest))"

lemma Skip_append: "SkipToNextSpecialByte s = (x, y) \<Longrightarrow> s = x @ y"
  by (induction s arbitrary: x) (auto split: if_splits prod.splits)

lemma Skip_special: "SkipToNextSpecialByte s = (x, y) \<Longrightarrow> (\<forall>c \<in> set x. \<not> IsSpecialByte c) \<and> (y \<noteq> [] \<longrightarrow> IsSpecialByte (hd y))"
  by (induction s arbitrary: x) (auto split: if_splits prod.splits)

function EncodeStringFragment :: "byte list \<Rightarrow> byte list \<Rightarrow> byte list" where
  "EncodeStringFragment dest s = (case SkipToNextSpecialByte s of
     (copied, []) \<Rightarrow> dest @ copied
   | (copied, c # p) \<Rightarrow>
       if c = kEscape1 then EncodeStringFragment (dest @ copied @ [kEscape1, kNullCharacter]) p
       else EncodeStringFragment (dest @ copied @ [kEscape2, kFFCharacter]) p)"
  by pat_completeness auto
termination by (relation "measure (length \<circ> snd)") (auto dest!: sym[THEN Skip_append])

declare EncodeStringFragment.simps [simp del]

definition WriteString :: "byte list \<Rightarrow> byte list \<Rightarrow> byte list" where
  "WriteString dest s = EncodeStringFragment dest s @ kEscape1_Separator"

lemma butlast_pos: "butlast src = x @ c # y \<Longrightarrow> 0 < length src"
  by (cases src) auto

text \<open>The scan stops one byte before the end, for a terminator has two.\<close>

function ReadStringInternal :: "byte list \<Rightarrow> byte list \<Rightarrow> (byte list \<times> byte list) option" where
  "ReadStringInternal src result = (case SkipToNextSpecialByte (butlast src) of
     (copied, []) \<Rightarrow> None
   | (copied, c # _) \<Rightarrow>
       let next = src ! (length copied + 1); start = drop (length copied + 2) src in
       if c = kEscape1 then
         if next = kSeparator then Some (result @ copied, start)
         else if next = kNullCharacter then ReadStringInternal start (result @ copied @ [0]) else None
       else if next = kFFCharacter then ReadStringInternal start (result @ copied @ [0xff]) else None)"
  by pat_completeness auto
termination by (relation "measure (length \<circ> fst)") (auto dest!: sym[THEN Skip_append] dest: butlast_pos intro: diff_less)

declare ReadStringInternal.simps [simp del]

definition ReadString :: "byte list \<Rightarrow> byte list \<Rightarrow> (byte list \<times> byte list) option" where
  "ReadString src result = ReadStringInternal src result"

definition TEST_Corrupt_found :: "byte list \<Rightarrow> nat \<Rightarrow> bool" where
  "TEST_Corrupt_found str i \<longleftrightarrow> str ! i = kEscape1 \<and> str ! (i + 1) = kSeparator"

text \<open>The loop of \<open>TEST_Corrupt\<close> from a position on.\<close>

function corrupt_from :: "byte list \<Rightarrow> nat \<Rightarrow> nat \<Rightarrow> nat \<Rightarrow> byte list" where
  "corrupt_from str k seen_seps i = (if i + 1 < length str
     then if TEST_Corrupt_found str i
       then if seen_seps + 1 = k then str[i + 1 := kSeparator + 1] else corrupt_from str k (seen_seps + 1) (i + 1)
       else corrupt_from str k seen_seps (i + 1)
     else str)"
  by pat_completeness auto
termination by (relation "measure (\<lambda>(str, k, seen, i). length str - i)") auto

declare corrupt_from.simps [simp del]

definition TEST_Corrupt :: "byte list \<Rightarrow> nat \<Rightarrow> byte list" where
  "TEST_Corrupt str k = corrupt_from str k 0 0"

subsection \<open>Unsigned numbers\<close>

text \<open>The bytes of the number from the last to the first, put in front of those already in the buffer.\<close>

function num_bytes :: "64 word \<Rightarrow> byte list \<Rightarrow> byte list" where
  "num_bytes val buf = (if 0 < val then num_bytes (drop_bit 8 val) (ucast (val AND 0xff) # buf) else buf)"
  by pat_completeness auto
termination by (relation "measure (unat \<circ> fst)") (auto simp: unat_drop word_less_nat_alt)

declare num_bytes.simps [simp del]

text \<open>The buffer has nine bytes, one of them for the length.\<close>

definition WriteNumIncreasing :: "byte list \<Rightarrow> 64 word \<Rightarrow> byte list option" where
  "WriteNumIncreasing dest val = (let buf = num_bytes val []; len = length buf in
     if 9 < len + 1 then None else Some (dest @ of_nat len # buf))"

definition ReadNumIncreasing :: "byte list \<Rightarrow> (64 word \<times> byte list) option" where
  "ReadNumIncreasing src = (if src = [] then None
     else let len = unat (src ! 0) in
       if length src < len + 1 \<or> 8 < len then None
       else Some (foldl (\<lambda>tmp b. push_bit 8 tmp OR ucast b) 0 (take len (drop 1 src)), drop (len + 1) src))"

subsection \<open>Strings are read back, in order\<close>

text \<open>One byte at a time.\<close>

definition escape :: "byte \<Rightarrow> byte list" where
  "escape c = (if c = 0 then [0, 0xff] else if c = 0xff then [0xff, 0] else [c])"

lemma escape_simps [simp]: "escape 0 = [0, 0xff]" "escape 0xff = [0xff, 0]" "c \<noteq> 0 \<Longrightarrow> c \<noteq> 0xff \<Longrightarrow> escape c = [c]"
  by (simp_all add: escape_def)

lemma special: "IsSpecialByte c \<longleftrightarrow> c = 0 \<or> c = 0xff"
proof -
  have "unat (c + 1) = (if unat c = 255 then 0 else unat c + 1)" using unat_plus_if'[of c 1] unat_less[of c] by auto
  then have "unat (c + 1) < 2 \<longleftrightarrow> unat c = 0 \<or> unat c = 255" using unat_less[of c] by auto
  moreover have "c = 0 \<longleftrightarrow> unat c = 0" "c = 0xff \<longleftrightarrow> unat c = 255"
    using word_unat_eq_iff[of c 0] word_unat_eq_iff[of c "0xff"] by simp_all
  ultimately show ?thesis unfolding IsSpecialByte_def word_less_nat_alt by simp
qed

lemma escape_plain: "\<forall>c \<in> set x. \<not> IsSpecialByte c \<Longrightarrow> concat (map escape x) = x"
  by (induction x) (auto simp: special)

lemma EncodeStringFragment_escapes: "EncodeStringFragment dest s = dest @ concat (map escape s)"
proof (induction dest s rule: EncodeStringFragment.induct)
  case (1 dest s)
  obtain x y where s: "SkipToNextSpecialByte s = (x, y)" by fastforce
  note a = Skip_append[OF s] and b = Skip_special[OF s]
  show ?case
  proof (cases y)
    case Nil
    then show ?thesis using a b s escape_plain[of x] by (subst EncodeStringFragment.simps) simp
  next
    case (Cons c p)
    have c: "c = 0 \<or> c = 0xff" using b Cons by (simp add: special)
    have e: "concat (map escape x) = x" using b escape_plain by blast
    show ?thesis
    proof (cases "c = kEscape1")
      case True
      then show ?thesis using 1(1)[OF s[symmetric] Cons True] s Cons a e
        by (subst EncodeStringFragment.simps) (simp add: kEscape1_def kNullCharacter_def)
    next
      case False
      then show ?thesis using 1(2)[OF s[symmetric] Cons False] s Cons a e c
        by (subst EncodeStringFragment.simps) (simp add: kEscape1_def kEscape2_def kFFCharacter_def)
    qed
  qed
qed

lemma WriteString_escapes: "WriteString dest s = dest @ concat (map escape s) @ [0, 1]"
  by (simp add: WriteString_def EncodeStringFragment_escapes kEscape1_Separator_def kEscape1_def kSeparator_def)

lemma Read_plain:
  assumes "\<not> IsSpecialByte c" and "src \<noteq> []"
  shows "ReadStringInternal (c # src) result = ReadStringInternal src (result @ [c])"
proof -
  obtain x y where s: "SkipToNextSpecialByte (butlast src) = (x, y)" by fastforce
  have "SkipToNextSpecialByte (butlast (c # src)) = (c # x, y)" using assms s by simp
  then show ?thesis unfolding ReadStringInternal.simps[of "c # src" result] ReadStringInternal.simps[of src "result @ [c]"]
    unfolding s by (cases y) (simp_all add: Let_def)
qed

lemma Read_escape:
  "ReadStringInternal (0 # 0xff # src) result = ReadStringInternal src (result @ [0])"
  "ReadStringInternal (0xff # 0 # src) result = ReadStringInternal src (result @ [0xff])"
  "ReadStringInternal (0 # 1 # src) result = Some (result, src)"
  by (subst ReadStringInternal.simps, simp add: special kEscape1_def kSeparator_def kNullCharacter_def kFFCharacter_def)+

lemma ReadString_escapes: "ReadStringInternal (concat (map escape s) @ 0 # 1 # rest) result = Some (result @ s, rest)"
proof (induction s arbitrary: result)
  case (Cons c s)
  consider "c = 0" | "c = 0xff" | "\<not> IsSpecialByte c" by (auto simp: special)
  then show ?case using Cons by cases (simp_all add: Read_escape Read_plain, simp add: special Read_plain)
qed (simp add: Read_escape)

lemma ReadString_WriteString: "ReadString (WriteString [] s @ rest) result = Some (result @ s, rest)"
  by (simp add: ReadString_def WriteString_escapes ReadString_escapes)

lemma escape_head: "\<exists>e. escape c = c # e" by (simp add: escape_def)

lemma end_first: "bytes_less (0 # 1 # x) (escape c @ y)"
proof -
  consider "c = 0" | "c = 0xff" | "c \<noteq> 0" "c \<noteq> 0xff" by auto
  then show ?thesis by cases (auto simp: word_greater_zero_iff)
qed

lemma escapes_order:
  "bytes_less (concat (map escape s) @ 0 # 1 # x) (concat (map escape t) @ 0 # 1 # y) \<longleftrightarrow> bytes_less s t \<or> s = t \<and> bytes_less x y"
proof (induction s arbitrary: t)
  case Nil
  show ?case
  proof (cases t)
    case (Cons c t)
    then show ?thesis using end_first[of x c "concat (map escape t) @ 0 # 1 # y"] by simp
  qed simp
next
  case (Cons a s)
  show ?case
  proof (cases t)
    case Nil
    have "\<not> bytes_less (escape a @ u) (0 # 1 # v)" for u v
    proof -
      consider "a = 0" | "a = 0xff" | "a \<noteq> 0" "a \<noteq> 0xff" by auto
      then show ?thesis by cases auto
    qed
    then show ?thesis using Nil by simp
  next
    case t: (Cons b u)
    obtain e f where "escape a = a # e" "escape b = b # f" using escape_head by blast
    then show ?thesis using Cons.IH[of u] t by (cases "a = b") auto
  qed
qed

subsection \<open>Numbers are read back, in order\<close>

text \<open>The number a sequence of bytes stands for, the first byte the most significant.\<close>

fun big_endian :: "byte list \<Rightarrow> nat" where
  "big_endian [] = 0"
| "big_endian (b # bs) = unat b * 256 ^ length bs + big_endian bs"

lemma big_endian_less: "big_endian bs < 256 ^ length bs"
proof (induction bs)
  case (Cons b bs)
  have "unat b + 1 \<le> 256" using unat_less[of b] by simp
  then have "(unat b + 1) * 256 ^ length bs \<le> 256 ^ length (b # bs)" by (simp only: length_Cons power_Suc mult_right_mono zero_le)
  moreover have "(unat b + 1) * 256 ^ length bs = unat b * 256 ^ length bs + 256 ^ length bs" by (simp only: add_mult_distrib mult_1)
  ultimately show ?case using Cons by (simp only: big_endian.simps)
qed simp

lemma big_endian_order: "length x = length y \<Longrightarrow> bytes_less (x @ u) (y @ v) \<longleftrightarrow> big_endian x < big_endian y \<or> x = y \<and> bytes_less u v"
proof (induction x y rule: list_induct2)
  case (Cons a x b y)
  have le: "big_endian (a # x) < big_endian (b # y)" if "a < b" "length x = length y" for a b x y
  proof -
    have "(unat a + 1) * 256 ^ length x \<le> unat b * 256 ^ length x" using that by (intro mult_right_mono) (simp_all add: word_less_nat_alt)
    then show ?thesis using big_endian_less[of x] that by simp
  qed
  consider "a < b" | "a = b" | "b < a" by fastforce
  then show ?case using Cons le[of a b x y] le[of b a y x] by cases auto
qed simp

lemma big_endian_snoc: "big_endian (xs @ [b]) = big_endian xs * 256 + unat b"
  by (induction xs) (simp_all add: algebra_simps)

lemma low_byte: "unat (ucast (val AND 0xff) :: byte) = unat (val :: 64 word) mod 256"
  unfolding and_255 unsigned_ucast_eq unsigned_take_bit_eq by (simp add: take_bit_eq_mod)

definition digits :: "64 word \<Rightarrow> byte list \<Rightarrow> bool" where
  "digits val bs \<longleftrightarrow> (\<forall>buf. num_bytes val buf = bs @ buf) \<and> big_endian bs = unat val \<and> (val = 0 \<longrightarrow> bs = []) \<and> (bs \<noteq> [] \<longrightarrow> hd bs \<noteq> 0)"

lemma num_bytes_digits: "\<exists>bs. digits val bs"
proof (induction "unat val" arbitrary: val rule: less_induct)
  case less
  show ?case
  proof (cases "val = 0")
    case True
    then show ?thesis by (intro exI[of _ "[]"]) (simp add: digits_def num_bytes.simps)
  next
    case False
    have d: "unat (drop_bit 8 val) = unat val div 256" by (simp add: unat_drop)
    then obtain bs where bs: "digits (drop_bit 8 val) bs" using less[of "drop_bit 8 val"] False by (auto simp: unat_gt_0)
    define b :: byte where "b = ucast (val AND 0xff)"
    have ub: "unat b = unat val mod 256" unfolding b_def by (rule low_byte)
    have "num_bytes val buf = (bs @ [b]) @ buf" for buf
      using bs False by (subst num_bytes.simps) (simp add: digits_def b_def word_gt_0)
    moreover have "big_endian (bs @ [b]) = unat val" using bs by (simp add: big_endian_snoc digits_def d ub)
    moreover have "hd (bs @ [b]) \<noteq> 0"
    proof (cases "bs = []")
      case True
      then have "unat val div 256 = 0" using bs d by (simp add: digits_def)
      then have "unat b = unat val" unfolding ub by simp
      then show ?thesis using True False by (auto simp: unat_eq_0)
    next
      case F: False
      then show ?thesis using bs by (simp add: digits_def)
    qed
    ultimately show ?thesis using False unfolding digits_def by blast
  qed
qed

lemma digits_lower: "digits val bs \<Longrightarrow> bs \<noteq> [] \<Longrightarrow> 256 ^ (length bs - 1) \<le> unat val"
proof -
  assume d: "digits val bs" and "bs \<noteq> []"
  then obtain b cs where bs: "bs = b # cs" by (cases bs) auto
  then have "1 \<le> unat b" using d by (simp add: digits_def) (metis One_nat_def Suc_leI unat_gt_0)
  then have "1 * 256 ^ length cs \<le> unat b * 256 ^ length cs" by (rule mult_right_mono) simp
  moreover have "unat b * 256 ^ length cs + big_endian cs = unat val" using d bs by (simp add: digits_def)
  ultimately have "256 ^ length cs \<le> unat val" by linarith
  then show ?thesis using bs by simp
qed

lemma digits_le_8: "digits val bs \<Longrightarrow> length bs \<le> 8"
proof (rule ccontr)
  assume d: "digits val bs" and n: "\<not> length bs \<le> 8"
  then have "bs \<noteq> []" by auto
  from digits_lower[OF d this] have "256 ^ (length bs - 1) \<le> unat val" .
  moreover have "(256 :: nat) ^ 8 \<le> 256 ^ (length bs - 1)" using n by (intro power_increasing) simp_all
  moreover have "unat val < 256 ^ 8" using unat_less[of val] by simp
  ultimately show False by linarith
qed

lemma WriteNumIncreasing_digits:
  assumes "digits val bs"
  shows "WriteNumIncreasing dest val = Some (dest @ of_nat (length bs) # bs)" and "unat (of_nat (length bs) :: byte) = length bs"
proof -
  have "num_bytes val [] = bs" using assms by (simp add: digits_def)
  then show "WriteNumIncreasing dest val = Some (dest @ of_nat (length bs) # bs)"
    using digits_le_8[OF assms] by (simp add: WriteNumIncreasing_def Let_def)
  show "unat (of_nat (length bs) :: byte) = length bs" using digits_le_8[OF assms] by (simp add: unat_of_nat)
qed

lemma join_byte: "push_bit 8 tmp OR ucast b = tmp * 256 + ucast (b :: byte)" for tmp :: "64 word"
proof -
  have "push_bit 8 tmp OR ucast b = push_bit 8 tmp + ucast b"
    by (rule disjunctive_add_eq_or[symmetric])
      (rule bit_word_eqI, auto simp: bit_and_iff bit_push_bit_iff bit_unsigned_iff dest: bit_imp_le_length)
  then show ?thesis by (simp add: push_bit_eq_mult)
qed

lemma read_digits: "foldl (\<lambda>tmp b. push_bit 8 tmp OR ucast b) (of_nat t) bs = (of_nat (t * 256 ^ length bs + big_endian bs) :: 64 word)"
proof (induction bs arbitrary: t)
  case (Cons b bs)
  have "push_bit 8 (of_nat t) OR ucast b = (of_nat (t * 256 + unat b) :: 64 word)"
    unfolding join_byte by simp
  then show ?case using Cons[of "t * 256 + unat b"] by (simp add: algebra_simps)
qed simp

lemma ReadNum_WriteNum: "\<exists>e. WriteNumIncreasing dest val = Some (dest @ e) \<and> ReadNumIncreasing (e @ rest) = Some (val, rest)"
proof -
  obtain bs where bs: "digits val bs" using num_bytes_digits by blast
  note w = WriteNumIncreasing_digits[OF bs] and l = digits_le_8[OF bs]
  have "foldl (\<lambda>tmp b. push_bit 8 tmp OR ucast b) 0 bs = val"
    using read_digits[of 0 bs] bs by (simp add: digits_def)
  then show ?thesis using w l by (simp add: ReadNumIncreasing_def Let_def)
qed

lemma WriteNum_order:
  assumes "WriteNumIncreasing [] m = Some d" and "WriteNumIncreasing [] n = Some e" and "m < n"
  shows "bytes_less (d @ x) (e @ y)"
proof -
  obtain bs cs where bs: "digits m bs" and cs: "digits n cs" using num_bytes_digits by blast
  have d: "d = of_nat (length bs) # bs" "e = of_nat (length cs) # cs"
    using assms(1,2) WriteNumIncreasing_digits(1)[OF bs, of "[]"] WriteNumIncreasing_digits(1)[OF cs, of "[]"] by simp_all
  have u: "unat (of_nat (length bs) :: byte) = length bs" "unat (of_nat (length cs) :: byte) = length cs"
    using WriteNumIncreasing_digits(2)[OF bs] WriteNumIncreasing_digits(2)[OF cs] by simp_all
  have v: "big_endian bs = unat m" "big_endian cs = unat n" "unat m < unat n" using bs cs assms(3) by (simp_all add: digits_def word_less_nat_alt)
  have le: "length bs \<le> length cs"
  proof (rule ccontr)
    assume n: "\<not> length bs \<le> length cs"
    then have "256 ^ (length bs - 1) \<le> unat m" by (intro digits_lower[OF bs]) auto
    moreover have "(256 :: nat) ^ length cs \<le> 256 ^ (length bs - 1)" using n by (intro power_increasing) simp_all
    moreover have "unat n < 256 ^ length cs" using big_endian_less[of cs] v by simp
    ultimately show False using v by linarith
  qed
  show ?thesis
  proof (cases "length bs = length cs")
    case True
    then show ?thesis using big_endian_order[OF True, of x y] v by (simp add: d)
  next
    case False
    then show ?thesis using le u by (simp add: d word_less_nat_alt)
  qed
qed

subsection \<open>The codes as interfaces\<close>

interpretation string_key: ordered_codec "\<lambda>dst s. Some (WriteString dst s)" "\<lambda>src. ReadString src []" bytes_less
proof
  fix x y d e u v
  assume "bytes_less x y" "Some (WriteString [] x) = Some d" "Some (WriteString [] y) = Some e"
  then show "(d @ u, e @ v) \<in> lexord {(a, b). a < b}"
    using escapes_order[of x u y v] by (auto simp: WriteString_escapes bytes_less_def)
qed (use ReadString_WriteString[of _ _ "[]"] bytes_total in \<open>auto simp: WriteString_escapes\<close>)

interpretation number_key: ordered_codec WriteNumIncreasing ReadNumIncreasing "(<)"
proof
  fix x :: "64 word"
  obtain bs where "digits x bs" using num_bytes_digits by blast
  then show "\<exists>e. \<forall>dst. WriteNumIncreasing dst x = Some (dst @ e)" using WriteNumIncreasing_digits by blast
  fix e rest assume "WriteNumIncreasing [] x = Some e"
  then show "ReadNumIncreasing (e @ rest) = Some (x, rest)" using ReadNum_WriteNum[of "[]" x rest] by auto
next
  fix x y :: "64 word" and d e u v
  assume "x < y" "WriteNumIncreasing [] x = Some d" "WriteNumIncreasing [] y = Some e"
  then show "(d @ u, e @ v) \<in> lexord {(a, b). a < b}" using WriteNum_order[of x d y e u v] by (simp add: bytes_less_def)
qed auto

end
