(* ===== verification/Bits.thy ===== *)
theory Bits
  imports Coding
begin

text \<open>
  Binary logarithms of tensorflow/core/lib/core/bits.h, in both of its versions: with the compiler's count
  of leading zeros, and with the portable search for the highest bit. They are proved to agree.
\<close>

subsection \<open>The code\<close>

text \<open>The number of zero bits above the highest one: \<open>__builtin_clz\<close> and \<open>__builtin_clzll\<close>.\<close>

fun clz_below :: "'a::len word \<Rightarrow> nat \<Rightarrow> nat" where
  "clz_below n 0 = 0"
| "clz_below n (Suc k) = (if bit n k then 0 else Suc (clz_below n k))"

definition builtin_clz :: "'a::len word \<Rightarrow> nat" where
  "builtin_clz n = clz_below n LENGTH('a)"

definition Log2Floor :: "32 word \<Rightarrow> int" where
  "Log2Floor n = (if n = 0 then - 1 else 31 XOR int (builtin_clz n))"

definition Log2Floor64 :: "64 word \<Rightarrow> int" where
  "Log2Floor64 n = (if n = 0 then - 1 else 63 XOR int (builtin_clz n))"

text \<open>The loop over \<open>i\<close> of the portable version.\<close>

fun log_loop :: "nat list \<Rightarrow> 32 word \<Rightarrow> int \<Rightarrow> 32 word \<times> int" where
  "log_loop [] v lg = (v, lg)"
| "log_loop (i # is) v lg = (let shift = 2 ^ i; x = drop_bit shift v in
     if x \<noteq> 0 then log_loop is x (lg + int shift) else log_loop is v lg)"

text \<open>The assertion at its end fails with \<open>None\<close>.\<close>

definition Log2Floor_portable :: "32 word \<Rightarrow> int option" where
  "Log2Floor_portable n = (if n = 0 then Some (- 1)
     else case log_loop [4, 3, 2, 1, 0] n 0 of (v, lg) \<Rightarrow> if v = 1 then Some lg else None)"

definition Log2Floor64_portable :: "64 word \<Rightarrow> int option" where
  "Log2Floor64_portable n = (let topbits = ucast (drop_bit 32 n) :: 32 word in
     if topbits = 0 then Log2Floor_portable (ucast n) else map_option (\<lambda>l. 32 + l) (Log2Floor_portable topbits))"

definition Log2Ceiling :: "32 word \<Rightarrow> int" where
  "Log2Ceiling n = (let fl = Log2Floor n in if n = n AND NOT (n - 1) then fl else fl + 1)"

definition Log2Ceiling64 :: "64 word \<Rightarrow> int" where
  "Log2Ceiling64 n = (let fl = Log2Floor64 n in if n = n AND NOT (n - 1) then fl else fl + 1)"

subsection \<open>The logarithm\<close>

definition floor_log :: "'a::len word \<Rightarrow> nat \<Rightarrow> bool" where
  "floor_log n k \<longleftrightarrow> 2 ^ k \<le> unat n \<and> unat n < 2 ^ Suc k"

lemma floor_log_unique: "floor_log n k \<Longrightarrow> floor_log m l \<Longrightarrow> unat n = unat m \<Longrightarrow> k = l"
proof -
  assume a: "floor_log n k" "floor_log m l" "unat n = unat m"
  then have "(2 :: nat) ^ k < 2 ^ Suc l" "(2 :: nat) ^ l < 2 ^ Suc k" unfolding floor_log_def by linarith+
  then have "k < Suc l \<and> l < Suc k" using power_less_imp_less_exp[of "2 :: nat" k "Suc l"] power_less_imp_less_exp[of "2 :: nat" l "Suc k"] by simp
  then show ?thesis by simp
qed

lemma top_bit: "unat (n :: 'a::len word) < 2 ^ Suc k \<Longrightarrow> bit n k \<longleftrightarrow> 2 ^ k \<le> unat n"
proof
  assume u: "unat n < 2 ^ Suc k"
  show "2 ^ k \<le> unat n" if "bit n k"
  proof (rule ccontr)
    assume "\<not> 2 ^ k \<le> unat n"
    then show False using bit_below[of n k k] that by simp
  qed
  assume "2 ^ k \<le> unat n"
  then have "unat n div 2 ^ k = 1" using u by (intro div_nat_eqI) simp_all
  then have "odd (unat n div 2 ^ k)" by simp
  then have "bit (unat n) k" by (simp add: bit_iff_odd)
  then show "bit n k" by (simp add: bit_unsigned_iff)
qed

lemma clz_below_log:
  assumes "n \<noteq> 0" and "unat n < 2 ^ k"
  shows "clz_below n k < k \<and> floor_log n (k - 1 - clz_below n k)"
  using assms
proof (induction k)
  case (Suc k)
  show ?case
  proof (cases "bit n k")
    case True
    then show ?thesis using Suc.prems top_bit[of n k] by (simp add: floor_log_def)
  next
    case False
    then have "unat n < 2 ^ k" using top_bit[OF Suc.prems(2)] by simp
    then show ?thesis using Suc False by simp
  qed
qed (simp add: unat_eq_0)

lemma mask_xor: "c < 2 ^ k \<Longrightarrow> mask k XOR int c = int (2 ^ k - 1 - c)"
proof -
  assume c: "c < 2 ^ k"
  have t: "take_bit k (int c) = int c" using c by (simp add: take_bit_int_eq_self)
  have "NOT (mask k) AND take_bit k (int c) = 0"
    by (rule bit_eqI) (auto simp: bit_and_iff bit_not_iff bit_mask_iff bit_take_bit_iff)
  then have "NOT (mask k) AND int c = 0" by (simp only: t)
  then have "mask k - int c = mask k XOR int c" by (simp only: disjunctive_diff_eq_and_not disjunctive_diff_eq_xor)
  then show ?thesis using c by (simp add: mask_eq_exp_minus_1 of_nat_diff)
qed

lemma Log2Floor_spec:
  assumes "n \<noteq> 0"
  shows "\<exists>k. Log2Floor n = int k \<and> floor_log n k"
proof -
  have c: "builtin_clz n < 32" "floor_log n (31 - builtin_clz n)"
    using clz_below_log[OF assms, of 32] unat_less[of n] by (simp_all add: builtin_clz_def)
  then have "Log2Floor n = int (31 - builtin_clz n)"
    using mask_xor[of "builtin_clz n" 5] assms by (simp add: Log2Floor_def mask_eq_exp_minus_1)
  then show ?thesis using c by blast
qed

lemma Log2Floor64_spec:
  assumes "n \<noteq> 0"
  shows "\<exists>k. Log2Floor64 n = int k \<and> floor_log n k"
proof -
  have c: "builtin_clz n < 64" "floor_log n (63 - builtin_clz n)"
    using clz_below_log[OF assms, of 64] unat_less[of n] by (simp_all add: builtin_clz_def)
  then have "Log2Floor64 n = int (63 - builtin_clz n)"
    using mask_xor[of "builtin_clz n" 6] assms by (simp add: Log2Floor64_def mask_eq_exp_minus_1)
  then show ?thesis using c by blast
qed

text \<open>A round of the search halves the number of bits the highest one may be among.\<close>

lemma floor_log_drop: "floor_log (drop_bit s n) k \<longleftrightarrow> floor_log n (k + s)"
proof -
  have "2 ^ k \<le> unat n div 2 ^ s \<longleftrightarrow> 2 ^ (k + s) \<le> unat n" by (simp add: less_eq_div_iff_mult_less_eq power_add)
  moreover have "unat n div 2 ^ s < 2 ^ Suc k \<longleftrightarrow> unat n < 2 ^ Suc (k + s)"
    by (simp add: div_less_iff_less_mult power_add mult.commute mult.left_commute)
  ultimately show ?thesis by (simp add: floor_log_def unat_drop)
qed

lemma log_loop_search:
  assumes "n \<noteq> 0" and "unat n < 2 ^ 2 ^ j" and "floor_log n k"
  shows "log_loop (rev [0..<j]) n l = (1, l + int k)"
  using assms
proof (induction j arbitrary: n k l)
  case 0
  then have "unat n = 1" by (simp add: unat_eq_0 less_2_cases_iff)
  then have "n = 1" by (simp add: word_unat_eq_iff)
  moreover have "(2 :: nat) ^ k < 2 ^ 1" using 0(3) \<open>unat n = 1\<close> by (simp add: floor_log_def)
  then have "k < 1" by (rule power_less_imp_less_exp[rotated]) simp
  ultimately show ?case by simp
next
  case (Suc j)
  let ?x = "drop_bit (2 ^ j) n"
  have e: "(2 :: nat) ^ 2 ^ Suc j = 2 ^ 2 ^ j * 2 ^ 2 ^ j" by (simp add: power_add[symmetric])
  have ux: "unat ?x = unat n div 2 ^ 2 ^ j" by (rule unat_drop)
  show ?case
  proof (cases "?x = 0")
    case True
    then have "unat n < 2 ^ 2 ^ j" using ux by (simp add: div_eq_0_iff)
    then show ?thesis using Suc True by (simp add: Let_def)
  next
    case False
    then have "0 < unat ?x" by (simp add: unat_gt_0)
    then have "2 ^ 2 ^ j \<le> unat n" using ux by (simp add: div_greater_zero_iff)
    then have "(2 :: nat) ^ 2 ^ j < 2 ^ Suc k" using Suc.prems(3) unfolding floor_log_def by linarith
    then have "2 ^ j < Suc k" by (rule power_less_imp_less_exp[rotated]) simp
    then have k: "k = (k - 2 ^ j) + 2 ^ j" by simp
    then have fx: "floor_log ?x (k - 2 ^ j)" using Suc.prems(3) floor_log_drop[of "2 ^ j" n "k - 2 ^ j"] by simp
    have "unat ?x < 2 ^ 2 ^ j" unfolding ux using Suc.prems(2) unfolding e by (rule less_mult_imp_div_less)
    from Suc.IH[OF False this fx, of "l + 2 ^ j"] k False show ?thesis by (simp add: Let_def)
  qed
qed

lemma Log2Floor_portable_same: "Log2Floor_portable n = Some (Log2Floor n)"
proof (cases "n = 0")
  case False
  obtain k where k: "Log2Floor n = int k" "floor_log n k" using Log2Floor_spec[OF False] by blast
  have "rev [0..<5] = [4, 3, 2, 1, 0 :: nat]" by (simp add: upt_rec)
  then show ?thesis using log_loop_search[OF False, of 5 k 0] unat_less[of n] k False by (simp add: Log2Floor_portable_def)
qed (simp add: Log2Floor_portable_def Log2Floor_def)

lemma Log2Floor64_portable_same: "Log2Floor64_portable n = Some (Log2Floor64 n)"
proof (cases "n = 0")
  case False
  obtain k where k: "Log2Floor64 n = int k" "floor_log n k" using Log2Floor64_spec[OF False] by blast
  define t :: "32 word" where "t = ucast (drop_bit 32 n)"
  have ut: "unat t = unat n div 2 ^ 32"
    using unat_less[of n] by (simp add: t_def unsigned_ucast_eq unat_drop take_bit_eq_mod less_mult_imp_div_less)
  show ?thesis
  proof (cases "t = 0")
    case True
    then have "unat n < 2 ^ 32" using ut by (simp add: div_eq_0_iff)
    then have un: "unat (ucast n :: 32 word) = unat n" by (simp add: unsigned_ucast_eq take_bit_nat_eq_self)
    then have "(ucast n :: 32 word) \<noteq> 0" using False by (metis unat_eq_0)
    then obtain j where j: "Log2Floor (ucast n) = int j" "floor_log (ucast n :: 32 word) j" using Log2Floor_spec by blast
    then have "j = k" using floor_log_unique[OF j(2) k(2) un] by simp
    then show ?thesis using True j k by (simp add: Log2Floor64_portable_def Log2Floor_portable_same flip: t_def)
  next
    case F: False
    obtain j where j: "Log2Floor t = int j" "floor_log t j" using Log2Floor_spec[OF F] by blast
    have "floor_log (drop_bit 32 n) j" using j(2) by (simp add: floor_log_def ut unat_drop)
    then have "j + 32 = k" using floor_log_drop[of 32 n j] floor_log_unique[OF _ k(2) refl] by blast
    then show ?thesis using F j k by (simp add: Log2Floor64_portable_def Log2Floor_portable_same flip: t_def)
  qed
qed (simp add: Log2Floor64_portable_def Log2Floor64_def Log2Floor_portable_def)

text \<open>The smallest power of two that is not below the number.\<close>

lemma power_test:
  fixes n :: "'a::len word"
  assumes "n \<noteq> 0" and "floor_log n k"
  shows "n = n AND NOT (n - 1) \<longleftrightarrow> unat n = 2 ^ k"
proof
  have u: "unat (n - 1) = unat n - 1" using assms(1) by (rule unat_minus_one)
  have bk: "bit n k" using assms(2) top_bit[of n k] by (simp add: floor_log_def)
  show "unat n = 2 ^ k" if e: "n = n AND NOT (n - 1)"
  proof (rule ccontr)
    assume "unat n \<noteq> 2 ^ k"
    then have "2 ^ k \<le> unat (n - 1)" "unat (n - 1) < 2 ^ Suc k" using assms(2) u by (auto simp: floor_log_def)
    then have "bit (n - 1) k" using top_bit by blast
    then have "\<not> bit (n AND NOT (n - 1)) k" by (simp add: bit_and_iff bit_not_iff)
    then show False using e bk by simp
  qed
  show "n = n AND NOT (n - 1)" if e: "unat n = 2 ^ k"
  proof (rule bit_word_eqI)
    fix i assume "i < LENGTH('a)"
    have "bit n i \<longleftrightarrow> bit (unat n) i" by (simp add: bit_unsigned_iff \<open>i < LENGTH('a)\<close>)
    then have b: "bit n i \<longleftrightarrow> i = k" unfolding e by (auto simp: bit_exp_iff)
    have "\<not> bit (n - 1) k" using bit_below[of "n - 1" k k] u e by auto
    then show "bit n i = bit (n AND NOT (n - 1)) i" using b by (auto simp: bit_and_iff bit_not_iff \<open>i < LENGTH('a)\<close>)
  qed
qed

lemma ceiling_cases:
  assumes "n \<noteq> 0" and "floor_log n k"
  defines "c \<equiv> (if n = n AND NOT (n - 1) then k else Suc k)"
  shows "unat n \<le> 2 ^ c \<and> (0 < c \<longrightarrow> 2 ^ (c - 1) < unat n)"
proof (cases "unat n = 2 ^ k")
  case True
  then have "c = k" unfolding c_def using power_test[OF assms(1,2)] by simp
  then show ?thesis using True by (cases k) simp_all
next
  case False
  then have "c = Suc k" unfolding c_def using power_test[OF assms(1,2)] by simp
  then show ?thesis using False assms(2) by (simp add: floor_log_def)
qed

lemma Log2Ceiling_spec:
  assumes "n \<noteq> 0"
  shows "\<exists>c. Log2Ceiling n = int c \<and> unat n \<le> 2 ^ c \<and> (0 < c \<longrightarrow> 2 ^ (c - 1) < unat n)"
proof -
  obtain k where "Log2Floor n = int k" "floor_log n k" using Log2Floor_spec[OF assms] by blast
  with ceiling_cases[OF assms this(2)] show ?thesis
    by (intro exI[of _ "if n = n AND NOT (n - 1) then k else Suc k"]) (simp add: Log2Ceiling_def Let_def)
qed

lemma Log2Ceiling64_spec:
  assumes "n \<noteq> 0"
  shows "\<exists>c. Log2Ceiling64 n = int c \<and> unat n \<le> 2 ^ c \<and> (0 < c \<longrightarrow> 2 ^ (c - 1) < unat n)"
proof -
  obtain k where "Log2Floor64 n = int k" "floor_log n k" using Log2Floor64_spec[OF assms] by blast
  with ceiling_cases[OF assms this(2)] show ?thesis
    by (intro exI[of _ "if n = n AND NOT (n - 1) then k else Suc k"]) (simp add: Log2Ceiling64_def Let_def)
qed

end
