(* ===== verification/SignedCode.thy ===== *)
theory SignedCode
  imports OrderedCode Bits
begin

text \<open>
  The order-preserving code of signed numbers in tensorflow/core/lib/strings/ordered_code.cc: the length of
  the encoding is a run of leading bits in the first two bytes. An \<open>int64\<close> is a \<open>64 word\<close>.
  The static copy of \<open>Log2Floor64\<close> in that file is the one of bits.h.
\<close>

subsection \<open>The code\<close>

definition kMaxSigned64Length :: nat where
  "kMaxSigned64Length = 10"

definition kLengthToHeaderBits :: "(byte \<times> byte) list" where
  "kLengthToHeaderBits = [(0, 0), (0x80, 0), (0xc0, 0), (0xe0, 0), (0xf0, 0), (0xf8, 0), (0xfc, 0), (0xfe, 0),
     (0xff, 0), (0xff, 0x80), (0xff, 0xc0)]"

definition kLengthToMask :: "64 word list" where
  "kLengthToMask = [
     0,
     0x80,
     0xc000,
     0xe00000,
     0xf0000000,
     0xf800000000,
     0xfc0000000000,
     0xfe000000000000,
     0xff00000000000000,
     0x8000000000000000,
     0]"

definition kBitsToLength :: "nat list" where
  "kBitsToLength = [
     1, 1, 1, 1, 1, 1, 1, 2, 2, 2, 2, 2, 2, 2, 3, 3, 3, 3, 3, 3, 3, 4,
     4, 4, 4, 4, 4, 4, 5, 5, 5, 5, 5, 5, 5, 6, 6, 6, 6, 6, 6, 6, 7, 7,
     7, 7, 7, 7, 7, 8, 8, 8, 8, 8, 8, 8, 9, 9, 9, 9, 9, 9, 9, 10]"

definition SignedEncodingLength :: "64 word \<Rightarrow> nat" where
  "SignedEncodingLength n = kBitsToLength ! nat (Log2Floor64 (if n <s 0 then NOT n else n) + 1)"

definition StoreBigEndian64 :: "64 word \<Rightarrow> byte list" where
  "StoreBigEndian64 v = map (\<lambda>i. ucast (drop_bit (56 - 8 * i) v AND 0xff)) [0..<8]"

definition LoadBigEndian64 :: "byte list \<Rightarrow> 64 word" where
  "LoadBigEndian64 src = foldl (\<lambda>result i. result OR push_bit (56 - 8 * i) (ucast (src ! i))) 0 [0..<8]"

definition WriteSignedNumIncreasing :: "byte list \<Rightarrow> 64 word \<Rightarrow> byte list" where
  "WriteSignedNumIncreasing dest val = (let x = (if val <s 0 then NOT val else val) in
     if x < 64 then dest @ [fst (kLengthToHeaderBits ! 1) XOR ucast val]
     else let sign_byte = (if val <s 0 then 0xff else 0);
              buf = [sign_byte, sign_byte] @ StoreBigEndian64 val;
              len = SignedEncodingLength x;
              begin = drop (length buf - len) buf;
              begin = begin[0 := begin ! 0 XOR fst (kLengthToHeaderBits ! len)];
              begin = begin[1 := begin ! 1 XOR snd (kLengthToHeaderBits ! len)]
          in dest @ begin)"

definition ReadSignedNumIncreasing :: "byte list \<Rightarrow> (64 word \<times> byte list) option" where
  "ReadSignedNumIncreasing src = (if src = [] then None
     else let xor_mask = (if src ! 0 AND 0x80 = 0 then NOT 0 else 0) :: 64 word;
              first_byte = src ! 0 XOR ucast (xor_mask AND 0xff)
     in if first_byte \<noteq> 0xff
        then let len = nat (7 - Log2Floor64 (ucast (first_byte XOR 0xff))) in
          if length src < len then None
          else let x = foldl (\<lambda>x b. push_bit 8 x OR ucast b) xor_mask (take len src)
            in Some (x XOR kLengthToMask ! len, drop len src)
        else if length src < 8 then None
        else let second_byte = src ! 1 XOR ucast (xor_mask AND 0xff) in
          if 0x80 \<le> second_byte
          then let third_byte = src ! 2 XOR ucast (xor_mask AND 0xff) in
            if second_byte < 0xc0
            then if length src < 9 then None
              else Some (LoadBigEndian64 (drop 1 src) XOR kLengthToMask ! 9, drop 9 src)
            else if second_byte = 0xc0 \<and> third_byte < 0x80
            then if length src < 10 then None
              else Some (LoadBigEndian64 (drop 2 src) XOR kLengthToMask ! 10, drop 10 src)
            else None
          else Some (LoadBigEndian64 src XOR kLengthToMask ! 8, drop 8 src))"

subsection \<open>The encoding as bits\<close>

text \<open>The number sign-extended to ten bytes, and its header of as many ones as the encoding has bytes.\<close>

definition wide :: "64 word \<Rightarrow> 80 word" where
  "wide val = scast val"

definition header :: "nat \<Rightarrow> 80 word" where
  "header len = push_bit (7 * len) (mask len)"

lemma bit_wide: "bit (wide val) p \<longleftrightarrow> p < 80 \<and> bit val (if p < 64 then p else 63)"
proof -
  have "min 63 p = (if p < 64 then p else 63)" by auto
  then show ?thesis by (auto simp: wide_def bit_signed_iff)
qed

lemma bit_header: "bit (header len) p \<longleftrightarrow> p < 80 \<and> 7 * len \<le> p \<and> p < 8 * len"
  by (auto simp: header_def bit_push_bit_iff bit_mask_iff)

lemma kBitsToLength_div: "b < 64 \<Longrightarrow> kBitsToLength ! b = b div 7 + 1"
proof -
  assume b: "b < 64"
  have "kBitsToLength = map (\<lambda>b. b div 7 + 1) [0..<64]" by (simp add: kBitsToLength_def upt_rec)
  then have "kBitsToLength ! b = map (\<lambda>b. b div 7 + 1) [0..<64] ! b" by (simp only:)
  also have "\<dots> = b div 7 + 1" using b by (subst nth_map) simp_all
  finally show ?thesis .
qed

lemma sign_bit: "val <s 0 \<longleftrightarrow> bit (val :: 64 word) 63"
  using bit_last_iff[of val] by (simp add: word_sless_alt)

text \<open>The bits from the delimiter on are all the sign.\<close>

definition magnitude :: "64 word \<Rightarrow> 64 word" where
  "magnitude val = (if val <s 0 then NOT val else val)"

lemma magnitude_small: "unat (magnitude val) < 2 ^ 63"
proof -
  have "\<not> bit (magnitude val) 63" by (simp add: magnitude_def sign_bit bit_not_iff)
  then show ?thesis using top_bit[of "magnitude val" 63] unat_less[of "magnitude val"] by simp
qed

lemma high_bits:
  assumes "unat (magnitude val) < 2 ^ k" and "k \<le> p" and "p < 80"
  shows "bit (wide val) p = bit val 63"
proof (cases "p < 64")
  case True
  have "\<not> bit (magnitude val) p" using bit_below[OF assms(1), of p] assms(2) by auto
  then show ?thesis using True assms(3) by (auto simp: bit_wide magnitude_def sign_bit bit_not_iff split: if_splits)
qed (use assms in \<open>simp add: bit_wide\<close>)

lemma encoding_length:
  assumes "\<not> magnitude val < 64"
  shows "2 \<le> SignedEncodingLength (magnitude val) \<and> SignedEncodingLength (magnitude val) \<le> 10
    \<and> unat (magnitude val) < 2 ^ (7 * SignedEncodingLength (magnitude val) - 1)
    \<and> 2 ^ (7 * SignedEncodingLength (magnitude val) - 8) \<le> unat (magnitude val)"
proof -
  have n: "magnitude val \<noteq> 0" using assms by auto
  obtain k where k: "Log2Floor64 (magnitude val) = int k" "floor_log (magnitude val) k" using Log2Floor64_spec[OF n] by blast
  have "\<not> magnitude val <s 0" using magnitude_small[of val] bit_below[of "magnitude val" 63 63] by (auto simp: sign_bit)
  then have s: "SignedEncodingLength (magnitude val) = kBitsToLength ! Suc k" using k by (simp add: SignedEncodingLength_def nat_add_distrib)
  have "(2 :: nat) ^ k < 2 ^ 63" using k(2) magnitude_small[of val] unfolding floor_log_def by linarith
  then have k63: "k < 63" by (rule power_less_imp_less_exp[rotated]) simp
  have "2 ^ 6 \<le> unat (magnitude val)" using assms by (simp add: word_less_nat_alt)
  then have "(2 :: nat) ^ 6 < 2 ^ Suc k" using k(2) unfolding floor_log_def by linarith
  then have k6: "6 < Suc k" by (rule power_less_imp_less_exp[rotated]) simp
  define len where "len = Suc k div 7 + 1"
  have l: "2 \<le> len" "len \<le> 10" "Suc k \<le> 7 * len - 1" using k63 k6 unfolding len_def by presburger+
  have "unat (magnitude val) < 2 ^ Suc k" using k(2) by (simp add: floor_log_def)
  also have "(2 :: nat) ^ Suc k \<le> 2 ^ (7 * len - 1)" using l(3) by (rule power_increasing) simp
  finally have upper: "unat (magnitude val) < 2 ^ (7 * len - 1)" .
  have "7 * len - 8 \<le> k" unfolding len_def by presburger
  then have "(2 :: nat) ^ (7 * len - 8) \<le> 2 ^ k" by (rule power_increasing) simp
  also have "\<dots> \<le> unat (magnitude val)" using k(2) by (simp add: floor_log_def)
  finally show ?thesis using upper l s kBitsToLength_div[of "Suc k"] k63 by (simp add: len_def)
qed

definition encoded :: "nat \<Rightarrow> 64 word \<Rightarrow> byte list" where
  "encoded len val = rev (mem_bytes len (wide val XOR header len))"

lemma ucast_xor: "ucast (a XOR b) = (ucast a XOR ucast b :: 'b::len word)" for a b :: "'a::len word"
  by (rule bit_word_eqI) (auto simp: bit_unsigned_iff bit_xor_iff dest: bit_imp_le_length)

lemma wide_buffer: "(if val <s 0 then [0xff, 0xff] else [0, 0]) @ StoreBigEndian64 val = rev (mem_bytes 10 (wide val))"
proof -
  have s: "(ucast (drop_bit k (wide val)) :: byte) = ucast (drop_bit k val AND 0xff)" if "k \<le> 56" for k
    unfolding and_255 by (rule bit_word_eqI) (use that in \<open>auto simp: bit_unsigned_iff bit_drop_bit_eq bit_take_bit_iff bit_wide\<close>)
  have t: "(ucast (drop_bit k (wide val)) :: byte) = (if val <s 0 then 0xff else 0)" if "64 \<le> k" "k \<le> 72" for k
  proof -
    have m: "(0xff :: byte) = mask 8" by (simp add: mask_eq_exp_minus_1)
    show ?thesis unfolding m
      by (rule bit_word_eqI) (use that in \<open>auto simp: bit_unsigned_iff bit_drop_bit_eq bit_wide sign_bit bit_mask_iff simp del: mask_numeral\<close>)
  qed
  show ?thesis using s s[of 0] t by (simp add: StoreBigEndian64_def mem_bytes_def upt_rec)
qed

lemma header_table:
  assumes "len \<in> {2..10}"
  shows "(ucast (drop_bit (8 * (len - 1)) (header len)) :: byte) = fst (kLengthToHeaderBits ! len)"
    and "(ucast (drop_bit (8 * (len - 2)) (header len)) :: byte) = snd (kLengthToHeaderBits ! len)"
    and "i + 3 \<le> len \<Longrightarrow> (ucast (drop_bit (8 * i) (header len)) :: byte) = 0"
proof -
  have "len \<in> {2, 3, 4, 5, 6, 7, 8, 9, 10}" using assms by auto
  then show "(ucast (drop_bit (8 * (len - 1)) (header len)) :: byte) = fst (kLengthToHeaderBits ! len)"
    "(ucast (drop_bit (8 * (len - 2)) (header len)) :: byte) = snd (kLengthToHeaderBits ! len)"
    by (elim insertE emptyE; simp add: kLengthToHeaderBits_def header_def mask_eq_exp_minus_1)+
  show "(ucast (drop_bit (8 * i) (header len)) :: byte) = 0" if "i + 3 \<le> len"
    by (rule bit_word_eqI) (use that assms in \<open>auto simp: bit_unsigned_iff bit_drop_bit_eq bit_header\<close>)
qed

lemma header_bytes:
  fixes w :: "80 word"
  assumes "len \<in> {2..10}"
  defines "begin \<equiv> drop (10 - len) (rev (mem_bytes 10 w))"
  shows "begin[0 := begin ! 0 XOR fst (kLengthToHeaderBits ! len), 1 := begin ! 1 XOR snd (kLengthToHeaderBits ! len)]
    = rev (mem_bytes len (w XOR header len))"
proof (rule nth_equalityI)
  have len: "length begin = len" using assms(1) by (simp add: begin_def)
  then show "length (begin[0 := begin ! 0 XOR fst (kLengthToHeaderBits ! len), 1 := begin ! 1 XOR snd (kLengthToHeaderBits ! len)])
      = length (rev (mem_bytes len (w XOR header len)))" by simp
  fix j assume "j < length (begin[0 := begin ! 0 XOR fst (kLengthToHeaderBits ! len), 1 := begin ! 1 XOR snd (kLengthToHeaderBits ! len)])"
  then have j: "j < len" using len by simp
  have b: "begin ! j = ucast (drop_bit (8 * (len - 1 - j)) w)"
    using j assms(1) by (auto simp: begin_def rev_nth mem_bytes_def Suc_diff_Suc)
  have r: "rev (mem_bytes len (w XOR header len)) ! j = ucast (drop_bit (8 * (len - 1 - j)) w) XOR ucast (drop_bit (8 * (len - 1 - j)) (header len))"
    using j by (simp add: rev_nth mem_bytes_def drop_bit_xor ucast_xor)
  consider "j = 0" | "j = 1" | "2 \<le> j" by linarith
  then show "begin[0 := begin ! 0 XOR fst (kLengthToHeaderBits ! len), 1 := begin ! 1 XOR snd (kLengthToHeaderBits ! len)] ! j
      = rev (mem_bytes len (w XOR header len)) ! j"
  proof cases
    case 1
    then show ?thesis using b r j len header_table(1)[OF assms(1)] by simp
  next
    case 2
    then show ?thesis using b r j len header_table(2)[OF assms(1)] by (simp add: numeral_2_eq_2)
  next
    case 3
    then show ?thesis using b r j header_table(3)[OF assms(1), of "len - 1 - j"] by simp
  qed
qed

lemma WriteSigned_encoded:
  "\<exists>len \<in> {1..10}. WriteSignedNumIncreasing dest val = dest @ encoded len val \<and> unat (magnitude val) < 2 ^ (7 * len - 1)
     \<and> (len = 1 \<or> 2 ^ (7 * len - 8) \<le> unat (magnitude val))"
proof (cases "magnitude val < 64")
  case True
  have "encoded 1 val = [0x80 XOR ucast val]"
  proof -
    have "(ucast (wide val) :: byte) = ucast val"
      by (rule bit_word_eqI) (auto simp: bit_unsigned_iff bit_wide)
    moreover have "(ucast (header 1) :: byte) = 0x80" by (simp add: header_def mask_eq_exp_minus_1)
    ultimately show ?thesis by (simp add: encoded_def mem_bytes_def ucast_xor xor.commute)
  qed
  moreover have "WriteSignedNumIncreasing dest val = dest @ [0x80 XOR ucast val]"
    using True by (simp add: WriteSignedNumIncreasing_def magnitude_def[symmetric] kLengthToHeaderBits_def)
  moreover have "unat (magnitude val) < 2 ^ (7 * 1 - 1)" using True by (simp add: word_less_nat_alt)
  ultimately show ?thesis by (intro bexI[of _ 1]) auto
next
  case False
  define len where "len = SignedEncodingLength (magnitude val)"
  have l: "len \<in> {2..10}" "unat (magnitude val) < 2 ^ (7 * len - 1)" "2 ^ (7 * len - 8) \<le> unat (magnitude val)"
    using encoding_length[OF False] by (auto simp: len_def)
  define buf where "buf = rev (mem_bytes 10 (wide val))"
  have bf: "[if val <s 0 then 0xff else 0, if val <s 0 then 0xff else 0] @ StoreBigEndian64 val = buf"
    using wide_buffer[of val] by (simp add: buf_def split: if_splits)
  have "length buf = 10" by (simp add: buf_def)
  then have "WriteSignedNumIncreasing dest val = dest @ encoded len val"
    using False header_bytes[OF l(1), of "wide val"] unfolding WriteSignedNumIncreasing_def magnitude_def[symmetric] Let_def bf len_def[symmetric]
    by (simp add: encoded_def buf_def)
  then show ?thesis using l by (intro bexI[of _ len]) auto
qed

subsection \<open>Reading it back\<close>

lemma read_bytes:
  "foldl (\<lambda>x b. push_bit 8 x OR ucast b) m (rev (mem_bytes n v)) = push_bit (8 * n) m OR ucast (take_bit (8 * n) v)"
  for m :: "64 word" and v :: "80 word"
proof (induction n arbitrary: m)
  case 0
  show ?case by (simp add: mem_bytes_def)
next
  case (Suc n)
  have "rev (mem_bytes (Suc n) v) = ucast (drop_bit (8 * n) v) # rev (mem_bytes n v)" by (simp add: mem_bytes_def)
  then have "foldl (\<lambda>x b. push_bit 8 x OR ucast b) m (rev (mem_bytes (Suc n) v))
      = push_bit (8 * n) (push_bit 8 m OR ucast (ucast (drop_bit (8 * n) v) :: byte)) OR ucast (take_bit (8 * n) v)"
    using Suc by simp
  also have "\<dots> = push_bit (8 * Suc n) m OR ucast (take_bit (8 * Suc n) v)"
  proof (rule bit_word_eqI)
    fix p assume p: "p < LENGTH(64)"
    consider "p < 8 * n" | "8 * n \<le> p" "p < 8 * n + 8" | "8 * n + 8 \<le> p" by linarith
    then show "bit (push_bit (8 * n) (push_bit 8 m OR ucast (ucast (drop_bit (8 * n) v) :: byte)) OR ucast (take_bit (8 * n) v)) p
        = bit (push_bit (8 * Suc n) m OR ucast (take_bit (8 * Suc n) v)) p"
      using p by cases (auto simp: bit_or_iff bit_push_bit_iff bit_unsigned_iff bit_drop_bit_eq bit_take_bit_iff add.commute[of 8])
  qed
  finally show ?case .
qed

lemma Load_nth: "LoadBigEndian64 (b0 # b1 # b2 # b3 # b4 # b5 # b6 # b7 # rest)
    = foldl (\<lambda>x b. push_bit 8 x OR ucast b) 0 [b0, b1, b2, b3, b4, b5, b6, b7]"
  by (simp add: LoadBigEndian64_def upt_rec push_bit_or push_bit_push_bit)

lemma Load_bytes: "LoadBigEndian64 (rev (mem_bytes 8 v) @ rest) = ucast v" for v :: "80 word"
proof -
  have "[0..<8] = [0, 1, 2, 3, 4, 5, 6, 7 :: nat]" by (simp add: upt_rec)
  then have "LoadBigEndian64 (rev (mem_bytes 8 v) @ rest) = foldl (\<lambda>x b. push_bit 8 x OR ucast b) 0 (rev (mem_bytes 8 v))"
    by (simp only: mem_bytes_def list.map rev.simps append.simps Load_nth)
  also have "\<dots> = ucast (take_bit 64 v)" unfolding read_bytes by simp
  also have "\<dots> = ucast v" by (rule bit_word_eqI) (auto simp: bit_unsigned_iff bit_take_bit_iff)
  finally show ?thesis .
qed

lemma floor_log_bits:
  fixes g :: "'a::len word"
  assumes "bit g k" and "\<And>i. k < i \<Longrightarrow> \<not> bit g i"
  shows "floor_log g k"
proof -
  have "n < Suc k" if "bit g n" for n using assms(2)[of n] that by (cases "k < n") auto
  then have "take_bit (Suc k) g = g" by (intro bit_word_eqI) (auto simp: bit_take_bit_iff)
  then have "unat g = take_bit (Suc k) (unat g)" by (metis unsigned_take_bit_eq)
  then have "unat g < 2 ^ Suc k" by (metis take_bit_nat_less_exp)
  then show ?thesis using top_bit assms(1) by (auto simp: floor_log_def)
qed

text \<open>The byte at a place of the encoding, once the mask of the sign is removed.\<close>

lemma encoded_bit:
  assumes "len \<le> 10" and "j < len" and "unat (magnitude val) < 2 ^ (7 * len - 1)" and "b < 8"
  defines "p \<equiv> 8 * (len - 1 - j) + b"
  shows "bit (encoded len val ! j) b \<longleftrightarrow> (if 7 * len \<le> p then \<not> bit val 63 else if p = 7 * len - 1 then bit val 63 else bit (wide val) p)"
proof -
  have p: "p < 80" "p < 8 * len" using assms by auto
  have "bit (encoded len val ! j) b \<longleftrightarrow> bit (wide val XOR header len) p"
    using assms by (simp add: encoded_def rev_nth mem_bytes_def bit_unsigned_iff bit_drop_bit_eq bit_xor_iff)
  then show ?thesis using p high_bits[OF assms(3), of p] by (auto simp: bit_xor_iff bit_header)
qed

lemma kLengthToMask_header: "len \<in> {1..10} \<Longrightarrow> kLengthToMask ! len = ucast (header len)"
proof -
  assume "len \<in> {1..10}"
  then have "len \<in> {1, 2, 3, 4, 5, 6, 7, 8, 9, 10}" unfolding atLeastAtMost_iff insert_iff empty_iff by arith
  then show ?thesis by (elim insertE emptyE; simp add: kLengthToMask_def header_def mask_eq_exp_minus_1)
qed

lemma byte_compare:
  fixes s :: byte
  shows "0x80 \<le> s \<longleftrightarrow> bit s 7" and "\<not> bit s 6 \<Longrightarrow> s < 0xc0"
proof -
  show "0x80 \<le> s \<longleftrightarrow> bit s 7" using top_bit[of s 7] unat_less[of s] by (simp add: word_le_nat_alt)
  show "s < 0xc0" if "\<not> bit s 6"
  proof (rule ccontr)
    assume "\<not> s < 0xc0"
    then have "unat s div 2 ^ 6 = 3" using unat_less[of s] by (intro div_nat_eqI) (simp_all add: word_less_nat_alt)
    then have "bit (unat s) 6" by (simp add: bit_iff_odd)
    then show False using that by (simp add: bit_unsigned_iff)
  qed
qed

definition sign_mask :: "64 word \<Rightarrow> 'a::len word" where
  "sign_mask val = (if bit val 63 then NOT 0 else 0)"

lemma bit_sign_mask: "bit (sign_mask val :: 'a::len word) b \<longleftrightarrow> b < LENGTH('a) \<and> bit val 63"
  by (simp add: sign_mask_def bit_not_iff)

text \<open>A byte of the encoding with the sign removed.\<close>

definition unsigned_byte :: "nat \<Rightarrow> 64 word \<Rightarrow> nat \<Rightarrow> byte" where
  "unsigned_byte len val j = encoded len val ! j XOR sign_mask val"

lemma bit_unsigned_byte:
  assumes "len \<in> {1..10}" and "unat (magnitude val) < 2 ^ (7 * len - 1)" and "j < len" and "b < 8"
  defines "p \<equiv> 8 * (len - 1 - j) + b"
  shows "bit (unsigned_byte len val j) b \<longleftrightarrow> 7 * len \<le> p \<or> p \<noteq> 7 * len - 1 \<and> bit (wide val) p \<noteq> bit val 63"
  using encoded_bit[of len j val b] assms by (auto simp: unsigned_byte_def bit_xor_iff bit_sign_mask)

lemma read_mask:
  assumes "len \<in> {1..10}" and "unat (magnitude val) < 2 ^ (7 * len - 1)"
  shows "(if (encoded len val @ rest) ! 0 AND 0x80 = 0 then NOT 0 else 0) = (sign_mask val :: 64 word)"
proof -
  have "0 < length (encoded len val)" using assms(1) by (simp add: encoded_def)
  then have "(encoded len val @ rest) ! 0 = encoded len val ! 0" by (simp only: nth_append if_True)
  moreover have "bit (encoded len val ! 0) 7 \<longleftrightarrow> \<not> bit val 63" using encoded_bit[of len 0 val 7] assms by auto
  ultimately show ?thesis using and_128[of "encoded len val ! 0"] by (simp add: sign_mask_def)
qed

lemma mask_byte: "(ucast ((sign_mask val :: 64 word) AND 0xff) :: byte) = sign_mask val"
  unfolding and_255 by (rule bit_word_eqI) (auto simp: bit_unsigned_iff bit_take_bit_iff bit_sign_mask)

lemma value_bits:
  assumes "len \<in> {1..10}" and "unat (magnitude val) < 2 ^ (7 * len - 1)"
  shows "(push_bit (8 * len) (sign_mask val) OR ucast (take_bit (8 * len) (wide val XOR header len))) XOR kLengthToMask ! len = val"
  unfolding kLengthToMask_header[OF assms(1)]
proof (rule bit_word_eqI)
  fix p assume p: "p < LENGTH(64)"
  show "bit ((push_bit (8 * len) (sign_mask val) OR ucast (take_bit (8 * len) (wide val XOR header len))) XOR ucast (header len) :: 64 word) p = bit val p"
  proof (cases "p < 8 * len")
    case True
    then show ?thesis using p by (auto simp: bit_or_iff bit_xor_iff bit_push_bit_iff bit_unsigned_iff bit_take_bit_iff bit_header bit_wide)
  next
    case False
    then have "bit val p = bit val 63" using high_bits[OF assms(2), of p] p by (simp add: bit_wide)
    then show ?thesis using False p by (auto simp: bit_or_iff bit_xor_iff bit_push_bit_iff bit_unsigned_iff bit_take_bit_iff bit_header bit_sign_mask)
  qed
qed

lemma encoded_len [simp]: "length (encoded len val) = len"
  by (simp add: encoded_def)

lemma load_value:
  assumes "len \<in> {8..10}"
  shows "LoadBigEndian64 (drop (len - 8) (encoded len val @ rest)) XOR kLengthToMask ! len = val"
proof -
  let ?v = "wide val XOR header len"
  have "take 8 (mem_bytes len ?v) = mem_bytes 8 ?v" using assms by (simp add: mem_bytes_def take_map)
  then have "drop (len - 8) (encoded len val) = rev (mem_bytes 8 ?v)"
    using rev_take[of 8 "mem_bytes len ?v"] by (simp add: encoded_def)
  then have "drop (len - 8) (encoded len val @ rest) = rev (mem_bytes 8 ?v) @ rest" by simp
  then have "LoadBigEndian64 (drop (len - 8) (encoded len val @ rest)) = ucast ?v" by (simp only: Load_bytes)
  moreover have "kLengthToMask ! len = ucast (header len)" using assms by (intro kLengthToMask_header) auto
  moreover have "ucast ?v XOR ucast (header len) = val"
    by (rule bit_word_eqI) (auto simp: bit_xor_iff bit_unsigned_iff bit_wide bit_header)
  ultimately show ?thesis by simp
qed

text \<open>The length that the leading bits say.\<close>

lemma short_length:
  assumes l: "len \<in> {1..7}" and small: "unat (magnitude val) < 2 ^ (7 * len - 1)"
  shows "unsigned_byte len val 0 \<noteq> 0xff" and "nat (7 - Log2Floor64 (ucast (unsigned_byte len val 0 XOR 0xff))) = len"
proof -
  have m: "(0xff :: byte) = mask 8" by (simp add: mask_eq_exp_minus_1)
  define g :: "64 word" where "g = ucast (unsigned_byte len val 0 XOR 0xff)"
  have b: "bit (unsigned_byte len val 0) i \<longleftrightarrow> 7 * len \<le> 8 * (len - 1) + i \<or> 8 * (len - 1) + i \<noteq> 7 * len - 1 \<and> bit (wide val) (8 * (len - 1) + i) \<noteq> bit val 63"
    if "i < 8" for i using bit_unsigned_byte[of len val 0 i] l small that by simp
  have z: "\<not> bit (unsigned_byte len val 0) (7 - len)" using b[of "7 - len"] l by auto
  then show "unsigned_byte len val 0 \<noteq> 0xff" unfolding m using l by (auto simp: bit_mask_iff)
  have g: "bit g i \<longleftrightarrow> i < 8 \<and> \<not> bit (unsigned_byte len val 0) i" for i
    unfolding g_def m by (auto simp: bit_unsigned_iff bit_xor_iff bit_mask_iff simp del: mask_numeral dest: bit_imp_le_length)
  have "floor_log g (7 - len)"
  proof (rule floor_log_bits)
    show "bit g (7 - len)" using g z by simp
    show "\<not> bit g i" if "7 - len < i" for i using g[of i] b[of i] that l by auto
  qed
  moreover have "g \<noteq> 0" using g[of "7 - len"] z by auto
  then obtain k where "Log2Floor64 g = int k" "floor_log g k" using Log2Floor64_spec by blast
  ultimately have "Log2Floor64 g = int (7 - len)" using floor_log_unique by blast
  then show "nat (7 - Log2Floor64 (ucast (unsigned_byte len val 0 XOR 0xff))) = len" using l unfolding g_def by auto
qed

lemma byte_from_bits: "(\<And>i. i < 8 \<Longrightarrow> bit x i = bit y i) \<Longrightarrow> x = y" for x y :: byte
  by (rule bit_word_eqI) simp

lemma long_length:
  assumes l: "len \<in> {8..10}" and small: "unat (magnitude val) < 2 ^ (7 * len - 1)"
  shows "unsigned_byte len val 0 = 0xff" and "0x80 \<le> unsigned_byte len val 1 \<longleftrightarrow> len \<noteq> 8"
    and "len = 9 \<Longrightarrow> unsigned_byte len val 1 < 0xc0"
    and "len = 10 \<Longrightarrow> unsigned_byte len val 1 = 0xc0 \<and> unsigned_byte len val 2 < 0x80"
proof -
  have b: "bit (unsigned_byte len val j) i \<longleftrightarrow> 7 * len \<le> 8 * (len - 1 - j) + i
      \<or> 8 * (len - 1 - j) + i \<noteq> 7 * len - 1 \<and> bit (wide val) (8 * (len - 1 - j) + i) \<noteq> bit val 63"
    if "i < 8" "j < len" for i j using bit_unsigned_byte[of len val j i] l small that by simp
  have m: "(0xff :: byte) = mask 8" by (simp add: mask_eq_exp_minus_1)
  show "unsigned_byte len val 0 = 0xff" unfolding m
    by (rule byte_from_bits) (use b[of _ 0] l in \<open>auto simp: bit_mask_iff simp del: mask_numeral\<close>)
  have "len = 8 \<or> len = 9 \<or> len = 10" using l by auto
  then show "0x80 \<le> unsigned_byte len val 1 \<longleftrightarrow> len \<noteq> 8" unfolding byte_compare(1) using b[of 7 1] l by auto
  show "unsigned_byte len val 1 < 0xc0" if "len = 9" by (rule byte_compare(2)) (use b[of 6 1] that in auto)
  show "unsigned_byte len val 1 = 0xc0 \<and> unsigned_byte len val 2 < 0x80" if "len = 10"
  proof
    have c: "(0xc0 :: byte) = push_bit 6 (mask 2)" by (simp add: mask_eq_exp_minus_1)
    have w: "bit (wide val) p = bit val 63" if "63 \<le> p" "p < 80" for p using that by (cases "p = 63") (auto simp: bit_wide)
    show "unsigned_byte len val 1 = 0xc0" unfolding c
      by (rule byte_from_bits) (use b[of _ 1] w that in \<open>auto simp: bit_push_bit_iff bit_mask_iff simp del: mask_numeral\<close>)
    have "\<not> bit (unsigned_byte len val 2) 7" using b[of 7 2] w[of 63] that by simp
    then show "unsigned_byte len val 2 < 0x80" using byte_compare(1)[of "unsigned_byte len val 2"] by simp
  qed
qed

lemma ReadSigned_encoded:
  assumes l: "len \<in> {1..10}" and small: "unat (magnitude val) < 2 ^ (7 * len - 1)"
  shows "ReadSignedNumIncreasing (encoded len val @ rest) = Some (val, rest)"
proof -
  let ?src = "encoded len val @ rest"
  have ne: "?src \<noteq> []" using l by (cases "encoded len val") (auto dest: arg_cong[of _ _ length])
  note mk = read_mask[OF l small, of rest]
  have u: "?src ! j XOR sign_mask val = unsigned_byte len val j" if "j < len" for j
    using that by (simp add: unsigned_byte_def nth_append)
  show ?thesis
  proof (cases "len \<le> 7")
    case True
    then have l7: "len \<in> {1..7}" "0 < len" using l by auto
    note s = short_length[OF l7(1) small]
    have "foldl (\<lambda>x b. push_bit 8 x OR ucast b) (sign_mask val) (encoded len val) XOR kLengthToMask ! len = val"
      unfolding encoded_def read_bytes by (rule value_bits[OF l small])
    then show ?thesis using ne s(1)
      unfolding ReadSignedNumIncreasing_def Let_def mk mask_byte u[OF l7(2)] s(2) by simp
  next
    case False
    then have l8: "len \<in> {8..10}" "0 < len" "1 < len" "2 < len" using l by auto
    note s = long_length[OF l8(1) small]
    have ld: "LoadBigEndian64 (drop (len - 8) ?src) XOR kLengthToMask ! len = val" by (rule load_value[OF l8(1)])
    consider "len = 8" | "len = 9" | "len = 10" using l8(1) by (auto, linarith)
    then show ?thesis
    proof cases
      case 1
      then show ?thesis using ne s(1,2) ld unfolding ReadSignedNumIncreasing_def Let_def mk mask_byte u[OF l8(2)] u[OF l8(3)] by simp
    next
      case 2
      then show ?thesis using ne s(1-3) ld unfolding ReadSignedNumIncreasing_def Let_def mk mask_byte u[OF l8(2)] u[OF l8(3)] by simp
    next
      case 3
      then show ?thesis using ne s(1,2,4) ld unfolding ReadSignedNumIncreasing_def Let_def mk mask_byte u[OF l8(2)] u[OF l8(3)] u[OF l8(4)] by simp
    qed
  qed
qed

lemma ReadSigned_WriteSigned: "ReadSignedNumIncreasing (WriteSignedNumIncreasing [] val @ rest) = Some (val, rest)"
  using WriteSigned_encoded[of "[]" val] ReadSigned_encoded by auto

subsection \<open>Encodings compare as the numbers do\<close>

text \<open>One string is below another at a byte both have.\<close>

definition below :: "byte list \<Rightarrow> byte list \<Rightarrow> bool" where
  "below x y \<longleftrightarrow> (\<exists>k. k < length x \<and> k < length y \<and> take k x = take k y \<and> x ! k < y ! k)"

lemma below_bytes_less: "below x y \<Longrightarrow> bytes_less (x @ u) (y @ v)"
proof -
  assume "below x y"
  then obtain k where k: "k < length x" "k < length y" "take k x = take k y" "x ! k < y ! k" by (auto simp: below_def)
  have "x @ u = take k x @ x ! k # drop (Suc k) x @ u" "y @ v = take k x @ y ! k # drop (Suc k) y @ v"
    using id_take_nth_drop[OF k(1)] id_take_nth_drop[OF k(2)] unfolding k(3) by (metis append.assoc append_Cons)+
  then show ?thesis using k(4) by (metis bytes_less_prefix bytes_less_simps(3))
qed

lemma same_length_below: "length x = length y \<Longrightarrow> bytes_less x y \<Longrightarrow> below x y"
proof (induction x y rule: list_induct2)
  case (Cons a x b y)
  show ?case
  proof (cases "a < b")
    case True
    then show ?thesis by (auto simp: below_def)
  next
    case False
    then obtain k where "k < length x" "k < length y" "take k x = take k y" "x ! k < y ! k" "a = b"
      using Cons by (auto simp: below_def)
    then show ?thesis unfolding below_def by (intro exI[of _ "Suc k"]) simp
  qed
qed simp

lemma below_complement: "below x y \<Longrightarrow> below (map NOT y) (map NOT x)"
proof -
  assume "below x y"
  then obtain k where k: "k < length x" "k < length y" "take k x = take k y" "x ! k < y ! k" by (auto simp: below_def)
  have c: "unat (NOT w) = 255 - unat w" for w :: byte
  proof -
    have "NOT w = - 1 - w" by (simp add: not_eq_complement)
    then show ?thesis using unat_sub[of w "- 1"] by (simp add: unsigned_minus_1_eq_mask mask_eq_exp_minus_1)
  qed
  have "NOT (y ! k) < NOT (x ! k)" using k(4) unat_less[of "y ! k"] by (simp add: word_less_nat_alt c)
  then show ?thesis using k unfolding below_def by (intro exI[of _ k]) (simp add: take_map)
qed

lemma byte_below:
  fixes x y :: byte
  assumes "i < 8" and "\<not> bit x i" and "bit y i" and "\<And>j. i < j \<Longrightarrow> j < 8 \<Longrightarrow> bit x j = bit y j"
  shows "x < y"
proof -
  have "bit x (Suc (i + j)) = bit y (Suc (i + j))" for j
    using assms(4)[of "Suc (i + j)"] by (cases "Suc (i + j) < 8") (auto dest: bit_imp_le_length)
  then have "drop_bit (Suc i) x = drop_bit (Suc i) y" by (intro byte_from_bits) (simp add: bit_drop_bit_eq)
  then have "unat (drop_bit (Suc i) x) = unat (drop_bit (Suc i) y)" by simp
  then have q: "unat x div 2 ^ i div 2 = unat y div 2 ^ i div 2" unfolding unat_drop power_Suc2 div_mult2_eq .
  moreover have "bit (unat x) i = bit x i" "bit (unat y) i = bit y i" by (simp_all add: bit_unsigned_iff)
  then have "even (unat x div 2 ^ i)" "odd (unat y div 2 ^ i)" using assms(2,3) by (simp_all add: bit_iff_odd)
  moreover have "q div 2 = r div 2 \<Longrightarrow> even q \<Longrightarrow> odd r \<Longrightarrow> q < r" for q r :: nat by presburger
  ultimately have "unat x div 2 ^ i < unat y div 2 ^ i" by blast
  then show ?thesis by (metis div_le_mono not_le word_less_nat_alt)
qed

lemma bit_nonneg:
  assumes "len \<in> {1..10}" and "unat val < 2 ^ (7 * len - 1)" and "\<not> bit val 63" and "j < len" and "r < 8"
  shows "bit (encoded len val ! j) (7 - r) \<longleftrightarrow> 8 * j + r < len \<or> 8 * j + r \<noteq> len \<and> bit (wide val) (8 * len - 1 - (8 * j + r))"
proof -
  have m: "unat (magnitude val) < 2 ^ (7 * len - 1)" using assms by (simp add: magnitude_def sign_bit)
  have p: "8 * (len - 1 - j) + (7 - r) = 8 * len - 1 - (8 * j + r)" using assms(4,5) by arith
  have c: "7 * len \<le> 8 * len - 1 - (8 * j + r) \<longleftrightarrow> 8 * j + r < len"
    "8 * len - 1 - (8 * j + r) = 7 * len - 1 \<longleftrightarrow> 8 * j + r = len" using assms(4,5) by arith+
  show ?thesis using encoded_bit[of len j val "7 - r"] m assms unfolding p c by auto
qed

lemma shorter_below:
  assumes "len \<in> {1..10}" "unat a < 2 ^ (7 * len - 1)" "\<not> bit a 63"
    and "len' \<in> {1..10}" "unat b < 2 ^ (7 * len' - 1)" "\<not> bit b 63" and "len < len'"
  shows "below (encoded len a) (encoded len' b)"
proof -
  note A = bit_nonneg[OF assms(1-3)] and B = bit_nonneg[OF assms(4-6)]
  define k where "k = len div 8"
  have k: "k < len" "k < len'" using assms(1,7) by (auto simp: k_def)
  have kr: "8 * k + len mod 8 = len" by (simp add: k_def)
  have ones: "bit (encoded len a ! j) i = bit (encoded len' b ! j) i" if "i < 8" "j < len" "8 * j + (7 - i) < len" for i j
  proof -
    have "7 - (7 - i) = i" using that(1) by simp
    then show ?thesis using A[of j "7 - i"] B[of j "7 - i"] that assms(7) by simp
  qed
  have "encoded len a ! j = encoded len' b ! j" if "j < k" for j
    by (rule byte_from_bits, rule ones) (use that kr k in arith)+
  then have "take k (encoded len a) = take k (encoded len' b)" using k by (intro nth_equalityI) simp_all
  moreover have "encoded len a ! k < encoded len' b ! k"
  proof (rule byte_below)
    show "7 - len mod 8 < 8" by simp
    show "\<not> bit (encoded len a ! k) (7 - len mod 8)" "bit (encoded len' b ! k) (7 - len mod 8)"
      using A[of k "len mod 8"] B[of k "len mod 8"] k assms(7) unfolding kr by auto
    fix i :: nat assume "7 - len mod 8 < i" "i < 8"
    then show "bit (encoded len a ! k) i = bit (encoded len' b ! k) i" using kr k by (intro ones) arith+
  qed
  ultimately show ?thesis using k unfolding below_def by (intro exI[of _ k]) simp
qed

lemma big_endian_mem: "big_endian (rev (mem_bytes n w)) = unat w mod 256 ^ n" for w :: "'a::len word"
proof (induction n)
  case (Suc n)
  have "big_endian (rev (mem_bytes (Suc n) w)) = unat (ucast (drop_bit (8 * n) w) :: byte) * 256 ^ n + unat w mod 256 ^ n"
    using Suc by (simp add: mem_bytes_def)
  also have "unat (ucast (drop_bit (8 * n) w) :: byte) = unat w div 256 ^ n mod 256"
    by (simp add: unsigned_ucast_eq take_bit_eq_mod unat_drop power_mult)
  also have "unat w div 256 ^ n mod 256 * 256 ^ n + unat w mod 256 ^ n = unat w mod 256 ^ Suc n"
    using mod_mult2_eq[of "unat w" "256 ^ n" 256] by (simp add: mult.commute)
  finally show ?case .
qed (simp add: mem_bytes_def)

lemma same_length_order:
  assumes "len \<in> {1..10}" and "unat a < 2 ^ (7 * len - 1)" "\<not> bit a 63" and "unat b < 2 ^ (7 * len - 1)" "\<not> bit b 63" and "unat a < unat b"
  shows "below (encoded len a) (encoded len b)"
proof -
  have v: "big_endian (encoded len c) = unat (header len) + unat c" if c: "unat c < 2 ^ (7 * len - 1)" "\<not> bit c 63" for c
  proof -
    have e: "(256 :: nat) ^ len = 2 ^ (8 * len)" by (simp add: power_mult)
    have cb: "p < 7 * len - 1" if "bit c p" for p using bit_below[OF c(1) that] .
    have w: "wide c = ucast c" using c(2) by (intro bit_word_eqI) (auto simp: bit_wide bit_unsigned_iff dest: bit_imp_le_length)
    have "take_bit (8 * len) (wide c XOR header len) = wide c XOR header len" unfolding w
      using assms(1) by (intro bit_word_eqI) (auto simp: bit_take_bit_iff bit_xor_iff bit_unsigned_iff bit_header dest: cb)
    then have "unat (wide c XOR header len) mod 256 ^ len = unat (wide c XOR header len)"
      unfolding e by (metis unsigned_take_bit_eq take_bit_eq_mod)
    moreover have "wide c AND header len = 0" unfolding w
      by (rule bit_word_eqI) (auto simp: bit_and_iff bit_unsigned_iff bit_header dest: cb)
    then have "unat (wide c) AND unat (header len) = 0" by (metis unsigned_and_eq unsigned_0)
    then have "unat (wide c XOR header len) = unat (wide c) + unat (header len)" by (simp add: unsigned_xor_eq disjunctive_add_eq_xor)
    ultimately show ?thesis by (simp add: encoded_def big_endian_mem w unsigned_ucast_eq take_bit_nat_eq_self order_less_trans[OF unat_less])
  qed
  have "bytes_less (encoded len a) (encoded len b)"
    using big_endian_order[of "encoded len a" "encoded len b" "[]" "[]"] v[OF assms(2,3)] v[OF assms(4,5)] assms(6) by simp
  then show ?thesis by (simp add: same_length_below)
qed

text \<open>The lengths that the writer uses.\<close>

definition writes :: "nat \<Rightarrow> 64 word \<Rightarrow> bool" where
  "writes len val \<longleftrightarrow> len \<in> {1..10} \<and> unat (magnitude val) < 2 ^ (7 * len - 1) \<and> (len = 1 \<or> 2 ^ (7 * len - 8) \<le> unat (magnitude val))"

lemma WriteSigned_writes: "\<exists>len. WriteSignedNumIncreasing dest val = dest @ encoded len val \<and> writes len val"
  using WriteSigned_encoded[of dest val] by (auto simp: writes_def)

lemma writes_mono:
  assumes "writes len a" and "writes len' b" and "unat (magnitude a) < unat (magnitude b)"
  shows "len \<le> len'"
proof (rule ccontr)
  assume "\<not> len \<le> len'"
  then have "7 * len' - 1 \<le> 7 * len - 8" "len \<noteq> 1" using assms(2) by (auto simp: writes_def)
  then have "(2 :: nat) ^ (7 * len' - 1) \<le> 2 ^ (7 * len - 8)" by (intro power_increasing) simp_all
  then show False using assms \<open>len \<noteq> 1\<close> unfolding writes_def by linarith
qed

lemma nonneg_below:
  assumes "writes len a" "writes len' b" and "\<not> bit a 63" "\<not> bit b 63" and "unat a < unat b"
  shows "below (encoded len a) (encoded len' b)"
proof -
  have m: "magnitude a = a" "magnitude b = b" using assms(3,4) by (simp_all add: magnitude_def sign_bit)
  then have "len \<le> len'" using writes_mono[OF assms(1,2)] assms(5) by simp
  then show ?thesis using shorter_below[of len a len' b] same_length_order[of len a b] assms m
    by (cases "len = len'") (simp_all add: writes_def)
qed

lemma encoded_not: "len \<le> 10 \<Longrightarrow> encoded len (NOT val) = map NOT (encoded len val)"
proof -
  assume len: "len \<le> 10"
  have w: "wide (NOT val) XOR header len = NOT (wide val XOR header len)"
    by (rule bit_word_eqI) (auto simp: bit_wide bit_xor_iff bit_not_iff)
  have "(ucast (drop_bit (8 * i) (NOT v)) :: byte) = NOT (ucast (drop_bit (8 * i) v))" if "i < len" for i and v :: "80 word"
    by (rule byte_from_bits) (use that len in \<open>auto simp: bit_unsigned_iff bit_drop_bit_eq bit_not_iff\<close>)
  then show ?thesis unfolding encoded_def w by (simp add: mem_bytes_def rev_map)
qed

lemma writes_not: "writes len (NOT val) = writes len val"
proof -
  have "magnitude (NOT val) = magnitude val" by (simp add: magnitude_def sign_bit bit_not_iff)
  then show ?thesis by (simp add: writes_def)
qed

lemma sint_nonneg:
  assumes "\<not> bit (c :: 64 word) 63"
  shows "sint c = int (unat c)"
proof -
  have "unat c < 2 ^ 63" using top_bit[of c 63] unat_less[of c] assms by simp
  then have "int (unat c) < 2 ^ 63" by (metis of_nat_less_iff of_nat_power of_nat_numeral)
  then have "take_bit 63 (int (unat c)) = int (unat c)" by (intro take_bit_int_eq_self of_nat_0_le_iff)
  moreover have "\<not> bit (uint c) 63" using assms by (simp add: bit_unsigned_iff)
  then have "sint c = take_bit 63 (uint c)" using sint_uint[of c] signed_take_bit_eq_if_positive[of "uint c" 63] by (simp only: len_bit0 len_num1 mult_1_right numeral_eq_one_iff) simp
  ultimately show ?thesis by (simp only: uint_nat)
qed

lemma complement_twice: "map NOT (map NOT (xs :: byte list)) = xs"
  by (induction xs) simp_all

lemma signed_below:
  assumes "writes len a" "writes len' b" and "sint a < sint b"
  shows "below (encoded len a) (encoded len' b)"
proof -
  have sgn: "bit c 63 \<longleftrightarrow> sint c < 0" for c :: "64 word" using bit_last_iff[of c] by simp
  note u = sint_nonneg
  consider "bit a 63" "\<not> bit b 63" | "\<not> bit a 63" "\<not> bit b 63" | "bit a 63" "bit b 63" using assms(3) sgn[of a] sgn[of b] by linarith
  then show ?thesis
  proof cases
    case 1
    have "bit (encoded len a ! 0) 7 = (\<not> bit a 63)" "bit (encoded len' b ! 0) 7 = (\<not> bit b 63)"
      using encoded_bit[of len 0 a 7] encoded_bit[of len' 0 b 7] assms(1,2) by (auto simp: writes_def)
    then have "encoded len a ! 0 < encoded len' b ! 0" using 1 byte_below[of 7 "encoded len a ! 0" "encoded len' b ! 0"] by simp
    then show ?thesis using assms(1,2) unfolding below_def by (intro exI[of _ 0]) (simp add: writes_def)
  next
    case 2
    then have "unat a < unat b" using u[OF 2(1)] u[OF 2(2)] assms(3) by (simp only: of_nat_less_iff)
    then show ?thesis using nonneg_below[OF assms(1,2) 2] by simp
  next
    case 3
    then have n: "\<not> bit (NOT a) 63" "\<not> bit (NOT b) 63" by (simp_all add: bit_not_iff)
    have neg: "sint (NOT c) = - sint c - 1" for c :: "64 word" 
      using sint_ge[of c] sint_lt[of c] by (simp only: signed_not_eq not_int_def, intro signed_take_bit_int_eq_self) simp_all
    have "int (unat (NOT b)) < int (unat (NOT a))" using neg[of a] neg[of b] u[OF n(1)] u[OF n(2)] assms(3) by linarith
    then have "unat (NOT b) < unat (NOT a)" by (simp only: of_nat_less_iff)
    then have "below (encoded len' (NOT b)) (encoded len (NOT a))"
      using nonneg_below[of len' "NOT b" len "NOT a"] assms(1,2) n writes_not by blast
    then have "below (map NOT (encoded len' b)) (map NOT (encoded len a))"
      using encoded_not[of len a] encoded_not[of len' b] assms(1,2) by (simp only: writes_def atLeastAtMost_iff)
    from below_complement[OF this] show ?thesis by (simp only: complement_twice)
  qed
qed

lemma WriteSigned_order:
  assumes "sint a < sint b"
  shows "bytes_less (WriteSignedNumIncreasing [] a @ u) (WriteSignedNumIncreasing [] b @ v)"
proof -
  obtain len len' where "WriteSignedNumIncreasing [] a = encoded len a" "writes len a" "WriteSignedNumIncreasing [] b = encoded len' b" "writes len' b"
    using WriteSigned_writes[of "[]" a] WriteSigned_writes[of "[]" b] by auto
  then show ?thesis using below_bytes_less[OF signed_below[OF _ _ assms]] by simp
qed

interpretation signed_key: ordered_codec "\<lambda>dst v. Some (WriteSignedNumIncreasing dst v)" ReadSignedNumIncreasing "\<lambda>a b. sint a < sint b"
proof
  fix x y :: "64 word" and d e u v
  show "\<exists>e. \<forall>dst. Some (WriteSignedNumIncreasing dst x) = Some (dst @ e)" by (intro exI[of _ "WriteSignedNumIncreasing [] x"])
      (simp add: WriteSignedNumIncreasing_def Let_def)
  assume "sint x < sint y" "Some (WriteSignedNumIncreasing [] x) = Some d" "Some (WriteSignedNumIncreasing [] y) = Some e"
  then show "(d @ u, e @ v) \<in> lexord {(a, b). a < b}" using WriteSigned_order[of x y u v] by (simp add: bytes_less_def)
qed (use ReadSigned_WriteSigned in \<open>auto simp: signed_word_eqI\<close>)

end
