(* ===== verification/Records.thy ===== *)
theory Records
  imports Crc32c Simulation
begin

text \<open>
  Record files: tensorflow/core/lib/io/record_writer.cc and record_reader.cc. A record is its length, the masked
  checksum of the length, the data and the masked checksum of the data.

  The files and zlib are not part of the program: what they do is a parameter. A file that is read is a
  function from an offset and a size to a status or the bytes found; \<open>holds\<close> says what platform/file_system.h promises of a file with
  a contents: the bytes asked for, or \<open>OutOfRange\<close> when there are fewer. A file that is written is a state with an append operation, and the compressed streams have a
  state and a sequential read or write of their own.
\<close>

datatype status = DataLoss string | DataLossAt string "64 word" | OutOfRange string | Fatal string | OtherError string

datatype compression = NONE | ZLIB_COMPRESSION | UnknownCompression

subsection \<open>Writing\<close>

definition RecordWriter_zlib :: "bool \<Rightarrow> compression \<Rightarrow> status + bool" where
  "RecordWriter_zlib slim c = (case c of
     ZLIB_COMPRESSION \<Rightarrow> if slim then Inl (Fatal ''Zlib compression is unsupported on mobile platforms.'') else Inr True
   | NONE \<Rightarrow> Inr False
   | UnknownCompression \<Rightarrow> Inl (Fatal ''Unspecified compression type''))"

definition MaskedCrc :: "nat \<Rightarrow> byte list \<Rightarrow> 32 word option" where
  "MaskedCrc addr data = map_option Mask (Value addr data)"

text \<open>The bytes of the header and the footer; \<open>addr\<close> and \<open>addr'\<close> are the addresses of the header and the data.\<close>

definition record_header :: "nat \<Rightarrow> byte list \<Rightarrow> byte list option" where
  "record_header addr data = (let len = EncodeFixed64 (of_nat (length data)) in
     map_option (\<lambda>crc. len @ EncodeFixed32 crc) (MaskedCrc addr len))"

definition record_footer :: "nat \<Rightarrow> byte list \<Rightarrow> byte list option" where
  "record_footer addr' data = map_option EncodeFixed32 (MaskedCrc addr' data)"

definition WriteRecord :: "bool \<Rightarrow> (byte list \<Rightarrow> 's \<Rightarrow> status + 's) \<Rightarrow> (byte list \<Rightarrow> 's \<Rightarrow> status + 's)
    \<Rightarrow> nat \<Rightarrow> nat \<Rightarrow> byte list \<Rightarrow> 's \<Rightarrow> (status + 's) option" where
  "WriteRecord zlib dest_append zlib_write addr addr' data s = (case record_header addr data of None \<Rightarrow> None
   | Some header \<Rightarrow> (case record_footer addr' data of None \<Rightarrow> None
   | Some footer \<Rightarrow> let put = (if zlib then zlib_write else dest_append) in
       Some (bindE (put header s) (\<lambda>s. bindE (put data s) (\<lambda>s. put footer s)))))"

subsection \<open>Reading\<close>

text \<open>The end of both branches of \<open>ReadChecksummed\<close>: enough bytes, and their checksum.\<close>

definition checked :: "nat \<Rightarrow> 64 word \<Rightarrow> nat \<Rightarrow> byte list \<Rightarrow> (status + byte list) option" where
  "checked addr offset n data =
     (if length data \<noteq> n + 4
      then Some (Inl (if length data = 0 then OutOfRange ''eof'' else DataLossAt ''truncated record at '' offset))
      else case DecodeFixed32 (drop n data) of None \<Rightarrow> None
      | Some masked_crc \<Rightarrow> (case Value addr (take n data) of None \<Rightarrow> None
        | Some v \<Rightarrow> Some (if Unmask masked_crc \<noteq> v then Inl (DataLossAt ''corrupted record at '' offset) else Inr (take n data))))"

definition ReadChecksummed :: "nat \<Rightarrow> bool \<Rightarrow> (64 word \<Rightarrow> nat \<Rightarrow> status + byte list) \<Rightarrow> (nat \<Rightarrow> 'z \<Rightarrow> status + byte list \<times> 'z)
    \<Rightarrow> nat \<Rightarrow> 64 word \<Rightarrow> nat \<Rightarrow> 'z \<Rightarrow> (status + byte list \<times> 'z) option" where
  "ReadChecksummed size_max zlib rd zlib_rd addr offset n z =
     (if size_max - 4 \<le> n then Some (Inl (DataLoss ''record size too large''))
      else let expected = n + 4 in
        if zlib
        then (case zlib_rd expected z of Inl e \<Rightarrow> Some (Inl e)
          | Inr (storage, z) \<Rightarrow> map_option (\<lambda>r. bindE r (\<lambda>d. Inr (d, z))) (checked addr offset n storage))
        else (case rd offset expected of Inl e \<Rightarrow> Some (Inl e)
          | Inr data \<Rightarrow> map_option (\<lambda>r. bindE r (\<lambda>d. Inr (d, z))) (checked addr offset n data)))"

text \<open>The length is converted to \<open>size_t\<close>, of which \<open>size_max\<close> is the largest value.\<close>

definition ReadRecord :: "nat \<Rightarrow> bool \<Rightarrow> (64 word \<Rightarrow> nat \<Rightarrow> status + byte list) \<Rightarrow> (nat \<Rightarrow> 'z \<Rightarrow> status + byte list \<times> 'z)
    \<Rightarrow> nat \<Rightarrow> nat \<Rightarrow> 64 word \<Rightarrow> 'z \<Rightarrow> (status + byte list \<times> 64 word \<times> 'z) option" where
  "ReadRecord size_max zlib rd zlib_rd addr addr' offset z =
     (let kHeaderSize = 8 + 4; kFooterSize = 4 in
      case ReadChecksummed size_max zlib rd zlib_rd addr offset 8 z of None \<Rightarrow> None
      | Some (Inl e) \<Rightarrow> Some (Inl e)
      | Some (Inr (lbuf, z)) \<Rightarrow> (case DecodeFixed64 lbuf of None \<Rightarrow> None
        | Some len \<Rightarrow> (case ReadChecksummed size_max zlib rd zlib_rd addr' (offset + kHeaderSize) (unat len mod (size_max + 1)) z of None \<Rightarrow> None
          | Some (Inl e) \<Rightarrow> Some (Inl (case e of OutOfRange _ \<Rightarrow> DataLossAt ''truncated record at '' offset | _ \<Rightarrow> e))
          | Some (Inr (data, z)) \<Rightarrow> Some (Inr (data, offset + kHeaderSize + len + kFooterSize, z)))))"

subsection \<open>Records are read back\<close>

definition holds :: "(64 word \<Rightarrow> nat \<Rightarrow> status + byte list) \<Rightarrow> byte list \<Rightarrow> bool" where
  "holds rd contents \<longleftrightarrow> (\<forall>offset n. if n \<le> length contents - unat offset then rd offset n = Inr (take n (drop (unat offset) contents))
     else \<exists>m. rd offset n = Inl (OutOfRange m))"

lemma holds_read: "holds rd contents \<Longrightarrow> n \<le> length contents - unat offset \<Longrightarrow> rd offset n = Inr (take n (drop (unat offset) contents))"
  unfolding holds_def by presburger

lemma holds_short: "holds rd contents \<Longrightarrow> length contents - unat offset < n \<Longrightarrow> \<exists>m. rd offset n = Inl (OutOfRange m)"
  unfolding holds_def by (metis linorder_not_less)

definition framed :: "byte list \<Rightarrow> byte list" where
  "framed data = EncodeFixed64 (of_nat (length data)) @ EncodeFixed32 (Mask (crc_bits 0 (EncodeFixed64 (of_nat (length data)))))
     @ data @ EncodeFixed32 (Mask (crc_bits 0 data))"

lemma Value_bits: "Value addr data = Some (crc_bits 0 data)"
  by (simp add: Value_def Extend_divides)

text \<open>A file that is written: every append succeeds and adds to the contents.\<close>

definition appends :: "(byte list \<Rightarrow> 's \<Rightarrow> status + 's) \<Rightarrow> ('s \<Rightarrow> byte list) \<Rightarrow> bool" where
  "appends put contents \<longleftrightarrow> (\<forall>bs s. \<exists>s'. put bs s = Inr s' \<and> contents s' = contents s @ bs)"

lemma WriteRecord_frames:
  assumes "appends put contents"
  shows "\<exists>s'. WriteRecord False put other addr addr' data s = Some (Inr s') \<and> contents s' = contents s @ framed data"
    and "\<exists>s'. WriteRecord True other put addr addr' data s = Some (Inr s') \<and> contents s' = contents s @ framed data"
proof -
  let ?len = "EncodeFixed64 (of_nat (length data))"
  obtain s1 where s1: "put (?len @ EncodeFixed32 (Mask (crc_bits 0 ?len))) s = Inr s1"
      "contents s1 = contents s @ ?len @ EncodeFixed32 (Mask (crc_bits 0 ?len))" using assms by (fastforce simp: appends_def)
  obtain s2 where s2: "put data s1 = Inr s2" "contents s2 = contents s1 @ data" using assms by (fastforce simp: appends_def)
  obtain s3 where s3: "put (EncodeFixed32 (Mask (crc_bits 0 data))) s2 = Inr s3"
      "contents s3 = contents s2 @ EncodeFixed32 (Mask (crc_bits 0 data))" using assms by (fastforce simp: appends_def)
  note w = WriteRecord_def record_header_def record_footer_def MaskedCrc_def Value_bits framed_def Let_def
  show "\<exists>s'. WriteRecord False put other addr addr' data s = Some (Inr s') \<and> contents s' = contents s @ framed data"
    "\<exists>s'. WriteRecord True other put addr addr' data s = Some (Inr s') \<and> contents s' = contents s @ framed data"
    using s1 s2 s3 by (simp_all add: w)
qed

lemma checked_frame: "length data = n \<Longrightarrow> checked addr offset n (data @ EncodeFixed32 (Mask (crc_bits 0 data))) = Some (Inr data)"
  using fixed32_roundtrip[of _ "[]"] by (simp add: checked_def Value_bits Unmask_Mask)

lemma ReadChecksummed_frame:
  assumes "holds rd contents" and "drop (unat offset) contents = data @ EncodeFixed32 (Mask (crc_bits 0 data)) @ rest" and "length data < size_max - 4"
  shows "ReadChecksummed size_max False rd zlib_rd addr offset (length data) z = Some (Inr (data, z))"
proof -
  have "length (drop (unat offset) contents) = length data + 4 + length rest" unfolding assms(2) by simp
  then have "rd offset (length data + 4) = Inr (take (length data + 4) (drop (unat offset) contents))" by (intro holds_read[OF assms(1)]) simp
  then have "rd offset (length data + 4) = Inr (data @ EncodeFixed32 (Mask (crc_bits 0 data)))" unfolding assms(2) by simp
  then show ?thesis using assms(3) checked_frame[of data "length data"] by (simp add: ReadChecksummed_def)
qed

lemma ReadRecord_frame:
  assumes h: "holds rd contents" and c: "drop (unat offset) contents = framed data @ rest"
    and l: "length data < size_max - 4" "12 < size_max" "length contents < 2 ^ 64"
  shows "ReadRecord size_max False rd zlib_rd addr addr' offset z = Some (Inr (data, offset + of_nat (length (framed data)), z))"
proof -
  let ?len = "EncodeFixed64 (of_nat (length data))"
  have n: "length data + 16 + unat offset \<le> length contents"
  proof -
    have "length (drop (unat offset) contents) = length (framed data @ rest)" by (simp only: c)
    then show ?thesis by (simp add: framed_def) 
  qed
  then have u: "unat (of_nat (length data) :: 64 word) = length data" using l(3) by (simp add: unat_of_nat)
  have o: "unat (offset + 12) = unat offset + 12" using n l(3) by (subst unat_plus_if') simp
  have d: "DecodeFixed64 ?len = Some (of_nat (length data))" using fixed64_roundtrip[of _ "[]"] by simp
  have 1: "ReadChecksummed size_max False rd zlib_rd addr offset (length ?len) z = Some (Inr (?len, z))"
    by (rule ReadChecksummed_frame[OF h]) (use c l in \<open>simp_all add: framed_def\<close>)
  have "drop (unat (offset + 12)) contents = drop 12 (drop (unat offset) contents)" by (simp add: o add.commute)
  also have "\<dots> = data @ EncodeFixed32 (Mask (crc_bits 0 data)) @ rest" unfolding c by (simp add: framed_def)
  finally have 2: "ReadChecksummed size_max False rd zlib_rd addr' (offset + 12) (length data) z = Some (Inr (data, z))"
    by (rule ReadChecksummed_frame[OF h _ l(1)])
  have m: "length data mod Suc size_max = length data" using l(1) by simp
  show ?thesis using 1 2 d by (simp add: ReadRecord_def Let_def u m framed_def algebra_simps)
qed

lemma framed_len: "length (framed data) = length data + 16"
  by (simp add: framed_def)

text \<open>
  The end of the file; a file that ends inside a header gives the same status, since the read of the header itself
  returns \<open>OutOfRange\<close>, and the tests for a truncated header are never reached.
\<close>

lemma ReadRecord_eof:
  assumes "holds rd contents" and "length contents - unat offset < 12" and "12 < size_max"
  shows "\<exists>m. ReadRecord size_max False rd zlib_rd addr addr' offset z = Some (Inl (OutOfRange m))"
  using holds_short[OF assms(1), of offset 12] assms(2,3) by (auto simp: ReadRecord_def ReadChecksummed_def Let_def)

text \<open>A file that ends inside the data or the checksum behind it.\<close>

lemma ReadRecord_truncated:
  assumes h: "holds rd contents" and c: "drop (unat offset) contents = take n (framed data)" and n: "12 \<le> n" "n < length (framed data)"
    and l: "length data < size_max - 4" "12 < size_max" "length data + 16 + unat offset < 2 ^ 64"
  shows "ReadRecord size_max False rd zlib_rd addr addr' offset z = Some (Inl (DataLossAt ''truncated record at '' offset))"
proof -
  let ?len = "EncodeFixed64 (of_nat (length data))" and ?body = "data @ EncodeFixed32 (Mask (crc_bits 0 data))"
  have c': "drop (unat offset) contents = ?len @ EncodeFixed32 (Mask (crc_bits 0 ?len)) @ take (n - 12) ?body"
    unfolding c framed_def using n(1) by simp
  have len: "length contents - unat offset = n" using arg_cong[OF c, of length] n(2) by simp
  have u: "unat (of_nat (length data) :: 64 word) = length data" using l(3) by (simp add: unat_of_nat)
  have d: "DecodeFixed64 ?len = Some (of_nat (length data))" using fixed64_roundtrip[of _ "[]"] by simp
  have 1: "ReadChecksummed size_max False rd zlib_rd addr offset (length ?len) z = Some (Inr (?len, z))"
    by (rule ReadChecksummed_frame[OF h c']) (use l in simp)
  have "unat (offset + 12) = unat offset + 12" using l(3) by (subst unat_plus_if') simp
  then have "length contents - unat (offset + 12) < length data + 4" using len n by (simp add: framed_def)
  then obtain m where "rd (offset + 12) (length data + 4) = Inl (OutOfRange m)" using holds_short[OF h] by blast
  then have 2: "ReadChecksummed size_max False rd zlib_rd addr' (offset + 12) (length data) z = Some (Inl (OutOfRange m))"
    using l(1) by (simp add: ReadChecksummed_def)
  have "length data mod Suc size_max = length data" using l(1) by simp
  then show ?thesis using 1 2 d by (simp add: ReadRecord_def Let_def u)
qed

text \<open>A change within four neighbouring bytes of the data is reported.\<close>

lemma ReadRecord_corrupted:
  assumes h: "holds rd contents" and b: "length b = length b'" "length b \<le> 4" "b \<noteq> b'"
    and c: "drop (unat offset) contents = take 12 (framed (p @ b @ q)) @ (p @ b' @ q) @ drop (12 + length (p @ b @ q)) (framed (p @ b @ q)) @ rest"
    and l: "length (p @ b @ q) < size_max - 4" "12 < size_max" "length contents < 2 ^ 64"
  shows "ReadRecord size_max False rd zlib_rd addr addr' offset z = Some (Inl (DataLossAt ''corrupted record at '' (offset + 12)))"
proof -
  let ?d = "p @ b @ q" and ?d' = "p @ b' @ q"
  let ?len = "EncodeFixed64 (of_nat (length ?d))" and ?crc = "EncodeFixed32 (Mask (crc_bits 0 ?d))"
  have c': "drop (unat offset) contents = ?len @ EncodeFixed32 (Mask (crc_bits 0 ?len)) @ ?d' @ ?crc @ rest"
    unfolding c by (simp add: framed_def)
  have "length (drop (unat offset) contents) = length (?len @ EncodeFixed32 (Mask (crc_bits 0 ?len)) @ ?d' @ ?crc @ rest)" by (simp only: c')
  then have n: "length ?d + 16 + unat offset \<le> length contents" using b(1) by simp
  then have u: "unat (of_nat (length ?d) :: 64 word) = length ?d" using l(3) unfolding unat_of_nat take_bit_eq_mod by (intro mod_less) simp
  have o: "unat (offset + 12) = unat offset + 12" using n l(3) by (subst unat_plus_if') simp
  have dl: "DecodeFixed64 ?len = Some (of_nat (length ?d))" using fixed64_roundtrip[of _ "[]"] by simp
  have 1: "ReadChecksummed size_max False rd zlib_rd addr offset (length ?len) z = Some (Inr (?len, z))"
    by (rule ReadChecksummed_frame[OF h]) (use c' l in \<open>simp_all\<close>)
  have "drop (unat (offset + 12)) contents = drop 12 (drop (unat offset) contents)" by (simp add: o add.commute)
  then have "drop (unat (offset + 12)) contents = ?d' @ ?crc @ rest" unfolding c' by simp
  then have e: "take (length ?d + 4) (drop (unat (offset + 12)) contents) = ?d' @ ?crc" using b(1) by simp
  have "length ?d + 4 \<le> length contents - unat (offset + 12)" using n o by simp
  then have r: "rd (offset + 12) (length ?d + 4) = Inr (?d' @ ?crc)" using holds_read[OF h] e by metis
  have ne: "crc_bits 0 ?d \<noteq> crc_bits 0 ?d'" by (rule crc_bits_burst[OF b])
  have dc: "DecodeFixed32 ?crc = Some (Mask (crc_bits 0 ?d))" using fixed32_roundtrip[of _ "[]"] by simp
  have "checked addr' (offset + 12) (length ?d') (?d' @ ?crc) = Some (Inl (DataLossAt ''corrupted record at '' (offset + 12)))"
    using ne dc by (simp only: checked_def) (simp add: Value_bits Unmask_Mask)
  then have "checked addr' (offset + 12) (length ?d) (?d' @ ?crc) = Some (Inl (DataLossAt ''corrupted record at '' (offset + 12)))"
    using b(1) by simp
  then have 2: "ReadChecksummed size_max False rd zlib_rd addr' (offset + 12) (length ?d) z = Some (Inl (DataLossAt ''corrupted record at '' (offset + 12)))"
    using r l(1) by (simp only: ReadChecksummed_def Let_def) simp
  have m: "length ?d mod Suc size_max = length ?d" using l(1) by simp
  have e8: "length ?len = 8" by (rule Encode_len)
  show ?thesis unfolding ReadRecord_def Let_def using 1[unfolded e8] 2 dl u m by (simp only: option.case sum.case prod.case) simp
qed

subsection \<open>A whole file\<close>

text \<open>The writer as a sequence of operations; what the file holds is what was written.\<close>

definition write_step :: "(byte list \<Rightarrow> 's \<Rightarrow> status + 's) \<Rightarrow> nat \<Rightarrow> nat \<Rightarrow> byte list \<Rightarrow> 's \<Rightarrow> 's option" where
  "write_step put addr addr' data s = (case WriteRecord False put put addr addr' data s of Some (Inr s) \<Rightarrow> Some s | _ \<Rightarrow> None)"

definition record_file :: "(byte list \<Rightarrow> 's \<Rightarrow> status + 's) \<Rightarrow> ('s \<Rightarrow> byte list) \<Rightarrow> 's \<Rightarrow> byte list list \<Rightarrow> bool" where
  "record_file put contents s ds \<longleftrightarrow> appends put contents \<and> contents s = concat (map framed ds)"

interpretation record_writer: simulation "write_step put addr addr'" "record_file put contents" "\<lambda>d ds. ds @ [d]" "\<lambda>d ds. True"
  for put contents addr addr'
proof
  fix s ds d
  assume "record_file put contents s ds"
  then show "\<exists>s'. write_step put addr addr' d s = Some s' \<and> record_file put contents s' (ds @ [d])"
    using WriteRecord_frames(1)[of put contents put addr addr' d s] by (auto simp: record_file_def write_step_def)
qed

text \<open>The loop of a client that reads until the status is not OK.\<close>

fun read_records :: "nat \<Rightarrow> nat \<Rightarrow> (64 word \<Rightarrow> nat \<Rightarrow> status + byte list) \<Rightarrow> nat \<Rightarrow> nat \<Rightarrow> 64 word \<Rightarrow> (byte list list \<times> status) option" where
  "read_records 0 size_max rd addr addr' offset = None"
| "read_records (Suc n) size_max rd addr addr' offset = (case ReadRecord size_max False rd (\<lambda>_ z. Inl (OtherError [])) addr addr' offset () of
     Some (Inr (data, offset, z)) \<Rightarrow> map_option (\<lambda>(ds, e). (data # ds, e)) (read_records n size_max rd addr addr' offset)
   | Some (Inl e) \<Rightarrow> Some ([], e) | None \<Rightarrow> None)"

lemma read_records_from:
  assumes "holds rd (pre @ concat (map framed ds))" and "length (pre @ concat (map framed ds)) < 2 ^ 64" and "12 < size_max"
    and "\<And>d. d \<in> set ds \<Longrightarrow> length d < size_max - 4" and "length ds < n" and "unat offset = length pre"
  shows "\<exists>m. read_records n size_max rd addr addr' offset = Some (ds, OutOfRange m)"
  using assms
proof (induction ds arbitrary: pre n offset)
  case Nil
  then obtain k where n: "n = Suc k" by (cases n) auto
  have "\<exists>m. ReadRecord size_max False rd (\<lambda>_ z. Inl (OtherError [])) addr addr' offset () = Some (Inl (OutOfRange m))"
    by (rule ReadRecord_eof) (use Nil in auto)
  then show ?case by (auto simp: n)
next
  case (Cons d ds)
  obtain m where n: "n = Suc m" using Cons(6) by (cases n) auto
  let ?c = "pre @ concat (map framed (d # ds))"
  have r: "ReadRecord size_max False rd (\<lambda>_ z. Inl (OtherError [])) addr addr' offset () = Some (Inr (d, offset + of_nat (length (framed d)), ()))"
    by (rule ReadRecord_frame[OF Cons(2)]) (use Cons in auto)
  have "unat (of_nat (length (framed d)) :: 64 word) = length (framed d)" using Cons(3) by (simp add: unat_of_nat)
  then have "unat (offset + of_nat (length (framed d))) = length (pre @ framed d)"
    using Cons(3,7) by (subst unat_plus_if') simp
  then have "\<exists>e. read_records m size_max rd addr addr' (offset + of_nat (length (framed d))) = Some (ds, OutOfRange e)"
    using Cons(1)[of "pre @ framed d" m] Cons(2-6) by (simp add: n)
  then show ?case by (auto simp: n r)
qed

end
