(* ===== verification/Blocks.thy ===== *)
theory Blocks
  imports Coding Simulation
begin

text \<open>
  The blocks of a table: tensorflow/core/lib/io/block_builder.cc writes key-value pairs with the prefix a key
  shares with the one before left out, and block.cc reads them. A string is the list of its bytes, a
  pointer into a block an offset.

  An assertion of the builder that does not hold is \<open>None\<close>. In the reader \<open>None\<close> is a read outside of
  the block.
\<close>

subsection \<open>Writing\<close>

record BlockBuilder =
  buffer :: "byte list"
  restarts :: "32 word list"
  counter :: int
  finished :: bool
  last_key :: "byte list"

definition BlockBuilder_new :: "int \<Rightarrow> BlockBuilder option" where
  "BlockBuilder_new block_restart_interval = (if block_restart_interval < 1 then None
     else Some \<lparr>buffer = [], restarts = [0], counter = 0, finished = False, last_key = []\<rparr>)"

definition Reset :: "BlockBuilder \<Rightarrow> BlockBuilder" where
  "Reset b = b\<lparr>buffer := [], restarts := [0], counter := 0, finished := False, last_key := []\<rparr>"

definition CurrentSizeEstimate :: "BlockBuilder \<Rightarrow> nat" where
  "CurrentSizeEstimate b = length (buffer b) + length (restarts b) * 4 + 4"

definition Finish :: "BlockBuilder \<Rightarrow> byte list \<times> BlockBuilder" where
  "Finish b = (let buf = foldl PutFixed32 (buffer b) (restarts b);
       buf = PutFixed32 buf (of_nat (length (restarts b)))
     in (buf, b\<lparr>buffer := buf, finished := True\<rparr>))"

text \<open>The length of the common prefix, as the loop finds it.\<close>

fun common :: "byte list \<Rightarrow> byte list \<Rightarrow> nat" where
  "common (a # x) (b # y) = (if a = b then Suc (common x y) else 0)"
| "common _ _ = 0"

definition Add :: "int \<Rightarrow> byte list \<Rightarrow> byte list \<Rightarrow> BlockBuilder \<Rightarrow> BlockBuilder option" where
  "Add block_restart_interval key v b =
     (if finished b \<or> block_restart_interval < counter b \<or> \<not> (buffer b = [] \<or> bytes_less (last_key b) key) then None
      else let (shared, b) = (if counter b < block_restart_interval then (common (last_key b) key, b)
               else (0, b\<lparr>restarts := restarts b @ [of_nat (length (buffer b))], counter := 0\<rparr>));
             non_shared = length key - shared in
        case PutVarint32 (buffer b) (of_nat shared) of None \<Rightarrow> None
        | Some buf \<Rightarrow> (case PutVarint32 buf (of_nat non_shared) of None \<Rightarrow> None
        | Some buf \<Rightarrow> (case PutVarint32 buf (of_nat (length v)) of None \<Rightarrow> None
        | Some buf \<Rightarrow>
            let last = take shared (last_key b) @ drop shared key in
            if last \<noteq> key then None
            else Some (b\<lparr>buffer := buf @ drop shared key @ v, last_key := last, counter := counter b + 1\<rparr>))))"

subsection \<open>Reading\<close>

record Block =
  data_of :: "byte list"
  size_of :: nat
  restart_offset :: nat

definition NumRestarts :: "byte list \<Rightarrow> nat \<Rightarrow> 32 word option" where
  "NumRestarts d n = (if n < 4 then None else DecodeFixed32 (drop (n - 4) d))"

definition Block_new :: "byte list \<Rightarrow> Block option" where
  "Block_new contents = (let n_bytes = length contents in
     if n_bytes < 4 then Some \<lparr>data_of = contents, size_of = 0, restart_offset = 0\<rparr>
     else case NumRestarts contents n_bytes of None \<Rightarrow> None
     | Some n \<Rightarrow> let max_restarts_allowed = (n_bytes - 4) div 4 in
         if max_restarts_allowed < unat n then Some \<lparr>data_of = contents, size_of = 0, restart_offset = 0\<rparr>
         else Some \<lparr>data_of = contents, size_of = n_bytes, restart_offset = (n_bytes - unat (1 + n) * 4) mod 2 ^ 32\<rparr>)"

datatype entry = Bad | Entry "32 word" "32 word" "32 word" nat

text \<open>The three numbers of an entry and the offset of the key delta. The bytes from \<open>p\<close> to \<open>limit\<close>
  are the argument.\<close>

definition DecodeEntry :: "byte list \<Rightarrow> entry" where
  "DecodeEntry p = (if length p < 3 then Bad
     else let shared = ucast (p ! 0) :: 32 word; non_shared = ucast (p ! 1) :: 32 word; value_length = ucast (p ! 2) :: 32 word;
       check = (\<lambda>shared non_shared value_length rest.
         if of_nat (length rest) < non_shared + (value_length :: 32 word) then Bad
         else Entry shared non_shared value_length (length p - length rest))
     in if (shared OR non_shared OR value_length) < 128 then check shared non_shared value_length (drop 3 p)
        else case GetVarint32Ptr p of None \<Rightarrow> Bad
        | Some (shared, p) \<Rightarrow> (case GetVarint32Ptr p of None \<Rightarrow> Bad
        | Some (non_shared, p) \<Rightarrow> (case GetVarint32Ptr p of None \<Rightarrow> Bad
        | Some (value_length, p) \<Rightarrow> check shared non_shared value_length p)))"

datatype iter_status = OK | BadEntry | BadContents

record Iter =
  block_data :: "byte list"
  restarts_at :: nat
  num_restarts :: nat
  current :: nat
  restart_index :: nat
  iter_key :: "byte list"
  value_at :: nat
  value_len :: nat
  iter_status :: iter_status

definition Iter_new :: "byte list \<Rightarrow> nat \<Rightarrow> nat \<Rightarrow> Iter" where
  "Iter_new d r n = \<lparr>block_data = d, restarts_at = r, num_restarts = n, current = r, restart_index = n,
     iter_key = [], value_at = 0, value_len = 0, iter_status = OK\<rparr>"

definition Valid :: "Iter \<Rightarrow> bool" where
  "Valid it \<longleftrightarrow> current it < restarts_at it"

definition key_of :: "Iter \<Rightarrow> byte list option" where
  "key_of it = (if Valid it then Some (iter_key it) else None)"

definition iter_value :: "Iter \<Rightarrow> byte list option" where
  "iter_value it = (if Valid it then Some (take (value_len it) (drop (value_at it) (block_data it))) else None)"

definition NextEntryOffset :: "Iter \<Rightarrow> nat" where
  "NextEntryOffset it = (value_at it + value_len it) mod 2 ^ 32"

definition GetRestartPoint :: "Iter \<Rightarrow> nat \<Rightarrow> nat option" where
  "GetRestartPoint it index = (if num_restarts it \<le> index then None
     else map_option unat (DecodeFixed32 (drop (restarts_at it + index * 4) (block_data it))))"

definition SeekToRestartPoint :: "nat \<Rightarrow> Iter \<Rightarrow> Iter option" where
  "SeekToRestartPoint index it = (case GetRestartPoint it index of None \<Rightarrow> None
     | Some offset \<Rightarrow> Some (it\<lparr>iter_key := [], restart_index := index, value_at := offset, value_len := 0\<rparr>))"

text \<open>\<open>value_.clear()\<close> leaves a null pointer, which nothing reads: the iterator is no longer valid, and a seek sets
  the value anew.\<close>

definition CorruptionError :: "Iter \<Rightarrow> Iter" where
  "CorruptionError it = it\<lparr>current := restarts_at it, restart_index := num_restarts it, iter_status := BadEntry,
     iter_key := [], value_at := 0, value_len := 0\<rparr>"

text \<open>The loop at the end of \<open>ParseNextKey\<close>.\<close>

function advance_restart :: "Iter \<Rightarrow> Iter option" where
  "advance_restart it = (if restart_index it + 1 < num_restarts it
     then (case GetRestartPoint it (restart_index it + 1) of None \<Rightarrow> None
       | Some r \<Rightarrow> if r < current it then advance_restart (it\<lparr>restart_index := restart_index it + 1\<rparr>) else Some it)
     else Some it)"
  by pat_completeness auto
termination by (relation "measure (\<lambda>it. num_restarts it - restart_index it)") auto

declare advance_restart.simps [simp del]

definition ParseNextKey :: "Iter \<Rightarrow> (bool \<times> Iter) option" where
  "ParseNextKey it = (let it = it\<lparr>current := NextEntryOffset it\<rparr> in
     if restarts_at it \<le> current it
     then Some (False, it\<lparr>current := restarts_at it, restart_index := num_restarts it\<rparr>)
     else let p = take (restarts_at it - current it) (drop (current it) (block_data it)) in
       case DecodeEntry p of Bad \<Rightarrow> Some (False, CorruptionError it)
       | Entry shared non_shared value_length used \<Rightarrow>
           if length (iter_key it) < unat shared then Some (False, CorruptionError it)
           else let delta = current it + used in
             if length (block_data it) < delta + unat non_shared + unat value_length then None
             else map_option (Pair True) (advance_restart (it\<lparr>
                 iter_key := take (unat shared) (iter_key it) @ take (unat non_shared) (drop delta (block_data it)),
                 value_at := delta + unat non_shared, value_len := unat value_length\<rparr>)))"

definition SeekToFirst :: "Iter \<Rightarrow> Iter option" where
  "SeekToFirst it = (case SeekToRestartPoint 0 it of None \<Rightarrow> None | Some it \<Rightarrow> map_option snd (ParseNextKey it))"

definition Next :: "Iter \<Rightarrow> Iter option" where
  "Next it = (if Valid it then map_option snd (ParseNextKey it) else None)"

text \<open>An iterator with an error, one over nothing, or one over the block.\<close>

definition NewIterator :: "Block \<Rightarrow> (iter_status + Iter option) option" where
  "NewIterator b = (if size_of b < 4 then Some (Inl BadContents)
     else case NumRestarts (data_of b) (size_of b) of None \<Rightarrow> None
     | Some n \<Rightarrow> if n = 0 then Some (Inr None) else Some (Inr (Some (Iter_new (data_of b) (restart_offset b) (unat n)))))"

subsection \<open>The entries of a block\<close>

definition entry_bytes :: "nat \<Rightarrow> byte list \<Rightarrow> byte list \<Rightarrow> byte list" where
  "entry_bytes shared key v = EncodeVarint32 (of_nat shared) @ EncodeVarint32 (of_nat (length key - shared))
     @ EncodeVarint32 (of_nat (length v)) @ drop shared key @ v"

text \<open>What a buffer holds when the key before it is known.\<close>

fun holds_entries :: "byte list \<Rightarrow> (byte list \<times> byte list) list \<Rightarrow> byte list \<Rightarrow> bool" where
  "holds_entries k [] buf \<longleftrightarrow> buf = []"
| "holds_entries k ((key, v) # kvs) buf \<longleftrightarrow> (\<exists>shared rest. shared \<le> length k \<and> shared \<le> length key \<and> take shared k = take shared key
     \<and> buf = entry_bytes shared key v @ rest \<and> holds_entries key kvs rest)"

definition final_key :: "byte list \<Rightarrow> (byte list \<times> byte list) list \<Rightarrow> byte list" where
  "final_key k kvs = (if kvs = [] then k else fst (last kvs))"

lemma holds_entries_snoc:
  assumes "holds_entries k kvs buf" and "shared \<le> length (final_key k kvs)" and "shared \<le> length key" and "take shared (final_key k kvs) = take shared key"
  shows "holds_entries k (kvs @ [(key, v)]) (buf @ entry_bytes shared key v)"
  using assms
proof (induction k kvs buf rule: holds_entries.induct)
  case (2 k key' v' kvs buf)
  have "final_key k ((key', v') # kvs) = final_key key' kvs" by (simp add: final_key_def)
  then show ?case using 2 by fastforce
qed (auto simp: final_key_def)

lemma common_prefix: "common x y \<le> length x \<and> common x y \<le> length y \<and> take (common x y) x = take (common x y) y"
  by (induction x y rule: common.induct) auto

text \<open>The builder after some pairs: all of them are in the buffer.\<close>

definition built :: "(byte list \<times> byte list) list \<Rightarrow> BlockBuilder \<Rightarrow> bool" where
  "built kvs b \<longleftrightarrow> holds_entries [] kvs (buffer b) \<and> last_key b = final_key [] kvs \<and> restarts b \<noteq> [] \<and> hd (restarts b) = 0 \<and> \<not> finished b"

lemma new_built: "1 \<le> interval \<Longrightarrow> \<exists>b. BlockBuilder_new interval = Some b \<and> built [] b \<and> counter b = 0"
  and Reset_built: "built [] (Reset b) \<and> counter (Reset b) = 0"
  by (simp_all add: built_def BlockBuilder_new_def Reset_def final_key_def)

lemma Add_built:
  assumes "built kvs b" and "Add interval key v b = Some b'"
  shows "built (kvs @ [(key, v)]) b'"
proof -
  define shared where "shared = (if counter b < interval then common (last_key b) key else 0)"
  have sh: "shared \<le> length (last_key b)" "shared \<le> length key" "take shared (last_key b) = take shared key"
    using common_prefix[of "last_key b" key] by (auto simp: shared_def)
  then have lk: "take shared (last_key b) @ drop shared key = key" by simp
  have "buffer b' = buffer b @ entry_bytes shared key v \<and> last_key b' = key \<and> restarts b' \<noteq> [] \<and> hd (restarts b') = 0 \<and> \<not> finished b'"
    using assms lk unfolding Add_def built_def
    by (auto simp: PutVarint32_fits Let_def entry_bytes_def shared_def split: if_splits)
  then show ?thesis using assms(1) holds_entries_snoc[of "[]" kvs "buffer b" shared key v] sh
    by (simp add: built_def final_key_def)
qed

text \<open>The assertions of \<open>Add\<close> hold when the keys increase, and it fails in no other way.\<close>

lemma Add_succeeds:
  assumes "\<not> finished b" and "counter b \<le> interval" and "buffer b = [] \<or> bytes_less (last_key b) key"
  shows "\<exists>b'. Add interval key v b = Some b' \<and> counter b' \<le> max interval 1"
proof -
  have "take (common (last_key b) key) (last_key b) @ drop (common (last_key b) key) key = key"
    using common_prefix[of "last_key b" key] by simp
  then show ?thesis using assms by (auto simp: Add_def PutVarint32_fits Let_def)
qed


subsection \<open>Reading the entries back\<close>

text \<open>The fast path of \<open>DecodeEntry\<close> reads what the varint decoder reads.\<close>

definition decode_slow :: "byte list \<Rightarrow> entry" where
  "decode_slow p = (case GetVarint32Ptr p of None \<Rightarrow> Bad
     | Some (shared, q) \<Rightarrow> (case GetVarint32Ptr q of None \<Rightarrow> Bad
     | Some (non_shared, q) \<Rightarrow> (case GetVarint32Ptr q of None \<Rightarrow> Bad
     | Some (value_length, q) \<Rightarrow> if of_nat (length q) < non_shared + value_length then Bad
         else Entry shared non_shared value_length (length p - length q))))"

lemma below_128: "w < 128 \<Longrightarrow> w AND 128 = 0" for w :: "32 word"
  using bit_below[of w 7 7] and_128[of w] by (auto simp: word_less_nat_alt)

lemma short_varint: "(ucast b :: 32 word) < 128 \<Longrightarrow> GetVarint32Ptr (b # ps) = Some (ucast b, ps)"
  by (simp add: GetVarint32Ptr_def below_128)

lemma or_less_128: "x OR y < 128 \<longleftrightarrow> x < 128 \<and> y < 128" for x y :: "32 word"
proof
  assume "x OR y < 128"
  then show "x < 128 \<and> y < 128" using le_word_or2[of x y] le_word_or2[of y x] by (auto simp: or.commute intro: le_less_trans)
next
  assume "x < 128 \<and> y < 128"
  then have "take_bit 7 (unat x) = unat x" "take_bit 7 (unat y) = unat y"
    by (simp_all add: take_bit_nat_eq_self_iff word_less_nat_alt)
  then have "take_bit 7 (unat (x OR y)) = unat (x OR y)" by (simp add: unsigned_or_eq take_bit_or)
  then show "x OR y < 128" by (simp add: take_bit_nat_eq_self_iff word_less_nat_alt)
qed

lemma DecodeEntry_slow: "DecodeEntry p = (if length p < 3 then Bad else decode_slow p)"
proof (cases "length p < 3")
  case False
  then obtain a b c rest where p: "p = a # b # c # rest"
    by (metis (no_types) Suc_less_eq length_Cons list.exhaust list.size(3) numeral_3_eq_3 zero_less_Suc)
  show ?thesis
    by (simp add: p DecodeEntry_def decode_slow_def short_varint or_less_128 Let_def)
qed (simp add: DecodeEntry_def)

lemma DecodeEntry_entry_bytes:
  assumes "shared < 2 ^ 32" and "length key - shared + length v + length rest < 2 ^ 32"
  shows "DecodeEntry (entry_bytes shared key v @ rest)
    = Entry (of_nat shared) (of_nat (length key - shared)) (of_nat (length v))
        (length (entry_bytes shared key v) - (length key - shared) - length v)"
proof -
  have enc: "GetVarint32Ptr (EncodeVarint32 w @ q) = Some (w, q)" for w q
    using GetVarint32_EncodeVarint32 by (simp add: GetVarint32_def)
  have "EncodeVarint32 w \<noteq> []" for w by (simp add: EncodeVarint32_def)
  then have one: "Suc 0 \<le> length (EncodeVarint32 w)" for w by (simp add: Suc_le_eq)
  have "unat (of_nat (length key - shared) + of_nat (length v) :: 32 word) = length key - shared + length v"
    using assms(2) by (simp add: unat_of_nat flip: of_nat_add)
  then have "\<not> of_nat (length key - shared + length v + length rest) < (of_nat (length key - shared) + of_nat (length v) :: 32 word)"
    using assms(2) by (simp only: word_less_nat_alt unat_of_nat) simp
  then show ?thesis using one[of "of_nat shared"] one[of "of_nat (length key - shared)"] one[of "of_nat (length v)"]
    by (simp add: DecodeEntry_slow decode_slow_def entry_bytes_def enc add.assoc)
qed


text \<open>An iterator about to read the pairs \<open>kvs\<close>: the bytes before them are \<open>pre\<close>, the restart array lies behind them.\<close>

definition reads :: "(byte list \<times> byte list) list \<Rightarrow> Iter \<Rightarrow> bool" where
  "reads kvs it \<longleftrightarrow> (\<exists>pre buf tail. block_data it = pre @ buf @ tail \<and> restarts_at it = length pre + length buf
     \<and> holds_entries (iter_key it) kvs buf \<and> value_at it + value_len it = length pre \<and> length (iter_key it) \<le> length pre
     \<and> restarts_at it < 2 ^ 32 \<and> num_restarts it * 4 \<le> length tail \<and> iter_status it = OK)"

lemma GetRestartPoint_readable:
  assumes "restarts_at it + num_restarts it * 4 \<le> length (block_data it)" and "index < num_restarts it"
  shows "\<exists>r. GetRestartPoint it index = Some r"
  using assms by (auto simp: GetRestartPoint_def DecodeFixed32_def)

lemma advance_restart_only_index:
  assumes "restarts_at it + num_restarts it * 4 \<le> length (block_data it)"
  shows "\<exists>j. advance_restart it = Some (it\<lparr>restart_index := j\<rparr>)"
  using assms
proof (induction it rule: advance_restart.induct)
  case (1 it)
  show ?case
  proof (cases "restart_index it + 1 < num_restarts it")
    case True
    then obtain r where r: "GetRestartPoint it (restart_index it + 1) = Some r"
      using GetRestartPoint_readable 1(2) by blast
    show ?thesis
    proof (cases "r < current it")
      case True
      then show ?thesis using 1(1)[OF \<open>restart_index it + 1 < num_restarts it\<close> r True] 1(2) r \<open>restart_index it + 1 < num_restarts it\<close>
        by (auto simp: advance_restart.simps[of it])
    next
      case False
      then show ?thesis using r by (intro exI[of _ "restart_index it"]) (simp add: advance_restart.simps[of it])
    qed
  next
    case False
    then show ?thesis by (intro exI[of _ "restart_index it"]) (simp add: advance_restart.simps[of it])
  qed
qed

lemma entry_bytes_length: "length (entry_bytes shared key v) - (length key - shared) - length v + (length key - shared) + length v = length (entry_bytes shared key v)"
  by (simp add: entry_bytes_def)

lemma entry_bytes_split:
  assumes "n = length (entry_bytes shared key v) - (length key - shared) - length v"
  shows "drop n (entry_bytes shared key v @ rest) = drop shared key @ v @ rest"
  using assms by (simp add: entry_bytes_def)

lemma ParseNextKey_end:
  assumes "reads [] it"
  shows "\<exists>it'. ParseNextKey it = Some (False, it') \<and> \<not> Valid it' \<and> iter_status it' = OK"
  using assms by (auto simp: reads_def ParseNextKey_def NextEntryOffset_def Valid_def Let_def)

lemma ParseNextKey_reads:
  assumes "reads ((key, v) # kvs) it"
  shows "\<exists>it'. ParseNextKey it = Some (True, it') \<and> reads kvs it' \<and> key_of it' = Some key \<and> iter_value it' = Some v"
proof -
  obtain pre shared rest tail where data: "block_data it = pre @ (entry_bytes shared key v @ rest) @ tail"
    and at: "restarts_at it = length pre + length (entry_bytes shared key v @ rest)"
    and sh: "shared \<le> length (iter_key it)" "shared \<le> length key" "take shared (iter_key it) = take shared key"
    and held: "holds_entries key kvs rest" and from_here: "value_at it + value_len it = length pre" and short: "length (iter_key it) \<le> length pre"
    and small: "restarts_at it < 2 ^ 32" and room: "num_restarts it * 4 \<le> length tail" and ok: "iter_status it = OK"
    using assms by (auto simp: reads_def)
  define e where "e = entry_bytes shared key v"
  define h where "h = length e - (length key - shared) - length v"
  have e: "length e = h + (length key - shared) + length v" using entry_bytes_length[of shared key v] by (simp add: e_def h_def)
  have "e \<noteq> []" by (simp add: e_def entry_bytes_def EncodeVarint32_def)
  have small': "length pre + length e + length rest < 2 ^ 32" using small at by (simp add: e_def)
  then have u: "unat (of_nat shared :: 32 word) = shared" "unat (of_nat (length key - shared) :: 32 word) = length key - shared"
    "unat (of_nat (length v) :: 32 word) = length v" using sh short e by (simp_all add: unat_of_nat del: of_nat_diff)
  have next_at: "NextEntryOffset it = length pre" using from_here small' by (simp add: NextEntryOffset_def)
  have dec: "DecodeEntry (e @ rest) = Entry (of_nat shared) (of_nat (length key - shared)) (of_nat (length v)) h"
    unfolding e_def h_def using small' sh short e by (intro DecodeEntry_entry_bytes) (simp_all add: e_def)
  have body: "drop (length pre + h) (block_data it) = drop shared key @ v @ rest @ tail"
    using entry_bytes_split[of h shared key v "rest @ tail"] by (simp add: data h_def e_def)
  define it1 where "it1 = it\<lparr>current := length pre, iter_key := key, value_at := length pre + h + (length key - shared), value_len := length v\<rparr>"
  obtain j where j: "advance_restart it1 = Some (it1\<lparr>restart_index := j\<rparr>)"
    using advance_restart_only_index[of it1] room by (auto simp: it1_def at data)
  have inside: "\<not> restarts_at it \<le> length pre" using \<open>e \<noteq> []\<close> by (simp add: at e_def)
  have slice: "take (restarts_at it - length pre) (drop (length pre) (block_data it)) = e @ rest" by (simp add: at data e_def)
  have fits: "\<not> length (block_data it) < length pre + h + (length key - shared) + length v" by (simp add: data e_def[symmetric] e)
  have key: "take shared (iter_key it) @ take (length key - shared) (drop (length pre + h) (block_data it)) = key"
    by (simp add: sh body)
  have "ParseNextKey it = map_option (Pair True) (advance_restart it1)"
    using sh(1) inside fits unfolding ParseNextKey_def next_at by (simp add: slice dec u key it1_def Let_def del: of_nat_diff)
  then have p: "ParseNextKey it = Some (True, it1\<lparr>restart_index := j\<rparr>)" by (simp add: j)
  have "block_data it1 = (pre @ e) @ rest @ tail" by (simp add: it1_def data e_def)
  then have "reads kvs (it1\<lparr>restart_index := j\<rparr>)" unfolding reads_def
    using held at e short sh small room ok
    by - (rule exI[of _ "pre @ e"], rule exI[of _ rest], rule exI[of _ tail], auto simp: it1_def e_def)
  moreover have "iter_value (it1\<lparr>restart_index := j\<rparr>) = Some v"
  proof -
    have "drop (length pre + h + (length key - shared)) (block_data it) = drop (length key - shared) (drop (length pre + h) (block_data it))"
      by (simp add: ac_simps)
    then show ?thesis using \<open>e \<noteq> []\<close> by (simp add: iter_value_def it1_def Valid_def at e_def body)
  qed
  ultimately show ?thesis using p \<open>e \<noteq> []\<close> by (auto simp: key_of_def it1_def Valid_def at e_def)
qed


text \<open>An iterator that stands before a list of pairs.\<close>

definition item_of :: "Iter \<Rightarrow> (byte list \<times> byte list) option" where
  "item_of it = (case (key_of it, iter_value it) of (Some k, Some v) \<Rightarrow> Some (k, v) | _ \<Rightarrow> None)"

fun stands_before :: "(byte list \<times> byte list) list \<Rightarrow> Iter \<Rightarrow> bool" where
  "stands_before [] it \<longleftrightarrow> \<not> Valid it \<and> iter_status it = OK"
| "stands_before (kv # kvs) it \<longleftrightarrow> reads kvs it \<and> key_of it = Some (fst kv) \<and> iter_value it = Some (snd kv)"

lemma ParseNextKey_before:
  assumes "reads kvs it"
  shows "\<exists>it'. ParseNextKey it = Some (kvs \<noteq> [], it') \<and> stands_before kvs it'"
proof (cases kvs)
  case Nil
  then show ?thesis using ParseNextKey_end[of it] assms by auto
next
  case (Cons kv kvs')
  obtain k v where "kv = (k, v)" by fastforce
  then show ?thesis using ParseNextKey_reads[of k v kvs' it] assms Cons by auto
qed

lemma key_of_Valid: "key_of it = Some k \<Longrightarrow> Valid it" by (simp add: key_of_def split: if_splits)

interpretation block_iterator: iterator Valid item_of Next stands_before
proof
  fix kv kvs it
  assume b: "stands_before (kv # kvs) it"
  then have v: "Valid it" using key_of_Valid by auto
  moreover have "item_of it = Some kv" using b by (simp add: item_of_def)
  moreover obtain it' where "ParseNextKey it = Some (kvs \<noteq> [], it')" "stands_before kvs it'" using ParseNextKey_before b by auto
  ultimately show "Valid it \<and> item_of it = Some kv \<and> (\<exists>it'. Next it = Some it' \<and> stands_before kvs it')" by (simp add: Next_def)
qed simp

lemma PutFixed32_all: "foldl PutFixed32 buf ws = buf @ concat (map EncodeFixed32 ws)"
  by (induction ws arbitrary: buf) (simp_all add: PutFixed32_def)

lemma restart_array_length: "length (concat (map EncodeFixed32 ws)) = 4 * length ws"
  by (induction ws) simp_all

lemma Finish_bytes: "fst (Finish b) = buffer b @ concat (map EncodeFixed32 (restarts b)) @ EncodeFixed32 (of_nat (length (restarts b)))"
  by (simp add: Finish_def Let_def PutFixed32_all) (simp add: PutFixed32_def)

lemma CurrentSizeEstimate_exact: "CurrentSizeEstimate b = length (fst (Finish b))"
  by (simp add: Finish_bytes CurrentSizeEstimate_def restart_array_length)

text \<open>The reader opens what the builder finished.\<close>

lemma open_finished:
  assumes "restarts b \<noteq> []" and "length (fst (Finish b)) < 2 ^ 32"
  shows "Block_new (fst (Finish b)) = Some \<lparr>data_of = fst (Finish b), size_of = length (fst (Finish b)), restart_offset = length (buffer b)\<rparr>"
    and "NewIterator \<lparr>data_of = fst (Finish b), size_of = length (fst (Finish b)), restart_offset = length (buffer b)\<rparr>
      = Some (Inr (Some (Iter_new (fst (Finish b)) (length (buffer b)) (length (restarts b)))))"
proof -
  define n where "n = length (restarts b)"
  define d where "d = fst (Finish b)"
  have d: "d = (buffer b @ concat (map EncodeFixed32 (restarts b))) @ EncodeFixed32 (of_nat n)" by (simp add: d_def Finish_bytes n_def)
  have len: "length d = length (buffer b) + 4 * n + 4" by (simp add: d restart_array_length n_def)
  have small: "n < 2 ^ 32 - 1" "0 < n" using assms len by (simp_all add: d_def[symmetric] n_def)
  then have u: "unat (of_nat n :: 32 word) = n" "unat (1 + of_nat n :: 32 word) = n + 1"
    by (simp_all add: unat_of_nat flip: of_nat_Suc)
  have num: "NumRestarts d (length d) = Some (of_nat n)"
    using fixed32_roundtrip[of "of_nat n" "[]"] by (simp add: NumRestarts_def len) (simp add: d restart_array_length n_def)
  show "Block_new (fst (Finish b)) = Some \<lparr>data_of = fst (Finish b), size_of = length (fst (Finish b)), restart_offset = length (buffer b)\<rparr>"
    using num u assms(2) by (simp add: d_def[symmetric] Block_new_def Let_def len)
  have "(of_nat n :: 32 word) \<noteq> 0" using u small by (metis unat_0 less_irrefl)
  then show "NewIterator \<lparr>data_of = fst (Finish b), size_of = length (fst (Finish b)), restart_offset = length (buffer b)\<rparr>
      = Some (Inr (Some (Iter_new (fst (Finish b)) (length (buffer b)) (length (restarts b)))))"
    using num u assms(2) len by (simp add: d_def[symmetric] NewIterator_def n_def)
qed

lemma SeekToFirst_reads:
  assumes "built kvs b" and "length (fst (Finish b)) < 2 ^ 32" and "it = Iter_new (fst (Finish b)) (length (buffer b)) (length (restarts b))"
  shows "\<exists>it'. SeekToRestartPoint 0 it = Some it' \<and> reads kvs it'"
proof -
  obtain r rs where rs: "restarts b = r # rs" "r = 0" using assms(1) by (cases "restarts b") (auto simp: built_def)
  then have "GetRestartPoint it 0 = Some 0"
    using fixed32_roundtrip[of 0] by (simp add: assms(3) GetRestartPoint_def Iter_new_def Finish_bytes)
  then have s: "SeekToRestartPoint 0 it = Some (it\<lparr>iter_key := [], restart_index := 0, value_at := 0, value_len := 0\<rparr>)"
    by (simp add: SeekToRestartPoint_def)
  have "length (buffer b) < 2 ^ 32" using assms(2) by (simp add: Finish_bytes)
  then have "reads kvs (it\<lparr>iter_key := [], restart_index := 0, value_at := 0, value_len := 0\<rparr>)"
    using assms(1) unfolding reads_def
    by - (rule exI[of _ "[]"], rule exI[of _ "buffer b"], rule exI[of _ "drop (length (buffer b)) (fst (Finish b))"],
        simp add: assms(3) Iter_new_def built_def Finish_bytes restart_array_length)
  then show ?thesis using s by blast
qed

definition read_all :: "nat \<Rightarrow> byte list \<Rightarrow> (byte list \<times> byte list) list option" where
  "read_all n bytes = (case Block_new bytes of None \<Rightarrow> None | Some blk \<Rightarrow>
     (case NewIterator blk of Some (Inr (Some it)) \<Rightarrow> (case SeekToFirst it of None \<Rightarrow> None | Some it \<Rightarrow> collect Valid item_of Next n it)
      | Some (Inr None) \<Rightarrow> Some [] | _ \<Rightarrow> None))"

lemma read_all_built:
  assumes "built kvs b" and "length (fst (Finish b)) < 2 ^ 32" and "length kvs \<le> n"
  shows "read_all n (fst (Finish b)) = Some kvs"
proof -
  have r: "restarts b \<noteq> []" using assms(1) by (simp add: built_def)
  obtain it where "SeekToRestartPoint 0 (Iter_new (fst (Finish b)) (length (buffer b)) (length (restarts b))) = Some it" "reads kvs it"
    using SeekToFirst_reads[OF assms(1,2)] by blast
  then obtain it' where "SeekToFirst (Iter_new (fst (Finish b)) (length (buffer b)) (length (restarts b))) = Some it'" "stands_before kvs it'"
    using ParseNextKey_before[of kvs it] by (auto simp: SeekToFirst_def)
  then show ?thesis using block_iterator.collects assms(3) by (simp add: read_all_def open_finished[OF r assms(2)])
qed

text \<open>A builder stands for the pairs added, which have increasing keys.\<close>

definition add_pair :: "int \<Rightarrow> byte list \<times> byte list \<Rightarrow> BlockBuilder \<Rightarrow> BlockBuilder option" where
  "add_pair interval kv = Add interval (fst kv) (snd kv)"

definition builds :: "int \<Rightarrow> BlockBuilder \<Rightarrow> (byte list \<times> byte list) list \<Rightarrow> bool" where
  "builds interval b kvs \<longleftrightarrow> built kvs b \<and> counter b \<le> max interval 1"

definition later_key :: "int \<Rightarrow> byte list \<times> byte list \<Rightarrow> (byte list \<times> byte list) list \<Rightarrow> bool" where
  "later_key interval kv kvs \<longleftrightarrow> 1 \<le> interval \<and> (kvs = [] \<or> bytes_less (fst (last kvs)) (fst kv))"

interpretation builder: simulation "add_pair interval" "builds interval" "\<lambda>kv kvs. kvs @ [kv]" "later_key interval" for interval
proof
  fix b kvs kv
  assume b: "builds interval b kvs" and k: "later_key interval kv kvs"
  have "\<not> finished b" "counter b \<le> interval" using b k by (auto simp: builds_def built_def later_key_def)
  moreover have "buffer b = [] \<or> bytes_less (last_key b) (fst kv)"
    using b k by (auto simp: builds_def built_def later_key_def final_key_def)
  ultimately obtain b' where b': "Add interval (fst kv) (snd kv) b = Some b'" "counter b' \<le> max interval 1"
    using Add_succeeds by blast
  then show "\<exists>b'. add_pair interval kv b = Some b' \<and> builds interval b' (kvs @ [kv])"
    using Add_built[of kvs b interval "fst kv" "snd kv" b'] b by (simp add: add_pair_def builds_def)
qed

lemma sorted_allowed:
  assumes "1 \<le> interval" and "sorted_wrt bytes_less (map fst (pre @ kvs))"
  shows "allowed (later_key interval) (\<lambda>kv kvs. kvs @ [kv]) kvs pre"
  using assms(2)
proof (induction kvs arbitrary: pre)
  case (Cons kv kvs)
  have "pre = [] \<or> bytes_less (fst (last pre)) (fst kv)" using Cons(2) by (cases "pre = []") (auto simp: sorted_wrt_append)
  then show ?case using Cons(1)[of "pre @ [kv]"] Cons(2) assms(1) by (simp add: later_key_def)
qed simp

lemma fold_snoc: "fold (\<lambda>kv kvs. kvs @ [kv]) kvs pre = pre @ kvs"
  by (induction kvs arbitrary: pre) simp_all

text \<open>Pairs with increasing keys: they can all be added, and a reader of the finished block finds them again.\<close>

lemma block_roundtrip:
  assumes "1 \<le> interval" and "sorted_wrt bytes_less (map fst kvs)"
  shows "\<exists>b0 b. BlockBuilder_new interval = Some b0 \<and> run_ops (add_pair interval) kvs b0 = Some b
    \<and> (length (fst (Finish b)) < 2 ^ 32 \<longrightarrow> read_all (length kvs) (fst (Finish b)) = Some kvs)"
proof -
  obtain b0 where b0: "BlockBuilder_new interval = Some b0" "builds interval b0 []" using new_built[OF assms(1)] by (auto simp: builds_def)
  have "allowed (later_key interval) (\<lambda>kv kvs. kvs @ [kv]) kvs []" using sorted_allowed[OF assms(1), of "[]"] assms(2) by simp
  then obtain b where "run_ops (add_pair interval) kvs b0 = Some b" "builds interval b kvs"
    using builder.runs[OF b0(2), of kvs] by (auto simp: fold_snoc)
  then show ?thesis using b0(1) read_all_built[of kvs b "length kvs"] by (simp add: builds_def)
qed

end
