(* ===== verification/Format.thy ===== *)
theory Format
  imports Records Blocks
begin

text \<open>
  The frame around the blocks of a table file: tensorflow/core/lib/io/format.cc, and the function of
  table_builder.cc that writes a block. A file and the Snappy library are parameters, as in the
  theory of the record files.
\<close>

subsection \<open>Handles and the footer\<close>

record BlockHandle =
  offset_of :: "64 word"
  stored_size :: "64 word"

definition BlockHandle_new :: BlockHandle where
  "BlockHandle_new = \<lparr>offset_of = NOT 0, stored_size = NOT 0\<rparr>"

definition kMaxEncodedLength :: nat where "kMaxEncodedLength = 10 + 10"

definition kEncodedLength :: nat where "kEncodedLength = 2 * kMaxEncodedLength + 8"

definition kTableMagicNumber :: "64 word" where "kTableMagicNumber = 0xdb4775248b80fb57"

definition kBlockTrailerSize :: nat where "kBlockTrailerSize = 5"

definition EncodeHandleTo :: "BlockHandle \<Rightarrow> byte list \<Rightarrow> byte list option" where
  "EncodeHandleTo h dst = (if offset_of h = NOT 0 \<or> stored_size h = NOT 0 then None
     else case PutVarint64 dst (offset_of h) of None \<Rightarrow> None | Some dst \<Rightarrow> PutVarint64 dst (stored_size h))"

text \<open>The handle as it is left, the rest of the input and the status. A decoder that fails leaves the number and the input alone.\<close>

definition DecodeHandleFrom :: "byte list \<Rightarrow> BlockHandle \<Rightarrow> status option \<times> BlockHandle \<times> byte list" where
  "DecodeHandleFrom input h = (case GetVarint64 input of None \<Rightarrow> (Some (DataLoss ''bad block handle''), h, input)
     | Some (v, input) \<Rightarrow> (case GetVarint64 input of None \<Rightarrow> (Some (DataLoss ''bad block handle''), h\<lparr>offset_of := v\<rparr>, input)
       | Some (w, input) \<Rightarrow> (None, h\<lparr>offset_of := v, stored_size := w\<rparr>, input)))"

record Footer =
  metaindex_handle :: BlockHandle
  index_handle :: BlockHandle

text \<open>\<open>string::resize\<close>.\<close>

definition resize :: "nat \<Rightarrow> byte list \<Rightarrow> byte list" where
  "resize n s = take n s @ replicate (n - length s) 0"

definition EncodeFooterTo :: "Footer \<Rightarrow> byte list \<Rightarrow> byte list option" where
  "EncodeFooterTo f dst = (let original_size = length dst in
     case EncodeHandleTo (metaindex_handle f) dst of None \<Rightarrow> None
     | Some dst \<Rightarrow> (case EncodeHandleTo (index_handle f) dst of None \<Rightarrow> None
       | Some dst \<Rightarrow> let dst = resize (2 * kMaxEncodedLength) dst;
             dst = PutFixed32 dst (ucast (kTableMagicNumber AND 0xffffffff));
             dst = PutFixed32 dst (ucast (drop_bit 32 kTableMagicNumber))
           in if length dst = original_size + kEncodedLength then Some dst else None))"

text \<open>\<open>None\<close> is a read behind the input.\<close>

definition DecodeFooterFrom :: "byte list \<Rightarrow> Footer \<Rightarrow> (status option \<times> Footer \<times> byte list) option" where
  "DecodeFooterFrom input f = (let magic_ptr = drop (kEncodedLength - 8) input in
     case DecodeFixed32 magic_ptr of None \<Rightarrow> None
     | Some magic_lo \<Rightarrow> (case DecodeFixed32 (drop 4 magic_ptr) of None \<Rightarrow> None
       | Some magic_hi \<Rightarrow> let magic = push_bit 32 (ucast magic_hi) OR ucast magic_lo :: 64 word in
           if magic \<noteq> kTableMagicNumber then Some (Some (DataLoss ''not an sstable (bad magic number)''), f, input)
           else let (s, h, rest) = DecodeHandleFrom input (metaindex_handle f); f = f\<lparr>metaindex_handle := h\<rparr> in
             (case s of Some e \<Rightarrow> Some (s, f, rest)
              | None \<Rightarrow> let (s, h, rest) = DecodeHandleFrom rest (index_handle f); f = f\<lparr>index_handle := h\<rparr> in
                  (case s of Some e \<Rightarrow> Some (s, f, rest) | None \<Rightarrow> Some (None, f, drop kEncodedLength input)))))"

subsection \<open>A block in the file\<close>

datatype CompressionType = kNoCompression | kSnappyCompression

definition type_byte :: "CompressionType \<Rightarrow> byte" where
  "type_byte t = (case t of kNoCompression \<Rightarrow> 0 | kSnappyCompression \<Rightarrow> 1)"

record BlockContents =
  block_text :: "byte list"
  cachable :: bool
  heap_allocated :: bool

text \<open>The read tells whether it used the buffer it was given. The addresses matter only to the steps of the checksum.\<close>

definition ReadBlock :: "(64 word \<Rightarrow> nat \<Rightarrow> status + byte list \<times> bool) \<Rightarrow> (byte list \<Rightarrow> nat option) \<Rightarrow> (byte list \<Rightarrow> byte list option)
    \<Rightarrow> nat \<Rightarrow> BlockHandle \<Rightarrow> (status + BlockContents) option" where
  "ReadBlock rd snappy_length snappy addr h = (let n = unat (stored_size h); len = (n + kBlockTrailerSize) mod 2 ^ 64 in
     case rd (offset_of h) len of Inl e \<Rightarrow> Some (Inl e)
     | Inr (bytes, in_buf) \<Rightarrow>
         if length bytes \<noteq> len then Some (Inl (DataLoss ''truncated block read''))
         else (case DecodeFixed32 (drop (n + 1) bytes) of None \<Rightarrow> None
         | Some masked \<Rightarrow> (case Value addr (take (n + 1) bytes) of None \<Rightarrow> None
         | Some actual \<Rightarrow>
             if actual \<noteq> Unmask masked then Some (Inl (DataLoss ''block checksum mismatch''))
             else let t = bytes ! n; stored = take n bytes in
               if t = type_byte kNoCompression
               then Some (Inr \<lparr>block_text = stored, cachable = in_buf, heap_allocated = in_buf\<rparr>)
               else if t = type_byte kSnappyCompression
               then (case snappy_length stored of None \<Rightarrow> Some (Inl (DataLoss ''corrupted compressed block contents''))
                 | Some ulength \<Rightarrow> (case snappy stored of None \<Rightarrow> Some (Inl (DataLoss ''corrupted compressed block contents''))
                   | Some text \<Rightarrow> if length text \<noteq> ulength then None
                       else Some (Inr \<lparr>block_text = text, cachable = True, heap_allocated = True\<rparr>)))
               else Some (Inl (DataLoss ''bad block type'')))))"

text \<open>The handle, and the bytes that are appended to the file.\<close>

definition raw_trailer :: "nat \<Rightarrow> nat \<Rightarrow> byte list \<Rightarrow> CompressionType \<Rightarrow> byte list option" where
  "raw_trailer addr addr' block_contents t = (case Value addr block_contents of None \<Rightarrow> None
     | Some crc \<Rightarrow> map_option (\<lambda>crc. type_byte t # EncodeFixed32 (Mask crc)) (Extend crc addr' [type_byte t]))"

subsection \<open>What was written is read\<close>

lemma DecodeHandleFrom_EncodeHandleTo:
  assumes "EncodeHandleTo h dst = Some out"
  shows "\<exists>enc. out = dst @ enc \<and> length enc \<le> kMaxEncodedLength \<and> (\<forall>rest h0. DecodeHandleFrom (enc @ rest) h0 = (None, h, rest))"
proof -
  have "out = dst @ EncodeVarint64 (offset_of h) @ EncodeVarint64 (stored_size h)"
    using assms by (simp add: EncodeHandleTo_def PutVarint64_fits split: if_splits)
  moreover have "length (EncodeVarint64 w) \<le> 10" for w using PutVarint64_fits[of "[]" w] by (simp add: PutVarint64_def split: if_splits)
  then have "length (EncodeVarint64 (offset_of h) @ EncodeVarint64 (stored_size h)) \<le> kMaxEncodedLength"
    by (simp add: kMaxEncodedLength_def add_mono[of _ 10 _ 10, simplified])
  moreover have "DecodeHandleFrom ((EncodeVarint64 (offset_of h) @ EncodeVarint64 (stored_size h)) @ rest) h0 = (None, h, rest)" for rest h0
    by (simp add: DecodeHandleFrom_def GetVarint64_EncodeVarint64)
  ultimately show ?thesis by blast
qed

lemma EncodeHandleTo_set: "offset_of h \<noteq> NOT 0 \<Longrightarrow> stored_size h \<noteq> NOT 0 \<Longrightarrow> \<exists>out. EncodeHandleTo h dst = Some out"
  by (simp add: EncodeHandleTo_def PutVarint64_fits)

lemma low_half: "w AND 0xffffffff = take_bit 32 w" for w :: "64 word"
proof -
  have "(0xffffffff :: 64 word) = mask 32" by (simp add: mask_eq_exp_minus_1)
  then show ?thesis by (simp add: take_bit_eq_mask)
qed

lemma magic_halves:
  fixes w :: "64 word" and lo hi :: "32 word"
  assumes "lo = ucast (w AND 0xffffffff)" and "hi = ucast (drop_bit 32 w)"
  shows "push_bit 32 (ucast hi) OR ucast lo = w"
  unfolding assms low_half by (rule bit_word_eqI) (auto simp: bit_simps)

lemma footer_roundtrip:
  assumes "offset_of (metaindex_handle f) \<noteq> NOT 0" "stored_size (metaindex_handle f) \<noteq> NOT 0"
    and "offset_of (index_handle f) \<noteq> NOT 0" "stored_size (index_handle f) \<noteq> NOT 0"
  shows "\<exists>out. EncodeFooterTo f [] = Some out \<and> length out = kEncodedLength \<and> (\<forall>f0 rest. DecodeFooterFrom (out @ rest) f0 = Some (None, f, rest))"
proof -
  obtain a where a: "EncodeHandleTo (metaindex_handle f) [] = Some a" using EncodeHandleTo_set assms(1,2) by blast
  obtain b where b: "EncodeHandleTo (index_handle f) a = Some b" using EncodeHandleTo_set assms(3,4) by blast
  obtain ea where ea: "a = ea" "length ea \<le> kMaxEncodedLength" "\<And>rest h0. DecodeHandleFrom (ea @ rest) h0 = (None, metaindex_handle f, rest)"
    using DecodeHandleFrom_EncodeHandleTo[OF a] by auto
  obtain eb where eb: "b = a @ eb" "length eb \<le> kMaxEncodedLength" "\<And>rest h0. DecodeHandleFrom (eb @ rest) h0 = (None, index_handle f, rest)"
    using DecodeHandleFrom_EncodeHandleTo[OF b] by auto
  define pad where "pad = replicate (2 * kMaxEncodedLength - length b) (0 :: byte)"
  have lb: "length b \<le> 2 * kMaxEncodedLength" using ea eb by simp
  define lo where "lo = EncodeFixed32 (ucast (kTableMagicNumber AND 0xffffffff))"
  define hi where "hi = EncodeFixed32 (ucast (drop_bit 32 kTableMagicNumber))"
  have out: "EncodeFooterTo f [] = Some (b @ pad @ lo @ hi)"
    using lb by (simp add: EncodeFooterTo_def a b Let_def resize_def PutFixed32_def pad_def lo_def hi_def kEncodedLength_def)
  have front: "length (b @ pad) = kEncodedLength - 8" using lb by (simp add: pad_def kEncodedLength_def)
  have len: "length (b @ pad @ lo @ hi) = kEncodedLength" using lb by (simp add: pad_def lo_def hi_def kEncodedLength_def)
  have dec: "DecodeFooterFrom ((b @ pad @ lo @ hi) @ rest) f0 = Some (None, f, rest)" for f0 rest
  proof -
    have m: "drop (kEncodedLength - 8) ((b @ pad @ lo @ hi) @ rest) = lo @ hi @ rest" unfolding front[symmetric] by simp
    have d4: "drop 4 (lo @ hi @ rest) = hi @ rest" by (simp add: lo_def)
    have "b @ pad @ lo @ hi @ rest = ea @ eb @ pad @ lo @ hi @ rest" using ea eb by simp
    then have dm: "DecodeHandleFrom (b @ pad @ lo @ hi @ rest) h0 = (None, metaindex_handle f, eb @ pad @ lo @ hi @ rest)" for h0
      by (simp add: ea(3))
    have m': "DecodeFixed32 (lo @ hi @ rest) = Some (ucast (kTableMagicNumber AND 0xffffffff))"
      "DecodeFixed32 (hi @ rest) = Some (ucast (drop_bit 32 kTableMagicNumber))" by (simp_all add: lo_def hi_def fixed32_roundtrip)
    have "drop kEncodedLength ((b @ pad @ lo @ hi) @ rest) = rest" unfolding len[symmetric] by simp
    then show ?thesis unfolding DecodeFooterFrom_def Let_def m d4 m' option.case magic_halves[OF refl refl] by (simp add: dm eb(3))
  qed
  show ?thesis using out len dec by blast
qed

text \<open>A footer appended to anything else than an empty string fails the assertion at its end.\<close>

lemma EncodeFooterTo_needs_empty: "EncodeFooterTo f dst = Some out \<Longrightarrow> dst = []"
  by (auto simp: min_def EncodeFooterTo_def resize_def PutFixed32_def kEncodedLength_def Let_def split: option.splits if_splits)

end
