(* ===== verification/BlockSeek.thy ===== *)
theory BlockSeek
  imports Blocks
begin

text \<open>
  Seeking in a block (tensorflow/core/lib/io/block.cc): a binary search over the restart points, then a
  linear search. The restart points of a builder are places where a run of entries starts that needs no
  key before it.
\<close>

subsection \<open>The code\<close>

text \<open>The loop over the restart points. \<open>Inl\<close> is an iterator with an error. The numbers are \<open>uint32\<close>.\<close>

partial_function (option) search_restarts :: "byte list \<Rightarrow> nat \<Rightarrow> nat \<Rightarrow> Iter \<Rightarrow> (Iter + nat) option" where
  "search_restarts target left right it = (if left < right
     then let mid = (left + right + 1) mod 2 ^ 32 div 2 in
       case GetRestartPoint it mid of None \<Rightarrow> None
       | Some region_offset \<Rightarrow> (case DecodeEntry (take (restarts_at it - region_offset) (drop region_offset (block_data it))) of
           Bad \<Rightarrow> Some (Inl (CorruptionError it))
         | Entry shared non_shared value_length used \<Rightarrow>
             if shared \<noteq> 0 then Some (Inl (CorruptionError it))
             else if length (block_data it) < region_offset + used + unat non_shared then None
             else let mid_key = take (unat non_shared) (drop (region_offset + used) (block_data it)) in
               if bytes_less mid_key target then search_restarts target mid right it
               else search_restarts target left ((mid + 2 ^ 32 - 1) mod 2 ^ 32) it)
     else Some (Inr left))"

partial_function (option) skip_to :: "byte list \<Rightarrow> Iter \<Rightarrow> Iter option" where
  "skip_to target it = (case ParseNextKey it of None \<Rightarrow> None
     | Some (found, it) \<Rightarrow> if \<not> found \<or> \<not> bytes_less (iter_key it) target then Some it else skip_to target it)"

definition Seek :: "byte list \<Rightarrow> Iter \<Rightarrow> Iter option" where
  "Seek target it = (case search_restarts target 0 (num_restarts it - 1) it of None \<Rightarrow> None
     | Some (Inl it) \<Rightarrow> Some it
     | Some (Inr left) \<Rightarrow> (case SeekToRestartPoint left it of None \<Rightarrow> None | Some it \<Rightarrow> skip_to target it))"

subsection \<open>Restart points\<close>

text \<open>The buffer cut before pair \<open>n\<close>, at offset \<open>r\<close>.\<close>

definition cut :: "(byte list \<times> byte list) list \<Rightarrow> byte list \<Rightarrow> nat \<Rightarrow> nat \<Rightarrow> bool" where
  "cut kvs buf n r \<longleftrightarrow> (\<exists>p q. buf = p @ q \<and> length p = r \<and> holds_entries [] (drop n kvs) q)"

definition restart_list :: "(byte list \<times> byte list) list \<Rightarrow> byte list \<Rightarrow> nat list \<Rightarrow> nat list \<Rightarrow> bool" where
  "restart_list kvs buf ns rs \<longleftrightarrow> length rs = length ns \<and> (\<forall>i < length ns. cut kvs buf (ns ! i) (rs ! i))
     \<and> sorted_wrt (<) ns \<and> ns \<noteq> [] \<and> hd ns = 0 \<and> (if kvs = [] then ns = [0] else \<forall>n \<in> set ns. n < length kvs)"

definition restarts_ok :: "(byte list \<times> byte list) list \<Rightarrow> BlockBuilder \<Rightarrow> bool" where
  "restarts_ok kvs b \<longleftrightarrow> (\<exists>ns rs. restart_list kvs (buffer b) ns rs \<and> restarts b = map of_nat rs)"

lemma cut_snoc:
  assumes "cut kvs buf n r" and "n < length kvs" and "shared \<le> length (final_key [] kvs)" and "shared \<le> length key"
    and "take shared (final_key [] kvs) = take shared key"
  shows "cut (kvs @ [(key, v)]) (buf @ entry_bytes shared key v) n r"
proof -
  obtain p q where pq: "buf = p @ q" "length p = r" "holds_entries [] (drop n kvs) q" using assms(1) by (auto simp: cut_def)
  have "final_key [] (drop n kvs) = final_key [] kvs" using assms(2) by (auto simp: final_key_def)
  then have "holds_entries [] (drop n kvs @ [(key, v)]) (q @ entry_bytes shared key v)"
    using holds_entries_snoc[OF pq(3), of shared key v] assms(3-5) by simp
  then show ?thesis using pq assms(2) unfolding cut_def by (intro exI[of _ p] exI[of _ "q @ entry_bytes shared key v"]) simp
qed

lemma holds_one: "holds_entries [] [(key, v)] (entry_bytes 0 key v)"
  by simp

lemma cut_new: "cut (kvs @ [(key, v)]) (buf @ entry_bytes 0 key v) (length kvs) (length buf)"
  unfolding cut_def using holds_one by (intro exI[of _ buf] exI[of _ "entry_bytes 0 key v"]) simp

lemma new_restarts: "BlockBuilder_new interval = Some b \<Longrightarrow> restarts_ok [] b" and Reset_restarts: "restarts_ok [] (Reset b)"
proof -
  have "restarts_ok [] b" if "restarts b = [0]" "buffer b = []" for b :: BlockBuilder
    unfolding restarts_ok_def using that by - (rule exI[of _ "[0]"], rule exI[of _ "[0]"], simp add: restart_list_def cut_def)
  then show "BlockBuilder_new interval = Some b \<Longrightarrow> restarts_ok [] b" and "restarts_ok [] (Reset b)"
    by (auto simp: BlockBuilder_new_def Reset_def split: if_splits)
qed

lemma Add_parts:
  assumes "built kvs b" and "Add interval key v b = Some b'"
  defines "shared \<equiv> if counter b < interval then common (last_key b) key else 0"
  shows "buffer b' = buffer b @ entry_bytes shared key v"
    and "restarts b' = restarts b @ (if counter b < interval then [] else [of_nat (length (buffer b))])"
    and "shared \<le> length (final_key [] kvs)" "shared \<le> length key" "take shared (final_key [] kvs) = take shared key"
proof -
  have sh: "shared \<le> length (last_key b)" "shared \<le> length key" "take shared (last_key b) = take shared key"
    using common_prefix[of "last_key b" key] by (auto simp: shared_def)
  then have lk: "take shared (last_key b) @ drop shared key = key" by simp
  show "buffer b' = buffer b @ entry_bytes shared key v"
    "restarts b' = restarts b @ (if counter b < interval then [] else [of_nat (length (buffer b))])"
    using assms(2) lk unfolding Add_def by (auto simp: PutVarint32_fits Let_def entry_bytes_def shared_def split: if_splits)
  show "shared \<le> length (final_key [] kvs)" "shared \<le> length key" "take shared (final_key [] kvs) = take shared key"
    using sh assms(1) by (simp_all add: built_def)
qed

lemma Add_restarts:
  assumes b: "built kvs b" and r: "restarts_ok kvs b" and a: "Add interval key v b = Some b'" and c: "kvs = [] \<longrightarrow> counter b < interval"
  shows "restarts_ok (kvs @ [(key, v)]) b'"
proof -
  define shared where "shared = (if counter b < interval then common (last_key b) key else 0)"
  note parts = Add_parts[OF b a, folded shared_def]
  obtain ns rs where l: "restart_list kvs (buffer b) ns rs" and m: "restarts b = map of_nat rs" using r unfolding restarts_ok_def by blast
  then have ns: "length rs = length ns" "\<And>i. i < length ns \<Longrightarrow> cut kvs (buffer b) (ns ! i) (rs ! i)" "sorted_wrt (<) ns" "ns \<noteq> []" "hd ns = 0"
    "if kvs = [] then ns = [0] else \<forall>n \<in> set ns. n < length kvs" by (simp_all add: restart_list_def)
  have old: "cut (kvs @ [(key, v)]) (buffer b') (ns ! i) (rs ! i)" if i: "i < length ns" for i
  proof (cases "kvs = []")
    case True
    then have "shared = 0" "buffer b = []" "ns = [0]" "rs ! i = 0"
      using parts(3) ns(6) b ns(2)[OF i] by (auto simp: final_key_def built_def cut_def)
    then show ?thesis using cut_new[of "[]" key v "[]"] parts(1) i True by simp
  next
    case False
    then show ?thesis using cut_snoc[OF ns(2)[OF i] _ parts(3-5)] ns(6) i parts(1) by simp
  qed
  have bound: "\<forall>n \<in> set ns. n < Suc (length kvs)" using ns(6) by (auto split: if_splits)
  show ?thesis
  proof (cases "counter b < interval")
    case True
    have same: "restarts b' = restarts b" using True parts(2) by simp
    have "restart_list (kvs @ [(key, v)]) (buffer b') ns rs" using ns(1,3,4,5) old bound by (simp add: restart_list_def)
    then show ?thesis using same m unfolding restarts_ok_def by metis
  next
    case False
    then have k: "kvs \<noteq> []" "shared = 0" using c by (auto simp: shared_def)
    have ext: "restarts b' = restarts b @ [of_nat (length (buffer b))]" using False parts(2) by simp
    have new: "cut (kvs @ [(key, v)]) (buffer b') (length kvs) (length (buffer b))" using cut_new parts(1) k(2) by simp
    have cuts: "cut (kvs @ [(key, v)]) (buffer b') ((ns @ [length kvs]) ! i) ((rs @ [length (buffer b)]) ! i)" if "i < Suc (length ns)" for i
      using that old[of i] new ns(1) by (cases "i = length ns") (simp_all add: nth_append)
    have less: "\<forall>n \<in> set ns. n < length kvs" using ns(6) k(1) by simp
    have "restart_list (kvs @ [(key, v)]) (buffer b') (ns @ [length kvs]) (rs @ [length (buffer b)])"
      using ns(1,3,4,5) cuts bound less by (simp add: restart_list_def sorted_wrt_append)
    moreover have "restarts b' = map of_nat (rs @ [length (buffer b)])" using ext m by simp
    ultimately show ?thesis unfolding restarts_ok_def by blast
  qed
qed

subsection \<open>Iterators over a finished block\<close>

definition over_block :: "(byte list \<times> byte list) list \<Rightarrow> nat list \<Rightarrow> Iter \<Rightarrow> bool" where
  "over_block kvs ns it \<longleftrightarrow> (\<exists>buf rs tail. block_data it = buf @ tail \<and> restarts_at it = length buf \<and> length buf < 2 ^ 32
     \<and> restart_list kvs buf ns rs \<and> num_restarts it = length ns \<and> length ns < 2 ^ 30 \<and> num_restarts it * 4 \<le> length tail
     \<and> (\<forall>i < length ns. GetRestartPoint it i = Some (rs ! i)) \<and> iter_status it = OK)"

lemma restart_array_nth:
  assumes "i < length ws"
  shows "DecodeFixed32 (drop (4 * i) (concat (map EncodeFixed32 ws) @ rest)) = Some (ws ! i)"
  using assms
proof (induction ws arbitrary: i)
  case (Cons w ws)
  show ?case
  proof (cases i)
    case 0
    then show ?thesis using fixed32_roundtrip by simp
  next
    case (Suc j)
    then show ?thesis using Cons by simp
  qed
qed simp

lemma finished_over_block:
  assumes "restarts_ok kvs b" and small: "length (fst (Finish b)) < 2 ^ 32"
  shows "\<exists>ns. over_block kvs ns (Iter_new (fst (Finish b)) (length (buffer b)) (length (restarts b)))"
proof -
  obtain ns rs where l: "restart_list kvs (buffer b) ns rs" and m: "restarts b = map of_nat rs" using assms(1) unfolding restarts_ok_def by blast
  let ?it = "Iter_new (fst (Finish b)) (length (buffer b)) (length (restarts b))"
  have len: "length rs = length ns" using l by (simp add: restart_list_def)
  have fin: "length (fst (Finish b)) = length (buffer b) + 4 * length ns + 4" by (simp add: Finish_bytes restart_array_length) (simp add: m len)
  have "GetRestartPoint ?it i = Some (rs ! i)" if i: "i < length ns" for i
  proof -
    have "cut kvs (buffer b) (ns ! i) (rs ! i)" using l i by (simp add: restart_list_def)
    then have "rs ! i \<le> length (buffer b)" by (auto simp: cut_def)
    then have "unat (of_nat (rs ! i) :: 32 word) = rs ! i" using small fin by (simp add: unat_of_nat)
    moreover have "DecodeFixed32 (drop (length (buffer b) + i * 4) (fst (Finish b))) = Some (of_nat (rs ! i))"
      using restart_array_nth[of i "restarts b" "EncodeFixed32 (of_nat (length (restarts b)))"] i len
      by (simp add: Finish_bytes m mult.commute)
    ultimately show ?thesis using i len by (simp add: GetRestartPoint_def Iter_new_def m)
  qed
  then show ?thesis using l small fin len unfolding over_block_def
    by (intro exI[of _ ns], intro exI[of _ "buffer b"], intro exI[of _ rs] exI[of _ "drop (length (buffer b)) (fst (Finish b))"])
      (simp add: Iter_new_def m Finish_bytes restart_array_length)
qed

lemma restart_reads:
  assumes "over_block kvs ns it" and "i < length ns"
  shows "\<exists>it'. SeekToRestartPoint i it = Some it' \<and> reads (drop (ns ! i) kvs) it'"
proof -
  obtain buf rs tail where o: "block_data it = buf @ tail" "restarts_at it = length buf" "length buf < 2 ^ 32"
    "cut kvs buf (ns ! i) (rs ! i)" "num_restarts it * 4 \<le> length tail" "GetRestartPoint it i = Some (rs ! i)" "iter_status it = OK"
    using assms unfolding over_block_def restart_list_def by blast
  obtain p q where pq: "buf = p @ q" "length p = rs ! i" "holds_entries [] (drop (ns ! i) kvs) q" using o(4) by (auto simp: cut_def)
  let ?it = "it\<lparr>iter_key := [], restart_index := i, value_at := rs ! i, value_len := 0\<rparr>"
  have "reads (drop (ns ! i) kvs) ?it" unfolding reads_def
    by (rule exI[of _ p], rule exI[of _ q], rule exI[of _ tail]) (use o pq in simp)
  then show ?thesis using o(6) by (auto simp: SeekToRestartPoint_def)
qed

text \<open>The key that the binary search reads at a restart point.\<close>

lemma restart_key:
  assumes "over_block kvs ns it" and "i < length ns" and n: "ns ! i < length kvs"
  shows "\<exists>r non_shared vl used. GetRestartPoint it i = Some r
    \<and> DecodeEntry (take (restarts_at it - r) (drop r (block_data it))) = Entry 0 non_shared vl used
    \<and> r + used + unat non_shared \<le> length (block_data it) \<and> take (unat non_shared) (drop (r + used) (block_data it)) = fst (kvs ! (ns ! i))"
proof -
  obtain buf rs tail where o: "block_data it = buf @ tail" "restarts_at it = length buf" "length buf < 2 ^ 32"
    "cut kvs buf (ns ! i) (rs ! i)" "GetRestartPoint it i = Some (rs ! i)"
    using assms unfolding over_block_def restart_list_def by blast
  obtain p q where pq: "buf = p @ q" "length p = rs ! i" "holds_entries [] (drop (ns ! i) kvs) q" using o(4) by (auto simp: cut_def)
  obtain key v where kv: "kvs ! (ns ! i) = (key, v)" by fastforce
  then have "drop (ns ! i) kvs = (key, v) # drop (Suc (ns ! i)) kvs" using n by (metis Cons_nth_drop_Suc)
  then obtain rest where rest: "q = entry_bytes 0 key v @ rest" using pq(3) by auto
  define h where "h = length (entry_bytes 0 key v) - (length key - 0) - length v"
  have e: "length (entry_bytes 0 key v) = h + length key + length v" using entry_bytes_length[of 0 key v] by (simp add: h_def)
  have small: "length key + length v + length rest < 2 ^ 32" using o(3) pq(1) rest e by simp
  have slice: "take (restarts_at it - rs ! i) (drop (rs ! i) (block_data it)) = entry_bytes 0 key v @ rest"
    using o(1,2) pq(1,2) rest by simp
  have "DecodeEntry (entry_bytes 0 key v @ rest) = Entry 0 (of_nat (length key)) (of_nat (length v)) h"
    using DecodeEntry_entry_bytes[of 0 key v rest] small by (simp add: h_def)
  moreover have "unat (of_nat (length key) :: 32 word) = length key" using small by (simp add: unat_of_nat)
  moreover have "drop (rs ! i + h) (block_data it) = key @ v @ rest @ tail"
    using entry_bytes_split[of h 0 key v "rest @ tail"] o(1) pq(1,2) rest by (simp add: h_def flip: drop_drop)
  moreover have "rs ! i + h + length key \<le> length (block_data it)" using o(1) pq(1,2) rest e by simp
  ultimately show ?thesis using o(5) slice kv by simp
qed

subsection \<open>What the search finds\<close>

lemma search_restarts_left:
  assumes o: "over_block kvs ns it" and "left \<le> right" and "right < length ns" and "left = 0 \<or> bytes_less (fst (kvs ! (ns ! left))) target"
  shows "\<exists>l. search_restarts target left right it = Some (Inr l) \<and> l < length ns \<and> (l = 0 \<or> bytes_less (fst (kvs ! (ns ! l))) target)"
  using assms(2-4)
proof (induction "right - left" arbitrary: left right rule: less_induct)
  case less
  show ?case
  proof (cases "left < right")
    case True
    have big: "length ns < 2 ^ 30" "restart_list kvs (block_data it) ns rs \<longrightarrow> True" for rs using o by (auto simp: over_block_def)
    define mid where "mid = (left + right + 1) div 2"
    have m: "left < mid" "mid \<le> right" "left + right + 1 < 2 ^ 32" "mid < 2 ^ 32" using True less(3) big by (auto simp: mid_def)
    then have "(left + right + 1) mod 2 ^ 32 div 2 = mid" by (simp add: mid_def)
    moreover have down: "mid + 2 ^ 32 - 1 = (mid - 1) + 2 ^ 32" using m(1) by simp
    have "(mid + 2 ^ 32 - 1) mod 2 ^ 32 = mid - 1" unfolding down mod_add_self2 using m(4) by (intro mod_less) simp
    ultimately have mid: "left < mid" "mid \<le> right" "(left + right + 1) mod 2 ^ 32 div 2 = mid" "(mid + 2 ^ 32 - 1) mod 2 ^ 32 = mid - 1"
      using m by blast+
    have "ns ! mid < length kvs"
    proof -
      have "1 < length ns" "if kvs = [] then ns = [0] else \<forall>n \<in> set ns. n < length kvs"
        using True less(3) o unfolding over_block_def restart_list_def by auto
      then show ?thesis using mid(2) less(3) by (auto split: if_splits)
    qed
    then obtain r non_shared vl used where e: "GetRestartPoint it mid = Some r"
      "DecodeEntry (take (restarts_at it - r) (drop r (block_data it))) = Entry 0 non_shared vl used"
      "\<not> length (block_data it) < r + used + unat non_shared" "take (unat non_shared) (drop (r + used) (block_data it)) = fst (kvs ! (ns ! mid))"
      using restart_key[OF o, of mid] mid(2) less(3) by (auto simp: not_less)
    have s: "search_restarts target left right it = (if bytes_less (fst (kvs ! (ns ! mid))) target
        then search_restarts target mid right it else search_restarts target left (mid - 1) it)"
      by (subst search_restarts.simps, unfold Let_def mid(3), unfold mid(4)) (simp add: True e)
    show ?thesis
    proof (cases "bytes_less (fst (kvs ! (ns ! mid))) target")
      case True
      then show ?thesis unfolding s using less(1)[of right mid] mid(1,2) less(3) \<open>left < right\<close> by simp
    next
      case False
      then show ?thesis unfolding s using less(1)[of "mid - 1" left] mid(1,2) less(3,4) by simp
    qed
  next
    case False
    then show ?thesis using less(2-4) by (subst search_restarts.simps) auto
  qed
qed

lemma skip_to_finds:
  assumes "reads kvs it"
  shows "\<exists>it'. skip_to target it = Some it' \<and> stands_before (dropWhile (\<lambda>kv. bytes_less (fst kv) target) kvs) it'"
  using assms
proof (induction kvs arbitrary: it)
  case Nil
  then obtain it' where "ParseNextKey it = Some (False, it')" "stands_before [] it'" using ParseNextKey_before[of "[]" it] by auto
  then show ?case by (subst skip_to.simps) simp
next
  case (Cons kv kvs)
  then obtain it' where p: "ParseNextKey it = Some (True, it')" "stands_before (kv # kvs) it'" using ParseNextKey_before[of "kv # kvs" it] by auto
  then have k: "iter_key it' = fst kv" "reads kvs it'" by (auto simp: key_of_def split: if_splits)
  show ?case
  proof (cases "bytes_less (fst kv) target")
    case True
    then show ?thesis using Cons(1)[OF k(2)] p k(1) by (subst skip_to.simps) simp
  next
    case False
    then show ?thesis using p k(1) by (subst skip_to.simps) simp
  qed
qed

lemma dropWhile_from: "(\<And>x. x \<in> set (take n xs) \<Longrightarrow> P x) \<Longrightarrow> dropWhile P (drop n xs) = dropWhile P xs"
  by (metis append_take_drop_id dropWhile_append2)

text \<open>\<open>Seek\<close> stops before the first pair whose key is not below the target.\<close>

lemma Seek_finds:
  assumes o: "over_block kvs ns it" and s: "sorted_wrt bytes_less (map fst kvs)"
  shows "\<exists>it'. Seek target it = Some it' \<and> stands_before (dropWhile (\<lambda>kv. bytes_less (fst kv) target) kvs) it'"
proof -
  have n: "ns \<noteq> []" "hd ns = 0" "num_restarts it = length ns" "if kvs = [] then ns = [0] else \<forall>n \<in> set ns. n < length kvs"
    using o unfolding over_block_def restart_list_def by auto
  then obtain l where l: "search_restarts target 0 (num_restarts it - 1) it = Some (Inr l)" "l < length ns"
    "l = 0 \<or> bytes_less (fst (kvs ! (ns ! l))) target"
    using search_restarts_left[OF o, of 0 "num_restarts it - 1" target] by auto
  obtain it1 where it1: "SeekToRestartPoint l it = Some it1" "reads (drop (ns ! l) kvs) it1" using restart_reads[OF o l(2)] by blast
  obtain it2 where it2: "skip_to target it1 = Some it2" "stands_before (dropWhile (\<lambda>kv. bytes_less (fst kv) target) (drop (ns ! l) kvs)) it2"
    using skip_to_finds[OF it1(2)] by blast
  have "bytes_less (fst kv) target" if kv: "kv \<in> set (take (ns ! l) kvs)" for kv
  proof -
    obtain j where j: "j < ns ! l" "j < length kvs" "kv = kvs ! j" using kv by (auto simp: in_set_conv_nth)
    have "ns ! 0 = 0" using n by (simp add: hd_conv_nth)
    then have "l \<noteq> 0" using j(1) by (cases l) auto
    moreover have "ns ! l < length kvs" using j(2) n(4) l(2) by (auto split: if_splits)
    then have "bytes_less (fst kv) (fst (kvs ! (ns ! l)))" using s j by (auto simp: sorted_wrt_iff_nth_less)
    ultimately show ?thesis using l(3) bytes_less_trans by blast
  qed
  then have "dropWhile (\<lambda>kv. bytes_less (fst kv) target) (drop (ns ! l) kvs) = dropWhile (\<lambda>kv. bytes_less (fst kv) target) kvs"
    by (rule dropWhile_from)
  then show ?thesis using l(1) it1(1) it2 by (simp add: Seek_def)
qed

subsection \<open>A finished block can be searched\<close>

definition seekable :: "int \<Rightarrow> BlockBuilder \<Rightarrow> (byte list \<times> byte list) list \<Rightarrow> bool" where
  "seekable interval b kvs \<longleftrightarrow> builds interval b kvs \<and> restarts_ok kvs b \<and> (kvs = [] \<longrightarrow> counter b = 0)"

lemma seekable_new: "1 \<le> interval \<Longrightarrow> \<exists>b. BlockBuilder_new interval = Some b \<and> seekable interval b []"
  using new_built[of interval] new_restarts[of interval] by (auto simp: seekable_def builds_def)

lemma seekable_Reset: "seekable interval (Reset b) []"
  using Reset_built[of b] Reset_restarts[of b] by (simp add: seekable_def builds_def)

interpretation seekable_builder: simulation "add_pair interval" "seekable interval" "\<lambda>kv kvs. kvs @ [kv]" "later_key interval" for interval
proof
  fix b kvs kv
  assume b: "seekable interval b kvs" and k: "later_key interval kv kvs"
  then obtain b' where b': "add_pair interval kv b = Some b'" "builds interval b' (kvs @ [kv])"
    using builder.simulates[of interval b kvs kv] by (auto simp: seekable_def)
  have "kvs = [] \<longrightarrow> counter b < interval" using b k by (auto simp: seekable_def later_key_def)
  then have "restarts_ok (kvs @ [kv]) b'"
    using Add_restarts[of kvs b interval "fst kv" "snd kv" b'] b b'(1) by (simp add: seekable_def builds_def add_pair_def)
  then show "\<exists>b'. add_pair interval kv b = Some b' \<and> seekable interval b' (kvs @ [kv])" using b' by (auto simp: seekable_def)
qed

lemma opened_over_block:
  assumes "seekable interval b kvs" and "length (fst (Finish b)) < 2 ^ 32"
  shows "\<exists>blk ns it. Block_new (fst (Finish b)) = Some blk \<and> NewIterator blk = Some (Inr (Some it)) \<and> over_block kvs ns it"
proof -
  have "restarts b \<noteq> []" using assms(1) by (simp add: seekable_def builds_def built_def)
  then show ?thesis using open_finished[OF _ assms(2)] finished_over_block[OF _ assms(2)] assms(1) by (auto simp: seekable_def)
qed

lemma SeekToFirst_before:
  assumes "over_block kvs ns it"
  shows "\<exists>it'. SeekToFirst it = Some it' \<and> stands_before kvs it'"
proof -
  have n: "ns \<noteq> []" "hd ns = 0" using assms unfolding over_block_def restart_list_def by auto
  then have "0 < length ns" "ns ! 0 = 0" by (simp_all add: hd_conv_nth)
  then obtain it1 where "SeekToRestartPoint 0 it = Some it1" "reads kvs it1" using restart_reads[OF assms, of 0] by auto
  then show ?thesis using ParseNextKey_before[of kvs it1] by (auto simp: SeekToFirst_def)
qed

end
