(* ===== verification/TableBuilder.thy ===== *)
theory TableBuilder
  imports Format BlockSeek
begin

text \<open>
  Writing a table file: tensorflow/core/lib/io/table_builder.cc. The data blocks come first, each with its
  type and checksum, then an empty meta-index block, the index block with one entry for each data block, and
  the footer.

  The file, the Snappy library and the addresses of the strings are parameters. \<open>None\<close> is an assertion
  that does not hold.
\<close>

subsection \<open>Separators\<close>

definition FindShortestSeparator :: "byte list \<Rightarrow> byte list \<Rightarrow> byte list option" where
  "FindShortestSeparator start limit = (let min_length = min (length start) (length limit); diff_index = common start limit in
     if min_length \<le> diff_index then Some start
     else let diff_byte = start ! diff_index in
       if diff_byte < 0xff \<and> unat diff_byte + 1 < unat (limit ! diff_index)
       then let start = take (diff_index + 1) (start[diff_index := diff_byte + 1]) in
         if bytes_less start limit then Some start else None
       else Some start)"

fun FindShortSuccessor :: "byte list \<Rightarrow> byte list" where
  "FindShortSuccessor [] = []"
| "FindShortSuccessor (b # bs) = (if b \<noteq> 0xff then [b + 1] else b # FindShortSuccessor bs)"

subsection \<open>The state\<close>

record Options =
  block_size :: nat
  block_restart_interval :: int
  compression_type :: CompressionType

record 'f environment =
  append_to :: "byte list \<Rightarrow> 'f \<Rightarrow> status option \<times> 'f"
  flush_file :: "'f \<Rightarrow> status option \<times> 'f"
  snappy_compress :: "byte list \<Rightarrow> byte list option"
  address :: "byte list \<Rightarrow> nat"

record 'f Rep =
  options :: Options
  index_block_options :: Options
  out_file :: 'f
  out_offset :: "64 word"
  table_status :: "status option"
  data_block :: BlockBuilder
  index_block :: BlockBuilder
  table_last_key :: "byte list"
  num_entries :: int
  closed :: bool
  pending_index_entry :: bool
  pending_handle :: BlockHandle
  compressed_output :: "byte list"

definition TableBuilder_new :: "Options \<Rightarrow> 'f \<Rightarrow> 'f Rep option" where
  "TableBuilder_new opt f = (case BlockBuilder_new (block_restart_interval opt) of None \<Rightarrow> None
     | Some b \<Rightarrow> Some \<lparr>options = opt, index_block_options = opt\<lparr>block_restart_interval := 1\<rparr>, out_file = f, out_offset = 0,
         table_status = None, data_block = b, index_block = b, table_last_key = [], num_entries = 0, closed = False,
         pending_index_entry = False, pending_handle = BlockHandle_new, compressed_output = []\<rparr>)"

subsection \<open>Writing a block\<close>

definition WriteRawBlock :: "'f environment \<Rightarrow> byte list \<Rightarrow> CompressionType \<Rightarrow> 'f Rep \<Rightarrow> (BlockHandle \<times> 'f Rep) option" where
  "WriteRawBlock env block_contents t r =
     (let h = \<lparr>offset_of = out_offset r, stored_size = of_nat (length block_contents)\<rparr>;
          (s, f) = append_to env block_contents (out_file r); r = r\<lparr>out_file := f, table_status := s\<rparr>
      in if s \<noteq> None then Some (h, r)
         else case raw_trailer (address env block_contents) (address env [type_byte t]) block_contents t of None \<Rightarrow> None
         | Some trailer \<Rightarrow> let (s, f) = append_to env trailer (out_file r); r = r\<lparr>out_file := f, table_status := s\<rparr> in
             Some (h, if s = None then r\<lparr>out_offset := out_offset r + of_nat (length block_contents + kBlockTrailerSize)\<rparr> else r))"

definition compressed :: "'f environment \<Rightarrow> CompressionType \<Rightarrow> byte list \<Rightarrow> byte list \<times> CompressionType" where
  "compressed env t raw = (case t of kNoCompression \<Rightarrow> (raw, t)
     | kSnappyCompression \<Rightarrow> (case snappy_compress env raw of
         Some c \<Rightarrow> if length c < length raw - length raw div 8 then (c, t) else (raw, kNoCompression)
       | None \<Rightarrow> (raw, kNoCompression)))"

definition WriteBlock :: "'f environment \<Rightarrow> BlockBuilder \<Rightarrow> 'f Rep \<Rightarrow> (BlockHandle \<times> BlockBuilder \<times> 'f Rep) option" where
  "WriteBlock env b r = (if table_status r \<noteq> None then None
     else let (raw, b) = Finish b; (block_contents, t) = compressed env (compression_type (options r)) raw in
       case WriteRawBlock env block_contents t r of None \<Rightarrow> None
       | Some (h, r) \<Rightarrow> Some (h, Reset b, r\<lparr>compressed_output := []\<rparr>))"

definition Flush :: "'f environment \<Rightarrow> 'f Rep \<Rightarrow> 'f Rep option" where
  "Flush env r = (if closed r then None else if table_status r \<noteq> None then Some r
     else if buffer (data_block r) = [] then Some r
     else if pending_index_entry r then None
     else case WriteBlock env (data_block r) r of None \<Rightarrow> None
     | Some (h, b, r) \<Rightarrow> let r = r\<lparr>pending_handle := h, data_block := b\<rparr> in
         if table_status r \<noteq> None then Some r
         else let (s, f) = flush_file env (out_file r) in Some (r\<lparr>pending_index_entry := True, table_status := s, out_file := f\<rparr>))"

text \<open>The entry of the index block for the block last written, under the key \<open>k\<close>.\<close>

definition add_index_entry :: "byte list \<Rightarrow> 'f Rep \<Rightarrow> 'f Rep option" where
  "add_index_entry k r = (case EncodeHandleTo (pending_handle r) [] of None \<Rightarrow> None
     | Some handle_encoding \<Rightarrow> (case Add (block_restart_interval (index_block_options r)) k handle_encoding (index_block r) of None \<Rightarrow> None
       | Some b \<Rightarrow> Some (r\<lparr>table_last_key := k, index_block := b, pending_index_entry := False\<rparr>)))"

definition TableAdd :: "'f environment \<Rightarrow> byte list \<Rightarrow> byte list \<Rightarrow> 'f Rep \<Rightarrow> 'f Rep option" where
  "TableAdd env key v r = (if closed r then None else if table_status r \<noteq> None then Some r
     else case (if 0 < num_entries r
         then if \<not> bytes_less (table_last_key r) key then None
           else let kOverlyLargeBlockRatio = 2 in
             if kOverlyLargeBlockRatio * block_size (options r) mod 2 ^ 64 \<le> length key + length v then Flush env r else Some r
         else Some r) of None \<Rightarrow> None
     | Some r \<Rightarrow> (case (if pending_index_entry r
           then if buffer (data_block r) \<noteq> [] then None
             else case FindShortestSeparator (table_last_key r) key of None \<Rightarrow> None | Some k \<Rightarrow> add_index_entry k r
           else Some r) of None \<Rightarrow> None
       | Some r \<Rightarrow> let r = r\<lparr>table_last_key := key, num_entries := num_entries r + 1\<rparr> in
           (case Add (block_restart_interval (options r)) key v (data_block r) of None \<Rightarrow> None
           | Some b \<Rightarrow> let r = r\<lparr>data_block := b\<rparr> in
               if block_size (options r) \<le> CurrentSizeEstimate b then Flush env r else Some r)))"

text \<open>The two handles keep their default when a block before them was not written.\<close>

definition TableFinish :: "'f environment \<Rightarrow> 'f Rep \<Rightarrow> (status option \<times> 'f Rep) option" where
  "TableFinish env r = (case Flush env r of None \<Rightarrow> None | Some r \<Rightarrow> if closed r then None
     else let r = r\<lparr>closed := True\<rparr> in
       case (if table_status r = None
         then case BlockBuilder_new (block_restart_interval (options r)) of None \<Rightarrow> None
           | Some b \<Rightarrow> map_option (\<lambda>(h, b, r). (h, r)) (WriteBlock env b r)
         else Some (BlockHandle_new, r)) of None \<Rightarrow> None
       | Some (metaindex_block_handle, r) \<Rightarrow>
       (case (if table_status r = None
         then case (if pending_index_entry r then add_index_entry (FindShortSuccessor (table_last_key r)) r else Some r) of None \<Rightarrow> None
           | Some r \<Rightarrow> map_option (\<lambda>(h, b, r). (h, r\<lparr>index_block := b\<rparr>)) (WriteBlock env (index_block r) r)
         else Some (BlockHandle_new, r)) of None \<Rightarrow> None
       | Some (index_block_handle, r) \<Rightarrow>
         if table_status r = None
         then case EncodeFooterTo \<lparr>metaindex_handle = metaindex_block_handle, index_handle = index_block_handle\<rparr> [] of None \<Rightarrow> None
           | Some footer_encoding \<Rightarrow> let (s, f) = append_to env footer_encoding (out_file r);
                 r = r\<lparr>out_file := f, table_status := s\<rparr>; r = (if s = None then r\<lparr>out_offset := out_offset r + of_nat (length footer_encoding)\<rparr> else r)
               in Some (s, r)
         else Some (table_status r, r)))"

definition Abandon :: "'f Rep \<Rightarrow> 'f Rep option" where
  "Abandon r = (if closed r then None else Some (r\<lparr>closed := True\<rparr>))"

definition NumEntries :: "'f Rep \<Rightarrow> 64 word" where
  "NumEntries r = of_int (num_entries r)"

definition FileSize :: "'f Rep \<Rightarrow> 64 word" where
  "FileSize r = out_offset r"

subsection \<open>Separators separate\<close>

lemma common_split: "x = take (common x y) x @ drop (common x y) x \<and> y = take (common x y) x @ drop (common x y) y
    \<and> (common x y < length x \<longrightarrow> common x y < length y \<longrightarrow> x ! common x y \<noteq> y ! common x y)"
  by (induction x y rule: common.induct) auto

lemma FindShortestSeparator_between:
  assumes "bytes_less start limit"
  shows "\<exists>s. FindShortestSeparator start limit = Some s \<and> (s = start \<or> bytes_less start s) \<and> bytes_less s limit"
proof -
  define d where "d = common start limit"
  show ?thesis
  proof (cases "d < min (length start) (length limit) \<and> start ! d < 0xff \<and> unat (start ! d) + 1 < unat (limit ! d)")
    case True
    have s: "start = take d start @ start ! d # drop (Suc d) start" "limit = take d start @ limit ! d # drop (Suc d) limit"
      using common_split[of start limit] True by (auto simp: d_def Cons_nth_drop_Suc)
    have t: "take (d + 1) (start[d := start ! d + 1]) = take d start @ [start ! d + 1]"
      using True by (simp add: take_Suc_conv_app_nth)
    have u: "unat (start ! d + 1) = unat (start ! d) + 1" using True by (simp add: unat_plus_if' word_less_nat_alt)
    then have "start ! d + 1 < limit ! d" "start ! d < start ! d + 1" using True by (simp_all add: word_less_nat_alt)
    then have "bytes_less start (take d start @ [start ! d + 1])" "bytes_less (take d start @ [start ! d + 1]) limit"
      using s by (metis bytes_less_prefix bytes_less_simps(3))+
    moreover have "(min (length start) (length limit) \<le> d) = False" using True by (simp add: min_le_iff_disj not_le)
    then have "FindShortestSeparator start limit = (if bytes_less (take d start @ [start ! d + 1]) limit then Some (take d start @ [start ! d + 1]) else None)"
      unfolding FindShortestSeparator_def Let_def d_def[symmetric] using True t by (simp only: if_False if_True simp_thms)
    ultimately show ?thesis by simp
  next
    case False
    then have "FindShortestSeparator start limit = Some start" unfolding FindShortestSeparator_def Let_def d_def[symmetric] by auto
    then show ?thesis using assms by simp
  qed
qed

lemma FindShortSuccessor_above: "FindShortSuccessor k = k \<or> bytes_less k (FindShortSuccessor k)"
proof (induction k)
  case (Cons b k)
  have "b < b + 1" if "b \<noteq> 0xff"
  proof -
    have "unat b \<noteq> unat (0xff :: byte)" using that by (simp only: word_unat_eq_iff not_False_eq_True)
    then show ?thesis using unat_less[of b] by (simp add: word_less_nat_alt unat_plus_if')
  qed
  then show ?case using Cons by auto
qed simp

subsection \<open>A block that is stored in a file\<close>

definition trailer :: "byte list \<Rightarrow> CompressionType \<Rightarrow> byte list" where
  "trailer c t = type_byte t # EncodeFixed32 (Mask (crc_bits 0 (c @ [type_byte t])))"

lemma raw_trailer_bytes: "raw_trailer addr addr' c t = Some (trailer c t)"
  by (simp add: raw_trailer_def Value_bits Extend_divides crc_bits_append trailer_def)

lemma trailer_length [simp]: "length (trailer c t) = kBlockTrailerSize"
  by (simp add: trailer_def kBlockTrailerSize_def)

text \<open>What the code relies on: appends succeed, and Snappy gives back what it compressed.\<close>

definition good_file :: "'f environment \<Rightarrow> ('f \<Rightarrow> byte list) \<Rightarrow> bool" where
  "good_file env contents \<longleftrightarrow> (\<forall>bs f. \<exists>f'. append_to env bs f = (None, f') \<and> contents f' = contents f @ bs)
     \<and> (\<forall>f. \<exists>f'. flush_file env f = (None, f') \<and> contents f' = contents f)"

lemma good_append: "good_file env contents \<Longrightarrow> \<exists>f'. append_to env bs f = (None, f') \<and> contents f' = contents f @ bs"
  and good_flush: "good_file env contents \<Longrightarrow> \<exists>f'. flush_file env f = (None, f') \<and> contents f' = contents f"
  unfolding good_file_def by blast+

definition good_snappy :: "'f environment \<Rightarrow> (byte list \<Rightarrow> nat option) \<Rightarrow> (byte list \<Rightarrow> byte list option) \<Rightarrow> bool" where
  "good_snappy env snappy_length snappy \<longleftrightarrow> (\<forall>x y. snappy_compress env x = Some y \<longrightarrow> snappy_length y = Some (length x) \<and> snappy y = Some x)"

text \<open>The text of a block under a handle, in the form its type says.\<close>

definition unpacks :: "(byte list \<Rightarrow> nat option) \<Rightarrow> (byte list \<Rightarrow> byte list option) \<Rightarrow> CompressionType \<Rightarrow> byte list \<Rightarrow> byte list \<Rightarrow> bool" where
  "unpacks snappy_length snappy t c text = (case t of kNoCompression \<Rightarrow> c = text
     | kSnappyCompression \<Rightarrow> snappy_length c = Some (length text) \<and> snappy c = Some text)"

definition stored_block :: "(byte list \<Rightarrow> nat option) \<Rightarrow> (byte list \<Rightarrow> byte list option) \<Rightarrow> byte list \<Rightarrow> BlockHandle \<Rightarrow> byte list \<Rightarrow> bool" where
  "stored_block sl sn cs h text \<longleftrightarrow> (\<exists>pre c t post. cs = pre @ c @ trailer c t @ post \<and> unat (offset_of h) = length pre
     \<and> unat (stored_size h) = length c \<and> length pre + length c + 5 < 2 ^ 63 \<and> unpacks sl sn t c text)"

lemma stored_block_append: "stored_block sl sn cs h text \<Longrightarrow> stored_block sl sn (cs @ added) h text"
  by (fastforce simp: stored_block_def)

definition handle_bytes :: "BlockHandle \<Rightarrow> byte list" where
  "handle_bytes h = EncodeVarint64 (offset_of h) @ EncodeVarint64 (stored_size h)"

lemma stored_handle_set: "stored_block sl sn cs h text \<Longrightarrow> offset_of h \<noteq> NOT 0 \<and> stored_size h \<noteq> NOT 0"
proof -
  assume "stored_block sl sn cs h text"
  then have "unat (offset_of h) < 2 ^ 63" "unat (stored_size h) < 2 ^ 63" by (auto simp: stored_block_def)
  moreover have "unat (NOT 0 :: 64 word) = 2 ^ 64 - 1" by (simp add: unsigned_not_eq unsigned_minus_1_eq_mask mask_eq_exp_minus_1)
  ultimately show ?thesis by auto
qed

lemma stored_handle_bytes: "stored_block sl sn cs h text \<Longrightarrow> EncodeHandleTo h [] = Some (handle_bytes h)"
  using stored_handle_set[of sl sn cs h "text"] by (simp add: EncodeHandleTo_def PutVarint64_fits handle_bytes_def)

lemma DecodeHandle_bytes: "DecodeHandleFrom (handle_bytes h @ rest) h0 = (None, h, rest)"
  by (simp add: DecodeHandleFrom_def handle_bytes_def GetVarint64_EncodeVarint64)

lemma handle_bytes_length: "length (handle_bytes h) \<le> 20"
proof -
  have "length (EncodeVarint64 w) \<le> 10" for w using VarintLength_le_10[of w] by (simp add: VarintLength_length)
  from this[of "offset_of h"] this[of "stored_size h"] show ?thesis by (simp add: handle_bytes_def)
qed

text \<open>
  A file that is read, as platform/file_system.h documents it: the bytes of the contents, in the buffer of the caller or elsewhere, or
  \<open>OutOfRange\<close> when there are fewer than asked for.
\<close>

definition reads_file :: "(64 word \<Rightarrow> nat \<Rightarrow> status + byte list \<times> bool) \<Rightarrow> byte list \<Rightarrow> bool" where
  "reads_file rd cs \<longleftrightarrow> (\<forall>offset n. if n \<le> length cs - unat offset then \<exists>in_buf. rd offset n = Inr (take n (drop (unat offset) cs), in_buf)
     else \<exists>m. rd offset n = Inl (OutOfRange m))"

lemma reads_fileD: "reads_file rd cs \<Longrightarrow> n \<le> length cs - unat offset \<Longrightarrow> \<exists>in_buf. rd offset n = Inr (take n (drop (unat offset) cs), in_buf)"
  unfolding reads_file_def by presburger

lemma ReadBlock_stored:
  assumes "reads_file rd cs" and "stored_block sl sn cs h text"
  shows "\<exists>bc. ReadBlock rd sl sn addr h = Some (Inr bc) \<and> block_text bc = text"
proof -
  obtain pre c t post where c: "cs = pre @ c @ trailer c t @ post" "unat (offset_of h) = length pre" "unat (stored_size h) = length c"
    "length pre + length c + 5 < 2 ^ 63" "unpacks sl sn t c text" using assms(2) by (auto simp: stored_block_def)
  have len: "(length c + kBlockTrailerSize) mod 2 ^ 64 = length c + 5" using c(4) by (simp add: kBlockTrailerSize_def)
  have "take (length c + 5) (drop (length pre) cs) = c @ trailer c t" by (simp add: c(1) kBlockTrailerSize_def)
  then obtain in_buf where rd: "rd (offset_of h) (length c + 5) = Inr (c @ trailer c t, in_buf)"
    using reads_fileD[OF assms(1), of "length c + 5" "offset_of h"] c(1,2) by (auto simp: kBlockTrailerSize_def)
  have "length (c @ trailer c t) = length c + 5" by (simp add: kBlockTrailerSize_def)
  then show ?thesis using c(5) fixed32_roundtrip[of _ "[]"] unfolding ReadBlock_def c(3) Let_def len rd sum.case prod.case
    by (cases t) (simp_all add: trailer_def Value_bits Unmask_Mask unpacks_def type_byte_def)
qed

subsection \<open>Writing one\<close>

lemma WriteRawBlock_good:
  assumes "good_file env contents" and "out_offset r = of_nat (length (contents (out_file r)))" and "table_status r = None"
  shows "\<exists>f. WriteRawBlock env c t r = Some (\<lparr>offset_of = out_offset r, stored_size = of_nat (length c)\<rparr>,
      r\<lparr>out_file := f, out_offset := of_nat (length (contents f))\<rparr>) \<and> contents f = contents (out_file r) @ c @ trailer c t"
proof -
  obtain f where f: "append_to env c (out_file r) = (None, f)" "contents f = contents (out_file r) @ c" using good_append[OF assms(1)] by blast
  obtain f' where f': "append_to env (trailer c t) f = (None, f')" "contents f' = contents f @ trailer c t" using good_append[OF assms(1)] by blast
  show ?thesis using f f' assms(2,3) by (intro exI[of _ f']) (simp add: WriteRawBlock_def raw_trailer_bytes)
qed

lemma compressed_unpacks:
  assumes "good_snappy env sl sn" and "compressed env ty raw = (c, t)"
  shows "unpacks sl sn t c raw \<and> length c \<le> length raw"
  using assms by (auto simp: compressed_def good_snappy_def unpacks_def split: CompressionType.splits option.splits if_splits)

lemma WriteBlock_good:
  assumes "good_file env contents" "good_snappy env sl sn" and "out_offset r = of_nat (length (contents (out_file r)))" "table_status r = None"
    and "length (contents (out_file r)) + length (fst (Finish b)) + 5 < 2 ^ 63"
  shows "\<exists>h f added. WriteBlock env b r = Some (h, Reset (snd (Finish b)), r\<lparr>out_file := f, out_offset := of_nat (length (contents f)), compressed_output := []\<rparr>)
    \<and> contents f = contents (out_file r) @ added \<and> length added \<le> length (fst (Finish b)) + 5 \<and> stored_block sl sn (contents f) h (fst (Finish b))"
proof -
  obtain c t where c: "compressed env (compression_type (options r)) (fst (Finish b)) = (c, t)" by fastforce
  have u: "unpacks sl sn t c (fst (Finish b))" "length c \<le> length (fst (Finish b))" using compressed_unpacks[OF assms(2) c] by auto
  obtain f where f: "WriteRawBlock env c t r = Some (\<lparr>offset_of = out_offset r, stored_size = of_nat (length c)\<rparr>,
      r\<lparr>out_file := f, out_offset := of_nat (length (contents f))\<rparr>)" "contents f = contents (out_file r) @ c @ trailer c t"
    using WriteRawBlock_good[OF assms(1,3,4)] by blast
  have "stored_block sl sn (contents f) \<lparr>offset_of = out_offset r, stored_size = of_nat (length c)\<rparr> (fst (Finish b))"
    unfolding stored_block_def
    by (rule exI[of _ "contents (out_file r)"], rule exI[of _ c], rule exI[of _ t], rule exI[of _ "[]"])
      (use f(2) u assms(3,5) in \<open>simp add: unat_of_nat\<close>)
  moreover have "WriteBlock env b r = Some (\<lparr>offset_of = out_offset r, stored_size = of_nat (length c)\<rparr>, Reset (snd (Finish b)),
      r\<lparr>out_file := f, out_offset := of_nat (length (contents f)), compressed_output := []\<rparr>)"
    using f(1) c assms(4) by (cases "Finish b") (simp add: WriteBlock_def)
  ultimately show ?thesis using f(2) u(2)
    by - (rule exI, rule exI[of _ f], rule exI[of _ "c @ trailer c t"], auto simp: kBlockTrailerSize_def)
qed

subsection \<open>Sizes\<close>

definition weight :: "(byte list \<times> byte list) list \<Rightarrow> nat" where
  "weight kvs = sum_list (map (\<lambda>kv. length (fst kv) + length (snd kv) + 64) kvs)"

lemma weight_simps [simp]: "weight [] = 0" "weight (kv # kvs) = length (fst kv) + length (snd kv) + 64 + weight kvs"
  "weight (xs @ ys) = weight xs + weight ys"
  by (simp_all add: weight_def)

lemma EncodeVarint32_length: "length (EncodeVarint32 w) \<le> 5"
  using PutVarint32_fits[of "[]" w] by (simp add: PutVarint32_def split: if_splits)

lemma entries_size: "holds_entries k kvs buf \<Longrightarrow> length buf + 49 * length kvs \<le> weight kvs"
proof (induction k kvs buf rule: holds_entries.induct)
  case (2 k key v kvs buf)
  from "2.prems" obtain shared rest where r: "shared \<le> length key" "buf = entry_bytes shared key v @ rest" "holds_entries key kvs rest" by auto
  have "length (entry_bytes shared key v) \<le> 15 + length key + length v"
    using EncodeVarint32_length[of "of_nat shared"] EncodeVarint32_length[of "of_nat (length key - shared)"] EncodeVarint32_length[of "of_nat (length v)"]
    by (simp add: entry_bytes_def)
  moreover have "length rest + 49 * length kvs \<le> weight kvs" using "2.IH" r(3) by blast
  ultimately show ?case using r(2) by simp
qed simp

lemma sorted_bounded: "sorted_wrt (<) ns \<Longrightarrow> \<forall>n \<in> set ns. n < m \<Longrightarrow> length ns \<le> (m :: nat)"
proof -
  assume "sorted_wrt (<) ns" and "\<forall>n \<in> set ns. n < m"
  then have "distinct ns" "set ns \<subseteq> {..<m}" by (auto simp: strict_sorted_iff)
  then show ?thesis using card_mono[of "{..<m}" "set ns"] by (simp add: distinct_card)
qed

lemma Finish_size:
  assumes "seekable interval b kvs"
  shows "length (fst (Finish b)) + (if kvs = [] then 0 else 29) \<le> weight kvs + 8"
proof -
  obtain ns rs where l: "restart_list kvs (buffer b) ns rs" "restarts b = map of_nat rs" using assms unfolding seekable_def restarts_ok_def by blast
  have len: "length (restarts b) \<le> length kvs + (if kvs = [] then 1 else 0)"
    using l sorted_bounded[of ns "length kvs"] by (auto simp: restart_list_def split: if_splits)
  have "length (buffer b) + 49 * length kvs \<le> weight kvs" using assms entries_size by (auto simp: seekable_def builds_def built_def)
  moreover have "kvs \<noteq> [] \<Longrightarrow> 1 \<le> length kvs" by (cases kvs) simp_all
  ultimately show ?thesis using len by (auto simp: Finish_bytes restart_array_length)
qed

subsection \<open>The invariant of a builder\<close>

text \<open>The pairs of a block under a handle.\<close>

definition stored_pairs :: "(byte list \<Rightarrow> nat option) \<Rightarrow> (byte list \<Rightarrow> byte list option) \<Rightarrow> byte list \<Rightarrow> BlockHandle \<Rightarrow> (byte list \<times> byte list) list \<Rightarrow> bool" where
  "stored_pairs sl sn cs h kvs \<longleftrightarrow> (\<exists>interval b. seekable interval b kvs \<and> length (fst (Finish b)) < 2 ^ 32 \<and> stored_block sl sn cs h (fst (Finish b)))"

text \<open>A key of the index lies between the keys of its block and those of the blocks behind it.\<close>

definition separates :: "byte list list \<Rightarrow> (byte list \<times> byte list) list list \<Rightarrow> bool" where
  "separates seps kvss \<longleftrightarrow> length seps \<le> length kvss \<and> (\<forall>i < length seps. (\<forall>kv \<in> set (kvss ! i). \<not> bytes_less (seps ! i) (fst kv))
     \<and> (\<forall>j < length kvss. i < j \<longrightarrow> (\<forall>kv \<in> set (kvss ! j). bytes_less (seps ! i) (fst kv))))"

definition index_pairs :: "byte list list \<Rightarrow> ((byte list \<times> byte list) list \<times> BlockHandle) list \<Rightarrow> (byte list \<times> byte list) list" where
  "index_pairs seps chunks = zip seps (map (handle_bytes \<circ> snd) chunks)"

lemma separates_below: "separates seps kvss \<Longrightarrow> i < length seps \<Longrightarrow> i < j \<Longrightarrow> j < length kvss \<Longrightarrow> kv \<in> set (kvss ! j) \<Longrightarrow> bytes_less (seps ! i) (fst kv)"
  and separates_above: "separates seps kvss \<Longrightarrow> i < length seps \<Longrightarrow> kv \<in> set (kvss ! i) \<Longrightarrow> \<not> bytes_less (seps ! i) (fst kv)"
  unfolding separates_def by blast+

text \<open>
  The chunks written so far with their handles, the keys of the index and the pairs of the current block.
  The last chunk has no key while its index entry is pending.
\<close>

definition keys_ok :: "((byte list \<times> byte list) list \<times> BlockHandle) list \<Rightarrow> byte list list \<Rightarrow> (byte list \<times> byte list) list \<Rightarrow> bool" where
  "keys_ok chunks seps cur \<longleftrightarrow> separates seps (map fst chunks @ [cur]) \<and> (\<forall>c \<in> set chunks. fst c \<noteq> [])
     \<and> length (concat seps) \<le> weight (concat (map fst (take (length seps) chunks)))
     \<and> sorted_wrt bytes_less (map fst (concat (map fst chunks) @ cur)) \<and> weight (concat (map fst chunks) @ cur) < 2 ^ 30"

definition file_ok :: "'f environment \<Rightarrow> ('f \<Rightarrow> byte list) \<Rightarrow> (byte list \<Rightarrow> nat option) \<Rightarrow> (byte list \<Rightarrow> byte list option) \<Rightarrow> 'f Rep
    \<Rightarrow> ((byte list \<times> byte list) list \<times> BlockHandle) list \<Rightarrow> bool" where
  "file_ok env contents sl sn r chunks \<longleftrightarrow> good_file env contents \<and> good_snappy env sl sn \<and> table_status r = None
     \<and> out_offset r = of_nat (length (contents (out_file r))) \<and> length (contents (out_file r)) \<le> weight (concat (map fst chunks))
     \<and> (\<forall>c \<in> set chunks. stored_pairs sl sn (contents (out_file r)) (snd c) (fst c))"

definition index_ok :: "'f Rep \<Rightarrow> ((byte list \<times> byte list) list \<times> BlockHandle) list \<Rightarrow> byte list list \<Rightarrow> bool" where
  "index_ok r chunks seps \<longleftrightarrow> block_restart_interval (index_block_options r) = 1
     \<and> length chunks = length seps + (if pending_index_entry r then 1 else 0) \<and> seekable 1 (index_block r) (index_pairs seps chunks)"

definition block_ok :: "'f Rep \<Rightarrow> ((byte list \<times> byte list) list \<times> BlockHandle) list \<Rightarrow> (byte list \<times> byte list) list \<Rightarrow> bool" where
  "block_ok r chunks cur \<longleftrightarrow> \<not> closed r \<and> 1 \<le> block_restart_interval (options r) \<and> seekable (block_restart_interval (options r)) (data_block r) cur
     \<and> (pending_index_entry r \<longrightarrow> cur = [] \<and> pending_handle r = snd (last chunks))"

definition building :: "'f environment \<Rightarrow> ('f \<Rightarrow> byte list) \<Rightarrow> (byte list \<Rightarrow> nat option) \<Rightarrow> (byte list \<Rightarrow> byte list option) \<Rightarrow> 'f Rep
    \<Rightarrow> ((byte list \<times> byte list) list \<times> BlockHandle) list \<Rightarrow> byte list list \<Rightarrow> (byte list \<times> byte list) list \<Rightarrow> bool" where
  "building env contents sl sn r chunks seps cur \<longleftrightarrow> keys_ok chunks seps cur \<and> file_ok env contents sl sn r chunks \<and> index_ok r chunks seps \<and> block_ok r chunks cur"

text \<open>Between two operations, when the builder stands for all its pairs.\<close>

definition table_pairs :: "'f environment \<Rightarrow> ('f \<Rightarrow> byte list) \<Rightarrow> (byte list \<Rightarrow> nat option) \<Rightarrow> (byte list \<Rightarrow> byte list option) \<Rightarrow> 'f Rep
    \<Rightarrow> (byte list \<times> byte list) list \<Rightarrow> bool" where
  "table_pairs env contents sl sn r kvs \<longleftrightarrow> (\<exists>chunks seps cur. building env contents sl sn r chunks seps cur \<and> kvs = concat (map fst chunks) @ cur
     \<and> (\<not> pending_index_entry r \<longrightarrow> cur = [] \<longrightarrow> chunks = []) \<and> num_entries r = int (length kvs) \<and> (kvs \<noteq> [] \<longrightarrow> table_last_key r = fst (last kvs)))"

subsection \<open>Every operation keeps it\<close>

lemma seekable_buffer: "seekable interval b kvs \<Longrightarrow> buffer b = [] \<longleftrightarrow> kvs = []"
proof -
  assume "seekable interval b kvs"
  then have "holds_entries [] kvs (buffer b)" by (simp add: seekable_def builds_def built_def)
  moreover have "entry_bytes shared key v \<noteq> []" for shared key v by (simp add: entry_bytes_def EncodeVarint32_def)
  ultimately show ?thesis by (cases kvs) auto
qed

lemma separates_empty:
  assumes "separates seps kvss"
  shows "separates seps (kvss @ [[]])"
proof -
  have "length seps \<le> length kvss" using assms by (simp add: separates_def)
  then show ?thesis using assms unfolding separates_def by (auto simp: nth_append less_Suc_eq)
qed

lemma keys_ok_flushed:
  assumes "keys_ok chunks seps cur" and "cur \<noteq> []" and "length seps = length chunks"
  shows "keys_ok (chunks @ [(cur, h)]) seps []"
  using separates_empty[of seps "map fst chunks @ [cur]"] assms by (simp add: keys_ok_def)

lemma Flush_building:
  assumes b: "building env contents sl sn r chunks seps cur"
  shows "\<exists>r' chunks'. Flush env r = Some r' \<and> building env contents sl sn r' chunks' seps [] \<and> concat (map fst chunks') = concat (map fst chunks) @ cur
    \<and> num_entries r' = num_entries r \<and> table_last_key r' = table_last_key r \<and> (if cur = [] then r' = r \<and> chunks' = chunks else pending_index_entry r')"
proof (cases "cur = []")
  case True
  have "table_status r = None" "\<not> closed r" "seekable (block_restart_interval (options r)) (data_block r) []"
    using b True by (simp_all add: building_def block_ok_def file_ok_def)
  then have "Flush env r = Some r" using seekable_buffer by (simp add: Flush_def)
  then show ?thesis using b True by (intro exI[of _ r] exI[of _ chunks]) simp
next
  case False
  have k: "keys_ok chunks seps cur" and fl: "file_ok env contents sl sn r chunks" and ix: "index_ok r chunks seps" and bl: "block_ok r chunks cur"
    using b by (simp_all add: building_def)
  have p: "\<not> pending_index_entry r" using bl False by (auto simp: block_ok_def)
  then have len: "length seps = length chunks" using ix by (simp add: index_ok_def)
  have sk: "seekable (block_restart_interval (options r)) (data_block r) cur" using bl by (simp add: block_ok_def)
  have size: "length (fst (Finish (data_block r))) + 5 \<le> weight cur" using Finish_size[OF sk] False by simp
  have w: "weight (concat (map fst chunks)) + weight cur < 2 ^ 30" using k by (simp add: keys_ok_def)
  have gf: "good_file env contents" "good_snappy env sl sn" "out_offset r = of_nat (length (contents (out_file r)))" "table_status r = None"
    "length (contents (out_file r)) \<le> weight (concat (map fst chunks))" using fl by (simp_all add: file_ok_def)
  then obtain h f added where wb: "WriteBlock env (data_block r) r = Some (h, Reset (snd (Finish (data_block r))),
      r\<lparr>out_file := f, out_offset := of_nat (length (contents f)), compressed_output := []\<rparr>)"
    "contents f = contents (out_file r) @ added" "length added \<le> length (fst (Finish (data_block r))) + 5"
    "stored_block sl sn (contents f) h (fst (Finish (data_block r)))"
    using WriteBlock_good[OF gf(1-4), of "data_block r"] size w by auto
  obtain f' where f': "flush_file env f = (None, f')" "contents f' = contents f" using good_flush[OF gf(1)] by blast
  let ?r = "r\<lparr>out_file := f', out_offset := of_nat (length (contents f)), compressed_output := [], pending_handle := h,
      data_block := Reset (snd (Finish (data_block r))), pending_index_entry := True\<rparr>"
  have F: "Flush env r = Some ?r" using wb(1) f'(1) p gf(4) bl seekable_buffer[OF sk] False by (simp add: Flush_def block_ok_def)
  have "stored_pairs sl sn (contents f) h cur" using sk wb(4) size w unfolding stored_pairs_def by fastforce
  moreover have "stored_pairs sl sn (contents f) (snd c) (fst c)" if "c \<in> set chunks" for c
    using fl that stored_block_append wb(2) by (fastforce simp: file_ok_def stored_pairs_def)
  ultimately have "file_ok env contents sl sn ?r (chunks @ [(cur, h)])" using gf size wb(2,3) f'(2) by (auto simp: file_ok_def)
  moreover have "index_pairs seps (chunks @ [(cur, h)]) = index_pairs seps chunks" using len zip_append[of seps "map (handle_bytes \<circ> snd) chunks" "[]" "[handle_bytes h]"] by (simp add: index_pairs_def)
  then have "index_ok ?r (chunks @ [(cur, h)]) seps" using ix p by (simp add: index_ok_def)
  moreover have "block_ok ?r (chunks @ [(cur, h)]) []" using bl seekable_Reset by (simp add: block_ok_def)
  ultimately have "building env contents sl sn ?r (chunks @ [(cur, h)]) seps []"
    using keys_ok_flushed[OF k False len] by (simp add: building_def)
  then show ?thesis using F False by (intro exI[of _ ?r] exI[of _ "chunks @ [(cur, h)]"]) simp
qed

lemma separates_snoc:
  assumes "separates seps (kvss @ [cur])" and "\<And>s. s \<in> set seps \<Longrightarrow> bytes_less s (fst kv)" and "length seps \<le> length kvss"
  shows "separates seps (kvss @ [cur @ [kv]])"
  using assms unfolding separates_def by (auto simp: nth_append less_Suc_eq)

text \<open>A key for the index entry of the last chunk.\<close>

lemma separates_new:
  assumes "separates seps (kvss @ [c])" and "length seps = length kvss" and "\<And>kv. kv \<in> set c \<Longrightarrow> \<not> bytes_less s (fst kv)"
  shows "separates (seps @ [s]) ((kvss @ [c]) @ [[]])"
  using assms unfolding separates_def by (auto simp: nth_append less_Suc_eq)

lemma FindShortestSeparator_length: "FindShortestSeparator start limit = Some s \<Longrightarrow> length s \<le> length start"
  by (auto simp: FindShortestSeparator_def Let_def split: if_splits)

lemma FindShortSuccessor_length: "length (FindShortSuccessor k) \<le> length k"
  by (induction k) auto

lemma not_less_trans: "\<not> bytes_less y x \<Longrightarrow> bytes_less y z \<Longrightarrow> bytes_less x z" and not_less_swap: "bytes_less x y \<Longrightarrow> \<not> bytes_less y x"
  using bytes_total[of x y] bytes_less_trans by (blast, metis bytes_less_irrefl bytes_less_trans)

lemma chunks_split: "chunks \<noteq> [] \<Longrightarrow> \<exists>front c h. chunks = front @ [(c, h)]"
  by (metis append_butlast_last_id surj_pair)

lemma zip_short: "length xs = length ys \<Longrightarrow> zip xs (ys @ zs) = zip xs ys"
  by (induction xs ys rule: list_induct2) simp_all

lemma fst_weight: "kvs \<noteq> [] \<Longrightarrow> length (fst (last kvs)) + 64 \<le> weight kvs"
  by (induction kvs) (auto split: if_splits)

text \<open>The entry of the last chunk under a key that is not below the keys of the chunk.\<close>

lemma add_index_entry_ok:
  assumes k: "keys_ok chunks seps []" and ix: "index_ok r chunks seps" and p: "pending_index_entry r" "pending_handle r = snd (last chunks)"
    and st: "stored_pairs sl sn cs (snd (last chunks)) c'"
    and s: "\<And>kv. kv \<in> set (fst (last chunks)) \<Longrightarrow> \<not> bytes_less s (fst kv)" and l: "length s \<le> length (fst (last (fst (last chunks))))"
  shows "\<exists>ib. add_index_entry s r = Some (r\<lparr>table_last_key := s, index_block := ib, pending_index_entry := False\<rparr>)
    \<and> index_ok (r\<lparr>table_last_key := s, index_block := ib, pending_index_entry := False\<rparr>) chunks (seps @ [s]) \<and> keys_ok chunks (seps @ [s]) []"
proof -
  have "chunks \<noteq> []" using ix p by (auto simp: index_ok_def)
  then obtain front c h where ch: "chunks = front @ [(c, h)]" using chunks_split by blast
  have len: "length seps = length front" using ix p by (simp add: index_ok_def ch)
  have he: "EncodeHandleTo (pending_handle r) [] = Some (handle_bytes h)"
    using st p(2) stored_handle_bytes by (fastforce simp: ch stored_pairs_def)
  have c: "c \<noteq> []" using k by (simp add: keys_ok_def ch)
  have ip: "index_pairs seps chunks = zip seps (map (handle_bytes \<circ> snd) front)" using len by (simp add: index_pairs_def ch zip_short)
  have ip': "index_pairs (seps @ [s]) chunks = index_pairs seps chunks @ [(s, handle_bytes h)]" using len by (simp add: index_pairs_def ch zip_short)
  have sep: "separates seps (map fst front @ [c])"
  proof -
    have "separates seps ((map fst front @ [c]) @ [[]])" using k by (simp add: keys_ok_def ch)
    then show ?thesis using len unfolding separates_def by (auto simp: nth_append less_Suc_eq)
  qed
  have "later_key 1 (s, handle_bytes h) (index_pairs seps chunks)"
  proof (cases "seps = []")
    case False
    then have "front \<noteq> []" using len by auto
    then have "last (index_pairs seps chunks) = (last seps, handle_bytes (snd (last front)))"
      using len False by (simp add: ip last_zip last_map)
    moreover have "bytes_less (last seps) (fst (hd c))"
    proof -
      have "length seps - 1 < length seps" "length seps - 1 < length front" using False len by (cases seps; simp)+
      then have "bytes_less (seps ! (length seps - 1)) (fst (hd c))"
        using separates_below[OF sep, of "length seps - 1" "length front" "hd c"] c by (simp add: nth_append)
      then show ?thesis using False by (simp add: last_conv_nth)
    qed
    then have "bytes_less (last seps) s" using s[of "hd c"] c bytes_total[of "fst (hd c)" s] bytes_less_trans by (auto simp: ch)
    ultimately show ?thesis by (simp add: later_key_def)
  qed (simp add: later_key_def index_pairs_def)
  then obtain ib where ib: "Add 1 s (handle_bytes h) (index_block r) = Some ib" "seekable 1 ib (index_pairs (seps @ [s]) chunks)"
    using seekable_builder.simulates[of 1 "index_block r" "index_pairs seps chunks" "(s, handle_bytes h)"] ix ip'
    by (auto simp: index_ok_def add_pair_def)
  let ?r = "r\<lparr>table_last_key := s, index_block := ib, pending_index_entry := False\<rparr>"
  have "add_index_entry s r = Some ?r" using he ib(1) ix by (simp add: add_index_entry_def index_ok_def)
  moreover have "index_ok ?r chunks (seps @ [s])" using ix ib(2) p by (simp add: index_ok_def)
  moreover have "keys_ok chunks (seps @ [s]) []"
  proof -
    have "separates (seps @ [s]) ((map fst front @ [c]) @ [[]])" using s len by (intro separates_new[OF sep]) (simp_all add: ch)
    moreover have "length (concat seps) \<le> weight (concat (map fst front))" using k len by (simp add: keys_ok_def ch)
    moreover have "length s \<le> weight c" using l fst_weight[OF c] by (simp add: ch)
    ultimately show ?thesis using k len by (simp add: keys_ok_def ch)
  qed
  ultimately show ?thesis by blast
qed

lemma add_index_entry_building:
  assumes b: "building env contents sl sn r chunks seps []" and p: "pending_index_entry r"
    and s: "\<And>kv. kv \<in> set (fst (last chunks)) \<Longrightarrow> \<not> bytes_less s (fst kv)" and l: "length s \<le> length (fst (last (fst (last chunks))))"
  shows "\<exists>r'. add_index_entry s r = Some r' \<and> building env contents sl sn r' chunks (seps @ [s]) [] \<and> \<not> pending_index_entry r'
    \<and> num_entries r' = num_entries r \<and> options r' = options r \<and> data_block r' = data_block r"
proof -
  have k: "keys_ok chunks seps []" and fl: "file_ok env contents sl sn r chunks" and ix: "index_ok r chunks seps" and bl: "block_ok r chunks []"
    using b by (simp_all add: building_def)
  have "chunks \<noteq> []" using ix p by (auto simp: index_ok_def)
  then have st: "stored_pairs sl sn (contents (out_file r)) (snd (last chunks)) (fst (last chunks))" using fl by (simp add: file_ok_def)
  have ph: "pending_handle r = snd (last chunks)" using bl p by (simp add: block_ok_def)
  obtain ib where ib: "add_index_entry s r = Some (r\<lparr>table_last_key := s, index_block := ib, pending_index_entry := False\<rparr>)"
    "index_ok (r\<lparr>table_last_key := s, index_block := ib, pending_index_entry := False\<rparr>) chunks (seps @ [s])" "keys_ok chunks (seps @ [s]) []"
    using add_index_entry_ok[OF k ix p ph st s l] by blast
  then show ?thesis using fl bl p by (intro exI[of _ "r\<lparr>table_last_key := s, index_block := ib, pending_index_entry := False\<rparr>"])
    (simp add: building_def block_ok_def file_ok_def)
qed

text \<open>The last key of the last chunk and the keys above it are not below a key of the chunk.\<close>

lemma not_below_chunk:
  assumes k: "keys_ok (front @ [(c, h)]) seps cur" and s: "s = fst (last c) \<or> bytes_less (fst (last c)) s" and kv: "kv \<in> set c"
  shows "\<not> bytes_less s (fst kv)"
proof -
  have "sorted_wrt bytes_less (map fst c)" using k by (simp add: keys_ok_def sorted_wrt_append)
  then have "kv = last c \<or> bytes_less (fst kv) (fst (last c))"
    using kv by (cases c rule: rev_cases) (auto simp: sorted_wrt_append)
  then have "fst kv = s \<or> bytes_less (fst kv) s" using s bytes_less_trans by blast
  then show ?thesis using not_less_swap by auto
qed

lemma sorted_wrt_snoc:
  assumes "sorted_wrt bytes_less ks" and "ks = [] \<or> bytes_less (last ks) key"
  shows "sorted_wrt bytes_less (ks @ [key])"
proof (cases ks rule: rev_cases)
  case (snoc front k)
  then have "bytes_less k key" "\<forall>x \<in> set front. bytes_less x k" using assms by (simp_all add: sorted_wrt_append)
  then show ?thesis using assms(1) bytes_less_trans snoc by (auto simp: sorted_wrt_append)
qed simp

text \<open>All keys of the index are below the last key that was added, once it is not in the last chunk only.\<close>

lemma seps_below_last:
  assumes b: "building env contents sl sn r chunks seps cur" and e: "\<not> pending_index_entry r \<longrightarrow> cur = [] \<longrightarrow> chunks = []" and s: "s \<in> set seps"
  shows "bytes_less s (fst (last (concat (map fst chunks) @ cur)))"
proof -
  have k: "keys_ok chunks seps cur" and ix: "index_ok r chunks seps" and bl: "block_ok r chunks cur" using b by (simp_all add: building_def)
  have sep: "separates seps (map fst chunks @ [cur])" using k by (simp add: keys_ok_def)
  obtain i where i: "i < length seps" "s = seps ! i" using s by (auto simp: in_set_conv_nth)
  show ?thesis
  proof (cases "cur = []")
    case True
    have "chunks \<noteq> []" using ix i by (auto simp: index_ok_def)
    then obtain front c h where ch: "chunks = front @ [(c, h)]" using chunks_split by blast
    have c: "c \<noteq> []" using k by (simp add: keys_ok_def ch)
    have "i < length front" using ix i(1) True e by (simp add: index_ok_def ch split: if_splits)
    then show ?thesis using separates_below[OF sep i(1), of "length front" "last c"] c i(2) True by (simp add: ch nth_append)
  next
    case False
    have "i < length chunks" using ix i(1) by (simp add: index_ok_def)
    then show ?thesis using separates_below[OF sep i(1), of "length chunks" "last cur"] False i(2) by (simp add: nth_append)
  qed
qed

lemma data_block_add:
  assumes b: "building env contents sl sn r chunks seps cur" and p: "\<not> pending_index_entry r" and s: "\<And>s. s \<in> set seps \<Longrightarrow> bytes_less s key"
    and l: "concat (map fst chunks) @ cur = [] \<or> bytes_less (fst (last (concat (map fst chunks) @ cur))) key"
    and w: "weight (concat (map fst chunks) @ cur @ [(key, v)]) < 2 ^ 30"
  shows "\<exists>d. Add (block_restart_interval (options r)) key v (data_block r) = Some d
    \<and> building env contents sl sn (r\<lparr>table_last_key := key, num_entries := n, data_block := d\<rparr>) chunks seps (cur @ [(key, v)])"
proof -
  have k: "keys_ok chunks seps cur" and fl: "file_ok env contents sl sn r chunks" and ix: "index_ok r chunks seps" and bl: "block_ok r chunks cur"
    using b by (simp_all add: building_def)
  have "later_key (block_restart_interval (options r)) (key, v) cur" using l bl by (cases "cur = []") (simp_all add: later_key_def block_ok_def)
  then obtain d where d: "Add (block_restart_interval (options r)) key v (data_block r) = Some d"
    "seekable (block_restart_interval (options r)) d (cur @ [(key, v)])"
    using seekable_builder.simulates[of "block_restart_interval (options r)" "data_block r" cur "(key, v)"] bl
    by (auto simp: block_ok_def add_pair_def)
  have "sorted_wrt bytes_less (map fst (concat (map fst chunks) @ cur))" using k by (simp add: keys_ok_def)
  then have "sorted_wrt bytes_less (map fst (concat (map fst chunks) @ cur) @ [key])"
    using l by (intro sorted_wrt_snoc) (metis last_map map_is_Nil_conv)+
  moreover have "separates seps (map fst chunks @ [cur @ [(key, v)]])"
    using k s ix p by (intro separates_snoc) (simp_all add: keys_ok_def index_ok_def)
  ultimately have "keys_ok chunks seps (cur @ [(key, v)])" using k w by (simp add: keys_ok_def)
  then show ?thesis using d fl ix bl p by (intro exI[of _ d]) (simp add: building_def file_ok_def index_ok_def block_ok_def)
qed

text \<open>The index entry of the last chunk, when it is pending, is written before the next key.\<close>

lemma pending_entry_added:
  assumes b: "building env contents sl sn r chunks seps cur" and e: "\<not> pending_index_entry r \<longrightarrow> cur = [] \<longrightarrow> chunks = []"
    and l: "concat (map fst chunks) @ cur = [] \<or> bytes_less (table_last_key r) key"
    and t: "concat (map fst chunks) @ cur \<noteq> [] \<longrightarrow> table_last_key r = fst (last (concat (map fst chunks) @ cur))"
  shows "\<exists>r' seps'. (if pending_index_entry r
        then if buffer (data_block r) \<noteq> [] then None
          else case FindShortestSeparator (table_last_key r) key of None \<Rightarrow> None | Some k \<Rightarrow> add_index_entry k r
        else Some r) = Some r'
    \<and> building env contents sl sn r' chunks seps' cur \<and> \<not> pending_index_entry r' \<and> num_entries r' = num_entries r \<and> (\<forall>s \<in> set seps'. bytes_less s key)"
proof (cases "pending_index_entry r")
  case False
  have "bytes_less s key" if s: "s \<in> set seps" for s
  proof -
    have "concat (map fst chunks) @ cur \<noteq> []" using b s e False by (cases cur) (auto simp: building_def index_ok_def)
    then have "bytes_less (fst (last (concat (map fst chunks) @ cur))) key" using l t by metis
    then show ?thesis by (rule bytes_less_trans[OF seps_below_last[OF b e s]])
  qed
  then show ?thesis using False b by (intro exI[of _ r] exI[of _ seps]) simp
next
  case True
  have k: "keys_ok chunks seps cur" and bl: "block_ok r chunks cur" and ix: "index_ok r chunks seps" using b by (simp_all add: building_def)
  then have cur: "cur = []" "buffer (data_block r) = []" using True seekable_buffer by (auto simp: block_ok_def)
  have "chunks \<noteq> []" using ix True by (auto simp: index_ok_def)
  then obtain front c h where ch: "chunks = front @ [(c, h)]" using chunks_split by blast
  have c: "c \<noteq> []" using k by (simp add: keys_ok_def ch)
  then have last: "table_last_key r = fst (last c)" "bytes_less (fst (last c)) key" using t l by (simp_all add: ch cur)
  obtain s where s: "FindShortestSeparator (fst (last c)) key = Some s" "s = fst (last c) \<or> bytes_less (fst (last c)) s" "bytes_less s key"
    using FindShortestSeparator_between[OF last(2)] by blast
  have "\<not> bytes_less s (fst kv)" if "kv \<in> set (fst (last chunks))" for kv
    using not_below_chunk[of front c h seps cur] k s(2) that by (simp add: ch)
  then obtain r' where r': "add_index_entry s r = Some r'" "building env contents sl sn r' chunks (seps @ [s]) []" "\<not> pending_index_entry r'"
    "num_entries r' = num_entries r"
    using add_index_entry_building[of env contents sl sn r chunks seps s] b True FindShortestSeparator_length[OF s(1)] by (auto simp: cur ch)
  have "bytes_less s' key" if "s' \<in> set seps" for s'
    using bytes_less_trans[OF seps_below_last[OF b e that], of key] last(2) c by (simp add: ch cur)
  then show ?thesis using r' s cur True by (intro exI[of _ r'] exI[of _ "seps @ [s]"]) (simp add: last(1))
qed

definition next_pair :: "byte list \<times> byte list \<Rightarrow> (byte list \<times> byte list) list \<Rightarrow> bool" where
  "next_pair kv kvs \<longleftrightarrow> (kvs = [] \<or> bytes_less (fst (last kvs)) (fst kv)) \<and> weight (kvs @ [kv]) < 2 ^ 30"

lemma TableAdd_table_pairs:
  assumes tp: "table_pairs env contents sl sn r kvs" and n: "next_pair (key, v) kvs"
  shows "\<exists>r'. TableAdd env key v r = Some r' \<and> table_pairs env contents sl sn r' (kvs @ [(key, v)])"
proof -
  obtain chunks seps cur where b: "building env contents sl sn r chunks seps cur" and kvs: "kvs = concat (map fst chunks) @ cur"
    and e: "\<not> pending_index_entry r \<longrightarrow> cur = [] \<longrightarrow> chunks = []" and num: "num_entries r = int (length kvs)"
    and t: "kvs \<noteq> [] \<longrightarrow> table_last_key r = fst (last kvs)" using tp unfolding table_pairs_def by blast
  have st: "\<not> closed r" "table_status r = None" using b by (simp_all add: building_def block_ok_def file_ok_def)
  have less: "kvs \<noteq> [] \<longrightarrow> bytes_less (table_last_key r) key" using n t by (auto simp: next_pair_def)
  define step1 where "step1 = (if 0 < num_entries r then if \<not> bytes_less (table_last_key r) key then None
           else let kOverlyLargeBlockRatio = 2 in
             if kOverlyLargeBlockRatio * block_size (options r) mod 2 ^ 64 \<le> length key + length v then Flush env r else Some r
         else Some r)"
  obtain r1 chunks1 cur1 where r1: "step1 = Some r1" "building env contents sl sn r1 chunks1 seps cur1" "kvs = concat (map fst chunks1) @ cur1"
    "\<not> pending_index_entry r1 \<longrightarrow> cur1 = [] \<longrightarrow> chunks1 = []" "num_entries r1 = num_entries r" "table_last_key r1 = table_last_key r"
  proof -
    have "step1 = Flush env r \<or> step1 = Some r" using less num by (auto simp: step1_def Let_def)
    then show ?thesis
    proof
      assume f: "step1 = Flush env r"
      obtain r' chunks' where "Flush env r = Some r'" "building env contents sl sn r' chunks' seps []" "concat (map fst chunks') = kvs"
        "num_entries r' = num_entries r" "table_last_key r' = table_last_key r" "if cur = [] then r' = r \<and> chunks' = chunks else pending_index_entry r'"
        using Flush_building[OF b] kvs by auto
      then show ?thesis using that[of r' chunks' "[]"] f e by (auto split: if_splits)
    qed (use that[of r chunks cur] b kvs e in auto)
  qed
  obtain r2 seps2 where r2: "(if pending_index_entry r1
        then if buffer (data_block r1) \<noteq> [] then None
          else case FindShortestSeparator (table_last_key r1) key of None \<Rightarrow> None | Some k \<Rightarrow> add_index_entry k r1
        else Some r1) = Some r2" "building env contents sl sn r2 chunks1 seps2 cur1" "\<not> pending_index_entry r2" "num_entries r2 = num_entries r1"
      "\<forall>s \<in> set seps2. bytes_less s key"
  proof -
    have "concat (map fst chunks1) @ cur1 = [] \<or> bytes_less (table_last_key r1) key" 
      "concat (map fst chunks1) @ cur1 \<noteq> [] \<longrightarrow> table_last_key r1 = fst (last (concat (map fst chunks1) @ cur1))"
      using less t unfolding r1(6) r1(3)[symmetric] by blast+
    from pending_entry_added[OF r1(2,4) this] show ?thesis using that by blast
  qed
  obtain d where d: "Add (block_restart_interval (options r2)) key v (data_block r2) = Some d"
    "building env contents sl sn (r2\<lparr>table_last_key := key, num_entries := num_entries r2 + 1, data_block := d\<rparr>) chunks1 seps2 (cur1 @ [(key, v)])"
    using data_block_add[OF r2(2,3), of key v "num_entries r2 + 1"] r2(5) n r1(3) by (auto simp: next_pair_def)
  let ?r = "r2\<lparr>table_last_key := key, num_entries := num_entries r2 + 1, data_block := d\<rparr>"
  have run: "TableAdd env key v r = (if block_size (options r2) \<le> CurrentSizeEstimate d then Flush env ?r else Some ?r)"
    using r1(1) r2(1) d(1) st unfolding TableAdd_def step1_def[symmetric] by simp
  obtain r3 chunks3 where f: "Flush env ?r = Some r3" "building env contents sl sn r3 chunks3 seps2 []"
      "concat (map fst chunks3) = concat (map fst chunks1) @ cur1 @ [(key, v)]" "num_entries r3 = num_entries ?r" "table_last_key r3 = table_last_key ?r"
      "pending_index_entry r3"
    using Flush_building[OF d(2)] by auto
  show ?thesis
  proof (cases "block_size (options r2) \<le> CurrentSizeEstimate d")
    case True
    have "table_pairs env contents sl sn r3 (kvs @ [(key, v)])" unfolding table_pairs_def
      by (rule exI[of _ chunks3], rule exI[of _ seps2], rule exI[of _ "[]"]) (use f r1(3,5) r2(4) num in simp)
    then show ?thesis using run True f(1) by simp
  next
    case False
    have "table_pairs env contents sl sn ?r (kvs @ [(key, v)])" unfolding table_pairs_def
      by (rule exI[of _ chunks1], rule exI[of _ seps2], rule exI[of _ "cur1 @ [(key, v)]"]) (use d(2) r1(3,5) r2(4) num in simp)
    then show ?thesis using run False by simp
  qed
qed

definition add_to_table :: "'f environment \<Rightarrow> byte list \<times> byte list \<Rightarrow> 'f Rep \<Rightarrow> 'f Rep option" where
  "add_to_table env kv r = TableAdd env (fst kv) (snd kv) r"

interpretation table_builder: simulation "add_to_table env" "table_pairs env contents sl sn" "\<lambda>kv kvs. kvs @ [kv]" next_pair for env contents sl sn
proof
  fix r kvs kv
  assume "table_pairs env contents sl sn r kvs" "next_pair kv kvs"
  then show "\<exists>r'. add_to_table env kv r = Some r' \<and> table_pairs env contents sl sn r' (kvs @ [kv])"
    using TableAdd_table_pairs[of env contents sl sn r kvs "fst kv" "snd kv"] by (simp add: add_to_table_def)
qed

subsection \<open>The finished file\<close>

text \<open>What a reader finds: a footer at the end, the index block under its handle and the chunks under the handles of the index.\<close>

definition table_index :: "(byte list \<Rightarrow> nat option) \<Rightarrow> (byte list \<Rightarrow> byte list option) \<Rightarrow> byte list \<Rightarrow> BlockHandle
    \<Rightarrow> byte list list \<Rightarrow> ((byte list \<times> byte list) list \<times> BlockHandle) list \<Rightarrow> bool" where
  "table_index sl sn cs h seps chunks \<longleftrightarrow> stored_pairs sl sn cs h (index_pairs seps chunks) \<and> length seps = length chunks
     \<and> separates seps (map fst chunks) \<and> (\<forall>c \<in> set chunks. fst c \<noteq> [] \<and> stored_pairs sl sn cs (snd c) (fst c))
     \<and> sorted_wrt bytes_less (map fst (concat (map fst chunks)))"

definition table_file :: "(byte list \<Rightarrow> nat option) \<Rightarrow> (byte list \<Rightarrow> byte list option) \<Rightarrow> byte list \<Rightarrow> (byte list \<times> byte list) list \<Rightarrow> bool" where
  "table_file sl sn cs kvs \<longleftrightarrow> (\<exists>front foot f seps chunks. cs = front @ foot \<and> length foot = kEncodedLength \<and> length cs < 2 ^ 63
     \<and> (\<forall>f0 rest. DecodeFooterFrom (foot @ rest) f0 = Some (None, f, rest)) \<and> table_index sl sn cs (index_handle f) seps chunks
     \<and> kvs = concat (map fst chunks))"

lemma stored_pairs_append: "stored_pairs sl sn cs h kvs \<Longrightarrow> stored_pairs sl sn (cs @ added) h kvs"
  using stored_block_append unfolding stored_pairs_def by blast

lemma stored_pairs_handle: "stored_pairs sl sn cs h kvs \<Longrightarrow> offset_of h \<noteq> NOT 0 \<and> stored_size h \<noteq> NOT 0"
  using stored_handle_set unfolding stored_pairs_def by blast

lemma weight_length: "64 * length kvs \<le> weight kvs"
  by (induction kvs) simp_all

lemma concat_length: "(\<forall>c \<in> set cs. c \<noteq> []) \<Longrightarrow> length cs \<le> length (concat cs)"
proof (induction cs)
  case (Cons c cs)
  then show ?case by (cases c) auto
qed simp

lemma index_weight: "length seps \<le> length chunks \<Longrightarrow> weight (index_pairs seps chunks) \<le> length (concat seps) + 84 * length seps"
proof (induction seps arbitrary: chunks)
  case (Cons s seps)
  then obtain c cs where ch: "chunks = c # cs" by (cases chunks) simp_all
  then have "weight (index_pairs seps cs) \<le> length (concat seps) + 84 * length seps" using Cons by simp
  then show ?case using handle_bytes_length[of "snd c"] by (simp add: index_pairs_def ch)
qed (simp add: index_pairs_def)

text \<open>The index block is not larger than its handle can say.\<close>

lemma index_block_size:
  assumes k: "keys_ok chunks seps []" and ix: "index_ok r chunks seps" and p: "\<not> pending_index_entry r"
  shows "length (fst (Finish (index_block r))) < 2 ^ 32"
proof -
  have len: "length seps = length chunks" using ix p by (simp add: index_ok_def)
  have w: "weight (concat (map fst chunks)) < 2 ^ 30" "length (concat seps) \<le> weight (concat (map fst chunks))" using k len by (simp_all add: keys_ok_def)
  have "length chunks \<le> length (concat (map fst chunks))" using concat_length[of "map fst chunks"] k by (simp add: keys_ok_def)
  then have "64 * length chunks \<le> weight (concat (map fst chunks))" using weight_length[of "concat (map fst chunks)"] by linarith
  moreover have "weight (index_pairs seps chunks) \<le> length (concat seps) + 84 * length seps" using index_weight[of seps chunks] len by simp
  moreover have "length (fst (Finish (index_block r))) \<le> weight (index_pairs seps chunks) + 8"
    using Finish_size[of 1 "index_block r" "index_pairs seps chunks"] ix by (simp add: index_ok_def)
  ultimately show ?thesis using w len by simp
qed

lemma separates_drop: "separates seps (kvss @ [[]]) \<Longrightarrow> length seps = length kvss \<Longrightarrow> separates seps kvss"
  unfolding separates_def by (auto simp: nth_append less_Suc_eq)

text \<open>The last part of \<open>Finish\<close>, from the index entry that may be pending.\<close>

lemma last_entry_added:
  assumes k: "keys_ok chunks seps []" and ix: "index_ok r chunks seps" and ph: "pending_index_entry r \<longrightarrow> pending_handle r = snd (last chunks)"
    and st: "\<forall>c \<in> set chunks. stored_pairs sl sn cs (snd c) (fst c)" and t: "concat (map fst chunks) \<noteq> [] \<longrightarrow> table_last_key r = fst (last (concat (map fst chunks)))"
  shows "\<exists>k' ib seps'. (if pending_index_entry r then add_index_entry (FindShortSuccessor (table_last_key r)) r else Some r)
      = Some (r\<lparr>table_last_key := k', index_block := ib, pending_index_entry := False\<rparr>)
    \<and> index_ok (r\<lparr>table_last_key := k', index_block := ib, pending_index_entry := False\<rparr>) chunks seps' \<and> keys_ok chunks seps' []"
proof (cases "pending_index_entry r")
  case False
  then have "r = r\<lparr>table_last_key := table_last_key r, index_block := index_block r, pending_index_entry := False\<rparr>" by simp
  then show ?thesis using False k ix by metis
next
  case True
  have "chunks \<noteq> []" using ix True by (auto simp: index_ok_def)
  then obtain front c h where ch: "chunks = front @ [(c, h)]" using chunks_split by blast
  have c: "c \<noteq> []" using k by (simp add: keys_ok_def ch)
  then have lk: "table_last_key r = fst (last c)" using t by (simp add: ch)
  let ?s = "FindShortSuccessor (table_last_key r)"
  have "?s = fst (last c) \<or> bytes_less (fst (last c)) ?s" using FindShortSuccessor_above lk by metis
  then have above: "\<not> bytes_less ?s (fst kv)" if "kv \<in> set (fst (last chunks))" for kv
    using not_below_chunk[of front c h seps "[]" ?s kv] k that by (simp add: ch)
  have len: "length ?s \<le> length (fst (last (fst (last chunks))))" using FindShortSuccessor_length lk by (metis ch fst_conv last_snoc)
  have sp: "stored_pairs sl sn cs (snd (last chunks)) c" using st by (simp add: ch)
  from add_index_entry_ok[OF k ix True _ sp above len] ph True show ?thesis by auto
qed

lemma empty_block_size: "seekable interval b [] \<Longrightarrow> length (fst (Finish b)) \<le> 8"
  using Finish_size[of interval b "[]"] by simp

text \<open>\<open>Finish\<close> writes a table file with the pairs that were added.\<close>

text \<open>The footer closes a file whose index and blocks are stored.\<close>

lemma footer_closes:
  assumes gf: "good_file env contents" and h: "stored_block sl sn (contents f4) hm mb" "stored_block sl sn (contents f4) hi ib"
    and k: "keys_ok chunks seps []" "length seps = length chunks" and len: "length (contents f4) + kEncodedLength < 2 ^ 63"
    and sp: "\<forall>c \<in> set chunks. stored_pairs sl sn (contents f4) (snd c) (fst c)" "stored_pairs sl sn (contents f4) hi (index_pairs seps chunks)"
  shows "\<exists>foot f5. EncodeFooterTo \<lparr>metaindex_handle = hm, index_handle = hi\<rparr> [] = Some foot \<and> append_to env foot f4 = (None, f5)
    \<and> contents f5 = contents f4 @ foot \<and> length (contents f5) < 2 ^ 63 \<and> table_file sl sn (contents f5) (concat (map fst chunks))"
proof -
  define ft where "ft = \<lparr>metaindex_handle = hm, index_handle = hi\<rparr>"
  obtain foot where foot: "EncodeFooterTo ft [] = Some foot" "length foot = kEncodedLength" "\<forall>f0 rest. DecodeFooterFrom (foot @ rest) f0 = Some (None, ft, rest)"
    using footer_roundtrip[of ft] stored_handle_set[OF h(1)] stored_handle_set[OF h(2)] by (auto simp: ft_def)
  obtain f5 where f5: "append_to env foot f4 = (None, f5)" "contents f5 = contents f4 @ foot" using good_append[OF gf] by blast
  have len5: "length (contents f5) < 2 ^ 63" using f5(2) len foot(2) by simp
  have "stored_pairs sl sn (contents f5) hi (index_pairs seps chunks)" "\<forall>c \<in> set chunks. fst c \<noteq> [] \<and> stored_pairs sl sn (contents f5) (snd c) (fst c)"
    using sp stored_pairs_append f5(2) k(1) by (auto simp: keys_ok_def)
  moreover have "separates seps (map fst chunks)" "sorted_wrt bytes_less (map fst (concat (map fst chunks)))"
    using k separates_drop[of seps "map fst chunks"] by (simp_all add: keys_ok_def)
  ultimately have "table_index sl sn (contents f5) (index_handle ft) seps chunks" using k(2) by (simp add: table_index_def ft_def)
  then have "table_file sl sn (contents f5) (concat (map fst chunks))" using f5(2) foot(2,3) len5 unfolding table_file_def by blast
  then show ?thesis using foot(1) f5 len5 unfolding ft_def by blast
qed

lemma TableFinish_table_file:
  assumes tp: "table_pairs env contents sl sn r kvs"
  shows "\<exists>r'. TableFinish env r = Some (None, r') \<and> table_file sl sn (contents (out_file r')) kvs
    \<and> unat (out_offset r') = length (contents (out_file r')) \<and> closed r'"
proof -
  obtain chunks0 seps cur where b0: "building env contents sl sn r chunks0 seps cur" and kvs: "kvs = concat (map fst chunks0) @ cur"
    and e: "\<not> pending_index_entry r \<longrightarrow> cur = [] \<longrightarrow> chunks0 = []" and num: "num_entries r = int (length kvs)"
    and t: "kvs \<noteq> [] \<longrightarrow> table_last_key r = fst (last kvs)" using tp unfolding table_pairs_def by blast
  obtain r1 chunks where f: "Flush env r = Some r1" and b: "building env contents sl sn r1 chunks seps []"
    and c': "concat (map fst chunks) = concat (map fst chunks0) @ cur" and lk: "table_last_key r1 = table_last_key r"
    using Flush_building[OF b0] by blast
  have c: "concat (map fst chunks) = kvs" using c' kvs by simp
  have t1: "kvs \<noteq> [] \<longrightarrow> table_last_key r1 = fst (last kvs)" using t lk by simp
  have k: "keys_ok chunks seps []" and fl: "file_ok env contents sl sn r1 chunks" and ix: "index_ok r1 chunks seps" and bl: "block_ok r1 chunks []"
    using b by (simp_all add: building_def)
  have cl: "\<not> closed r1" and iv: "1 \<le> block_restart_interval (options r1)" and ph: "pending_index_entry r1 \<longrightarrow> pending_handle r1 = snd (last chunks)"
    using bl by (simp_all add: block_ok_def)
  have gf: "good_file env contents" "good_snappy env sl sn" and st: "table_status r1 = None" and off: "out_offset r1 = of_nat (length (contents (out_file r1)))"
    and sz: "length (contents (out_file r1)) \<le> weight kvs" and sp: "\<forall>c \<in> set chunks. stored_pairs sl sn (contents (out_file r1)) (snd c) (fst c)"
    using fl c by (simp_all add: file_ok_def)
  have w: "weight kvs < 2 ^ 30" using k c by (simp add: keys_ok_def)
  obtain m where m: "BlockBuilder_new (block_restart_interval (options r1)) = Some m" "seekable (block_restart_interval (options r1)) m []"
    using seekable_new[OF iv] by blast
  obtain hm f2 a2 where w2: "WriteBlock env m (r1\<lparr>closed := True\<rparr>) = Some (hm, Reset (snd (Finish m)),
      r1\<lparr>closed := True, out_file := f2, out_offset := of_nat (length (contents f2)), compressed_output := []\<rparr>)"
    "contents f2 = contents (out_file r1) @ a2" "length a2 \<le> 13" "stored_block sl sn (contents f2) hm (fst (Finish m))"
    using WriteBlock_good[OF gf, of "r1\<lparr>closed := True\<rparr>" m] off st sz w empty_block_size[OF m(2)] by auto
  define r2 where "r2 = r1\<lparr>closed := True, out_file := f2, out_offset := of_nat (length (contents f2)), compressed_output := []\<rparr>"
  have r2: "index_ok r2 chunks seps" "pending_index_entry r2 \<longrightarrow> pending_handle r2 = snd (last chunks)"
    "concat (map fst chunks) \<noteq> [] \<longrightarrow> table_last_key r2 = fst (last (concat (map fst chunks)))" "table_status r2 = None" "out_file r2 = f2" "closed r2"
    "out_offset r2 = of_nat (length (contents f2))"
    using ix ph t1 st unfolding c by (simp_all add: r2_def index_ok_def)
  have sp2: "\<forall>c \<in> set chunks. stored_pairs sl sn (contents f2) (snd c) (fst c)" using sp stored_pairs_append w2(2) by auto
  obtain k' ib seps' where r3: "(if pending_index_entry r2 then add_index_entry (FindShortSuccessor (table_last_key r2)) r2 else Some r2)
      = Some (r2\<lparr>table_last_key := k', index_block := ib, pending_index_entry := False\<rparr>)"
    "index_ok (r2\<lparr>table_last_key := k', index_block := ib, pending_index_entry := False\<rparr>) chunks seps'" "keys_ok chunks seps' []"
    using last_entry_added[OF k r2(1,2) sp2 r2(3)] by blast
  define r3' where "r3' = r2\<lparr>table_last_key := k', index_block := ib, pending_index_entry := False\<rparr>"
  have isz: "length (fst (Finish ib)) < 2 ^ 32" using index_block_size[OF r3(3,2)] by simp
  have "out_offset r3' = of_nat (length (contents (out_file r3')))" "table_status r3' = None"
    "length (contents (out_file r3')) + length (fst (Finish ib)) + 5 < 2 ^ 63"
    using r2 sz w w2(2,3) isz by (simp_all add: r3'_def)
  then obtain hi f4 a4 where w4: "WriteBlock env ib r3' = Some (hi, Reset (snd (Finish ib)),
      r3'\<lparr>out_file := f4, out_offset := of_nat (length (contents f4)), compressed_output := []\<rparr>)"
    "contents f4 = contents f2 @ a4" "length a4 \<le> length (fst (Finish ib)) + 5" "stored_block sl sn (contents f4) hi (fst (Finish ib))"
    using WriteBlock_good[OF gf, of r3' ib] r2(5) by (auto simp: r3'_def)
  let ?ft = "\<lparr>metaindex_handle = hm, index_handle = hi\<rparr>"
  have f4: "stored_block sl sn (contents f4) hm (fst (Finish m))" "\<forall>c \<in> set chunks. stored_pairs sl sn (contents f4) (snd c) (fst c)"
    using w2(4) sp2 stored_block_append stored_pairs_append w4(2) by auto
  have ixp: "stored_pairs sl sn (contents f4) hi (index_pairs seps' chunks)" "length seps' = length chunks"
    using r3(2) w4(4) isz unfolding stored_pairs_def index_ok_def by auto
  have "length (contents f4) + kEncodedLength < 2 ^ 63" using w4(2,3) w2(2,3) sz w isz by (simp add: kEncodedLength_def kMaxEncodedLength_def)
  then obtain foot f5 where foot: "EncodeFooterTo ?ft [] = Some foot" and f5: "append_to env foot f4 = (None, f5)" "contents f5 = contents f4 @ foot"
      "length (contents f5) < 2 ^ 63" "table_file sl sn (contents f5) kvs"
    using footer_closes[OF gf(1) f4(1) w4(4) r3(3) ixp(2) _ f4(2) ixp(1)] unfolding c by blast
  let ?r = "r3'\<lparr>out_file := f5, out_offset := of_nat (length (contents f4)) + of_nat (length foot), index_block := Reset (snd (Finish ib)),
      compressed_output := [], table_status := None\<rparr>"
  have run: "TableFinish env r = Some (None, ?r)"
    using f cl st m(1) w2(1) r2(4) r3(1) w4(1) foot f5(1) unfolding TableFinish_def r2_def[symmetric] r3'_def[symmetric]
    by (simp add: r3'_def)
  have "unat (out_offset ?r) = length (contents f5)" using f5(2,3) by (simp add: unat_of_nat flip: of_nat_add)
  then show ?thesis using run r2(6) f5(4) by (intro exI[of _ ?r]) (simp add: r3'_def)
qed

text \<open>A new builder stands for no pairs.\<close>

lemma TableBuilder_new_table_pairs:
  assumes "good_file env contents" "good_snappy env sl sn" and "contents f = []" and "1 \<le> block_restart_interval opt"
  shows "\<exists>r. TableBuilder_new opt f = Some r \<and> table_pairs env contents sl sn r []"
proof -
  obtain b where b: "BlockBuilder_new (block_restart_interval opt) = Some b" "seekable (block_restart_interval opt) b []" using seekable_new[OF assms(4)] by blast
  moreover have "seekable 1 b []" using b(2) by (simp add: seekable_def builds_def)
  ultimately show ?thesis using assms unfolding table_pairs_def building_def
    by (auto simp: TableBuilder_new_def keys_ok_def file_ok_def index_ok_def block_ok_def separates_def index_pairs_def
        intro!: exI[of _ "[]"] exI[of _ "[] :: byte list list"])
qed

end
