(* ===== verification/Table.thy ===== *)
theory Table
  imports TableBuilder
begin

text \<open>
  Reading a table file: tensorflow/core/lib/io/table.cc, the iterator over the blocks under an index
  (two_level_iterator.cc) and the iterators over nothing (iterator.cc). A pointer to an iterator is an option or the iterator
  itself. \<open>None\<close> as the result of an operation is an assertion that does not hold or a read outside of a block.
\<close>

subsection \<open>Iterators\<close>

datatype Iterator = EmptyIterator "status option" | BlockIterator Iter

definition NewEmptyIterator :: Iterator where "NewEmptyIterator = EmptyIterator None"

definition NewErrorIterator :: "status option \<Rightarrow> Iterator" where "NewErrorIterator s = EmptyIterator s"

text \<open>The errors of a block as the status they carry.\<close>

fun block_status :: "iter_status \<Rightarrow> status option" where
  "block_status OK = None"
| "block_status BadEntry = Some (DataLoss ''bad entry in block'')"
| "block_status BadContents = Some (DataLoss ''bad block contents'')"

definition Block_NewIterator :: "Block \<Rightarrow> Iterator option" where
  "Block_NewIterator b = (case NewIterator b of None \<Rightarrow> None
     | Some (Inl e) \<Rightarrow> Some (NewErrorIterator (block_status e))
     | Some (Inr None) \<Rightarrow> Some NewEmptyIterator
     | Some (Inr (Some it)) \<Rightarrow> Some (BlockIterator it))"

text \<open>The virtual functions.\<close>

fun it_Valid :: "Iterator \<Rightarrow> bool" where
  "it_Valid (EmptyIterator s) = False"
| "it_Valid (BlockIterator it) = Valid it"

fun it_Seek :: "byte list \<Rightarrow> Iterator \<Rightarrow> Iterator option" where
  "it_Seek target (EmptyIterator s) = Some (EmptyIterator s)"
| "it_Seek target (BlockIterator it) = map_option BlockIterator (Seek target it)"

fun it_SeekToFirst :: "Iterator \<Rightarrow> Iterator option" where
  "it_SeekToFirst (EmptyIterator s) = Some (EmptyIterator s)"
| "it_SeekToFirst (BlockIterator it) = map_option BlockIterator (SeekToFirst it)"

fun it_Next :: "Iterator \<Rightarrow> Iterator option" where
  "it_Next (EmptyIterator s) = None"
| "it_Next (BlockIterator it) = map_option BlockIterator (Next it)"

fun it_key :: "Iterator \<Rightarrow> byte list option" where
  "it_key (EmptyIterator s) = None"
| "it_key (BlockIterator it) = key_of it"

fun it_value :: "Iterator \<Rightarrow> byte list option" where
  "it_value (EmptyIterator s) = None"
| "it_value (BlockIterator it) = iter_value it"

fun it_status :: "Iterator \<Rightarrow> status option" where
  "it_status (EmptyIterator s) = s"
| "it_status (BlockIterator it) = block_status (iter_status it)"

subsection \<open>The iterator over the blocks\<close>

record TwoLevelIterator =
  two_level_status :: "status option"
  index_iter :: Iterator
  data_iter :: "Iterator option"
  data_block_handle :: "byte list"

definition NewTwoLevelIterator :: "Iterator \<Rightarrow> TwoLevelIterator" where
  "NewTwoLevelIterator it = \<lparr>two_level_status = None, index_iter = it, data_iter = None, data_block_handle = []\<rparr>"

definition two_level_Valid :: "TwoLevelIterator \<Rightarrow> bool" where
  "two_level_Valid t = (case data_iter t of None \<Rightarrow> False | Some d \<Rightarrow> it_Valid d)"

definition two_level_key :: "TwoLevelIterator \<Rightarrow> byte list option" where
  "two_level_key t = (if two_level_Valid t then Option.bind (data_iter t) it_key else None)"

definition two_level_value :: "TwoLevelIterator \<Rightarrow> byte list option" where
  "two_level_value t = (if two_level_Valid t then Option.bind (data_iter t) it_value else None)"

definition two_level_Status :: "TwoLevelIterator \<Rightarrow> status option" where
  "two_level_Status t = (if it_status (index_iter t) \<noteq> None then it_status (index_iter t)
     else case data_iter t of None \<Rightarrow> two_level_status t
       | Some d \<Rightarrow> if it_status d \<noteq> None then it_status d else two_level_status t)"

definition SaveError :: "status option \<Rightarrow> TwoLevelIterator \<Rightarrow> TwoLevelIterator" where
  "SaveError s t = (if two_level_status t = None \<and> s \<noteq> None then t\<lparr>two_level_status := s\<rparr> else t)"

definition SetDataIterator :: "Iterator option \<Rightarrow> TwoLevelIterator \<Rightarrow> TwoLevelIterator" where
  "SetDataIterator d t = (let t = (case data_iter t of None \<Rightarrow> t | Some old \<Rightarrow> SaveError (it_status old) t) in t\<lparr>data_iter := d\<rparr>)"

text \<open>The block function turns an entry of the index into an iterator over the block.\<close>

definition InitDataBlock :: "(byte list \<Rightarrow> Iterator option) \<Rightarrow> TwoLevelIterator \<Rightarrow> TwoLevelIterator option" where
  "InitDataBlock block_function t = (if \<not> it_Valid (index_iter t) then Some (SetDataIterator None t)
     else case it_value (index_iter t) of None \<Rightarrow> None
     | Some handle \<Rightarrow> if data_iter t \<noteq> None \<and> handle = data_block_handle t then Some t
         else case block_function handle of None \<Rightarrow> None
         | Some iter \<Rightarrow> Some (SetDataIterator (Some iter) (t\<lparr>data_block_handle := handle\<rparr>)))"

text \<open>\<open>if (data_iter_ != NULL) data_iter_->...\<close>\<close>

definition on_data :: "(Iterator \<Rightarrow> Iterator option) \<Rightarrow> TwoLevelIterator \<Rightarrow> TwoLevelIterator option" where
  "on_data f t = (case data_iter t of None \<Rightarrow> Some t | Some d \<Rightarrow> map_option (\<lambda>d. t\<lparr>data_iter := Some d\<rparr>) (f d))"

partial_function (option) SkipEmptyDataBlocksForward :: "(byte list \<Rightarrow> Iterator option) \<Rightarrow> TwoLevelIterator \<Rightarrow> TwoLevelIterator option" where
  "SkipEmptyDataBlocksForward block_function t = (if \<not> two_level_Valid t
     then if \<not> it_Valid (index_iter t) then Some (SetDataIterator None t)
       else case it_Next (index_iter t) of None \<Rightarrow> None
       | Some i \<Rightarrow> (case InitDataBlock block_function (t\<lparr>index_iter := i\<rparr>) of None \<Rightarrow> None
         | Some t \<Rightarrow> (case on_data it_SeekToFirst t of None \<Rightarrow> None
           | Some t \<Rightarrow> SkipEmptyDataBlocksForward block_function t))
     else Some t)"

definition two_level_Seek :: "(byte list \<Rightarrow> Iterator option) \<Rightarrow> byte list \<Rightarrow> TwoLevelIterator \<Rightarrow> TwoLevelIterator option" where
  "two_level_Seek block_function target t = (case it_Seek target (index_iter t) of None \<Rightarrow> None
     | Some i \<Rightarrow> (case InitDataBlock block_function (t\<lparr>index_iter := i\<rparr>) of None \<Rightarrow> None
       | Some t \<Rightarrow> (case on_data (it_Seek target) t of None \<Rightarrow> None | Some t \<Rightarrow> SkipEmptyDataBlocksForward block_function t)))"

definition two_level_SeekToFirst :: "(byte list \<Rightarrow> Iterator option) \<Rightarrow> TwoLevelIterator \<Rightarrow> TwoLevelIterator option" where
  "two_level_SeekToFirst block_function t = (case it_SeekToFirst (index_iter t) of None \<Rightarrow> None
     | Some i \<Rightarrow> (case InitDataBlock block_function (t\<lparr>index_iter := i\<rparr>) of None \<Rightarrow> None
       | Some t \<Rightarrow> (case on_data it_SeekToFirst t of None \<Rightarrow> None | Some t \<Rightarrow> SkipEmptyDataBlocksForward block_function t)))"

definition two_level_Next :: "(byte list \<Rightarrow> Iterator option) \<Rightarrow> TwoLevelIterator \<Rightarrow> TwoLevelIterator option" where
  "two_level_Next block_function t = (if \<not> two_level_Valid t then None
     else case on_data it_Next t of None \<Rightarrow> None | Some t \<Rightarrow> SkipEmptyDataBlocksForward block_function t)"

subsection \<open>The table\<close>

text \<open>The file as it is read, and the Snappy library. The address is that of the buffer of a read.\<close>

record source =
  read_file :: "64 word \<Rightarrow> nat \<Rightarrow> status + byte list \<times> bool"
  uncompressed_length :: "byte list \<Rightarrow> nat option"
  uncompress :: "byte list \<Rightarrow> byte list option"
  buffer_address :: "BlockHandle \<Rightarrow> nat"

definition read_block :: "source \<Rightarrow> BlockHandle \<Rightarrow> (status + BlockContents) option" where
  "read_block src h = ReadBlock (read_file src) (uncompressed_length src) (uncompress src) (buffer_address src h) h"

record Table_Rep =
  open_options :: Options
  open_file :: source
  metaindex_block :: BlockHandle
  table_index_block :: Block

definition Open :: "Options \<Rightarrow> source \<Rightarrow> 64 word \<Rightarrow> (status + Table_Rep) option" where
  "Open opt src file_size = (if unat file_size < kEncodedLength then Some (Inl (DataLoss ''file is too short to be an sstable''))
     else case read_file src (file_size - of_nat kEncodedLength) kEncodedLength of Inl e \<Rightarrow> Some (Inl e)
     | Inr (footer_input, _) \<Rightarrow>
       (case DecodeFooterFrom footer_input \<lparr>metaindex_handle = BlockHandle_new, index_handle = BlockHandle_new\<rparr> of None \<Rightarrow> None
       | Some (Some e, _, _) \<Rightarrow> Some (Inl e)
       | Some (None, footer, _) \<Rightarrow>
         (case read_block src (index_handle footer) of None \<Rightarrow> None
         | Some (Inl e) \<Rightarrow> Some (Inl e)
         | Some (Inr contents) \<Rightarrow> (case Block_new (block_text contents) of None \<Rightarrow> None
           | Some b \<Rightarrow> Some (Inr \<lparr>open_options = opt, open_file = src, metaindex_block = metaindex_handle footer, table_index_block = b\<rparr>)))))"

definition BlockReader :: "Table_Rep \<Rightarrow> byte list \<Rightarrow> Iterator option" where
  "BlockReader table index_value = (case DecodeHandleFrom index_value BlockHandle_new of
       (Some e, _) \<Rightarrow> Some (NewErrorIterator (Some e))
     | (None, handle, _) \<Rightarrow> (case read_block (open_file table) handle of None \<Rightarrow> None
       | Some (Inl e) \<Rightarrow> Some (NewErrorIterator (Some e))
       | Some (Inr contents) \<Rightarrow> (case Block_new (block_text contents) of None \<Rightarrow> None | Some b \<Rightarrow> Block_NewIterator b)))"

definition Table_NewIterator :: "Table_Rep \<Rightarrow> TwoLevelIterator option" where
  "Table_NewIterator table = map_option NewTwoLevelIterator (Block_NewIterator (table_index_block table))"

text \<open>The status, and the pair that the callback is given.\<close>

definition InternalGet :: "Table_Rep \<Rightarrow> byte list \<Rightarrow> (status option \<times> (byte list \<times> byte list) option) option" where
  "InternalGet table k = (case Block_NewIterator (table_index_block table) of None \<Rightarrow> None
     | Some iiter \<Rightarrow> (case it_Seek k iiter of None \<Rightarrow> None
     | Some iiter \<Rightarrow> (case (if it_Valid iiter
         then case it_value iiter of None \<Rightarrow> None
           | Some handle \<Rightarrow> (case BlockReader table handle of None \<Rightarrow> None
           | Some block_iter \<Rightarrow> (case it_Seek k block_iter of None \<Rightarrow> None
           | Some block_iter \<Rightarrow> if it_Valid block_iter
               then (case (it_key block_iter, it_value block_iter) of (Some key, Some v) \<Rightarrow> Some (it_status block_iter, Some (key, v)) | _ \<Rightarrow> None)
               else Some (it_status block_iter, None)))
         else Some (None, None)) of None \<Rightarrow> None
       | Some (s, saved) \<Rightarrow> Some (if s = None then it_status iiter else s, saved))))"

definition ApproximateOffsetOf :: "Table_Rep \<Rightarrow> byte list \<Rightarrow> 64 word option" where
  "ApproximateOffsetOf table key = (case Block_NewIterator (table_index_block table) of None \<Rightarrow> None
     | Some iiter \<Rightarrow> (case it_Seek key iiter of None \<Rightarrow> None
     | Some iiter \<Rightarrow> if it_Valid iiter
         then (case it_value iiter of None \<Rightarrow> None
           | Some input \<Rightarrow> (case DecodeHandleFrom input BlockHandle_new of
               (None, handle, _) \<Rightarrow> Some (offset_of handle)
             | (Some e, _) \<Rightarrow> Some (offset_of (metaindex_block table))))
         else Some (offset_of (metaindex_block table))))"

subsection \<open>An iterator over a block, with its position\<close>

lemma ParseNextKey_frame:
  assumes "ParseNextKey it = Some (b, it')"
  shows "block_data it' = block_data it \<and> restarts_at it' = restarts_at it \<and> num_restarts it' = num_restarts it"
proof -
  have "block_data it' = block_data it \<and> restarts_at it' = restarts_at it \<and> num_restarts it' = num_restarts it"
    if "advance_restart it = Some it'" for it it' :: Iter
    using that
  proof (induction it rule: advance_restart.induct)
    case (1 it)
    then show ?case by (subst (asm) (2) advance_restart.simps) (auto split: if_splits option.splits)
  qed
  then show ?thesis using assms by (fastforce simp: ParseNextKey_def Let_def CorruptionError_def split: if_splits entry.splits)
qed

lemma skip_to_frame: "skip_to target it = Some it' \<Longrightarrow> block_data it' = block_data it \<and> restarts_at it' = restarts_at it \<and> num_restarts it' = num_restarts it"
proof (rule skip_to.raw_induct[of "\<lambda>_ it it'. block_data it' = block_data it \<and> restarts_at it' = restarts_at it \<and> num_restarts it' = num_restarts it"])
  fix f :: "byte list \<Rightarrow> Iter \<Rightarrow> Iter option" and target :: "byte list" and it it'
  assume step: "\<And>target it it'. f target it = Some it' \<Longrightarrow> block_data it' = block_data it \<and> restarts_at it' = restarts_at it \<and> num_restarts it' = num_restarts it"
    and run: "(case ParseNextKey it of None \<Rightarrow> None
      | Some (found, it) \<Rightarrow> if \<not> found \<or> \<not> bytes_less (iter_key it) target then Some it else f target it) = Some it'"
  from run obtain b it1 where p: "ParseNextKey it = Some (b, it1)" by (cases "ParseNextKey it") auto
  note fr = ParseNextKey_frame[OF p]
  show "block_data it' = block_data it \<and> restarts_at it' = restarts_at it \<and> num_restarts it' = num_restarts it"
  proof (cases "\<not> b \<or> \<not> bytes_less (iter_key it1) target")
    case True
    then have "it' = it1" using run unfolding p by simp
    then show ?thesis using fr by simp
  next
    case False
    then have "f target it1 = Some it'" using run unfolding p by simp
    from step[OF this] show ?thesis using fr by simp
  qed
qed

text \<open>The iterator is over the pairs of a block and stands before \<open>xs\<close>.\<close>

definition stands :: "(byte list \<times> byte list) list \<Rightarrow> (byte list \<times> byte list) list \<Rightarrow> Iterator \<Rightarrow> bool" where
  "stands kvs xs i \<longleftrightarrow> (\<exists>it ns. i = BlockIterator it \<and> over_block kvs ns it \<and> stands_before xs it)"

definition over :: "(byte list \<times> byte list) list \<Rightarrow> Iterator \<Rightarrow> bool" where
  "over kvs i \<longleftrightarrow> (\<exists>it ns. i = BlockIterator it \<and> over_block kvs ns it)"

lemma stands_over: "stands kvs xs i \<Longrightarrow> over kvs i"
  by (auto simp: stands_def over_def)

lemma over_status: "over kvs i \<Longrightarrow> it_status i = None"
  by (auto simp: over_def over_block_def)

lemma over_block_cong:
  assumes "over_block kvs ns it" and "block_data it' = block_data it \<and> restarts_at it' = restarts_at it \<and> num_restarts it' = num_restarts it"
    and "iter_status it' = OK"
  shows "over_block kvs ns it'"
proof -
  have "GetRestartPoint it' = GetRestartPoint it" using assms(2) by (simp add: GetRestartPoint_def fun_eq_iff)
  then show ?thesis using assms unfolding over_block_def by auto
qed

lemma before_status: "stands_before xs it \<Longrightarrow> iter_status it = OK"
  by (cases xs) (auto simp: reads_def)

lemma SeekToRestartPoint_frame: "SeekToRestartPoint i it = Some it' \<Longrightarrow> block_data it' = block_data it \<and> restarts_at it' = restarts_at it \<and> num_restarts it' = num_restarts it"
  by (auto simp: SeekToRestartPoint_def split: option.splits)

lemma SeekToFirst_stands: "over kvs i \<Longrightarrow> \<exists>i'. it_SeekToFirst i = Some i' \<and> stands kvs kvs i'"
proof -
  assume "over kvs i"
  then obtain it ns where i: "i = BlockIterator it" "over_block kvs ns it" by (auto simp: over_def)
  obtain it' where it': "SeekToFirst it = Some it'" "stands_before kvs it'" using SeekToFirst_before[OF i(2)] by blast
  then have "block_data it' = block_data it \<and> restarts_at it' = restarts_at it \<and> num_restarts it' = num_restarts it"
    unfolding SeekToFirst_def using SeekToRestartPoint_frame[of 0 it] ParseNextKey_frame by (fastforce split: option.splits)
  then show ?thesis using over_block_cong[OF i(2)] before_status it' i(1) unfolding stands_def by auto
qed

lemma Seek_stands:
  assumes "over kvs i" and "sorted_wrt bytes_less (map fst kvs)"
  shows "\<exists>i'. it_Seek target i = Some i' \<and> stands kvs (dropWhile (\<lambda>kv. bytes_less (fst kv) target) kvs) i'"
proof -
  obtain it ns where i: "i = BlockIterator it" "over_block kvs ns it" using assms(1) by (auto simp: over_def)
  obtain it' where it': "Seek target it = Some it'" "stands_before (dropWhile (\<lambda>kv. bytes_less (fst kv) target) kvs) it'"
    using Seek_finds[OF i(2) assms(2)] by blast
  have "num_restarts it \<noteq> 0" using i(2) by (auto simp: over_block_def restart_list_def)
  then obtain left where "search_restarts target 0 (num_restarts it - 1) it = Some (Inr left)"
    using search_restarts_left[OF i(2), of 0 "num_restarts it - 1" target] i(2) by (auto simp: over_block_def)
  then have "block_data it' = block_data it \<and> restarts_at it' = restarts_at it \<and> num_restarts it' = num_restarts it"
    using it'(1) SeekToRestartPoint_frame skip_to_frame by (fastforce simp: Seek_def split: option.splits)
  then show ?thesis using over_block_cong[OF i(2)] before_status it' i(1) unfolding stands_def by auto
qed

definition it_item :: "Iterator \<Rightarrow> (byte list \<times> byte list) option" where
  "it_item i = (case (it_key i, it_value i) of (Some k, Some v) \<Rightarrow> Some (k, v) | _ \<Rightarrow> None)"

interpretation block: iterator it_Valid it_item it_Next "stands kvs" for kvs
proof
  fix x xs i
  assume "stands kvs (x # xs) i"
  then obtain it ns where i: "i = BlockIterator it" "over_block kvs ns it" "stands_before (x # xs) it" by (auto simp: stands_def)
  obtain it' where it': "Valid it" "item_of it = Some x" "Next it = Some it'" "stands_before xs it'" using block_iterator.at_item[OF i(3)] by blast
  then have "block_data it' = block_data it \<and> restarts_at it' = restarts_at it \<and> num_restarts it' = num_restarts it"
    using ParseNextKey_frame[of it] by (fastforce simp: Next_def)
  then show "it_Valid i \<and> it_item i = Some x \<and> (\<exists>i'. it_Next i = Some i' \<and> stands kvs xs i')"
    using over_block_cong[OF i(2)] before_status it' i(1) unfolding stands_def by (auto simp: it_item_def item_of_def)
qed (auto simp: stands_def block_iterator.at_end)

lemma stands_Valid: "stands kvs xs i \<Longrightarrow> it_Valid i \<longleftrightarrow> xs \<noteq> []"
  using block.at_item[of kvs _ _ i] block.at_end[of kvs i] by (cases xs) blast+

lemma stands_key_value: "stands kvs ((k, v) # xs) i \<Longrightarrow> it_Valid i \<and> it_key i = Some k \<and> it_value i = Some v"
  using block.at_item[of kvs "(k, v)" xs i] by (auto simp: it_item_def split: option.splits)

subsection \<open>The iterator over the blocks of an index\<close>

text \<open>The block function finds every chunk, and chunks under one handle are the same.\<close>

definition finds_chunks :: "(byte list \<Rightarrow> Iterator option) \<Rightarrow> ((byte list \<times> byte list) list \<times> BlockHandle) list \<Rightarrow> bool" where
  "finds_chunks bf chunks \<longleftrightarrow> (\<forall>c \<in> set chunks. \<exists>i. bf (handle_bytes (snd c)) = Some i \<and> over (fst c) i)
     \<and> (\<forall>c \<in> set chunks. \<forall>c' \<in> set chunks. handle_bytes (snd c) = handle_bytes (snd c') \<longrightarrow> fst c = fst c')"

definition data_ok :: "((byte list \<times> byte list) list \<times> BlockHandle) list \<Rightarrow> TwoLevelIterator \<Rightarrow> bool" where
  "data_ok chunks t \<longleftrightarrow> (case data_iter t of None \<Rightarrow> True
     | Some d \<Rightarrow> \<exists>c \<in> set chunks. data_block_handle t = handle_bytes (snd c) \<and> over (fst c) d)"

definition index_at :: "(byte list \<times> byte list) list \<Rightarrow> nat \<Rightarrow> TwoLevelIterator \<Rightarrow> bool" where
  "index_at ip n t \<longleftrightarrow> stands ip (drop n ip) (index_iter t)"

definition data_at :: "((byte list \<times> byte list) list \<times> BlockHandle) list \<Rightarrow> nat \<Rightarrow> (byte list \<times> byte list) list \<Rightarrow> TwoLevelIterator \<Rightarrow> bool" where
  "data_at chunks n ys t \<longleftrightarrow> n < length chunks \<and> data_block_handle t = handle_bytes (snd (chunks ! n))
     \<and> (\<exists>d. data_iter t = Some d \<and> stands (fst (chunks ! n)) ys d)"

text \<open>The iterator stands before \<open>xs\<close>.\<close>

definition two_level_stands :: "byte list list \<Rightarrow> ((byte list \<times> byte list) list \<times> BlockHandle) list \<Rightarrow> (byte list \<times> byte list) list \<Rightarrow> TwoLevelIterator \<Rightarrow> bool" where
  "two_level_stands seps chunks xs t \<longleftrightarrow> two_level_status t = None \<and> (\<exists>n. index_at (index_pairs seps chunks) n t
     \<and> (if xs = [] then data_iter t = None
        else \<exists>ys. ys \<noteq> [] \<and> data_at chunks n ys t \<and> xs = ys @ concat (map fst (drop (Suc n) chunks))))"

text \<open>A state that the operations keep, wherever the iterator is.\<close>

definition two_level_ok :: "byte list list \<Rightarrow> ((byte list \<times> byte list) list \<times> BlockHandle) list \<Rightarrow> TwoLevelIterator \<Rightarrow> bool" where
  "two_level_ok seps chunks t \<longleftrightarrow> two_level_status t = None \<and> over (index_pairs seps chunks) (index_iter t) \<and> data_ok chunks t"

definition index_of :: "(byte list \<Rightarrow> Iterator option) \<Rightarrow> byte list list \<Rightarrow> ((byte list \<times> byte list) list \<times> BlockHandle) list \<Rightarrow> bool" where
  "index_of bf seps chunks \<longleftrightarrow> finds_chunks bf chunks \<and> length seps = length chunks \<and> separates seps (map fst chunks)
     \<and> (\<forall>c \<in> set chunks. fst c \<noteq> []) \<and> sorted_wrt bytes_less (map fst (concat (map fst chunks)))"

lemma data_ok_index [simp]: "data_ok chunks (t\<lparr>index_iter := i\<rparr>) = data_ok chunks t"
  by (simp add: data_ok_def split: option.split)

lemma data_at_ok: "data_at chunks n ys t \<Longrightarrow> data_ok chunks t"
  using stands_over nth_mem unfolding data_at_def data_ok_def by fastforce

lemma two_level_stands_ok: "two_level_stands seps chunks xs t \<Longrightarrow> two_level_ok seps chunks t"
  using stands_over data_at_ok unfolding two_level_stands_def two_level_ok_def index_at_def
  by (auto simp: data_ok_def split: if_splits)

lemma SetDataIterator_ok: "data_ok chunks t \<Longrightarrow> SetDataIterator d t = t\<lparr>data_iter := d\<rparr>"
  using over_status by (auto simp: SetDataIterator_def data_ok_def SaveError_def split: option.splits)

lemma index_pairs_length: "length seps = length chunks \<Longrightarrow> length (index_pairs seps chunks) = length chunks"
  by (simp add: index_pairs_def)

lemma index_at_entry:
  assumes "index_at (index_pairs seps chunks) n t" and "length seps = length chunks" and "n < length chunks"
  shows "it_Valid (index_iter t) \<and> it_value (index_iter t) = Some (handle_bytes (snd (chunks ! n)))
    \<and> (\<exists>i. it_Next (index_iter t) = Some i \<and> index_at (index_pairs seps chunks) (Suc n) (t\<lparr>index_iter := i\<rparr>))"
proof -
  let ?ip = "index_pairs seps chunks"
  have "drop n ?ip = (seps ! n, handle_bytes (snd (chunks ! n))) # drop (Suc n) ?ip"
    using assms(2,3) by (subst Cons_nth_drop_Suc[symmetric]) (simp_all add: index_pairs_def)
  then have "stands ?ip ((seps ! n, handle_bytes (snd (chunks ! n))) # drop (Suc n) ?ip) (index_iter t)"
    using assms(1) by (simp add: index_at_def)
  from stands_key_value[OF this] block.at_item[OF this] show ?thesis by (auto simp: index_at_def)
qed

lemma index_at_end:
  assumes "index_at (index_pairs seps chunks) n t" and "length seps = length chunks" and "length chunks \<le> n"
  shows "\<not> it_Valid (index_iter t)"
  using assms block.at_end by (simp add: index_at_def index_pairs_length)

lemma InitDataBlock_at:
  assumes x: "index_of bf seps chunks" and i: "index_at (index_pairs seps chunks) n t" and n: "n < length chunks" and d: "data_ok chunks t"
  shows "\<exists>t' i. InitDataBlock bf t = Some t' \<and> index_iter t' = index_iter t \<and> two_level_status t' = two_level_status t
    \<and> data_block_handle t' = handle_bytes (snd (chunks ! n)) \<and> data_iter t' = Some i \<and> over (fst (chunks ! n)) i"
proof -
  have len: "length seps = length chunks" and f: "finds_chunks bf chunks" using x by (simp_all add: index_of_def)
  have c: "chunks ! n \<in> set chunks" using n by simp
  have e: "it_Valid (index_iter t)" "it_value (index_iter t) = Some (handle_bytes (snd (chunks ! n)))" using index_at_entry[OF i len n] by auto
  show ?thesis
  proof (cases "data_iter t \<noteq> None \<and> handle_bytes (snd (chunks ! n)) = data_block_handle t")
    case True
    then obtain d' c' where "data_iter t = Some d'" "c' \<in> set chunks" "data_block_handle t = handle_bytes (snd c')" "over (fst c') d'"
      using d by (auto simp: data_ok_def)
    moreover from this have "fst c' = fst (chunks ! n)" using f c True unfolding finds_chunks_def by metis
    ultimately show ?thesis using e True by (simp add: InitDataBlock_def)
  next
    case False
    obtain i where "bf (handle_bytes (snd (chunks ! n))) = Some i" "over (fst (chunks ! n)) i" using f c unfolding finds_chunks_def by blast
    moreover have "SetDataIterator (Some i) (t\<lparr>data_block_handle := h\<rparr>) = t\<lparr>data_block_handle := h, data_iter := Some i\<rparr>" for h
      using d over_status by (auto simp: SetDataIterator_def data_ok_def SaveError_def split: option.splits)
    ultimately show ?thesis using e False by (auto simp: InitDataBlock_def)
  qed
qed

lemma InitDataBlock_end:
  "\<not> it_Valid (index_iter t) \<Longrightarrow> data_ok chunks t \<Longrightarrow> InitDataBlock bf t = Some (t\<lparr>data_iter := None\<rparr>)"
  by (simp add: InitDataBlock_def SetDataIterator_ok)

text \<open>From a place in a block to the place before the pairs that are left.\<close>

lemma Skip_end:
  assumes "index_at (index_pairs seps chunks) n t" and "length seps = length chunks" "length chunks \<le> n" and "data_iter t = None"
  shows "SkipEmptyDataBlocksForward bf t = Some t"
  using index_at_end[OF assms(1-3)] assms(4)
  by (subst SkipEmptyDataBlocksForward.simps) (simp add: two_level_Valid_def SetDataIterator_def)

lemma Skip_stands:
  assumes x: "index_of bf seps chunks" and s: "two_level_status t = None" and i: "index_at (index_pairs seps chunks) n t" and d: "data_at chunks n ys t"
  shows "\<exists>t'. SkipEmptyDataBlocksForward bf t = Some t' \<and> two_level_stands seps chunks (ys @ concat (map fst (drop (Suc n) chunks))) t'"
proof (cases "ys = []")
  case False
  then obtain y zs where "ys = y # zs" by (cases ys) simp_all
  then have "two_level_Valid t" using d stands_Valid by (auto simp: data_at_def two_level_Valid_def)
  then have "SkipEmptyDataBlocksForward bf t = Some t" by (subst SkipEmptyDataBlocksForward.simps) simp
  then show ?thesis using False d i s by (auto simp: two_level_stands_def)
next
  case True
  have len: "length seps = length chunks" using x by (simp add: index_of_def)
  have n: "n < length chunks" and nv: "\<not> two_level_Valid t" using d stands_Valid by (auto simp: data_at_def two_level_Valid_def True)
  obtain it where it: "it_Valid (index_iter t)" "it_Next (index_iter t) = Some it" "index_at (index_pairs seps chunks) (Suc n) (t\<lparr>index_iter := it\<rparr>)"
    using index_at_entry[OF i len n] by blast
  have dk: "data_ok chunks (t\<lparr>index_iter := it\<rparr>)" using data_at_ok[OF d] by simp
  show ?thesis
  proof (cases "Suc n < length chunks")
    case more: True
    obtain t1 j where t1: "InitDataBlock bf (t\<lparr>index_iter := it\<rparr>) = Some t1" "index_iter t1 = it" "two_level_status t1 = None"
      "data_block_handle t1 = handle_bytes (snd (chunks ! Suc n))" "data_iter t1 = Some j" "over (fst (chunks ! Suc n)) j"
      using InitDataBlock_at[OF x it(3) more dk] s by auto
    obtain j' where j': "it_SeekToFirst j = Some j'" "stands (fst (chunks ! Suc n)) (fst (chunks ! Suc n)) j'" using SeekToFirst_stands[OF t1(6)] by blast
    define t2 where "t2 = t1\<lparr>data_iter := Some j'\<rparr>"
    have ne: "fst (chunks ! Suc n) \<noteq> []" using x more by (simp add: index_of_def)
    then obtain y zs where yz: "fst (chunks ! Suc n) = y # zs" by (cases "fst (chunks ! Suc n)") simp_all
    have "two_level_Valid t2" using j'(2) stands_Valid by (auto simp: t2_def two_level_Valid_def yz)
    then have "SkipEmptyDataBlocksForward bf t2 = Some t2" by (subst SkipEmptyDataBlocksForward.simps) simp
    then have "SkipEmptyDataBlocksForward bf t = Some t2"
      using nv it(1,2) t1(1,5) j'(1) by (subst SkipEmptyDataBlocksForward.simps) (simp add: on_data_def t2_def)
    moreover have "index_at (index_pairs seps chunks) (Suc n) t2" using it(3) t1(2) by (simp add: index_at_def t2_def)
    moreover have "data_at chunks (Suc n) (fst (chunks ! Suc n)) t2" using more t1(4) j'(2) by (simp add: data_at_def t2_def)
    moreover have "drop (Suc n) chunks = chunks ! Suc n # drop (Suc (Suc n)) chunks" using more by (rule Cons_nth_drop_Suc[symmetric])
    ultimately show ?thesis using True ne t1(3) by (auto simp: two_level_stands_def t2_def)
  next
    case last: False
    have iv: "\<not> it_Valid it" using index_at_end[OF it(3) len] last by simp
    define t1 where "t1 = t\<lparr>index_iter := it, data_iter := None\<rparr>"
    have "InitDataBlock bf (t\<lparr>index_iter := it\<rparr>) = Some t1" using InitDataBlock_end[OF _ dk] iv by (simp add: t1_def)
    moreover have ix: "index_at (index_pairs seps chunks) (Suc n) t1" using it(3) by (simp add: index_at_def t1_def)
    moreover have "SkipEmptyDataBlocksForward bf t1 = Some t1" using Skip_end[OF ix len] last by (simp add: t1_def)
    ultimately have "SkipEmptyDataBlocksForward bf t = Some t1"
      using nv it(1,2) by (subst SkipEmptyDataBlocksForward.simps) (simp add: on_data_def t1_def)
    then show ?thesis using ix s last True by (auto simp: two_level_stands_def t1_def)
  qed
qed

text \<open>The block under the index entry, positioned by \<open>f\<close>, and the blocks behind it.\<close>

lemma block_then_rest:
  assumes x: "index_of bf seps chunks" and ok: "two_level_ok seps chunks t" and i: "stands (index_pairs seps chunks) (drop n (index_pairs seps chunks)) it"
    and n: "n < length chunks" and f: "\<And>j. over (fst (chunks ! n)) j \<Longrightarrow> \<exists>j'. f j = Some j' \<and> stands (fst (chunks ! n)) ys j'"
  shows "\<exists>t' t''. InitDataBlock bf (t\<lparr>index_iter := it\<rparr>) = Some t' \<and> (case on_data f t' of None \<Rightarrow> None | Some t \<Rightarrow> SkipEmptyDataBlocksForward bf t) = Some t''
    \<and> two_level_stands seps chunks (ys @ concat (map fst (drop (Suc n) chunks))) t''"
proof -
  have ix: "index_at (index_pairs seps chunks) n (t\<lparr>index_iter := it\<rparr>)" using i by (simp add: index_at_def)
  have st: "two_level_status t = None" "data_ok chunks (t\<lparr>index_iter := it\<rparr>)" using ok by (simp_all add: two_level_ok_def)
  obtain t1 j where t1: "InitDataBlock bf (t\<lparr>index_iter := it\<rparr>) = Some t1" "index_iter t1 = it" "two_level_status t1 = None"
      "data_block_handle t1 = handle_bytes (snd (chunks ! n))" "data_iter t1 = Some j" "over (fst (chunks ! n)) j"
    using InitDataBlock_at[OF x ix n st(2)] st(1) by auto
  obtain j' where j': "f j = Some j'" "stands (fst (chunks ! n)) ys j'" using f[OF t1(6)] by blast
  define t2 where "t2 = t1\<lparr>data_iter := Some j'\<rparr>"
  have "two_level_status t2 = None" "index_at (index_pairs seps chunks) n t2" "data_at chunks n ys t2"
    using t1 i n j'(2) by (simp_all add: t2_def index_at_def data_at_def)
  from Skip_stands[OF x this] obtain t3 where "SkipEmptyDataBlocksForward bf t2 = Some t3"
    "two_level_stands seps chunks (ys @ concat (map fst (drop (Suc n) chunks))) t3" by blast
  then show ?thesis using t1(1,5) j'(1) by (intro exI[of _ t1] exI[of _ t3]) (simp add: on_data_def t2_def)
qed

lemma no_block:
  assumes x: "index_of bf seps chunks" and ok: "two_level_ok seps chunks t" and i: "stands (index_pairs seps chunks) [] it"
  shows "\<exists>t' t''. InitDataBlock bf (t\<lparr>index_iter := it\<rparr>) = Some t' \<and> (case on_data f t' of None \<Rightarrow> None | Some t \<Rightarrow> SkipEmptyDataBlocksForward bf t) = Some t''
    \<and> two_level_stands seps chunks [] t''"
proof -
  have len: "length seps = length chunks" using x by (simp add: index_of_def)
  define t1 where "t1 = t\<lparr>index_iter := it, data_iter := None\<rparr>"
  have "InitDataBlock bf (t\<lparr>index_iter := it\<rparr>) = Some t1"
    using InitDataBlock_end[of "t\<lparr>index_iter := it\<rparr>" chunks bf] stands_Valid[OF i] ok by (simp add: t1_def two_level_ok_def)
  moreover have ix: "index_at (index_pairs seps chunks) (length chunks) t1" using i len by (simp add: index_at_def t1_def index_pairs_length)
  moreover have "SkipEmptyDataBlocksForward bf t1 = Some t1" using Skip_end[OF ix len] by (simp add: t1_def)
  moreover have "two_level_stands seps chunks [] t1" using ix ok by (auto simp: two_level_stands_def t1_def two_level_ok_def)
  ultimately show ?thesis by (intro exI[of _ t1]) (simp add: on_data_def t1_def)
qed

lemma two_level_SeekToFirst_stands:
  assumes x: "index_of bf seps chunks" and ok: "two_level_ok seps chunks t"
  shows "\<exists>t'. two_level_SeekToFirst bf t = Some t' \<and> two_level_stands seps chunks (concat (map fst chunks)) t'"
proof -
  obtain it where it: "it_SeekToFirst (index_iter t) = Some it" "stands (index_pairs seps chunks) (index_pairs seps chunks) it"
    using SeekToFirst_stands ok by (metis two_level_ok_def)
  show ?thesis
  proof (cases chunks)
    case Nil
    then have "index_pairs seps chunks = []" by (simp add: index_pairs_def)
    then show ?thesis using no_block[OF x ok, of it it_SeekToFirst] it Nil by (auto simp: two_level_SeekToFirst_def)
  next
    case (Cons c cs)
    then show ?thesis using block_then_rest[OF x ok, of 0 it it_SeekToFirst "fst c"] it SeekToFirst_stands[of "fst c"]
      by (auto simp: two_level_SeekToFirst_def)
  qed
qed

definition two_level_item :: "TwoLevelIterator \<Rightarrow> (byte list \<times> byte list) option" where
  "two_level_item t = (case (two_level_key t, two_level_value t) of (Some k, Some v) \<Rightarrow> Some (k, v) | _ \<Rightarrow> None)"

lemma two_level_Next_stands:
  assumes x: "index_of bf seps chunks" and s: "two_level_stands seps chunks ((k, v) # xs) t"
  shows "two_level_Valid t \<and> two_level_key t = Some k \<and> two_level_value t = Some v
    \<and> (\<exists>t'. two_level_Next bf t = Some t' \<and> two_level_stands seps chunks xs t')"
proof -
  obtain n ys where n: "two_level_status t = None" "index_at (index_pairs seps chunks) n t" "ys \<noteq> []" "data_at chunks n ys t"
    "(k, v) # xs = ys @ concat (map fst (drop (Suc n) chunks))" using s by (auto simp: two_level_stands_def)
  obtain zs where ys: "ys = (k, v) # zs" "xs = zs @ concat (map fst (drop (Suc n) chunks))" using n(3,5) by (cases ys) auto
  obtain d where d: "data_iter t = Some d" "stands (fst (chunks ! n)) ((k, v) # zs) d" using n(4) by (auto simp: data_at_def ys(1))
  obtain d' where d': "it_Next d = Some d'" "stands (fst (chunks ! n)) zs d'" using block.at_item[OF d(2)] by blast
  have kv: "two_level_Valid t" "two_level_key t = Some k" "two_level_value t = Some v"
    using stands_key_value[OF d(2)] d(1) by (simp_all add: two_level_Valid_def two_level_key_def two_level_value_def)
  have "data_at chunks n zs (t\<lparr>data_iter := Some d'\<rparr>)" "index_at (index_pairs seps chunks) n (t\<lparr>data_iter := Some d'\<rparr>)"
    using n(2,4) d'(2) by (simp_all add: data_at_def index_at_def)
  from Skip_stands[OF x _ this(2,1)] n(1) obtain t' where "SkipEmptyDataBlocksForward bf (t\<lparr>data_iter := Some d'\<rparr>) = Some t'"
    "two_level_stands seps chunks xs t'" by (auto simp: ys(2))
  then show ?thesis using kv d(1) d'(1) by (simp add: two_level_Next_def on_data_def)
qed

text \<open>A chunk behind the keys that the index skips.\<close>

lemma seps_sorted:
  assumes "separates seps (map fst chunks)" and "length seps = length chunks" and "\<forall>c \<in> set chunks. fst c \<noteq> []"
  shows "sorted_wrt bytes_less seps"
proof (unfold sorted_wrt_iff_nth_less, intro allI impI)
  fix i j assume ij: "i < j" "j < length seps"
  obtain kv kvs where c: "fst (chunks ! j) = kv # kvs" using assms(2,3) ij(2) by (cases "fst (chunks ! j)") auto
  have "bytes_less (seps ! i) (fst kv)" using separates_below[OF assms(1), of i j kv] ij assms(2) c by simp
  moreover have "\<not> bytes_less (seps ! j) (fst kv)" using separates_above[OF assms(1), of j kv] ij assms(2) c by simp
  then have "fst kv = seps ! j \<or> bytes_less (fst kv) (seps ! j)" using bytes_total[of "fst kv" "seps ! j"] by blast
  ultimately show "bytes_less (seps ! i) (seps ! j)" using bytes_less_trans[of "seps ! i" "fst kv" "seps ! j"] by auto
qed

lemma dropWhile_middle:
  assumes "\<And>x. x \<in> set pre \<Longrightarrow> P x" and "\<And>x. x \<in> set post \<Longrightarrow> \<not> P x"
  shows "dropWhile P (pre @ c @ post) = dropWhile P c @ post"
proof -
  have "dropWhile P post = post" using assms(2) by (cases post) simp_all
  then have "dropWhile P (c @ post) = dropWhile P c @ post" by (induction c) simp_all
  then show ?thesis using assms(1) by (simp add: dropWhile_append2)
qed

lemma chunks_around: "n < length chunks \<Longrightarrow> concat (map fst chunks) = concat (map fst (take n chunks)) @ fst (chunks ! n) @ concat (map fst (drop (Suc n) chunks))"
  by (subst id_take_nth_drop[of n chunks]) simp_all

text \<open>The chunk that the index finds for a key.\<close>

definition found_at :: "byte list list \<Rightarrow> byte list \<Rightarrow> nat" where
  "found_at seps target = length (takeWhile (\<lambda>s. bytes_less s target) seps)"

lemma index_Seek:
  assumes x: "index_of bf seps chunks" and o: "over (index_pairs seps chunks) i"
  shows "\<exists>i'. it_Seek target i = Some i' \<and> stands (index_pairs seps chunks) (drop (found_at seps target) (index_pairs seps chunks)) i'"
proof -
  have len: "length seps = length chunks" using x by (simp add: index_of_def)
  then have f: "map fst (index_pairs seps chunks) = seps" by (simp add: index_pairs_def)
  then have "sorted_wrt bytes_less (map fst (index_pairs seps chunks))" using x seps_sorted[of seps chunks] unfolding f by (simp add: index_of_def)
  moreover have "length (takeWhile (\<lambda>kv. bytes_less (fst kv) target) (index_pairs seps chunks)) = found_at seps target"
    unfolding found_at_def by (subst f[symmetric]) (simp add: takeWhile_map o_def)
  then have "dropWhile (\<lambda>kv. bytes_less (fst kv) target) (index_pairs seps chunks) = drop (found_at seps target) (index_pairs seps chunks)"
    by (simp add: dropWhile_eq_drop)
  ultimately show ?thesis using Seek_stands[OF o] by metis
qed

lemma skipped_below:
  assumes x: "index_of bf seps chunks" and i: "i < found_at seps target" and kv: "kv \<in> set (fst (chunks ! i))"
  shows "bytes_less (fst kv) target"
proof -
  have len: "length seps = length chunks" "separates seps (map fst chunks)" using x by (simp_all add: index_of_def)
  have il: "i < length seps" using i length_takeWhile_le[of "\<lambda>s. bytes_less s target" seps] by (simp add: found_at_def)
  have "bytes_less (seps ! i) target" using i nth_mem[of i "takeWhile (\<lambda>s. bytes_less s target) seps"]
    by (auto simp: found_at_def takeWhile_nth dest: set_takeWhileD)
  moreover have "\<not> bytes_less (seps ! i) (fst kv)" using separates_above[OF len(2), of i kv] kv il len(1) by simp
  ultimately show ?thesis using not_less_trans by blast
qed

lemma behind_above:
  assumes x: "index_of bf seps chunks" and n: "found_at seps target < j" and j: "j < length chunks" and kv: "kv \<in> set (fst (chunks ! j))"
  shows "bytes_less target (fst kv)"
proof -
  let ?n = "found_at seps target"
  have len: "length seps = length chunks" "separates seps (map fst chunks)" using x by (simp_all add: index_of_def)
  have "\<not> bytes_less (seps ! ?n) target"
    using nth_length_takeWhile[of "\<lambda>s. bytes_less s target" seps] n j len(1) by (simp add: found_at_def)
  moreover have "bytes_less (seps ! ?n) (fst kv)" using separates_below[OF len(2), of ?n j kv] n j kv len(1) by simp
  ultimately show ?thesis by (rule not_less_trans)
qed

lemma found_chunk:
  fixes target :: "byte list"
  assumes x: "index_of bf seps chunks"
  defines "n \<equiv> found_at seps target"
  shows "dropWhile (\<lambda>kv. bytes_less (fst kv) target) (concat (map fst chunks))
    = (if n < length chunks then dropWhile (\<lambda>kv. bytes_less (fst kv) target) (fst (chunks ! n)) @ concat (map fst (drop (Suc n) chunks)) else [])"
proof -
  have pre: "bytes_less (fst kv) target" if kv: "kv \<in> set (concat (map fst (take n chunks)))" for kv
  proof -
    obtain c where c: "c \<in> set (take n chunks)" "kv \<in> set (fst c)" using kv by auto
    then obtain i where "i < n" "c = chunks ! i" by (auto simp: in_set_conv_nth)
    then show ?thesis using skipped_below[OF x, of i target kv] c(2) by (simp add: n_def)
  qed
  show ?thesis
  proof (cases "n < length chunks")
    case True
    have post: "\<not> bytes_less (fst kv) target" if kv: "kv \<in> set (concat (map fst (drop (Suc n) chunks)))" for kv
    proof -
      obtain c where c: "c \<in> set (drop (Suc n) chunks)" "kv \<in> set (fst c)" using kv by auto
      then obtain i where "i < length chunks - Suc n" "c = chunks ! (Suc n + i)" by (auto simp: in_set_conv_nth)
      then show ?thesis using behind_above[OF x, of target "Suc n + i" kv] c(2) not_less_swap by (simp add: n_def)
    qed
    show ?thesis unfolding chunks_around[OF True] using True by (subst dropWhile_middle[OF pre post]) simp_all
  next
    case False
    then show ?thesis using pre by simp
  qed
qed

lemma chunk_sorted: "sorted_wrt bytes_less (map fst (concat (map fst chunks))) \<Longrightarrow> c \<in> set chunks \<Longrightarrow> sorted_wrt bytes_less (map fst (fst c))"
  by (induction chunks) (auto simp: sorted_wrt_append)

lemma two_level_Seek_stands:
  assumes x: "index_of bf seps chunks" and ok: "two_level_ok seps chunks t"
  shows "\<exists>t'. two_level_Seek bf target t = Some t'
    \<and> two_level_stands seps chunks (dropWhile (\<lambda>kv. bytes_less (fst kv) target) (concat (map fst chunks))) t'"
proof -
  let ?n = "found_at seps target"
  obtain it where it: "it_Seek target (index_iter t) = Some it" "stands (index_pairs seps chunks) (drop ?n (index_pairs seps chunks)) it"
    using index_Seek[OF x] ok by (metis two_level_ok_def)
  show ?thesis
  proof (cases "?n < length chunks")
    case True
    have so: "sorted_wrt bytes_less (map fst (fst (chunks ! ?n)))" using chunk_sorted[of chunks "chunks ! ?n"] x True unfolding index_of_def by simp
    show ?thesis using block_then_rest[OF x ok it(2) True, of "it_Seek target" "dropWhile (\<lambda>kv. bytes_less (fst kv) target) (fst (chunks ! ?n))"]
        Seek_stands[OF _ so] it(1) True unfolding found_chunk[OF x] two_level_Seek_def by (auto split: option.splits)
  next
    case False
    then have "drop ?n (index_pairs seps chunks) = []" using x by (simp add: index_of_def index_pairs_def)
    then show ?thesis using no_block[OF x ok, of it "it_Seek target"] it False unfolding found_chunk[OF x] two_level_Seek_def
      by (auto split: option.splits)
  qed
qed

interpretation two_level: iterator two_level_Valid two_level_item "two_level_Next bf"
    "\<lambda>xs t. index_of bf seps chunks \<and> two_level_stands seps chunks xs t" for bf seps chunks
proof
  fix t
  assume "index_of bf seps chunks \<and> two_level_stands seps chunks [] t"
  then show "\<not> two_level_Valid t" by (auto simp: two_level_stands_def two_level_Valid_def)
next
  fix x xs t
  assume a: "index_of bf seps chunks \<and> two_level_stands seps chunks (x # xs) t"
  obtain k v where "x = (k, v)" by fastforce
  then show "two_level_Valid t \<and> two_level_item t = Some x
      \<and> (\<exists>t'. two_level_Next bf t = Some t' \<and> index_of bf seps chunks \<and> two_level_stands seps chunks xs t')"
    using two_level_Next_stands[of bf seps chunks k v xs t] a by (auto simp: two_level_item_def)
qed

subsection \<open>Opening the file that was written\<close>

definition reads_source :: "source \<Rightarrow> byte list \<Rightarrow> bool" where
  "reads_source src cs \<longleftrightarrow> reads_file (read_file src) cs"

text \<open>The same as an equation, for a source with the bytes of \<open>cs\<close> and the Snappy library of the writer.\<close>

definition stored_in :: "source \<Rightarrow> byte list \<Rightarrow> BlockHandle \<Rightarrow> (byte list \<times> byte list) list \<Rightarrow> bool" where
  "stored_in src cs h kvs \<longleftrightarrow> stored_pairs (uncompressed_length src) (uncompress src) cs h kvs"

lemma stored_block_opens:
  assumes r: "reads_source src cs" and s: "stored_in src cs h kvs"
  shows "\<exists>bc b i. read_block src h = Some (Inr bc) \<and> Block_new (block_text bc) = Some b \<and> Block_NewIterator b = Some i \<and> over kvs i"
proof -
  obtain interval bb where b: "seekable interval bb kvs" "length (fst (Finish bb)) < 2 ^ 32"
    "stored_block (uncompressed_length src) (uncompress src) cs h (fst (Finish bb))"
    using s unfolding stored_in_def stored_pairs_def by blast
  obtain bc where "read_block src h = Some (Inr bc)" "block_text bc = fst (Finish bb)"
    using ReadBlock_stored[OF _ b(3)] r unfolding read_block_def reads_source_def by blast
  moreover obtain blk ns it where "Block_new (fst (Finish bb)) = Some blk" "NewIterator blk = Some (Inr (Some it))" "over_block kvs ns it"
    using opened_over_block[OF b(1,2)] by blast
  ultimately show ?thesis by (auto simp: Block_NewIterator_def over_def)
qed

lemma over_unique: "over kvs i \<Longrightarrow> over kvs' i \<Longrightarrow> kvs = kvs'"
proof -
  assume o: "over kvs i" "over kvs' i"
  obtain i' where i': "it_SeekToFirst i = Some i'" "stands kvs kvs i'" "stands kvs' kvs' i'"
    using SeekToFirst_stands[OF o(1)] SeekToFirst_stands[OF o(2)] by auto
  have "collect it_Valid it_item it_Next (length kvs + length kvs') i' = Some kvs" using block.collects[OF i'(2)] by simp
  moreover have "collect it_Valid it_item it_Next (length kvs + length kvs') i' = Some kvs'" using block.collects[OF i'(3)] by simp
  ultimately show ?thesis by simp
qed

lemma stored_unique:
  assumes "reads_source src cs" and "stored_in src cs h kvs" and "stored_in src cs h kvs'"
  shows "kvs = kvs'"
  using stored_block_opens[OF assms(1,2)] stored_block_opens[OF assms(1,3)] over_unique by auto

lemma handle_bytes_inj: "handle_bytes h = handle_bytes h' \<Longrightarrow> h = h'"
  using DecodeHandle_bytes[of h "[]"] DecodeHandle_bytes[of h' "[]"] by (metis prod.inject)

definition opened :: "Table_Rep \<Rightarrow> byte list list \<Rightarrow> ((byte list \<times> byte list) list \<times> BlockHandle) list \<Rightarrow> bool" where
  "opened table seps chunks \<longleftrightarrow> index_of (BlockReader table) seps chunks \<and> (\<exists>i. Block_NewIterator (table_index_block table) = Some i \<and> over (index_pairs seps chunks) i)"

lemma BlockReader_stored:
  assumes "reads_source (open_file table) cs" and "stored_in (open_file table) cs h kvs"
  shows "\<exists>i. BlockReader table (handle_bytes h) = Some i \<and> over kvs i"
  using stored_block_opens[OF assms] DecodeHandle_bytes[of h "[]"] by (auto simp: BlockReader_def)

lemma Open_stored:
  assumes r: "reads_source src cs" and t: "table_file (uncompressed_length src) (uncompress src) cs kvs"
  shows "\<exists>table seps chunks. Open opt src (of_nat (length cs)) = Some (Inr table) \<and> opened table seps chunks \<and> kvs = concat (map fst chunks)
    \<and> (\<forall>c \<in> set chunks. stored_in src cs (snd c) (fst c))"
proof -
  obtain front foot f seps chunks where c: "cs = front @ foot" "length foot = kEncodedLength" "length cs < 2 ^ 63"
    and f: "\<forall>f0 rest. DecodeFooterFrom (foot @ rest) f0 = Some (None, f, rest)"
    and ti: "table_index (uncompressed_length src) (uncompress src) cs (index_handle f) seps chunks" and kvs: "kvs = concat (map fst chunks)"
    using t unfolding table_file_def by blast
  have x: "stored_in src cs (index_handle f) (index_pairs seps chunks)" "length seps = length chunks" "separates seps (map fst chunks)"
    "\<And>c. c \<in> set chunks \<Longrightarrow> fst c \<noteq> [] \<and> stored_in src cs (snd c) (fst c)" "sorted_wrt bytes_less (map fst (concat (map fst chunks)))"
    using ti by (simp_all add: table_index_def stored_in_def)
  obtain bc b i where b: "read_block src (index_handle f) = Some (Inr bc)" "Block_new (block_text bc) = Some b" "Block_NewIterator b = Some i"
    "over (index_pairs seps chunks) i" using stored_block_opens[OF r x(1)] by blast
  define table where "table = \<lparr>open_options = opt, open_file = src, metaindex_block = metaindex_handle f, table_index_block = b\<rparr>"
  have len: "unat (of_nat (length cs) :: 64 word) = length cs" using c(3) by (simp add: unat_of_nat)
  have "unat (of_nat (length cs) - of_nat kEncodedLength :: 64 word) = length front"
    using c by (simp add: unat_of_nat flip: of_nat_diff)
  then obtain u where "read_file src (of_nat (length cs) - of_nat kEncodedLength) kEncodedLength = Inr (foot, u)"
    using reads_fileD[OF r[unfolded reads_source_def], of kEncodedLength "of_nat (length cs) - of_nat kEncodedLength"] c(1,2) by auto
  moreover have "DecodeFooterFrom foot f0 = Some (None, f, [])" for f0 using f by (metis append_Nil2)
  moreover have "kEncodedLength \<le> length cs" using c by simp
  ultimately have "Open opt src (of_nat (length cs)) = Some (Inr table)"
    using b(1,2) len by (simp add: Open_def table_def)
  moreover have "index_of (BlockReader table) seps chunks"
  proof -
    have "\<exists>i. BlockReader table (handle_bytes (snd c)) = Some i \<and> over (fst c) i" if "c \<in> set chunks" for c
      using BlockReader_stored[of table cs "snd c" "fst c"] r x(4)[OF that] by (simp add: table_def)
    moreover have "fst c = fst c'" if "c \<in> set chunks" "c' \<in> set chunks" "handle_bytes (snd c) = handle_bytes (snd c')" for c c'
    proof -
      have "stored_in src cs (snd c) (fst c')" using x(4)[OF that(2)] handle_bytes_inj[OF that(3)] by simp
      then show ?thesis using stored_unique[OF r] x(4)[OF that(1)] by blast
    qed
    ultimately have "finds_chunks (BlockReader table) chunks" unfolding finds_chunks_def by blast
    then show ?thesis using x(2-5) unfolding index_of_def by blast
  qed
  ultimately show ?thesis using b(3,4) kvs x(4) unfolding opened_def by (intro exI[of _ table] exI[of _ seps] exI[of _ chunks]) (simp add: table_def)
qed

subsection \<open>What a client reads\<close>

definition read_table :: "nat \<Rightarrow> Table_Rep \<Rightarrow> (byte list \<times> byte list) list option" where
  "read_table n table = (case Table_NewIterator table of None \<Rightarrow> None
     | Some t \<Rightarrow> (case two_level_SeekToFirst (BlockReader table) t of None \<Rightarrow> None
       | Some t \<Rightarrow> collect two_level_Valid two_level_item (two_level_Next (BlockReader table)) n t))"

definition read_from :: "byte list \<Rightarrow> nat \<Rightarrow> Table_Rep \<Rightarrow> (byte list \<times> byte list) list option" where
  "read_from target n table = (case Table_NewIterator table of None \<Rightarrow> None
     | Some t \<Rightarrow> (case two_level_Seek (BlockReader table) target t of None \<Rightarrow> None
       | Some t \<Rightarrow> collect two_level_Valid two_level_item (two_level_Next (BlockReader table)) n t))"

lemma new_iterator_ok:
  "opened table seps chunks \<Longrightarrow> \<exists>t. Table_NewIterator table = Some t \<and> two_level_ok seps chunks t"
  by (auto simp: opened_def Table_NewIterator_def NewTwoLevelIterator_def two_level_ok_def data_ok_def)

lemma read_table_opened:
  assumes o: "opened table seps chunks" and n: "length (concat (map fst chunks)) \<le> n"
  shows "read_table n table = Some (concat (map fst chunks))"
proof -
  have x: "index_of (BlockReader table) seps chunks" using o by (simp add: opened_def)
  obtain t where t: "Table_NewIterator table = Some t" "two_level_ok seps chunks t" using new_iterator_ok[OF o] by blast
  obtain t' where "two_level_SeekToFirst (BlockReader table) t = Some t'" "two_level_stands seps chunks (concat (map fst chunks)) t'"
    using two_level_SeekToFirst_stands[OF x t(2)] by blast
  then show ?thesis using two_level.collects[of "BlockReader table" seps chunks "concat (map fst chunks)" t' n] x n t(1) by (simp add: read_table_def)
qed

lemma read_from_opened:
  assumes o: "opened table seps chunks" and n: "length (concat (map fst chunks)) \<le> n"
  shows "read_from target n table = Some (dropWhile (\<lambda>kv. bytes_less (fst kv) target) (concat (map fst chunks)))"
proof -
  let ?xs = "dropWhile (\<lambda>kv. bytes_less (fst kv) target) (concat (map fst chunks))"
  have x: "index_of (BlockReader table) seps chunks" using o by (simp add: opened_def)
  obtain t where t: "Table_NewIterator table = Some t" "two_level_ok seps chunks t" using new_iterator_ok[OF o] by blast
  obtain t' where "two_level_Seek (BlockReader table) target t = Some t'" "two_level_stands seps chunks ?xs t'"
    using two_level_Seek_stands[OF x t(2)] by blast
  moreover have "length ?xs \<le> n" using n length_dropWhile_le le_trans by blast
  ultimately show ?thesis using two_level.collects[of "BlockReader table" seps chunks ?xs t' n] x t(1) by (simp add: read_from_def)
qed

text \<open>What the index says of a key.\<close>

lemma index_finds:
  fixes k :: "byte list"
  assumes o: "opened table seps chunks"
  defines "n \<equiv> found_at seps k"
  shows "\<exists>i i'. Block_NewIterator (table_index_block table) = Some i \<and> it_Seek k i = Some i' \<and> it_status i' = None
    \<and> (if n < length chunks then it_Valid i' \<and> it_value i' = Some (handle_bytes (snd (chunks ! n))) else \<not> it_Valid i')"
proof -
  have x: "index_of (BlockReader table) seps chunks" using o by (simp add: opened_def)
  then have len: "length seps = length chunks" by (simp add: index_of_def)
  obtain i where i: "Block_NewIterator (table_index_block table) = Some i" "over (index_pairs seps chunks) i" using o by (auto simp: opened_def)
  obtain i' where i': "it_Seek k i = Some i'" "stands (index_pairs seps chunks) (drop n (index_pairs seps chunks)) i'"
    using index_Seek[OF x i(2)] unfolding n_def by blast
  then have "index_at (index_pairs seps chunks) n (NewTwoLevelIterator i')" by (simp add: index_at_def NewTwoLevelIterator_def)
  then have "if n < length chunks then it_Valid i' \<and> it_value i' = Some (handle_bytes (snd (chunks ! n))) else \<not> it_Valid i'"
    using index_at_entry[of seps chunks n "NewTwoLevelIterator i'"] index_at_end[of seps chunks n "NewTwoLevelIterator i'"] len
    by (auto simp: NewTwoLevelIterator_def)
  then show ?thesis using i(1) i' over_status stands_over by blast
qed

text \<open>The chunk of a key is the one that the index finds.\<close>

lemma key_in_found:
  assumes x: "index_of bf seps chunks" and j: "j < length chunks" and kv: "(k, v) \<in> set (fst (chunks ! j))"
  shows "j = found_at seps k"
proof (rule ccontr)
  assume "j \<noteq> found_at seps k"
  then consider "j < found_at seps k" | "found_at seps k < j" by linarith
  then have "bytes_less k k"
    using skipped_below[OF x, of j k "(k, v)"] behind_above[OF x, of k j "(k, v)"] j kv by cases simp_all
  then show False by simp
qed

lemma dropWhile_to_key:
  assumes "sorted_wrt bytes_less (map fst kvs)" and "(k, v) \<in> set kvs"
  shows "\<exists>rest. dropWhile (\<lambda>kv. bytes_less (fst kv) k) kvs = (k, v) # rest"
  using assms by (induction kvs) (auto simp: not_less_swap)

lemma InternalGet_opened:
  assumes o: "opened table seps chunks"
  defines "kvs \<equiv> concat (map fst chunks)"
  shows "\<exists>saved. InternalGet table k = Some (None, saved) \<and> (\<forall>v. (k, v) \<in> set kvs \<longrightarrow> saved = Some (k, v))
    \<and> (\<forall>kv. saved = Some kv \<longrightarrow> kv \<in> set kvs \<and> \<not> bytes_less (fst kv) k)"
proof -
  let ?n = "found_at seps k" and ?P = "\<lambda>kv. bytes_less (fst kv) k"
  have x: "index_of (BlockReader table) seps chunks" using o by (simp add: opened_def)
  obtain i i' where i: "Block_NewIterator (table_index_block table) = Some i" "it_Seek k i = Some i'" "it_status i' = None"
    "if ?n < length chunks then it_Valid i' \<and> it_value i' = Some (handle_bytes (snd (chunks ! ?n))) else \<not> it_Valid i'"
    using index_finds[OF o] by blast
  have here: "(k, v) \<in> set (fst (chunks ! ?n)) \<and> ?n < length chunks" if kv: "(k, v) \<in> set kvs" for v
  proof -
    obtain c where c: "c \<in> set chunks" "(k, v) \<in> set (fst c)" using kv by (auto simp: kvs_def)
    then obtain j where "j < length chunks" "(k, v) \<in> set (fst (chunks ! j))" by (metis in_set_conv_nth)
    then show ?thesis using key_in_found[OF x, of j k v] by simp
  qed
  show ?thesis
  proof (cases "?n < length chunks")
    case True
    define c where "c = fst (chunks ! ?n)"
    have mem: "chunks ! ?n \<in> set chunks" using True by simp
    have so: "sorted_wrt bytes_less (map fst c)" using chunk_sorted[OF _ mem] x unfolding index_of_def c_def by blast
    have sub: "set c \<subseteq> set kvs" using mem by (auto simp: c_def kvs_def)
    obtain b where b: "BlockReader table (handle_bytes (snd (chunks ! ?n))) = Some b" "over c b"
      using x mem unfolding index_of_def finds_chunks_def c_def by blast
    obtain b' where b': "it_Seek k b = Some b'" "stands c (dropWhile ?P c) b'" using Seek_stands[OF b(2) so] by blast
    have st: "it_status b' = None" using b'(2) stands_over over_status by blast
    show ?thesis
    proof (cases "dropWhile ?P c")
      case Nil
      then have "\<not> it_Valid b'" using stands_Valid[OF b'(2)] by simp
      then have "InternalGet table k = Some (None, None)" using i True b(1) b'(1) st by (simp add: InternalGet_def)
      moreover have "(k, v) \<notin> set kvs" for v using here[of v] Nil by (fastforce simp: c_def)
      ultimately show ?thesis by simp
    next
      case (Cons kv rest)
      obtain key v where kv: "kv = (key, v)" by fastforce
      have "InternalGet table k = Some (None, Some kv)"
        using i True b(1) b'(1) st stands_key_value[of c key v rest b'] b'(2) Cons kv by (simp add: InternalGet_def)
      moreover have "kv = (k, w)" if "(k, w) \<in> set kvs" for w using dropWhile_to_key[OF so, of k w] here[OF that] Cons by (simp add: c_def)
      moreover have "kv \<in> set kvs" using Cons sub set_dropWhileD[of kv ?P c] by auto
      moreover have "\<not> ?P kv" using hd_dropWhile[of ?P c] Cons by simp
      ultimately show ?thesis by auto
    qed
  next
    case False
    then have "InternalGet table k = Some (None, None)" using i by (simp add: InternalGet_def)
    then show ?thesis using here False by blast
  qed
qed

lemma ApproximateOffsetOf_opened:
  assumes o: "opened table seps chunks"
  shows "ApproximateOffsetOf table k = Some (if found_at seps k < length chunks then offset_of (snd (chunks ! found_at seps k)) else offset_of (metaindex_block table))"
  using index_finds[OF o, of k] DecodeHandle_bytes[of "snd (chunks ! found_at seps k)" "[]"]
  by (auto simp: ApproximateOffsetOf_def)

text \<open>The offset for a key of the table is that of the block of the key.\<close>

lemma key_offset:
  assumes o: "opened table seps chunks" and st: "\<forall>c \<in> set chunks. stored_in src cs (snd c) (fst c)"
  shows "\<forall>(k, v) \<in> set (concat (map fst chunks)). \<exists>h block. ApproximateOffsetOf table k = Some (offset_of h) \<and> stored_in src cs h block \<and> (k, v) \<in> set block"
proof clarify
  fix k v
  assume "(k, v) \<in> set (concat (map fst chunks))"
  then obtain c where c: "c \<in> set chunks" "(k, v) \<in> set (fst c)" by auto
  then obtain j where j: "j < length chunks" "c = chunks ! j" by (metis in_set_conv_nth)
  have "j = found_at seps k" using key_in_found[of "BlockReader table" seps chunks j k v] o c(2) j by (simp add: opened_def)
  then have "ApproximateOffsetOf table k = Some (offset_of (snd c))" using ApproximateOffsetOf_opened[OF o, of k] j by simp
  then show "\<exists>h block. ApproximateOffsetOf table k = Some (offset_of h) \<and> stored_in src cs h block \<and> (k, v) \<in> set block" using st c by blast
qed

subsection \<open>Written and read\<close>

definition write_table :: "'f environment \<Rightarrow> Options \<Rightarrow> 'f \<Rightarrow> (byte list \<times> byte list) list \<Rightarrow> (status option \<times> 'f Rep) option" where
  "write_table env opt f kvs = (case TableBuilder_new opt f of None \<Rightarrow> None
     | Some r \<Rightarrow> (case run_ops (add_to_table env) kvs r of None \<Rightarrow> None | Some r \<Rightarrow> TableFinish env r))"

lemma next_pairs_allowed:
  assumes "sorted_wrt bytes_less (map fst (pre @ kvs))" and "weight (pre @ kvs) < 2 ^ 30"
  shows "allowed next_pair (\<lambda>kv kvs. kvs @ [kv]) kvs pre"
  using assms
proof (induction kvs arbitrary: pre)
  case (Cons kv kvs)
  have "next_pair kv pre" using Cons(2,3) by (cases pre rule: rev_cases) (auto simp: next_pair_def sorted_wrt_append)
  then show ?case using Cons(1)[of "pre @ [kv]"] Cons(2,3) by simp
qed simp

lemma write_table_file:
  assumes "good_file env contents" "good_snappy env sl sn" "contents f = []" "1 \<le> block_restart_interval opt"
    and "sorted_wrt bytes_less (map fst kvs)" and "weight kvs < 2 ^ 30"
  shows "\<exists>r. write_table env opt f kvs = Some (None, r) \<and> table_file sl sn (contents (out_file r)) kvs \<and> FileSize r = of_nat (length (contents (out_file r)))"
proof -
  obtain r where r: "TableBuilder_new opt f = Some r" "table_pairs env contents sl sn r []" using TableBuilder_new_table_pairs[OF assms(1-4)] by blast
  obtain r1 where r1: "run_ops (add_to_table env) kvs r = Some r1" "table_pairs env contents sl sn r1 kvs"
    using table_builder.runs[OF r(2), of kvs] next_pairs_allowed[of "[]" kvs] assms(5,6) by (auto simp: fold_snoc)
  obtain r2 where r2: "TableFinish env r1 = Some (None, r2)" "table_file sl sn (contents (out_file r2)) kvs"
    "unat (out_offset r2) = length (contents (out_file r2))" using TableFinish_table_file[OF r1(2)] by blast
  moreover have "out_offset r2 = of_nat (unat (out_offset r2))" by simp
  ultimately show ?thesis using r(1) r1(1) by (auto simp only: write_table_def FileSize_def option.case)
qed

lemma written_opens:
  assumes "good_file env contents" "good_snappy env (uncompressed_length src) (uncompress src)" "contents f = []" "1 \<le> block_restart_interval opt"
    and "sorted_wrt bytes_less (map fst kvs)" and "weight kvs < 2 ^ 30"
  obtains r where "write_table env opt f kvs = Some (None, r)"
    "reads_source src (contents (out_file r)) \<longrightarrow> (\<exists>table seps chunks. Open opt' src (FileSize r) = Some (Inr table) \<and> opened table seps chunks
      \<and> kvs = concat (map fst chunks) \<and> (\<forall>c \<in> set chunks. stored_in src (contents (out_file r)) (snd c) (fst c)))"
proof -
  obtain r where "write_table env opt f kvs = Some (None, r)" "table_file (uncompressed_length src) (uncompress src) (contents (out_file r)) kvs"
    "FileSize r = of_nat (length (contents (out_file r)))" using write_table_file[OF assms] by blast
  then show ?thesis using that[of r] Open_stored[of src "contents (out_file r)" kvs opt'] by simp
qed

end
