(* ===== verification/InputBuffer.thy ===== *)
theory InputBuffer
  imports Records
begin

text \<open>
  A buffer on top of a file: tensorflow/core/lib/io/inputbuffer.cc and inputbuffer.h. The file is a
  parameter: a read gives a status and the bytes it found, whatever the status. The bytes between \<open>buf_\<close> and
  \<open>limit_\<close> are a list, \<open>pos_\<close> an offset into it.
\<close>

subsection \<open>The code\<close>

record InputBuffer =
  file_pos :: "64 word"
  buffer_size :: nat
  buffered :: "byte list"
  buffer_pos :: nat

definition InputBuffer_new :: "nat \<Rightarrow> InputBuffer" where
  "InputBuffer_new buffer_bytes = \<lparr>file_pos = 0, buffer_size = buffer_bytes, buffered = [], buffer_pos = 0\<rparr>"

definition Tell :: "InputBuffer \<Rightarrow> 64 word" where
  "Tell b = file_pos b - (of_nat (length (buffered b)) - of_nat (buffer_pos b))"

type_synonym file_read = "64 word \<Rightarrow> nat \<Rightarrow> status option \<times> byte list"

definition FillBuffer :: "file_read \<Rightarrow> InputBuffer \<Rightarrow> status option \<times> InputBuffer" where
  "FillBuffer rd b = (let (s, data) = rd (file_pos b) (buffer_size b) in
     (s, b\<lparr>buffered := data, buffer_pos := 0, file_pos := file_pos b + of_nat (length data)\<rparr>))"

definition IsOutOfRange :: "status option \<Rightarrow> bool" where
  "IsOutOfRange s = (case s of Some (OutOfRange m) \<Rightarrow> True | _ \<Rightarrow> False)"

text \<open>\<open>if (pos_ == limit_)\<close> at the head of each loop: the status, the buffer and whether there is nothing more to read.\<close>

definition refill :: "file_read \<Rightarrow> status option \<Rightarrow> InputBuffer \<Rightarrow> status option \<times> InputBuffer \<times> bool" where
  "refill rd s b = (if buffer_pos b = length (buffered b)
     then let (s, b) = FillBuffer rd b in (s, b, buffered b = []) else (s, b, False))"

text \<open>The loop of \<open>ReadLine\<close>. \<open>None\<close> is a loop that never ends; the counter \<open>i\<close> is never read. The
  line ends at a newline (then the status is OK) or when there is nothing more.\<close>

partial_function (option) line_loop :: "file_read \<Rightarrow> status option \<Rightarrow> InputBuffer \<Rightarrow> byte list \<Rightarrow> ((status option \<times> bool) \<times> byte list \<times> InputBuffer) option" where
  "line_loop rd s b result = (let (s, b, none) = refill rd s b in
     if none then Some ((s, False), result, b)
     else let c = buffered b ! buffer_pos b; b = b\<lparr>buffer_pos := buffer_pos b + 1\<rparr> in
       if c = 10 then Some ((None, True), result, b)
       else line_loop rd s b (if c \<noteq> 13 then result @ [c] else result))"

definition ReadLine :: "file_read \<Rightarrow> InputBuffer \<Rightarrow> (status option \<times> byte list \<times> InputBuffer) option" where
  "ReadLine rd b = (case line_loop rd None b [] of None \<Rightarrow> None
     | Some ((s, newline), result, b) \<Rightarrow> Some (if newline then None
         else if IsOutOfRange s \<and> result \<noteq> [] then None else s, result, b))"

partial_function (option) bytes_loop :: "file_read \<Rightarrow> nat \<Rightarrow> status option \<Rightarrow> InputBuffer \<Rightarrow> byte list \<Rightarrow> (status option \<times> byte list \<times> InputBuffer) option" where
  "bytes_loop rd n s b result = (if length result < n
     then let (s, b, none) = refill rd s b in
       if none then Some (s, result, b)
       else let bytes_to_copy = min (length (buffered b) - buffer_pos b) (n - length result) in
         bytes_loop rd n s (b\<lparr>buffer_pos := buffer_pos b + bytes_to_copy\<rparr>) (result @ take bytes_to_copy (drop (buffer_pos b) (buffered b)))
     else Some (s, result, b))"

definition ReadNBytes :: "file_read \<Rightarrow> int \<Rightarrow> InputBuffer \<Rightarrow> (status option \<times> byte list \<times> InputBuffer) option" where
  "ReadNBytes rd bytes_to_read b = (if bytes_to_read < 0 then Some (Some (OtherError ''Can't read a negative number of bytes''), [], b)
     else case bytes_loop rd (nat bytes_to_read) None b [] of None \<Rightarrow> None
     | Some (s, result, b) \<Rightarrow> Some (if IsOutOfRange s \<and> length result = nat bytes_to_read then None else s, result, b))"

partial_function (option) skip_loop :: "file_read \<Rightarrow> nat \<Rightarrow> status option \<Rightarrow> InputBuffer \<Rightarrow> nat \<Rightarrow> (status option \<times> nat \<times> InputBuffer) option" where
  "skip_loop rd n s b bytes_skipped = (if bytes_skipped < n
     then let (s, b, none) = refill rd s b in
       if none then Some (s, bytes_skipped, b)
       else let bytes_to_advance = min (length (buffered b) - buffer_pos b) (n - bytes_skipped) in
         skip_loop rd n s (b\<lparr>buffer_pos := buffer_pos b + bytes_to_advance\<rparr>) (bytes_skipped + bytes_to_advance)
     else Some (s, bytes_skipped, b))"

definition SkipNBytes :: "file_read \<Rightarrow> int \<Rightarrow> InputBuffer \<Rightarrow> (status option \<times> InputBuffer) option" where
  "SkipNBytes rd bytes_to_skip b = (if bytes_to_skip < 0 then Some (Some (OtherError ''Can only skip forward, not ''), b)
     else case skip_loop rd (nat bytes_to_skip) None b 0 of None \<Rightarrow> None
     | Some (s, bytes_skipped, b) \<Rightarrow> Some (if IsOutOfRange s \<and> bytes_skipped = nat bytes_to_skip then None else s, b))"

subsection \<open>What a client sees\<close>

text \<open>The documented behaviour of a read: as many bytes as there are, and \<open>OutOfRange\<close> when that is fewer than asked for.\<close>

definition regular_file :: "file_read \<Rightarrow> byte list \<Rightarrow> bool" where
  "regular_file rd cs \<longleftrightarrow> length cs < 2 ^ 63 \<and> (\<forall>offset n. \<exists>m. rd offset n =
     (if length cs - unat offset < n then Some (OutOfRange m) else None, take n (drop (unat offset) cs)))"

text \<open>The bytes that are still to be read.\<close>

definition to_read :: "byte list \<Rightarrow> InputBuffer \<Rightarrow> byte list \<Rightarrow> bool" where
  "to_read cs b rest \<longleftrightarrow> 0 < buffer_size b \<and> buffer_pos b \<le> length (buffered b) \<and> unat (file_pos b) \<le> length cs
     \<and> rest = drop (buffer_pos b) (buffered b) @ drop (unat (file_pos b)) cs
     \<and> length rest + unat (Tell b) = length cs"

text \<open>Reading from the list of bytes itself.\<close>

definition line_of :: "byte list \<Rightarrow> byte list" where
  "line_of rest = filter (\<lambda>c. c \<noteq> 13) (takeWhile (\<lambda>c. c \<noteq> 10) rest)"

definition after_line :: "byte list \<Rightarrow> byte list" where
  "after_line rest = drop 1 (dropWhile (\<lambda>c. c \<noteq> 10) rest)"

lemma FillBuffer_to_read:
  assumes rf: "regular_file rd cs" and t: "to_read cs b rest" and e: "buffer_pos b = length (buffered b)"
  shows "\<exists>s b'. FillBuffer rd b = (s, b') \<and> to_read cs b' rest \<and> (buffered b' = [] \<longleftrightarrow> rest = []) \<and> (s = None \<or> IsOutOfRange s)
    \<and> (rest = [] \<longrightarrow> IsOutOfRange s) \<and> buffer_pos b' = 0"
proof -
  obtain m where rd: "rd (file_pos b) (buffer_size b) = (if length cs - unat (file_pos b) < buffer_size b then Some (OutOfRange m) else None,
      take (buffer_size b) (drop (unat (file_pos b)) cs))" using rf unfolding regular_file_def by blast
  have r: "rest = drop (unat (file_pos b)) cs" using t e by (simp add: to_read_def)
  define data where "data = take (buffer_size b) rest"
  have len: "unat (file_pos b) + length data \<le> length cs" using t by (auto simp: data_def r to_read_def min_def)
  have cs: "length cs < 2 ^ 63" using rf by (simp add: regular_file_def)
  have fp: "unat (file_pos b + of_nat (length data)) = unat (file_pos b) + length data"
    using len cs by (simp add: unat_word_ariths unat_of_nat)
  let ?b = "b\<lparr>buffered := data, buffer_pos := 0, file_pos := file_pos b + of_nat (length data)\<rparr>"
  have "drop (unat (file_pos b) + length data) cs = drop (length data) rest" by (simp add: r add.commute)
  moreover have "drop (length data) rest = drop (buffer_size b) rest" by (simp add: data_def min_def)
  ultimately have "data @ drop (unat (file_pos b) + length data) cs = rest" by (simp add: data_def)
  moreover have "Tell ?b = file_pos b" by (simp add: Tell_def)
  ultimately have "to_read cs ?b rest" using t len fp e by (simp add: to_read_def r)
  moreover have "data = [] \<longleftrightarrow> rest = []" using t by (auto simp: data_def to_read_def)
  ultimately show ?thesis using rd t by (auto simp: FillBuffer_def r data_def IsOutOfRange_def to_read_def)
qed

lemma refill_to_read:
  assumes rf: "regular_file rd cs" and t: "to_read cs b rest" and s: "s = None \<or> IsOutOfRange s"
  shows "\<exists>s' b'. refill rd s b = (s', b', rest = []) \<and> to_read cs b' rest \<and> (rest \<noteq> [] \<longrightarrow> buffer_pos b' < length (buffered b'))
    \<and> (s' = None \<or> IsOutOfRange s') \<and> (rest = [] \<longrightarrow> IsOutOfRange s')"
proof (cases "buffer_pos b = length (buffered b)")
  case True
  then show ?thesis using FillBuffer_to_read[OF rf t True] by (auto simp: refill_def)
next
  case False
  then have "buffer_pos b < length (buffered b)" "rest \<noteq> []" using t by (auto simp: to_read_def)
  then show ?thesis using False t s by (auto simp: refill_def)
qed

lemma advance_to_read:
  assumes rf: "regular_file rd cs" and t: "to_read cs b rest" and k: "k \<le> length (buffered b) - buffer_pos b"
  shows "to_read cs (b\<lparr>buffer_pos := buffer_pos b + k\<rparr>) (drop k rest)" and "take k (drop (buffer_pos b) (buffered b)) = take k rest"
proof -
  have "buffer_pos b \<le> length (buffered b)" and r: "rest = drop (buffer_pos b) (buffered b) @ drop (unat (file_pos b)) cs"
    using t by (simp_all add: to_read_def)
  then have p: "buffer_pos b + k \<le> length (buffered b)" using k by simp
  show "take k (drop (buffer_pos b) (buffered b)) = take k rest" using k by (simp add: r)
  have "Tell (b\<lparr>buffer_pos := buffer_pos b + k\<rparr>) = Tell b + of_nat k" by (simp add: Tell_def)
  moreover have "unat (Tell b) + k \<le> length cs" "length cs < 2 ^ 63" using t k rf by (auto simp: to_read_def regular_file_def)
  ultimately have "unat (Tell (b\<lparr>buffer_pos := buffer_pos b + k\<rparr>)) = unat (Tell b) + k" by (simp add: unat_word_ariths unat_of_nat)
  moreover have "length (drop k rest) + (unat (Tell b) + k) = length cs" using t k by (auto simp: to_read_def)
  moreover have "drop k rest = drop (buffer_pos b + k) (buffered b) @ drop (unat (file_pos b)) cs" using k by (simp add: r add.commute)
  ultimately show "to_read cs (b\<lparr>buffer_pos := buffer_pos b + k\<rparr>) (drop k rest)" using t p by (simp add: to_read_def)
qed

lemma line_loop_reads:
  assumes rf: "regular_file rd cs"
  shows "to_read cs b rest \<Longrightarrow> s = None \<or> IsOutOfRange s \<Longrightarrow> \<exists>s' b'. line_loop rd s b result = Some ((s', 10 \<in> set rest), result @ line_of rest, b')
    \<and> to_read cs b' (after_line rest) \<and> (if 10 \<in> set rest then s' = None else IsOutOfRange s')"
proof (induction rest arbitrary: b s result)
  case Nil
  obtain s' b' where "refill rd s b = (s', b', True)" "to_read cs b' []" "IsOutOfRange s'" using refill_to_read[OF rf Nil] by auto
  then show ?case by (subst line_loop.simps) (simp add: line_of_def after_line_def)
next
  case (Cons c rest)
  obtain s' b' where m: "refill rd s b = (s', b', False)" "to_read cs b' (c # rest)" "buffer_pos b' < length (buffered b')" "s' = None \<or> IsOutOfRange s'"
    using refill_to_read[OF rf Cons(2,3)] by auto
  have "c # rest = drop (buffer_pos b') (buffered b') @ drop (unat (file_pos b')) cs" using m(2) by (simp add: to_read_def)
  then have c: "buffered b' ! buffer_pos b' = c" using m(3) by (simp add: Cons_nth_drop_Suc[symmetric])
  have t: "to_read cs (b'\<lparr>buffer_pos := buffer_pos b' + 1\<rparr>) rest"
    using advance_to_read(1)[OF rf m(2), of 1] m(3) by simp
  have run: "line_loop rd s b result = (if c = 10 then Some ((None, True), result, b'\<lparr>buffer_pos := buffer_pos b' + 1\<rparr>)
      else line_loop rd s' (b'\<lparr>buffer_pos := buffer_pos b' + 1\<rparr>) (if c \<noteq> 13 then result @ [c] else result))"
    by (subst line_loop.simps) (simp add: m(1) c)
  show ?case
  proof (cases "c = 10")
    case True
    then show ?thesis using t by (simp add: run line_of_def after_line_def)
  next
    case False
    then have e: "10 \<in> set (c # rest) \<longleftrightarrow> 10 \<in> set rest" "after_line (c # rest) = after_line rest"
      "result @ line_of (c # rest) = (if c \<noteq> 13 then result @ [c] else result) @ line_of rest" by (simp_all add: line_of_def after_line_def)
    show ?thesis using Cons(1)[OF t m(4), of "if c \<noteq> 13 then result @ [c] else result"] unfolding e run using False by simp
  qed
qed

lemma bytes_loop_reads:
  assumes rf: "regular_file rd cs"
  shows "to_read cs b rest \<Longrightarrow> s = None \<or> IsOutOfRange s \<Longrightarrow> length result \<le> n \<Longrightarrow> \<exists>s' b'. bytes_loop rd n s b result = Some (s', result @ take (n - length result) rest, b')
    \<and> to_read cs b' (drop (n - length result) rest) \<and> (s' = None \<or> IsOutOfRange s') \<and> (length rest < n - length result \<longrightarrow> IsOutOfRange s')"
proof (induction "n - length result" arbitrary: b s result rest rule: less_induct)
  case less
  show ?case
  proof (cases "length result < n")
    case True
    obtain s' b' where m: "refill rd s b = (s', b', rest = [])" "to_read cs b' rest" "rest \<noteq> [] \<longrightarrow> buffer_pos b' < length (buffered b')"
      "s' = None \<or> IsOutOfRange s'" "rest = [] \<longrightarrow> IsOutOfRange s'"
      using refill_to_read[OF rf less(2,3)] by blast
    show ?thesis
    proof (cases "rest = []")
      case True
      then show ?thesis using m \<open>length result < n\<close> by (subst bytes_loop.simps) simp
    next
      case False
      define k where "k = min (length (buffered b') - buffer_pos b') (n - length result)"
      have k: "0 < k" "k \<le> length (buffered b') - buffer_pos b'" "k \<le> n - length result" using m(3) False True by (auto simp: k_def)
      note a = advance_to_read[OF rf m(2) k(2)]
      have kr: "k \<le> length rest" using m(2) k(2) by (auto simp: to_read_def)
      have run: "bytes_loop rd n s b result = bytes_loop rd n s' (b'\<lparr>buffer_pos := buffer_pos b' + k\<rparr>) (result @ take k rest)"
        using True m(1) False a(2) by (subst bytes_loop.simps) (simp add: k_def[symmetric])
      have len: "length (result @ take k rest) = length result + k" using kr by simp
      have "n - length result = k + (n - (length result + k))" using k(3) True by simp
      then have take: "take k rest @ take (n - (length result + k)) (drop k rest) = take (n - length result) rest" by (metis take_add)
      have "n - (length result + k) < n - length result" "length (result @ take k rest) \<le> n" using k(1,3) True len by linarith+
      from less(1)[OF _ a(1) m(4) this(2)] this(1)
      obtain s2 b2 where "bytes_loop rd n s b result = Some (s2, (result @ take k rest) @ take (n - (length result + k)) (drop k rest), b2)"
        "to_read cs b2 (drop (n - (length result + k)) (drop k rest))" "s2 = None \<or> IsOutOfRange s2"
        "length (drop k rest) < n - (length result + k) \<longrightarrow> IsOutOfRange s2" unfolding run len by blast
      moreover have "drop (n - (length result + k)) (drop k rest) = drop (n - length result) rest" using k(3) True by simp
      moreover have "length rest < n - length result \<longrightarrow> length (drop k rest) < n - (length result + k)" using k(3) kr by auto
      ultimately show ?thesis using take by (intro exI[of _ s2] exI[of _ b2]) simp
    qed
  next
    case False
    then show ?thesis using less(2-4) by (subst bytes_loop.simps) simp
  qed
qed

lemma skip_loop_reads:
  assumes rf: "regular_file rd cs"
  shows "to_read cs b rest \<Longrightarrow> s = None \<or> IsOutOfRange s \<Longrightarrow> skipped \<le> n \<Longrightarrow> \<exists>s' b'. skip_loop rd n s b skipped = Some (s', min n (skipped + length rest), b')
    \<and> to_read cs b' (drop (n - skipped) rest) \<and> (s' = None \<or> IsOutOfRange s') \<and> (length rest < n - skipped \<longrightarrow> IsOutOfRange s')"
proof (induction "n - skipped" arbitrary: b s skipped rest rule: less_induct)
  case less
  show ?case
  proof (cases "skipped < n")
    case True
    obtain s' b' where m: "refill rd s b = (s', b', rest = [])" "to_read cs b' rest" "rest \<noteq> [] \<longrightarrow> buffer_pos b' < length (buffered b')"
      "s' = None \<or> IsOutOfRange s'" "rest = [] \<longrightarrow> IsOutOfRange s'"
      using refill_to_read[OF rf less(2,3)] by blast
    show ?thesis
    proof (cases "rest = []")
      case True
      then show ?thesis using m \<open>skipped < n\<close> by (subst skip_loop.simps) simp
    next
      case False
      define k where "k = min (length (buffered b') - buffer_pos b') (n - skipped)"
      have k: "0 < k" "k \<le> length (buffered b') - buffer_pos b'" "k \<le> n - skipped" using m(3) False True by (auto simp: k_def)
      note a = advance_to_read[OF rf m(2) k(2)]
      have kr: "k \<le> length rest" using m(2) k(2) by (auto simp: to_read_def)
      have run: "skip_loop rd n s b skipped = skip_loop rd n s' (b'\<lparr>buffer_pos := buffer_pos b' + k\<rparr>) (skipped + k)"
        using True m(1) False by (subst skip_loop.simps) (simp add: k_def[symmetric])
      have "n - (skipped + k) < n - skipped" "skipped + k \<le> n" using k(1,3) True by linarith+
      from less(1)[OF this(1) a(1) m(4) this(2)]
      obtain s2 b2 where "skip_loop rd n s b skipped = Some (s2, min n (skipped + k + length (drop k rest)), b2)"
        "to_read cs b2 (drop (n - (skipped + k)) (drop k rest))" "s2 = None \<or> IsOutOfRange s2"
        "length (drop k rest) < n - (skipped + k) \<longrightarrow> IsOutOfRange s2" unfolding run by blast
      moreover have "drop (n - (skipped + k)) (drop k rest) = drop (n - skipped) rest" "skipped + k + length (drop k rest) = skipped + length rest"
        using k(3) kr True by simp_all
      moreover have "length rest < n - skipped \<longrightarrow> length (drop k rest) < n - (skipped + k)" using k(3) kr by auto
      ultimately show ?thesis by (intro exI[of _ s2] exI[of _ b2]) simp
    qed
  next
    case False
    then show ?thesis using less(2-4) by (subst skip_loop.simps) simp
  qed
qed

subsection \<open>The reader as a simulation\<close>

datatype read_op = Line | Bytes int | Skip_bytes int

text \<open>What a call answers: fine, at the end of the file or refused, and the bytes.\<close>

datatype answer = Fine | End | Refused

definition answer_of :: "status option \<Rightarrow> answer" where
  "answer_of s = (if s = None then Fine else if IsOutOfRange s then End else Refused)"

fun do_read :: "file_read \<Rightarrow> read_op \<Rightarrow> InputBuffer \<times> (answer \<times> byte list) list \<Rightarrow> (InputBuffer \<times> (answer \<times> byte list) list) option" where
  "do_read rd Line (b, out) = map_option (\<lambda>(s, result, b). (b, out @ [(answer_of s, result)])) (ReadLine rd b)"
| "do_read rd (Bytes n) (b, out) = map_option (\<lambda>(s, result, b). (b, out @ [(answer_of s, result)])) (ReadNBytes rd n b)"
| "do_read rd (Skip_bytes n) (b, out) = map_option (\<lambda>(s, b). (b, out @ [(answer_of s, [])])) (SkipNBytes rd n b)"

text \<open>The same on the list of the bytes that are left.\<close>

fun spec_op :: "read_op \<Rightarrow> byte list \<times> (answer \<times> byte list) list \<Rightarrow> byte list \<times> (answer \<times> byte list) list" where
  "spec_op Line (rest, out) = (after_line rest, out @ [(if 10 \<in> set rest \<or> line_of rest \<noteq> [] then Fine else End, line_of rest)])"
| "spec_op (Bytes n) (rest, out) = (if n < 0 then (rest, out @ [(Refused, [])])
     else (drop (nat n) rest, out @ [(if nat n \<le> length rest then Fine else End, take (nat n) rest)]))"
| "spec_op (Skip_bytes n) (rest, out) = (if n < 0 then (rest, out @ [(Refused, [])])
     else (drop (nat n) rest, out @ [(if nat n \<le> length rest then Fine else End, [])]))"

definition reading :: "file_read \<Rightarrow> byte list \<Rightarrow> InputBuffer \<times> (answer \<times> byte list) list \<Rightarrow> byte list \<times> (answer \<times> byte list) list \<Rightarrow> bool" where
  "reading rd cs st a \<longleftrightarrow> regular_file rd cs \<and> to_read cs (fst st) (fst a) \<and> snd st = snd a"

lemma ReadLine_reads:
  assumes "regular_file rd cs" "to_read cs b rest"
  shows "\<exists>s b'. ReadLine rd b = Some (s, line_of rest, b') \<and> to_read cs b' (after_line rest)
    \<and> answer_of s = (if 10 \<in> set rest \<or> line_of rest \<noteq> [] then Fine else End)"
proof -
  obtain s' b' where l: "line_loop rd None b [] = Some ((s', 10 \<in> set rest), line_of rest, b')" "to_read cs b' (after_line rest)"
    "if 10 \<in> set rest then s' = None else IsOutOfRange s'" using line_loop_reads[OF assms, of None "[]"] by auto
  have "IsOutOfRange None = False" by (simp add: IsOutOfRange_def)
  then show ?thesis using l by (cases "10 \<in> set rest") (auto simp: ReadLine_def answer_of_def)
qed

lemma ReadNBytes_reads:
  assumes "regular_file rd cs" "to_read cs b rest" and "0 \<le> n"
  shows "\<exists>s b'. ReadNBytes rd n b = Some (s, take (nat n) rest, b') \<and> to_read cs b' (drop (nat n) rest)
    \<and> answer_of s = (if nat n \<le> length rest then Fine else End)"
proof -
  obtain s' b' where l: "bytes_loop rd (nat n) None b [] = Some (s', take (nat n) rest, b')" "to_read cs b' (drop (nat n) rest)"
    "s' = None \<or> IsOutOfRange s'" "length rest < nat n \<longrightarrow> IsOutOfRange s'" using bytes_loop_reads[OF assms(1,2), of None "[]" "nat n"] by auto
  have "IsOutOfRange None = False" by (simp add: IsOutOfRange_def)
  then show ?thesis using l assms(3) by (auto simp: ReadNBytes_def answer_of_def min_def)
qed

lemma SkipNBytes_reads:
  assumes "regular_file rd cs" "to_read cs b rest" and "0 \<le> n"
  shows "\<exists>s b'. SkipNBytes rd n b = Some (s, b') \<and> to_read cs b' (drop (nat n) rest) \<and> answer_of s = (if nat n \<le> length rest then Fine else End)"
proof -
  obtain s' b' where l: "skip_loop rd (nat n) None b 0 = Some (s', min (nat n) (length rest), b')" "to_read cs b' (drop (nat n) rest)"
    "s' = None \<or> IsOutOfRange s'" "length rest < nat n \<longrightarrow> IsOutOfRange s'" using skip_loop_reads[OF assms(1,2), of None 0 "nat n"] by auto
  have "IsOutOfRange None = False" by (simp add: IsOutOfRange_def)
  then show ?thesis using l assms(3) by (auto simp: SkipNBytes_def answer_of_def min_def)
qed

lemma refused: "n < 0 \<Longrightarrow> ReadNBytes rd n b = Some (Some (OtherError ''Can't read a negative number of bytes''), [], b)"
  "n < 0 \<Longrightarrow> SkipNBytes rd n b = Some (Some (OtherError ''Can only skip forward, not ''), b)" "answer_of (Some (OtherError m)) = Refused"
  by (simp_all add: ReadNBytes_def SkipNBytes_def answer_of_def IsOutOfRange_def)

interpretation reader: simulation "do_read rd" "reading rd cs" spec_op "\<lambda>p a. True" for rd cs
proof
  fix st a p
  assume r: "reading rd cs st a"
  obtain b out rest where st: "st = (b, out)" "a = (rest, out)" and rf: "regular_file rd cs" and t: "to_read cs b rest"
    using r by (cases st; cases a) (auto simp: reading_def)
  show "\<exists>st'. do_read rd p st = Some st' \<and> reading rd cs st' (spec_op p a)"
  proof (cases p)
    case Line
    then show ?thesis using ReadLine_reads[OF rf t] rf by (auto simp: st reading_def)
  next
    case (Bytes n)
    then show ?thesis using ReadNBytes_reads[OF rf t, of n] rf t by (cases "n < 0") (auto simp: st reading_def refused)
  next
    case (Skip_bytes n)
    then show ?thesis using SkipNBytes_reads[OF rf t, of n] rf t by (cases "n < 0") (auto simp: st reading_def refused)
  qed
qed

lemma new_to_read: "regular_file rd cs \<Longrightarrow> 0 < n \<Longrightarrow> to_read cs (InputBuffer_new n) cs"
  by (simp add: to_read_def InputBuffer_new_def Tell_def)

end
