(* ===== verification/EditDistance.thy ===== *)
theory EditDistance
  imports Prelude
begin

text \<open>
  The Levenshtein distance of tensorflow/core/lib/gtl/edit_distance.h: two rows of the table of distances,
  swapped before each element of the longer sequence. The comparison of elements is an argument. Lengths are
  \<open>int64\<close> in the code; a distance is at most the sum of the two lengths.

  The row that is filled with 0, 1, 2 \<dots> is the one that the first swap makes \<open>current\<close>, so the table starts with
  the zeros of the other row. What the code computes is the least distance to a suffix of the shorter sequence.
\<close>

subsection \<open>The code\<close>

text \<open>The inner loop, which fills the row \<open>current\<close> from the row \<open>previous\<close>.\<close>

definition fill_row :: "('a \<Rightarrow> 'a \<Rightarrow> bool) \<Rightarrow> 'a \<Rightarrow> 'a list \<Rightarrow> int list \<Rightarrow> int list \<Rightarrow> int list" where
  "fill_row cmp x t previous current = fold (\<lambda>j current. let cost = (if cmp x (t ! j) then 0 else 1) in
     current[j + 1 := min (current ! j + 1) (min (previous ! (j + 1) + 1) (previous ! j + cost))]) [0..<length t] current"

text \<open>The two rows after the loop over the longer sequence. \<open>InlinedVector\<close> initialises its elements with zeros.\<close>

definition all_rows :: "('a \<Rightarrow> 'a \<Rightarrow> bool) \<Rightarrow> 'a list \<Rightarrow> 'a list \<Rightarrow> int list \<times> int list" where
  "all_rows cmp s t = (let scratch0 = map int [0..<length t + 1]; scratch1 = replicate (length t + 1) 0 in
     fold (\<lambda>i (previous, current). let (previous, current) = (current, previous) in
       (previous, fill_row cmp (s ! i) t previous (current[0 := int i + 1]))) [0..<length s] (scratch0, scratch1))"

function LevenshteinDistance :: "'a list \<Rightarrow> 'a list \<Rightarrow> ('a \<Rightarrow> 'a \<Rightarrow> bool) \<Rightarrow> int" where
  "LevenshteinDistance s t cmp = (if length s = 0 then int (length t)
     else if length t = 0 then int (length s)
     else if s = t then 0
     else if length s < length t then LevenshteinDistance t s cmp
     else snd (all_rows cmp s t) ! length t)"
  by pat_completeness auto
termination by (relation "measure (\<lambda>(s, t, cmp). if length s < length t then 1 else 0)") auto

declare LevenshteinDistance.simps [simp del]

subsection \<open>Edits\<close>

text \<open>\<open>n\<close> insertions, deletions and substitutions make \<open>t\<close> of \<open>s\<close>.\<close>

inductive edits :: "('a \<Rightarrow> 'a \<Rightarrow> bool) \<Rightarrow> nat \<Rightarrow> 'a list \<Rightarrow> 'a list \<Rightarrow> bool" for cmp where
  finish: "edits cmp 0 [] []"
| keep: "cmp x y \<Longrightarrow> edits cmp n s t \<Longrightarrow> edits cmp n (x # s) (y # t)"
| substitute: "edits cmp n s t \<Longrightarrow> edits cmp (Suc n) (x # s) (y # t)"
| insert_one: "edits cmp n s t \<Longrightarrow> edits cmp (Suc n) s (y # t)"
| delete_one: "edits cmp n s t \<Longrightarrow> edits cmp (Suc n) (x # s) t"

inductive_simps edits_Nil_Nil [simp]: "edits cmp n [] []"
inductive_cases edits_Cons_Cons: "edits cmp n (x # s) (y # t)"

lemma edits_append: "edits cmp n s t \<Longrightarrow> edits cmp m s' t' \<Longrightarrow> edits cmp (n + m) (s @ s') (t @ t')"
  by (induction rule: edits.induct) (auto intro: edits.intros)

lemma edits_rev: "edits cmp n s t \<Longrightarrow> edits cmp n (rev s) (rev t)"
proof (induction rule: edits.induct)
  case (keep x y n s t)
  then show ?case using edits_append[of cmp n "rev s" "rev t" 0 "[x]" "[y]"] edits.keep[of cmp x y 0 "[]" "[]", OF keep(1) edits.finish] by simp
next
  case (substitute n s t x y)
  then show ?case using edits_append[of cmp n "rev s" "rev t" 1 "[x]" "[y]"] edits.substitute[OF edits.finish, of cmp x y] by simp
next
  case (insert_one n s t y)
  then show ?case using edits_append[of cmp n "rev s" "rev t" 1 "[]" "[y]"] edits.insert_one[OF edits.finish, of cmp y] by simp
next
  case (delete_one n s t x)
  then show ?case using edits_append[of cmp n "rev s" "rev t" 1 "[x]" "[]"] edits.delete_one[OF edits.finish, of cmp x] by simp
qed simp

text \<open>The last step.\<close>

lemma edits_snoc:
  assumes "edits cmp n (s @ [x]) (t @ [y])"
  obtains "cmp x y" "edits cmp n s t" | m where "n = Suc m" "edits cmp m s t" | m where "n = Suc m" "edits cmp m (s @ [x]) t"
  | m where "n = Suc m" "edits cmp m s (t @ [y])"
proof -
  have "edits cmp n (x # rev s) (y # rev t)" using edits_rev[OF assms] by simp
  then consider "cmp x y" "edits cmp n (rev s) (rev t)" | m where "n = Suc m" "edits cmp m (rev s) (rev t)"
    | m where "n = Suc m" "edits cmp m (x # rev s) (rev t)" | m where "n = Suc m" "edits cmp m (rev s) (y # rev t)"
    by (auto elim: edits_Cons_Cons)
  then show ?thesis
  proof cases
    case 1
    then show ?thesis using that(1) edits_rev[of cmp n "rev s" "rev t"] by simp
  next
    case (2 m)
    then show ?thesis using that(2)[of m] edits_rev[of cmp m "rev s" "rev t"] by simp
  next
    case (3 m)
    then show ?thesis using that(3)[of m] edits_rev[of cmp m "x # rev s" "rev t"] by simp
  next
    case (4 m)
    then show ?thesis using that(4)[of m] edits_rev[of cmp m "rev s" "y # rev t"] by simp
  qed
qed

lemma edits_zero: "edits cmp 0 s t \<Longrightarrow> list_all2 cmp s t"
proof -
  have "edits cmp n s t \<Longrightarrow> n = 0 \<longrightarrow> list_all2 cmp s t" for n by (induction rule: edits.induct) auto
  then show "edits cmp 0 s t \<Longrightarrow> list_all2 cmp s t" by blast
qed

lemma edits_all_deleted: "edits cmp n s [] \<Longrightarrow> n = length s"
  by (induction n s "[] :: 'a list" rule: edits.induct) simp_all

lemma delete_all: "edits cmp (length s) s []"
  by (induction s) (auto intro: edits.intros)

subsection \<open>The table that the code fills\<close>

fun table :: "('a \<Rightarrow> 'a \<Rightarrow> bool) \<Rightarrow> 'a list \<Rightarrow> 'a list \<Rightarrow> nat \<Rightarrow> nat \<Rightarrow> nat" where
  "table cmp s t 0 j = 0"
| "table cmp s t (Suc i) 0 = Suc i"
| "table cmp s t (Suc i) (Suc j) = min (table cmp s t (Suc i) j + 1)
     (min (table cmp s t i (Suc j) + 1) (table cmp s t i j + (if cmp (s ! i) (t ! j) then 0 else 1)))"

lemma fill_row_table:
  assumes "length previous = length t + 1" "length current = length t + 1" and "\<And>j. j \<le> length t \<Longrightarrow> previous ! j = int (table cmp s t i j)"
  shows "length (fill_row cmp (s ! i) t previous (current[0 := int i + 1])) = length t + 1
    \<and> (\<forall>j \<le> length t. fill_row cmp (s ! i) t previous (current[0 := int i + 1]) ! j = int (table cmp s t (Suc i) j))"
proof -
  define step where "step = (\<lambda>j current. let cost = (if cmp (s ! i) (t ! j) then 0 else 1) in
     current[j + 1 := min (current ! j + 1) (min (previous ! (j + 1) + 1) (previous ! j + cost))])"
  have "n \<le> length t \<Longrightarrow> length (fold step [0..<n] (current[0 := int i + 1])) = length t + 1
    \<and> (\<forall>j \<le> n. fold step [0..<n] (current[0 := int i + 1]) ! j = int (table cmp s t (Suc i) j))" for n
  proof (induction n)
    case 0
    then show ?case using assms(2) by simp
  next
    case (Suc n)
    then show ?case using assms(3)[of n] assms(3)[of "Suc n"] by (auto simp: step_def Let_def nth_list_update le_Suc_eq)
  qed
  then show ?thesis unfolding fill_row_def step_def[symmetric] by simp
qed

lemma all_rows_table:
  shows "length (snd (all_rows cmp s t)) = length t + 1 \<and> (\<forall>j \<le> length t. snd (all_rows cmp s t) ! j = int (table cmp s t (length s) j))"
proof -
  define step where "step = (\<lambda>i (previous, current). let (previous, current) = (current, previous) in
       (previous :: int list, fill_row cmp (s ! i) t previous (current[0 := int i + 1])))"
  let ?start = "(map int [0..<length t + 1], replicate (length t + 1) 0)"
  have "length (fst (fold step [0..<n] ?start)) = length t + 1 \<and> length (snd (fold step [0..<n] ?start)) = length t + 1
    \<and> (\<forall>j \<le> length t. snd (fold step [0..<n] ?start) ! j = int (table cmp s t n j))" for n
  proof (induction n)
    case 0
    then show ?case by (simp add: nth_Cons' )
  next
    case (Suc n)
    obtain p c where pc: "fold step [0..<n] ?start = (p, c)" by fastforce
    then show ?case using Suc fill_row_table[of c t p cmp s n] by (simp add: step_def)
  qed
  then show ?thesis unfolding all_rows_def step_def[symmetric] by (simp add: Let_def)
qed

lemma table_bounded: "table cmp s t i j \<le> i"
  by (induction cmp s t i j rule: table.induct) auto

lemma table_reached:
  "i \<le> length s \<Longrightarrow> j \<le> length t \<Longrightarrow> \<exists>p \<le> j. edits cmp (table cmp s t i j) (take i s) (drop p (take j t))"
proof (induction cmp s t i j rule: table.induct)
  case (1 cmp s t j)
  then show ?case by (intro exI[of _ j]) simp
next
  case (2 cmp s t i)
  then show ?case using delete_all[of cmp "take (Suc i) s"] by (simp add: min_absorb2)
next
  case (3 cmp s t i j)
  have ts: "take (Suc i) s = take i s @ [s ! i]" "take (Suc j) t = take j t @ [t ! j]" using 3 by (simp_all add: take_Suc_conv_app_nth)
  obtain p1 where p1: "p1 \<le> j" "edits cmp (table cmp s t (Suc i) j) (take (Suc i) s) (drop p1 (take j t))" using 3 by auto
  obtain p2 where p2: "p2 \<le> Suc j" "edits cmp (table cmp s t i (Suc j)) (take i s) (drop p2 (take (Suc j) t))" using 3 by auto
  obtain p3 where p3: "p3 \<le> j" "edits cmp (table cmp s t i j) (take i s) (drop p3 (take j t))" using 3 by auto
  have e1: "edits cmp (table cmp s t (Suc i) j + 1) (take (Suc i) s) (drop p1 (take (Suc j) t))"
    using edits_append[OF p1(2) edits.insert_one[OF edits.finish, of _ "t ! j"]] p1(1) 3 by (simp add: ts(2))
  have e2: "edits cmp (table cmp s t i (Suc j) + 1) (take (Suc i) s) (drop p2 (take (Suc j) t))"
    using edits_append[OF p2(2) edits.delete_one[OF edits.finish, of _ "s ! i"]] by (simp add: ts(1))
  have e3: "edits cmp (table cmp s t i j + (if cmp (s ! i) (t ! j) then 0 else 1)) (take (Suc i) s) (drop p3 (take (Suc j) t))"
    using edits_append[OF p3(2) edits.keep[of cmp "s ! i" "t ! j" 0 "[]" "[]", OF _ edits.finish]]
      edits_append[OF p3(2) edits.substitute[OF edits.finish, of _ "s ! i" "t ! j"]] p3(1) 3 by (simp add: ts)
  consider "table cmp s t (Suc i) (Suc j) = table cmp s t (Suc i) j + 1" | "table cmp s t (Suc i) (Suc j) = table cmp s t i (Suc j) + 1"
    | "table cmp s t (Suc i) (Suc j) = table cmp s t i j + (if cmp (s ! i) (t ! j) then 0 else 1)"
    by (simp only: table.simps) linarith
  then show ?case using e1 e2 e3 p1(1) p2(1) p3(1) by cases (metis le_SucI)+
qed

lemma table_least:
  "i \<le> length s \<Longrightarrow> j \<le> length t \<Longrightarrow> p \<le> j \<Longrightarrow> edits cmp n (take i s) (drop p (take j t)) \<Longrightarrow> table cmp s t i j \<le> n"
proof (induction cmp s t i j arbitrary: n p rule: table.induct)
  case (2 cmp s t i)
  then show ?case using edits_all_deleted[of cmp n "take (Suc i) s"] by simp
next
  case (3 cmp s t i j)
  have ts: "take (Suc i) s = take i s @ [s ! i]" using 3(4) by (simp add: take_Suc_conv_app_nth)
  show ?case
  proof (cases "p = Suc j")
    case True
    then have "n = Suc i" using edits_all_deleted[of cmp n "take (Suc i) s"] 3(4,5,7) by simp
    then show ?thesis using table_bounded by metis
  next
    case False
    then have p: "p \<le> j" using 3(6) by simp
    have tt: "drop p (take (Suc j) t) = drop p (take j t) @ [t ! j]" using p 3(5) by (simp add: take_Suc_conv_app_nth)
    have "edits cmp n (take i s @ [s ! i]) (drop p (take j t) @ [t ! j])" using 3(7) by (simp only: ts tt)
    then show ?thesis
    proof (cases rule: edits_snoc)
      case 1
      then have "table cmp s t i j \<le> n" using 3(3)[of p n] 3(4,5) p by simp
      then show ?thesis using 1(1) by (simp add: min_le_iff_disj)
    next
      case (2 m)
      then have "table cmp s t i j \<le> m" using 3(3)[of p m] 3(4,5) p by simp
      then show ?thesis using 2(1) by (auto simp: min_le_iff_disj)
    next
      case (3 m)
      then have "table cmp s t (Suc i) j \<le> m" using "3.IH"(1)[of p m] "3.prems" p ts by simp
      then show ?thesis using 3(1) by (auto simp: min_le_iff_disj)
    next
      case (4 m)
      then have "table cmp s t i (Suc j) \<le> m" using "3.IH"(2)[of p m] "3.prems" tt by simp
      then show ?thesis using 4(1) by (auto simp: min_le_iff_disj)
    qed
  qed
qed simp

end
