(* ===== verification/StrUtil.thy ===== *)
theory StrUtil
  imports Coding
begin

text \<open>
  Strings: tensorflow/core/lib/strings/str_util.cc and str_util.h. A string is the list of its bytes; the
  character functions of the C library are those of the C locale, with no character above 127.

  \<open>CUnescapeInternal\<close> may work in place; the loop that skips over the characters that stay where they are
  does what the main loop does for them.
\<close>

subsection \<open>Escapes\<close>

definition isprint :: "byte \<Rightarrow> bool" where "isprint c \<longleftrightarrow> 32 \<le> c \<and> c \<le> 126"

definition hex_char :: "byte list" where
  "hex_char = [48, 49, 50, 51, 52, 53, 54, 55, 56, 57, 97, 98, 99, 100, 101, 102]"

definition escape_char :: "byte \<Rightarrow> byte list" where
  "escape_char c = (if c = 10 then [92, 110] else if c = 13 then [92, 114] else if c = 9 then [92, 116]
     else if c = 34 then [92, 34] else if c = 39 then [92, 39] else if c = 92 then [92, 92]
     else if 0x80 \<le> c \<or> \<not> isprint c
     then [92, hex_char ! (unat c div 64), hex_char ! (unat c mod 64 div 8), hex_char ! (unat c mod 8)] else [c])"

definition CEscape :: "byte list \<Rightarrow> byte list" where
  "CEscape src = fold (\<lambda>c dest. dest @ escape_char c) src []"

datatype escape_error = EndsWithBackslash | ValueExceeds "byte list" | EndsWithX | NotHex | UnknownEscape byte

definition is_octal_digit :: "byte \<Rightarrow> bool" where "is_octal_digit c \<longleftrightarrow> 48 \<le> c \<and> c \<le> 55"

definition ascii_isxdigit :: "byte \<Rightarrow> bool" where
  "ascii_isxdigit c \<longleftrightarrow> 48 \<le> c \<and> c \<le> 57 \<or> 97 \<le> c \<and> c \<le> 102 \<or> 65 \<le> c \<and> c \<le> 70"

definition hex_digit_to_int :: "byte \<Rightarrow> 32 word" where
  "hex_digit_to_int c = (let x = ucast c; x = (if 57 < x then x + 9 else x) in x AND 0xf)"

text \<open>The escapes of one letter.\<close>

definition letter_escape :: "byte \<Rightarrow> byte option" where
  "letter_escape c = (if c = 97 then Some 7 else if c = 98 then Some 8 else if c = 102 then Some 12 else if c = 110 then Some 10
     else if c = 114 then Some 13 else if c = 116 then Some 9 else if c = 118 then Some 11 else if c = 92 then Some 92
     else if c = 63 then Some 63 else if c = 39 then Some 39 else if c = 34 then Some 34 else None)"

text \<open>One more octal digit: the value, the digits and the rest.\<close>

definition octal_digit :: "32 word \<times> byte list \<times> byte list \<Rightarrow> 32 word \<times> byte list \<times> byte list" where
  "octal_digit st = (case st of (ch, ds, r) \<Rightarrow> (case r of [] \<Rightarrow> (ch, ds, r)
     | c # q \<Rightarrow> if is_octal_digit c then (ch * 8 + ucast c - 48, ds @ [c], q) else (ch, ds, r)))"

definition octal :: "byte \<Rightarrow> byte list \<Rightarrow> 32 word \<times> byte list \<times> byte list" where
  "octal c r = octal_digit (octal_digit (ucast c - 48, [c], r))"

definition hex_value :: "byte list \<Rightarrow> 32 word" where
  "hex_value ds = fold (\<lambda>c ch. push_bit 4 ch + hex_digit_to_int c) ds 0"

lemma octal_shorter: "octal c r = (ch, ds, q) \<Longrightarrow> length q \<le> length r"
  by (auto simp: octal_def octal_digit_def split: list.splits if_splits)

function unescape :: "byte list \<Rightarrow> byte list \<Rightarrow> escape_error + byte list" where
  "unescape p d = (case p of [] \<Rightarrow> Inr d
     | c # q \<Rightarrow> if c \<noteq> 92 then unescape q (d @ [c])
         else (case q of [] \<Rightarrow> Inl EndsWithBackslash
           | e # r \<Rightarrow> (case letter_escape e of Some b \<Rightarrow> unescape r (d @ [b])
             | None \<Rightarrow> if is_octal_digit e
                 then (case octal e r of (ch, ds, q) \<Rightarrow> if 0xff < ch then Inl (ValueExceeds ds) else unescape q (d @ [ucast ch]))
                 else if e = 120 \<or> e = 88
                 then (case r of [] \<Rightarrow> Inl EndsWithX
                   | h # _ \<Rightarrow> if \<not> ascii_isxdigit h then Inl NotHex
                       else let ds = takeWhile ascii_isxdigit r; ch = hex_value ds in
                         if 0xff < ch then Inl (ValueExceeds (e # ds)) else unescape (dropWhile ascii_isxdigit r) (d @ [ucast ch]))
                 else Inl (UnknownEscape e))))"
  by pat_completeness auto
termination
proof (relation "measure (\<lambda>(p, d). length p)", goal_cases)
  case (3 p d c q e r ch ds x)
  then show ?case by (auto dest!: octal_shorter[OF sym])
next
  case (4 p d c q e r)
  then show ?case using length_dropWhile_le[of ascii_isxdigit r] by auto
qed auto

declare unescape.simps [simp del]

definition CUnescape :: "byte list \<Rightarrow> escape_error + byte list" where
  "CUnescape source = unescape source []"

subsection \<open>White space, case, prefixes\<close>

definition isspace :: "byte \<Rightarrow> bool" where "isspace c \<longleftrightarrow> c = 32 \<or> 9 \<le> c \<and> c \<le> 13"

definition tolower :: "byte \<Rightarrow> byte" where "tolower c = (if 65 \<le> c \<and> c \<le> 90 then c + 32 else c)"

definition toupper :: "byte \<Rightarrow> byte" where "toupper c = (if 97 \<le> c \<and> c \<le> 122 then c - 32 else c)"

fun strip_length :: "byte list \<Rightarrow> nat \<Rightarrow> nat" where
  "strip_length s 0 = 0"
| "strip_length s (Suc i) = (if isspace (s ! i) then strip_length s i else Suc i)"

definition StripTrailingWhitespace :: "byte list \<Rightarrow> byte list" where
  "StripTrailingWhitespace s = take (strip_length s (length s)) s"

definition Lowercase :: "byte list \<Rightarrow> byte list" where "Lowercase s = map tolower s"

definition Uppercase :: "byte list \<Rightarrow> byte list" where "Uppercase s = map toupper s"

fun titlecase :: "byte list \<Rightarrow> bool \<Rightarrow> byte list \<Rightarrow> byte list" where
  "titlecase delimiters upper [] = []"
| "titlecase delimiters upper (c # s) = (let c = (if upper then toupper c else c) in c # titlecase delimiters (c \<in> set delimiters) s)"

definition TitlecaseString :: "byte list \<Rightarrow> byte list \<Rightarrow> byte list" where
  "TitlecaseString s delimiters = titlecase delimiters True s"

text \<open>The count and what is left.\<close>

definition RemoveLeadingWhitespace :: "byte list \<Rightarrow> nat \<times> byte list" where
  "RemoveLeadingWhitespace s = (let count = length (takeWhile isspace s) in (count, drop count s))"

definition RemoveTrailingWhitespace :: "byte list \<Rightarrow> nat \<times> byte list" where
  "RemoveTrailingWhitespace s = (let count = length (takeWhile isspace (rev s)) in (count, take (length s - count) s))"

definition RemoveWhitespaceContext :: "byte list \<Rightarrow> nat \<times> byte list" where
  "RemoveWhitespaceContext s = (let (m, s) = RemoveLeadingWhitespace s; (n, s) = RemoveTrailingWhitespace s in (m + n, s))"

definition ConsumePrefix :: "byte list \<Rightarrow> byte list \<Rightarrow> byte list option" where
  "ConsumePrefix s expected = (if length expected \<le> length s \<and> take (length expected) s = expected then Some (drop (length expected) s) else None)"

fun leading_digits :: "64 word \<Rightarrow> byte list \<Rightarrow> (64 word \<times> byte list) option" where
  "leading_digits v [] = Some (v, [])"
| "leading_digits v (c # p) = (if c < 48 \<or> 57 < c then Some (v, c # p)
     else let new_v = v * 10 + (ucast c - 48) in
       if new_v div 8 < v then None else leading_digits new_v p)"

definition ConsumeLeadingDigits :: "byte list \<Rightarrow> (64 word \<times> byte list) option" where
  "ConsumeLeadingDigits s = (case leading_digits 0 s of None \<Rightarrow> None
     | Some (v, p) \<Rightarrow> if length p < length s then Some (v, p) else None)"

text \<open>The token, which is cleared when there is none, and what is left.\<close>

definition ConsumeNonWhitespace :: "byte list \<Rightarrow> bool \<times> byte list \<times> byte list" where
  "ConsumeNonWhitespace s = (let n = length (takeWhile (\<lambda>c. \<not> isspace c) s) in
     if 0 < n then (True, take n s, drop n s) else (False, [], s))"

subsection \<open>Splitting and joining\<close>

definition AllowEmpty :: "byte list \<Rightarrow> bool" where "AllowEmpty sp = True"

definition SkipEmpty :: "byte list \<Rightarrow> bool" where "SkipEmpty sp \<longleftrightarrow> sp \<noteq> []"

definition SkipWhitespace :: "byte list \<Rightarrow> bool" where "SkipWhitespace sp \<longleftrightarrow> snd (RemoveTrailingWhitespace sp) \<noteq> []"

text \<open>
  \<open>token_start\<close> is an \<open>int\<close> that is set from a \<open>size_t\<close>. When it becomes negative the token starts before the text, a read outside
  of it, which is \<open>None\<close>.
\<close>

definition split_step :: "byte list \<Rightarrow> byte \<Rightarrow> (byte list \<Rightarrow> bool) \<Rightarrow> nat \<Rightarrow> byte list list \<times> 32 word \<Rightarrow> (byte list list \<times> 32 word) option" where
  "split_step s delim p i st = (case st of (result, token_start) \<Rightarrow>
     if i = length s \<or> s ! i = delim
     then if token_start <s 0 then None
       else let token = take (i - unat token_start) (drop (unat token_start) s) in
         Some (if p token then result @ [token] else result, of_nat (i + 1))
     else Some (result, token_start))"

definition Split :: "byte list \<Rightarrow> byte \<Rightarrow> (byte list \<Rightarrow> bool) \<Rightarrow> byte list list option" where
  "Split s delim p = (if s = [] then Some []
     else map_option fst (fold (\<lambda>i st. Option.bind st (split_step s delim p i)) [0..<length s + 1] (Some ([], 0))))"

text \<open>The separator is a C string: it ends before its first zero byte.\<close>

definition c_str :: "byte list \<Rightarrow> byte list" where "c_str sep = takeWhile (\<lambda>c. c \<noteq> 0) sep"

definition Join :: "byte list list \<Rightarrow> byte list \<Rightarrow> byte list" where
  "Join s sep = fst (fold (\<lambda>x (result, first). (result @ (if first then [] else c_str sep) @ x, False)) s ([], True))"

subsection \<open>Unescaping what was escaped\<close>

lemma hex_char_octal: "k < 8 \<Longrightarrow> hex_char ! k = of_nat (48 + k) \<and> is_octal_digit (of_nat (48 + k)) \<and> letter_escape (of_nat (48 + k)) = None"
proof -
  assume "k < 8"
  then consider "k = 0" | "k = 1" | "k = 2" | "k = 3" | "k = 4" | "k = 5" | "k = 6" | "k = 7" by linarith
  then show ?thesis by cases (simp_all add: hex_char_def is_octal_digit_def letter_escape_def)
qed

lemma ucast_unat: "unat (ucast (c :: byte) :: 32 word) = unat c" "unat (ucast (c :: byte) :: 64 word) = unat c"
  using unat_less[of c] by (simp_all add: unsigned_ucast_eq take_bit_nat_eq_self)

lemma ucast_digit: "k < 8 \<Longrightarrow> (ucast (of_nat (48 + k) :: byte) :: 32 word) = of_nat (48 + k)"
proof -
  assume k: "k < 8"
  have "unat (of_nat (48 + k) :: byte) = 48 + k" "unat (of_nat (48 + k) :: 32 word) = 48 + k" using k by (simp_all only: unat_of_nat) simp_all
  then show ?thesis by (simp only: word_unat_eq_iff ucast_unat)
qed

lemma octal_of_digits:
  assumes "a < 8" "b < 8" "c < 8"
  shows "octal (of_nat (48 + a)) (of_nat (48 + b) # of_nat (48 + c) # r)
    = (of_nat (a * 64 + b * 8 + c), [of_nat (48 + a), of_nat (48 + b), of_nat (48 + c)], r)"
  using hex_char_octal assms ucast_digit by (simp add: octal_def octal_digit_def algebra_simps)

lemma octal_parts: "unat (c :: byte) div 64 * 64 + unat c mod 64 div 8 * 8 + unat c mod 8 = unat c"
proof -
  have "unat c mod 64 div 8 * 8 + unat c mod 64 mod 8 = unat c mod 64" by (rule div_mult_mod_eq)
  moreover have "unat c mod 64 mod 8 = unat c mod 8" by (simp add: mod_mod_cancel)
  ultimately show ?thesis using div_mult_mod_eq[of "unat c" 64] by linarith
qed

lemma unescape_octal: "unescape ([92, hex_char ! (unat c div 64), hex_char ! (unat c mod 64 div 8), hex_char ! (unat c mod 8)] @ r) d = unescape r (d @ [c])"
proof -
  have k: "unat c div 64 < 8" "unat c mod 64 div 8 < 8" "unat c mod 8 < 8" using unat_less[of c] by auto
  have n: "unat (of_nat (unat c) :: 32 word) = unat c" using unat_less[of c] by (simp only: unat_of_nat) simp
  then have v: "\<not> 0xff < (of_nat (unat c) :: 32 word)" using unat_less[of c] by (simp add: word_less_nat_alt del: of_nat_unat)
  have "unat (ucast (of_nat (unat c) :: 32 word) :: byte) = unat c" using unat_less[of c] n by (simp add: unsigned_ucast_eq take_bit_nat_eq_self del: of_nat_unat)
  then have w: "ucast (of_nat (unat c) :: 32 word) = c" by (simp only: word_unat_eq_iff)
  show ?thesis
    by (subst unescape.simps) (use k v w hex_char_octal octal_of_digits[OF k] in \<open>simp add: octal_parts del: of_nat_unat\<close>)
qed

lemma unescape_char: "unescape (escape_char c @ r) d = unescape r (d @ [c])"
proof -
  have "escape_char c = [c] \<and> c \<noteq> 92 \<or> (\<exists>e. escape_char c = [92, e] \<and> letter_escape e = Some c)
    \<or> escape_char c = [92, hex_char ! (unat c div 64), hex_char ! (unat c mod 64 div 8), hex_char ! (unat c mod 8)]"
    by (auto simp: escape_char_def letter_escape_def)
  then consider "escape_char c = [c]" "c \<noteq> 92" | e where "escape_char c = [92, e]" "letter_escape e = Some c"
    | "escape_char c = [92, hex_char ! (unat c div 64), hex_char ! (unat c mod 64 div 8), hex_char ! (unat c mod 8)]" by blast
  then show ?thesis
  proof cases
    case 3
    then show ?thesis using unescape_octal by simp
  qed (subst unescape.simps; simp)+
qed

lemma CEscape_concat: "CEscape src = concat (map escape_char src)"
proof -
  have "fold (\<lambda>c dest. dest @ escape_char c) src dest = dest @ concat (map escape_char src)" for dest by (induction src arbitrary: dest) simp_all
  then show ?thesis by (simp add: CEscape_def)
qed

lemma unescape_all: "unescape (concat (map escape_char src)) d = Inr (d @ src)"
proof (induction src arbitrary: d)
  case Nil
  then show ?case by (subst unescape.simps) simp
next
  case (Cons c src)
  then show ?case using unescape_char[of c "concat (map escape_char src)" d] by simp
qed

lemma CUnescape_CEscape: "CUnescape (CEscape src) = Inr src"
  by (simp add: CUnescape_def CEscape_concat unescape_all)

text \<open>Escaped text is printable and of one line.\<close>

lemma escape_printable: "c' \<in> set (escape_char c) \<Longrightarrow> isprint c'"
proof -
  have "isprint (hex_char ! k)" if "k < 8" for k
  proof -
    from that consider "k = 0" | "k = 1" | "k = 2" | "k = 3" | "k = 4" | "k = 5" | "k = 6" | "k = 7" by linarith
    then show ?thesis by cases (simp_all add: hex_char_def isprint_def)
  qed
  moreover have "unat c div 64 < 8" "unat c mod 64 div 8 < 8" "unat c mod 8 < 8" using unat_less[of c] by auto
  ultimately show "c' \<in> set (escape_char c) \<Longrightarrow> isprint c'"
    by (auto simp: escape_char_def isprint_def split: if_splits)
qed

subsection \<open>Leading digits\<close>

definition isdigit :: "byte \<Rightarrow> bool" where "isdigit c \<longleftrightarrow> 48 \<le> c \<and> c \<le> 57"

definition number :: "nat \<Rightarrow> byte list \<Rightarrow> nat" where
  "number = foldl (\<lambda>n c. n * 10 + (unat c - 48))"

lemma number_simps [simp]: "number n [] = n" "number n (c # cs) = number (n * 10 + (unat c - 48)) cs"
  by (simp_all add: number_def)

lemma number_mono: "n \<le> number n cs"
proof (induction cs arbitrary: n)
  case (Cons c cs)
  have "n \<le> n * 10 + (unat c - 48)" by simp
  then show ?case using le_trans Cons[of "n * 10 + (unat c - 48)"] by simp
qed simp

text \<open>The test for overflow is exact: \<open>v * 10 + d\<close> wrapped and divided by 8 is below \<open>v\<close> only when it wrapped.\<close>

lemma overflow_test:
  fixes v :: "64 word"
  assumes "d < 10"
  shows "(v * 10 + of_nat d) div 8 < v \<longleftrightarrow> 2 ^ 64 \<le> unat v * 10 + d"
proof -
  let ?n = "unat v * 10 + d"
  have u: "unat (v * 10 + of_nat d) = ?n mod 2 ^ 64" using assms by (simp add: unat_word_ariths unat_of_nat mod_simps)
  have "(v * 10 + of_nat d) div 8 < v \<longleftrightarrow> ?n mod 2 ^ 64 div 8 < unat v" by (simp add: word_less_nat_alt unat_div u)
  also have "\<dots> \<longleftrightarrow> ?n mod 2 ^ 64 < 8 * unat v" by (simp add: div_less_iff_less_mult mult.commute)
  also have "\<dots> \<longleftrightarrow> 2 ^ 64 \<le> ?n"
  proof (cases "?n < 2 ^ 64")
    case False
    define k where "k = ?n div 2 ^ 64"
    define m where "m = ?n mod 2 ^ 64"
    have "1 \<le> k" "?n = 18446744073709551616 * k + m" "m < 18446744073709551616"
      using False mult_div_mod_eq[of "2 ^ 64" ?n] by (simp_all add: k_def m_def Suc_le_eq div_greater_zero_iff)
    then have "m < 8 * unat v" using assms by linarith
    then show ?thesis using False by (simp add: m_def)
  qed simp
  finally show ?thesis .
qed

lemma leading_digits_number:
  "leading_digits v s = (if 2 ^ 64 \<le> number (unat v) (takeWhile isdigit s) then None
     else Some (of_nat (number (unat v) (takeWhile isdigit s)), dropWhile isdigit s))"
proof (induction s arbitrary: v)
  case Nil
  then show ?case using unat_less[of v] by simp
next
  case (Cons c s)
  show ?case
  proof (cases "isdigit c")
    case True
    define d where "d = unat c - 48"
    have c: "48 \<le> unat c" "unat c \<le> 57" "\<not> (c < 48 \<or> 57 < c)" using True by (auto simp: isdigit_def word_le_nat_alt word_less_nat_alt)
    have d: "d < 10" "(ucast c :: 64 word) - 48 = of_nat d"
    proof -
      show "d < 10" using c by (simp add: d_def)
      have "(ucast c :: 64 word) = of_nat (unat c)" by (simp add: word_unat_eq_iff ucast_unat unat_of_nat)
      also have "\<dots> = of_nat (48 + d)" using c by (simp add: d_def)
      finally show "(ucast c :: 64 word) - 48 = of_nat d" by simp
    qed
    have run: "leading_digits v (c # s) = (if 2 ^ 64 \<le> unat v * 10 + d then None else leading_digits (v * 10 + of_nat d) s)"
      using c(3) overflow_test[OF d(1), of v] by (simp add: d(2) Let_def)
    show ?thesis
    proof (cases "2 ^ 64 \<le> unat v * 10 + d")
      case big: True
      then have "2 ^ 64 \<le> number (unat v) (takeWhile isdigit (c # s))"
        using number_mono[of "unat v * 10 + d" "takeWhile isdigit s"] True by (simp add: d_def)
      then show ?thesis unfolding run using big by simp
    next
      case False
      then have "unat (v * 10 + of_nat d) = unat v * 10 + d" using d(1) by (simp add: unat_word_ariths unat_of_nat mod_simps)
      then show ?thesis using Cons[of "v * 10 + of_nat d"] False True unfolding run by (simp add: d_def)
    qed
  next
    case False
    then have "c < 48 \<or> 57 < c" by (auto simp: isdigit_def not_le)
    then show ?thesis using False unat_less[of v] by simp
  qed
qed

lemma ConsumeLeadingDigits_number:
  "ConsumeLeadingDigits s = (let ds = takeWhile isdigit s; n = number 0 ds in
     if ds = [] \<or> 2 ^ 64 \<le> n then None else Some (of_nat n, dropWhile isdigit s))"
proof -
  have "length (dropWhile isdigit s) < length s \<longleftrightarrow> takeWhile isdigit s \<noteq> []"
    by (metis add_less_same_cancel2 length_0_conv length_append length_greater_0_conv not_less takeWhile_dropWhile_id trans_less_add1 less_add_same_cancel2)
  then show ?thesis by (simp add: ConsumeLeadingDigits_def leading_digits_number Let_def)
qed

text \<open>A hexadecimal escape of more than eight digits is taken modulo 2^32.\<close>

lemma long_hex_escape: "CUnescape [92, 120, 49, 48, 48, 48, 48, 48, 48, 52, 49] = Inr [65]"
  by (simp add: CUnescape_def unescape.simps letter_escape_def is_octal_digit_def ascii_isxdigit_def hex_value_def hex_digit_to_int_def)

subsection \<open>The pieces of a split\<close>

lemma Join_last: "Join (xs @ [x]) sep = concat (map (\<lambda>y. y @ c_str sep) xs) @ x"
proof -
  let ?sep = "c_str sep"
  have "fold (\<lambda>x (result, first). (result @ (if first then [] else ?sep) @ x, False)) ys (r, False) = (r @ concat (map (\<lambda>y. ?sep @ y) ys), False)" for ys r
    by (induction ys arbitrary: r) simp_all
  moreover have "y @ concat (map (\<lambda>y. ?sep @ y) (ys @ [x])) = concat (map (\<lambda>y. y @ ?sep) (y # ys)) @ x" for y ys
    by (induction ys arbitrary: y) simp_all
  ultimately show ?thesis by (cases xs) (simp_all add: Join_def)
qed

lemma c_str_one: "d \<noteq> 0 \<Longrightarrow> c_str [d] = [d]"
  by (simp add: c_str_def)

text \<open>The loop with a \<open>token_start\<close> without bound; a text below \<open>2 ^ 31\<close> bytes has no other.\<close>

definition pieces :: "byte list \<Rightarrow> byte \<Rightarrow> (byte list \<Rightarrow> bool) \<Rightarrow> byte list list" where
  "pieces s delim p = (if s = [] then []
     else fst (fold (\<lambda>i (result, token_start). if i = length s \<or> s ! i = delim
         then let token = take (i - token_start) (drop token_start s) in (if p token then result @ [token] else result, i + 1)
         else (result, token_start)) [0..<length s + 1] ([], 0)))"

lemma small_start:
  assumes "t < 2 ^ 31"
  shows "unat (of_nat t :: 32 word) = t" and "\<not> (of_nat t :: 32 word) <s 0"
proof -
  show u: "unat (of_nat t :: 32 word) = t" using assms by (simp add: unat_of_nat)
  have "uint (of_nat t :: 32 word) = int t" using u by (metis of_nat_unat)
  then have "sint (of_nat t :: 32 word) = signed_take_bit 31 (int t)" by (simp only: sint_uint) simp
  also have "\<dots> = int t" using assms by (intro signed_take_bit_int_eq_self) simp_all
  finally show "\<not> (of_nat t :: 32 word) <s 0" by (simp add: word_sless_alt)
qed

lemma Split_pieces:
  assumes "length s < 2 ^ 31"
  shows "Split s delim p = Some (pieces s delim p)"
proof -
  define step where "step = (\<lambda>i (result, token_start). if i = length s \<or> s ! i = delim
         then let token = take (i - token_start) (drop token_start s) in (if p token then result @ [token] else result, i + 1)
         else (result, token_start))"
  have "\<exists>r t. fold step [0..<n] ([], 0) = (r, t) \<and> t \<le> n
    \<and> fold (\<lambda>i st. Option.bind st (split_step s delim p i)) [0..<n] (Some ([], 0)) = Some (r, of_nat t)" if "n \<le> length s + 1" for n
    using that
  proof (induction n)
    case (Suc n)
    then obtain r t where IH: "fold step [0..<n] ([], 0) = (r, t)" "t \<le> n"
      "fold (\<lambda>i st. Option.bind st (split_step s delim p i)) [0..<n] (Some ([], 0)) = Some (r, of_nat t)" by auto
    have "t < 2 ^ 31" using IH(2) Suc(2) assms by linarith
    note small = small_start[OF this]
    define st where "st = step n (r, t)"
    have "split_step s delim p n (r, of_nat t) = Some (fst st, of_nat (snd st))" "snd st \<le> Suc n"
      using small IH(2) by (simp_all add: split_step_def step_def st_def Let_def)
    then show ?case using IH by (intro exI[of _ "fst st"] exI[of _ "snd st"]) (simp add: st_def[symmetric])
  qed simp
  from this[of "length s + 1"] show ?thesis by (auto simp: Split_def pieces_def step_def[symmetric] simp del: upt_Suc)
qed

lemma Split_state:
  fixes s :: "byte list" and delim :: byte
  assumes "n \<le> length s"
  defines "step \<equiv> \<lambda>i (result, token_start). if i = length s \<or> s ! i = delim
         then let token = take (i - token_start) (drop token_start s) in (if AllowEmpty token then result @ [token] else result, i + 1)
         else (result, token_start)"
  shows "\<exists>result ts. fold step [0..<n] ([], 0) = (result, ts) \<and> ts \<le> n \<and> concat (map (\<lambda>y. y @ [delim]) result) = take ts s
    \<and> delim \<notin> set (take (n - ts) (drop ts s)) \<and> (\<forall>x \<in> set result. delim \<notin> set x)"
  using assms(1)
proof (induction n)
  case (Suc n)
  then obtain result ts where IH: "fold step [0..<n] ([], 0) = (result, ts)" "ts \<le> n" "concat (map (\<lambda>y. y @ [delim]) result) = take ts s"
    "delim \<notin> set (take (n - ts) (drop ts s))" "\<forall>x \<in> set result. delim \<notin> set x" by auto
  have one: "take (Suc n - ts) (drop ts s) = take (n - ts) (drop ts s) @ [s ! n]"
    using Suc(2) IH(2) by (simp add: Suc_diff_le take_Suc_conv_app_nth)
  show ?case
  proof (cases "s ! n = delim")
    case True
    have "take ts s @ take (n - ts) (drop ts s) @ [s ! n] = take (Suc n) s"
      using one IH(2) by (metis add_diff_inverse_nat le_Suc_eq not_less_eq_eq le_imp_less_Suc less_imp_le_nat not_le take_add)
    then show ?thesis using IH True Suc(2) by (simp add: step_def AllowEmpty_def Let_def)
  next
    case False
    then show ?thesis using IH one Suc(2) by (simp add: step_def)
  qed
qed simp

lemma Join_pieces:
  assumes "delim \<noteq> 0"
  shows "Join (pieces s delim AllowEmpty) [delim] = s \<and> (\<forall>x \<in> set (pieces s delim AllowEmpty). delim \<notin> set x)"
proof (cases "s = []")
  case True
  then show ?thesis by (simp add: pieces_def Join_def)
next
  case False
  define step where "step = (\<lambda>i (result, token_start). if i = length s \<or> s ! i = delim
         then let token = take (i - token_start) (drop token_start s) in (if AllowEmpty token then result @ [token] else result, i + 1)
         else (result, token_start))"
  obtain result ts where "fold step [0..<length s] ([], 0) = (result, ts)" "ts \<le> length s" "concat (map (\<lambda>y. y @ [delim]) result) = take ts s"
    "delim \<notin> set (drop ts s)" "\<forall>x \<in> set result. delim \<notin> set x"
    using Split_state[of "length s" s delim] unfolding step_def by auto
  moreover from this have "pieces s delim AllowEmpty = result @ [drop ts s]"
    using False by (simp add: pieces_def step_def[symmetric]) (simp add: step_def AllowEmpty_def)
  ultimately show ?thesis by (simp add: Join_last c_str_one[OF assms])
qed

end
