(* ===== verification/Arena.thy ===== *)
theory Arena
  imports Simulation "HOL-Library.Word"
begin

unbundle bit_operations_syntax

text \<open>
  The arena of tensorflow/core/lib/core/arena.cc and arena.h: memory is handed out from blocks and is given
  back all at once. An address is a number, 0 the null pointer. \<open>malloc\<close> and \<open>port::aligned_malloc\<close> are
  parameters that see the blocks the arena holds and may return null. Sizes are below 2^64, and the one sum of
  sizes that can wrap is written with its wrap-around. \<open>None\<close> is a check or an assertion that fails.
\<close>

subsection \<open>The code\<close>

type_synonym region = "nat \<times> nat"

record memory =
  malloc :: "region list \<Rightarrow> nat \<Rightarrow> nat"
  aligned_malloc :: "region list \<Rightarrow> nat \<Rightarrow> nat \<Rightarrow> nat"

record Arena =
  remaining :: nat
  arena_block_size :: nat
  freestart :: nat
  freestart_when_empty :: nat
  first_blocks :: "region list"
  overflow_blocks :: "region list"

definition kDefaultAlignment :: nat where "kDefaultAlignment = 8"

definition SatisfyAlignment :: "nat \<Rightarrow> Arena \<Rightarrow> (bool \<times> Arena) option" where
  "SatisfyAlignment alignment a = (let overage = freestart a AND (alignment - 1) in
     if 0 < overage
     then let waste = alignment - overage in
       if remaining a \<le> waste then Some (False, a)
       else let a = a\<lparr>freestart := freestart a + waste, remaining := remaining a - waste\<rparr> in
         if freestart a AND (alignment - 1) \<noteq> 0 then None else Some (True, a)
     else Some (True, a))"

definition FreeBlocks :: "Arena \<Rightarrow> Arena" where
  "FreeBlocks a = a\<lparr>first_blocks := take 1 (first_blocks a), overflow_blocks := []\<rparr>"

definition Reset_arena :: "Arena \<Rightarrow> Arena option" where
  "Reset_arena a = (let a = FreeBlocks a; a = a\<lparr>freestart := fst (first_blocks a ! 0), remaining := snd (first_blocks a ! 0)\<rparr> in
     case SatisfyAlignment kDefaultAlignment a of None \<Rightarrow> None
     | Some (ok, a) \<Rightarrow> if ok then Some (a\<lparr>freestart_when_empty := freestart a\<rparr>) else None)"

definition Arena_new :: "memory \<Rightarrow> nat \<Rightarrow> Arena option" where
  "Arena_new lib n = (if n \<le> kDefaultAlignment then None
     else Reset_arena \<lparr>remaining = 0, arena_block_size = n, freestart = 0, freestart_when_empty = 0, first_blocks = [(malloc lib [] n, n)], overflow_blocks = []\<rparr>)"

function GCD_loop :: "nat \<Rightarrow> nat \<Rightarrow> nat" where
  "GCD_loop x y = (if y \<noteq> 0 then GCD_loop y (x mod y) else x)"
  by pat_completeness auto
termination by (relation "measure snd") auto

declare GCD_loop.simps [simp del]

definition LeastCommonMultiple :: "nat \<Rightarrow> nat \<Rightarrow> nat" where
  "LeastCommonMultiple a b = (if b < a then a div GCD_loop a b * b mod 2 ^ 32 else if a < b then b div GCD_loop b a * a mod 2 ^ 32 else a)"

definition held :: "Arena \<Rightarrow> region list" where
  "held a = first_blocks a @ overflow_blocks a"

text \<open>\<open>std::vector::resize\<close> and the array of 16 blocks: the new block is the last one.\<close>

definition add_block :: "region \<Rightarrow> Arena \<Rightarrow> Arena" where
  "add_block b a = (if length (first_blocks a) < 16 then a\<lparr>first_blocks := first_blocks a @ [b]\<rparr>
     else a\<lparr>overflow_blocks := overflow_blocks a @ [b]\<rparr>)"

definition AllocNewBlock :: "memory \<Rightarrow> nat \<Rightarrow> nat \<Rightarrow> Arena \<Rightarrow> (region \<times> Arena) option" where
  "AllocNewBlock lib block_size alignment a =
     (let adjusted_alignment = (if 1 < alignment then LeastCommonMultiple alignment kDefaultAlignment else 1) in
      if 2 ^ 20 < adjusted_alignment then None
      else let excess = block_size mod adjusted_alignment;
          adjusted_block_size = (if 1 < adjusted_alignment \<and> adjusted_alignment < block_size
            then (block_size + (if 0 < excess then adjusted_alignment - excess else 0)) mod 2 ^ 64 else block_size);
          mem = (if 1 < adjusted_alignment then aligned_malloc lib (held a) adjusted_block_size adjusted_alignment
            else malloc lib (held a) adjusted_block_size)
        in if mem = 0 then None else Some ((mem, adjusted_block_size), add_block (mem, adjusted_block_size) a))"

definition MakeNewBlock :: "memory \<Rightarrow> nat \<Rightarrow> Arena \<Rightarrow> Arena option" where
  "MakeNewBlock lib alignment a = (case AllocNewBlock lib (arena_block_size a) alignment a of None \<Rightarrow> None
     | Some (block, a) \<Rightarrow> (case SatisfyAlignment alignment (a\<lparr>freestart := fst block, remaining := snd block\<rparr>) of None \<Rightarrow> None
       | Some (ok, a) \<Rightarrow> if ok then Some a else None))"

definition GetMemoryFallback :: "memory \<Rightarrow> nat \<Rightarrow> nat \<Rightarrow> Arena \<Rightarrow> (nat \<times> Arena) option" where
  "GetMemoryFallback lib n alignment a = (if n = 0 then Some (0, a)
     else if \<not> (0 < alignment \<and> alignment AND (alignment - 1) = 0) then None
     else if arena_block_size a = 0 \<or> arena_block_size a div 4 < n
     then map_option (\<lambda>(block, a). (fst block, a)) (AllocNewBlock lib n alignment a)
     else case SatisfyAlignment alignment a of None \<Rightarrow> None
     | Some (ok, a) \<Rightarrow> (case (if \<not> ok \<or> remaining a < n then MakeNewBlock lib alignment a else Some a) of None \<Rightarrow> None
       | Some a \<Rightarrow> if remaining a < n then None
           else Some (freestart a, a\<lparr>remaining := remaining a - n, freestart := freestart a + n\<rparr>)))"

definition GetMemory :: "memory \<Rightarrow> nat \<Rightarrow> nat \<Rightarrow> Arena \<Rightarrow> (nat \<times> Arena) option" where
  "GetMemory lib n align a = (if arena_block_size a < remaining a then None
     else if 0 < n \<and> n < remaining a \<and> align = 1
     then Some (freestart a, a\<lparr>freestart := freestart a + n, remaining := remaining a - n\<rparr>)
     else GetMemoryFallback lib n align a)"

definition Alloc :: "memory \<Rightarrow> nat \<Rightarrow> Arena \<Rightarrow> (nat \<times> Arena) option" where
  "Alloc lib n a = GetMemory lib n 1 a"

subsection \<open>Numbers\<close>

lemma and_power: "x AND (2 ^ k - Suc 0) = x mod 2 ^ k" for x :: nat
  by (metis One_nat_def mask_eq_exp_minus_1 take_bit_eq_mask take_bit_eq_mod)

lemma and_power_zero: "(2 :: nat) ^ k AND (2 ^ k - Suc 0) = 0"
  by (simp add: and_power)

lemma GCD_loop_gcd: "GCD_loop x y = gcd x y"
  by (induction x y rule: GCD_loop.induct) (subst GCD_loop.simps, metis gcd.commute gcd_red_nat gcd_0_nat)

text \<open>The least common multiple with the default alignment, for a power of two.\<close>

definition block_alignment :: "nat \<Rightarrow> nat" where
  "block_alignment k = (if k = 0 then 1 else 2 ^ max k 3)"

lemma LCM_power: "k \<le> 20 \<Longrightarrow> 1 \<le> k \<Longrightarrow> LeastCommonMultiple (2 ^ k) kDefaultAlignment = 2 ^ max k 3"
proof -
  assume k: "k \<le> 20" "1 \<le> k"
  have small: "(2 :: nat) ^ max k 3 < 2 ^ 32" using k by (intro power_strict_increasing) auto
  consider "k < 3" | "k = 3" | "3 < k" by linarith
  then show ?thesis
  proof cases
    case 1
    then have "k = 1 \<or> k = 2" using k by auto
    then show ?thesis by (auto simp: LeastCommonMultiple_def kDefaultAlignment_def GCD_loop_gcd)
  next
    case 3
    then have "(2 :: nat) ^ k = 8 * 2 ^ (k - 3)" using power_add[of "2 :: nat" 3 "k - 3"] by simp
    moreover have "8 < (2 :: nat) ^ k" using power_strict_increasing[of 3 k "2 :: nat"] 3 by simp
    ultimately show ?thesis using 3 small by (simp add: LeastCommonMultiple_def kDefaultAlignment_def GCD_loop_gcd max_def)
  qed (simp add: LeastCommonMultiple_def kDefaultAlignment_def)
qed

subsection \<open>Regions\<close>

definition no_overlap :: "region \<Rightarrow> region \<Rightarrow> bool" where
  "no_overlap r q \<longleftrightarrow> fst r + snd r \<le> fst q \<or> fst q + snd q \<le> fst r"

definition region_in :: "region \<Rightarrow> region \<Rightarrow> bool" where
  "region_in r q \<longleftrightarrow> fst q \<le> fst r \<and> fst r + snd r \<le> fst q + snd q"

lemma no_overlap_in: "no_overlap r q \<Longrightarrow> region_in r' r \<Longrightarrow> region_in q' q \<Longrightarrow> no_overlap r' q'"
  by (auto simp: no_overlap_def region_in_def)

lemma no_overlap_sym: "no_overlap r q \<Longrightarrow> no_overlap q r"
  by (auto simp: no_overlap_def)

lemma region_in_refl [simp]: "region_in r r"
  by (simp add: region_in_def)

lemma region_in_trans: "region_in r q \<Longrightarrow> region_in q p \<Longrightarrow> region_in r p"
  by (simp add: region_in_def)

text \<open>
  The documented behaviour of the allocators: null, or memory inside the address space that is aligned and overlaps no block the
  arena holds.
\<close>

definition allocates :: "memory \<Rightarrow> bool" where
  "allocates lib \<longleftrightarrow> (\<forall>live n. 0 < n \<longrightarrow> malloc lib live n \<noteq> 0 \<longrightarrow> malloc lib live n + n < 2 ^ 64 \<and> (\<forall>b \<in> set live. no_overlap (malloc lib live n, n) b))
     \<and> (\<forall>live n al. 0 < n \<longrightarrow> 0 < al \<longrightarrow> aligned_malloc lib live n al \<noteq> 0 \<longrightarrow> al dvd aligned_malloc lib live n al
       \<and> aligned_malloc lib live n al + n < 2 ^ 64 \<and> (\<forall>b \<in> set live. no_overlap (aligned_malloc lib live n al, n) b))"

text \<open>An allocation that the arena may ask for, with the blocks it holds, returns null.\<close>

definition refused :: "memory \<Rightarrow> Arena \<Rightarrow> bool" where
  "refused lib a \<longleftrightarrow> (\<exists>n al. 0 < n \<and> n < 2 ^ 64 \<and> (malloc lib (held a) n = 0 \<or> aligned_malloc lib (held a) n al = 0))"

text \<open>Sizes that do not wrap when they are rounded up.\<close>

definition no_wrap :: "nat \<Rightarrow> nat \<Rightarrow> bool" where
  "no_wrap k n \<longleftrightarrow> n + 2 ^ 20 \<le> 2 ^ 64 \<or> n < 2 ^ 64 \<and> block_alignment k dvd n"

definition free_region :: "Arena \<Rightarrow> region" where
  "free_region a = (freestart a, remaining a)"

definition pairwise_apart :: "region list \<Rightarrow> bool" where
  "pairwise_apart rs \<longleftrightarrow> sorted_wrt no_overlap rs"

text \<open>The regions handed out are apart from each other and from the free region, and all lie inside blocks.\<close>

definition arena_ok :: "Arena \<Rightarrow> region list \<Rightarrow> bool" where
  "arena_ok a out \<longleftrightarrow> 8 < arena_block_size a \<and> first_blocks a \<noteq> [] \<and> snd (first_blocks a ! 0) = arena_block_size a
     \<and> remaining a \<le> arena_block_size a \<and> pairwise_apart (held a) \<and> (\<exists>b \<in> set (held a). region_in (free_region a) b) \<and> (\<forall>b \<in> set (held a). fst b \<noteq> 0)
     \<and> pairwise_apart out \<and> (\<forall>r \<in> set out. no_overlap (free_region a) r \<and> (\<exists>b \<in> set (held a). region_in r b))"

lemma SatisfyAlignment_power:
  "\<exists>ok a'. SatisfyAlignment (2 ^ k) a = Some (ok, a') \<and> first_blocks a' = first_blocks a \<and> overflow_blocks a' = overflow_blocks a
    \<and> arena_block_size a' = arena_block_size a \<and> region_in (free_region a') (free_region a) \<and> (ok \<longrightarrow> 2 ^ k dvd freestart a') \<and> remaining a' \<le> remaining a
    \<and> (2 ^ k dvd freestart a \<or> 2 ^ k \<le> remaining a \<longrightarrow> ok) \<and> (2 ^ k dvd freestart a \<longrightarrow> a' = a)"
proof (cases "freestart a mod 2 ^ k = 0")
  case True
  then show ?thesis by (auto simp: SatisfyAlignment_def and_power dvd_eq_mod_eq_0 Let_def)
next
  case False
  define w where "w = 2 ^ k - freestart a mod 2 ^ k"
  have less: "freestart a mod 2 ^ k < 2 ^ k" by simp
  have w: "0 < w" "w < 2 ^ k" using False less unfolding w_def by linarith+
  have "freestart a + w = freestart a div 2 ^ k * 2 ^ k + 2 ^ k" using less div_mult_mod_eq[of "freestart a" "2 ^ k"] unfolding w_def by linarith
  then have "(freestart a + w) mod 2 ^ k = 0" by simp
  then have run: "SatisfyAlignment (2 ^ k) a = Some (if remaining a \<le> w then (False, a)
      else (True, a\<lparr>freestart := freestart a + w, remaining := remaining a - w\<rparr>))"
    using False by (simp add: SatisfyAlignment_def and_power Let_def w_def)
  have dv: "2 ^ k dvd freestart a + w" "\<not> 2 ^ k dvd freestart a" using \<open>(freestart a + w) mod 2 ^ k = 0\<close> False by (simp_all only: dvd_eq_mod_eq_0 not_False_eq_True)
  show ?thesis
  proof (cases "remaining a \<le> w")
    case True
    then show ?thesis using w dv(2) by (intro exI[of _ False] exI[of _ a]) (simp add: run)
  next
    case more: False
    then show ?thesis using dv by (intro exI[of _ True] exI[of _ "a\<lparr>freestart := freestart a + w, remaining := remaining a - w\<rparr>"])
      (simp add: run free_region_def region_in_def)
  qed
qed

lemma SatisfyAlignment_ok:
  assumes "arena_ok a out"
  shows "\<exists>ok a'. SatisfyAlignment (2 ^ k) a = Some (ok, a') \<and> arena_ok a' out \<and> (ok \<longrightarrow> 2 ^ k dvd freestart a') \<and> arena_block_size a' = arena_block_size a
    \<and> held a' = held a"
proof -
  obtain ok a' where s: "SatisfyAlignment (2 ^ k) a = Some (ok, a')" "first_blocks a' = first_blocks a" "overflow_blocks a' = overflow_blocks a"
    "arena_block_size a' = arena_block_size a" "region_in (free_region a') (free_region a)" "ok \<longrightarrow> 2 ^ k dvd freestart a'" "remaining a' \<le> remaining a"
    using SatisfyAlignment_power[of k a] by blast
  have "no_overlap (free_region a') r" if "no_overlap (free_region a) r" for r using no_overlap_in[OF that s(5)] by simp
  moreover have "\<exists>b \<in> set (held a). region_in (free_region a') b" using assms region_in_trans[OF s(5)] unfolding arena_ok_def by blast
  moreover have "held a' = held a" using s(2,3) by (simp add: held_def)
  ultimately have "arena_ok a' out" using assms s by (auto simp: arena_ok_def)
  then show ?thesis using s \<open>held a' = held a\<close> by blast
qed

lemma no_wrap_less: "no_wrap k n \<Longrightarrow> n < 2 ^ 64"
  unfolding no_wrap_def by (elim disjE) simp_all

lemma AllocNewBlock_new:
  assumes l: "allocates lib" and n: "0 < n" "no_wrap k n" and k: "k \<le> 20" and h: "pairwise_apart (held a)"
  shows "(\<exists>m m'. AllocNewBlock lib n (2 ^ k) a = Some ((m, m'), add_block (m, m') a) \<and> m \<noteq> 0 \<and> n \<le> m' \<and> 2 ^ k dvd m
      \<and> (\<forall>b \<in> set (held a). no_overlap (m, m') b) \<and> (block_alignment k dvd n \<longrightarrow> m' = n))
    \<or> AllocNewBlock lib n (2 ^ k) a = None \<and> refused lib a"
proof (cases "k = 0")
  case True
  define m where "m = malloc lib (held a) n"
  have run: "AllocNewBlock lib n (2 ^ k) a = (if m = 0 then None else Some ((m, n), add_block (m, n) a))"
    by (simp add: AllocNewBlock_def m_def Let_def True)
  show ?thesis
  proof (cases "m = 0")
    case m: True
    then have "refused lib a" unfolding refused_def m_def using n(1) no_wrap_less[OF n(2)] by blast
    then show ?thesis using run m by simp
  next
    case nz: False
    then have "\<forall>b \<in> set (held a). no_overlap (m, n) b" using l n(1) unfolding allocates_def m_def by blast
    then show ?thesis using run nz True by simp
  qed
next
  case False
  define al where "al = (2 :: nat) ^ max k 3"
  have al: "LeastCommonMultiple (2 ^ k) kDefaultAlignment = al" using LCM_power[of k] k False by (simp add: al_def)
  have "al \<le> 2 ^ 20" unfolding al_def using k by (intro power_increasing) simp_all
  moreover have "(1 :: nat) < 2 ^ max k 3" "(1 :: nat) < 2 ^ k" using False by (intro one_less_power; simp)+
  ultimately have big: "al \<le> 2 ^ 20" "1 < al" "(1 :: nat) < 2 ^ k" by (simp_all add: al_def)
  define m' where "m' = (if al < n then n + (if 0 < n mod al then al - n mod al else 0) else n)"
  have m': "n \<le> m'" "block_alignment k dvd n \<longrightarrow> m' = n" using False by (auto simp: m'_def block_alignment_def al_def dvd_eq_mod_eq_0)
  have "m' < n + al" using big(2) by (simp add: m'_def)
  then have m64: "m' < 2 ^ 64" using n(2) m'(2) big(1) unfolding no_wrap_def by (elim disjE) simp_all
  then have adj: "(if al < n then (n + (if 0 < n mod al then al - n mod al else 0)) mod 2 ^ 64 else n) = m'"
    using mod_less[OF m64] unfolding m'_def by presburger
  define m where "m = aligned_malloc lib (held a) m' al"
  have run: "AllocNewBlock lib n (2 ^ k) a = (if m = 0 then None else Some ((m, m'), add_block (m, m') a))"
    using big adj by (simp add: AllocNewBlock_def al m_def Let_def)
  show ?thesis
  proof (cases "m = 0")
    case True
    then have "refused lib a" unfolding refused_def m_def using m64 order_less_le_trans[OF n(1) m'(1)] by blast
    then show ?thesis using run True by simp
  next
    case nz: False
    then have m: "al dvd m" "\<forall>b \<in> set (held a). no_overlap (m, m') b" using l order_less_le_trans[OF n(1) m'(1)] big(2) unfolding allocates_def m_def by simp_all
    have "2 ^ k dvd al" by (simp add: al_def le_imp_power_dvd)
    then have "2 ^ k dvd m" using m(1) dvd_trans by blast
    then show ?thesis using run nz m m' by simp
  qed
qed

text \<open>A size near the largest one wraps: the block has no bytes, and its address is handed out for the whole size.\<close>

lemma wrapped_block:
  assumes "aligned_malloc lib (held a) 0 8 = p" and "p \<noteq> 0"
  shows "AllocNewBlock lib (2 ^ 64 - 1) 8 a = Some ((p, 0), add_block (p, 0) a)"
  using assms by (simp add: AllocNewBlock_def LeastCommonMultiple_def kDefaultAlignment_def)

lemma held_add_block: "set (held (add_block b a)) = insert b (set (held a))"
  by (auto simp: held_def add_block_def)

lemma pairwise_apart_insert:
  "pairwise_apart (xs @ ys) \<Longrightarrow> \<forall>b \<in> set (xs @ ys). no_overlap r b \<Longrightarrow> pairwise_apart (xs @ r # ys)"
  using no_overlap_sym by (fastforce simp: pairwise_apart_def sorted_wrt_append)

text \<open>A new block leaves everything else as it is.\<close>

lemma add_block_ok:
  assumes a: "arena_ok a out" and m: "m \<noteq> 0" and d: "\<forall>b \<in> set (held a). no_overlap (m, m') b"
  shows "arena_ok (add_block (m, m') a) out" and "\<forall>r \<in> set out. no_overlap (m, m') r" and "no_overlap (m, m') (free_region a)"
proof -
  have "pairwise_apart (held (add_block (m, m') a))"
    using a d pairwise_apart_insert[of "first_blocks a" "overflow_blocks a" "(m, m')"] pairwise_apart_insert[of "held a" "[]" "(m, m')"]
    by (auto simp: arena_ok_def add_block_def held_def)
  moreover have "free_region (add_block (m, m') a) = free_region a" by (simp add: free_region_def add_block_def)
  moreover have "remaining (add_block (m, m') a) = remaining a" "arena_block_size (add_block (m, m') a) = arena_block_size a"
    "first_blocks (add_block (m, m') a) \<noteq> []" "first_blocks (add_block (m, m') a) ! 0 = first_blocks a ! 0"
    using a by (auto simp: add_block_def arena_ok_def nth_append)
  ultimately show "arena_ok (add_block (m, m') a) out" using a m unfolding arena_ok_def held_add_block by simp
  show "\<forall>r \<in> set out. no_overlap (m, m') r" "no_overlap (m, m') (free_region a)"
    using a d no_overlap_in[OF _ region_in_refl] unfolding arena_ok_def by blast+
qed

text \<open>The free region moves to another part of a block that no region handed out touches.\<close>

lemma move_free:
  assumes "arena_ok a out" and "remaining a' \<le> arena_block_size a" and "\<exists>b \<in> set (held a). region_in (free_region a') b" and "\<forall>r \<in> set out. no_overlap (free_region a') r"
    and "first_blocks a' = first_blocks a" "overflow_blocks a' = overflow_blocks a" "arena_block_size a' = arena_block_size a"
  shows "arena_ok a' out"
  using assms by (simp add: arena_ok_def held_def)

definition alignment_fits :: "Arena \<Rightarrow> nat \<Rightarrow> bool" where
  "alignment_fits a k \<longleftrightarrow> k \<le> 20 \<and> block_alignment k dvd arena_block_size a \<and> arena_block_size a < 2 ^ 64"

lemma MakeNewBlock_ok:
  assumes l: "allocates lib" and a: "arena_ok a out" and k: "alignment_fits a k"
  shows "(\<exists>a'. MakeNewBlock lib (2 ^ k) a = Some a' \<and> arena_ok a' out \<and> 2 ^ k dvd freestart a' \<and> remaining a' = arena_block_size a
      \<and> arena_block_size a' = arena_block_size a)
    \<or> MakeNewBlock lib (2 ^ k) a = None \<and> refused lib a"
proof -
  have n: "0 < arena_block_size a" "no_wrap k (arena_block_size a)" "k \<le> 20" "pairwise_apart (held a)"
    using a k unfolding arena_ok_def alignment_fits_def no_wrap_def by simp_all
  consider (new) m m' where "AllocNewBlock lib (arena_block_size a) (2 ^ k) a = Some ((m, m'), add_block (m, m') a)" "m \<noteq> 0" "2 ^ k dvd m"
      "\<forall>b \<in> set (held a). no_overlap (m, m') b" "m' = arena_block_size a"
    | (null) "AllocNewBlock lib (arena_block_size a) (2 ^ k) a = None" "refused lib a"
    using AllocNewBlock_new[OF l n] k unfolding alignment_fits_def by metis
  then show ?thesis
  proof cases
    case null
    then show ?thesis by (simp add: MakeNewBlock_def)
  next
    case b: new
    note ab = add_block_ok[OF a b(2,4)]
    define a1 where "a1 = (add_block (m, m') a)\<lparr>freestart := m, remaining := m'\<rparr>"
    have bs: "arena_block_size (add_block (m, m') a) = arena_block_size a" by (simp add: add_block_def)
    have "arena_ok a1 out"
      by (rule move_free[OF ab(1)]) (use ab(2) b(5) bs held_add_block in \<open>auto simp: a1_def free_region_def\<close>)
    moreover have "SatisfyAlignment (2 ^ k) a1 = Some (True, a1)" using SatisfyAlignment_power[of k a1] b(3) by (auto simp: a1_def)
    then have "MakeNewBlock lib (2 ^ k) a = Some a1" using b(1) by (simp add: MakeNewBlock_def a1_def)
    ultimately show ?thesis using b(3,5) bs by (auto simp: a1_def)
  qed
qed

text \<open>A region at the start of the free one is handed out.\<close>

lemma take_from_free:
  assumes a: "arena_ok a out" and n: "n \<le> remaining a"
  shows "arena_ok (a\<lparr>remaining := remaining a - n, freestart := freestart a + n\<rparr>) (out @ [(freestart a, n)])"
proof -
  let ?a = "a\<lparr>remaining := remaining a - n, freestart := freestart a + n\<rparr>"
  have sub: "region_in (free_region ?a) (free_region a)" "region_in (freestart a, n) (free_region a)" "no_overlap (free_region ?a) (freestart a, n)"
    using n by (simp_all add: region_in_def free_region_def no_overlap_def)
  have "\<forall>r \<in> set out. no_overlap (free_region ?a) r \<and> no_overlap r (freestart a, n)"
    using a no_overlap_in[OF _ sub(1) region_in_refl] no_overlap_in[OF _ sub(2) region_in_refl] no_overlap_sym unfolding arena_ok_def by blast
  moreover have "\<exists>b \<in> set (held a). region_in (free_region ?a) b \<and> region_in (freestart a, n) b" using a sub(1,2) region_in_trans unfolding arena_ok_def by blast
  moreover have "held ?a = held a" by (simp add: held_def)
  ultimately show ?thesis using a sub(3) by (auto simp: arena_ok_def pairwise_apart_def sorted_wrt_append)
qed

text \<open>A request for more than a quarter of a block gets a block of its own.\<close>

lemma GetMemory_large:
  assumes l: "allocates lib" and a: "arena_ok a out" and n: "0 < n" "no_wrap k n" "arena_block_size a div 4 < n" "\<not> (n < remaining a \<and> k = 0)" and k: "k \<le> 20"
  shows "(\<exists>p a'. GetMemory lib n (2 ^ k) a = Some (p, a') \<and> arena_ok a' (out @ [(p, n)]) \<and> 2 ^ k dvd p \<and> arena_block_size a' = arena_block_size a)
    \<or> GetMemory lib n (2 ^ k) a = None \<and> refused lib a"
proof -
  have run: "GetMemory lib n (2 ^ k) a = map_option (\<lambda>(block, a). (fst block, a)) (AllocNewBlock lib n (2 ^ k) a)"
    using a n by (auto simp: GetMemory_def GetMemoryFallback_def and_power_zero arena_ok_def)
  have h: "pairwise_apart (held a)" using a by (simp add: arena_ok_def)
  consider (new) m m' where "AllocNewBlock lib n (2 ^ k) a = Some ((m, m'), add_block (m, m') a)" "m \<noteq> 0" "2 ^ k dvd m"
      "\<forall>b \<in> set (held a). no_overlap (m, m') b" "n \<le> m'"
    | (null) "AllocNewBlock lib n (2 ^ k) a = None" "refused lib a"
    using AllocNewBlock_new[OF l n(1,2) k h] by metis
  then show ?thesis
  proof cases
    case null
    then show ?thesis using run by simp
  next
    case b: new
    note ab = add_block_ok[OF a b(2,4)]
    have sub: "region_in (m, n) (m, m')" using b(5) by (simp add: region_in_def)
    have fr: "free_region (add_block (m, m') a) = free_region a" by (simp add: free_region_def add_block_def)
    have "arena_ok (add_block (m, m') a) (out @ [(m, n)])"
      using ab(1) no_overlap_in[OF no_overlap_sym[OF ab(3)] region_in_refl sub] ab(2) no_overlap_in[OF no_overlap_sym region_in_refl sub] sub
      unfolding arena_ok_def fr held_add_block pairwise_apart_def by (auto simp: sorted_wrt_append)
    then show ?thesis using run b(1,3) by (simp add: add_block_def)
  qed
qed

text \<open>A smaller one is taken from the current block, or from a new one.\<close>

lemma GetMemory_small:
  assumes l: "allocates lib" and a: "arena_ok a out" and n: "0 < n" "n \<le> arena_block_size a div 4" "\<not> (n < remaining a \<and> k = 0)" and k: "alignment_fits a k"
  shows "(\<exists>p a'. GetMemory lib n (2 ^ k) a = Some (p, a') \<and> arena_ok a' (out @ [(p, n)]) \<and> 2 ^ k dvd p \<and> arena_block_size a' = arena_block_size a)
    \<or> GetMemory lib n (2 ^ k) a = None \<and> refused lib a"
proof -
  obtain ok a1 where s: "SatisfyAlignment (2 ^ k) a = Some (ok, a1)" "arena_ok a1 out" "ok \<longrightarrow> 2 ^ k dvd freestart a1"
    "arena_block_size a1 = arena_block_size a" "held a1 = held a" using SatisfyAlignment_ok[OF a, of k] by blast
  have k1: "alignment_fits a1 k" and rf: "refused lib a1 = refused lib a" using k s(4,5) by (simp_all add: alignment_fits_def refused_def)
  let ?block = "if \<not> ok \<or> remaining a1 < n then MakeNewBlock lib (2 ^ k) a1 else Some a1"
  have run: "GetMemory lib n (2 ^ k) a = (case ?block of None \<Rightarrow> None
     | Some a \<Rightarrow> if remaining a < n then None else Some (freestart a, a\<lparr>remaining := remaining a - n, freestart := freestart a + n\<rparr>))"
    using a n s(1) by (auto simp: GetMemory_def GetMemoryFallback_def and_power_zero arena_ok_def)
  have le: "n \<le> arena_block_size a1" using n(2) s(4) by simp
  have "(\<exists>a2. ?block = Some a2 \<and> arena_ok a2 out \<and> n \<le> remaining a2 \<and> 2 ^ k dvd freestart a2 \<and> arena_block_size a2 = arena_block_size a)
    \<or> ?block = None \<and> refused lib a"
  proof (cases "\<not> ok \<or> remaining a1 < n")
    case True
    then show ?thesis using MakeNewBlock_ok[OF l s(2) k1] le s(4) rf by auto
  next
    case False
    then show ?thesis using s by auto
  qed
  then show ?thesis
  proof
    assume "\<exists>a2. ?block = Some a2 \<and> arena_ok a2 out \<and> n \<le> remaining a2 \<and> 2 ^ k dvd freestart a2 \<and> arena_block_size a2 = arena_block_size a"
    then obtain a2 where a2: "?block = Some a2" "arena_ok a2 out" "n \<le> remaining a2" "2 ^ k dvd freestart a2" "arena_block_size a2 = arena_block_size a" by blast
    then show ?thesis using take_from_free[OF a2(2,3)] unfolding run by auto
  qed (use run in simp)
qed

lemma GetMemory_ok:
  assumes l: "allocates lib" and a: "arena_ok a out" and n: "0 < n" "no_wrap k n" and k: "alignment_fits a k"
  shows "(\<exists>p a'. GetMemory lib n (2 ^ k) a = Some (p, a') \<and> arena_ok a' (out @ [(p, n)]) \<and> 2 ^ k dvd p \<and> p \<noteq> 0 \<and> arena_block_size a' = arena_block_size a)
    \<or> GetMemory lib n (2 ^ k) a = None \<and> refused lib a"
proof -
  have nz: "p \<noteq> 0" if ok: "arena_ok a' (out @ [(p, n)])" for a' p
    using ok by (auto simp: arena_ok_def region_in_def)
  consider (common) "n < remaining a" "k = 0" | (large) "\<not> (n < remaining a \<and> k = 0)" "arena_block_size a div 4 < n"
    | (small) "\<not> (n < remaining a \<and> k = 0)" "n \<le> arena_block_size a div 4" by linarith
  then show ?thesis
  proof cases
    case common
    then have "GetMemory lib n (2 ^ k) a = Some (freestart a, a\<lparr>remaining := remaining a - n, freestart := freestart a + n\<rparr>)"
      using n a by (simp add: GetMemory_def arena_ok_def)
    then show ?thesis using take_from_free[OF a, of n] nz common by auto
  next
    case large
    then show ?thesis using GetMemory_large[OF l a n large(2,1)] k nz by (auto simp: alignment_fits_def)
  next
    case small
    then show ?thesis using GetMemory_small[OF l a n(1) small(2,1) k] nz by blast
  qed
qed

text \<open>After a reset nothing is handed out.\<close>

lemma Reset_ok:
  assumes b: "8 < arena_block_size a" "first_blocks a \<noteq> []" "snd (first_blocks a ! 0) = arena_block_size a" "fst (first_blocks a ! 0) \<noteq> 0"
  shows "\<exists>a'. Reset_arena a = Some a' \<and> arena_ok a' [] \<and> arena_block_size a' = arena_block_size a"
proof -
  obtain m rest where f: "first_blocks a = (m, arena_block_size a) # rest" using b(2,3) by (cases "first_blocks a") auto
  define a1 where "a1 = a\<lparr>first_blocks := [(m, arena_block_size a)], overflow_blocks := [], freestart := m, remaining := arena_block_size a\<rparr>"
  have "arena_ok a1 []" using b f by (simp add: a1_def arena_ok_def held_def pairwise_apart_def free_region_def)
  moreover obtain ok a2 where s: "SatisfyAlignment (2 ^ 3) a1 = Some (ok, a2)" "arena_block_size a2 = arena_block_size a1" "ok"
    using SatisfyAlignment_power[of 3 a1] b(1) by (auto simp: a1_def)
  ultimately have "arena_ok a2 []" using SatisfyAlignment_ok[of a1 "[]" 3] by auto
  then have "arena_ok (a2\<lparr>freestart_when_empty := freestart a2\<rparr>) []" by (simp add: arena_ok_def free_region_def held_def)
  moreover have "Reset_arena a = Some (a2\<lparr>freestart_when_empty := freestart a2\<rparr>)"
    using s(1,3) f by (simp add: Reset_arena_def FreeBlocks_def kDefaultAlignment_def a1_def)
  ultimately show ?thesis using s(2) by (auto simp: a1_def)
qed

subsection \<open>Any sequence of requests and resets\<close>

text \<open>A request for memory of a size at an alignment of two to the \<open>k\<close>, or a reset. The regions handed out are kept beside the arena.\<close>

datatype arena_op = Get nat nat | Reset_all

fun arena_step :: "memory \<Rightarrow> arena_op \<Rightarrow> Arena \<times> region list \<Rightarrow> (Arena \<times> region list) option" where
  "arena_step lib (Get n k) (a, out) = map_option (\<lambda>(p, a). (a, if n = 0 then out else out @ [(p, n)])) (GetMemory lib n (2 ^ k) a)"
| "arena_step lib Reset_all (a, out) = map_option (\<lambda>a. (a, [])) (Reset_arena a)"

text \<open>The sizes and the alignments asked for since the last reset.\<close>

fun asked :: "arena_op \<Rightarrow> region list \<Rightarrow> region list" where
  "asked (Get n k) rs = (if n = 0 then rs else rs @ [(n, k)])"
| "asked Reset_all rs = []"

definition serves :: "nat \<Rightarrow> Arena \<times> region list \<Rightarrow> region list \<Rightarrow> bool" where
  "serves bs st rs \<longleftrightarrow> arena_block_size (fst st) = bs \<and> arena_ok (fst st) (snd st)
     \<and> list_all2 (\<lambda>(p, n) (n', k). n = n' \<and> p \<noteq> 0 \<and> 2 ^ k dvd p) (snd st) rs"

text \<open>The alignment is at most \<open>2 ^ 20\<close>, the block size a multiple of it, and the size does not wrap.\<close>

definition fits :: "nat \<Rightarrow> arena_op \<Rightarrow> bool" where
  "fits bs p = (case p of Get n k \<Rightarrow> k \<le> 20 \<and> block_alignment k dvd bs \<and> no_wrap k n | Reset_all \<Rightarrow> True)"

text \<open>Some operation of the sequence had an allocation that returned null.\<close>

definition out_of_memory :: "memory \<Rightarrow> arena_op list \<Rightarrow> Arena \<times> region list \<Rightarrow> bool" where
  "out_of_memory lib ops st \<longleftrightarrow> (\<exists>ops1 p ops2 a out. ops = ops1 @ p # ops2 \<and> run_ops (arena_step lib) ops1 st = Some (a, out) \<and> refused lib a)"

lemma GetMemory_nothing: "arena_ok a out \<Longrightarrow> GetMemory lib 0 al a = Some (0, a)"
  by (simp add: GetMemory_def GetMemoryFallback_def arena_ok_def)

lemma arena_step_serves:
  assumes l: "allocates lib" and s: "serves bs (a, out) rs" and f: "fits bs p" "bs < 2 ^ 64"
  shows "case arena_step lib p (a, out) of Some st \<Rightarrow> serves bs st (asked p rs) | None \<Rightarrow> refused lib a"
proof -
  have st: "arena_block_size a = bs" "arena_ok a out" "list_all2 (\<lambda>(p, n) (n', k). n = n' \<and> p \<noteq> 0 \<and> 2 ^ k dvd p) out rs"
    using s by (simp_all add: serves_def)
  show ?thesis
  proof (cases p)
    case (Get n k)
    show ?thesis
    proof (cases "n = 0")
      case True
      then show ?thesis using s GetMemory_nothing[OF st(2)] by (simp add: Get)
    next
      case False
      then have "0 < n" "no_wrap k n" "alignment_fits a k" using f st(1) by (auto simp: Get fits_def alignment_fits_def)
      then show ?thesis using GetMemory_ok[OF l st(2), of n k] st False by (auto simp: Get serves_def list_all2_appendI)
    qed
  next
    case Reset_all
    have "fst (first_blocks a ! 0) \<noteq> 0" using st(2) by (auto simp: arena_ok_def held_def)
    then show ?thesis using st Reset_ok[of a] by (auto simp: Reset_all serves_def arena_ok_def)
  qed
qed

lemma arena_runs:
  assumes l: "allocates lib" and "serves bs st rs" and "list_all (fits bs) ops" and bs: "bs < 2 ^ 64"
  shows "case run_ops (arena_step lib) ops st of Some st' \<Rightarrow> serves bs st' (fold asked ops rs) | None \<Rightarrow> out_of_memory lib ops st"
  using assms(2,3)
proof (induction ops arbitrary: st rs)
  case (Cons p ops)
  obtain a out where st: "st = (a, out)" by fastforce
  show ?case
  proof (cases "arena_step lib p st")
    case None
    then have "refused lib a" using arena_step_serves[OF l, of bs a out rs p] Cons(2,3) bs by (simp add: st)
    then have "out_of_memory lib (p # ops) st" unfolding out_of_memory_def using st by (intro exI[of _ "[]"] exI[of _ p] exI[of _ ops]) simp
    then show ?thesis using None by simp
  next
    case (Some st1)
    then have "serves bs st1 (asked p rs)" using arena_step_serves[OF l, of bs a out rs p] Cons(2,3) bs by (simp add: st)
    moreover have "out_of_memory lib (p # ops) st" if "out_of_memory lib ops st1"
    proof -
      obtain ops1 q ops2 a out where "ops = ops1 @ q # ops2" "run_ops (arena_step lib) ops1 st1 = Some (a, out)" "refused lib a"
        using \<open>out_of_memory lib ops st1\<close> unfolding out_of_memory_def by blast
      then show ?thesis unfolding out_of_memory_def using Some by (intro exI[of _ "p # ops1"] exI[of _ q] exI[of _ ops2]) simp
    qed
    ultimately show ?thesis using Cons(1)[of st1 "asked p rs"] Cons(3) Some by (auto split: option.splits)
  qed
qed simp

text \<open>The constructor does not look at what \<open>malloc\<close> returns.\<close>

lemma Arena_new_ok:
  assumes "8 < bs" and "malloc lib [] bs \<noteq> 0"
  shows "\<exists>a. Arena_new lib bs = Some a \<and> serves bs (a, []) []"
  using assms Reset_ok[of "\<lparr>remaining = 0, arena_block_size = bs, freestart = 0, freestart_when_empty = 0, first_blocks = [(malloc lib [] bs, bs)], overflow_blocks = []\<rparr>"]
  by (auto simp: Arena_new_def kDefaultAlignment_def serves_def)

lemma Arena_new_null:
  assumes "8 < bs" and "malloc lib [] bs = 0"
  shows "\<exists>a. Arena_new lib bs = Some a \<and> GetMemory lib 1 1 a = Some (0, a\<lparr>freestart := 1, remaining := bs - 1\<rparr>)"
  using assms by (simp add: Arena_new_def kDefaultAlignment_def Reset_arena_def FreeBlocks_def SatisfyAlignment_def GetMemory_def Let_def)

subsection \<open>An allocator\<close>

text \<open>An allocator that never uses an address twice, as long as there are addresses.\<close>

definition above :: "region list \<Rightarrow> nat" where
  "above live = 1 + sum_list (map (\<lambda>b. fst b + snd b) live)"

definition bump :: memory where
  "bump = \<lparr>malloc = (\<lambda>live n. if above live + n < 2 ^ 64 then above live else 0),
     aligned_malloc = (\<lambda>live n al. if al * above live + n < 2 ^ 64 then al * above live else 0)\<rparr>"

lemma bump_allocates: "allocates bump"
proof -
  have end_below: "fst b + snd b \<le> above live" if "b \<in> set live" for b live
    using member_le_sum_list[of "fst b + snd b" "map (\<lambda>b. fst b + snd b) live"] that by (auto simp: above_def)
  moreover have "fst b + snd b \<le> al * above live" if "b \<in> set live" "0 < al" for b live al
    using end_below[OF that(1)] that(2) by (metis le_trans mult_le_mono1 nat_mult_1 Suc_leI One_nat_def)
  ultimately show ?thesis by (auto simp: allocates_def bump_def no_overlap_def above_def)
qed

text \<open>With a block size that is no multiple of eight, a request at an alignment gets a larger block, and the next call fails the assertion on \<open>remaining_\<close>.\<close>

lemma larger_block_fails:
  "\<exists>a b. Arena_new bump 100 = Some a \<and> run_ops (arena_step bump) [Get 25 0, Get 25 0, Get 25 0, Get 18 0, Get 1 3] (a, []) = Some b
    \<and> arena_step bump (Get 1 0) b = None"
  by (simp add: Arena_new_def kDefaultAlignment_def Reset_arena_def FreeBlocks_def SatisfyAlignment_def bump_def above_def GetMemory_def
      GetMemoryFallback_def MakeNewBlock_def AllocNewBlock_def LeastCommonMultiple_def GCD_loop.simps held_def add_block_def Let_def)

end
