(* ===== verification/TfLib.thy ===== *)
theory TfLib
  imports Hash Sampler Picker SignedCode Table InputBuffer EditDistance StrUtil Arena
begin

text \<open>
  What the library functions of tensorflow/core/lib promise their callers, over the models of the other
  theories: codes, checksums and hashes, random numbers, records and blocks.
\<close>

section \<open>Codes\<close>

text \<open>
  A sequence of 64-bit numbers written with \<open>PutVarint64\<close> is read back by as many calls of
  \<open>GetVarint64\<close>, which leave the bytes behind it.
\<close>

theorem varints_are_read_back:
  "\<exists>e. put_all PutVarint64 [] ns = Some e \<and> get_all GetVarint64 (length ns) (e @ rest) = Some (ns, rest)"
  using varint64.put_all_appends[of ns] varint64.all_read_back[of ns] by fastforce

text \<open>
  The unrolled 32-bit encoder writes what the 64-bit loop writes, \<open>VarintLength\<close> is the number of
  bytes, at most ten, and the 32-bit decoder, with its fast path, reads the number back.
\<close>

theorem varint_encoders_agree:
  "EncodeVarint32 v = EncodeVarint64 (ucast v) \<and> length (EncodeVarint32 v) = VarintLength (ucast v) \<and> VarintLength w \<le> 10
    \<and> length (EncodeVarint64 w) = VarintLength w \<and> GetVarint32 (EncodeVarint32 v @ rest) = Some (v, rest)"
  using EncodeVarint32_64[of v] VarintLength_length[of w] VarintLength_length[of "ucast v"] VarintLength_le_10[of w]
    GetVarint32_EncodeVarint32[of v rest] by simp

text \<open>
  C36. Sort keys of a string and a number, as the ordered code writes them, compare as bytes the way the
  pairs compare, and both fields are read back.
\<close>

theorem composite_keys_sort:
  "\<exists>d e. WriteNumIncreasing (WriteString [] s) m = Some d \<and> WriteNumIncreasing (WriteString [] t) n = Some e
    \<and> (bytes_less d e \<longleftrightarrow> bytes_less s t \<or> s = t \<and> m < n)
    \<and> (\<exists>src. ReadString (d @ rest) [] = Some (s, src) \<and> ReadNumIncreasing src = Some (m, rest))"
proof -
  obtain a b where a: "\<And>dst. WriteNumIncreasing dst m = Some (dst @ a)" and b: "\<And>dst. WriteNumIncreasing dst n = Some (dst @ b)"
    using number_key.writes[of m] number_key.writes[of n] by blast
  have "bytes_less a b \<longleftrightarrow> m < n"
    using number_key.field_order[of m a n b "[]" "[]"] a[of "[]"] b[of "[]"] by (auto simp: bytes_less_def)
  moreover have "bytes_less (WriteString [] s @ a) (WriteString [] t @ b) \<longleftrightarrow> bytes_less s t \<or> s = t \<and> bytes_less a b"
    using string_key.field_order[of s _ t _ a b, OF refl refl] by (simp add: bytes_less_def)
  moreover have "ReadString ((WriteString [] s @ a) @ rest) [] = Some (s, a @ rest)" using string_key.reads_back[of s _ "a @ rest", OF refl] by simp
  moreover have "ReadNumIncreasing (a @ rest) = Some (m, rest)" using number_key.reads_back[of m a rest] a[of "[]"] by simp
  ultimately show ?thesis using a b by blast
qed

text \<open>
  C37. Signed numbers: the encodings, whatever follows them, compare as bytes the way the numbers compare
  as \<open>int64\<close>, and are read back.
\<close>

theorem signed_keys_sort:
  "(bytes_less (WriteSignedNumIncreasing [] a @ u) (WriteSignedNumIncreasing [] b @ v) \<longleftrightarrow> sint a < sint b \<or> a = b \<and> bytes_less u v)
    \<and> ReadSignedNumIncreasing (WriteSignedNumIncreasing [] a @ u) = Some (a, u)"
  using signed_key.field_order[of a _ b _ u v, OF refl refl] signed_key.reads_back[of a _ u, OF refl]
  by (simp add: bytes_less_def)

text \<open>
  The loops of the portable \<open>Log2Floor\<close> give what the compiler's count of leading zeros gives, for zero
  too, and that is the logarithm rounded down.
\<close>

theorem portable_log_agrees:
  "Log2Floor_portable n = Some (Log2Floor n) \<and> Log2Floor64_portable m = Some (Log2Floor64 m)
    \<and> (n = 0 \<or> (\<exists>k. Log2Floor n = int k \<and> 2 ^ k \<le> unat n \<and> unat n < 2 ^ Suc k))"
  using Log2Floor_portable_same[of n] Log2Floor64_portable_same[of m] Log2Floor_spec[of n] by (auto simp: floor_log_def)

section \<open>Checksums and hashes\<close>

text \<open>
  C33. \<open>Extend\<close>, which takes the bytes in words of four with four tables as the address allows, computes
  the remainder bit by bit, for every start value and every address, and never leaves the buffer; so the checksum
  of a string in two parts is that of the whole.
\<close>

theorem crc_in_words_is_crc_in_bits:
  "Extend crc pval buf = Some (crc_bits crc buf)
    \<and> (\<exists>c. Extend crc pval p = Some c \<and> Extend c pval' q = Extend crc pval'' (p @ q))"
  by (simp add: Extend_divides crc_bits_append)

text \<open>
  The checksum finds every change within four neighbouring bytes, at whatever addresses the two
  strings lie.
\<close>

theorem crc_finds_bursts:
  assumes "length b = length b'" and "length b \<le> 4" and "b \<noteq> b'"
  shows "Value addr (p @ b @ q) \<noteq> Value addr' (p @ b' @ q)"
  using crc_bits_burst[OF assms] by (simp add: Value_bits)

theorem crc_finds_bursts_witness: "Value 0 [1, 2, 3, 4, 5] \<noteq> Value 3 [1, 2, 7, 0, 5]"
  using crc_finds_bursts[of "[3, 4]" "[7, 0]" 0 "[1, 2]" "[5]" 3] by simp

text \<open>
  The hashes return for every buffer, and two buffers that differ in one aligned block of four
  (\<open>Hash32\<close>) or eight (\<open>Hash64\<close>) bytes never collide.
\<close>

theorem one_block_never_collides:
  assumes "length p mod 4 = 0" "length b = 4" "length b' = 4" "b \<noteq> b'"
    and "length p' mod 8 = 0" "length c = 8" "length c' = 8" "c \<noteq> c'"
  shows "(\<exists>h h'. Hash32 (p @ b @ q) seed = Some h \<and> Hash32 (p @ b' @ q) seed = Some h' \<and> h \<noteq> h')
    \<and> (\<exists>h h'. Hash64 (p' @ c @ q') seed' = Some h \<and> Hash64 (p' @ c' @ q') seed' = Some h' \<and> h \<noteq> h')"
  using Hash32_block_inj[OF assms(1-4), of q seed] Hash64_block_inj[OF assms(5-8), of q' seed']
    Hash_returns(1)[of "p @ b @ q" seed] Hash_returns(1)[of "p @ b' @ q" seed]
    Hash_returns(2)[of "p' @ c @ q'" seed'] Hash_returns(2)[of "p' @ c' @ q'" seed'] by metis

theorem one_block_never_collides_witness:
  "(\<exists>h h'. Hash32 [1, 2, 3, 4, 9] 7 = Some h \<and> Hash32 [1, 2, 3, 5, 9] 7 = Some h' \<and> h \<noteq> h')
    \<and> (\<exists>h h'. Hash64 [1, 2, 3, 4, 5, 6, 7, 8, 9] 7 = Some h \<and> Hash64 [1, 2, 3, 5, 5, 6, 7, 8, 9] 7 = Some h' \<and> h \<noteq> h')"
  using one_block_never_collides[of "[]" "[1, 2, 3, 4]" "[1, 2, 3, 5]" "[]" "[1, 2, 3, 4, 5, 6, 7, 8]" "[1, 2, 3, 5, 5, 6, 7, 8]" "[9]" 7 "[9]" 7]
  by simp

section \<open>Random numbers\<close>

text \<open>
  C39. No block of 128 bits of the generator comes twice within its period of 2^128 blocks.
\<close>

theorem philox_blocks_differ:
  assumes "i < j" and "j < i + 2 ^ 128"
  shows "philox_block i g \<noteq> philox_block j g"
  using blocks_differ[OF assms] .

theorem philox_blocks_differ_witness: "philox_block 0 (PhiloxRandom_seed 42) \<noteq> philox_block 1000000 (PhiloxRandom_seed 42)"
  using philox_blocks_differ[of 0 1000000 "PhiloxRandom_seed 42"] by simp

text \<open>
  \<open>Skip\<close> moves the generator as that many draws do, except when the low half of the counter carries
  into a high half of the count that is all ones: then the carry is lost and the generator is 2^64
  blocks behind.
\<close>

theorem skip_moves_the_counter:
  "position (Skip count g) = (position g + unat count - (if carry_lost count g then 2 ^ 64 else 0)) mod 2 ^ 128
    \<and> (carry_lost count g \<or> Skip count g = steps (unat count) g)"
  using Skip_position[of count g] Skip_steps[of count g] by blast

text \<open>
  The adapter hands out the words of the generator's blocks one by one, in their order, without
  losing or repeating one.
\<close>

theorem words_come_in_order:
  "fst (single (draws n (SimplePhilox_new g))) = block_list (philox_block (n div 4) g) ! (n mod 4)"
  by (rule single_reads)

lemma power_of_two_dvd: "d dvd 2 ^ k \<Longrightarrow> \<exists>i. d = 2 ^ i" for d :: nat
proof (induction k arbitrary: d)
  case 0
  then show ?case by (intro exI[of _ 0]) simp
next
  case (Suc k)
  show ?case
  proof (cases "even d")
    case True
    then obtain e where e: "d = 2 * e" by blast
    then have "e dvd 2 ^ k" using Suc(2) by simp
    then obtain i where "e = 2 ^ i" using Suc(1) by blast
    then show ?thesis using e by (intro exI[of _ "Suc i"]) simp
  next
    case False
    then have "coprime d (2 ^ Suc k)" by simp
    then have "is_unit d" using coprime_absorb_left[OF Suc(2)] by (simp only:)
    then have "d = 2 ^ 0" by simp
    then show ?thesis by (rule exI)
  qed
qed

text \<open>The test of the code: \<open>n & (n - 1)\<close>.\<close>

lemma power_of_two_test:
  fixes n :: "'a::len word"
  assumes "n \<noteq> 0"
  shows "n AND (n - 1) = 0 \<longleftrightarrow> (\<exists>k. unat n = 2 ^ k)"
proof
  assume "\<exists>k. unat n = 2 ^ k"
  then obtain k where k: "unat n = 2 ^ k" by blast
  then have "unat (n - 1) = 2 ^ k - 1" using assms by (simp add: unat_minus_one)
  then have "unat (n AND (n - 1)) = 2 ^ k AND (2 ^ k - 1)" by (simp add: unsigned_and_eq k)
  also have "\<dots> = take_bit k (2 ^ k)" by (simp add: take_bit_eq_mask mask_eq_exp_minus_1)
  also have "\<dots> = 0" by (simp add: take_bit_eq_mod)
  finally show "n AND (n - 1) = 0" by (simp add: unsigned_eq_0_iff)
next
  assume z: "n AND (n - 1) = 0"
  obtain k where k: "2 ^ k \<le> unat n" "unat n < 2 ^ (k + 1)"
    using ex_power_ivl1[of 2 "unat n"] assms by (auto simp: unat_gt_0 Suc_le_eq)
  have "unat n = 2 ^ k"
  proof (rule ccontr)
    assume "unat n \<noteq> 2 ^ k"
    then have "2 ^ k \<le> unat (n - 1)" "unat (n - 1) < 2 ^ (k + 1)" using k assms by (simp_all add: unat_minus_one)
    then have "unat (n - 1) div 2 ^ k = 1" "unat n div 2 ^ k = 1" using k by (intro div_nat_eqI; simp)+
    then have "bit (unat (n - 1)) k" "bit (unat n) k" by (simp_all add: bit_iff_odd)
    then have "bit (n AND (n - 1)) k" by (simp add: bit_and_iff bit_unsigned_iff)
    then show False using z by simp
  qed
  then show "\<exists>k. unat n = 2 ^ k" by blast
qed

lemma reject_drawn:
  assumes "reject random rem s = Some y"
  shows "(\<forall>t. fst (random t) = x) \<longrightarrow> fst y = x"
  by (rule reject.raw_induct[where P = "\<lambda>random rem s y. (\<forall>t. fst (random t) = x) \<longrightarrow> fst y = x", OF _ assms])
    (auto split: if_splits prod.splits, metis fst_conv)

lemma reject_constant: "reject (\<lambda>s. (x, s)) rem s = (if x < rem then None else Some (x, s))"
proof (cases "x < rem")
  case True
  have "reject (\<lambda>s. (x, s)) rem s \<noteq> Some y" for y
  proof
    assume y: "reject (\<lambda>s. (x, s)) rem s = Some y"
    then have "fst y = x" using reject_drawn[of "\<lambda>s. (x, s)" rem s y x] by simp
    then show False using reject_result[OF y] True by simp
  qed
  then have "reject (\<lambda>s. (x, s)) rem s = None" by (metis not_None_eq)
  then show ?thesis using True by simp
next
  case False
  then show ?thesis by (subst reject.simps) simp
qed

text \<open>
  C38. \<open>ExactUniformInt\<close> is exactly uniform: every result below \<open>n\<close> is given by the same number of the words
  that can be drawn, for every width of the word and every \<open>n\<close>, a power of two or not.
\<close>

theorem exact_uniform_is_uniform:
  fixes n r :: "'a::len word"
  assumes "r < n"
  shows "card {x. ExactUniformInt n (\<lambda>s. (x, s)) s = Some (r, s)} = 2 ^ LENGTH('a) div unat n"
proof -
  have n: "n \<noteq> 0" using assms by auto
  show ?thesis
  proof (cases "n AND (n - 1) = 0")
    case True
    then obtain k where k: "unat n = 2 ^ k" using power_of_two_test[OF n] by blast
    have "(2 :: nat) ^ k < 2 ^ LENGTH('a)" using unat_less[of n] k by simp
    then have kl: "k < LENGTH('a)" by (rule power_less_imp_less_exp[rotated]) simp
    have "unat (n - 1) = 2 ^ k - 1" using n k by (simp add: unat_minus_one)
    then have "unat (x AND (n - 1)) = unat x mod 2 ^ k" for x
      by (simp only: unsigned_and_eq take_bit_eq_mod[symmetric] take_bit_eq_mask mask_eq_exp_minus_1)
    then have "ExactUniformInt n (\<lambda>s. (x, s)) s = Some (r, s) \<longleftrightarrow> unat x mod 2 ^ k = unat r" for x
      using True n by (auto simp: ExactUniformInt_def word_unat_eq_iff)
    then have "card {x. ExactUniformInt n (\<lambda>s. (x, s)) s = Some (r, s)} = card {j. j < 2 ^ LENGTH('a) \<and> j mod 2 ^ k = unat r}"
      using card_words[of "\<lambda>j. j mod 2 ^ k = unat r"] by simp
    also have "{j. j < 2 ^ LENGTH('a) \<and> j mod 2 ^ k = unat r} = {j \<in> {0..<0 + 2 ^ (LENGTH('a) - k) * 2 ^ k}. j mod 2 ^ k = unat r}"
      using kl by (simp flip: power_add)
    also have "card \<dots> = 2 ^ (LENGTH('a) - k)" using assms k by (intro residues) (simp_all add: word_less_nat_alt)
    also have "\<dots> = 2 ^ LENGTH('a) div unat n" using kl k by (simp add: power_diff)
    finally show ?thesis .
  next
    case False
    then have "\<not> unat n dvd 2 ^ LENGTH('a)" using power_of_two_test[OF n] power_of_two_dvd by blast
    moreover have "ExactUniformInt n (\<lambda>s. (x, s)) s = Some (r, s) \<longleftrightarrow> accepted n x r" for x
      using False n by (auto simp: ExactUniformInt_def Let_def reject_constant accepted_def rejected_def)
    ultimately show ?thesis using accepted_count[OF n _ assms] by simp
  qed
qed

theorem exact_uniform_is_uniform_witness: "card {x :: u32. ExactUniformInt 6 (\<lambda>s. (x, s)) () = Some (5, ())} = 715827882"
  using exact_uniform_is_uniform[of 5 "6 :: u32" "()"] by simp

text \<open>
  The uniform distributions over signed integers stay inside their interval, however wide: all words of a
  block map to numbers from \<open>lo\<close> on and below \<open>hi\<close>.
\<close>

theorem uniform_integers_stay_inside:
  assumes "sint lo < sint hi" and "sint lo' < sint hi'"
  shows "(\<exists>ys g'. uniform_int32 lo hi g = Some (ys, g') \<and> length ys = 4 \<and> (\<forall>y \<in> set ys. sint lo \<le> sint y \<and> sint y < sint hi))
    \<and> (\<exists>ys g'. uniform_int64 lo' hi' g = Some (ys, g') \<and> length ys = 2 \<and> (\<forall>y \<in> set ys. sint lo' \<le> sint y \<and> sint y < sint hi'))"
  using uniform_int32_in[OF assms(1)] uniform_int64_in[OF assms(2)] by blast

theorem uniform_integers_stay_inside_witness:
  "\<exists>ys g'. uniform_int32 (- 2000000000) 2000000000 (PhiloxRandom_seed 1) = Some (ys, g')
    \<and> (\<forall>y \<in> set ys. - 2000000000 \<le> sint y \<and> sint y < 2000000000)"
  using uniform_integers_stay_inside[of "- 2000000000" 2000000000 "- 5" 5 "PhiloxRandom_seed 1"] by auto

text \<open>
  The floating-point numbers made from random bits are in the interval from 0 to 1, 1 excluded, for
  all bits, in all three precisions.
\<close>

theorem random_floats_below_one:
  "unit_interval (Uint16ToHalf h) \<and> unit_interval (Uint32ToFloat x) \<and> unit_interval (Uint64ToDouble x0 x1)"
  using float_unit by blast

text \<open>
  The alias sampler gives an index of its weights whatever the weights are, negative, infinite or
  not numbers included.
\<close>

theorem sampler_yields_an_index:
  assumes "ws \<noteq> []" and "length ws < 2 ^ 31"
    and "Sample (DistributionSampler_new ws) rand = Some (i, rand')"
  shows "0 \<le> i \<and> i < int (length ws)"
  using Sample_element[OF assms] .

theorem sampler_yields_an_index_witness:
  "\<exists>i rand'. Sample (DistributionSampler_new [NaN, Fin (- 1)]) (SimplePhilox_new (PhiloxRandom_seed 1)) = Some (i, rand') \<and> 0 \<le> i \<and> i < 2"
proof -
  let ?a = "SimplePhilox_new (PhiloxRandom_seed 1)"
  obtain r a where r: "RandFloat ?a = (r, a)" by fastforce
  obtain k b where "Uniform32 (of_nat (length [NaN, Fin (- 1)])) a = Some (k, b)"
    by (cases "Rand32 a") (auto simp: Uniform32_def ExactUniformInt_def)
  from Sample_reads_its_table[OF _ _ r this] obtain i where "Sample (DistributionSampler_new [NaN, Fin (- 1)]) ?a = Some (i, b)" by auto
  then show ?thesis using sampler_yields_an_index[of "[NaN, Fin (- 1)]" ?a i b] by auto
qed

text \<open>
  C34. The picker stands for a list of weights: any sequence of setting one weight, setting all, taking them from
  an array, appending and resizing, within the sizes the constructor can make, succeeds,
  does to the list what it says, and keeps the root of the tree equal to the sum.
\<close>

theorem picker_refines_its_weights:
  assumes "0 \<le> n" "n \<le> 2 ^ 30" and "allowed picker_ok picker_spec acts (replicate (nat n) 1)"
  shows "\<exists>p q. WeightedPicker_new junk n = Some p \<and> run_ops (picker_step junk) acts p = Some q
    \<and> wf_picker q \<and> weights q = fold picker_spec acts (replicate (nat n) 1) \<and> total_weight q = sum_list (weights q)"
proof -
  obtain p where p: "WeightedPicker_new junk n = Some p" "holds_weights p (replicate (nat n) 1)"
    using new_wf[OF assms(1,2), of junk] by (auto simp: holds_weights_def)
  obtain q where "run_ops (picker_step junk) acts p = Some q" "holds_weights q (fold picker_spec acts (replicate (nat n) 1))"
    using picker.runs[OF p(2) assms(3), of junk] by blast
  then show ?thesis using p(1) total_weight_sum[of q] by (auto simp: holds_weights_def)
qed

theorem picker_refines_its_weights_witness:
  "\<exists>p q. WeightedPicker_new 9 3 = Some p \<and> run_ops (picker_step 9) [SetWeight 1 5, AppendOne 7, ResizeTo 6, AppendOne 2, ResizeTo 3] p = Some q
    \<and> weights q = [1, 5, 1]"
proof -
  let ?acts = "[SetWeight 1 5, AppendOne 7, ResizeTo 6, AppendOne 2, ResizeTo 3]"
  have r: "replicate (nat 3) 1 = [1, 1, 1 :: int32]" by (simp add: numeral_3_eq_3)
  have "allowed picker_ok picker_spec ?acts [1, 1, 1]" by (simp add: picker_ok_def picker_spec_def resized_def)
  moreover have "fold picker_spec ?acts [1, 1, 1] = [1, 5, 1]" by (simp add: picker_spec_def resized_def)
  ultimately show ?thesis using picker_refines_its_weights[of 3 ?acts 9] unfolding r by auto
qed

text \<open>
  C35. \<open>PickAt\<close> is proportional: with weights whose sum fits an \<open>int\<close>, exactly as many of the indices below the
  sum pick an element as its weight says.
\<close>

theorem picks_are_proportional:
  assumes "wf_picker p" and "small p" and "i < num_elements p"
  shows "card {t. t < sum_list (map unat (weights p)) \<and> PickAt (of_nat t) p = Some (int i)} = unat (weights p ! i)"
  using PickAt_count[OF assms] .

theorem picks_are_proportional_witness:
  "\<exists>p. WeightedPicker_new 9 3 = Some p \<and> card {t. t < 3 \<and> PickAt (of_nat t) p = Some 2} = 1"
proof -
  obtain p where p: "WeightedPicker_new 9 3 = Some p" "wf_picker p" "weights p = replicate 3 1" using new_wf[of 3 9] by auto
  then have "num_elements p = 3" "small p" using weights_len[of p] by (simp_all add: small_def numeral_3_eq_3)
  then show ?thesis using picks_are_proportional[of p 2] p by (simp add: numeral_3_eq_3)
qed

text \<open>
  For more than 2^30 elements the constructor never returns: the size of a level wraps before it is
  large enough.
\<close>

theorem picker_constructor_loops:
  assumes "2 ^ 30 < n"
  shows "WeightedPicker_new junk n = None"
  using find_levels_diverges[OF assms] by (simp add: WeightedPicker_new_def)

theorem picker_constructor_loops_witness: "WeightedPicker_new 0 (2 ^ 30 + 1) = None"
  by (rule picker_constructor_loops) simp

section \<open>Records and blocks\<close>

text \<open>
  C17. A file of records: what \<open>WriteRecord\<close> wrote, record by record, to a file that was empty is read back by
  \<open>ReadRecord\<close> from offset 0, and then the end of the file is reported, with the status \<open>OutOfRange\<close> of the read.
\<close>

theorem records_are_read_back:
  assumes "appends put contents" and "contents s = []" and "12 < size_max" and "\<And>d. d \<in> set ds \<Longrightarrow> length d < size_max - 4"
    and "length (concat (map framed ds)) < 2 ^ 64"
  shows "\<exists>s'. run_ops (write_step put a a') ds s = Some s'
    \<and> (\<forall>rd n. holds rd (contents s') \<longrightarrow> length ds < n \<longrightarrow> (\<exists>m. read_records n size_max rd a a' 0 = Some (ds, OutOfRange m)))"
proof -
  have "record_file put contents s []" using assms(1,2) by (simp add: record_file_def)
  moreover have "allowed (\<lambda>d ds. True) (\<lambda>d ds. ds @ [d]) ds ds'" for ds' by (induction ds arbitrary: ds') simp_all
  ultimately obtain s' where "run_ops (write_step put a a') ds s = Some s'" "record_file put contents s' (fold (\<lambda>d ds. ds @ [d]) ds [])"
    using record_writer.runs[of put contents s "[]" ds a a'] by blast
  then show ?thesis using read_records_from[of _ "[]" ds size_max _ 0 a a'] assms(3-5) by (auto simp: record_file_def fold_snoc)
qed

text \<open>A file in memory.\<close>

definition memory_file :: "byte list \<Rightarrow> 64 word \<Rightarrow> nat \<Rightarrow> status + byte list" where
  "memory_file cs offset n = (if n \<le> length cs - unat offset then Inr (take n (drop (unat offset) cs)) else Inl (OutOfRange ''EOF reached''))"

lemma memory_file_holds: "holds (memory_file cs) cs"
  by (simp add: holds_def memory_file_def)

theorem records_are_read_back_witness:
  "\<exists>f m. run_ops (write_step (\<lambda>bs f. Inr (f @ bs)) 0 0) [[1, 2, 3], [], [4]] [] = Some f
    \<and> read_records 9 1000 (memory_file f) 0 0 0 = Some ([[1, 2, 3], [], [4]], OutOfRange m)"
  using records_are_read_back[of "\<lambda>bs f. Inr (f @ bs)" "\<lambda>f. f" "[]" 1000 "[[1, 2, 3], [], [4]]" 0 0] memory_file_holds
  by (fastforce simp: appends_def framed_len)

text \<open>
  C18. A change within four neighbouring bytes of the data of a record is reported as a corrupted record.
\<close>

theorem corrupted_record_is_reported:
  assumes "holds rd contents" and "length b = length b'" "length b \<le> 4" "b \<noteq> b'"
    and "drop (unat offset) contents = take 12 (framed (p @ b @ q)) @ (p @ b' @ q) @ drop (12 + length (p @ b @ q)) (framed (p @ b @ q)) @ rest"
    and "length (p @ b @ q) < size_max - 4" "12 < size_max" "length contents < 2 ^ 64"
  shows "ReadRecord size_max False rd zlib_rd addr addr' offset z = Some (Inl (DataLossAt ''corrupted record at '' (offset + 12)))"
  using ReadRecord_corrupted[OF assms] .

theorem corrupted_record_is_reported_witness:
  "ReadRecord 1000 False (memory_file (take 12 (framed [1, 2, 3]) @ [1, 9, 3] @ drop 15 (framed [1, 2, 3])))
    (\<lambda>_ z. Inl (OtherError [])) 0 0 0 () = Some (Inl (DataLossAt ''corrupted record at '' 12))"
  using corrupted_record_is_reported[of "memory_file (take 12 (framed [1, 2, 3]) @ [1, 9, 3] @ drop 15 (framed [1, 2, 3]))"
      "take 12 (framed [1, 2, 3]) @ [1, 9, 3] @ drop 15 (framed [1, 2, 3])" "[2]" "[9]" 0 "[1]" "[3]" "[]" 1000 "\<lambda>_ z. Inl (OtherError [])" 0 0 "()"]
    memory_file_holds by (simp add: framed_len)

text \<open>
  C16. A block: key-value pairs with increasing keys can all be added to a builder, whatever the restart interval, and
  iterating over the finished block gives exactly the pairs, in order.
\<close>

theorem blocks_are_read_back:
  assumes "1 \<le> interval" and "sorted_wrt bytes_less (map fst kvs)"
  shows "\<exists>b0 b. BlockBuilder_new interval = Some b0 \<and> run_ops (add_pair interval) kvs b0 = Some b
    \<and> (length (fst (Finish b)) < 2 ^ 32 \<longrightarrow> read_all (length kvs) (fst (Finish b)) = Some kvs)"
  using block_roundtrip[OF assms] .

theorem blocks_are_read_back_witness:
  "\<exists>b0 b. BlockBuilder_new 2 = Some b0 \<and> run_ops (add_pair 2) [([1], [7]), ([1, 2], []), ([1, 2, 3], [8, 9])] b0 = Some b"
  using blocks_are_read_back[of 2 "[([1], [7]), ([1, 2], []), ([1, 2, 3], [8, 9])]"] by auto

text \<open>
  The footer of a table file takes 48 bytes, and decoding it gives the two handles back and leaves what
  follows it.
\<close>

theorem footer_is_read_back:
  assumes "offset_of (metaindex_handle f) \<noteq> NOT 0" "stored_size (metaindex_handle f) \<noteq> NOT 0"
    and "offset_of (index_handle f) \<noteq> NOT 0" "stored_size (index_handle f) \<noteq> NOT 0"
  shows "\<exists>out. EncodeFooterTo f [] = Some out \<and> length out = kEncodedLength
    \<and> (\<forall>f0 rest. DecodeFooterFrom (out @ rest) f0 = Some (None, f, rest))"
  using footer_roundtrip[OF assms] .

theorem footer_is_read_back_witness:
  "\<exists>out. EncodeFooterTo \<lparr>metaindex_handle = \<lparr>offset_of = 1, stored_size = 2\<rparr>, index_handle = \<lparr>offset_of = 300, stored_size = 70000\<rparr>\<rparr> [] = Some out
    \<and> length out = 48"
  using footer_is_read_back[of "\<lparr>metaindex_handle = \<lparr>offset_of = 1, stored_size = 2\<rparr>, index_handle = \<lparr>offset_of = 300, stored_size = 70000\<rparr>\<rparr>"]
  by (auto simp: kEncodedLength_def kMaxEncodedLength_def)

section \<open>Tables\<close>

text \<open>
  C14. A table: key-value pairs with increasing keys can all be added to a builder, for every block size,
  restart interval and compression, and \<open>Finish\<close> succeeds. The file, opened with the size that the builder gives, is
  iterated to exactly the pairs, in their order; from \<open>Seek\<close> to a target, to those that are not below
  the target. The bound on the weight of the pairs keeps offsets inside a block below 2^32.
\<close>

theorem tables_are_read_back:
  assumes "good_file env contents" and "good_snappy env (uncompressed_length src) (uncompress src)" and "contents f = []"
    and "1 \<le> block_restart_interval opt" and "sorted_wrt bytes_less (map fst kvs)" and "weight kvs < 2 ^ 30"
  shows "\<exists>r. write_table env opt f kvs = Some (None, r) \<and> (reads_source src (contents (out_file r)) \<longrightarrow>
    (\<exists>table. Open opt' src (FileSize r) = Some (Inr table) \<and> read_table (length kvs) table = Some kvs
      \<and> (\<forall>target. read_from target (length kvs) table = Some (dropWhile (\<lambda>kv. bytes_less (fst kv) target) kvs))))"
proof -
  obtain r where r: "write_table env opt f kvs = Some (None, r)"
    "reads_source src (contents (out_file r)) \<longrightarrow> (\<exists>table seps chunks. Open opt' src (FileSize r) = Some (Inr table) \<and> opened table seps chunks
      \<and> kvs = concat (map fst chunks) \<and> (\<forall>c \<in> set chunks. stored_in src (contents (out_file r)) (snd c) (fst c)))"
    using written_opens[OF assms(1-6), of opt'] by blast
  show ?thesis
  proof (rule exI[of _ r], rule conjI[OF r(1)], rule impI)
    assume "reads_source src (contents (out_file r))"
    with r(2) obtain table seps chunks where t: "Open opt' src (FileSize r) = Some (Inr table)" "opened table seps chunks"
      "kvs = concat (map fst chunks)" by blast
    then show "\<exists>table. Open opt' src (FileSize r) = Some (Inr table) \<and> read_table (length kvs) table = Some kvs
      \<and> (\<forall>target. read_from target (length kvs) table = Some (dropWhile (\<lambda>kv. bytes_less (fst kv) target) kvs))"
      using read_table_opened[OF t(2), of "length kvs"] read_from_opened[OF t(2), of "length kvs"] by auto
  qed
qed

text \<open>A file that is the list of its bytes, without Snappy, and a source for it.\<close>

definition plain_file :: "byte list environment" where
  "plain_file = \<lparr>append_to = (\<lambda>bs f. (None, f @ bs)), flush_file = (\<lambda>f. (None, f)), snappy_compress = (\<lambda>_. None), address = (\<lambda>_. 0)\<rparr>"

definition plain_source :: "byte list \<Rightarrow> source" where
  "plain_source cs = \<lparr>read_file = (\<lambda>offset n. map_sum id (\<lambda>bs. (bs, True)) (memory_file cs offset n)), uncompressed_length = (\<lambda>_. None),
     uncompress = (\<lambda>_. None), buffer_address = (\<lambda>_. 0)\<rparr>"

definition two_pairs :: "(byte list \<times> byte list) list" where
  "two_pairs = [([1], [7]), ([1, 2], [8, 9])]"

definition small_blocks :: Options where
  "small_blocks = \<lparr>block_size = 1, block_restart_interval = 2, compression_type = kNoCompression\<rparr>"

lemma plain_good: "good_file plain_file (\<lambda>f. f)" "good_snappy plain_file (uncompressed_length (plain_source cs)) (uncompress (plain_source cs))"
  "reads_source (plain_source cs) cs"
  by (auto simp: good_file_def good_snappy_def reads_source_def reads_file_def plain_file_def plain_source_def memory_file_def)

lemma two_pairs_good: "sorted_wrt bytes_less (map fst two_pairs)" "weight two_pairs < 2 ^ 30" "length two_pairs = 2" "1 \<le> block_restart_interval small_blocks"
  "([1, 2], [8, 9]) \<in> set two_pairs"
  by (simp_all add: two_pairs_def small_blocks_def)

theorem tables_are_read_back_witness:
  "\<exists>r table. write_table plain_file small_blocks [] two_pairs = Some (None, r) \<and> Open small_blocks (plain_source (out_file r)) (FileSize r) = Some (Inr table)
    \<and> read_table 2 table = Some two_pairs"
proof -
  obtain r where r: "write_table plain_file small_blocks [] two_pairs = Some (None, r)"
    using tables_are_read_back[OF plain_good(1,2) refl two_pairs_good(4,1,2), of "[]"] by blast
  then show ?thesis
    using tables_are_read_back[OF plain_good(1,2) refl two_pairs_good(4,1,2), of "out_file r" small_blocks] plain_good(3)[of "out_file r"]
    by (auto simp: two_pairs_good(3))
qed

text \<open>
  C15. A lookup in a table that was written finds every key with its value; for any key it reports no
  error, and what it hands to its caller is a pair of the table with a key that is not below the one asked for. The offset that
  \<open>ApproximateOffsetOf\<close> gives for a key of the table is that of a block of the file that holds the key.
\<close>

theorem table_lookups_find_their_keys:
  assumes "good_file env contents" and "good_snappy env (uncompressed_length src) (uncompress src)" and "contents f = []"
    and "1 \<le> block_restart_interval opt" and "sorted_wrt bytes_less (map fst kvs)" and "weight kvs < 2 ^ 30"
  shows "\<exists>r. write_table env opt f kvs = Some (None, r) \<and> (reads_source src (contents (out_file r)) \<longrightarrow>
    (\<exists>table. Open opt' src (FileSize r) = Some (Inr table)
      \<and> (\<forall>k. \<exists>saved. InternalGet table k = Some (None, saved) \<and> (\<forall>v. (k, v) \<in> set kvs \<longrightarrow> saved = Some (k, v))
        \<and> (\<forall>kv. saved = Some kv \<longrightarrow> kv \<in> set kvs \<and> \<not> bytes_less (fst kv) k))
      \<and> (\<forall>(k, v) \<in> set kvs. \<exists>h block. ApproximateOffsetOf table k = Some (offset_of h) \<and> stored_in src (contents (out_file r)) h block \<and> (k, v) \<in> set block)))"
proof -
  obtain r where r: "write_table env opt f kvs = Some (None, r)"
    "reads_source src (contents (out_file r)) \<longrightarrow> (\<exists>table seps chunks. Open opt' src (FileSize r) = Some (Inr table) \<and> opened table seps chunks
      \<and> kvs = concat (map fst chunks) \<and> (\<forall>c \<in> set chunks. stored_in src (contents (out_file r)) (snd c) (fst c)))"
    using written_opens[OF assms(1-6), of opt'] by blast
  show ?thesis
  proof (rule exI[of _ r], rule conjI[OF r(1)], rule impI)
    assume "reads_source src (contents (out_file r))"
    with r(2) obtain table seps chunks where t: "Open opt' src (FileSize r) = Some (Inr table)" "opened table seps chunks"
      "kvs = concat (map fst chunks)" "\<forall>c \<in> set chunks. stored_in src (contents (out_file r)) (snd c) (fst c)" by blast
    show "\<exists>table. Open opt' src (FileSize r) = Some (Inr table)
      \<and> (\<forall>k. \<exists>saved. InternalGet table k = Some (None, saved) \<and> (\<forall>v. (k, v) \<in> set kvs \<longrightarrow> saved = Some (k, v))
        \<and> (\<forall>kv. saved = Some kv \<longrightarrow> kv \<in> set kvs \<and> \<not> bytes_less (fst kv) k))
      \<and> (\<forall>(k, v) \<in> set kvs. \<exists>h block. ApproximateOffsetOf table k = Some (offset_of h) \<and> stored_in src (contents (out_file r)) h block \<and> (k, v) \<in> set block)"
      using t(1) InternalGet_opened[OF t(2)] key_offset[OF t(2,4)] unfolding t(3)[symmetric] by (intro exI[of _ table]) auto
  qed
qed

theorem table_lookups_find_their_keys_witness:
  "\<exists>r table. write_table plain_file small_blocks [] two_pairs = Some (None, r) \<and> Open small_blocks (plain_source (out_file r)) (FileSize r) = Some (Inr table)
    \<and> InternalGet table [1, 2] = Some (None, Some ([1, 2], [8, 9]))"
proof -
  obtain r where r: "write_table plain_file small_blocks [] two_pairs = Some (None, r)"
    using table_lookups_find_their_keys[OF plain_good(1,2) refl two_pairs_good(4,1,2), of "[]"] by blast
  then show ?thesis
    using table_lookups_find_their_keys[OF plain_good(1,2) refl two_pairs_good(4,1,2), of "out_file r" small_blocks] plain_good(3)[of "out_file r"]
      two_pairs_good(5) by fastforce
qed

section \<open>Files, memory, strings and sequences\<close>

text \<open>
  C19. A buffered reader is its file: for any sequence of reading lines, reading bytes and skipping bytes, with
  any buffer that is not empty, every call returns and answers what the same operation on the list of the bytes that
  are left answers, refusals of negative numbers and the end of the file included, and \<open>Tell\<close> is the number of bytes consumed.
\<close>

theorem buffered_reads_refine_the_file:
  assumes "regular_file rd cs" and "0 < n"
  shows "\<exists>b out rest. run_ops (do_read rd) ops (InputBuffer_new n, []) = Some (b, out) \<and> fold spec_op ops (cs, []) = (rest, out)
    \<and> length rest + unat (Tell b) = length cs"
proof -
  have "reading rd cs (InputBuffer_new n, []) (cs, [])" using new_to_read[OF assms] assms(1) by (simp add: reading_def)
  moreover have "allowed (\<lambda>p a. True) spec_op ops a" for a by (induction ops arbitrary: a) simp_all
  ultimately obtain st where "run_ops (do_read rd) ops (InputBuffer_new n, []) = Some st" "reading rd cs st (fold spec_op ops (cs, []))"
    using reader.runs by blast
  then show ?thesis by (cases st; cases "fold spec_op ops (cs, [])") (auto simp: reading_def to_read_def)
qed

definition plain_read :: "byte list \<Rightarrow> file_read" where
  "plain_read cs offset n = (if length cs - unat offset < n then Some (OutOfRange []) else None, take n (drop (unat offset) cs))"

theorem buffered_reads_refine_the_file_witness:
  "\<exists>b rest. run_ops (do_read (plain_read [97, 13, 10, 98, 99, 100, 10, 13])) [Line, Bytes 2, Bytes (-1), Skip_bytes 1, Line, Line, Bytes 1] (InputBuffer_new 3, [])
    = Some (b, [(Fine, [97]), (Fine, [98, 99]), (Refused, []), (Fine, []), (Fine, []), (End, []), (End, [])])"
proof -
  have "regular_file (plain_read cs) cs" if "length cs < 2 ^ 63" for cs using that by (auto simp: regular_file_def plain_read_def)
  then show ?thesis
    using buffered_reads_refine_the_file[of "plain_read [97, 13, 10, 98, 99, 100, 10, 13]" "[97, 13, 10, 98, 99, 100, 10, 13]" 3
      "[Line, Bytes 2, Bytes (-1), Skip_bytes 1, Line, Line, Bytes 1]"]
    by (auto simp: line_of_def after_line_def)
qed

text \<open>
  C21. The edit distance is not the one it is documented to be. On a sequence that is not the shorter one and a
  different, non-empty one it is the least number of edits that make some \<open>suffix\<close> of the second of the first: the row of the table that
  should stand for the empty prefix is all zeros.
\<close>

theorem edit_distance_ignores_a_prefix:
  assumes "t \<noteq> []" and "length t \<le> length s" and "s \<noteq> t"
  shows "\<exists>d. LevenshteinDistance s t cmp = int d \<and> (\<exists>p \<le> length t. edits cmp d s (drop p t))
    \<and> (\<forall>p \<le> length t. \<forall>n. edits cmp n s (drop p t) \<longrightarrow> d \<le> n)"
proof -
  have "LevenshteinDistance s t cmp = int (table cmp s t (length s) (length t))"
    using assms all_rows_table[of cmp s t] by (subst LevenshteinDistance.simps) auto
  then show ?thesis using table_reached[of "length s" s "length t" t cmp] table_least[of "length s" s "length t" t] by auto
qed

theorem edit_distance_ignores_a_prefix_witness:
  "LevenshteinDistance ''bc'' ''ab'' (=) = 1 \<and> \<not> edits (=) 1 ''bc'' ''ab'' \<and> edits (=) 2 ''bc'' ''ab''"
proof -
  have "''ab'' \<noteq> []" "length ''ab'' \<le> length ''bc''" "''bc'' \<noteq> ''ab''" by simp_all
  from edit_distance_ignores_a_prefix[OF this, of "(=)"]
  obtain d where d: "LevenshteinDistance ''bc'' ''ab'' (=) = int d" "\<exists>p \<le> length ''ab''. edits (=) d ''bc'' (drop p ''ab'')"
    "\<forall>p \<le> length ''ab''. \<forall>n. edits (=) n ''bc'' (drop p ''ab'') \<longrightarrow> d \<le> n" by blast
  have "edits (=) 1 ''bc'' (drop 1 ''ab'')"
    using edits.keep[OF refl edits.delete_one[OF edits.finish, of "(=)" "CHR ''c''"], of "CHR ''b''"] by simp
  then have "d \<le> 1" using d(3) by force
  moreover have "d \<noteq> 0"
  proof
    assume "d = 0"
    then obtain p where "p \<le> 2" "edits (=) 0 ''bc'' (drop p ''ab'')" using d(2) by (auto simp: numeral_2_eq_2)
    then have "p = 0 \<or> p = 1 \<or> p = 2" by auto
    then show False using edits_zero[OF \<open>edits (=) 0 ''bc'' (drop p ''ab'')\<close>] by auto
  qed
  moreover have "\<not> edits (=) 1 ''bc'' ''ab''" by (auto elim!: edits.cases)
  moreover have "edits (=) 2 ''bc'' ''ab''"
    using edits.substitute[OF edits.substitute[OF edits.finish, of "(=)" "CHR ''c''" "CHR ''b''"], of "CHR ''b''" "CHR ''a''"] by (simp add: numeral_2_eq_2)
  ultimately show ?thesis using d(1) by simp
qed

text \<open>
  C22. Escaped text has only printable characters and unescapes to what was escaped, for every string of bytes; and
  joining the pieces of a split gives the string back, none of the pieces holding the delimiter, for every string below \<open>2 ^ 31\<close> bytes (the
  position of a piece is an \<open>int\<close>) and every delimiter but zero (the separator of \<open>Join\<close> is a C string).
\<close>

theorem escapes_and_splits_are_undone:
  assumes "length s < 2 ^ 31" and "delim \<noteq> 0"
  shows "CUnescape (CEscape src) = Inr src \<and> (\<forall>c \<in> set (CEscape src). isprint c)
    \<and> (\<exists>ps. Split s delim AllowEmpty = Some ps \<and> Join ps [delim] = s \<and> (\<forall>x \<in> set ps. delim \<notin> set x))"
  using CUnescape_CEscape[of src] escape_printable Split_pieces[OF assms(1)] Join_pieces[OF assms(2)] by (auto simp: CEscape_concat)

theorem escapes_and_splits_are_undone_witness:
  "CUnescape (CEscape [0, 200, 55, 10, 92]) = Inr [0, 200, 55, 10, 92]
    \<and> (\<exists>ps. Split [97, 44, 44, 98] 44 AllowEmpty = Some ps \<and> Join ps [44] = [97, 44, 44, 98])"
  using escapes_and_splits_are_undone[of "[97, 44, 44, 98]" 44 "[0, 200, 55, 10, 92]"] by auto

text \<open>
  \<open>ConsumeLeadingDigits\<close> gives the number that the leading digits write and what follows them, exactly when there is
  a digit and the number fits 64 bits: the test for overflow is exact.
\<close>

theorem leading_digits_are_read:
  "ConsumeLeadingDigits s = (let ds = takeWhile isdigit s; n = number 0 ds in
     if ds = [] \<or> 2 ^ 64 \<le> n then None else Some (of_nat n, dropWhile isdigit s))"
  by (rule ConsumeLeadingDigits_number)



end
