(* ===== verification/Numbers.thy ===== *)
theory Numbers
  imports StrUtil
begin

text \<open>
  Printing and parsing of integers: tensorflow/core/lib/strings/numbers.cc, and the hexadecimal numbers of
  strcat.cc. A buffer that is filled is the list of the bytes before its terminating zero. The parsers give
  \<open>None\<close> for \<open>false\<close>, where the result stays as it was. A signed number of the code is a word that is
  read with \<open>sint\<close>; its sums wrap around as on the machine where C++ leaves an overflow undefined.
\<close>

subsection \<open>Printing\<close>

text \<open>The digits, the last one first: the loop before \<open>std::reverse\<close>.\<close>

function digits_reversed :: "nat \<Rightarrow> byte list" where
  "digits_reversed i = of_nat (i mod 10 + 48) # (if 0 < i div 10 then digits_reversed (i div 10) else [])"
  by pat_completeness auto
termination by (relation "measure id") auto

declare digits_reversed.simps [simp del]

definition FastUInt32ToBufferLeft :: "32 word \<Rightarrow> byte list" where
  "FastUInt32ToBufferLeft i = rev (digits_reversed (unat i))"

definition FastUInt64ToBufferLeft :: "64 word \<Rightarrow> byte list" where
  "FastUInt64ToBufferLeft i = rev (digits_reversed (unat i))"

definition FastInt32ToBufferLeft :: "32 word \<Rightarrow> byte list" where
  "FastInt32ToBufferLeft i = (if sint i < 0 then 45 # FastUInt32ToBufferLeft (0 - i) else FastUInt32ToBufferLeft i)"

definition FastInt64ToBufferLeft :: "64 word \<Rightarrow> byte list" where
  "FastInt64ToBufferLeft i = (if sint i < 0 then 45 # FastUInt64ToBufferLeft (0 - i) else FastUInt64ToBufferLeft i)"

text \<open>The last \<open>n\<close> hexadecimal digits, the last one first.\<close>

fun hex_reversed :: "nat \<Rightarrow> 64 word \<Rightarrow> byte list" where
  "hex_reversed 0 v = []"
| "hex_reversed (Suc n) v = hex_char ! unat (v AND 0xf) # hex_reversed n (drop_bit 4 v)"

definition Uint64ToHexString :: "64 word \<Rightarrow> byte list" where
  "Uint64ToHexString v = rev (hex_reversed 16 v)"

text \<open>The loop of \<open>AlphaNum(Hex)\<close>, which writes from the end of the buffer, until the mask is zero.\<close>

function hex_masked :: "64 word \<Rightarrow> 64 word \<Rightarrow> byte list \<Rightarrow> byte list" where
  "hex_masked value m written = (let written = hex_char ! unat (value AND 0xf) # written; value = drop_bit 4 value; m = drop_bit 4 m in
     if m \<noteq> 0 then hex_masked value m written else written)"
  by pat_completeness auto
termination
proof (relation "measure (\<lambda>(value, m, written). unat m)", goal_cases)
  case (2 v m w _ _ m')
  have "unat (drop_bit 4 m) = unat m div 16" by (simp add: unat_div drop_bit_eq_div)
  moreover have "0 < unat (drop_bit 4 m)" using 2 by (simp add: unat_gt_0)
  ultimately show ?case using 2 by simp
qed simp

text \<open>A number with its minimal width, which is 1 (\<open>NO_PAD\<close>) to 16.\<close>

definition AlphaNum_Hex :: "64 word \<Rightarrow> nat \<Rightarrow> byte list" where
  "AlphaNum_Hex value width = hex_masked value (push_bit ((width - 1) * 4) 1 OR value) []"

subsection \<open>Parsing\<close>

definition SafeFirstChar :: "byte list \<Rightarrow> byte" where
  "SafeFirstChar s = (case s of [] \<Rightarrow> 0 | c # _ \<Rightarrow> c)"


fun SkipSpaces :: "byte list \<Rightarrow> byte list" where
  "SkipSpaces [] = []"
| "SkipSpaces (c # s) = (if isspace c then SkipSpaces s else c # s)"

text \<open>\<open>SafeFirstChar(str) - '0'\<close>\<close>

definition digit_of :: "byte \<Rightarrow> 64 word" where "digit_of c = ucast c - 48"

text \<open>The loops over the digits of \<open>safe_strto64\<close>, one for each sign; the first character is a digit.\<close>

fun digits_up :: "64 word \<Rightarrow> 64 word \<Rightarrow> byte list \<Rightarrow> (64 word \<times> byte list) option" where
  "digits_up vlimit result [] = Some (result, [])"
| "digits_up vlimit result (c # s) = (if \<not> isdigit c then Some (result, c # s)
     else if c_div (sint (vlimit - digit_of c)) 10 < sint result then None
     else digits_up vlimit (result * 10 + digit_of c) s)"

fun digits_down :: "64 word \<Rightarrow> 64 word \<Rightarrow> byte list \<Rightarrow> (64 word \<times> byte list) option" where
  "digits_down vlimit result [] = Some (result, [])"
| "digits_down vlimit result (c # s) = (if \<not> isdigit c then Some (result, c # s)
     else if sint result < c_div (sint (vlimit + digit_of c)) 10 then None
     else digits_down vlimit (result * 10 - digit_of c) s)"

definition kint64max :: "64 word" where "kint64max = 0x7FFFFFFFFFFFFFFF"

definition kint64min :: "64 word" where "kint64min = 0x8000000000000000"

definition safe_strto64 :: "byte list \<Rightarrow> 64 word option" where
  "safe_strto64 str = (let str = SkipSpaces str;
       (negative, str) = (case ConsumePrefix str [45] of Some str \<Rightarrow> (True, str) | None \<Rightarrow> (False, str)) in
     if \<not> isdigit (SafeFirstChar str) then None
     else case (if negative then digits_down kint64min 0 str else digits_up kint64max 0 str) of None \<Rightarrow> None
       | Some (result, str) \<Rightarrow> if SkipSpaces str \<noteq> [] then None else Some result)"

text \<open>In \<open>safe_strtou64\<close> the result is an \<open>int64\<close> that the comparison turns into an unsigned number.\<close>

fun digits_unsigned :: "64 word \<Rightarrow> byte list \<Rightarrow> (64 word \<times> byte list) option" where
  "digits_unsigned result [] = Some (result, [])"
| "digits_unsigned result (c # s) = (if \<not> isdigit c then Some (result, c # s)
     else if (- 1 - digit_of c) div 10 < result then None
     else digits_unsigned (result * 10 + digit_of c) s)"

definition safe_strtou64 :: "byte list \<Rightarrow> 64 word option" where
  "safe_strtou64 str = (let str = SkipSpaces str in
     if \<not> isdigit (SafeFirstChar str) then None
     else case digits_unsigned 0 str of None \<Rightarrow> None
       | Some (result, str) \<Rightarrow> if SkipSpaces str \<noteq> [] then None else Some result)"

text \<open>The loops of the 32-bit parsers, whose result has 64 bits.\<close>

fun digits_below :: "64 word \<Rightarrow> 64 word \<Rightarrow> byte list \<Rightarrow> (64 word \<times> byte list) option" where
  "digits_below vmax result [] = Some (result, [])"
| "digits_below vmax result (c # s) = (if \<not> isdigit c then Some (result, c # s)
     else let result = result * 10 + ucast c - 48 in
       if sint vmax < sint result then None else digits_below vmax result s)"

definition safe_strto32 :: "byte list \<Rightarrow> 32 word option" where
  "safe_strto32 str = (let str = SkipSpaces str;
       (sign, vmax, str) = (case ConsumePrefix str [45] of Some str \<Rightarrow> (- 1, 0x80000000, str) | None \<Rightarrow> (1, 0x7FFFFFFF, str)) in
     if \<not> isdigit (SafeFirstChar str) then None
     else case digits_below vmax 0 str of None \<Rightarrow> None
       | Some (result, str) \<Rightarrow> if SkipSpaces str \<noteq> [] then None else Some (ucast (result * sign)))"

definition safe_strtou32 :: "byte list \<Rightarrow> 32 word option" where
  "safe_strtou32 str = (let str = SkipSpaces str in
     if \<not> isdigit (SafeFirstChar str) then None
     else case digits_below 0xFFFFFFFF 0 str of None \<Rightarrow> None
       | Some (result, str) \<Rightarrow> if SkipSpaces str \<noteq> [] then None else Some (ucast result))"

fun hex_digits :: "64 word \<Rightarrow> byte list \<Rightarrow> 64 word option" where
  "hex_digits v [] = Some v"
| "hex_digits v (c # s) = (if 48 \<le> c \<and> c \<le> 57 then hex_digits (push_bit 4 v + (ucast c - 48)) s
     else if 97 \<le> c \<and> c \<le> 102 then hex_digits (push_bit 4 v + 10 + (ucast c - 97)) s
     else if 65 \<le> c \<and> c \<le> 70 then hex_digits (push_bit 4 v + 10 + (ucast c - 65)) s
     else None)"

definition HexStringToUint64 :: "byte list \<Rightarrow> 64 word option" where
  "HexStringToUint64 s = (if s = [] then None else hex_digits 0 s)"

text \<open>\<open>SplitAndParseAsInts\<close> of str_util.cc: the status and the numbers before the first piece that is not one.\<close>

fun parse_ints :: "byte list list \<Rightarrow> 32 word list \<Rightarrow> bool \<times> 32 word list" where
  "parse_ints [] result = (True, result)"
| "parse_ints (s # num_strings) result = (case safe_strto32 s of None \<Rightarrow> (False, result)
     | Some num \<Rightarrow> parse_ints num_strings (result @ [num]))"

definition SplitAndParseAsInts :: "byte list \<Rightarrow> byte \<Rightarrow> (bool \<times> 32 word list) option" where
  "SplitAndParseAsInts txt delim = map_option (\<lambda>num_strings. parse_ints num_strings []) (Split txt delim AllowEmpty)"

subsection \<open>The numbers that are written\<close>

text \<open>The digits of a parsed number: blanks, digits, blanks.\<close>

definition natural_in :: "byte list \<Rightarrow> nat option" where
  "natural_in s = (if takeWhile isdigit s = [] \<or> SkipSpaces (dropWhile isdigit s) \<noteq> [] then None
     else Some (number 0 (takeWhile isdigit s)))"

definition unsigned_in :: "byte list \<Rightarrow> nat option" where
  "unsigned_in s = natural_in (SkipSpaces s)"

definition integer_in :: "byte list \<Rightarrow> int option" where
  "integer_in s = (let r = SkipSpaces s in
     if r \<noteq> [] \<and> hd r = 45 then map_option (\<lambda>n. - int n) (natural_in (tl r)) else map_option int (natural_in r))"

text \<open>A loop over digits that keeps the number \<open>n\<close> as \<open>w n\<close> and gives up at \<open>B\<close>.\<close>

lemma digit_loop:
  assumes stop: "\<And>n. f (w n) [] = Some (w n, [])"
    and other: "\<And>n c s. \<not> isdigit c \<Longrightarrow> f (w n) (c # s) = Some (w n, c # s)"
    and digit: "\<And>n c s. isdigit c \<Longrightarrow> n < B \<Longrightarrow>
      f (w n) (c # s) = (if n * 10 + (unat c - 48) < B then f (w (n * 10 + (unat c - 48))) s else None)"
    and "n < B"
  shows "f (w n) s = (if number n (takeWhile isdigit s) < B then Some (w (number n (takeWhile isdigit s)), dropWhile isdigit s) else None)"
  using assms(4)
proof (induction s arbitrary: n)
  case Nil
  then show ?case by (simp add: stop)
next
  case (Cons c s)
  show ?case
  proof (cases "isdigit c")
    case True
    have "n * 10 + (unat c - 48) \<le> number (n * 10 + (unat c - 48)) (takeWhile isdigit s)" by (rule number_mono)
    then show ?thesis using digit[OF True Cons(2), of s] Cons(1)[of "n * 10 + (unat c - 48)"] True by simp
  next
    case False
    then show ?thesis using other[OF False, of n s] Cons(2) by simp
  qed
qed

lemma digit_of_number: "isdigit c \<Longrightarrow> digit_of c = of_nat (unat c - 48) \<and> unat c - 48 < 10"
proof -
  assume "isdigit c"
  then have c: "48 \<le> unat c" "unat c \<le> 57" by (auto simp: isdigit_def word_le_nat_alt)
  have "(ucast c :: 64 word) = of_nat (48 + (unat c - 48))" using c by (simp add: word_unat_eq_iff ucast_unat unat_of_nat)
  then show ?thesis using c by (simp add: digit_of_def)
qed

lemma c_div_nonneg: "0 \<le> a \<Longrightarrow> c_div a 10 = a div 10"
  by (simp add: c_div_def sgn_if)

lemma c_div_nonpos: "a \<le> 0 \<Longrightarrow> c_div a 10 = - (- a div 10)"
  by (simp add: c_div_def sgn_if)

lemma sint_small: "n < 2 ^ 63 \<Longrightarrow> sint (of_nat n :: 64 word) = int n"
  by (simp add: sint_uint uint_nat unat_of_nat signed_take_bit_int_eq_self)

lemma div10_less: "(a :: int) div 10 < n \<longleftrightarrow> a < n * 10"
  by linarith

lemma digits_up_number:
  "digits_up kint64max 0 s = (if number 0 (takeWhile isdigit s) < 2 ^ 63
     then Some (of_nat (number 0 (takeWhile isdigit s)), dropWhile isdigit s) else None)"
proof -
  have "digits_up kint64max (of_nat n) (c # s) = (if n * 10 + (unat c - 48) < 2 ^ 63
      then digits_up kint64max (of_nat (n * 10 + (unat c - 48))) s else None)" if c: "isdigit c" "n < 2 ^ 63" for n c s
  proof -
    define d where "d = unat c - 48"
    have d: "digit_of c = of_nat d" "d < 10" using digit_of_number[OF c(1)] by (simp_all add: d_def)
    have "kint64max - of_nat d = (of_nat (2 ^ 63 - 1 - d) :: 64 word)" using d(2) by (simp add: kint64max_def of_nat_diff)
    then have "sint (kint64max - of_nat d) = 2 ^ 63 - 1 - int d" using d(2) sint_small[of "2 ^ 63 - 1 - d"] by (simp add: of_nat_diff kint64max_def)
    then have "c_div (sint (kint64max - of_nat d)) 10 < sint (of_nat n :: 64 word) \<longleftrightarrow> \<not> n * 10 + d < 2 ^ 63"
      using d(2) c(2) by (simp add: c_div_nonneg sint_small div10_less) linarith
    then show ?thesis using c(1) d by (simp add: d_def[symmetric])
  qed
  from digit_loop[of "digits_up kint64max" of_nat "2 ^ 63" 0 s, OF _ _ this] show ?thesis by simp
qed

lemma digits_down_number:
  "digits_down kint64min 0 s = (if number 0 (takeWhile isdigit s) \<le> 2 ^ 63
     then Some (- of_nat (number 0 (takeWhile isdigit s)), dropWhile isdigit s) else None)"
proof -
  have "digits_down kint64min (- of_nat n) (c # s) = (if n * 10 + (unat c - 48) < 2 ^ 63 + 1
      then digits_down kint64min (- of_nat (n * 10 + (unat c - 48))) s else None)" if c: "isdigit c" "n < 2 ^ 63 + 1" for n c s
  proof -
    define d where "d = unat c - 48"
    have d: "digit_of c = of_nat d" "d < 10" using digit_of_number[OF c(1)] by (simp_all add: d_def)
    have neg: "sint (- of_nat k :: 64 word) = - int k" if "k \<le> 2 ^ 63" for k
    proof (cases "k = 2 ^ 63")
      case False
      then have "sint (of_nat k :: 64 word) = int k" using that by (intro sint_small) simp
      then show ?thesis using that by (simp add: sint_word_ariths signed_take_bit_int_eq_self)
    qed simp
    have eq: "kint64min + of_nat d = - (of_nat (2 ^ 63 - d) :: 64 word)" using d(2) by (simp add: kint64min_def of_nat_diff)
    have "sint (kint64min + of_nat d) = - int (2 ^ 63 - d)" unfolding eq by (rule neg) simp
    then have "sint (- of_nat n :: 64 word) < c_div (sint (kint64min + of_nat d)) 10 \<longleftrightarrow> \<not> n * 10 + d < 2 ^ 63 + 1"
      using d(2) c(2) neg[of n] by (simp add: c_div_nonpos div10_less of_nat_diff) linarith
    moreover have "- of_nat n * 10 - of_nat d = (- of_nat (n * 10 + d) :: 64 word)" by simp
    ultimately show ?thesis using c(1) unfolding digits_down.simps d(1) d_def[symmetric] by (simp only: if_True if_False not_True_eq_False) simp
  qed
  from digit_loop[of "digits_down kint64min" "\<lambda>n. - of_nat n" "2 ^ 63 + 1" 0 s, OF _ _ this] show ?thesis
    by (simp add: less_Suc_eq_le)
qed

lemma digits_unsigned_number:
  "digits_unsigned 0 s = (if number 0 (takeWhile isdigit s) < 2 ^ 64
     then Some (of_nat (number 0 (takeWhile isdigit s)), dropWhile isdigit s) else None)"
proof -
  have "digits_unsigned (of_nat n) (c # s) = (if n * 10 + (unat c - 48) < 2 ^ 64
      then digits_unsigned (of_nat (n * 10 + (unat c - 48))) s else None)" if c: "isdigit c" "n < 2 ^ 64" for n c s
  proof -
    define d where "d = unat c - 48"
    have d: "digit_of c = of_nat d" "d < 10" using digit_of_number[OF c(1)] by (simp_all add: d_def)
    have "- 1 - of_nat d = (of_nat (2 ^ 64 - 1 - d) :: 64 word)" using d(2) by (simp add: of_nat_diff)
    then have "unat (- 1 - of_nat d :: 64 word) = 2 ^ 64 - 1 - d" by (simp only: unat_of_nat) simp
    then have "(- 1 - of_nat d) div 10 < (of_nat n :: 64 word) \<longleftrightarrow> (2 ^ 64 - 1 - d) div 10 < n"
      using c(2) by (simp add: word_less_nat_alt unat_div unat_of_nat)
    also have "\<dots> \<longleftrightarrow> \<not> n * 10 + d < 2 ^ 64" using d(2) by (simp add: div_less_iff_less_mult) linarith
    finally show ?thesis using c(1) d by (simp add: d_def[symmetric])
  qed
  from digit_loop[of digits_unsigned of_nat "2 ^ 64" 0 s, OF _ _ this] show ?thesis by simp
qed

lemma digits_below_number:
  assumes "V < 2 ^ 40"
  shows "digits_below (of_nat V) 0 s = (if number 0 (takeWhile isdigit s) \<le> V
     then Some (of_nat (number 0 (takeWhile isdigit s)), dropWhile isdigit s) else None)"
proof -
  have "digits_below (of_nat V) (of_nat n) (c # s) = (if n * 10 + (unat c - 48) < Suc V
      then digits_below (of_nat V) (of_nat (n * 10 + (unat c - 48))) s else None)" if c: "isdigit c" "n < Suc V" for n c s
  proof -
    define d where "d = unat c - 48"
    have d: "ucast c - 48 = (of_nat d :: 64 word)" "d < 10" using digit_of_number[OF c(1)] by (simp_all add: d_def digit_of_def)
    have eq: "of_nat n * 10 + ucast c - 48 = (of_nat (n * 10 + d) :: 64 word)" using d(1) by (simp add: algebra_simps)
    have "sint (of_nat (n * 10 + d) :: 64 word) = int (n * 10 + d)" "sint (of_nat V :: 64 word) = int V"
      using assms c(2) d(2) by (intro sint_small; simp)+
    then show ?thesis using c(1) unfolding digits_below.simps eq Let_def d_def[symmetric] by (simp only: of_nat_less_iff) auto
  qed
  from digit_loop[of "digits_below (of_nat V)" of_nat "Suc V" 0 s, OF _ _ this] show ?thesis by (simp add: less_Suc_eq_le)
qed

subsection \<open>What the parsers accept\<close>

lemma number_app [simp]: "number n (xs @ ys) = number (number n xs) ys"
  by (simp add: number_def)

lemma dropWhile_first: "isdigit (SafeFirstChar s) \<longleftrightarrow> takeWhile isdigit s \<noteq> []"
  by (cases s) (simp_all add: SafeFirstChar_def isdigit_def)

lemma minus_sign: "ConsumePrefix s [45] = (if s \<noteq> [] \<and> hd s = 45 then Some (tl s) else None)"
  by (cases s) (simp_all add: ConsumePrefix_def)

lemmas parses = natural_in_def dropWhile_first minus_sign Let_def

lemma safe_strto64_exact:
  "safe_strto64 s = (case integer_in s of None \<Rightarrow> None | Some n \<Rightarrow> if - (2 ^ 63) \<le> n \<and> n < 2 ^ 63 then Some (of_int n) else None)"
  by (auto simp: safe_strto64_def integer_in_def parses digits_up_number digits_down_number)

lemma safe_strtou64_exact:
  "safe_strtou64 s = (case unsigned_in s of None \<Rightarrow> None | Some n \<Rightarrow> if n < 2 ^ 64 then Some (of_nat n) else None)"
  by (auto simp: safe_strtou64_def unsigned_in_def parses digits_unsigned_number)

lemma ucast_of_int: "ucast (of_int k :: 64 word) = (of_int k :: 32 word)"
  by transfer simp

lemma ucast_of_nat: "ucast (of_nat n :: 64 word) = (of_nat n :: 32 word)" "ucast (- of_nat n :: 64 word) = (- of_nat n :: 32 word)"
  using ucast_of_int[of "int n"] ucast_of_int[of "- int n"] by simp_all

lemma safe_strtou32_exact:
  "safe_strtou32 s = (case unsigned_in s of None \<Rightarrow> None | Some n \<Rightarrow> if n < 2 ^ 32 then Some (of_nat n) else None)"
  using digits_below_number[of "2 ^ 32 - 1" "SkipSpaces s"]
  by (auto simp: safe_strtou32_def unsigned_in_def parses ucast_of_nat)

lemma safe_strto32_exact:
  "safe_strto32 s = (case integer_in s of None \<Rightarrow> None | Some n \<Rightarrow> if - (2 ^ 31) \<le> n \<and> n < 2 ^ 31 then Some (of_int n) else None)"
  using digits_below_number[of "2 ^ 31 - 1" "SkipSpaces s"] digits_below_number[of "2 ^ 31" "tl (SkipSpaces s)"]
  by (auto simp: safe_strto32_def integer_in_def parses ucast_of_nat)

subsection \<open>Printed numbers are read back\<close>

lemma unat_digit: "unat (of_nat (i mod 10 + 48) :: byte) = i mod 10 + 48"
proof -
  have "i mod 10 + 48 < 256" using mod_less_divisor[of 10 i] by linarith
  then show ?thesis by (simp only: unat_of_nat) simp
qed

lemma digits_reversed_digits: "c \<in> set (digits_reversed n) \<Longrightarrow> isdigit c"
proof (induction n rule: digits_reversed.induct)
  case (1 i)
  have "isdigit (of_nat (i mod 10 + 48))" using mod_less_divisor[of 10 i] unfolding isdigit_def word_le_nat_alt unat_digit by simp
  then show ?case using 1 by (subst (asm) (2) digits_reversed.simps) (auto split: if_splits)
qed

lemma number_digits: "number 0 (rev (digits_reversed n)) = n"
proof (induction n rule: digits_reversed.induct)
  case (1 i)
  have last: "number n [of_nat (i mod 10 + 48)] = n * 10 + i mod 10" for n using unat_digit[of i] by simp
  show ?case
  proof (cases "0 < i div 10")
    case True
    then show ?thesis using 1 last by (subst digits_reversed.simps) (simp del: number_simps of_nat_add)
  next
    case False
    then show ?thesis using last[of 0] by (subst digits_reversed.simps) (simp del: number_simps of_nat_add)
  qed
qed

lemma digits_nonempty: "digits_reversed n \<noteq> []"
  by (subst digits_reversed.simps) simp

lemma SkipSpaces_digit: "isdigit c \<Longrightarrow> SkipSpaces (c # s) = c # s"
  by (auto simp: isdigit_def isspace_def word_le_nat_alt)

lemma natural_in_digits: "natural_in (rev (digits_reversed n)) = Some n"
proof -
  have all: "takeWhile isdigit xs = xs" "dropWhile isdigit xs = []" if "\<And>c. c \<in> set xs \<Longrightarrow> isdigit c" for xs
    using that by simp_all
  have "isdigit c" if "c \<in> set (rev (digits_reversed n))" for c using that digits_reversed_digits by simp
  from all[OF this] show ?thesis unfolding natural_in_def by (simp only: number_digits) (simp add: digits_nonempty)
qed

lemma digits_first: "\<exists>c s. rev (digits_reversed n) = c # s \<and> isdigit c"
proof (cases "rev (digits_reversed n)")
  case Nil
  then show ?thesis by (simp add: digits_nonempty)
next
  case (Cons c s)
  then have "c \<in> set (digits_reversed n)" by (metis list.set_intros(1) set_rev)
  then show ?thesis using Cons digits_reversed_digits by blast
qed

lemma unsigned_in_digits: "unsigned_in (rev (digits_reversed n)) = Some n"
  using digits_first[of n] natural_in_digits[of n] by (auto simp: unsigned_in_def SkipSpaces_digit simp del: SkipSpaces.simps)

lemma integer_in_digits:
  "integer_in (rev (digits_reversed n)) = Some (int n)" "integer_in (45 # rev (digits_reversed n)) = Some (- int n)"
proof -
  obtain c s where s: "rev (digits_reversed n) = c # s" "isdigit c" using digits_first by blast
  then have "c \<noteq> 45" "\<not> isspace 45" by (auto simp: isdigit_def isspace_def)
  then show "integer_in (rev (digits_reversed n)) = Some (int n)" "integer_in (45 # rev (digits_reversed n)) = Some (- int n)"
    using natural_in_digits[of n] SkipSpaces_digit[OF s(2), of s] s(1) by (simp_all add: integer_in_def Let_def del: SkipSpaces.simps) (simp add: SkipSpaces.simps)
qed

text \<open>A signed number is its absolute value with its sign.\<close>

lemma uint_of_int: "0 \<le> k \<Longrightarrow> k < 2 ^ LENGTH('a) \<Longrightarrow> uint (of_int k :: 'a::len word) = k"
  by (simp add: uint_word_of_int_eq take_bit_int_eq_self)

lemma uint_sint_sign:
  fixes i :: "'a::len word"
  shows "sint i < 0 \<Longrightarrow> - uint (0 - i) = sint i" and "0 \<le> sint i \<Longrightarrow> uint i = sint i"
proof -
  have b: "- (2 ^ (LENGTH('a) - 1)) \<le> sint i" "sint i < 2 ^ (LENGTH('a) - 1)" "(2 :: int) ^ (LENGTH('a) - 1) < 2 ^ LENGTH('a)"
    using sint_ge[of i] sint_less[of i] by simp_all
  have w: "of_int (sint i) = i" by simp
  show "- uint (0 - i) = sint i" if "sint i < 0"
    using uint_of_int[where 'a = 'a, of "- sint i"] b that w by simp
  show "uint i = sint i" if "0 \<le> sint i"
    using uint_of_int[where 'a = 'a, of "sint i"] b that w by simp
qed

lemma integer_in_printed:
  "integer_in (FastInt32ToBufferLeft i) = Some (sint i)" "integer_in (FastInt64ToBufferLeft j) = Some (sint j)"
  by (auto simp: FastInt32ToBufferLeft_def FastInt64ToBufferLeft_def FastUInt32ToBufferLeft_def FastUInt64ToBufferLeft_def
      integer_in_digits uint_sint_sign simp del: diff_0 diff_zero)

lemma unsigned_in_printed:
  "unsigned_in (FastUInt32ToBufferLeft u) = Some (unat u)" "unsigned_in (FastUInt64ToBufferLeft v) = Some (unat v)"
  by (simp_all add: FastUInt32ToBufferLeft_def FastUInt64ToBufferLeft_def unsigned_in_digits)

lemma safe_strto_printed:
  "safe_strto32 (FastInt32ToBufferLeft i) = Some i" "safe_strto64 (FastInt64ToBufferLeft j) = Some j"
  "safe_strtou32 (FastUInt32ToBufferLeft u) = Some u" "safe_strtou64 (FastUInt64ToBufferLeft v) = Some v"
  using sint_ge[of i] sint_less[of i] sint_ge[of j] sint_less[of j] unat_less[of u] unat_less[of v]
  by (simp_all add: safe_strto32_exact safe_strto64_exact safe_strtou32_exact safe_strtou64_exact integer_in_printed unsigned_in_printed)

text \<open>The pieces of a joined string are unique, so that splitting finds them.\<close>

lemma pieces_unique:
  assumes "concat (map (\<lambda>y. y @ [d]) xs) @ x = concat (map (\<lambda>y. y @ [d]) ys) @ y"
    and "\<forall>z \<in> set (xs @ [x]). d \<notin> set z" "\<forall>z \<in> set (ys @ [y]). d \<notin> set z"
  shows "xs @ [x] = ys @ [y]"
  using assms
proof (induction xs arbitrary: ys)
  case Nil
  then show ?case by (cases ys) auto
next
  case (Cons a xs)
  then obtain b zs where ys: "ys = b # zs" by (cases ys) auto
  have "a = b" "concat (map (\<lambda>y. y @ [d]) xs) @ x = concat (map (\<lambda>y. y @ [d]) zs) @ y"
    using Cons(2,3,4) by (auto simp: ys append_eq_append_conv2 append_eq_Cons_conv Cons_eq_append_conv)
  then show ?case using Cons(1)[of zs] Cons(3,4) by (simp add: ys)
qed

lemma pieces_Join:
  assumes "Join xs [d] \<noteq> []" and "\<forall>x \<in> set xs. d \<notin> set x" and d: "d \<noteq> 0"
  shows "pieces (Join xs [d]) d AllowEmpty = xs"
proof -
  let ?s = "Join xs [d]"
  have j: "Join (pieces ?s d AllowEmpty) [d] = ?s" "\<forall>x \<in> set (pieces ?s d AllowEmpty). d \<notin> set x" using Join_pieces[OF d, of ?s] by auto
  have ne: "zs \<noteq> []" if "Join zs [d] \<noteq> []" for zs using that by (auto simp: Join_def)
  have "xs \<noteq> []" using ne[OF assms(1)] .
  moreover have "pieces ?s d AllowEmpty \<noteq> []" using ne[of "pieces ?s d AllowEmpty"] assms(1) unfolding j(1) by blast
  ultimately obtain us u vs v where s: "xs = us @ [u]" "pieces ?s d AllowEmpty = vs @ [v]" by (metis rev_exhaust)
  then show ?thesis using pieces_unique[of d vs v us u] j assms(2) by (simp add: Join_last c_str_one[OF d])
qed

lemma parse_ints_printed: "parse_ints (map FastInt32ToBufferLeft xs) r = (True, r @ xs)"
  by (induction xs arbitrary: r) (simp_all add: safe_strto_printed)

lemma printed_characters: "c \<in> set (FastInt32ToBufferLeft i) \<Longrightarrow> c = 45 \<or> isdigit c"
  by (auto simp: FastInt32ToBufferLeft_def FastUInt32ToBufferLeft_def digits_reversed_digits split: if_splits)

lemma SplitAndParseAsInts_printed:
  assumes "xs \<noteq> []" and "d \<noteq> 0" "d \<noteq> 45" "\<not> isdigit d" and "length (Join (map FastInt32ToBufferLeft xs) [d]) < 2 ^ 31"
  shows "SplitAndParseAsInts (Join (map FastInt32ToBufferLeft xs) [d]) d = Some (True, xs)"
proof -
  obtain ys y where xs: "xs = ys @ [y]" using assms(1) by (metis rev_exhaust)
  have "FastInt32ToBufferLeft y \<noteq> []" using digits_nonempty by (auto simp: FastInt32ToBufferLeft_def FastUInt32ToBufferLeft_def)
  then have "Join (map FastInt32ToBufferLeft xs) [d] \<noteq> []" by (simp add: xs Join_last)
  moreover have "\<forall>x \<in> set (map FastInt32ToBufferLeft xs). d \<notin> set x" using printed_characters assms(3,4) by fastforce
  ultimately show ?thesis by (simp add: SplitAndParseAsInts_def Split_pieces[OF assms(5)] pieces_Join[OF _ _ assms(2)] parse_ints_printed)
qed

subsection \<open>Hexadecimal numbers\<close>

lemma hex_digits_append: "hex_digits v (xs @ ys) = (case hex_digits v xs of None \<Rightarrow> None | Some u \<Rightarrow> hex_digits u ys)"
  by (induction xs arbitrary: v) simp_all

lemma hex_char_nth: "n < 16 \<Longrightarrow> hex_char ! n = (if n < 10 then of_nat (48 + n) else of_nat (87 + n))"
proof -
  have "\<forall>n \<in> set [0..<16]. hex_char ! n = (if n < 10 then of_nat (48 + n) else of_nat (87 + n))" by code_simp
  then show "n < 16 \<Longrightarrow> ?thesis" by simp
qed

lemma byte_of_nat: "n < 256 \<Longrightarrow> unat (of_nat n :: byte) = n" "n < 256 \<Longrightarrow> (ucast (of_nat n :: byte) :: 64 word) = of_nat n"
proof -
  show n: "unat (of_nat n :: byte) = n" if "n < 256" for n using that by (simp add: unat_of_nat)
  show "(ucast (of_nat n :: byte) :: 64 word) = of_nat n" if "n < 256" for n
    using n[OF that] that by (simp add: word_unat_eq_iff ucast_unat unat_of_nat)
qed

lemma hex_digit_read:
  assumes "n < 16"
  shows "hex_digits v [hex_char ! n] = Some (push_bit 4 v + of_nat n)"
proof (cases "n < 10")
  case True
  then have "hex_char ! n = of_nat (48 + n)" using hex_char_nth[OF assms] by simp
  then show ?thesis using byte_of_nat[of "48 + n"] True by (simp add: word_le_nat_alt del: of_nat_add) simp
next
  case False
  then have "hex_char ! n = of_nat (87 + n)" using hex_char_nth[OF assms] by simp
  then show ?thesis using byte_of_nat[of "87 + n"] False assms by (simp add: word_le_nat_alt del: of_nat_add) simp
qed

lemma and_15: "unat (v AND 0xf :: 64 word) < 16" "of_nat (unat (v AND 0xf :: 64 word)) = (v AND 0xf)"
proof -
  have "v AND 0xf = take_bit 4 v" by (simp add: take_bit_eq_mask mask_eq_exp_minus_1)
  then show "unat (v AND 0xf :: 64 word) < 16" using take_bit_nat_less_exp[of 4 "unat v"] by (simp add: unsigned_take_bit_eq)
qed simp

lemma nibbles_join: "push_bit 4 (take_bit n (drop_bit 4 v)) + (v AND 0xf) = take_bit (Suc (Suc (Suc (Suc n)))) (v :: 64 word)"
proof -
  have f: "v AND 0xf = take_bit 4 v" by (simp add: take_bit_eq_mask mask_eq_exp_minus_1)
  have "push_bit 4 (take_bit n (drop_bit 4 v)) + take_bit 4 v = push_bit 4 (take_bit n (drop_bit 4 v)) OR take_bit 4 v"
    by (rule disjunctive_add) (simp add: bit_simps)
  also have "\<dots> = take_bit (Suc (Suc (Suc (Suc n)))) v"
    by (rule bit_word_eqI) (auto simp: bit_simps)
  finally show ?thesis by (simp add: f)
qed

lemma hex_digits_reversed: "hex_digits 0 (rev (hex_reversed n v)) = Some (take_bit (4 * n) v)"
proof (induction n arbitrary: v)
  case (Suc n)
  have "4 * Suc n = Suc (Suc (Suc (Suc (4 * n))))" by simp
  then show ?case using Suc[of "drop_bit 4 v"] hex_digit_read[OF and_15(1)[of v], of "take_bit (4 * n) (drop_bit 4 v)"]
    by (simp only: hex_reversed.simps rev.simps hex_digits_append option.case and_15 nibbles_join)
qed simp

lemma hex_reversed_length [simp]: "length (hex_reversed n v) = n"
  by (induction n arbitrary: v) simp_all

lemma HexStringToUint64_Uint64ToHexString: "HexStringToUint64 (Uint64ToHexString v) = Some v"
proof -
  have "Uint64ToHexString v \<noteq> []" using hex_reversed_length[of 16 v] by (auto simp: Uint64ToHexString_def simp del: hex_reversed_length)
  moreover have "take_bit 64 v = v" by (rule bit_word_eqI) (simp add: bit_simps)
  ultimately show ?thesis using hex_digits_reversed[of 16 v] by (simp add: HexStringToUint64_def Uint64ToHexString_def)
qed

declare hex_masked.simps [simp del]

lemma hex_masked_digits:
  "\<exists>k. hex_masked v m written = rev (hex_reversed (Suc k) v) @ written \<and> drop_bit (4 * Suc k) m = 0 \<and> (k = 0 \<or> drop_bit (4 * k) m \<noteq> 0)"
proof (induction v m written rule: hex_masked.induct)
  case (1 v m written)
  define w where "w = hex_char ! unat (v AND 0xf) # written"
  show ?case
  proof (cases "drop_bit 4 m = 0")
    case True
    then show ?thesis by (intro exI[of _ 0], subst hex_masked.simps) simp
  next
    case False
    then obtain k where k: "hex_masked (drop_bit 4 v) (drop_bit 4 m) w = rev (hex_reversed (Suc k) (drop_bit 4 v)) @ w"
      "drop_bit (4 * Suc k) (drop_bit 4 m) = 0" "k = 0 \<or> drop_bit (4 * k) (drop_bit 4 m) \<noteq> 0"
      using 1[OF refl refl refl] unfolding w_def by blast
    have "hex_masked v m written = hex_masked (drop_bit 4 v) (drop_bit 4 m) w"
      using False by (subst hex_masked.simps) (simp add: w_def Let_def)
    also have "\<dots> = rev (hex_reversed (Suc (Suc k)) v) @ written"
      unfolding k(1) by (simp only: w_def hex_reversed.simps(2)[of "Suc k" v] rev.simps append_assoc append.simps)
    finally show ?thesis using k(2,3) False by (intro exI[of _ "Suc k"]) (auto simp: drop_bit_drop_bit add.commute)
  qed
qed

lemma hex_first: "hd (rev (hex_reversed (Suc k) v)) = hex_char ! unat (drop_bit (4 * k) v AND 0xf)"
proof (induction k arbitrary: v)
  case (Suc k)
  have "rev (hex_reversed (Suc k) (drop_bit 4 v)) \<noteq> []" by simp
  then have "hd (rev (hex_reversed (Suc (Suc k)) v)) = hd (rev (hex_reversed (Suc k) (drop_bit 4 v)))"
    unfolding hex_reversed.simps(2)[of "Suc k" v] rev.simps by (rule hd_append2)
  moreover have "drop_bit (4 * k) (drop_bit 4 v) = drop_bit (4 * Suc k) v" by (simp add: drop_bit_drop_bit add.commute)
  ultimately show ?case using Suc[of "drop_bit 4 v"] by argo
qed simp

lemma hex_char_zero: "0 < n \<Longrightarrow> n < 16 \<Longrightarrow> hex_char ! n \<noteq> 48"
proof -
  have "\<forall>n \<in> set [1..<16]. hex_char ! n \<noteq> 48" by code_simp
  then show "0 < n \<Longrightarrow> n < 16 \<Longrightarrow> ?thesis" by simp
qed

lemma AlphaNum_Hex_read:
  assumes w: "1 \<le> width" "width \<le> 16"
  shows "HexStringToUint64 (AlphaNum_Hex v width) = Some v" and "width \<le> length (AlphaNum_Hex v width)"
    and "width < length (AlphaNum_Hex v width) \<Longrightarrow> hd (AlphaNum_Hex v width) \<noteq> 48"
proof -
  define m where "m = push_bit ((width - 1) * 4) 1 OR v"
  obtain k where k: "hex_masked v m [] = rev (hex_reversed (Suc k) v)" "drop_bit (4 * Suc k) m = 0" "k = 0 \<or> drop_bit (4 * k) m \<noteq> 0"
    using hex_masked_digits[of v m "[]"] by auto
  have a: "AlphaNum_Hex v width = rev (hex_reversed (Suc k) v)" using k(1) by (simp add: AlphaNum_Hex_def m_def)
  have z: "\<not> bit m i" if "4 * Suc k \<le> i" for i
    using arg_cong[OF k(2), of "\<lambda>x. bit x (i - 4 * Suc k)"] that by (simp add: bit_drop_bit_eq)
  then have zv: "\<not> bit v i" if "4 * Suc k \<le> i" for i using that by (simp add: m_def bit_simps)
  have "n < 4 * Suc k" if "bit v n" for n using zv[of n] that by (cases "n < 4 * Suc k") simp_all
  then have "take_bit (4 * Suc k) v = v" by (intro bit_word_eqI) (auto simp: bit_take_bit_iff)
  then show "HexStringToUint64 (AlphaNum_Hex v width) = Some v"
    using hex_digits_reversed[of "Suc k" v] by (simp add: HexStringToUint64_def a)
  have "width - 1 < 16" using w by linarith
  then have "bit m (4 * (width - 1))" by (simp add: m_def bit_simps mult.commute)
  then have "width \<le> Suc k" using z[of "4 * (width - 1)"] by (cases "Suc k \<le> width - 1") simp_all
  then show "width \<le> length (AlphaNum_Hex v width)" by (simp add: a)
  show "hd (AlphaNum_Hex v width) \<noteq> 48" if l: "width < length (AlphaNum_Hex v width)"
  proof -
    have wk: "width \<le> k" using l by (simp add: a)
    then have "drop_bit (4 * k) m \<noteq> 0" using k(3) w by (cases k) simp_all
    then obtain i where i: "bit (drop_bit (4 * k) m) i" using bit_eq_iff[of "drop_bit (4 * k) m" 0] by auto
    then have "bit v (4 * k + i)" using wk w by (auto simp: m_def bit_simps)
    moreover from this have "i < 4" using zv[of "4 * k + i"] by (cases "i < 4") simp_all
    ultimately have "bit (drop_bit (4 * k) v AND 0xf) i"
      by (auto simp: bit_drop_bit_eq bit_and_iff less_Suc_eq numeral_eq_Suc)
    then have "drop_bit (4 * k) v AND 0xf \<noteq> 0" by (metis bit_0_eq bot_apply bot_bool_def)
    then show ?thesis unfolding a hex_first using and_15(1)[of "drop_bit (4 * k) v"] by (intro hex_char_zero) (simp_all add: unat_gt_0)
  qed
qed

end
