(* ===== verification/Path.thy ===== *)
theory Path
  imports StrUtil Records
begin

text \<open>
  Pieces of strings and file names: tensorflow/core/lib/core/stringpiece.cc and stringpiece.h, io/path.cc and
  io/match.cc. A piece is the list of its bytes, and \<open>npos\<close> is \<open>None\<close>. The files of a directory and \<open>fnmatch\<close>
  are parameters.
\<close>

subsection \<open>String pieces\<close>

text \<open>\<open>memchr\<close> finds the first occurrence.\<close>

definition find_char :: "byte list \<Rightarrow> byte \<Rightarrow> nat \<Rightarrow> nat option" where
  "find_char s c pos = (if length s \<le> pos then None
     else let n = pos + length (takeWhile (\<lambda>b. b \<noteq> c) (drop pos s)) in if n < length s then Some n else None)"

fun rfind_from :: "byte list \<Rightarrow> byte \<Rightarrow> nat \<Rightarrow> nat option" where
  "rfind_from s c 0 = (if s ! 0 = c then Some 0 else None)"
| "rfind_from s c (Suc p) = (if s ! Suc p = c then Some (Suc p) else rfind_from s c p)"

text \<open>The position is the last one to look at; without it, the whole piece is searched.\<close>

definition rfind :: "byte list \<Rightarrow> byte \<Rightarrow> nat option \<Rightarrow> nat option" where
  "rfind s c pos = (if s = [] then None
     else rfind_from s c (case pos of None \<Rightarrow> length s - 1 | Some pos \<Rightarrow> min pos (length s - 1)))"

definition substr :: "byte list \<Rightarrow> nat \<Rightarrow> nat option \<Rightarrow> byte list" where
  "substr s pos n = (let pos = (if length s < pos then length s else pos);
     n = (case n of None \<Rightarrow> length s - pos | Some n \<Rightarrow> if length s - pos < n then length s - pos else n) in take n (drop pos s))"

definition starts_with :: "byte list \<Rightarrow> byte list \<Rightarrow> bool" where
  "starts_with s x \<longleftrightarrow> length x \<le> length s \<and> take (length x) s = x"

definition ends_with :: "byte list \<Rightarrow> byte list \<Rightarrow> bool" where
  "ends_with s x \<longleftrightarrow> length x \<le> length s \<and> drop (length s - length x) s = x"

definition contains :: "byte list \<Rightarrow> byte list \<Rightarrow> bool" where
  "contains s x \<longleftrightarrow> (\<exists>i \<in> set [0..<length s + 1]. starts_with (drop i s) x)"

text \<open>\<open>memcmp\<close>, of which only the sign is known.\<close>

fun memcmp :: "byte list \<Rightarrow> byte list \<Rightarrow> int" where
  "memcmp (a # x) (b # y) = (if a = b then memcmp x y else if a < b then - 1 else 1)"
| "memcmp _ _ = 0"

definition compare :: "byte list \<Rightarrow> byte list \<Rightarrow> int" where
  "compare a b = (let min_len = min (length a) (length b); r = memcmp (take min_len a) (take min_len b) in
     if r = 0 then (if length a < length b then - 1 else if length b < length a then 1 else r) else r)"

subsection \<open>File names\<close>

definition IsAbsolutePath :: "byte list \<Rightarrow> bool" where
  "IsAbsolutePath path \<longleftrightarrow> path \<noteq> [] \<and> path ! 0 = 47"

text \<open>One round of the loop of \<open>JoinPath\<close>.\<close>

definition append_path :: "byte list \<Rightarrow> byte list \<Rightarrow> byte list" where
  "append_path path result = (if path = [] then result
     else if result = [] then path
     else if result ! (length result - 1) = 47
     then (if IsAbsolutePath path then result @ substr path 1 None else result @ path)
     else (if IsAbsolutePath path then result @ path else result @ [47] @ path))"

definition JoinPath :: "byte list \<Rightarrow> byte list \<Rightarrow> byte list" where
  "JoinPath part1 part2 = fold append_path [part1, part2] []"

definition SplitPath :: "byte list \<Rightarrow> byte list \<times> byte list" where
  "SplitPath path = (case rfind path 47 None of None \<Rightarrow> ([], path)
     | Some pos \<Rightarrow> if pos = 0 then (take 1 path, drop 1 path) else (take pos path, drop (pos + 1) path))"

definition Dirname :: "byte list \<Rightarrow> byte list" where "Dirname path = fst (SplitPath path)"

definition Basename :: "byte list \<Rightarrow> byte list" where "Basename path = snd (SplitPath path)"

definition SplitBasename :: "byte list \<Rightarrow> byte list \<times> byte list" where
  "SplitBasename path = (let path = Basename path in case rfind path 46 None of None \<Rightarrow> (path, [])
     | Some pos \<Rightarrow> (take pos path, drop (pos + 1) path))"

definition Extension :: "byte list \<Rightarrow> byte list" where "Extension path = snd (SplitBasename path)"

text \<open>The status and the results: \<open>get_children\<close> lists a directory, \<open>fnmatch\<close> compares a name with a pattern.\<close>

definition GetMatchingFiles :: "(byte list \<Rightarrow> status option \<times> byte list list) \<Rightarrow> (byte list \<Rightarrow> byte list \<Rightarrow> bool) \<Rightarrow> byte list
    \<Rightarrow> status option \<times> byte list list" where
  "GetMatchingFiles get_children fnmatch pattern = (let dir = Dirname pattern; dir = (if dir = [] then [46] else dir);
     basename_pattern = Basename pattern in
     case get_children dir of (Some s, _) \<Rightarrow> (Some s, [])
     | (None, all_files) \<Rightarrow> (None, fold (\<lambda>f results. if fnmatch basename_pattern (Basename f) then results @ [JoinPath dir f] else results) all_files []))"

subsection \<open>What the searches find\<close>

lemma rfind_from_last:
  assumes "p < length s"
  shows "rfind_from s c p = (case dropWhile (\<lambda>b. b \<noteq> c) (rev (take (Suc p) s)) of [] \<Rightarrow> None | _ # r \<Rightarrow> Some (length r))"
  using assms
proof (induction p)
  case 0
  then show ?case by (cases s) auto
next
  case (Suc p)
  then show ?case by (simp add: take_Suc_conv_app_nth[of "Suc p"])
qed

lemma nothing_left: "c \<notin> set s \<Longrightarrow> dropWhile (\<lambda>b. b \<noteq> c) (rev s) = []"
  by auto

lemma rfind_split: "c \<notin> set y \<Longrightarrow> rfind (x @ c # y) c None = Some (length x)"
  by (simp add: rfind_def rfind_from_last dropWhile_append3 nothing_left del: dropWhile_eq_Nil_conv)

lemma rfind_none: "c \<notin> set s \<Longrightarrow> rfind s c None = None"
  by (cases "s = []") (simp_all add: rfind_def rfind_from_last nothing_left del: dropWhile_eq_Nil_conv)

text \<open>The comparison of pieces is the order of the strings.\<close>

lemma compare_simps: "compare [] [] = 0" "compare [] (b # y) = - 1" "compare (a # x) [] = 1"
  "compare (a # x) (b # y) = (if a = b then compare x y else if a < b then - 1 else 1)"
  by (simp_all add: compare_def Let_def min_def)

lemma compare_bytes_less: "(compare a b < 0 \<longleftrightarrow> bytes_less a b) \<and> (compare a b = 0 \<longleftrightarrow> a = b)"
  by (induction a b rule: list_induct2') (auto simp: compare_simps)

lemma SplitPath_none: "47 \<notin> set b \<Longrightarrow> SplitPath b = ([], b)"
  by (simp add: SplitPath_def rfind_none)

lemma SplitPath_slash: "47 \<notin> set b \<Longrightarrow> SplitPath (d @ 47 # b) = (if d = [] then [47] else d, b)"
  by (simp add: SplitPath_def rfind_split)

lemma JoinPath_cases:
  assumes "b \<noteq> []" and "47 \<notin> set b"
  shows "JoinPath d b = (if d = [] then b else if last d = 47 then d @ b else d @ 47 # b)"
proof -
  have "\<not> IsAbsolutePath b" using assms by (cases b) (auto simp: IsAbsolutePath_def)
  then show ?thesis using assms(1) by (simp add: JoinPath_def append_path_def last_conv_nth)
qed

lemma SplitPath_JoinPath:
  assumes "b \<noteq> []" and "47 \<notin> set b"
  shows "SplitPath (JoinPath d b) = (if d = [47] then d else if d \<noteq> [] \<and> last d = 47 then butlast d else d, b)"
proof (cases "d \<noteq> [] \<and> last d = 47")
  case True
  then have "d = butlast d @ [47]" by (metis append_butlast_last_id)
  then have "JoinPath d b = butlast d @ 47 # b" using True JoinPath_cases[OF assms, of d] by (metis append.assoc append_Cons append_Nil)
  then show ?thesis using True SplitPath_slash[OF assms(2), of "butlast d"] by (cases d rule: rev_cases) auto
next
  case False
  then show ?thesis using JoinPath_cases[OF assms, of d] SplitPath_slash[OF assms(2), of d] SplitPath_none[OF assms(2)] by auto
qed

lemma Extension_JoinPath:
  assumes "47 \<notin> set n" "47 \<notin> set e" "46 \<notin> set e"
  shows "SplitBasename (JoinPath d (n @ 46 # e)) = (n, e)"
  using SplitPath_JoinPath[of "n @ 46 # e" d] assms by (simp add: SplitBasename_def Basename_def rfind_split)

lemma fold_filter: "fold (\<lambda>f results. if P f then results @ [g f] else results) xs r = r @ map g (filter P xs)"
  by (induction xs arbitrary: r) simp_all

lemma GetMatchingFiles_found:
  assumes "b \<noteq> []" "47 \<notin> set b" and "\<And>f. f \<in> set files \<Longrightarrow> 47 \<notin> set f"
    and "get_children (if Dirname (JoinPath d b) = [] then [46] else Dirname (JoinPath d b)) = (None, files)"
  shows "GetMatchingFiles get_children fnmatch (JoinPath d b)
    = (None, map (JoinPath (if Dirname (JoinPath d b) = [] then [46] else Dirname (JoinPath d b))) (filter (fnmatch b) files))"
proof -
  have "Basename f = f" if "f \<in> set files" for f using assms(3)[OF that] by (simp add: Basename_def SplitPath_none)
  then have "filter (\<lambda>f. fnmatch b (Basename f)) files = filter (fnmatch b) files" by (intro filter_cong) simp_all
  then show ?thesis using assms(4) SplitPath_JoinPath[OF assms(1,2), of d]
    by (simp add: GetMatchingFiles_def Let_def fold_filter Basename_def)
qed

end
