(* ===== verification/Scanner.thy ===== *)
theory Scanner
  imports Path
begin

text \<open>
  The scanner of tensorflow/core/lib/strings/scanner.h and scanner.cc: a chain of calls that consume a string from
  the left and mark a part of it. A pointer into the string is an offset; \<open>cur_\<close> is what is left from
  \<open>scan_pos\<close> on.

  \<open>matched_by\<close> says what a call means without the scanner: which piece of the string it takes. A chain of calls
  succeeds exactly when the string can be cut into such pieces.
\<close>

subsection \<open>Classes of characters\<close>

datatype CharClass = ALL_CHARS | DIGIT | LETTER | LETTER_DIGIT | LETTER_DIGIT_DASH_UNDERSCORE | LETTER_DIGIT_DASH_DOT_SLASH
  | LETTER_DIGIT_DASH_DOT_SLASH_UNDERSCORE | LETTER_DIGIT_DOT | LETTER_DIGIT_DOT_PLUS_MINUS | LETTER_DIGIT_DOT_UNDERSCORE
  | LETTER_DIGIT_UNDERSCORE | LOWERLETTER | LOWERLETTER_DIGIT | LOWERLETTER_DIGIT_UNDERSCORE | NON_ZERO_DIGIT | SPACE | UPPERLETTER

definition IsLetter :: "byte \<Rightarrow> bool" where "IsLetter ch \<longleftrightarrow> (97 \<le> ch \<and> ch \<le> 122) \<or> (65 \<le> ch \<and> ch \<le> 90)"

definition IsLowerLetter :: "byte \<Rightarrow> bool" where "IsLowerLetter ch \<longleftrightarrow> 97 \<le> ch \<and> ch \<le> 122"

definition IsDigit :: "byte \<Rightarrow> bool" where "IsDigit ch \<longleftrightarrow> 48 \<le> ch \<and> ch \<le> 57"

definition IsSpace :: "byte \<Rightarrow> bool" where
  "IsSpace ch \<longleftrightarrow> ch = 32 \<or> ch = 9 \<or> ch = 10 \<or> ch = 11 \<or> ch = 12 \<or> ch = 13"

definition Matches :: "CharClass \<Rightarrow> byte \<Rightarrow> bool" where
  "Matches clz ch = (case clz of
       ALL_CHARS \<Rightarrow> True
     | DIGIT \<Rightarrow> IsDigit ch
     | LETTER \<Rightarrow> IsLetter ch
     | LETTER_DIGIT \<Rightarrow> IsLetter ch \<or> IsDigit ch
     | LETTER_DIGIT_DASH_UNDERSCORE \<Rightarrow> IsLetter ch \<or> IsDigit ch \<or> ch = 45 \<or> ch = 95
     | LETTER_DIGIT_DASH_DOT_SLASH \<Rightarrow> IsLetter ch \<or> IsDigit ch \<or> ch = 45 \<or> ch = 46 \<or> ch = 47
     | LETTER_DIGIT_DASH_DOT_SLASH_UNDERSCORE \<Rightarrow> IsLetter ch \<or> IsDigit ch \<or> ch = 45 \<or> ch = 46 \<or> ch = 47 \<or> ch = 95
     | LETTER_DIGIT_DOT \<Rightarrow> IsLetter ch \<or> IsDigit ch \<or> ch = 46
     | LETTER_DIGIT_DOT_PLUS_MINUS \<Rightarrow> IsLetter ch \<or> IsDigit ch \<or> ch = 43 \<or> ch = 45 \<or> ch = 46
     | LETTER_DIGIT_DOT_UNDERSCORE \<Rightarrow> IsLetter ch \<or> IsDigit ch \<or> ch = 46 \<or> ch = 95
     | LETTER_DIGIT_UNDERSCORE \<Rightarrow> IsLetter ch \<or> IsDigit ch \<or> ch = 95
     | LOWERLETTER \<Rightarrow> 97 \<le> ch \<and> ch \<le> 122
     | LOWERLETTER_DIGIT \<Rightarrow> IsLowerLetter ch \<or> IsDigit ch
     | LOWERLETTER_DIGIT_UNDERSCORE \<Rightarrow> IsLowerLetter ch \<or> IsDigit ch \<or> ch = 95
     | NON_ZERO_DIGIT \<Rightarrow> IsDigit ch \<and> ch \<noteq> 48
     | SPACE \<Rightarrow> IsSpace ch
     | UPPERLETTER \<Rightarrow> 65 \<le> ch \<and> ch \<le> 90)"

subsection \<open>The scanner\<close>

record Scanner =
  scan_source :: "byte list"
  scan_pos :: nat
  capture_start :: nat
  capture_end :: "nat option"
  scan_error :: bool

definition cur :: "Scanner \<Rightarrow> byte list" where "cur s = drop (scan_pos s) (scan_source s)"

definition remove_prefix :: "nat \<Rightarrow> Scanner \<Rightarrow> Scanner" where "remove_prefix n s = s\<lparr>scan_pos := scan_pos s + n\<rparr>"

definition Error :: "Scanner \<Rightarrow> Scanner" where "Error s = s\<lparr>scan_error := True\<rparr>"

definition RestartCapture :: "Scanner \<Rightarrow> Scanner" where
  "RestartCapture s = s\<lparr>capture_start := scan_pos s, capture_end := None\<rparr>"

definition StopCapture :: "Scanner \<Rightarrow> Scanner" where "StopCapture s = s\<lparr>capture_end := Some (scan_pos s)\<rparr>"

definition Scanner_new :: "byte list \<Rightarrow> Scanner" where
  "Scanner_new source = RestartCapture \<lparr>scan_source = source, scan_pos = 0, capture_start = 0, capture_end = None, scan_error = False\<rparr>"

definition One :: "CharClass \<Rightarrow> Scanner \<Rightarrow> Scanner" where
  "One clz s = (if cur s = [] \<or> \<not> Matches clz (cur s ! 0) then Error s else remove_prefix 1 s)"

text \<open>\<open>cur_.Consume(s)\<close>\<close>

definition ZeroOrOneLiteral :: "byte list \<Rightarrow> Scanner \<Rightarrow> Scanner" where
  "ZeroOrOneLiteral x s = (if starts_with (cur s) x then remove_prefix (length x) s else s)"

definition OneLiteral :: "byte list \<Rightarrow> Scanner \<Rightarrow> Scanner" where
  "OneLiteral x s = (if starts_with (cur s) x then remove_prefix (length x) s else Error s)"

text \<open>The number of characters that the loop of \<open>Any\<close> removes.\<close>

fun any_length :: "CharClass \<Rightarrow> byte list \<Rightarrow> nat" where
  "any_length clz [] = 0"
| "any_length clz (c # r) = (if Matches clz c then Suc (any_length clz r) else 0)"

definition Any :: "CharClass \<Rightarrow> Scanner \<Rightarrow> Scanner" where "Any clz s = remove_prefix (any_length clz (cur s)) s"

definition Many :: "CharClass \<Rightarrow> Scanner \<Rightarrow> Scanner" where "Many clz s = Any clz (One clz s)"

definition Eos :: "Scanner \<Rightarrow> Scanner" where "Eos s = (if cur s \<noteq> [] then Error s else s)"

definition AnySpace :: "Scanner \<Rightarrow> Scanner" where "AnySpace s = Any SPACE s"

text \<open>The number of characters removed, and whether the string ended first.\<close>

fun scan_escaped :: "byte \<Rightarrow> byte list \<Rightarrow> nat \<times> bool" where
  "scan_escaped end_ch [] = (0, True)"
| "scan_escaped end_ch (ch # r) = (if ch = end_ch then (0, False)
     else if ch = 92 then (case r of [] \<Rightarrow> (1, True) | _ # r \<Rightarrow> (case scan_escaped end_ch r of (n, e) \<Rightarrow> (n + 2, e)))
     else (case scan_escaped end_ch r of (n, e) \<Rightarrow> (n + 1, e)))"

definition ScanEscapedUntil :: "byte \<Rightarrow> Scanner \<Rightarrow> Scanner" where
  "ScanEscapedUntil end_ch s = (case scan_escaped end_ch (cur s) of (n, e) \<Rightarrow> if e then Error (remove_prefix n s) else remove_prefix n s)"

definition Peek :: "byte \<Rightarrow> Scanner \<Rightarrow> byte" where "Peek default_value s = (if cur s = [] then default_value else cur s ! 0)"

definition scan_empty :: "Scanner \<Rightarrow> bool" where "scan_empty s \<longleftrightarrow> cur s = []"

text \<open>The rest of the string and the captured part.\<close>

definition GetResult :: "Scanner \<Rightarrow> (byte list \<times> byte list) option" where
  "GetResult s = (if scan_error s then None
     else let end_pos = (case capture_end s of None \<Rightarrow> scan_pos s | Some e \<Rightarrow> e) in
       Some (cur s, take (end_pos - capture_start s) (drop (capture_start s) (scan_source s))))"

subsection \<open>What a chain of calls means\<close>

datatype scan_call = OneOf CharClass | MaybeLiteral "byte list" | Literal "byte list" | AnyOf CharClass | ManyOf CharClass
  | Restart | Stop | AtEnd | Spaces | EscapedUntil byte

fun call :: "scan_call \<Rightarrow> Scanner \<Rightarrow> Scanner" where
  "call (OneOf clz) = One clz"
| "call (MaybeLiteral x) = ZeroOrOneLiteral x"
| "call (Literal x) = OneLiteral x"
| "call (AnyOf clz) = Any clz"
| "call (ManyOf clz) = Many clz"
| "call Restart = RestartCapture"
| "call Stop = StopCapture"
| "call AtEnd = Eos"
| "call Spaces = AnySpace"
| "call (EscapedUntil c) = ScanEscapedUntil c"

text \<open>Text in which a backslash takes the next character with it and which has no \<open>e\<close> outside of such a pair.\<close>

inductive escaped :: "byte \<Rightarrow> byte list \<Rightarrow> bool" for e where
  nothing: "escaped e []"
| plain: "c \<noteq> e \<Longrightarrow> c \<noteq> 92 \<Longrightarrow> escaped e x \<Longrightarrow> escaped e (c # x)"
| pair: "e \<noteq> 92 \<Longrightarrow> escaped e x \<Longrightarrow> escaped e (92 # c # x)"

inductive_cases escaped_ConsE: "escaped e (c # x)"

text \<open>A call takes the piece \<open>x\<close>, with \<open>r\<close> behind it.\<close>

fun matched_by :: "scan_call \<Rightarrow> byte list \<Rightarrow> byte list \<Rightarrow> bool" where
  "matched_by (OneOf clz) x r \<longleftrightarrow> length x = 1 \<and> list_all (Matches clz) x"
| "matched_by (MaybeLiteral l) x r \<longleftrightarrow> x = l \<or> x = [] \<and> take (length l) r \<noteq> l"
| "matched_by (Literal l) x r \<longleftrightarrow> x = l"
| "matched_by (AnyOf clz) x r \<longleftrightarrow> list_all (Matches clz) x \<and> (r = [] \<or> \<not> Matches clz (hd r))"
| "matched_by (ManyOf clz) x r \<longleftrightarrow> x \<noteq> [] \<and> list_all (Matches clz) x \<and> (r = [] \<or> \<not> Matches clz (hd r))"
| "matched_by Restart x r \<longleftrightarrow> x = []"
| "matched_by Stop x r \<longleftrightarrow> x = []"
| "matched_by AtEnd x r \<longleftrightarrow> x = [] \<and> r = []"
| "matched_by Spaces x r \<longleftrightarrow> list_all IsSpace x \<and> (r = [] \<or> \<not> IsSpace (hd r))"
| "matched_by (EscapedUntil c) x r \<longleftrightarrow> escaped c x \<and> r \<noteq> [] \<and> hd r = c"

fun cut_into :: "scan_call list \<Rightarrow> byte list list \<Rightarrow> byte list \<Rightarrow> bool" where
  "cut_into [] [] r \<longleftrightarrow> True"
| "cut_into (p # ps) (x # xs) r \<longleftrightarrow> matched_by p x (concat xs @ r) \<and> cut_into ps xs r"
| "cut_into _ _ r \<longleftrightarrow> False"

text \<open>The captured part: what was taken since the last restart, up to the last stop after it.\<close>

fun capture :: "scan_call \<Rightarrow> byte list \<Rightarrow> byte list \<times> byte list option \<Rightarrow> byte list \<times> byte list option" where
  "capture Restart x (since, stopped) = ([], None)"
| "capture Stop x (since, stopped) = (since, Some since)"
| "capture p x (since, stopped) = (since @ x, stopped)"

definition captured :: "scan_call list \<Rightarrow> byte list list \<Rightarrow> byte list" where
  "captured ps xs = (case fold (\<lambda>(p, x). capture p x) (zip ps xs) ([], None) of
     (since, None) \<Rightarrow> since | (since, Some c) \<Rightarrow> c)"

subsection \<open>The pieces the calls take\<close>

lemma escaped_append: "escaped e x \<Longrightarrow> r \<noteq> [] \<Longrightarrow> hd r = e \<Longrightarrow> scan_escaped e (x @ r) = (length x, False)"
proof (induction rule: escaped.induct)
  case nothing
  then show ?case by (cases r) auto
qed auto

lemma scan_escaped_pieces: "scan_escaped e s = (n, False) \<Longrightarrow> escaped e (take n s) \<and> n < length s \<and> s ! n = e"
proof (induction e s arbitrary: n rule: scan_escaped.induct)
  case (2 e c r)
  show ?case
  proof (cases "c = e")
    case False
    show ?thesis
    proof (cases "c = 92")
      case True
      then obtain b q m where "r = b # q" "scan_escaped e q = (m, False)" "n = m + 2"
        using 2(3) False by (auto split: list.splits prod.splits)
      then show ?thesis using 2(1)[of b q m] False True by (auto intro: escaped.intros)
    next
      case plain: False
      then obtain m where "scan_escaped e r = (m, False)" "n = Suc m" using 2(3) False by (auto split: prod.splits)
      then show ?thesis using 2(2)[of m] False plain by (auto intro: escaped.intros)
    qed
  qed (use 2(3) in \<open>auto intro: escaped.intros\<close>)
qed simp

lemma any_length_append: "list_all (Matches clz) x \<Longrightarrow> r = [] \<or> \<not> Matches clz (hd r) \<Longrightarrow> any_length clz (x @ r) = length x"
proof (induction x)
  case Nil
  then show ?case by (cases r) auto
qed auto

lemma any_length_pieces:
  "list_all (Matches clz) (take (any_length clz s) s) \<and> any_length clz s \<le> length s
    \<and> (drop (any_length clz s) s = [] \<or> \<not> Matches clz (hd (drop (any_length clz s) s)))"
  by (induction s) auto

lemma cur_remove [simp]: "cur (remove_prefix n s) = drop n (cur s)"
  by (simp add: cur_def remove_prefix_def add.commute)

lemma scan_simps [simp]: "cur (Error s) = cur s" "scan_error (Error s)" "scan_error (remove_prefix n s) = scan_error s"
  "cur (RestartCapture s) = cur s" "cur (StopCapture s) = cur s" "scan_error (RestartCapture s) = scan_error s"
  "scan_error (StopCapture s) = scan_error s"
  by (simp_all add: Error_def remove_prefix_def cur_def RestartCapture_def StopCapture_def)

lemmas scan_calls = One_def ZeroOrOneLiteral_def OneLiteral_def Any_def Many_def Eos_def AnySpace_def ScanEscapedUntil_def

lemma starts_with_iff: "starts_with s x \<longleftrightarrow> (\<exists>z. s = x @ z)"
  by (metis append_eq_conv_conj append_take_drop_id length_append le_add1 starts_with_def)

text \<open>A call that takes a piece moves behind it and changes the marks; the others are \<open>remove_prefix\<close>.\<close>

definition moved :: "scan_call \<Rightarrow> byte list \<Rightarrow> Scanner \<Rightarrow> Scanner" where
  "moved p x s = (case p of Restart \<Rightarrow> RestartCapture s | Stop \<Rightarrow> StopCapture s | _ \<Rightarrow> remove_prefix (length x) s)"

lemma remove_0 [simp]: "remove_prefix 0 s = s" "remove_prefix n (remove_prefix m s) = remove_prefix (m + n) s"
  by (simp_all add: remove_prefix_def add.assoc)

lemma call_takes:
  assumes "cur s = x @ r" and "matched_by p x r"
  shows "call p s = moved p x s"
proof (cases p)
  case (ManyOf clz)
  then obtain c y where "x = c # y" using assms(2) by (cases x) auto
  then show ?thesis using assms ManyOf any_length_append[of clz y r] by (simp add: moved_def scan_calls)
next
  case (OneOf clz)
  then show ?thesis using assms by (cases x) (auto simp: moved_def scan_calls)
next
  case (MaybeLiteral l)
  then show ?thesis using assms by (auto simp: moved_def scan_calls starts_with_def)
next
  case Spaces
  have "Matches SPACE = IsSpace" by (simp add: Matches_def fun_eq_iff)
  then show ?thesis using assms Spaces any_length_append[of SPACE x r] by (simp add: moved_def scan_calls)
qed (use assms in \<open>auto simp: moved_def scan_calls starts_with_def any_length_append escaped_append\<close>)

lemma call_succeeds:
  assumes "\<not> scan_error (call p s)"
  shows "\<exists>x r. cur s = x @ r \<and> matched_by p x r"
proof (cases p)
  case (OneOf clz)
  then obtain c y where "cur s = c # y" "Matches clz c" using assms by (cases "cur s") (auto simp: scan_calls split: if_splits)
  then show ?thesis using OneOf by (intro exI[of _ "[c]"] exI[of _ y]) simp
next
  case (MaybeLiteral l)
  show ?thesis
  proof (cases "take (length l) (cur s) = l")
    case True
    then show ?thesis using MaybeLiteral by (metis append_take_drop_id matched_by.simps(2))
  next
    case False
    then show ?thesis using MaybeLiteral by (intro exI[of _ "[]"] exI[of _ "cur s"]) simp
  qed
next
  case (Literal l)
  then show ?thesis using assms by (auto simp: scan_calls starts_with_iff split: if_splits)
next
  case (AnyOf clz)
  then show ?thesis using any_length_pieces[of clz "cur s"] by (metis append_take_drop_id matched_by.simps(4))
next
  case (ManyOf clz)
  then obtain c y where c: "cur s = c # y" "Matches clz c" using assms by (cases "cur s") (auto simp: scan_calls split: if_splits)
  then show ?thesis using any_length_pieces[of clz y] ManyOf
    by (intro exI[of _ "c # take (any_length clz y) y"] exI[of _ "drop (any_length clz y) y"]) auto
next
  case Spaces
  have "Matches SPACE = IsSpace" by (simp add: Matches_def fun_eq_iff)
  then show ?thesis using Spaces any_length_pieces[of SPACE "cur s"] by (metis append_take_drop_id matched_by.simps(9))
next
  case (EscapedUntil c)
  obtain n e where n: "scan_escaped c (cur s) = (n, e)" by fastforce
  then have "\<not> e" using assms EscapedUntil by (auto simp: scan_calls split: if_splits)
  then show ?thesis using scan_escaped_pieces[of c "cur s" n] n EscapedUntil
    by (intro exI[of _ "take n (cur s)"] exI[of _ "drop n (cur s)"]) (auto simp: hd_drop_conv_nth)
qed (use assms in \<open>auto simp: scan_calls split: if_splits\<close>)

lemma call_error: "scan_error s \<Longrightarrow> scan_error (call p s)"
  by (cases p) (auto simp: scan_calls RestartCapture_def StopCapture_def Error_def remove_prefix_def split: prod.splits)

lemma calls_error: "scan_error s \<Longrightarrow> scan_error (fold call ps s)"
  by (induction ps arbitrary: s) (simp_all add: call_error)

text \<open>The marks delimit what was captured.\<close>

definition marks :: "Scanner \<Rightarrow> byte list \<times> byte list option \<Rightarrow> bool" where
  "marks s c \<longleftrightarrow> capture_start s \<le> scan_pos s \<and> scan_pos s \<le> length (scan_source s)
     \<and> fst c = take (scan_pos s - capture_start s) (drop (capture_start s) (scan_source s))
     \<and> (case capture_end s of None \<Rightarrow> snd c = None
        | Some e \<Rightarrow> capture_start s \<le> e \<and> e \<le> scan_pos s \<and> snd c = Some (take (e - capture_start s) (drop (capture_start s) (scan_source s))))"

lemma marks_moved:
  assumes "cur s = x @ r" and "matched_by p x r" and m: "marks s c"
  shows "marks (moved p x s) (capture p x c)" and "cur (moved p x s) = r" and "scan_error (moved p x s) = scan_error s"
proof -
  show "cur (moved p x s) = r" "scan_error (moved p x s) = scan_error s"
    using assms(1,2) by (auto simp: moved_def split: scan_call.splits)
  have l: "scan_pos s + length x \<le> length (scan_source s)"
  proof -
    have "length (scan_source s) - scan_pos s = length x + length r" using arg_cong[OF assms(1), of length] by (simp add: cur_def)
    moreover have "scan_pos s \<le> length (scan_source s)" using m by (simp add: marks_def)
    ultimately show ?thesis by linarith
  qed
  have t: "take (scan_pos s + length x - capture_start s) (drop (capture_start s) (scan_source s))
      = take (scan_pos s - capture_start s) (drop (capture_start s) (scan_source s)) @ x"
    if "capture_start s \<le> scan_pos s"
  proof -
    have d: "drop (scan_pos s - capture_start s) (drop (capture_start s) (scan_source s)) = x @ r" using assms(1) that by (simp add: cur_def)
    have "scan_pos s + length x - capture_start s = (scan_pos s - capture_start s) + length x" using that by simp
    then show ?thesis unfolding \<open>scan_pos s + length x - capture_start s = _\<close> take_add d by simp
  qed
  obtain since stopped where c: "c = (since, stopped)" by fastforce
  show "marks (moved p x s) (capture p x c)"
  proof (cases p)
    case Restart
    then show ?thesis using m by (simp add: marks_def moved_def RestartCapture_def c)
  next
    case Stop
    then show ?thesis using m by (simp add: marks_def moved_def StopCapture_def c)
  qed (use m l t in \<open>auto simp: marks_def moved_def remove_prefix_def c split: option.splits\<close>)
qed

lemma calls_cut:
  "\<not> scan_error s \<Longrightarrow> marks s c \<Longrightarrow> \<not> scan_error (fold call ps s) \<Longrightarrow>
    \<exists>xs. cut_into ps xs (cur (fold call ps s)) \<and> cur s = concat xs @ cur (fold call ps s)"
proof (induction ps arbitrary: s c)
  case Nil
  then show ?case by (intro exI[of _ "[]"]) simp
next
  case (Cons p ps)
  have "\<not> scan_error (call p s)" using Cons(4) calls_error[of "call p s" ps] by auto
  then obtain x r where x: "cur s = x @ r" "matched_by p x r" using call_succeeds by blast
  note call_takes[OF x] marks_moved[OF x Cons(3)]
  then obtain xs where "cut_into ps xs (cur (fold call (p # ps) s))" "r = concat xs @ cur (fold call (p # ps) s)"
    using Cons(1)[of "moved p x s" "capture p x c"] Cons(2,4) by auto
  then show ?case using x by (intro exI[of _ "x # xs"]) auto
qed

lemma cut_calls:
  "cut_into ps xs r \<Longrightarrow> cur s = concat xs @ r \<Longrightarrow> marks s c \<Longrightarrow>
    scan_error (fold call ps s) = scan_error s \<and> cur (fold call ps s) = r \<and> marks (fold call ps s) (fold (\<lambda>(p, x). capture p x) (zip ps xs) c)"
proof (induction ps xs r arbitrary: s c rule: cut_into.induct)
  case (2 p ps x xs r)
  have x: "cur s = x @ concat xs @ r" "matched_by p x (concat xs @ r)" using 2(2,3) by auto
  note call_takes[OF x] marks_moved[OF x 2(4)]
  then show ?case using 2(1)[of "moved p x s" "capture p x c"] 2(2) by simp
qed auto

lemma marks_result:
  assumes "marks s (since, stopped)" and "\<not> scan_error s"
  shows "GetResult s = Some (cur s, case stopped of None \<Rightarrow> since | Some c \<Rightarrow> c)"
  using assms by (auto simp: GetResult_def marks_def Let_def split: option.splits)

lemma scan_cuts:
  "GetResult (fold call ps (Scanner_new source)) = Some (remaining, cap) \<longleftrightarrow>
    (\<exists>xs. source = concat xs @ remaining \<and> cut_into ps xs remaining \<and> cap = captured ps xs)"
proof -
  let ?s = "Scanner_new source"
  have new: "marks ?s ([], None)" "cur ?s = source" "\<not> scan_error ?s"
    by (simp_all add: Scanner_new_def RestartCapture_def marks_def cur_def)
  have res: "GetResult (fold call ps ?s) = Some (r, captured ps xs)" if "cut_into ps xs r" "source = concat xs @ r" for xs r
  proof -
    obtain since stopped where c: "fold (\<lambda>(p, x). capture p x) (zip ps xs) ([], None) = (since, stopped)" by fastforce
    have "\<not> scan_error (fold call ps ?s)" "cur (fold call ps ?s) = r" "marks (fold call ps ?s) (since, stopped)"
      using cut_calls[OF that(1) _ new(1)] that(2) new(2,3) c by simp_all
    then show ?thesis using marks_result[of "fold call ps ?s" since stopped] by (simp add: captured_def c split: option.splits)
  qed
  show ?thesis
  proof
    assume g: "GetResult (fold call ps ?s) = Some (remaining, cap)"
    then have e: "\<not> scan_error (fold call ps ?s)" "cur (fold call ps ?s) = remaining" by (auto simp: GetResult_def Let_def split: if_splits)
    from calls_cut[OF new(3,1) e(1)] obtain xs where "cut_into ps xs remaining" "source = concat xs @ remaining"
      using e(2) new(2) by auto
    then show "\<exists>xs. source = concat xs @ remaining \<and> cut_into ps xs remaining \<and> cap = captured ps xs" using res g by auto
  qed (use res in auto)
qed

end
