(* ===== verification/TopN.thy ===== *)
theory TopN
  imports Simulation "HOL-Library.Multiset"
begin

text \<open>
  The largest elements of a sequence: tensorflow/core/lib/gtl/top_n.h. The comparison \<open>cmp\<close> is "greater than". The
  heap and sorting functions of the C++ library are a parameter, a record of functions on lists, because the
  standard leaves the arrangement of the elements open; \<open>algorithms_ok\<close> is what it promises.

  An element that was moved from keeps its value here; it stands behind the heap and is not read again.
\<close>

subsection \<open>The algorithms of the library\<close>

record 'a algorithms =
  make_heap :: "('a \<Rightarrow> 'a \<Rightarrow> bool) \<Rightarrow> 'a list \<Rightarrow> 'a list"
  push_heap :: "('a \<Rightarrow> 'a \<Rightarrow> bool) \<Rightarrow> 'a list \<Rightarrow> 'a list"
  pop_heap :: "('a \<Rightarrow> 'a \<Rightarrow> bool) \<Rightarrow> 'a list \<Rightarrow> 'a list"
  sort_heap :: "('a \<Rightarrow> 'a \<Rightarrow> bool) \<Rightarrow> 'a list \<Rightarrow> 'a list"
  std_sort :: "('a \<Rightarrow> 'a \<Rightarrow> bool) \<Rightarrow> 'a list \<Rightarrow> 'a list"

definition is_heap :: "('a \<Rightarrow> 'a \<Rightarrow> bool) \<Rightarrow> 'a list \<Rightarrow> bool" where
  "is_heap cmp xs \<longleftrightarrow> (\<forall>i \<in> set [1..<length xs]. \<not> cmp (xs ! ((i - 1) div 2)) (xs ! i))"

definition strict_weak :: "('a \<Rightarrow> 'a \<Rightarrow> bool) \<Rightarrow> bool" where
  "strict_weak cmp \<longleftrightarrow> (\<forall>x. \<not> cmp x x) \<and> (\<forall>x y z. cmp x y \<longrightarrow> cmp y z \<longrightarrow> cmp x z)
     \<and> (\<forall>x y z. \<not> cmp x y \<longrightarrow> \<not> cmp y z \<longrightarrow> \<not> cmp x z)"

definition in_order :: "('a \<Rightarrow> 'a \<Rightarrow> bool) \<Rightarrow> 'a list \<Rightarrow> bool" where
  "in_order cmp = sorted_wrt (\<lambda>x y. \<not> cmp y x)"

definition algorithms_ok :: "'a algorithms \<Rightarrow> ('a \<Rightarrow> 'a \<Rightarrow> bool) \<Rightarrow> bool" where
  "algorithms_ok lib cmp \<longleftrightarrow>
     (\<forall>xs. mset (make_heap lib cmp xs) = mset xs \<and> is_heap cmp (make_heap lib cmp xs))
     \<and> (\<forall>xs x. is_heap cmp xs \<longrightarrow> mset (push_heap lib cmp (xs @ [x])) = add_mset x (mset xs) \<and> is_heap cmp (push_heap lib cmp (xs @ [x])))
     \<and> (\<forall>xs. xs \<noteq> [] \<longrightarrow> is_heap cmp xs \<longrightarrow> (\<exists>ys. pop_heap lib cmp xs = ys @ [hd xs] \<and> add_mset (hd xs) (mset ys) = mset xs \<and> is_heap cmp ys))
     \<and> (\<forall>xs. is_heap cmp xs \<longrightarrow> mset (sort_heap lib cmp xs) = mset xs \<and> in_order cmp (sort_heap lib cmp xs))
     \<and> (\<forall>xs. mset (std_sort lib cmp xs) = mset xs \<and> in_order cmp (std_sort lib cmp xs))"

subsection \<open>The code\<close>

datatype top_state = UNORDERED | BOTTOM_KNOWN | HEAP_SORTED

record 'a TopN =
  elements :: "'a list"
  top_limit :: nat
  top_state :: top_state

definition TopN_new :: "nat \<Rightarrow> 'a TopN" where
  "TopN_new limit = \<lparr>elements = [], top_limit = limit, top_state = UNORDERED\<rparr>"

definition top_size :: "'a TopN \<Rightarrow> nat" where "top_size t = min (length (elements t)) (top_limit t)"

definition top_empty :: "'a TopN \<Rightarrow> bool" where "top_empty t \<longleftrightarrow> top_size t = 0"

definition swap_ends :: "'a list \<Rightarrow> 'a list" where
  "swap_ends xs = xs[0 := xs ! (length xs - 1), length xs - 1 := xs ! 0]"

text \<open>The element that is dropped, if any, and the new state. \<open>limit_ + 1\<close> wraps at \<open>2 ^ 64\<close>.\<close>

definition PushInternal :: "'a algorithms \<Rightarrow> ('a \<Rightarrow> 'a \<Rightarrow> bool) \<Rightarrow> 'a \<Rightarrow> 'a TopN \<Rightarrow> 'a option \<times> 'a TopN" where
  "PushInternal lib cmp v t = (if top_limit t = 0 then (Some v, t)
     else if top_state t \<noteq> HEAP_SORTED
     then let es = elements t @ [v];
            es = (if top_state t = UNORDERED \<or> cmp (last es) (hd es) then es else swap_ends es) in
       if length es = (top_limit t + 1) mod 2 ^ 64
       then let es = make_heap lib cmp es in (Some (hd es), t\<lparr>elements := pop_heap lib cmp es, top_state := HEAP_SORTED\<rparr>)
       else (None, t\<lparr>elements := es\<rparr>)
     else if cmp v (hd (elements t))
     then let es = push_heap lib cmp ((elements t)[length (elements t) - 1 := v]) in (Some (hd es), t\<lparr>elements := pop_heap lib cmp es\<rparr>)
     else (Some v, t))"

text \<open>The linear scan of \<open>peek_bottom\<close>, whose assertion is \<open>None\<close> when it fails.\<close>

definition min_candidate :: "('a \<Rightarrow> 'a \<Rightarrow> bool) \<Rightarrow> 'a list \<Rightarrow> nat" where
  "min_candidate cmp es = fold (\<lambda>i m. if cmp (es ! m) (es ! i) then i else m) [1..<length es] 0"

definition peek_bottom :: "('a \<Rightarrow> 'a \<Rightarrow> bool) \<Rightarrow> 'a TopN \<Rightarrow> ('a \<times> 'a TopN) option" where
  "peek_bottom cmp t = (if top_empty t then None
     else let t = (if top_state t = UNORDERED
         then let m = min_candidate cmp (elements t);
                es = (if m \<noteq> 0 then (elements t)[0 := elements t ! m, m := elements t ! 0] else elements t) in
              t\<lparr>elements := es, top_state := BOTTOM_KNOWN\<rparr>
         else t) in Some (hd (elements t), t))"

definition ExtractNondestructive :: "'a algorithms \<Rightarrow> ('a \<Rightarrow> 'a \<Rightarrow> bool) \<Rightarrow> 'a TopN \<Rightarrow> 'a list" where
  "ExtractNondestructive lib cmp t = (if top_state t \<noteq> HEAP_SORTED then std_sort lib cmp (elements t)
     else sort_heap lib cmp (butlast (elements t)))"

definition ExtractUnsortedNondestructive :: "'a TopN \<Rightarrow> 'a list" where
  "ExtractUnsortedNondestructive t = (if top_state t = HEAP_SORTED then butlast (elements t) else elements t)"

definition Extract :: "'a algorithms \<Rightarrow> ('a \<Rightarrow> 'a \<Rightarrow> bool) \<Rightarrow> 'a TopN \<Rightarrow> 'a list \<times> 'a TopN" where
  "Extract lib cmp t = (let out = elements t; t = t\<lparr>elements := []\<rparr> in
     if top_state t \<noteq> HEAP_SORTED then (std_sort lib cmp out, t) else (sort_heap lib cmp (butlast out), t))"

definition ExtractUnsorted :: "'a TopN \<Rightarrow> 'a list \<times> 'a TopN" where
  "ExtractUnsorted t = (let out = elements t; t = t\<lparr>elements := []\<rparr> in
     if top_state t = HEAP_SORTED then (butlast out, t) else (out, t))"

definition top_Reset :: "'a TopN \<Rightarrow> 'a TopN" where "top_Reset t = t\<lparr>elements := [], top_state := UNORDERED\<rparr>"

subsection \<open>The front of a heap\<close>

text \<open>No element of a heap is less than its front, whatever the arrangement of the others.\<close>

lemma heap_front:
  assumes "strict_weak cmp" and "is_heap cmp xs" and "x \<in> set xs"
  shows "\<not> cmp (hd xs) x"
proof -
  have at: "\<not> cmp (xs ! 0) (xs ! i)" if "i < length xs" for i
    using that
  proof (induction i rule: less_induct)
    case (less i)
    show ?case
    proof (cases "i = 0")
      case False
      then have "\<not> cmp (xs ! ((i - 1) div 2)) (xs ! i)" using assms(2) less(2) by (simp add: is_heap_def)
      moreover have "\<not> cmp (xs ! 0) (xs ! ((i - 1) div 2))" using less False by simp
      ultimately show ?thesis using assms(1) unfolding strict_weak_def by blast
    qed (use assms(1) in \<open>simp add: strict_weak_def\<close>)
  qed
  obtain i where "i < length xs" "x = xs ! i" using assms(3) by (auto simp: in_set_conv_nth)
  then show ?thesis using at[of i] by (cases xs) simp_all
qed

subsection \<open>What is kept\<close>

definition kept :: "'a TopN \<Rightarrow> 'a multiset" where "kept t = mset (ExtractUnsortedNondestructive t)"

text \<open>The best of \<open>P\<close>: as many as the limit allows, and none that is left out is greater than one of them.\<close>

definition best_of :: "('a \<Rightarrow> 'a \<Rightarrow> bool) \<Rightarrow> nat \<Rightarrow> 'a multiset \<Rightarrow> 'a multiset \<Rightarrow> bool" where
  "best_of cmp n P K \<longleftrightarrow> (\<exists>D. P = K + D \<and> size K = min n (size P) \<and> (\<forall>k \<in># K. \<forall>d \<in># D. \<not> cmp d k))"

text \<open>The three states.\<close>

definition state_ok :: "('a \<Rightarrow> 'a \<Rightarrow> bool) \<Rightarrow> 'a TopN \<Rightarrow> bool" where
  "state_ok cmp t \<longleftrightarrow> (case top_state t of
       UNORDERED \<Rightarrow> length (elements t) \<le> top_limit t
     | BOTTOM_KNOWN \<Rightarrow> elements t \<noteq> [] \<and> length (elements t) \<le> top_limit t \<and> (\<forall>x \<in> set (elements t). \<not> cmp (hd (elements t)) x)
     | HEAP_SORTED \<Rightarrow> 0 < top_limit t \<and> length (elements t) = top_limit t + 1 \<and> is_heap cmp (butlast (elements t)))"

definition top_ok :: "('a \<Rightarrow> 'a \<Rightarrow> bool) \<Rightarrow> nat \<Rightarrow> 'a TopN \<Rightarrow> 'a multiset \<Rightarrow> bool" where
  "top_ok cmp n t P \<longleftrightarrow> top_limit t = n \<and> n < 2 ^ 64 - 1 \<and> state_ok cmp t \<and> best_of cmp n P (kept t)
     \<and> (top_state t \<noteq> HEAP_SORTED \<longrightarrow> kept t = P \<or> n = 0)"

lemma best_of_all: "size P \<le> n \<Longrightarrow> best_of cmp n P P"
  by (auto simp: best_of_def intro: exI[of _ "{#}"])

lemma best_of_drop:
  assumes "strict_weak cmp" and b: "best_of cmp n P K" "size K = n" and f: "K + {#v#} = K' + {#f#}" "\<forall>x \<in># K + {#v#}. \<not> cmp f x"
    and g: "\<exists>k \<in># K. cmp v k \<or> f = v"
  shows "best_of cmp n (add_mset v P) K'"
proof -
  obtain D where D: "P = K + D" "\<forall>k \<in># K. \<forall>d \<in># D. \<not> cmp d k" using b(1) by (auto simp: best_of_def)
  have s: "size K' = size K" using arg_cong[OF f(1), of size] by simp
  have "\<not> cmp d k" if "k \<in># K'" "d \<in># add_mset f D" for k d
  proof (cases "d = f")
    case True
    moreover have "k \<in># K + {#v#}" using that(1) f(1) by (metis union_iff)
    ultimately show ?thesis using f(2) by blast
  next
    case False
    then have d: "d \<in># D" using that(2) by simp
    show ?thesis
    proof (cases "k \<in># K")
      case kv: False
      then have "k = v" using that(1) f(1) by (metis add_mset_add_single insert_noteq_member union_iff union_single_eq_member mset_add)
      moreover have "f \<noteq> v" using kv that(1) f(1) \<open>k = v\<close> by auto
      ultimately show ?thesis using g D(2) d assms(1) unfolding strict_weak_def by blast
    qed (use D(2) d in blast)
  qed
  moreover have "add_mset v P = K' + add_mset f D" using D(1) f(1) by (metis add_mset_add_single union_assoc union_commute)
  ultimately show ?thesis using s b(2) D(1) unfolding best_of_def by (intro exI[of _ "add_mset f D"]) simp
qed

lemma kept_simps: "top_state t = HEAP_SORTED \<Longrightarrow> kept t = mset (butlast (elements t))" "top_state t \<noteq> HEAP_SORTED \<Longrightarrow> kept t = mset (elements t)"
  by (simp_all add: kept_def ExtractUnsortedNondestructive_def)

lemma strict_weakD:
  assumes "strict_weak cmp"
  shows "\<not> cmp x x" and "cmp x y \<Longrightarrow> \<not> cmp y x" and "\<not> cmp x y \<Longrightarrow> \<not> cmp y z \<Longrightarrow> \<not> cmp x z"
  using assms unfolding strict_weak_def by blast+

lemma swap_ends_Cons: "swap_ends (x # ys @ [v]) = v # ys @ [x]"
  by (simp add: swap_ends_def nth_append list_update_append)

lemma swapped_bottom:
  fixes v :: 'a
  assumes "strict_weak cmp" and "\<forall>x \<in> set es. \<not> cmp (hd es) x" and "es \<noteq> []"
  defines "fs \<equiv> (if cmp v (hd es) then es @ [v] else swap_ends (es @ [v]))"
  shows "mset fs = add_mset v (mset es)" and "\<forall>x \<in> set fs. \<not> cmp (hd fs) x"
proof -
  obtain e r where es: "es = e # r" using assms(3) by (cases es) auto
  have fs: "fs = (if cmp v e then e # r @ [v] else v # r @ [e])" by (simp add: fs_def es swap_ends_Cons)
  then show "mset fs = add_mset v (mset es)" by (simp add: es)
  have e: "\<not> cmp e x" if "x \<in> set (e # r)" for x using assms(2) that by (auto simp: es)
  have "\<not> cmp v x" if "\<not> cmp v e" "x \<in> set (v # r @ [e])" for x
    using that e[of x] strict_weakD(1)[OF assms(1), of v] strict_weakD(3)[OF assms(1), of v e x] by auto
  moreover have "\<not> cmp e x" if "cmp v e" "x \<in> set (e # r @ [v])" for x
    using that e[of x] strict_weakD(2)[OF assms(1), of v e] by auto
  ultimately show "\<forall>x \<in> set fs. \<not> cmp (hd fs) x" unfolding fs by (cases "cmp v e") simp_all
qed

text \<open>A heap that takes one more element and drops its front.\<close>

lemma pop_ok:
  assumes "algorithms_ok lib cmp" and "strict_weak cmp" and "is_heap cmp h" "h \<noteq> []"
  shows "\<exists>ys. pop_heap lib cmp h = ys @ [hd h] \<and> add_mset (hd h) (mset ys) = mset h \<and> is_heap cmp ys \<and> (\<forall>x \<in># mset h. \<not> cmp (hd h) x)"
  using assms heap_front[OF assms(2,3)] unfolding algorithms_ok_def by simp

lemma best_of_pop:
  assumes "size K = n" and "add_mset f K = P" and "\<forall>x \<in># P. \<not> cmp f x"
  shows "best_of cmp n P K"
  using assms unfolding best_of_def by (intro exI[of _ "{#f#}"]) auto

lemma push_unsorted:
  assumes lib: "algorithms_ok lib cmp" "strict_weak cmp" and t: "top_ok cmp n t P" and n: "0 < n" and u: "top_state t \<noteq> HEAP_SORTED"
  shows "top_ok cmp n (snd (PushInternal lib cmp v t)) (add_mset v P)
    \<and> kept (snd (PushInternal lib cmp v t)) + (case fst (PushInternal lib cmp v t) of None \<Rightarrow> {#} | Some d \<Rightarrow> {#d#}) = add_mset v (kept t)"
proof -
  have l: "top_limit t = n" "n < 2 ^ 64 - 1" "length (elements t) \<le> n" and P: "mset (elements t) = P"
    using t u n by (auto simp: top_ok_def state_ok_def kept_simps split: top_state.splits)
  define fs where "fs = (if top_state t = UNORDERED \<or> cmp v (hd (elements t @ [v])) then elements t @ [v] else swap_ends (elements t @ [v]))"
  have fs: "mset fs = add_mset v P" "top_state t = BOTTOM_KNOWN \<Longrightarrow> \<forall>x \<in> set fs. \<not> cmp (hd fs) x"
  proof -
    have b: "strict_weak cmp" "\<forall>x \<in> set (elements t). \<not> cmp (hd (elements t)) x" "elements t \<noteq> []" if "top_state t = BOTTOM_KNOWN"
      using lib(2) t that by (auto simp: top_ok_def state_ok_def)
    show "mset fs = add_mset v P"
      using swapped_bottom(1)[OF b, of v] u P by (cases "top_state t") (auto simp: fs_def b(3))
    show "\<forall>x \<in> set fs. \<not> cmp (hd fs) x" if "top_state t = BOTTOM_KNOWN"
      using swapped_bottom(2)[OF b[OF that], of v] that b(3) by (simp add: fs_def)
  qed
  have len: "length fs = Suc (length (elements t))" using arg_cong[OF fs(1), of size] P by simp (metis size_mset)
  have m: "(n + 1) mod 2 ^ 64 = n + 1" using l(2) by simp
  show ?thesis
  proof (cases "length fs = n + 1")
    case True
    define h where "h = make_heap lib cmp fs"
    have h: "mset h = add_mset v P" "is_heap cmp h" using lib(1) fs(1) by (simp_all add: algorithms_ok_def h_def)
    have "h \<noteq> []" using h(1) by auto
    from pop_ok[OF lib h(2) this] obtain ys where ys: "pop_heap lib cmp h = ys @ [hd h]" "add_mset (hd h) (mset ys) = mset h" "is_heap cmp ys"
      "\<forall>x \<in># mset h. \<not> cmp (hd h) x" by blast
    have run: "PushInternal lib cmp v t = (Some (hd h), t\<lparr>elements := ys @ [hd h], top_state := HEAP_SORTED\<rparr>)"
      using u n l(1) m True ys(1) by (simp add: PushInternal_def Let_def fs_def[symmetric] h_def[symmetric])
    have "length ys = n" using arg_cong[OF ys(2), of size] h(1) len True P by simp (metis size_mset)
    moreover from this have "best_of cmp n (add_mset v P) (mset ys)"
      using best_of_pop[of "mset ys" n "hd h" "add_mset v P" cmp] ys(2,4) h(1) by simp
    ultimately show ?thesis unfolding run using l n ys(2,3) h(1) P u by (simp add: top_ok_def state_ok_def kept_simps)
  next
    case False
    have run: "PushInternal lib cmp v t = (None, t\<lparr>elements := fs\<rparr>)"
      using u n l(1) m False by (simp add: PushInternal_def Let_def fs_def[symmetric])
    have le: "length fs \<le> n" using len l(3) False by simp
    then have "best_of cmp n (add_mset v P) (mset fs)" using best_of_all[of "mset fs" n cmp] fs(1) by (metis size_mset)
    moreover have "fs \<noteq> []" using len by auto
    ultimately show ?thesis unfolding run using l(1,2) le fs P u
      by (cases "top_state t") (auto simp: top_ok_def state_ok_def kept_simps)
  qed
qed

lemma push_sorted:
  assumes lib: "algorithms_ok lib cmp" "strict_weak cmp" and t: "top_ok cmp n t P" and u: "top_state t = HEAP_SORTED"
  shows "top_ok cmp n (snd (PushInternal lib cmp v t)) (add_mset v P)
    \<and> kept (snd (PushInternal lib cmp v t)) + (case fst (PushInternal lib cmp v t) of None \<Rightarrow> {#} | Some d \<Rightarrow> {#d#}) = add_mset v (kept t)"
proof -
  define hs where "hs = butlast (elements t)"
  have l: "top_limit t = n" "n < 2 ^ 64 - 1" "0 < n" "length hs = n" "is_heap cmp hs" and b: "best_of cmp n P (mset hs)"
    and e: "elements t \<noteq> []" "length (elements t) = n + 1"
    using t u by (auto simp: top_ok_def state_ok_def kept_simps hs_def)
  have hs: "hs \<noteq> []" "elements t = hs @ [last (elements t)]" using l(3,4) e(1) by (auto, simp add: hs_def)
  then have hs3: "hd (elements t) = hd hs" by (metis hd_append2)
  have front: "\<forall>x \<in> set hs. \<not> cmp (hd hs) x" using heap_front[OF lib(2) l(5)] by blast
  show ?thesis
  proof (cases "cmp v (hd hs)")
    case True
    define h where "h = push_heap lib cmp (hs @ [v])"
    have h: "mset h = add_mset v (mset hs)" "is_heap cmp h" using lib(1) l(5) by (simp_all add: algorithms_ok_def h_def)
    have "h \<noteq> []" using h(1) by auto
    from pop_ok[OF lib h(2) this] obtain ys where ys: "pop_heap lib cmp h = ys @ [hd h]" "add_mset (hd h) (mset ys) = mset h" "is_heap cmp ys"
      "\<forall>x \<in># mset h. \<not> cmp (hd h) x" by blast
    have up: "(elements t)[length (elements t) - 1 := v] = hs @ [v]" using hs(2) by (metis length_append_singleton diff_Suc_1 list_update_length)
    have run: "PushInternal lib cmp v t = (Some (hd h), t\<lparr>elements := ys @ [hd h]\<rparr>)"
      using u l(1,3) True ys(1) hs3 unfolding PushInternal_def up by (simp add: Let_def h_def[symmetric])
    have "length ys = n" using arg_cong[OF ys(2), of size] h(1) l(4) by simp
    moreover have "best_of cmp n (add_mset v P) (mset ys)"
    proof (rule best_of_drop[OF lib(2) b])
      show "mset hs + {#v#} = mset ys + {#hd h#}" "\<forall>x \<in># mset hs + {#v#}. \<not> cmp (hd h) x" using ys(2,4) h(1) by simp_all
      show "\<exists>k \<in># mset hs. cmp v k \<or> hd h = v" using True hs(1) by (intro bexI[of _ "hd hs"]) simp_all
    qed (simp add: l(4))
    ultimately show ?thesis unfolding run using l u ys(2,3) h(1) by (simp add: top_ok_def state_ok_def kept_simps hs_def)
  next
    case False
    have run: "PushInternal lib cmp v t = (Some v, t)" using u l(1,3) False hs3 by (simp add: PushInternal_def)
    have "best_of cmp n (add_mset v P) (mset hs)"
    proof (rule best_of_drop[OF lib(2) b])
      show "\<forall>x \<in># mset hs + {#v#}. \<not> cmp v x" using front strict_weakD(1,3)[OF lib(2)] False by auto
      show "\<exists>k \<in># mset hs. cmp v k \<or> v = v" using hs(1) by (intro bexI[of _ "hd hs"]) simp_all
    qed (simp_all add: l(4))
    then show ?thesis unfolding run using l u e by (simp add: top_ok_def state_ok_def kept_simps hs_def)
  qed
qed

lemma push_ok:
  assumes lib: "algorithms_ok lib cmp" "strict_weak cmp" and t: "top_ok cmp n t P"
  shows "top_ok cmp n (snd (PushInternal lib cmp v t)) (add_mset v P)
    \<and> kept (snd (PushInternal lib cmp v t)) + (case fst (PushInternal lib cmp v t) of None \<Rightarrow> {#} | Some d \<Rightarrow> {#d#}) = add_mset v (kept t)"
proof (cases "n = 0")
  case True
  then have "elements t = []" "top_state t = UNORDERED" "top_limit t = 0" using t by (auto simp: top_ok_def state_ok_def split: top_state.splits)
  then show ?thesis using t True by (simp add: top_ok_def PushInternal_def kept_simps state_ok_def best_of_def)
qed (use push_unsorted[OF assms] push_sorted[OF assms] in blast)

lemma scan_bottom:
  assumes "strict_weak cmp" and "n \<le> length es" "es \<noteq> []"
  shows "fold (\<lambda>i m. if cmp (es ! m) (es ! i) then i else m) [1..<n] 0 < length es
    \<and> (\<forall>i < max 1 n. \<not> cmp (es ! fold (\<lambda>i m. if cmp (es ! m) (es ! i) then i else m) [1..<n] 0) (es ! i))"
  using assms(2)
proof (induction n)
  case 0
  then show ?case using assms(3) strict_weakD(1)[OF assms(1)] by simp
next
  case (Suc n)
  define m where "m = fold (\<lambda>i m. if cmp (es ! m) (es ! i) then i else m) [1..<n] 0"
  show ?case
  proof (cases "n = 0")
    case False
    have IH: "m < length es" "\<forall>i < n. \<not> cmp (es ! m) (es ! i)" using Suc False by (auto simp: m_def)
    have step: "fold (\<lambda>i m. if cmp (es ! m) (es ! i) then i else m) [1..<Suc n] 0 = (if cmp (es ! m) (es ! n) then n else m)"
      using False by (simp add: m_def)
    have "\<not> cmp (es ! n) (es ! i)" if "cmp (es ! m) (es ! n)" "i < Suc n" for i
    proof (cases "i = n")
      case False
      then have "\<not> cmp (es ! m) (es ! i)" "\<not> cmp (es ! n) (es ! m)" using IH(2) that strict_weakD(2)[OF assms(1)] by simp_all
      then show ?thesis using strict_weakD(3)[OF assms(1)] by blast
    qed (use strict_weakD(1)[OF assms(1)] in simp)
    then show ?thesis unfolding step using IH Suc(2) by (auto simp: less_Suc_eq)
  qed (use assms(3) strict_weakD(1)[OF assms(1)] in simp)
qed

lemma mset_swap_front: "m < length es \<Longrightarrow> mset (es[0 := es ! m, m := es ! 0]) = mset es"
  by (rule mset_swap) auto

lemma peek_ok:
  assumes "strict_weak cmp" and t: "top_ok cmp n t P" and "0 < n" "P \<noteq> {#}"
  shows "\<exists>b t'. peek_bottom cmp t = Some (b, t') \<and> top_ok cmp n t' P \<and> kept t' = kept t \<and> b \<in># kept t \<and> (\<forall>k \<in># kept t. \<not> cmp b k)"
proof (cases "top_state t = UNORDERED")
  case True
  have l: "top_limit t = n" "length (elements t) \<le> n" and P: "mset (elements t) = P"
    using t True assms(3) by (auto simp: top_ok_def state_ok_def kept_simps)
  define m where "m = min_candidate cmp (elements t)"
  define fs where "fs = (if m \<noteq> 0 then (elements t)[0 := elements t ! m, m := elements t ! 0] else elements t)"
  have ne: "elements t \<noteq> []" using P assms(4) by auto
  have m: "m < length (elements t)" "\<forall>i < length (elements t). \<not> cmp (elements t ! m) (elements t ! i)"
    using scan_bottom[OF assms(1) order_refl ne] ne by (simp_all add: m_def min_candidate_def)
  have fs: "mset fs = P" "length fs = length (elements t)" "fs \<noteq> []" using mset_swap_front[OF m(1)] P ne by (auto simp: fs_def)
  have "hd fs = elements t ! m" using ne m(1) by (simp add: fs_def hd_conv_nth nth_list_update)
  moreover have "set fs = set (elements t)" using fs(1) P by (metis set_mset_mset)
  ultimately have b: "\<forall>x \<in> set fs. \<not> cmp (hd fs) x" using m(2) by (metis in_set_conv_nth)
  have "peek_bottom cmp t = Some (hd fs, t\<lparr>elements := fs, top_state := BOTTOM_KNOWN\<rparr>)"
    using True ne l assms(3) by (simp add: peek_bottom_def top_empty_def top_size_def m_def fs_def Let_def)
  then show ?thesis using t True fs b l P by (auto simp: top_ok_def state_ok_def kept_simps)
next
  case False
  have "elements t \<noteq> []" "0 < top_limit t" using t False assms(3) by (auto simp: top_ok_def state_ok_def split: top_state.splits)
  then have run: "peek_bottom cmp t = Some (hd (elements t), t)" using False by (simp add: peek_bottom_def top_empty_def top_size_def)
  have "hd (elements t) \<in># kept t \<and> (\<forall>k \<in># kept t. \<not> cmp (hd (elements t)) k)"
  proof (cases "top_state t = HEAP_SORTED")
    case True
    define hs where "hs = butlast (elements t)"
    have h: "is_heap cmp hs" "hs \<noteq> []" "elements t = hs @ [last (elements t)]"
      using t True assms(3) by (auto simp: top_ok_def state_ok_def hs_def simp flip: length_greater_0_conv)
    then have "hd (elements t) = hd hs" by (metis hd_append2)
    then show ?thesis using h(2) heap_front[OF assms(1) h(1)] True by (simp add: kept_simps hs_def[symmetric])
  next
    case u: False
    then show ?thesis using t False \<open>elements t \<noteq> []\<close> by (cases "top_state t") (auto simp: top_ok_def state_ok_def kept_simps)
  qed
  then show ?thesis using run t by blast
qed

lemma extract_ok:
  assumes "algorithms_ok lib cmp" and t: "top_ok cmp n t P"
  shows "mset (ExtractNondestructive lib cmp t) = kept t" and "in_order cmp (ExtractNondestructive lib cmp t)"
    and "fst (Extract lib cmp t) = ExtractNondestructive lib cmp t"
    and "fst (ExtractUnsorted t) = ExtractUnsortedNondestructive t"
  using assms by (auto simp: algorithms_ok_def ExtractNondestructive_def Extract_def ExtractUnsorted_def
      ExtractUnsortedNondestructive_def kept_def top_ok_def state_ok_def Let_def)

lemma new_top_ok: "n < 2 ^ 64 - 1 \<Longrightarrow> top_ok cmp n (TopN_new n) {#}"
  by (simp add: top_ok_def TopN_new_def state_ok_def kept_def ExtractUnsortedNondestructive_def best_of_all)

lemma top_Reset_ok: "top_ok cmp n t P \<Longrightarrow> top_ok cmp n (top_Reset t) {#}"
  by (simp add: top_ok_def top_Reset_def state_ok_def kept_def ExtractUnsortedNondestructive_def best_of_all)

subsection \<open>A TopN stands for the elements pushed\<close>

datatype 'a top_op = TopPush 'a | TopPeek | TopReset

fun top_step :: "'a algorithms \<Rightarrow> ('a \<Rightarrow> 'a \<Rightarrow> bool) \<Rightarrow> 'a top_op \<Rightarrow> 'a TopN \<Rightarrow> 'a TopN option" where
  "top_step lib cmp (TopPush v) t = Some (snd (PushInternal lib cmp v t))"
| "top_step lib cmp TopPeek t = map_option snd (peek_bottom cmp t)"
| "top_step lib cmp TopReset t = Some (top_Reset t)"

fun pushed :: "'a top_op \<Rightarrow> 'a multiset \<Rightarrow> 'a multiset" where
  "pushed (TopPush v) P = add_mset v P"
| "pushed TopPeek P = P"
| "pushed TopReset P = {#}"

fun may_peek :: "nat \<Rightarrow> 'a top_op \<Rightarrow> 'a multiset \<Rightarrow> bool" where
  "may_peek n TopPeek P \<longleftrightarrow> 0 < n \<and> P \<noteq> {#}"
| "may_peek n _ P \<longleftrightarrow> True"

interpretation top_n: simulation "top_step lib cmp" "\<lambda>t P. algorithms_ok lib cmp \<and> strict_weak cmp \<and> top_ok cmp n t P" pushed "may_peek n" for lib cmp n
proof
  fix t P p
  assume t: "algorithms_ok lib cmp \<and> strict_weak cmp \<and> top_ok cmp n t P" and ok: "may_peek n p P"
  show "\<exists>t'. top_step lib cmp p t = Some t' \<and> algorithms_ok lib cmp \<and> strict_weak cmp \<and> top_ok cmp n t' (pushed p P)"
  proof (cases p)
    case (TopPush v)
    then show ?thesis using push_ok[of lib cmp n t P v] t by simp
  next
    case TopPeek
    then show ?thesis using peek_ok[of cmp n t P] t ok by fastforce
  next
    case TopReset
    then show ?thesis using top_Reset_ok[of cmp n t P] t by simp
  qed
qed

text \<open>The largest elements in order, for any sequence of operations.\<close>

lemma top_extracted:
  assumes "algorithms_ok lib cmp" "strict_weak cmp" "n < 2 ^ 64 - 1" and "allowed (may_peek n) pushed ps {#}"
  shows "\<exists>t. run_ops (top_step lib cmp) ps (TopN_new n) = Some t \<and> in_order cmp (fst (Extract lib cmp t))
    \<and> best_of cmp n (fold pushed ps {#}) (mset (fst (Extract lib cmp t)))"
proof -
  have "algorithms_ok lib cmp \<and> strict_weak cmp \<and> top_ok cmp n (TopN_new n) {#}" using assms(1,2) new_top_ok[OF assms(3)] by blast
  from top_n.runs[OF this assms(4)] obtain t where t: "run_ops (top_step lib cmp) ps (TopN_new n) = Some t" "top_ok cmp n t (fold pushed ps {#})" by blast
  then show ?thesis using extract_ok[OF assms(1) t(2)] by (auto simp: top_ok_def)
qed

subsection \<open>Algorithms that keep the promises\<close>

text \<open>Sorting serves for all of them: a sorted list is a heap.\<close>

fun insert_by :: "('a \<Rightarrow> 'a \<Rightarrow> bool) \<Rightarrow> 'a \<Rightarrow> 'a list \<Rightarrow> 'a list" where
  "insert_by cmp x [] = [x]"
| "insert_by cmp x (y # ys) = (if cmp y x then y # insert_by cmp x ys else x # y # ys)"

definition sort_by :: "('a \<Rightarrow> 'a \<Rightarrow> bool) \<Rightarrow> 'a list \<Rightarrow> 'a list" where
  "sort_by cmp xs = foldr (insert_by cmp) xs []"

definition by_sorting :: "'a algorithms" where
  "by_sorting = \<lparr>make_heap = \<lambda>cmp. sort_by (\<lambda>x y. cmp y x), push_heap = \<lambda>cmp. sort_by (\<lambda>x y. cmp y x),
     pop_heap = \<lambda>cmp xs. sort_by (\<lambda>x y. cmp y x) (tl xs) @ [hd xs], sort_heap = sort_by, std_sort = sort_by\<rparr>"

lemma mset_insert_by [simp]: "mset (insert_by cmp x ys) = add_mset x (mset ys)"
  by (induction ys) auto

lemma mset_sort_by [simp]: "mset (sort_by cmp xs) = mset xs"
  unfolding sort_by_def by (induction xs) simp_all

lemma insert_by_order: "strict_weak cmp \<Longrightarrow> in_order cmp ys \<Longrightarrow> in_order cmp (insert_by cmp x ys)"
proof (induction ys)
  case (Cons y ys)
  have set: "set (insert_by cmp x ys) = insert x (set ys)" by (metis mset_insert_by set_mset_add_mset_insert set_mset_mset)
  show ?case
  proof (cases "cmp y x")
    case True
    then show ?thesis using Cons set strict_weakD(2)[OF Cons(2), of y x] by (auto simp: in_order_def)
  next
    case False
    then have "\<not> cmp z x" if "z \<in> set ys" for z
      using Cons(3) that strict_weakD(3)[OF Cons(2), of z y x] by (auto simp: in_order_def)
    then show ?thesis using Cons False by (auto simp: in_order_def)
  qed
qed (simp add: in_order_def)

lemma sort_by_order: "strict_weak cmp \<Longrightarrow> in_order cmp (sort_by cmp xs)"
  unfolding sort_by_def by (induction xs) (simp_all add: insert_by_order, simp add: in_order_def)

lemma strict_weak_flip: "strict_weak cmp \<Longrightarrow> strict_weak (\<lambda>x y. cmp y x)"
  unfolding strict_weak_def by blast

lemma ordered_is_heap:
  assumes "in_order (\<lambda>x y. cmp y x) xs"
  shows "is_heap cmp xs"
  unfolding is_heap_def
proof
  fix i assume i: "i \<in> set [1..<length xs]"
  then have "(i - 1) div 2 < i" by auto
  then show "\<not> cmp (xs ! ((i - 1) div 2)) (xs ! i)" using assms i by (simp add: in_order_def sorted_wrt_iff_nth_less)
qed

lemma by_sorting_ok: "strict_weak cmp \<Longrightarrow> algorithms_ok by_sorting cmp"
proof -
  assume c: "strict_weak cmp"
  have h: "is_heap cmp (sort_by (\<lambda>x y. cmp y x) xs)" for xs using ordered_is_heap sort_by_order[OF strict_weak_flip[OF c]] by blast
  show ?thesis unfolding algorithms_ok_def by_sorting_def using h sort_by_order[OF c]
    by (auto simp: neq_Nil_conv)
qed

end
