(* ===== verification/InlinedVector.thy ===== *)
theory InlinedVector
  imports Coding Simulation
begin

text \<open>
  The vector of tensorflow/core/lib/gtl/inlined_vector.h, which keeps a few elements in the object itself. The last
  eight bytes of the object are a word: its highest byte is the number of elements, or 255 for elements in
  memory of their own; then the next byte is the logarithm of the capacity and the other six are the number of elements.
  The machine is little-endian.

  The memory for the elements is a list of slots; \<open>None\<close> is a slot without an object. \<open>fit\<close> is \<open>kFit\<close>, the number of
  elements that fit in the object. An operation is \<open>None\<close> when an assertion fails, when it reads a slot
  without an object or memory it has freed, or when it never returns.

  The element of \<open>resize\<close> and the range of \<open>AppendRange\<close> are objects outside of the vector. \<open>Destroy\<close> counts with an
  \<open>int\<close>: of more than \<open>2 ^ 31\<close> objects the code leaves some undestroyed, in slots that are not read again.
\<close>

subsection \<open>The representation\<close>

record 'a ivec =
  last8 :: "64 word"
  slots :: "'a option list"

definition kSentinel :: nat where "kSentinel = 255"

text \<open>\<open>u_.data[kSize - 1]\<close> and \<open>u_.data[kSize - 2]\<close>.\<close>

definition tag_byte :: "64 word \<Rightarrow> byte" where "tag_byte w = ucast (drop_bit 56 w)"

definition lg_byte :: "64 word \<Rightarrow> byte" where "lg_byte w = ucast (drop_bit 48 w)"

definition set_tag :: "byte \<Rightarrow> 64 word \<Rightarrow> 64 word" where "set_tag b w = take_bit 56 w OR push_bit 56 (ucast b)"

definition set_lg :: "byte \<Rightarrow> 64 word \<Rightarrow> 64 word" where
  "set_lg b w = take_bit 48 w OR push_bit 48 (ucast b) OR push_bit 56 (drop_bit 56 w)"

definition is_inline :: "'a ivec \<Rightarrow> bool" where "is_inline v \<longleftrightarrow> unat (tag_byte (last8 v)) \<noteq> kSentinel"

definition capacity :: "nat \<Rightarrow> 'a ivec \<Rightarrow> nat" where
  "capacity fit v = (if is_inline v then fit else 2 ^ unat (lg_byte (last8 v)))"

definition size_internal :: "'a ivec \<Rightarrow> nat" where
  "size_internal v = (let s = unat (tag_byte (last8 v)) in if s \<noteq> kSentinel then s else unat (last8 v AND 0xffffffffffff))"

definition set_size_internal :: "nat \<Rightarrow> 'a ivec \<Rightarrow> 'a ivec option" where
  "set_size_internal n v = (if is_inline v
     then if n < kSentinel then Some (v\<lparr>last8 := set_tag (of_nat n) (last8 v)\<rparr>) else None
     else let w = of_nat n OR push_bit 48 (ucast (lg_byte (last8 v))) OR push_bit 56 (of_nat kSentinel) in
       if unat (tag_byte w) = kSentinel then Some (v\<lparr>last8 := w\<rparr>) else None)"

text \<open>\<open>InitRep\<close>, and the object after the elements are destroyed and their memory is freed.\<close>

definition ivec_new :: "nat \<Rightarrow> 'a ivec" where
  "ivec_new fit = \<lparr>last8 = set_tag 0 0, slots = replicate fit None\<rparr>"

definition ivec_clear :: "nat \<Rightarrow> 'a ivec \<Rightarrow> 'a ivec" where
  "ivec_clear fit v = \<lparr>last8 = set_tag 0 (last8 v), slots = replicate fit None\<rparr>"

subsection \<open>Growing\<close>

text \<open>The new capacity and its logarithm. Doubling wraps at \<open>2 ^ 64\<close>.\<close>

partial_function (option) grow_target :: "nat \<Rightarrow> nat \<Rightarrow> nat \<Rightarrow> nat \<Rightarrow> (nat \<times> nat) option" where
  "grow_target fit n target lg = (if target < fit \<or> target < n then grow_target fit n (target * 2 mod 2 ^ 64) (lg + 1) else Some (target, lg))"

text \<open>Objects are copied or moved from the first \<open>length src\<close> slots to \<open>dst\<close>.\<close>

definition put_slots :: "nat \<Rightarrow> 'b list \<Rightarrow> 'b list \<Rightarrow> 'b list" where
  "put_slots i src dst = take i dst @ src @ drop (i + length src) dst"

definition destroy :: "nat \<Rightarrow> nat \<Rightarrow> 'a option list \<Rightarrow> 'a option list" where
  "destroy i n xs = put_slots i (replicate n None) xs"

text \<open>\<open>Grow\<close>: the element, if there is one, goes to the slot behind the others.\<close>

definition Grow :: "nat \<Rightarrow> nat \<Rightarrow> 'a option \<Rightarrow> 'a ivec \<Rightarrow> 'a ivec option" where
  "Grow fit n elem v = (let s = size_internal v in
     if capacity fit v < s then None
     else case grow_target fit n 1 0 of None \<Rightarrow> None
       | Some (target, lg) \<Rightarrow>
           let dst = replicate target None;
               dst = (case elem of None \<Rightarrow> dst | Some e \<Rightarrow> dst[s := Some e]);
               dst = put_slots 0 (take s (slots v)) dst;
               w = set_lg (of_nat lg) (set_tag (of_nat kSentinel) (last8 v)) in
           case set_size_internal s (v\<lparr>last8 := w\<rparr>) of None \<Rightarrow> None
             | Some v \<Rightarrow> let v = v\<lparr>slots := dst\<rparr> in if capacity fit v = target then Some v else None)"

definition reserve :: "nat \<Rightarrow> nat \<Rightarrow> 'a ivec \<Rightarrow> 'a ivec option" where
  "reserve fit n v = (if capacity fit v < n then Grow fit n None v else Some v)"

subsection \<open>Elements\<close>

definition ivec_at :: "nat \<Rightarrow> 'a ivec \<Rightarrow> 'a option" where
  "ivec_at i v = (if i < size_internal v then slots v ! i else None)"

definition ivec_set :: "nat \<Rightarrow> 'a \<Rightarrow> 'a ivec \<Rightarrow> 'a ivec option" where
  "ivec_set i x v = (if i < size_internal v then Some (v\<lparr>slots := (slots v)[i := Some x]\<rparr>) else None)"

text \<open>An argument \<open>const value_type&\<close> is an object elsewhere or an element of the vector itself.\<close>

datatype 'a arg = Object 'a | Element nat

definition read_arg :: "'a arg \<Rightarrow> 'a ivec \<Rightarrow> 'a option" where
  "read_arg t v = (case t of Object x \<Rightarrow> Some x | Element i \<Rightarrow> slots v ! i)"

definition push_back :: "nat \<Rightarrow> 'a arg \<Rightarrow> 'a ivec \<Rightarrow> 'a ivec option" where
  "push_back fit t v = (let s = size_internal v in
     if capacity fit v < s then None
     else case read_arg t v of None \<Rightarrow> None
       | Some x \<Rightarrow> if s < capacity fit v then set_size_internal (s + 1) (v\<lparr>slots := (slots v)[s := Some x]\<rparr>)
           else case Grow fit (s + 1) (Some x) v of None \<Rightarrow> None | Some v \<Rightarrow> set_size_internal (s + 1) v)"

definition pop_back :: "'a ivec \<Rightarrow> 'a ivec option" where
  "pop_back v = (let s = size_internal v in
     if s = 0 then None else set_size_internal (s - 1) (v\<lparr>slots := destroy (s - 1) 1 (slots v)\<rparr>))"

text \<open>New elements are copies of \<open>e\<close>, or \<open>T()\<close> when it is left out.\<close>

definition ivec_Resize :: "nat \<Rightarrow> nat \<Rightarrow> 'a \<Rightarrow> 'a ivec \<Rightarrow> 'a ivec option" where
  "ivec_Resize fit n e v = (let s = size_internal v in
     if n \<le> s then set_size_internal n (v\<lparr>slots := destroy n (s - n) (slots v)\<rparr>)
     else case reserve fit n v of None \<Rightarrow> None
       | Some v \<Rightarrow> if capacity fit v < n then None
           else case set_size_internal n v of None \<Rightarrow> None
             | Some v \<Rightarrow> Some (v\<lparr>slots := put_slots s (replicate (n - s) (Some e)) (slots v)\<rparr>))"

text \<open>A vector of \<open>n\<close> copies of \<open>e\<close>, or of the elements of a range.\<close>

definition ivec_fill :: "nat \<Rightarrow> nat \<Rightarrow> 'a \<Rightarrow> 'a ivec option" where
  "ivec_fill fit n e = (let v = ivec_new fit in
     case (if capacity fit v < n then Grow fit n None v else Some v) of None \<Rightarrow> None
     | Some v \<Rightarrow> (case set_size_internal n v of None \<Rightarrow> None
         | Some v \<Rightarrow> Some (v\<lparr>slots := put_slots 0 (replicate n (Some e)) (slots v)\<rparr>)))"

definition AppendRange :: "nat \<Rightarrow> 'a list \<Rightarrow> 'a ivec \<Rightarrow> 'a ivec option" where
  "AppendRange fit xs v = (let s = size_internal v in
     case reserve fit (s + length xs) v of None \<Rightarrow> None
     | Some v \<Rightarrow> set_size_internal (s + length xs) (v\<lparr>slots := put_slots s (map Some xs) (slots v)\<rparr>))"

text \<open>\<open>insert\<close> before the position \<open>idx\<close>: the argument is read at the end, when its memory may be freed.\<close>

definition insert_at :: "nat \<Rightarrow> nat \<Rightarrow> 'a arg \<Rightarrow> 'a ivec \<Rightarrow> 'a ivec option" where
  "insert_at fit idx t v = (let s = size_internal v in
     if s < idx then None
     else if idx = s then push_back fit t v
     else let grows = (s = capacity fit v) in
       case (if grows then Grow fit (s + 1) None v else Some v) of None \<Rightarrow> None
       | Some v \<Rightarrow> if capacity fit v \<le> s then None
           else let v = v\<lparr>slots := (slots v)[s := slots v ! (s - 1)]\<rparr>;
                    v = v\<lparr>slots := put_slots (idx + 1) (take (s - 1 - idx) (drop idx (slots v))) (slots v)\<rparr> in
             case (if grows \<and> (\<exists>i \<in> set [0..<s]. t = Element i) then None else read_arg t v) of None \<Rightarrow> None
             | Some x \<Rightarrow> set_size_internal (s + 1) (v\<lparr>slots := (slots v)[idx := Some x]\<rparr>))"

definition erase_range :: "nat \<Rightarrow> nat \<Rightarrow> 'a ivec \<Rightarrow> 'a ivec option" where
  "erase_range i j v = (let s = size_internal v; erase_gap = j - i in
     if j < i \<or> s < j then None
     else let xs = put_slots i (take (s - j) (drop j (slots v))) (slots v) in
       set_size_internal (s - erase_gap) (v\<lparr>slots := destroy (s - erase_gap) erase_gap xs\<rparr>))"

definition erase_at :: "nat \<Rightarrow> 'a ivec \<Rightarrow> 'a ivec option" where
  "erase_at i v = (let s = size_internal v in
     if s \<le> i then None else pop_back (v\<lparr>slots := put_slots i (take (s - (i + 1)) (drop (i + 1) (slots v))) (slots v)\<rparr>))"

text \<open>\<open>std::copy\<close> to a \<open>std::back_inserter\<close>.\<close>

fun push_all :: "nat \<Rightarrow> 'a option list \<Rightarrow> 'a ivec \<Rightarrow> 'a ivec option" where
  "push_all fit [] v = Some v"
| "push_all fit (None # xs) v = None"
| "push_all fit (Some x # xs) v = (case push_back fit (Object x) v of None \<Rightarrow> None | Some v \<Rightarrow> push_all fit xs v)"

text \<open>The assignment, from another vector.\<close>

definition ivec_assign :: "nat \<Rightarrow> 'a ivec \<Rightarrow> 'a ivec \<Rightarrow> 'a ivec option" where
  "ivec_assign fit u v = (let s = size_internal v; vs = size_internal u in
     if s < vs
     then case reserve fit vs v of None \<Rightarrow> None
       | Some v \<Rightarrow> push_all fit (take (vs - s) (drop s (slots u))) (v\<lparr>slots := put_slots 0 (take s (slots u)) (slots v)\<rparr>)
     else case erase_range vs s v of None \<Rightarrow> None | Some v \<Rightarrow> Some (v\<lparr>slots := put_slots 0 (take vs (slots u)) (slots v)\<rparr>))"

definition ivec_copy :: "nat \<Rightarrow> 'a ivec \<Rightarrow> 'a ivec option" where
  "ivec_copy fit u = ivec_assign fit u (ivec_new fit)"

text \<open>Exchanging the elements of two vectors, not both of them with memory of their own; \<open>a\<close> is the larger one.\<close>

definition swap_elements :: "nat \<Rightarrow> 'a ivec \<Rightarrow> 'a ivec \<Rightarrow> ('a ivec \<times> 'a ivec) option" where
  "swap_elements fit a b = (let a_size = size_internal a; b_size = size_internal b in
     case (if capacity fit b < a_size then Grow fit a_size None b else Some b) of None \<Rightarrow> None
     | Some b \<Rightarrow> let xs = slots a; ys = slots b;
          a = a\<lparr>slots := destroy b_size (a_size - b_size) (put_slots 0 (take b_size ys) xs)\<rparr>;
          b = b\<lparr>slots := put_slots 0 (take a_size xs) ys\<rparr> in
        (case set_size_internal b_size a of None \<Rightarrow> None
         | Some a \<Rightarrow> map_option (Pair a) (set_size_internal a_size b)))"

definition ivec_swap :: "nat \<Rightarrow> 'a ivec \<Rightarrow> 'a ivec \<Rightarrow> ('a ivec \<times> 'a ivec) option" where
  "ivec_swap fit a b = (if \<not> is_inline a \<and> \<not> is_inline b then Some (b, a)
     else if size_internal a < size_internal b then map_option prod.swap (swap_elements fit b a) else swap_elements fit a b)"

definition ivec_eq :: "'a ivec \<Rightarrow> 'a ivec \<Rightarrow> bool" where
  "ivec_eq a b \<longleftrightarrow> size_internal a = size_internal b \<and> take (size_internal a) (slots a) = take (size_internal b) (slots b)"

subsection \<open>The last eight bytes\<close>

lemma slots_only [simp]: "is_inline (v\<lparr>slots := z\<rparr>) = is_inline v" "capacity fit (v\<lparr>slots := z\<rparr>) = capacity fit v"
  "size_internal (v\<lparr>slots := z\<rparr>) = size_internal v"
  by (simp_all add: is_inline_def capacity_def size_internal_def Let_def)

lemma byte_high [simp]: "\<not> bit (b :: byte) (8 + i)"
  using bit_imp_le_length[of b "8 + i"] by auto

lemma tag_set_tag [simp]: "tag_byte (set_tag b w) = b" "lg_byte (set_tag b w) = lg_byte w"
  by (auto simp: tag_byte_def lg_byte_def set_tag_def bit_eq_iff bit_simps)

lemma tag_set_lg [simp]: "tag_byte (set_lg b w) = tag_byte w" "lg_byte (set_lg b w) = b"
  by (auto simp: tag_byte_def lg_byte_def set_lg_def bit_eq_iff bit_simps)

lemma small_word: "n < 2 ^ 48 \<Longrightarrow> take_bit 48 (of_nat n :: 64 word) = of_nat n"
  by (simp add: take_bit_of_nat take_bit_nat_eq_self)

lemma small_word_bits: "n < 2 ^ 48 \<Longrightarrow> 48 \<le> i \<Longrightarrow> \<not> bit (of_nat n :: 64 word) i"
  using arg_cong[OF small_word, of n "\<lambda>w. bit w i"] by (simp add: bit_take_bit_iff)

definition outline :: "nat \<Rightarrow> byte \<Rightarrow> 64 word" where
  "outline n lg = of_nat n OR push_bit 48 (ucast lg) OR push_bit 56 (of_nat kSentinel)"

lemma outline_bytes:
  assumes "n < 2 ^ 48"
  shows "unat (tag_byte (outline n lg)) = kSentinel" and "lg_byte (outline n lg) = lg" and "unat (outline n lg AND 0xffffffffffff) = n"
proof -
  have "tag_byte (outline n lg) = of_nat kSentinel"
    using small_word_bits[OF assms]
    by (intro bit_word_eqI) (auto simp: tag_byte_def outline_def bit_simps kSentinel_def)
  then show "unat (tag_byte (outline n lg)) = kSentinel" by (simp add: kSentinel_def)
  show "lg_byte (outline n lg) = lg"
    using small_word_bits[OF assms] by (intro bit_word_eqI) (auto simp: lg_byte_def outline_def bit_simps)
  have "outline n lg AND 0xffffffffffff = take_bit 48 (outline n lg)" by (simp add: take_bit_eq_mask mask_eq_exp_minus_1)
  also have "\<dots> = take_bit 48 (of_nat n)" by (rule bit_word_eqI) (auto simp: outline_def bit_simps)
  finally show "unat (outline n lg AND 0xffffffffffff) = n" using assms by (simp add: small_word unat_of_nat)
qed

text \<open>Setting the number of elements leaves the rest alone.\<close>

lemma set_size_ok:
  assumes "is_inline v \<Longrightarrow> n < kSentinel" and "n < 2 ^ 48"
  shows "\<exists>v'. set_size_internal n v = Some v' \<and> slots v' = slots v \<and> size_internal v' = n \<and> capacity fit v' = capacity fit v
    \<and> is_inline v' = is_inline v \<and> lg_byte (last8 v') = lg_byte (last8 v)"
proof (cases "is_inline v")
  case True
  then have "n < kSentinel" using assms(1) by blast
  moreover from this have "unat (of_nat n :: byte) = n" by (simp add: kSentinel_def unat_of_nat)
  ultimately show ?thesis using True
    by (simp add: set_size_internal_def is_inline_def size_internal_def capacity_def)
next
  case False
  have "set_size_internal n v = Some (v\<lparr>last8 := outline n (lg_byte (last8 v))\<rparr>)"
    using False outline_bytes(1)[OF assms(2)] by (simp add: set_size_internal_def outline_def Let_def)
  then show ?thesis using False outline_bytes[OF assms(2), of "lg_byte (last8 v)"]
    by (simp add: is_inline_def size_internal_def capacity_def)
qed

subsection \<open>Growing reaches the size asked for\<close>

lemma grow_target_ok:
  assumes "fit < kSentinel" and "n \<le> 2 ^ 48" and "k \<le> 48"
  shows "\<exists>m \<le> 48. grow_target fit n (2 ^ k) k = Some (2 ^ m, m) \<and> fit \<le> 2 ^ m \<and> n \<le> 2 ^ m"
  using assms(3)
proof (induction "48 - k" arbitrary: k)
  case 0
  then have "k = 48" by simp
  then have "\<not> (2 ^ k < fit \<or> 2 ^ k < n)" using assms by (simp add: kSentinel_def)
  then show ?case using \<open>k = 48\<close> by (intro exI[of _ 48]) (simp add: grow_target.simps)
next
  case (Suc d)
  show ?case
  proof (cases "2 ^ k < fit \<or> 2 ^ k < n")
    case True
    have "(2 :: nat) ^ Suc k \<le> 2 ^ 48" using Suc(2) by (intro power_increasing) simp_all
    then have "2 ^ k * 2 mod 2 ^ 64 = (2 :: nat) ^ Suc k" by simp
    then have "grow_target fit n (2 ^ k) k = grow_target fit n (2 ^ Suc k) (Suc k)"
      using True by (subst grow_target.simps) simp
    then show ?thesis using Suc(1)[of "Suc k"] Suc(2) by simp
  next
    case False
    then show ?thesis using Suc(3) by (intro exI[of _ k]) (simp add: grow_target.simps not_less)
  qed
qed

text \<open>Above \<open>2 ^ 63\<close> the doubling wraps to zero and the loop never ends.\<close>

lemma grow_target_diverges:
  assumes n: "2 ^ 63 < n" and "t = 0 \<or> (\<exists>k \<le> 63. t = 2 ^ k)"
  shows "grow_target fit n t lg = None"
proof (rule ccontr)
  define doubled :: "nat \<Rightarrow> bool" where "doubled t \<longleftrightarrow> t = 0 \<or> (\<exists>k \<le> 63. t = 2 ^ k)" for t
  have step: "doubled (t * 2 mod 2 ^ 64) \<and> t \<le> 2 ^ 63" if t: "doubled t" for t
  proof (cases "t = 0")
    case False
    then obtain k where k: "k \<le> 63" "t = 2 ^ k" using t by (auto simp: doubled_def)
    have "(2 :: nat) ^ k \<le> 2 ^ 63" using k(1) by (intro power_increasing) simp_all
    moreover have "doubled (2 ^ k * 2 mod 2 ^ 64)"
    proof (cases "k = 63")
      case False
      then have "(2 :: nat) ^ Suc k \<le> 2 ^ 63" using k(1) by (intro power_increasing) simp_all
      then have "2 ^ k * 2 mod 2 ^ 64 = (2 :: nat) ^ Suc k" by simp
      then show ?thesis using k(1) False unfolding doubled_def by (intro disjI2 exI[of _ "Suc k"]) simp
    qed (simp add: doubled_def)
    ultimately show ?thesis using k(2) by simp
  qed (simp add: doubled_def)
  assume "grow_target fit n t lg \<noteq> None"
  then obtain r where "grow_target fit n t lg = Some r" by blast
  then have "2 ^ 63 < n \<longrightarrow> \<not> doubled t"
  proof (rule grow_target.raw_induct[where P = "\<lambda>fit n t lg r. 2 ^ 63 < n \<longrightarrow> \<not> doubled t", rotated])
    fix grow :: "nat \<Rightarrow> nat \<Rightarrow> nat \<Rightarrow> nat \<Rightarrow> (nat \<times> nat) option" and fit n t lg r
    assume IH: "\<And>fit n t lg r. grow fit n t lg = Some r \<Longrightarrow> 2 ^ 63 < n \<longrightarrow> \<not> doubled t"
      and run: "(if t < fit \<or> t < n then grow fit n (t * 2 mod 2 ^ 64) (lg + 1) else Some (t, lg)) = Some r"
    show "2 ^ 63 < n \<longrightarrow> \<not> doubled t"
    proof (rule ccontr)
      assume "\<not> (2 ^ 63 < n \<longrightarrow> \<not> doubled t)"
      then have a: "2 ^ 63 < n" "doubled t" by blast+
      then have "t < n" using step[of t] by simp
      then have "grow fit n (t * 2 mod 2 ^ 64) (lg + 1) = Some r" using run by simp
      then show False using IH a step by blast
    qed
  qed
  then show False using assms by (simp add: doubled_def)
qed

subsection \<open>Slots\<close>

lemma put_slots_split: "length a = i \<Longrightarrow> length b = length src \<Longrightarrow> put_slots i src (a @ b @ c) = a @ src @ c"
  by (simp add: put_slots_def)

definition holds_items :: "nat \<Rightarrow> 'a ivec \<Rightarrow> 'a list \<Rightarrow> bool" where
  "holds_items fit v xs \<longleftrightarrow> fit < kSentinel \<and> length xs \<le> 2 ^ 47 \<and> size_internal v = length xs \<and> length xs \<le> capacity fit v
     \<and> slots v = map Some xs @ replicate (capacity fit v - length xs) None"

lemma holds_inline: "holds_items fit v xs \<Longrightarrow> n \<le> capacity fit v \<Longrightarrow> is_inline v \<Longrightarrow> n < kSentinel"
  by (simp add: holds_items_def capacity_def)

text \<open>Changing the slots and the number of elements: what every operation does at its end.\<close>

lemma set_items:
  assumes "holds_items fit v xs" and "length ys \<le> capacity fit v" "length ys \<le> 2 ^ 47"
    and "zs = map Some ys @ replicate (capacity fit v - length ys) None"
  shows "\<exists>v'. set_size_internal (length ys) (v\<lparr>slots := zs\<rparr>) = Some v' \<and> holds_items fit v' ys \<and> capacity fit v' = capacity fit v"
proof -
  have c: "capacity fit (v\<lparr>slots := zs\<rparr>) = capacity fit v" "is_inline (v\<lparr>slots := zs\<rparr>) = is_inline v"
    by (simp_all add: capacity_def is_inline_def)
  have "length ys < 2 ^ 48" using assms(3) by simp
  then obtain v' where "set_size_internal (length ys) (v\<lparr>slots := zs\<rparr>) = Some v'" "slots v' = zs" "size_internal v' = length ys"
    "capacity fit v' = capacity fit v"
    using set_size_ok[of "v\<lparr>slots := zs\<rparr>" "length ys" fit] holds_inline[OF assms(1,2)] c by auto
  then show ?thesis using assms by (simp add: holds_items_def)
qed

lemma Grow_ok:
  assumes h: "holds_items fit v xs" and n: "n \<le> 2 ^ 47" "length xs < n"
  shows "\<exists>v'. Grow fit n None v = Some v' \<and> holds_items fit v' xs \<and> n \<le> capacity fit v'"
    and "\<exists>v'. Grow fit n (Some e) v = Some v' \<and> size_internal v' = length xs \<and> n \<le> capacity fit v' \<and> \<not> is_inline v'
      \<and> slots v' = map Some (xs @ [e]) @ replicate (capacity fit v' - Suc (length xs)) None"
proof -
  obtain m where m: "m \<le> 48" "grow_target fit n 1 0 = Some (2 ^ m, m)" "fit \<le> 2 ^ m" "n \<le> 2 ^ m"
    using grow_target_ok[of fit n 0] h n(1) by (auto simp: holds_items_def)
  have len: "length xs < 2 ^ m" using n(2) m(4) by linarith
  define w where "w = set_lg (of_nat m) (set_tag (of_nat kSentinel) (last8 v))"
  have w: "\<not> is_inline (v\<lparr>last8 := w\<rparr>)" "unat (lg_byte w) = m"
    using m(1) by (simp_all add: is_inline_def w_def kSentinel_def unat_of_nat)
  then obtain u where u: "set_size_internal (length xs) (v\<lparr>last8 := w\<rparr>) = Some u" "size_internal u = length xs"
      "capacity fit u = 2 ^ m" "\<not> is_inline u"
    using set_size_ok[of "v\<lparr>last8 := w\<rparr>" "length xs" fit] h n by (auto simp: holds_items_def capacity_def)
  define dst where "dst e = put_slots 0 (map Some xs) (case e of None \<Rightarrow> replicate (2 ^ m) None | Some e \<Rightarrow> (replicate (2 ^ m) None)[length xs := Some e])" for e
  have t: "take (length xs) (slots v) = map Some xs" using h by (simp add: holds_items_def)
  have c: "capacity fit (u\<lparr>slots := z\<rparr>) = 2 ^ m" "size_internal (u\<lparr>slots := z\<rparr>) = length xs" "\<not> is_inline (u\<lparr>slots := z\<rparr>)" for z
    using u by (simp_all add: capacity_def is_inline_def size_internal_def)
  have run: "Grow fit n e v = Some (u\<lparr>slots := dst e\<rparr>)" for e
    using h m(2) u(1) c(1) t by (simp add: Grow_def holds_items_def w_def[symmetric] dst_def Let_def)
  define q where "q = 2 ^ m - Suc (length xs)"
  have q: "2 ^ m = length xs + Suc q" "2 ^ m - length xs = Suc q" using len by (simp_all add: q_def)
  have "replicate (2 ^ m) None = replicate (length xs) None @ None # replicate q (None :: 'a option)" unfolding q(1) replicate_add by simp
  then have r: "dst None = map Some xs @ replicate (2 ^ m - length xs) None" "dst (Some e) = map Some (xs @ [e]) @ replicate (2 ^ m - Suc (length xs)) None" for e
    using put_slots_split[of "[]" 0 "replicate (length xs) None" "map Some xs"]
    by (simp_all add: dst_def list_update_append q(2) q_def[symmetric])
  show "\<exists>v'. Grow fit n None v = Some v' \<and> holds_items fit v' xs \<and> n \<le> capacity fit v'"
    using run c r(1) len m(4) h by (simp add: holds_items_def)
  show "\<exists>v'. Grow fit n (Some e) v = Some v' \<and> size_internal v' = length xs \<and> n \<le> capacity fit v' \<and> \<not> is_inline v'
      \<and> slots v' = map Some (xs @ [e]) @ replicate (capacity fit v' - Suc (length xs)) None"
    using run c r(2)[of e] m(4) by simp
qed

subsection \<open>The operations\<close>

lemma new_holds: "fit < kSentinel \<Longrightarrow> holds_items fit (ivec_new fit) []" "fit < kSentinel \<Longrightarrow> holds_items fit (ivec_clear fit v) []"
  by (simp_all add: holds_items_def ivec_new_def ivec_clear_def size_internal_def capacity_def is_inline_def kSentinel_def Let_def)

lemma destroy_split: "length a = i \<Longrightarrow> length b = n \<Longrightarrow> destroy i n (a @ b @ c) = a @ replicate n None @ c"
  by (simp add: destroy_def put_slots_split)

lemma holds_slot: "holds_items fit v xs \<Longrightarrow> i < length xs \<Longrightarrow> slots v ! i = Some (xs ! i)"
  by (simp add: holds_items_def nth_append)

lemma reserve_ok:
  assumes "holds_items fit v xs" and "n \<le> 2 ^ 47"
  shows "\<exists>v'. reserve fit n v = Some v' \<and> holds_items fit v' xs \<and> n \<le> capacity fit v'"
proof (cases "capacity fit v < n")
  case True
  then have "length xs < n" using assms(1) by (simp add: holds_items_def)
  then show ?thesis using Grow_ok(1)[OF assms] True by (simp add: reserve_def)
qed (use assms in \<open>simp add: reserve_def\<close>)

lemma push_back_ok:
  assumes h: "holds_items fit v xs" and l: "length xs < 2 ^ 47" and x: "read_arg t v = Some x"
  shows "\<exists>v'. push_back fit t v = Some v' \<and> holds_items fit v' (xs @ [x])"
proof (cases "length xs < capacity fit v")
  case True
  then obtain q where q: "capacity fit v - length xs = Suc q" "capacity fit v - Suc (length xs) = q" by (metis Suc_diff_Suc)
  have "(slots v)[length xs := Some x] = map Some (xs @ [x]) @ replicate (capacity fit v - length (xs @ [x])) None"
    using h q by (simp add: holds_items_def list_update_append)
  from set_items[OF h _ _ this] True l obtain v' where "set_size_internal (length (xs @ [x])) (v\<lparr>slots := (slots v)[length xs := Some x]\<rparr>) = Some v'"
      "holds_items fit v' (xs @ [x])" by auto
  then show ?thesis using h x True by (simp add: push_back_def holds_items_def)
next
  case False
  obtain u where u: "Grow fit (length xs + 1) (Some x) v = Some u" "size_internal u = length xs" "length xs + 1 \<le> capacity fit u" "\<not> is_inline u"
      "slots u = map Some (xs @ [x]) @ replicate (capacity fit u - Suc (length xs)) None"
    using Grow_ok(2)[OF h, of "length xs + 1" x] l by auto
  obtain v' where "set_size_internal (length xs + 1) u = Some v'" "slots v' = slots u" "size_internal v' = length xs + 1" "capacity fit v' = capacity fit u"
    using set_size_ok[of u "length xs + 1" fit] u(4) l by auto
  then show ?thesis using h x False u l by (simp add: push_back_def holds_items_def)
qed

lemma pop_back_ok:
  assumes h: "holds_items fit v (xs @ [x])"
  shows "\<exists>v'. pop_back v = Some v' \<and> holds_items fit v' xs"
proof -
  have c: "capacity fit v - length xs = Suc (capacity fit v - Suc (length xs))" "Suc (length xs) \<le> capacity fit v" "Suc (length xs) \<le> 2 ^ 47"
    using h by (simp_all add: holds_items_def Suc_diff_Suc)
  have "destroy (length xs) 1 (slots v) = map Some xs @ replicate (capacity fit v - length xs) None"
    using h destroy_split[of "map Some xs" "length xs" "[Some x]" 1 "replicate (capacity fit v - Suc (length xs)) None"]
    by (simp add: holds_items_def c(1))
  from set_items[OF h _ _ this] c show ?thesis using h by (auto simp: pop_back_def holds_items_def)
qed

lemma ivec_at_ok: "holds_items fit v xs \<Longrightarrow> ivec_at i v = (if i < length xs then Some (xs ! i) else None)"
  using holds_slot[of fit v xs i] by (auto simp: ivec_at_def holds_items_def)

lemma ivec_set_ok:
  assumes h: "holds_items fit v xs" and "i < length xs"
  shows "\<exists>v'. ivec_set i x v = Some v' \<and> holds_items fit v' (xs[i := x])"
  using assms by (simp add: ivec_set_def holds_items_def list_update_append map_update)

lemma ivec_Resize_ok:
  assumes h: "holds_items fit v xs" and n: "n \<le> 2 ^ 47"
  shows "\<exists>v'. ivec_Resize fit n e v = Some v' \<and> holds_items fit v' (take n xs @ replicate (n - length xs) e)"
proof (cases "n \<le> length xs")
  case True
  have c: "length xs \<le> capacity fit v" "size_internal v = length xs" using h by (simp_all add: holds_items_def)
  have "slots v = map Some (take n xs) @ map Some (drop n xs) @ replicate (capacity fit v - length xs) None"
    using h by (simp add: holds_items_def flip: map_append)
  then have "destroy n (length xs - n) (slots v) = map Some (take n xs) @ replicate (length xs - n) None @ replicate (capacity fit v - length xs) None"
    using True by (simp add: destroy_split)
  also have "\<dots> = map Some (take n xs) @ replicate (capacity fit v - length (take n xs)) None"
    using True c(1) by (simp flip: replicate_add)
  finally have "destroy n (length xs - n) (slots v) = \<dots>" .
  from set_items[OF h _ _ this] True c n show ?thesis by (auto simp: ivec_Resize_def min_absorb2)
next
  case False
  obtain u where u: "reserve fit n v = Some u" "holds_items fit u xs" "n \<le> capacity fit u" using reserve_ok[OF h n] by blast
  obtain w where w: "set_size_internal n u = Some w" "slots w = slots u" "size_internal w = n" "capacity fit w = capacity fit u" "is_inline w = is_inline u"
    using set_size_ok[of u n fit] holds_inline[OF u(2,3)] n by auto
  have s: "size_internal v = length xs" using h by (simp add: holds_items_def)
  have "capacity fit u - length xs = (n - length xs) + (capacity fit u - n)" using False u(3) by simp
  then have "slots w = map Some xs @ replicate (n - length xs) None @ replicate (capacity fit u - n) None"
    using u(2) w(2) by (simp add: holds_items_def replicate_add)
  then have "put_slots (length xs) (replicate (n - length xs) (Some e)) (slots w)
      = map Some (xs @ replicate (n - length xs) e) @ replicate (capacity fit w - n) None"
    using False w(4) by (simp add: put_slots_split)
  then show ?thesis using u w s n False h by (simp add: ivec_Resize_def holds_items_def)
qed

lemma AppendRange_ok:
  assumes h: "holds_items fit v xs" and n: "length (xs @ ys) \<le> 2 ^ 47"
  shows "\<exists>v'. AppendRange fit ys v = Some v' \<and> holds_items fit v' (xs @ ys)"
proof -
  obtain u where u: "reserve fit (length xs + length ys) v = Some u" "holds_items fit u xs" "length xs + length ys \<le> capacity fit u"
    using reserve_ok[OF h, of "length xs + length ys"] n by auto
  have "capacity fit u - length xs = length ys + (capacity fit u - length (xs @ ys))" using u(3) by simp
  then have "slots u = map Some xs @ replicate (length ys) None @ replicate (capacity fit u - length (xs @ ys)) None"
    using u(2) by (simp only: holds_items_def replicate_add)
  then have "put_slots (length xs) (map Some ys) (slots u) = map Some (xs @ ys) @ replicate (capacity fit u - length (xs @ ys)) None"
    by (simp add: put_slots_split)
  from set_items[OF u(2) _ n this] u(3) obtain v' where
    "set_size_internal (length (xs @ ys)) (u\<lparr>slots := put_slots (length xs) (map Some ys) (slots u)\<rparr>) = Some v'" "holds_items fit v' (xs @ ys)"
    by auto
  then show ?thesis using u(1) h by (simp add: AppendRange_def holds_items_def)
qed

lemma put_slots_map: "put_slots i (map f xs) (map f ys) = map f (put_slots i xs ys)"
  by (simp add: put_slots_def take_map drop_map)

lemma put_slots_append: "i + length src \<le> length a \<Longrightarrow> put_slots i src (a @ b) = put_slots i src a @ b"
  by (simp add: put_slots_def)

lemma erase_range_ok:
  assumes h: "holds_items fit v xs" and "i \<le> j" "j \<le> length xs"
  shows "\<exists>v'. erase_range i j v = Some v' \<and> holds_items fit v' (take i xs @ drop j xs) \<and> capacity fit v' = capacity fit v"
proof -
  let ?free = "replicate (capacity fit v - length xs) None"
  let ?ys = "take i xs @ drop j xs"
  have v: "slots v = map Some xs @ ?free" "size_internal v = length xs" "length xs \<le> capacity fit v" "length xs \<le> 2 ^ 47"
    using h by (simp_all add: holds_items_def)
  have k: "length ?ys = length xs - (j - i)" using assms(2,3) by simp
  define rest where "rest = drop (length xs - (j - i)) xs"
  have "put_slots i (map Some (drop j xs)) (map Some xs) = map Some (?ys @ rest)"
    using assms(2,3) by (simp add: put_slots_map) (simp add: put_slots_def rest_def add.commute)
  then have p: "put_slots i (take (length xs - j) (drop j (slots v))) (slots v) = map Some ?ys @ map Some rest @ ?free"
    using assms(2,3) by (simp add: v(1) put_slots_append drop_map)
  have "length rest = j - i" using assms(2,3) by (simp add: rest_def)
  then have "destroy (length ?ys) (j - i) (put_slots i (take (length xs - j) (drop j (slots v))) (slots v))
      = map Some ?ys @ replicate (j - i) None @ ?free"
    unfolding p by (intro destroy_split) simp_all
  also have "\<dots> = map Some ?ys @ replicate (capacity fit v - length ?ys) None"
    using k v(3) assms(2,3) by (simp flip: replicate_add)
  finally have z: "destroy (length ?ys) (j - i) (put_slots i (take (length xs - j) (drop j (slots v))) (slots v)) = \<dots>" .
  have "length ?ys \<le> capacity fit v" "length ?ys \<le> 2 ^ 47" using k v(3,4) by linarith+
  from set_items[OF h this z] show ?thesis using assms(2,3) v(2) k by (simp add: erase_range_def Let_def)
qed

lemma erase_at_ok:
  assumes h: "holds_items fit v xs" and i: "i < length xs"
  shows "\<exists>v'. erase_at i v = Some v' \<and> holds_items fit v' (take i xs @ drop (Suc i) xs)"
proof -
  let ?ys = "take i xs @ drop (Suc i) xs"
  have v: "slots v = map Some xs @ replicate (capacity fit v - length xs) None" "size_internal v = length xs" using h by (simp_all add: holds_items_def)
  have "drop (length xs - 1) xs = [last xs]" using i by (cases xs rule: rev_cases) auto
  then have "put_slots i (map Some (drop (Suc i) xs)) (map Some xs) = map Some (?ys @ [last xs])"
    using i by (simp add: put_slots_map) (simp add: put_slots_def)
  then have "put_slots i (take (length xs - (i + 1)) (drop (i + 1) (slots v))) (slots v) = map Some (?ys @ [last xs]) @ replicate (capacity fit v - length xs) None"
    using i by (simp add: v(1) put_slots_append drop_map)
  moreover have "length (?ys @ [last xs]) = length xs" using i by simp
  ultimately have "holds_items fit (v\<lparr>slots := put_slots i (take (length xs - (i + 1)) (drop (i + 1) (slots v))) (slots v)\<rparr>) (?ys @ [last xs])"
    using h unfolding holds_items_def by (simp only: slots_only ivec.select_convs ivec.update_convs) simp
  from pop_back_ok[OF this] show ?thesis using i v(2) by (simp add: erase_at_def)
qed

text \<open>The argument of \<open>insert\<close> is an object outside of the vector.\<close>

lemma insert_at_ok:
  assumes h: "holds_items fit v xs" and i: "i \<le> length xs" "length xs < 2 ^ 47"
  shows "\<exists>v'. insert_at fit i (Object x) v = Some v' \<and> holds_items fit v' (take i xs @ x # drop i xs)"
proof (cases "i = length xs")
  case True
  then show ?thesis using push_back_ok[OF h i(2), of "Object x" x] h by (simp add: insert_at_def read_arg_def holds_items_def)
next
  case False
  let ?s = "length xs"
  let ?zs = "take i xs @ x # drop i xs"
  have "\<exists>u. (if ?s = capacity fit v then Grow fit (?s + 1) None v else Some v) = Some u \<and> holds_items fit u xs \<and> ?s < capacity fit u"
    using Grow_ok(1)[OF h, of "?s + 1"] h i(2) by (cases "?s = capacity fit v") (auto simp: holds_items_def Suc_le_eq)
  then obtain u where u: "(if ?s = capacity fit v then Grow fit (?s + 1) None v else Some v) = Some u" "holds_items fit u xs" "?s < capacity fit u" by blast
  define q where "q = capacity fit u - Suc ?s"
  have q: "capacity fit u - ?s = Suc q" "capacity fit u - length ?zs = q" using u(3) i(1) by (simp_all add: q_def)
  obtain ys y where xs: "xs = ys @ [y]" "i \<le> length ys" using False i(1) by (cases xs rule: rev_cases) auto
  have s1: "(slots u)[?s := slots u ! (?s - 1)] = map Some (xs @ [last xs]) @ replicate q None"
  proof -
    have "slots u ! (?s - 1) = Some (last xs)" using holds_slot[OF u(2), of "?s - 1"] xs(1) by simp
    then show ?thesis using u(2) q(1) by (simp add: holds_items_def list_update_append)
  qed
  let ?moved = "map Some (take (?s - 1 - i) (drop i xs))" and ?all = "map Some (xs @ [last xs])"
  have "take (?s - 1 - i) (drop i (?all @ replicate q None)) = ?moved" using xs(2) by (simp add: xs(1) take_map drop_map)
  moreover have "put_slots (i + 1) ?moved (?all @ replicate q None) = put_slots (i + 1) ?moved ?all @ replicate q None"
    using False i(1) by (intro put_slots_append) simp
  moreover have "put_slots (i + 1) ?moved ?all = map Some (take (i + 1) xs @ drop i xs)"
    unfolding put_slots_map using xs(2) by (cases "i = length ys") (auto simp: put_slots_def xs(1))
  ultimately have s2: "put_slots (i + 1) (take (?s - 1 - i) (drop i (?all @ replicate q None))) (?all @ replicate q None)
      = map Some (take (i + 1) xs @ drop i xs) @ replicate q None"
    by argo
  have s3: "(map Some (take (i + 1) xs @ drop i xs) @ replicate q None)[i := Some x] = map Some ?zs @ replicate (capacity fit u - length ?zs) None"
  proof -
    have "(take (i + 1) xs)[i := x] = take i xs @ [x]" using False i(1) by (simp add: take_Suc_conv_app_nth list_update_append)
    then have "(take (i + 1) xs @ drop i xs)[i := x] = ?zs" using False i(1) by (simp add: list_update_append)
    then show ?thesis unfolding q(2) using False i(1) by (simp add: list_update_append flip: map_update map_append)
  qed
  have l: "length ?zs \<le> capacity fit u" "length ?zs \<le> 2 ^ 47" "length ?zs = ?s + 1" using u(3) i by simp_all
  have sz: "size_internal v = ?s" using h by (simp add: holds_items_def)
  from set_items[OF u(2) l(1,2) s3] obtain v' where "set_size_internal (?s + 1) (u\<lparr>slots := (map Some (take (i + 1) xs @ drop i xs) @ replicate q None)[i := Some x]\<rparr>) = Some v'"
    "holds_items fit v' ?zs" unfolding l(3) by blast
  then show ?thesis using u(1,3) False i(1) s1 s2 by (simp add: insert_at_def sz Let_def read_arg_def)
qed

text \<open>An element of the vector itself may be appended, but not inserted when the vector grows: its memory is freed.\<close>

lemma push_back_own: "holds_items fit v xs \<Longrightarrow> length xs < 2 ^ 47 \<Longrightarrow> i < length xs \<Longrightarrow>
    \<exists>v'. push_back fit (Element i) v = Some v' \<and> holds_items fit v' (xs @ [xs ! i])"
  by (rule push_back_ok) (simp_all add: read_arg_def holds_slot)

lemma insert_own_fails: "holds_items fit v xs \<Longrightarrow> length xs = capacity fit v \<Longrightarrow> i < length xs \<Longrightarrow> idx < length xs \<Longrightarrow>
    insert_at fit idx (Element i) v = None"
  by (auto simp: insert_at_def holds_items_def Let_def split: option.splits)

lemma push_all_ok: "holds_items fit v xs \<Longrightarrow> length (xs @ ys) \<le> 2 ^ 47 \<Longrightarrow>
    \<exists>v'. push_all fit (map Some ys) v = Some v' \<and> holds_items fit v' (xs @ ys)"
proof (induction ys arbitrary: v xs)
  case (Cons y ys)
  obtain u where "push_back fit (Object y) v = Some u" "holds_items fit u (xs @ [y])"
    using push_back_ok[OF Cons(2), of "Object y" y] Cons(3) by (auto simp: read_arg_def)
  then show ?case using Cons(1)[of u "xs @ [y]"] Cons(3) by simp
qed simp

lemma overwrite:
  assumes "holds_items fit v xs" and "length ys = length xs"
  shows "holds_items fit (v\<lparr>slots := put_slots 0 (map Some ys) (slots v)\<rparr>) ys"
  using assms by (simp add: holds_items_def put_slots_def)

lemma assign_ok:
  assumes u: "holds_items fit u ys" and v: "holds_items fit v xs"
  shows "\<exists>v'. ivec_assign fit u v = Some v' \<and> holds_items fit v' ys"
proof -
  have l: "length ys \<le> 2 ^ 47" "size_internal u = length ys" "size_internal v = length xs" using u v by (simp_all add: holds_items_def)
  have t: "take n (slots u) = map Some (take n ys)" "take m (drop n (slots u)) = map Some (take m (drop n ys))" if "n + m \<le> length ys" for n m
    using u that by (simp_all add: holds_items_def take_map drop_map)
  show ?thesis
  proof (cases "length xs < length ys")
    case True
    obtain w where w: "reserve fit (length ys) v = Some w" "holds_items fit w xs" using reserve_ok[OF v l(1)] by blast
    have "length (take (length xs) ys) = length xs" using True by simp
    from overwrite[OF w(2) this] have "holds_items fit (w\<lparr>slots := put_slots 0 (take (length xs) (slots u)) (slots w)\<rparr>) (take (length xs) ys)"
      using t(1)[of "length xs" 0] True by simp
    from push_all_ok[OF this, of "drop (length xs) ys"] show ?thesis
      using w(1) l True t(2)[of "length xs" "length ys - length xs"] by (auto simp: ivec_assign_def)
  next
    case False
    obtain w where w: "erase_range (length ys) (length xs) v = Some w" "holds_items fit w (take (length ys) xs @ [])"
      using erase_range_ok[OF v, of "length ys" "length xs"] False by auto
    from overwrite[OF w(2), of ys] show ?thesis using w(1) l False t(1)[of "length ys" 0] by (simp add: ivec_assign_def)
  qed
qed

lemma copy_ok: "holds_items fit u ys \<Longrightarrow> \<exists>v. ivec_copy fit u = Some v \<and> holds_items fit v ys"
  unfolding ivec_copy_def by (rule assign_ok[OF _ new_holds(1)]) (simp_all add: holds_items_def)

lemma fill_ok:
  assumes "fit < kSentinel" and "n \<le> 2 ^ 47"
  shows "\<exists>v. ivec_fill fit n e = Some v \<and> holds_items fit v (replicate n e)"
proof -
  let ?v = "ivec_new fit :: 'a ivec"
  have s: "size_internal ?v = 0" using new_holds(1)[OF assms(1), where ?'a = 'a] by (simp add: holds_items_def)
  obtain v where v: "ivec_Resize fit n e ?v = Some v" "holds_items fit v (replicate n e)"
    using ivec_Resize_ok[OF new_holds(1)[OF assms(1)] assms(2), of e] by auto
  show ?thesis
  proof (cases "n = 0")
    case True
    then show ?thesis using v s by (simp add: ivec_Resize_def ivec_fill_def destroy_def put_slots_def)
  next
    case False
    obtain u where "reserve fit n ?v = Some u" "n \<le> capacity fit u" using reserve_ok[OF new_holds(1)[OF assms(1)] assms(2)] by blast
    then show ?thesis using v s False by (auto simp: ivec_Resize_def ivec_fill_def reserve_def split: option.splits)
  qed
qed

lemma swap_elements_ok:
  assumes a: "holds_items fit a xs" and b: "holds_items fit b ys" and l: "length ys \<le> length xs"
  shows "\<exists>a' b'. swap_elements fit a b = Some (a', b') \<and> holds_items fit a' ys \<and> holds_items fit b' xs"
proof -
  have sizes: "size_internal a = length xs" "size_internal b = length ys" and n: "length xs \<le> 2 ^ 47" using a b by (simp_all add: holds_items_def)
  obtain c where c: "(if capacity fit b < length xs then Grow fit (length xs) None b else Some b) = Some c" "holds_items fit c ys" "length xs \<le> capacity fit c"
    using reserve_ok[OF b n] by (auto simp: reserve_def)
  have sa: "slots a = map Some (take (length ys) xs) @ map Some (drop (length ys) xs) @ replicate (capacity fit a - length xs) None"
    using a by (simp add: holds_items_def flip: map_append)
  have sc: "slots c = map Some ys @ replicate (length xs - length ys) None @ replicate (capacity fit c - length xs) None"
    using c(2,3) l by (simp add: holds_items_def flip: replicate_add)
  have tx: "take (length xs) (slots a) = map Some xs" "take (length ys) (slots c) = map Some ys" using a c(2) by (simp_all add: holds_items_def)
  have "put_slots 0 (map Some ys) (slots a) = map Some ys @ map Some (drop (length ys) xs) @ replicate (capacity fit a - length xs) None"
    unfolding sa using l put_slots_split[of "[]" 0 "map Some (take (length ys) xs)" "map Some ys"] by simp
  then have "destroy (length ys) (length xs - length ys) (put_slots 0 (map Some ys) (slots a))
      = map Some ys @ replicate (length xs - length ys) None @ replicate (capacity fit a - length xs) None"
    by (simp add: destroy_split)
  also have "\<dots> = map Some ys @ replicate (capacity fit a - length ys) None" using l a by (simp add: holds_items_def flip: replicate_add)
  finally have za: "destroy (length ys) (length xs - length ys) (put_slots 0 (map Some ys) (slots a)) = \<dots>" .
  have zc: "put_slots 0 (map Some xs) (slots c) = map Some xs @ replicate (capacity fit c - length xs) None"
    unfolding sc using l put_slots_split[of "[]" 0 "map Some ys @ replicate (length xs - length ys) None" "map Some xs"] by simp
  have "length ys \<le> capacity fit a" "length ys \<le> 2 ^ 47" using a l by (simp_all add: holds_items_def)
  from set_items[OF a this za] set_items[OF c(2,3) n zc] show ?thesis
    using c(1) by (auto simp: swap_elements_def sizes tx Let_def)
qed

lemma swap_ok:
  assumes a: "holds_items fit a xs" and b: "holds_items fit b ys"
  shows "\<exists>a' b'. ivec_swap fit a b = Some (a', b') \<and> holds_items fit a' ys \<and> holds_items fit b' xs"
proof -
  have "size_internal a = length xs" "size_internal b = length ys" using a b by (simp_all add: holds_items_def)
  then show ?thesis using swap_elements_ok[OF a b] swap_elements_ok[OF b a] a b by (auto simp: ivec_swap_def)
qed

lemma eq_ok: "holds_items fit a xs \<Longrightarrow> holds_items fit b ys \<Longrightarrow> ivec_eq a b \<longleftrightarrow> xs = ys"
  by (auto simp: ivec_eq_def holds_items_def dest: map_injective)

subsection \<open>A vector stands for a list\<close>

datatype 'a vec_op = VPush 'a | VPop | VSet nat 'a | VInsert nat 'a | VErase nat | VEraseRange nat nat | VResize nat 'a | VReserve nat | VAppend "'a list" | VClear

fun vec_step :: "nat \<Rightarrow> 'a vec_op \<Rightarrow> 'a ivec \<Rightarrow> 'a ivec option" where
  "vec_step fit (VPush x) v = push_back fit (Object x) v"
| "vec_step fit VPop v = pop_back v"
| "vec_step fit (VSet i x) v = ivec_set i x v"
| "vec_step fit (VInsert i x) v = insert_at fit i (Object x) v"
| "vec_step fit (VErase i) v = erase_at i v"
| "vec_step fit (VEraseRange i j) v = erase_range i j v"
| "vec_step fit (VResize n x) v = ivec_Resize fit n x v"
| "vec_step fit (VReserve n) v = reserve fit n v"
| "vec_step fit (VAppend ys) v = AppendRange fit ys v"
| "vec_step fit VClear v = Some (ivec_clear fit v)"

fun list_step :: "'a vec_op \<Rightarrow> 'a list \<Rightarrow> 'a list" where
  "list_step (VPush x) xs = xs @ [x]"
| "list_step VPop xs = butlast xs"
| "list_step (VSet i x) xs = xs[i := x]"
| "list_step (VInsert i x) xs = take i xs @ x # drop i xs"
| "list_step (VErase i) xs = take i xs @ drop (Suc i) xs"
| "list_step (VEraseRange i j) xs = take i xs @ drop j xs"
| "list_step (VResize n x) xs = take n xs @ replicate (n - length xs) x"
| "list_step (VReserve n) xs = xs"
| "list_step (VAppend ys) xs = xs @ ys"
| "list_step VClear xs = []"

fun vec_ok :: "'a vec_op \<Rightarrow> 'a list \<Rightarrow> bool" where
  "vec_ok VPop xs \<longleftrightarrow> xs \<noteq> []"
| "vec_ok (VSet i x) xs \<longleftrightarrow> i < length xs"
| "vec_ok (VInsert i x) xs \<longleftrightarrow> i \<le> length xs \<and> length xs < 2 ^ 47"
| "vec_ok (VErase i) xs \<longleftrightarrow> i < length xs"
| "vec_ok (VEraseRange i j) xs \<longleftrightarrow> i \<le> j \<and> j \<le> length xs"
| "vec_ok (VReserve n) xs \<longleftrightarrow> n \<le> 2 ^ 47"
| "vec_ok p xs \<longleftrightarrow> length (list_step p xs) \<le> 2 ^ 47"

interpretation inlined_vector: simulation "vec_step fit" "holds_items fit" list_step vec_ok for fit
proof
  fix v xs and p :: "'a vec_op"
  assume h: "holds_items fit v xs" and ok: "vec_ok p xs"
  show "\<exists>v'. vec_step fit p v = Some v' \<and> holds_items fit v' (list_step p xs)"
  proof (cases p)
    case (VPush x)
    then show ?thesis using push_back_ok[OF h, of "Object x" x] ok by (simp add: read_arg_def)
  next
    case VPop
    then show ?thesis using pop_back_ok[of fit v "butlast xs" "last xs"] h ok by simp
  next
    case (VResize n x)
    then have "n \<le> 2 ^ 47" using ok by (cases "n \<le> length xs") (use h in \<open>simp_all add: holds_items_def\<close>)
    then show ?thesis using ivec_Resize_ok[OF h] VResize by simp
  next
    case (VEraseRange i j)
    then show ?thesis using erase_range_ok[OF h, of i j] ok by auto
  next
    case (VReserve n)
    then show ?thesis using reserve_ok[OF h, of n] ok by auto
  next
    case VClear
    then show ?thesis using new_holds(2)[of fit v] h by (simp add: holds_items_def)
  qed (use ok ivec_set_ok[OF h] insert_at_ok[OF h] erase_at_ok[OF h] AppendRange_ok[OF h] in simp_all)
qed

text \<open>What a client reads, and two vectors after any operations on them.\<close>

definition reads_like :: "'a ivec \<Rightarrow> 'a list \<Rightarrow> bool" where
  "reads_like v xs \<longleftrightarrow> size_internal v = length xs \<and> (\<forall>i. ivec_at i v = (if i < length xs then Some (xs ! i) else None))"

lemma holds_reads: "holds_items fit v xs \<Longrightarrow> reads_like v xs"
  using ivec_at_ok[of fit v xs] by (simp add: reads_like_def holds_items_def)

lemma vector_runs:
  assumes "fit < kSentinel" and "allowed vec_ok list_step ps []"
  shows "\<exists>v. run_ops (vec_step fit) ps (ivec_new fit) = Some v \<and> holds_items fit v (fold list_step ps [])"
  using inlined_vector.runs[OF new_holds(1)[OF assms(1)] assms(2)] .

end
