(* ===== verification/Histogram.thy ===== *)
theory Histogram
  imports Fp Simulation
begin

text \<open>
  Histograms: tensorflow/core/lib/histogram/histogram.cc. All numbers are doubles, the counts as well. The message
  of the protocol buffer is the record of its fields. \<open>None\<close> is a write behind the last bucket or, in the constructor,
  an assertion that fails.
\<close>

subsection \<open>The code\<close>


definition DBL_MAX :: fp where "DBL_MAX = Fin (2 ^ 1024 - 2 ^ 971)"

record Histogram =
  hist_min :: fp
  hist_max :: fp
  hist_num :: fp
  hist_sum :: fp
  hist_sum_squares :: fp
  bucket_limits :: "fp list"
  buckets :: "fp list"

definition hist_Clear :: "Histogram \<Rightarrow> Histogram option" where
  "hist_Clear h = (if bucket_limits h = [] then None
     else Some (h\<lparr>hist_min := last (bucket_limits h), hist_max := fneg DBL_MAX, hist_num := Fin 0, hist_sum := Fin 0,
       hist_sum_squares := Fin 0, buckets := replicate (length (bucket_limits h)) (Fin 0)\<rparr>))"

text \<open>The limits of a new histogram are strictly increasing.\<close>

definition Histogram_new :: "fp list \<Rightarrow> Histogram option" where
  "Histogram_new custom = (if custom = [] \<or> \<not> (\<forall>i \<in> set [1..<length custom]. flt (custom ! (i - 1)) (custom ! i)) then None
     else hist_Clear \<lparr>hist_min = Fin 0, hist_max = Fin 0, hist_num = Fin 0, hist_sum = Fin 0, hist_sum_squares = Fin 0,
       bucket_limits = custom, buckets = []\<rparr>)"

text \<open>\<open>std::upper_bound\<close>: the first element that is greater.\<close>

definition upper_bound :: "fp list \<Rightarrow> fp \<Rightarrow> nat" where
  "upper_bound limits v = length (takeWhile (\<lambda>l. \<not> flt v l) limits)"

definition hist_Add :: "fp \<Rightarrow> Histogram \<Rightarrow> Histogram option" where
  "hist_Add v h = (let b = upper_bound (bucket_limits h) v in
     if length (buckets h) \<le> b then None
     else Some (h\<lparr>buckets := (buckets h)[b := dadd (buckets h ! b) (Fin 1)],
       hist_min := (if flt v (hist_min h) then v else hist_min h), hist_max := (if flt (hist_max h) v then v else hist_max h),
       hist_num := dadd (hist_num h) (Fin 1), hist_sum := dadd (hist_sum h) v,
       hist_sum_squares := dadd (hist_sum_squares h) (dmul v v)\<rparr>))"

definition Remap :: "fp \<Rightarrow> fp \<Rightarrow> fp \<Rightarrow> fp \<Rightarrow> fp \<Rightarrow> fp" where
  "Remap x x0 x1 y0 y1 = dadd y0 (dmul (ddiv (dsub x x0) (dsub x1 x0)) (dsub y1 y0))"

text \<open>\<open>std::max\<close> and \<open>std::min\<close>.\<close>

definition std_max :: "fp \<Rightarrow> fp \<Rightarrow> fp" where "std_max a b = (if flt a b then b else a)"

definition std_min :: "fp \<Rightarrow> fp \<Rightarrow> fp" where "std_min a b = (if flt b a then b else a)"

text \<open>The loop of \<open>Percentile\<close> over the limits and counts from \<open>i\<close> on, with the limit \<open>i - 1\<close>.\<close>

fun percentile_loop :: "fp \<Rightarrow> fp \<Rightarrow> fp \<Rightarrow> fp option \<Rightarrow> (fp \<times> fp) list \<Rightarrow> fp \<Rightarrow> fp" where
  "percentile_loop lo hi threshold before [] cumsum_prev = hi"
| "percentile_loop lo hi threshold before ((limit, count) # r) cumsum_prev = (let cumsum = dadd cumsum_prev count in
     if fle threshold cumsum
     then if feq cumsum cumsum_prev then percentile_loop lo hi threshold (Some limit) r cumsum_prev
       else let lhs = (case before of None \<Rightarrow> lo | Some l \<Rightarrow> if feq cumsum_prev (Fin 0) then lo else l);
                lhs = std_max lhs lo; rhs = std_min limit hi in
         Remap threshold cumsum_prev cumsum lhs rhs
     else percentile_loop lo hi threshold (Some limit) r cumsum)"

definition Percentile :: "fp \<Rightarrow> Histogram \<Rightarrow> fp" where
  "Percentile p h = (if feq (hist_num h) (Fin 0) then Fin 0
     else percentile_loop (hist_min h) (hist_max h) (dmul (hist_num h) (ddiv p (Fin 100))) None (zip (bucket_limits h) (buckets h)) (Fin 0))"

definition Median :: "Histogram \<Rightarrow> fp" where "Median h = Percentile (Fin 50) h"

definition Average :: "Histogram \<Rightarrow> fp" where
  "Average h = (if feq (hist_num h) (Fin 0) then Fin 0 else ddiv (hist_sum h) (hist_num h))"

definition StandardDeviation :: "Histogram \<Rightarrow> fp" where
  "StandardDeviation h = (if feq (hist_num h) (Fin 0) then Fin 0
     else fsqrt binary64 (ddiv (dsub (dmul (hist_sum_squares h) (hist_num h)) (dmul (hist_sum h) (hist_sum h))) (dmul (hist_num h) (hist_num h))))"

record HistogramProto =
  proto_min :: fp
  proto_max :: fp
  proto_num :: fp
  proto_sum :: fp
  proto_sum_squares :: fp
  proto_bucket_limit :: "fp list"
  proto_bucket :: "fp list"

text \<open>The loop of \<open>EncodeToProto\<close>: a run of empty buckets becomes its last one.\<close>

function encode_buckets :: "bool \<Rightarrow> (fp \<times> fp) list \<Rightarrow> (fp \<times> fp) list" where
  "encode_buckets preserve [] = []"
| "encode_buckets preserve ((e, count) # r) = (if \<not> preserve \<and> fle count (Fin 0)
     then last ((e, count) # takeWhile (\<lambda>(e, c). fle c (Fin 0)) r) # encode_buckets preserve (dropWhile (\<lambda>(e, c). fle c (Fin 0)) r)
     else (e, count) # encode_buckets preserve r)"
  by pat_completeness auto
termination by (relation "measure (\<lambda>(p, xs). length xs)") (auto simp: le_imp_less_Suc length_dropWhile_le)

definition EncodeToProto :: "bool \<Rightarrow> Histogram \<Rightarrow> HistogramProto" where
  "EncodeToProto preserve_zero_buckets h = (let bs = encode_buckets preserve_zero_buckets (zip (bucket_limits h) (buckets h));
     bs = (if bs = [] then [(DBL_MAX, Fin 0)] else bs) in
     \<lparr>proto_min = hist_min h, proto_max = hist_max h, proto_num = hist_num h, proto_sum = hist_sum h,
      proto_sum_squares = hist_sum_squares h, proto_bucket_limit = map fst bs, proto_bucket = map snd bs\<rparr>)"

text \<open>The result and the histogram, which stays as it was when the result is \<open>False\<close>.\<close>

definition DecodeFromProto :: "HistogramProto \<Rightarrow> Histogram \<Rightarrow> bool \<times> Histogram" where
  "DecodeFromProto p h = (if length (proto_bucket p) \<noteq> length (proto_bucket_limit p) \<or> length (proto_bucket p) = 0 then (False, h)
     else (True, \<lparr>hist_min = proto_min p, hist_max = proto_max p, hist_num = proto_num p, hist_sum = proto_sum p,
       hist_sum_squares = proto_sum_squares p, bucket_limits = proto_bucket_limit p, buckets = proto_bucket p\<rparr>))"

subsection \<open>Counts\<close>

definition count_fp :: "nat \<Rightarrow> fp" where "count_fp n = Fin (of_nat n)"

lemma count_add: "m + n \<le> 2 ^ 53 \<Longrightarrow> dadd (count_fp m) (count_fp n) = count_fp (m + n)"
  using dbl.rnd_of_int[of "int (m + n)"] by (simp add: count_fp_def)

lemma count_simps [simp]: "feq (count_fp m) (count_fp n) \<longleftrightarrow> m = n" "fle (count_fp m) (Fin 0) \<longleftrightarrow> m = 0" "count_fp 0 = Fin 0"
  by (auto simp: count_fp_def fle_def)

text \<open>Every bucket holds the number of values from its lower to its upper limit, and \<open>num_\<close> the number of all.\<close>

definition in_bucket :: "fp list \<Rightarrow> fp list \<Rightarrow> nat \<Rightarrow> nat" where
  "in_bucket limits vs i = length (filter (\<lambda>v. upper_bound limits v = i) vs)"

definition counts_values :: "fp list \<Rightarrow> Histogram \<Rightarrow> fp list \<Rightarrow> bool" where
  "counts_values limits h vs \<longleftrightarrow> bucket_limits h = limits \<and> length vs \<le> 2 ^ 53 \<and> hist_num h = count_fp (length vs)
     \<and> buckets h = map (\<lambda>i. count_fp (in_bucket limits vs i)) [0..<length limits]
     \<and> (\<forall>v \<in> set vs. upper_bound limits v < length limits)"

text \<open>A value below the last limit has a bucket; the last limit itself, greater values and NaN have none.\<close>

lemma upper_bound_less: "upper_bound limits v < length limits \<longleftrightarrow> (\<exists>l \<in> set limits. flt v l)"
proof -
  have "upper_bound limits v = length limits \<longleftrightarrow> (\<forall>l \<in> set limits. \<not> flt v l)"
    unfolding upper_bound_def by (metis takeWhile_eq_all_conv takeWhile_eq_take take_all_iff order_refl length_takeWhile_le le_antisym)
  moreover have "upper_bound limits v \<le> length limits" by (simp add: upper_bound_def length_takeWhile_le)
  ultimately show ?thesis by fastforce
qed

lemma upper_bound_found:
  assumes "upper_bound limits v < length limits"
  shows "flt v (limits ! upper_bound limits v)" and "\<And>j. j < upper_bound limits v \<Longrightarrow> \<not> flt v (limits ! j)"
proof -
  show "flt v (limits ! upper_bound limits v)" using nth_length_takeWhile[of "\<lambda>l. \<not> flt v l" limits] assms by (simp add: upper_bound_def)
  show "\<not> flt v (limits ! j)" if "j < upper_bound limits v" for j
    using that nth_mem[of j "takeWhile (\<lambda>l. \<not> flt v l) limits"] by (auto simp: upper_bound_def takeWhile_nth dest: set_takeWhileD)
qed

lemma new_counts:
  assumes "limits \<noteq> []" and "\<forall>i \<in> set [1..<length limits]. flt (limits ! (i - 1)) (limits ! i)"
  shows "\<exists>h. Histogram_new limits = Some h \<and> counts_values limits h []"
  using assms by (simp add: Histogram_new_def hist_Clear_def counts_values_def in_bucket_def map_replicate_const)

lemma Clear_counts: "counts_values limits h vs \<Longrightarrow> limits \<noteq> [] \<Longrightarrow> \<exists>h'. hist_Clear h = Some h' \<and> counts_values limits h' []"
  by (simp add: hist_Clear_def counts_values_def in_bucket_def map_replicate_const)

lemma Add_counts:
  assumes h: "counts_values limits h vs" and l: "length vs < 2 ^ 53" and v: "\<exists>l \<in> set limits. flt v l"
  shows "\<exists>h'. hist_Add v h = Some h' \<and> counts_values limits h' (vs @ [v])"
proof -
  let ?b = "upper_bound limits v"
  have b: "?b < length limits" using v upper_bound_less by blast
  have le: "in_bucket limits vs i \<le> length vs" for i by (simp add: in_bucket_def)
  have one: "dadd (count_fp n) (Fin 1) = count_fp (n + 1)" if "n \<le> length vs" for n
    using count_add[of n 1] that l by (simp add: count_fp_def)
  have "(map (\<lambda>i. count_fp (in_bucket limits vs i)) [0..<length limits])[?b := count_fp (in_bucket limits vs ?b + 1)]
      = map (\<lambda>i. count_fp (in_bucket limits (vs @ [v]) i)) [0..<length limits]"
    using b by (intro nth_equalityI) (auto simp: in_bucket_def nth_list_update)
  then show ?thesis using h b l one[OF le[of ?b]] one[of "length vs"]
    by (simp add: hist_Add_def counts_values_def Let_def)
qed

lemma Add_outside: "\<not> (\<exists>l \<in> set (bucket_limits h). flt v l) \<Longrightarrow> length (buckets h) \<le> length (bucket_limits h) \<Longrightarrow> hist_Add v h = None"
  using upper_bound_less[of "bucket_limits h" v] by (simp add: hist_Add_def Let_def)

interpretation histogram: simulation hist_Add "counts_values limits" "\<lambda>v vs. vs @ [v]"
  "\<lambda>v vs. length vs < 2 ^ 53 \<and> (\<exists>l \<in> set limits. flt v l)" for limits
  by unfold_locales (rule Add_counts; blast)

subsection \<open>Saving a histogram without its empty buckets\<close>

lemma counted_total:
  assumes "\<forall>v \<in> set vs. upper_bound limits v < n"
  shows "(\<Sum>i < n. in_bucket limits vs i) = length vs"
  using assms
proof (induction vs)
  case (Cons v vs)
  have "in_bucket limits (v # vs) i = (if i = upper_bound limits v then 1 else 0) + in_bucket limits vs i" for i
    by (auto simp: in_bucket_def)
  then show ?case using Cons by (simp add: sum.distrib)
qed (simp add: in_bucket_def)

text \<open>Counts that stay exact when they are added to \<open>k\<close>.\<close>

fun exact_counts :: "nat \<Rightarrow> (fp \<times> fp) list \<Rightarrow> bool" where
  "exact_counts k [] \<longleftrightarrow> k \<le> 2 ^ 53"
| "exact_counts k ((l, c) # r) \<longleftrightarrow> (\<exists>n. c = count_fp n \<and> k + n \<le> 2 ^ 53 \<and> exact_counts (k + n) r)"

lemma percentile_skips:
  assumes "\<forall>(l, c) \<in> set zs. c = Fin 0" and "k \<le> 2 ^ 53"
  shows "percentile_loop lo hi t before (zs @ r) (count_fp k)
    = percentile_loop lo hi t (if zs = [] then before else Some (fst (last zs))) r (count_fp k)"
  using assms(1)
proof (induction zs arbitrary: before)
  case (Cons z zs)
  obtain l where z: "z = (l, Fin 0)" using Cons(2) by (cases z) auto
  have s: "dadd (count_fp k) (Fin 0) = count_fp k" using count_add[of k 0] assms(2) by simp
  show ?case using Cons(1)[of "Some l"] Cons(2) s by (auto simp: z Let_def)
qed simp

lemma exact_zeros:
  "exact_counts k xs \<Longrightarrow> (\<forall>(l, c) \<in> set (takeWhile (\<lambda>(e, c). fle c (Fin 0)) xs). c = Fin 0)
    \<and> exact_counts k (dropWhile (\<lambda>(e, c). fle c (Fin 0)) xs)"
proof (induction xs)
  case (Cons x xs)
  obtain l n where x: "x = (l, count_fp n)" "exact_counts (k + n) xs" using Cons(2) by (cases x) auto
  show ?case
  proof (cases "n = 0")
    case True
    have "fle (Fin 0) (Fin 0)" by (simp add: fle_def)
    then show ?thesis using True Cons(1) x by auto
  next
    case False
    then show ?thesis using Cons(2) x by simp
  qed
qed simp

lemma exact_bound: "exact_counts k xs \<Longrightarrow> k \<le> 2 ^ 53"
  by (cases xs) (auto dest: add_leD1)

lemma percentile_encoded:
  "exact_counts k xs \<Longrightarrow> percentile_loop lo hi t before (encode_buckets preserve xs) (count_fp k) = percentile_loop lo hi t before xs (count_fp k)"
proof (induction preserve xs arbitrary: before k rule: encode_buckets.induct)
  case (2 preserve e c r)
  let ?empty = "\<lambda>(e, c). fle c (Fin 0)"
  have k: "k \<le> 2 ^ 53" using exact_bound[OF 2(3)] .
  obtain n where n: "c = count_fp n" "k + n \<le> 2 ^ 53" "exact_counts (k + n) r" using 2(3) by auto
  show ?case
  proof (cases "\<not> preserve \<and> fle c (Fin 0)")
    case True
    then have c: "c = Fin 0" "n = 0" using n(1) by auto
    define zs where "zs = (e, c) # takeWhile ?empty r"
    have zs: "\<forall>(l, c) \<in> set zs. c = Fin 0" "exact_counts k (dropWhile ?empty r)" "zs \<noteq> []"
      using exact_zeros[of k r] n(3) c by (auto simp: zs_def)
    have lz: "\<forall>(l, c) \<in> set [last zs]. c = Fin 0" using zs(1,3) last_in_set[of zs] by auto
    have "percentile_loop lo hi t before (encode_buckets preserve ((e, c) # r)) (count_fp k)
        = percentile_loop lo hi t before ([last zs] @ encode_buckets preserve (dropWhile ?empty r)) (count_fp k)"
      using True by (simp add: zs_def)
    also have "\<dots> = percentile_loop lo hi t (Some (fst (last zs))) (encode_buckets preserve (dropWhile ?empty r)) (count_fp k)"
      using percentile_skips[OF lz k, of lo hi t before "encode_buckets preserve (dropWhile ?empty r)"] by simp
    also have "\<dots> = percentile_loop lo hi t (Some (fst (last zs))) (dropWhile ?empty r) (count_fp k)" by (rule 2(1)[OF True zs(2)])
    also have "\<dots> = percentile_loop lo hi t before (zs @ dropWhile ?empty r) (count_fp k)"
      using percentile_skips[OF zs(1) k] zs(3) by simp
    finally show ?thesis by (simp add: zs_def)
  next
    case False
    have e: "encode_buckets preserve ((e, c) # r) = (e, c) # encode_buckets preserve r"
      unfolding encode_buckets.simps(2) if_not_P[OF False] ..
    have a: "dadd (count_fp k) c = count_fp (k + n)" using count_add[OF n(2)] n(1) by simp
    show ?thesis
    proof (cases "n = 0")
      case True
      then show ?thesis using 2(2)[OF False, of k "Some e"] n(3) a unfolding e by (simp add: Let_def)
    next
      case nz: False
      then show ?thesis using 2(2)[OF False n(3), of "Some e"] a unfolding e by (simp add: Let_def)
    qed
  qed
qed simp

lemma encode_empty: "encode_buckets preserve xs = [] \<longleftrightarrow> xs = []"
  by (cases xs) (auto split: if_splits)

lemma encode_preserved: "encode_buckets True xs = xs"
  by (induction xs) auto

lemma exact_zip: "length ls = length cs \<Longrightarrow> k + sum_list cs \<le> 2 ^ 53 \<Longrightarrow> exact_counts k (zip ls (map count_fp cs))"
  by (induction ls cs arbitrary: k rule: list_induct2) (auto simp: add.assoc)

lemma counts_exact:
  assumes "counts_values limits h vs"
  shows "exact_counts 0 (zip (bucket_limits h) (buckets h))"
proof -
  have "sum_list (map (in_bucket limits vs) [0..<length limits]) = (\<Sum>i < length limits. in_bucket limits vs i)"
    by (simp add: interv_sum_list_conv_sum_set_nat atLeast0LessThan)
  also have "\<dots> = length vs" using assms by (intro counted_total) (simp add: counts_values_def)
  finally show ?thesis using assms exact_zip[of limits "map (in_bucket limits vs) [0..<length limits]" 0]
    by (simp add: counts_values_def comp_def)
qed

lemma decode_encoded:
  assumes "counts_values limits h vs" and "limits \<noteq> []"
  shows "\<exists>h'. DecodeFromProto (EncodeToProto preserve h) h0 = (True, h') \<and> (\<forall>p. Percentile p h' = Percentile p h) \<and> Average h' = Average h
    \<and> StandardDeviation h' = StandardDeviation h \<and> hist_min h' = hist_min h \<and> hist_max h' = hist_max h \<and> (preserve \<longrightarrow> h' = h)"
proof -
  let ?xs = "zip (bucket_limits h) (buckets h)"
  let ?bs = "encode_buckets preserve ?xs"
  have l: "length (buckets h) = length (bucket_limits h)" "?xs \<noteq> []" using assms by (auto simp: counts_values_def)
  then have ne: "?bs \<noteq> []" by (simp add: encode_empty)
  define h' where "h' = h\<lparr>bucket_limits := map fst ?bs, buckets := map snd ?bs\<rparr>"
  have "DecodeFromProto (EncodeToProto preserve h) h0 = (True, h')"
    using ne by (simp add: DecodeFromProto_def EncodeToProto_def h'_def Let_def)
  moreover have "Percentile p h' = Percentile p h" for p
    using percentile_encoded[OF counts_exact[OF assms(1)], of _ _ _ None preserve]
    by (simp add: Percentile_def h'_def zip_map_fst_snd)
  moreover have "h' = h" if preserve using that l(1) by (simp add: h'_def encode_preserved)
  ultimately show ?thesis by (intro exI[of _ h']) (simp add: h'_def Average_def StandardDeviation_def)
qed

lemma values_allowed: "length (ws @ vs) \<le> 2 ^ 53 \<Longrightarrow> \<forall>v \<in> set vs. \<exists>l \<in> set limits. flt v l \<Longrightarrow>
    allowed (\<lambda>v vs. length vs < 2 ^ 53 \<and> (\<exists>l \<in> set limits. flt v l)) (\<lambda>v vs. vs @ [v]) vs ws \<and> fold (\<lambda>v vs. vs @ [v]) vs ws = ws @ vs"
  by (induction vs arbitrary: ws) simp_all

lemma values_added:
  assumes "limits \<noteq> []" "\<forall>i \<in> set [1..<length limits]. flt (limits ! (i - 1)) (limits ! i)"
    and "length vs \<le> 2 ^ 53" "\<forall>v \<in> set vs. \<exists>l \<in> set limits. flt v l"
  shows "\<exists>h h'. Histogram_new limits = Some h \<and> run_ops hist_Add vs h = Some h' \<and> counts_values limits h' vs"
proof -
  obtain h where h: "Histogram_new limits = Some h" "counts_values limits h []" using new_counts[OF assms(1,2)] by blast
  show ?thesis using histogram.runs[OF h(2), of vs] values_allowed[of "[]" vs limits] assms(3,4) h(1) by auto
qed

end
