(* ===== verification/Wav.thy ===== *)
theory Wav
  imports Coding Histogram
begin

text \<open>
  Writing audio: tensorflow/core/lib/wav/wav_io.cc. Sizes are \<open>size_t\<close> of 64 bits and wrap. \<open>None\<close> is undefined
  behaviour: reading a float that is not in the buffer, writing behind the string, and converting NaN to an integer. A null
  pointer is the argument \<open>None\<close>.
\<close>

subsection \<open>Samples\<close>

text \<open>\<open>roundf\<close> rounds halves away from zero.\<close>

fun roundf :: "fp \<Rightarrow> fp" where
  "roundf (Fin q) = Fin (of_int (if 0 \<le> q then \<lfloor>q + 1 / 2\<rfloor> else \<lceil>q - 1 / 2\<rceil>))"
| "roundf x = x"

definition FloatToInt16Sample :: "fp \<Rightarrow> 16 word option" where
  "FloatToInt16Sample data = map_option of_int
     (f2i (std_min (std_max (roundf (fmul binary32 data (Fin (2 ^ 15)))) (Fin (- 32768))) (Fin 32767)))"

subsection \<open>The file\<close>

datatype wav_error = AudioIsNull | WavStringIsNull | BadSampleRate "64 word" | BadNumChannels "64 word" | BadNumFrames | CannotBeEncoded

definition wav_header :: "64 word \<Rightarrow> 64 word \<Rightarrow> 64 word \<Rightarrow> 64 word \<Rightarrow> byte list" where
  "wav_header sample_rate num_channels data_size file_size =
     [82, 73, 70, 70] @ EncodeFixed32 (ucast (file_size - 8)) @ [87, 65, 86, 69]
     @ [102, 109, 116, 32] @ EncodeFixed32 16 @ EncodeFixed16 1 @ EncodeFixed16 (ucast num_channels) @ EncodeFixed32 (ucast sample_rate)
     @ EncodeFixed32 (ucast (sample_rate * 2)) @ EncodeFixed16 (ucast (2 * num_channels)) @ EncodeFixed16 16
     @ [100, 97, 116, 97] @ EncodeFixed32 (ucast data_size)"

definition overwrite_at :: "nat \<Rightarrow> byte list \<Rightarrow> byte list \<Rightarrow> byte list option" where
  "overwrite_at pos bs s = (if length s < pos + length bs then None else Some (take pos s @ bs @ drop (pos + length bs) s))"

text \<open>\<open>std::string::resize\<close>\<close>

definition string_resize :: "nat \<Rightarrow> byte list \<Rightarrow> byte list" where
  "string_resize n s = take n (s @ replicate (n - length s) 0)"

function write_samples :: "fp list \<Rightarrow> nat \<Rightarrow> nat \<Rightarrow> byte list \<Rightarrow> byte list option" where
  "write_samples audio num_samples i wav = (if num_samples \<le> i then Some wav
     else if length audio \<le> i then None
     else case FloatToInt16Sample (audio ! i) of None \<Rightarrow> None
       | Some sample \<Rightarrow> (case overwrite_at (44 + i * 2) (EncodeFixed16 sample) wav of None \<Rightarrow> None
           | Some wav \<Rightarrow> write_samples audio num_samples (i + 1) wav))"
  by pat_completeness auto
termination by (relation "measure (\<lambda>(audio, n, i, wav). n - i)") auto

declare write_samples.simps [simp del]

definition EncodeAudioAsS16LEWav :: "fp list option \<Rightarrow> 64 word \<Rightarrow> 64 word \<Rightarrow> 64 word \<Rightarrow> byte list option \<Rightarrow> (wav_error + byte list) option" where
  "EncodeAudioAsS16LEWav audio sample_rate num_channels num_frames wav_string = (case audio of None \<Rightarrow> Some (Inl AudioIsNull)
     | Some audio \<Rightarrow> (case wav_string of None \<Rightarrow> Some (Inl WavStringIsNull)
     | Some wav \<Rightarrow>
         if sample_rate = 0 \<or> 0xFFFFFFFF < sample_rate then Some (Inl (BadSampleRate sample_rate))
         else if num_channels = 0 \<or> 0xFFFF < num_channels then Some (Inl (BadNumChannels num_channels))
         else if num_frames = 0 then Some (Inl BadNumFrames)
         else let num_samples = num_frames * num_channels; data_size = num_samples * 2; file_size = 44 + num_samples * 2 in
           if 0xFFFFFFFF < file_size then Some (Inl CannotBeEncoded)
           else case overwrite_at 0 (wav_header sample_rate num_channels data_size file_size) (string_resize (unat file_size) wav) of None \<Rightarrow> None
             | Some wav \<Rightarrow> map_option Inr (write_samples audio (unat num_samples) 0 wav)))"

subsection \<open>What is written\<close>

lemma round_int: "roundf (Fin (of_int k)) = Fin (of_int k)"
proof -
  have "\<lfloor>(of_int k :: rat) + 1 / 2\<rfloor> = k" "\<lceil>(of_int k :: rat) - 1 / 2\<rceil> = k" by (auto simp: floor_eq_iff ceiling_eq_iff)
  then show ?thesis by simp
qed

text \<open>Audio of 16 bits keeps its samples.\<close>

lemma sample_exact:
  assumes "- 32768 \<le> k" and "k \<le> 32767"
  shows "FloatToInt16Sample (Fin (of_int k / 2 ^ 15)) = Some (of_int k)"
proof -
  have "fmul binary32 (Fin (of_int k / 2 ^ 15)) (Fin (2 ^ 15)) = Fin (of_int k)"
    using assms sgl.rnd_of_int[of k] by simp
  then show ?thesis using assms by (simp add: FloatToInt16Sample_def round_int std_min_def std_max_def trunc_def del: roundf.simps)
qed

lemma clamp_int: "std_min (std_max (Fin (of_int k)) (Fin (- 32768))) (Fin 32767) = Fin (of_int (min (max k (- 32768)) 32767))"
  by (auto simp: std_min_def std_max_def)

lemma sample_defined: "FloatToInt16Sample x = None \<longleftrightarrow> x = NaN"
proof -
  have int: "FloatToInt16Sample x \<noteq> None" if "roundf (fmul binary32 x (Fin (2 ^ 15))) = Fin (of_int k)" for k
  proof -
    have "trunc (of_int j) = j" for j by (simp add: trunc_def)
    then show ?thesis unfolding FloatToInt16Sample_def that clamp_int by (simp add: min_def max_def)
  qed
  have inf: "FloatToInt16Sample x \<noteq> None" if "fmul binary32 x (Fin (2 ^ 15)) = Inf s" for s
    unfolding FloatToInt16Sample_def that by (cases s) (simp_all add: std_min_def std_max_def trunc_def)
  show ?thesis
  proof (cases x)
    case (Fin q)
    show ?thesis
    proof (cases "fmul binary32 x (Fin (2 ^ 15))")
      case NaN
      then show ?thesis using Fin by (simp add: rnd_def Let_def split: if_splits)
    next
      case fin: (Fin z)
      then have "\<exists>k. roundf (fmul binary32 x (Fin (2 ^ 15))) = Fin (of_int k)" unfolding fin roundf.simps by blast
      then show ?thesis using int Fin by auto
    qed (use inf Fin in auto)
  next
    case (Inf t)
    then show ?thesis using inf by simp
  qed (simp add: FloatToInt16Sample_def std_min_def std_max_def)
qed

lemma wav_header_length [simp]: "length (wav_header r c d f) = 44"
  by (simp add: wav_header_def)

definition sample_bytes :: "fp \<Rightarrow> byte list" where "sample_bytes x = EncodeFixed16 (the (FloatToInt16Sample x))"

lemma sample_bytes_length [simp]: "length (sample_bytes x) = 2"
  by (simp add: sample_bytes_def)

lemma samples_written:
  assumes "length wav = 44 + 2 * n" and "i \<le> n" "n \<le> length audio" and "NaN \<notin> set (take n audio)"
  shows "write_samples audio n i wav = Some (take (44 + 2 * i) wav @ concat (map sample_bytes (drop i (take n audio))))"
  using assms(1,2)
proof (induction "n - i" arbitrary: i wav)
  case 0
  then show ?case using assms(3) by (simp add: write_samples.simps)
next
  case (Suc d)
  have i: "i < n" "i < length audio" using Suc(2) assms(3) by simp_all
  have "audio ! i \<in> set (take n audio)" using i assms(3) by (auto simp: in_set_conv_nth intro!: exI[of _ i])
  then have "audio ! i \<noteq> NaN" using assms(4) by metis
  then obtain v where v: "FloatToInt16Sample (audio ! i) = Some v" using sample_defined by fastforce
  let ?w = "take (44 + i * 2) wav @ EncodeFixed16 v @ drop (44 + i * 2 + 2) wav"
  have w: "length ?w = 44 + 2 * n" "take (44 + 2 * (i + 1)) ?w = take (44 + 2 * i) wav @ EncodeFixed16 v" using Suc(3) i by (simp_all add: mult.commute)
  have "write_samples audio n i wav = write_samples audio n (i + 1) ?w"
    using i v Suc(3) by (subst write_samples.simps) (simp add: overwrite_at_def)
  also have "\<dots> = Some (take (44 + 2 * i) wav @ EncodeFixed16 v @ concat (map sample_bytes (drop (i + 1) (take n audio))))"
    using Suc(1)[of "i + 1" ?w] Suc(2) i w by simp
  moreover have "drop i (take n audio) = audio ! i # drop (i + 1) (take n audio)" using i assms(3) Cons_nth_drop_Suc[of i "take n audio"] by simp
  ultimately show ?case using v by (simp add: sample_bytes_def)
qed

text \<open>A string that is too short for the samples is written behind its end, or the loop fails before.\<close>

lemma samples_outside: "length wav < 44 + 2 * n \<Longrightarrow> write_samples audio n i wav = None \<or> n \<le> i"
proof (induction "n - i" arbitrary: i wav)
  case (Suc d)
  show ?case
  proof (cases "i < length audio \<and> FloatToInt16Sample (audio ! i) \<noteq> None \<and> 46 + i * 2 \<le> length wav")
    case True
    then obtain v where v: "FloatToInt16Sample (audio ! i) = Some v" by blast
    let ?w = "take (44 + i * 2) wav @ EncodeFixed16 v @ drop (44 + i * 2 + 2) wav"
    have "length ?w = length wav" using True by auto
    then have "write_samples audio n (i + 1) ?w = None" using Suc(1)[of "i + 1" ?w] Suc(2,3) True by auto
    then show ?thesis using True v Suc(2) by (subst write_samples.simps) (simp add: overwrite_at_def)
  next
    case False
    then show ?thesis using Suc(2) by (subst write_samples.simps) (auto simp: overwrite_at_def split: option.splits)
  qed
qed simp

lemma string_resize_length [simp]: "length (string_resize n s) = n"
  by (simp add: string_resize_def)

definition wav_file :: "64 word \<Rightarrow> 64 word \<Rightarrow> fp list \<Rightarrow> byte list" where
  "wav_file sample_rate num_channels samples = wav_header sample_rate num_channels (of_nat (2 * length samples)) (of_nat (44 + 2 * length samples))
     @ concat (map sample_bytes samples)"

lemma wav_written:
  assumes sizes: "0 < sr" "sr \<le> 0xFFFFFFFF" "0 < ch" "ch \<le> 0xFFFF" "0 < fr" and n: "n = unat fr * unat ch" "44 + 2 * n < 2 ^ 32"
    and audio: "n \<le> length audio" "NaN \<notin> set (take n audio)"
  shows "EncodeAudioAsS16LEWav (Some audio) sr ch fr (Some wav) = Some (Inr (wav_file sr ch (take n audio)))"
proof -
  have num: "fr * ch = of_nat n" by (simp add: n(1))
  have u: "unat (of_nat n :: 64 word) = n" "unat (44 + of_nat n * 2 :: 64 word) = 44 + 2 * n"
  proof -
    show "unat (of_nat n :: 64 word) = n" using n(2) by (simp add: unat_of_nat)
    have "(44 + of_nat n * 2 :: 64 word) = of_nat (44 + 2 * n)" by simp
    then show "unat (44 + of_nat n * 2 :: 64 word) = 44 + 2 * n" using n(2) by (simp only: unat_of_nat) simp
  qed
  have small: "\<not> (0xFFFFFFFF :: 64 word) < 44 + of_nat n * 2" using n(2) u(2) by (simp add: word_less_nat_alt)
  define h where "h = wav_header sr ch (of_nat n * 2) (44 + of_nat n * 2)"
  have hl: "length h = 44" by (simp add: h_def)
  let ?w = "h @ drop 44 (string_resize (44 + 2 * n) wav)"
  have "write_samples audio n 0 ?w = Some (h @ concat (map sample_bytes (take n audio)))"
    using samples_written[of ?w n 0 audio] audio by (simp add: h_def)
  moreover have "wav_file sr ch (take n audio) = h @ concat (map sample_bytes (take n audio))"
    using audio(1) by (simp add: wav_file_def h_def mult.commute)
  ultimately show ?thesis
    using sizes small u by (simp add: EncodeAudioAsS16LEWav_def num Let_def overwrite_at_def h_def[symmetric] hl word_neq_0_conv not_less)
qed

lemma drop_encoded: "drop (2 * i) (concat (map sample_bytes xs)) = concat (map sample_bytes (drop i xs))"
proof (induction i arbitrary: xs)
  case (Suc i)
  then show ?case by (cases xs) simp_all
qed simp

lemma sample_read:
  assumes "i < length xs" and "FloatToInt16Sample (xs ! i) = Some v"
  shows "DecodeFixed16 (drop (44 + 2 * i) (wav_file sr ch xs)) = Some v"
proof -
  have "drop (44 + 2 * i) (wav_file sr ch xs) = sample_bytes (xs ! i) @ concat (map sample_bytes (drop (Suc i) xs))"
    using assms(1) by (simp add: wav_file_def drop_encoded flip: Cons_nth_drop_Suc)
  then show ?thesis using assms(2) fixed16_roundtrip by (simp add: sample_bytes_def)
qed

lemma ucast_count: "ucast (of_nat n :: 64 word) = (of_nat n :: 32 word)"
  by transfer simp

lemma wav_fields:
  fixes xs :: "fp list" and sr ch :: "64 word"
  defines "wav \<equiv> wav_file sr ch xs"
  shows "length wav = 44 + 2 * length xs \<and> DecodeFixed32 (drop 4 wav) = Some (of_nat (length wav - 8)) \<and> DecodeFixed16 (drop 22 wav) = Some (ucast ch)
    \<and> DecodeFixed32 (drop 24 wav) = Some (ucast sr) \<and> DecodeFixed32 (drop 28 wav) = Some (ucast (sr * 2)) \<and> DecodeFixed32 (drop 40 wav) = Some (of_nat (2 * length xs))"
proof -
  have len: "length wav = 44 + 2 * length xs" by (simp add: wav_def wav_file_def sum_list_triv o_def length_concat)
  have e: "ucast (36 + 2 * of_nat (length xs) :: 64 word) = (36 + 2 * of_nat (length xs) :: 32 word)"
    "ucast (2 * of_nat (length xs) :: 64 word) = (2 * of_nat (length xs) :: 32 word)"
    using ucast_count[of "36 + 2 * length xs"] ucast_count[of "2 * length xs"] by simp_all
  show ?thesis using len e by (simp add: wav_def wav_file_def wav_header_def fixed16_roundtrip fixed32_roundtrip)
qed

text \<open>The product of frames and channels wraps: from \<open>2 ^ 63\<close> samples on, twice their number is too small and the string is overrun.\<close>

lemma wav_overrun:
  assumes "0 < sr" "sr \<le> 0xFFFFFFFF" "0 < ch" "ch \<le> 0xFFFF" "0 < fr" and "2 ^ 63 \<le> fr * ch" "44 + fr * ch * 2 \<le> 0xFFFFFFFF"
  shows "EncodeAudioAsS16LEWav (Some audio) sr ch fr (Some wav) = None"
proof -
  let ?f = "44 + fr * ch * 2"
  have f: "unat ?f \<le> 0xFFFFFFFF" using assms(7) by (simp add: word_le_nat_alt)
  have n: "2 ^ 63 \<le> unat (fr * ch)" using assms(6) by (simp add: word_le_nat_alt)
  have "write_samples audio (unat (fr * ch)) 0 w = None" if "length w = unat ?f" for w
    using samples_outside[of w "unat (fr * ch)" audio 0] that f n by simp
  then show ?thesis using assms(1-5,7)
    by (auto simp: EncodeAudioAsS16LEWav_def Let_def overwrite_at_def word_neq_0_conv not_less split: option.splits)
qed

end
