(* ===== verification/RefCount.thy ===== *)
theory RefCount
  imports Prelude "HOL-Library.Multiset" "HOL-Library.Word"
begin

text \<open>
  Shared objects with a count of their references: tensorflow/core/lib/core/refcount.h, under every interleaving of its
  callers. Every reference has an owner, which holds it or is at some access of a call of \<open>Ref\<close> or \<open>Unref\<close>; the
  accesses to the atomic counter are the steps, and the owners are a multiset of program counters. The counter has
  32 bits, as \<open>int_fast32_t\<close> has on armeabi. An access is \<open>None\<close> when the object is already deleted or an assertion fails, as
  in a debug build. Accesses are sequentially consistent; the weaker memory orders of the code are not modelled.
\<close>

subsection \<open>The accesses\<close>

record object =
  ref_count :: "32 word"
  deleted :: bool

datatype owner = Held | Adding | Loading | Subtracting | Clearing | Deleting

definition object_new :: object where "object_new = \<lparr>ref_count = 1, deleted = False\<rparr>"

text \<open>The first access of \<open>Ref\<close> and \<open>Unref\<close> is their assertion.\<close>

definition begin_Ref :: "object \<Rightarrow> (object \<times> owner multiset) option" where
  "begin_Ref x = (if deleted x \<or> \<not> 1 \<le>s ref_count x then None else Some (x, {#Adding#}))"

definition begin_Unref :: "object \<Rightarrow> (object \<times> owner multiset) option" where
  "begin_Unref x = (if deleted x \<or> \<not> 0 <s ref_count x then None else Some (x, {#Loading#}))"

text \<open>The other accesses, with what the owner becomes: after \<open>Ref\<close> there are two, and \<open>Unref\<close> gives its reference up.\<close>

fun access :: "owner \<Rightarrow> object \<Rightarrow> (object \<times> owner multiset) option" where
  "access Held x = None"
| "access Adding x = (if deleted x then None else Some (x\<lparr>ref_count := ref_count x + 1\<rparr>, {#Held, Held#}))"
| "access Loading x = (if deleted x then None else Some (x, if ref_count x = 1 then {#Clearing#} else {#Subtracting#}))"
| "access Subtracting x = (if deleted x then None
     else Some (x\<lparr>ref_count := ref_count x - 1\<rparr>, if ref_count x = 1 then {#Clearing#} else {#}))"
| "access Clearing x = (if deleted x then None else Some (x\<lparr>ref_count := 0\<rparr>, {#Deleting#}))"
| "access Deleting x = (if deleted x \<or> ref_count x \<noteq> 0 then None else Some (x\<lparr>deleted := True\<rparr>, {#}))"

definition RefCountIsOne :: "object \<Rightarrow> bool option" where
  "RefCountIsOne x = (if deleted x then None else Some (ref_count x = 1))"

subsection \<open>Interleavings\<close>

text \<open>An owner that begins a \<open>Ref\<close> leaves room for it: fewer than \<open>2 ^ 31\<close> references.\<close>

definition room :: "owner multiset \<Rightarrow> bool" where
  "room M \<longleftrightarrow> size M + count M Adding + 1 < 2 ^ 31"

inductive rc_step :: "object \<times> owner multiset \<Rightarrow> object \<times> owner multiset \<Rightarrow> bool" where
  ref: "Held \<in># M \<Longrightarrow> room M \<Longrightarrow> begin_Ref x = Some (y, P) \<Longrightarrow> rc_step (x, M) (y, M - {#Held#} + P)"
| unref: "Held \<in># M \<Longrightarrow> begin_Unref x = Some (y, P) \<Longrightarrow> rc_step (x, M) (y, M - {#Held#} + P)"
| go_on: "p \<in># M \<Longrightarrow> p \<noteq> Held \<Longrightarrow> access p x = Some (y, P) \<Longrightarrow> rc_step (x, M) (y, M - {#p#} + P)"

inductive rc_reachable :: "object \<times> owner multiset \<Rightarrow> bool" where
  created: "rc_reachable (object_new, {#Held#})"
| step: "rc_reachable s \<Longrightarrow> rc_step s t \<Longrightarrow> rc_reachable t"

subsection \<open>The invariant\<close>

definition counted :: "object \<Rightarrow> owner multiset \<Rightarrow> bool" where
  "counted x M \<longleftrightarrow> M \<noteq> {#} \<and> Clearing \<notin># M \<and> Deleting \<notin># M \<and> ref_count x = of_nat (size M) \<and> size M + count M Adding < 2 ^ 31 \<and> \<not> deleted x"

definition rc_inv :: "object \<times> owner multiset \<Rightarrow> bool" where
  "rc_inv s \<longleftrightarrow> (case s of (x, M) \<Rightarrow> counted x M \<or> M = {#Clearing#} \<and> \<not> deleted x \<or> M = {#Deleting#} \<and> ref_count x = 0 \<and> \<not> deleted x
     \<or> M = {#} \<and> deleted x)"

lemma sint_count: "n < 2 ^ 31 \<Longrightarrow> sint (of_nat n :: 32 word) = int n"
  by (simp add: sint_uint uint_nat unat_of_nat signed_take_bit_int_eq_self)

lemma count_is_one: "n < 2 ^ 31 \<Longrightarrow> (of_nat n :: 32 word) = 1 \<longleftrightarrow> n = 1"
proof -
  assume "n < 2 ^ 31"
  then have "sint (of_nat n :: 32 word) = int n" by (rule sint_count)
  moreover have "sint (1 :: 32 word) = 1" by simp
  ultimately show ?thesis by (metis of_nat_1 of_nat_1_eq_iff)
qed

lemma countedD:
  assumes "counted x M"
  shows "\<not> deleted x" and "1 \<le>s ref_count x" "0 <s ref_count x" and "ref_count x = 1 \<longleftrightarrow> size M = 1"
proof -
  have s: "size M < 2 ^ 31" "0 < size M" and r: "ref_count x = of_nat (size M)"
    using assms by (auto simp: counted_def nonempty_has_size)
  have "sint (ref_count x) = int (size M)" using sint_count[OF s(1)] r by simp
  then show "1 \<le>s ref_count x" "0 <s ref_count x" using s(2) by (simp_all add: word_sle_eq word_sless_alt)
  show "ref_count x = 1 \<longleftrightarrow> size M = 1" using count_is_one[OF s(1)] r by simp
qed (use assms in \<open>simp add: counted_def\<close>)

lemma one_owner: "p \<in># M \<Longrightarrow> size M = 1 \<Longrightarrow> M = {#p#}"
  by (metis add_mset_eq_single insert_DiffM size_1_singleton_mset)

lemma counted_step:
  assumes c: "counted x M" and p: "p \<in># M"
  shows "p \<noteq> Held \<Longrightarrow> \<exists>y P. access p x = Some (y, P) \<and> rc_inv (y, M - {#p#} + P)"
    and "p = Held \<Longrightarrow> room M \<Longrightarrow> \<exists>P. begin_Ref x = Some (x, P) \<and> rc_inv (x, M - {#Held#} + P)"
    and "p = Held \<Longrightarrow> \<exists>P. begin_Unref x = Some (x, P) \<and> rc_inv (x, M - {#Held#} + P)"
proof -
  note d = countedD[OF c]
  obtain N where M: "M = add_mset p N" using p by (metis insert_DiffM)
  have N: "Clearing \<notin># N" "Deleting \<notin># N" "ref_count x = of_nat (Suc (size N))" "p \<noteq> Clearing" "p \<noteq> Deleting"
    using c by (auto simp: counted_def M)
  have one: "ref_count x = 1 \<longleftrightarrow> N = {#}" using d(4) by (simp add: M)
  show "\<exists>y P. access p x = Some (y, P) \<and> rc_inv (y, M - {#p#} + P)" if "p \<noteq> Held"
  proof (cases p)
    case Adding
    then have "counted (x\<lparr>ref_count := ref_count x + 1\<rparr>) (N + {#Held, Held#})" using c N by (simp add: counted_def M)
    then show ?thesis using Adding d(1) by (simp add: M rc_inv_def)
  next
    case Loading
    then have "N \<noteq> {#} \<Longrightarrow> counted x (add_mset Subtracting N)" using c N by (simp add: counted_def M)
    then show ?thesis using Loading d(1) one by (cases "N = {#}") (simp_all add: M rc_inv_def)
  next
    case Subtracting
    then have "N \<noteq> {#} \<Longrightarrow> counted (x\<lparr>ref_count := ref_count x - 1\<rparr>) N" using c N by (simp add: counted_def M)
    then show ?thesis using Subtracting d(1) one by (cases "N = {#}") (simp_all add: M rc_inv_def)
  qed (use that N in auto)
  show "\<exists>P. begin_Ref x = Some (x, P) \<and> rc_inv (x, M - {#Held#} + P)" if "p = Held" "room M"
  proof -
    have "counted x (add_mset Adding N)" using c that N by (simp add: counted_def room_def M)
    then show ?thesis using d that(1) by (simp add: M rc_inv_def begin_Ref_def)
  qed
  show "\<exists>P. begin_Unref x = Some (x, P) \<and> rc_inv (x, M - {#Held#} + P)" if "p = Held"
  proof -
    have "counted x (add_mset Loading N)" using c that N by (simp add: counted_def M)
    then show ?thesis using d that by (simp add: M rc_inv_def begin_Unref_def)
  qed
qed

text \<open>No access fails.\<close>

lemma inv_access:
  assumes "rc_inv (x, M)" and "p \<in># M"
  shows "p \<noteq> Held \<Longrightarrow> \<exists>y P. access p x = Some (y, P) \<and> rc_inv (y, M - {#p#} + P)"
    and "p = Held \<Longrightarrow> counted x M"
proof -
  show "\<exists>y P. access p x = Some (y, P) \<and> rc_inv (y, M - {#p#} + P)" if "p \<noteq> Held"
    using assms counted_step(1)[of x M p] that by (auto simp: rc_inv_def)
  show "counted x M" if "p = Held" using assms that by (auto simp: rc_inv_def)
qed

lemma inv_step: "rc_step s t \<Longrightarrow> rc_inv s \<Longrightarrow> rc_inv t"
proof (induction rule: rc_step.induct)
  case (ref M x y P)
  then show ?case using inv_access(2)[of x M Held] counted_step(2)[of x M Held] by fastforce
next
  case (unref M x y P)
  then show ?case using inv_access(2)[of x M Held] counted_step(3)[of x M Held] by fastforce
next
  case (go_on p M x y P)
  then show ?case using inv_access(1)[of x M p] by auto
qed

lemma reachable_inv: "rc_reachable s \<Longrightarrow> rc_inv s"
proof (induction rule: rc_reachable.induct)
  case created
  show ?case by (simp add: rc_inv_def counted_def object_new_def)
next
  case (step s t)
  then show ?case by (blast intro: inv_step)
qed

text \<open>Owners that give their references up delete the object, in any interleaving: the work left bounds the steps.\<close>

fun work :: "owner \<Rightarrow> nat" where
  "work Held = 5"
| "work Adding = 11"
| "work Loading = 4"
| "work Subtracting = 3"
| "work Clearing = 2"
| "work Deleting = 1"

definition work_left :: "owner multiset \<Rightarrow> nat" where "work_left M = sum_mset (image_mset work M)"

lemma work_replace: "p \<in># M \<Longrightarrow> work_left (M - {#p#} + P) + work p = work_left M + work_left P"
  by (auto simp: work_left_def dest!: multi_member_split)

inductive gives_up :: "object \<times> owner multiset \<Rightarrow> object \<times> owner multiset \<Rightarrow> bool" where
  "Held \<in># M \<Longrightarrow> begin_Unref x = Some (y, P) \<Longrightarrow> gives_up (x, M) (y, M - {#Held#} + P)"
| "p \<in># M \<Longrightarrow> p \<noteq> Held \<Longrightarrow> access p x = Some (y, P) \<Longrightarrow> gives_up (x, M) (y, M - {#p#} + P)"

lemma gives_up_step: "gives_up s t \<Longrightarrow> rc_step s t"
  by (induction rule: gives_up.induct) (rule rc_step.intros; assumption)+

lemma access_work: "access p x = Some (y, P) \<Longrightarrow> work_left P < work p"
  by (cases p) (auto simp: work_left_def split: if_splits)

lemma gives_up_work: "gives_up s t \<Longrightarrow> work_left (snd t) < work_left (snd s)"
proof (induction rule: gives_up.induct)
  case (1 M x y P)
  then show ?case using work_replace[of Held M P] by (auto simp: begin_Unref_def work_left_def split: if_splits)
next
  case (2 p M x y P)
  then show ?case using work_replace[of p M P] access_work[of p x y P] by simp
qed

lemma gives_up_enabled:
  assumes "rc_inv (x, M)" and "M \<noteq> {#}"
  shows "\<exists>t. gives_up (x, M) t"
proof -
  obtain p where p: "p \<in># M" using assms(2) by blast
  show ?thesis
  proof (cases "p = Held")
    case True
    then show ?thesis using counted_step(3)[of x M p] inv_access(2)[OF assms(1) p] p by (metis gives_up.intros(1))
  next
    case False
    then show ?thesis using inv_access(1)[OF assms(1) p] p by (metis gives_up.intros(2))
  qed
qed

lemma ends_deleted: "rc_inv s \<Longrightarrow> \<exists>y. gives_up\<^sup>*\<^sup>* s (y, {#}) \<and> deleted y"
proof (induction "work_left (snd s)" arbitrary: s rule: less_induct)
  case less
  obtain x M where s: "s = (x, M)" by fastforce
  show ?case
  proof (cases "M = {#}")
    case True
    then show ?thesis using less(2) s by (auto simp: rc_inv_def counted_def)
  next
    case False
    then obtain t where t: "gives_up s t" using gives_up_enabled less(2) s by blast
    obtain y where "gives_up\<^sup>*\<^sup>* t (y, {#})" "deleted y"
      using less(1)[OF gives_up_work[OF t]] inv_step[OF gives_up_step[OF t] less(2)] by blast
    then show ?thesis using t by (meson converse_rtranclp_into_rtranclp)
  qed
qed

lemma gives_up_terminates: "wfp (\<lambda>t s. gives_up s t)"
  by (rule wfp_if_convertible_to_nat[of _ "\<lambda>s. work_left (snd s)"]) (rule gives_up_work)

end
