(* ===== verification/Monitor.thy ===== *)
theory Monitor
  imports Prelude "HOL-Library.Word"
begin

text \<open>
  Waiting for other threads: the counter of tensorflow/core/lib/core/blocking_counter.h and the notification of
  platform/default/notification.h. Both guard a value with a mutex and let threads wait on a condition variable. A
  critical section is one step, a wait gives the mutex up, and a thread may wake without being notified.
\<close>

subsection \<open>The guarded values\<close>

text \<open>The new value and whether \<open>notify_all\<close> is called; \<open>None\<close> is a failed check.\<close>

definition BlockingCounter_new :: "32 word \<Rightarrow> 32 word option" where
  "BlockingCounter_new initial_count = (if 0 \<le>s initial_count then Some initial_count else None)"

definition DecrementCount :: "32 word \<Rightarrow> (32 word \<times> bool) option" where
  "DecrementCount count = (let count = count - 1 in if 0 \<le>s count then Some (count, count = 0) else None)"

definition counter_waits :: "32 word \<Rightarrow> bool" where "counter_waits count \<longleftrightarrow> 0 <s count"

definition Notification_new :: bool where "Notification_new = False"

definition Notify :: "bool \<Rightarrow> (bool \<times> bool) option" where "Notify notified = (if notified then None else Some (True, True))"

definition HasBeenNotified :: "bool \<Rightarrow> bool" where "HasBeenNotified notified = notified"

definition notification_waits :: "bool \<Rightarrow> bool" where "notification_waits notified \<longleftrightarrow> \<not> notified"

subsection \<open>Threads\<close>

text \<open>How many threads are about to test the value, are blocked on the condition variable, have returned and have timed out.\<close>

record 's monitor =
  guarded :: 's
  testing :: nat
  blocked :: nat
  returned :: nat
  timed_out :: nat

definition monitor_new :: "'s \<Rightarrow> 's monitor" where
  "monitor_new g = \<lparr>guarded = g, testing = 0, blocked = 0, returned = 0, timed_out = 0\<rparr>"

text \<open>The steps of \<open>Wait\<close> and its loop. A wait with a time limit may give up while the value is not there.\<close>

inductive wait_step :: "('s \<Rightarrow> bool) \<Rightarrow> bool \<Rightarrow> 's monitor \<Rightarrow> 's monitor \<Rightarrow> bool" for waits limited where
  arrive: "wait_step waits limited m (m\<lparr>testing := testing m + 1\<rparr>)"
| pass: "0 < testing m \<Longrightarrow> \<not> waits (guarded m) \<Longrightarrow> wait_step waits limited m (m\<lparr>testing := testing m - 1, returned := returned m + 1\<rparr>)"
| sleep: "0 < testing m \<Longrightarrow> waits (guarded m) \<Longrightarrow> wait_step waits limited m (m\<lparr>testing := testing m - 1, blocked := blocked m + 1\<rparr>)"
| wake: "0 < blocked m \<Longrightarrow> wait_step waits limited m (m\<lparr>testing := testing m + 1, blocked := blocked m - 1\<rparr>)"
| time_out: "limited \<Longrightarrow> 0 < blocked m \<Longrightarrow> waits (guarded m) \<Longrightarrow>
    wait_step waits limited m (m\<lparr>blocked := blocked m - 1, timed_out := timed_out m + 1\<rparr>)"

definition do_signal :: "('s \<Rightarrow> ('s \<times> bool) option) \<Rightarrow> 's monitor \<Rightarrow> 's monitor option" where
  "do_signal signal m = (case signal (guarded m) of None \<Rightarrow> None
     | Some (g, notify_all) \<Rightarrow> Some (if notify_all then m\<lparr>guarded := g, testing := testing m + blocked m, blocked := 0\<rparr> else m\<lparr>guarded := g\<rparr>))"

text \<open>What is reached from a value after \<open>k\<close> signals.\<close>

inductive monitor_reached :: "('s \<Rightarrow> bool) \<Rightarrow> ('s \<Rightarrow> ('s \<times> bool) option) \<Rightarrow> bool \<Rightarrow> 's \<Rightarrow> nat \<Rightarrow> 's monitor \<Rightarrow> bool"
  for waits signal limited g0 where
  start: "monitor_reached waits signal limited g0 0 (monitor_new g0)"
| wait: "monitor_reached waits signal limited g0 k m \<Longrightarrow> wait_step waits limited m m' \<Longrightarrow> monitor_reached waits signal limited g0 k m'"
| signal: "monitor_reached waits signal limited g0 k m \<Longrightarrow> do_signal signal m = Some m' \<Longrightarrow> monitor_reached waits signal limited g0 (k + 1) m'"

subsection \<open>The contract of a guarded value\<close>

text \<open>A signal is only possible while threads wait, and it notifies exactly when they need not wait any more.\<close>

locale gate =
  fixes waits :: "'s \<Rightarrow> bool" and signal :: "'s \<Rightarrow> ('s \<times> bool) option" and valid :: "'s \<Rightarrow> bool"
  assumes signalled: "valid g \<Longrightarrow> signal g = Some (g', notify) \<Longrightarrow> valid g' \<and> waits g \<and> (notify \<longleftrightarrow> \<not> waits g')"
begin

definition gate_inv :: "'s monitor \<Rightarrow> bool" where
  "gate_inv m \<longleftrightarrow> valid (guarded m) \<and> (0 < blocked m \<longrightarrow> waits (guarded m)) \<and> (0 < returned m \<longrightarrow> \<not> waits (guarded m))"

lemma wait_inv: "wait_step waits limited m m' \<Longrightarrow> gate_inv m \<Longrightarrow> gate_inv m'"
  by (induction rule: wait_step.induct) (auto simp: gate_inv_def)

lemma signal_inv: "do_signal signal m = Some m' \<Longrightarrow> gate_inv m \<Longrightarrow> gate_inv m'"
proof -
  assume m: "do_signal signal m = Some m'" "gate_inv m"
  then obtain g b where g: "signal (guarded m) = Some (g, b)" by (auto simp: do_signal_def split: option.splits)
  then have "valid g" "waits (guarded m)" "b \<longleftrightarrow> \<not> waits g" using signalled m(2) unfolding gate_inv_def by blast+
  then show ?thesis using m g by (cases b) (auto simp: do_signal_def gate_inv_def)
qed

lemma reached_inv: "monitor_reached waits signal limited g0 k m \<Longrightarrow> valid g0 \<Longrightarrow> gate_inv m"
proof (induction rule: monitor_reached.induct)
  case start
  then show ?case by (simp add: gate_inv_def monitor_new_def)
next
  case (wait k m m')
  then show ?case using wait_inv by blast
next
  case (signal k m m')
  then show ?case using signal_inv by blast
qed

text \<open>No wake-up is lost: when threads need not wait any more, all of them return.\<close>

lemma all_pass: "\<not> waits (guarded m) \<Longrightarrow> (wait_step waits limited)\<^sup>*\<^sup>* m (m\<lparr>testing := 0, returned := returned m + testing m\<rparr>)"
proof (induction "testing m" arbitrary: m)
  case 0
  then have "m\<lparr>testing := 0, returned := returned m + testing m\<rparr> = m" by simp
  then show ?case by (metis rtranclp.rtrancl_refl)
next
  case (Suc n)
  let ?m = "m\<lparr>testing := testing m - 1, returned := returned m + 1\<rparr>"
  have "wait_step waits limited m ?m" using Suc(2,3) wait_step.pass[of m waits limited] by simp
  moreover have "(wait_step waits limited)\<^sup>*\<^sup>* ?m (?m\<lparr>testing := 0, returned := returned ?m + testing ?m\<rparr>)" using Suc(1)[of ?m] Suc(2,3) by simp
  moreover have "?m\<lparr>testing := 0, returned := returned ?m + testing ?m\<rparr> = m\<lparr>testing := 0, returned := returned m + testing m\<rparr>" using Suc(2) by simp
  ultimately show ?case by (metis converse_rtranclp_into_rtranclp)
qed

lemma when_open:
  assumes "monitor_reached waits signal limited g0 k m" and "valid g0"
  shows "0 < returned m \<Longrightarrow> \<not> waits (guarded m)"
    and "\<not> waits (guarded m) \<Longrightarrow> blocked m = 0 \<and> (wait_step waits limited)\<^sup>*\<^sup>* m (m\<lparr>testing := 0, returned := returned m + testing m\<rparr>)"
  using reached_inv[OF assms] all_pass[of m limited] by (auto simp: gate_inv_def)

end

lemma signed_count: "0 \<le>s (c :: 32 word) \<Longrightarrow> \<exists>n. c = of_nat n \<and> n < 2 ^ 31 \<and> sint c = int n"
proof -
  assume "0 \<le>s c"
  then have "0 \<le> sint c" by (simp add: word_sle_eq)
  then show ?thesis using sint_less[of c] by (intro exI[of _ "nat (sint c)"]) simp
qed

lemma sint_of_count: "n < 2 ^ 31 \<Longrightarrow> sint (of_nat n :: 32 word) = int n"
  by (simp add: sint_uint uint_nat unat_of_nat signed_take_bit_int_eq_self)

lemma decrement_sint:
  assumes "0 \<le>s c"
  shows "DecrementCount c = (if 0 <s c then Some (c - 1, c = 1) else None)" and "0 <s c \<Longrightarrow> 0 \<le>s c - 1 \<and> sint (c - 1) = sint c - 1"
proof -
  obtain n where n: "c = of_nat n" "n < 2 ^ 31" "sint c = int n" using signed_count[OF assms] by blast
  have pos: "0 <s c \<longleftrightarrow> 0 < n" using n by (simp add: word_sless_alt)
  have pred: "sint (c - 1) = int (n - 1)" if "0 < n"
  proof -
    have "c - 1 = of_nat (n - 1)" using n that by simp
    then show ?thesis using sint_of_count[of "n - 1"] n by simp
  qed
  then show "0 <s c \<Longrightarrow> 0 \<le>s c - 1 \<and> sint (c - 1) = sint c - 1" using pos n by (simp add: word_sle_eq)
  show "DecrementCount c = (if 0 <s c then Some (c - 1, c = 1) else None)"
  proof (cases "0 < n")
    case True
    then show ?thesis using pred pos by (auto simp: DecrementCount_def word_sle_eq)
  next
    case False
    then have "c = 0" using n by simp
    then show ?thesis by (simp add: DecrementCount_def word_sle_eq)
  qed
qed

interpretation blocking_counter: gate counter_waits DecrementCount "\<lambda>c. 0 \<le>s c"
proof
  fix g g' :: "32 word" and notify
  assume g: "0 \<le>s g" "DecrementCount g = Some (g', notify)"
  then have p: "0 <s g" "g' = g - 1" "notify = (g = 1)" using decrement_sint(1)[OF g(1)] by (auto split: if_splits)
  have s: "0 \<le>s g - 1" "sint (g - 1) = sint g - 1" using decrement_sint(2)[OF g(1) p(1)] by blast+
  have "g = 1 \<longleftrightarrow> sint g = sint (1 :: 32 word)" by (metis signed_word_eqI)
  then have "g = 1 \<longleftrightarrow> sint g = 1" by simp
  then show "0 \<le>s g' \<and> counter_waits g \<and> (notify \<longleftrightarrow> \<not> counter_waits g')"
    using p s by (auto simp: counter_waits_def word_sless_alt word_sle_eq)
qed

interpretation notification: gate notification_waits Notify "\<lambda>_. True"
  by unfold_locales (auto simp: Notify_def notification_waits_def split: if_splits)

subsection \<open>The number of signals\<close>

lemma wait_guarded: "wait_step waits limited m m' \<Longrightarrow> guarded m' = guarded m"
  by (induction rule: wait_step.induct) simp_all

lemma signal_guarded: "do_signal signal m = Some m' \<Longrightarrow> \<exists>b. signal (guarded m) = Some (guarded m', b)"
  by (auto simp: do_signal_def split: option.splits if_splits)

lemma counted_down:
  "monitor_reached counter_waits DecrementCount limited n k m \<Longrightarrow> 0 \<le>s n \<Longrightarrow> 0 \<le>s guarded m \<and> sint (guarded m) = sint n - int k"
proof (induction rule: monitor_reached.induct)
  case start
  then show ?case by (simp add: monitor_new_def)
next
  case (wait k m m')
  then show ?case using wait_guarded by fastforce
next
  case (signal k m m')
  then have c: "0 \<le>s guarded m" "sint (guarded m) = sint n - int k" by blast+
  obtain b where "DecrementCount (guarded m) = Some (guarded m', b)" using signal_guarded[OF signal(2)] by blast
  then have "0 <s guarded m" "guarded m' = guarded m - 1" using decrement_sint(1)[OF c(1)] by (auto split: if_splits)
  then show ?case using decrement_sint(2)[OF c(1)] c(2) by simp
qed

lemma notified_once:
  "monitor_reached notification_waits Notify limited Notification_new k m \<Longrightarrow> k = (if guarded m then 1 else 0)"
proof (induction rule: monitor_reached.induct)
  case start
  then show ?case by (simp add: monitor_new_def Notification_new_def)
next
  case (wait k m m')
  then show ?case using wait_guarded by fastforce
next
  case (signal k m m')
  then show ?case using signal_guarded[OF signal(2)] by (auto simp: Notify_def split: if_splits)
qed

end
