(* ===== verification/BCast.thy ===== *)
theory BCast
  imports Prelude
begin

text \<open>
  Broadcasting two tensors to one shape: tensorflow/core/util/bcast.cc. Dimensions are \<open>int64\<close>; a product that does not fit,
  which C++ leaves undefined, and a failed check are \<open>None\<close>.

  The tensors are reshaped and broadcast by their client: \<open>gathered\<close> is the element that reshaping and broadcasting put at a
  place of the result, and \<open>numpy_index\<close> the element that the rule of broadcasting asks for.
\<close>

subsection \<open>The code\<close>

record bcast =
  bcast_valid :: bool
  x_reshape :: "int list"
  y_reshape :: "int list"
  x_bcast :: "int list"
  y_bcast :: "int list"
  result_shape :: "int list"
  output_shape :: "int list"
  grad_x_reduce_idx :: "int list"
  grad_y_reduce_idx :: "int list"

datatype bcast_state = UNKNOWN | SAME | X_ONE | Y_ONE

definition mul64 :: "int \<Rightarrow> int \<Rightarrow> int option" where
  "mul64 a b = (if - (2 ^ 63) \<le> a * b \<and> a * b < 2 ^ 63 then Some (a * b) else None)"

text \<open>The fast path multiplies all dimensions.\<close>

fun count_elements :: "int list \<Rightarrow> int \<Rightarrow> int option" where
  "count_elements [] elements = Some elements"
| "count_elements (d # sx) elements = (case mul64 elements d of None \<Rightarrow> None | Some elements \<Rightarrow> count_elements sx elements)"

text \<open>\<open>back() *= v\<close>\<close>

definition times_back :: "int \<Rightarrow> int list \<Rightarrow> int list option" where
  "times_back v xs = map_option (\<lambda>p. butlast xs @ [p]) (mul64 (last xs) v)"

definition push_dims :: "int \<Rightarrow> int \<Rightarrow> int \<Rightarrow> int \<Rightarrow> int \<Rightarrow> bcast \<Rightarrow> bcast" where
  "push_dims o_i x_i bx_i y_i by_i b = b\<lparr>result_shape := result_shape b @ [o_i], x_reshape := x_reshape b @ [x_i], x_bcast := x_bcast b @ [bx_i],
     y_reshape := y_reshape b @ [y_i], y_bcast := y_bcast b @ [by_i]\<rparr>"

definition times_dims :: "int \<Rightarrow> int \<Rightarrow> int \<Rightarrow> int \<Rightarrow> int \<Rightarrow> bcast \<Rightarrow> bcast option" where
  "times_dims o_i x_i bx_i y_i by_i b = (case (times_back o_i (result_shape b), times_back x_i (x_reshape b), times_back bx_i (x_bcast b),
       times_back y_i (y_reshape b), times_back by_i (y_bcast b)) of
     (Some r, Some x, Some bx, Some y, Some by) \<Rightarrow> Some (b\<lparr>result_shape := r, x_reshape := x, x_bcast := bx, y_reshape := y, y_bcast := by\<rparr>)
   | _ \<Rightarrow> None)"

text \<open>The case of a dimension: what is pushed, and the new state.\<close>

definition dim_case :: "int \<Rightarrow> int \<Rightarrow> (bcast_state \<times> int \<times> int \<times> int) option" where
  "dim_case x_i y_i = (if x_i = y_i then Some (SAME, x_i, 1, 1)
     else if x_i = 1 then Some (X_ONE, y_i, y_i, 1)
     else if y_i = 1 then Some (Y_ONE, x_i, 1, x_i)
     else None)"

text \<open>The output dimension and the positions to reduce, for one dimension.\<close>

definition noted :: "int \<Rightarrow> bcast_state \<Rightarrow> int \<Rightarrow> int \<Rightarrow> bcast \<Rightarrow> bcast" where
  "noted idx state x_i o_i b = (let b = (if state = X_ONE then b\<lparr>grad_x_reduce_idx := grad_x_reduce_idx b @ [idx]\<rparr>
       else if state = Y_ONE then b\<lparr>grad_y_reduce_idx := grad_y_reduce_idx b @ [idx]\<rparr> else b);
     b = b\<lparr>output_shape := output_shape b @ [o_i]\<rparr> in
     if state = SAME \<and> x_i = 1 then b\<lparr>grad_x_reduce_idx := grad_x_reduce_idx b @ [idx], grad_y_reduce_idx := grad_y_reduce_idx b @ [idx]\<rparr> else b)"

text \<open>The loop over the dimensions, the innermost first, with \<open>idx = n - 1 - i\<close>; the result says whether it came to its end.\<close>

fun dims_loop :: "bool \<Rightarrow> int \<Rightarrow> (int \<times> int) list \<Rightarrow> bcast_state \<Rightarrow> bcast \<Rightarrow> (bool \<times> bcast) option" where
  "dims_loop fewer idx [] prev b = Some (True, b)"
| "dims_loop fewer idx ((x_i, y_i) # ds) prev b = (if x_i < 0 \<or> y_i < 0 then None
     else case dim_case x_i y_i of None \<Rightarrow> Some (False, b\<lparr>bcast_valid := False\<rparr>)
     | Some (state, o_i, bx_i, by_i) \<Rightarrow>
         let b = noted idx state x_i o_i b in
         if state = SAME \<and> x_i = 1 then dims_loop fewer (idx - 1) ds prev (if \<not> fewer then push_dims o_i x_i bx_i y_i by_i b else b)
         else if fewer \<and> prev = state
         then (case times_dims o_i x_i bx_i y_i by_i b of None \<Rightarrow> None | Some b \<Rightarrow> dims_loop fewer (idx - 1) ds state b)
         else dims_loop fewer (idx - 1) ds state (push_dims o_i x_i bx_i y_i by_i b))"

definition bcast_empty :: bcast where
  "bcast_empty = \<lparr>bcast_valid = True, x_reshape = [], y_reshape = [], x_bcast = [], y_bcast = [], result_shape = [], output_shape = [],
     grad_x_reduce_idx = [], grad_y_reduce_idx = []\<rparr>"

definition reverse_all :: "bcast \<Rightarrow> bcast" where
  "reverse_all b = b\<lparr>x_reshape := rev (x_reshape b), x_bcast := rev (x_bcast b), y_reshape := rev (y_reshape b), y_bcast := rev (y_bcast b),
     result_shape := rev (result_shape b), output_shape := rev (output_shape b), grad_x_reduce_idx := rev (grad_x_reduce_idx b),
     grad_y_reduce_idx := rev (grad_y_reduce_idx b)\<rparr>"

text \<open>\<open>resize(n, 1)\<close> of the reversed shape\<close>

definition extended :: "nat \<Rightarrow> int list \<Rightarrow> int list" where "extended n x = x @ replicate (n - length x) 1"

definition BCast_new :: "int list \<Rightarrow> int list \<Rightarrow> bool \<Rightarrow> bcast option" where
  "BCast_new sx sy fewer = (if sx = sy \<and> fewer
     then map_option (\<lambda>elements. bcast_empty\<lparr>output_shape := sx, result_shape := [elements], x_reshape := [elements], y_reshape := [elements],
         x_bcast := [1], y_bcast := [1]\<rparr>) (count_elements sx 1)
     else let n = max (length sx) (length sy); x = extended n (rev sx); y = extended n (rev sy) in
       case dims_loop fewer (int n - 1) (zip x y) UNKNOWN bcast_empty of None \<Rightarrow> None
       | Some (False, b) \<Rightarrow> Some b
       | Some (True, b) \<Rightarrow> let b = (if result_shape b = [] then push_dims 1 1 1 1 1 b else b) in Some (reverse_all b))"

subsection \<open>Reshaping and broadcasting\<close>

text \<open>The places of a row-major tensor, with the innermost dimension first; a place \<open>k\<close> of the result of \<open>reshape\<close> and \<open>broadcast\<close>.\<close>

fun gathered :: "int list \<Rightarrow> int list \<Rightarrow> int \<Rightarrow> int" where
  "gathered (r # rs) (b # bs) k = k mod (r * b) mod r + r * gathered rs bs (k div (r * b))"
| "gathered _ _ k = 0"

text \<open>The place of a tensor of shape \<open>xs\<close> that is broadcast to the place \<open>k\<close> of the shape \<open>os\<close>: dimensions of size 1 are repeated.\<close>

fun numpy_index :: "int list \<Rightarrow> int list \<Rightarrow> int \<Rightarrow> int" where
  "numpy_index (x # xs) (d # ds) k = (if x = 1 then 0 else k mod d) + x * numpy_index xs ds (k div d)"
| "numpy_index _ _ k = 0"

definition out_dim :: "int \<times> int \<Rightarrow> int" where "out_dim d = (if fst d = 1 then snd d else fst d)"

definition dims_fit :: "int \<times> int \<Rightarrow> bool" where "dims_fit d \<longleftrightarrow> fst d = snd d \<or> fst d = 1 \<or> snd d = 1"

text \<open>The positions of the dimensions of size 1, from \<open>idx\<close> downwards.\<close>

fun ones_at :: "int \<Rightarrow> int list \<Rightarrow> int list" where
  "ones_at idx [] = []"
| "ones_at idx (x # xs) = (if x = 1 then [idx] else []) @ ones_at (idx - 1) xs"

lemma ones_at_snoc: "ones_at idx (xs @ [x]) = ones_at idx xs @ (if x = 1 then [idx - int (length xs)] else [])"
  by (induction xs arbitrary: idx) simp_all

lemma rev_ones_at: "rev (ones_at (int (length zs) - 1) (rev zs)) = map int (filter (\<lambda>i. zs ! i = 1) [0..<length zs])"
proof (induction zs rule: rev_induct)
  case (snoc z zs)
  have "filter (\<lambda>i. (zs @ [z]) ! i = 1) [0..<length zs] = filter (\<lambda>i. zs ! i = 1) [0..<length zs]" by (rule filter_cong) (auto simp: nth_append)
  then show ?case using snoc by simp
qed simp

text \<open>What is left of a place behind some dimensions.\<close>

fun place_left :: "int list \<Rightarrow> int \<Rightarrow> int" where
  "place_left [] k = k"
| "place_left (d # ds) k = place_left ds (k div d)"

lemma place_left_snoc: "place_left (ds @ [d]) k = place_left ds k div d"
  by (induction ds arbitrary: k) simp_all

lemma place_left_two: "place_left (ds @ [a, d]) k = place_left ds k div a div d"
  by (induction ds arbitrary: k) simp_all

lemma gathered_snoc: "length rs = length bs \<Longrightarrow>
    gathered (rs @ [r]) (bs @ [b]) k = gathered rs bs k + prod_list rs * (place_left (map2 (*) rs bs) k mod (r * b) mod r)"
  by (induction rs bs arbitrary: k rule: list_induct2) (simp_all add: algebra_simps)

lemma numpy_snoc: "length xs = length ds \<Longrightarrow>
    numpy_index (xs @ [x]) (ds @ [d]) k = numpy_index xs ds k + prod_list xs * (if x = 1 then 0 else place_left ds k mod d)"
  by (induction xs ds arbitrary: k rule: list_induct2) (simp_all add: algebra_simps)

definition same_places :: "int list \<Rightarrow> int list \<Rightarrow> int list \<Rightarrow> int list \<Rightarrow> bool" where
  "same_places rs bs xs ds \<longleftrightarrow> length rs = length bs \<and> length xs = length ds \<and> prod_list rs = prod_list xs
     \<and> prod_list (map2 (*) rs bs) = prod_list ds \<and> (\<forall>k. gathered rs bs k = numpy_index xs ds k) \<and> (\<forall>k. place_left (map2 (*) rs bs) k = place_left ds k)"

definition one_dim :: "int \<Rightarrow> int \<Rightarrow> int \<Rightarrow> bool" where "one_dim x b d \<longleftrightarrow> x = 1 \<and> b = d \<or> x = d \<and> b = 1"

lemma places_push: "same_places rs bs xs ds \<Longrightarrow> one_dim x b d \<Longrightarrow> same_places (rs @ [x]) (bs @ [b]) (xs @ [x]) (ds @ [d])"
  by (auto simp: same_places_def one_dim_def gathered_snoc numpy_snoc place_left_snoc)

lemma places_skip: "same_places rs bs xs ds \<Longrightarrow> same_places rs bs (xs @ [1]) (ds @ [1])"
  by (simp add: same_places_def numpy_snoc place_left_snoc)

lemma places_merge:
  assumes p: "same_places (rs @ [r]) (bs @ [b]) xs ds" and o: "one_dim x c d" and n: "0 \<le> x" "0 \<le> c" and run: "b = 1 \<and> c = 1 \<or> r = 1 \<and> x = 1"
  shows "same_places (rs @ [r * x]) (bs @ [b * c]) (xs @ [x]) (ds @ [d])"
proof -
  have l: "length rs = length bs" using p by (simp add: same_places_def)
  let ?R = "\<lambda>k. place_left (map2 (*) rs bs) k"
  have q: "same_places ((rs @ [r]) @ [x]) ((bs @ [b]) @ [c]) (xs @ [x]) (ds @ [d])" by (rule places_push[OF p o])
  have rem: "K div (r * b) div (x * c) = K div (r * x * (b * c))" for K
    using zdiv_zmult2_eq[of "x * c" K "r * b"] n by (simp add: algebra_simps)
  have "K mod (r * b) mod r + r * (K div (r * b) mod (x * c) mod x) = K mod (r * x * (b * c)) mod (r * x)" for K
    using run
  proof
    assume b: "b = 1 \<and> c = 1"
    then have "?thesis \<longleftrightarrow> r * (K div r mod x) + K mod r = K mod (r * x)" by (simp add: add.commute)
    then show ?thesis using zmod_zmult2_eq[of x K r] n by simp
  qed simp
  then have "gathered ((rs @ [r]) @ [x]) ((bs @ [b]) @ [c]) k = gathered (rs @ [r * x]) (bs @ [b * c]) k" for k
    using l by (simp add: gathered_snoc[of "rs @ [r]" "bs @ [b]", simplified] gathered_snoc place_left_snoc flip: distrib_left)
      (simp add: distrib_left[symmetric] mult.assoc)
  moreover have "prod_list (map2 (*) rs bs) * (r * x * (b * c)) = prod_list ds * d"
  proof -
    have e: "r * x * (b * c) = r * b * (x * c)" by simp
    have "prod_list (map2 (*) rs bs) * (r * b * (x * c)) = prod_list ds * d" using q l by (simp add: same_places_def)
    then show ?thesis unfolding e .
  qed
  ultimately show ?thesis using q l rem unfolding same_places_def by (simp add: place_left_snoc place_left_two zip_append)
qed

subsection \<open>What the loop builds\<close>

definition size_bound :: "(int \<times> int) list \<Rightarrow> int" where "size_bound ds = prod_list (map (\<lambda>d. max 1 (out_dim d)) ds)"

text \<open>The last pushed dimension, in a run of equal cases.\<close>

fun run_of :: "bcast_state \<Rightarrow> int \<Rightarrow> int \<Rightarrow> int \<Rightarrow> int \<Rightarrow> bool" where
  "run_of UNKNOWN x bx y by \<longleftrightarrow> True"
| "run_of SAME x bx y by \<longleftrightarrow> bx = 1 \<and> by = 1"
| "run_of X_ONE x bx y by \<longleftrightarrow> x = 1 \<and> by = 1"
| "run_of Y_ONE x bx y by \<longleftrightarrow> bx = 1 \<and> y = 1"

definition reshapes :: "bcast \<Rightarrow> (int \<times> int) list \<Rightarrow> bool" where
  "reshapes b ds \<longleftrightarrow> same_places (x_reshape b) (x_bcast b) (map fst ds) (map out_dim ds)
     \<and> same_places (y_reshape b) (y_bcast b) (map snd ds) (map out_dim ds)
     \<and> map2 (*) (x_reshape b) (x_bcast b) = result_shape b \<and> map2 (*) (y_reshape b) (y_bcast b) = result_shape b"

definition reduces :: "int \<Rightarrow> bcast \<Rightarrow> (int \<times> int) list \<Rightarrow> bool" where
  "reduces hi b ds \<longleftrightarrow> bcast_valid b \<and> output_shape b = map out_dim ds
     \<and> grad_x_reduce_idx b = ones_at hi (map fst ds) \<and> grad_y_reduce_idx b = ones_at hi (map snd ds)"

definition within_bound :: "bcast \<Rightarrow> int \<Rightarrow> bool" where
  "within_bound b P \<longleftrightarrow> (\<forall>v \<in> set (result_shape b @ x_reshape b @ x_bcast b @ y_reshape b @ y_bcast b). 0 \<le> v \<and> v \<le> P)"

definition in_run :: "bool \<Rightarrow> bcast_state \<Rightarrow> bcast \<Rightarrow> bool" where
  "in_run fewer prev b \<longleftrightarrow> (fewer \<and> prev \<noteq> UNKNOWN \<longrightarrow> result_shape b \<noteq> []
     \<and> run_of prev (last (x_reshape b)) (last (x_bcast b)) (last (y_reshape b)) (last (y_bcast b)))"

definition dims_inv :: "bool \<Rightarrow> bcast_state \<Rightarrow> int \<Rightarrow> bcast \<Rightarrow> (int \<times> int) list \<Rightarrow> bool" where
  "dims_inv fewer prev hi b ds \<longleftrightarrow> reshapes b ds \<and> reduces hi b ds \<and> within_bound b (size_bound ds) \<and> in_run fewer prev b"

lemma size_bound_snoc: "size_bound (ds @ [d]) = size_bound ds * max 1 (out_dim d)"
  by (simp add: size_bound_def)

lemma size_bound_append: "size_bound (ds @ es) = size_bound ds * size_bound es"
  by (simp add: size_bound_def)

lemma size_bound_pos: "1 \<le> size_bound ds"
proof (induction ds)
  case (Cons d ds)
  then have "1 * 1 \<le> max 1 (out_dim d) * size_bound ds" by (intro mult_mono) simp_all
  then show ?case by (simp add: size_bound_def)
qed (simp add: size_bound_def)

lemma size_bound_grows: "v \<le> size_bound ds \<Longrightarrow> v \<le> size_bound (ds @ [d])" "v \<le> max 1 (out_dim d) \<Longrightarrow> v \<le> size_bound (ds @ [d])"
proof -
  have "size_bound ds * 1 \<le> size_bound ds * max 1 (out_dim d)" "1 * max 1 (out_dim d) \<le> size_bound ds * max 1 (out_dim d)"
    using size_bound_pos[of ds] by (intro mult_mono; simp)+
  then show "v \<le> size_bound ds \<Longrightarrow> v \<le> size_bound (ds @ [d])" "v \<le> max 1 (out_dim d) \<Longrightarrow> v \<le> size_bound (ds @ [d])"
    unfolding size_bound_snoc by linarith+
qed

lemma dim_case_facts:
  assumes "dim_case x y = Some (state, d, bx, by)" and "0 \<le> x" "0 \<le> y"
  shows "one_dim x bx d" "one_dim y by d" "d = out_dim (x, y)" "d = x * bx" "d = y * by" "run_of state x bx y by" "state \<noteq> UNKNOWN"
    and "\<And>v. v \<in> {d, x, bx, y, by} \<Longrightarrow> 0 \<le> v \<and> v \<le> max 1 d" and "dims_fit (x, y)" 
    and "state = X_ONE \<longleftrightarrow> x = 1 \<and> y \<noteq> 1" "state = Y_ONE \<longleftrightarrow> x \<noteq> 1 \<and> y = 1"
  using assms by (auto simp: dim_case_def one_dim_def out_dim_def dims_fit_def split: if_splits)

lemma dim_case_none: "dim_case x y = None \<longleftrightarrow> \<not> dims_fit (x, y)"
  by (auto simp: dim_case_def dims_fit_def)

lemma reshapes_lengths:
  assumes "reshapes b ds"
  shows "length (x_reshape b) = length (x_bcast b)" "length (y_reshape b) = length (y_bcast b)" "length (x_reshape b) = length (result_shape b)"
    "length (y_reshape b) = length (result_shape b)"
  using assms by (auto simp: reshapes_def same_places_def) (metis length_map length_zip min.idem)+

lemma push_dims_ok:
  assumes r: "reshapes b ds" and w: "within_bound b (size_bound ds)" and c: "dim_case x y = Some (state, d, bx, by)" "0 \<le> x" "0 \<le> y"
  shows "reshapes (push_dims d x bx y by b) (ds @ [(x, y)])" and "within_bound (push_dims d x bx y by b) (size_bound (ds @ [(x, y)]))"
    and "in_run fewer state (push_dims d x bx y by b)"
proof -
  note f = dim_case_facts[OF c]
  show "reshapes (push_dims d x bx y by b) (ds @ [(x, y)])"
    using r places_push[OF _ f(1), of "x_reshape b" "x_bcast b"] places_push[OF _ f(2), of "y_reshape b" "y_bcast b"] reshapes_lengths(1,2)[OF r]
    by (simp add: reshapes_def push_dims_def f(3)[symmetric] f(4)[symmetric] f(5)[symmetric])
  have "0 \<le> v \<and> v \<le> size_bound (ds @ [(x, y)])" if "v \<in> {d, x, bx, y, by}" for v
    using f(8)[OF that] size_bound_grows(2)[of v "(x, y)" ds] f(3) by simp
  moreover have "0 \<le> v \<and> v \<le> size_bound (ds @ [(x, y)])" if "v \<in> set (result_shape b @ x_reshape b @ x_bcast b @ y_reshape b @ y_bcast b)" for v
    using w that size_bound_grows(1)[of v ds] by (auto simp: within_bound_def)
  ultimately show "within_bound (push_dims d x bx y by b) (size_bound (ds @ [(x, y)]))" by (auto simp: within_bound_def push_dims_def)
  show "in_run fewer state (push_dims d x bx y by b)" using f(6) by (simp add: in_run_def push_dims_def)
qed

lemma times_back_ok:
  assumes "0 \<le> a" "a \<le> size_bound ds" "0 \<le> v" "v \<le> max 1 d" "size_bound ds * max 1 d < 2 ^ 63"
  shows "times_back v (xs @ [a]) = Some (xs @ [a * v])" and "0 \<le> a * v" "a * v \<le> size_bound ds * max 1 d"
proof -
  have b: "0 \<le> size_bound ds" using size_bound_pos[of ds] by linarith
  show le: "a * v \<le> size_bound ds * max 1 d" by (rule mult_mono[OF assms(2,4) b assms(3)])
  show pos: "0 \<le> a * v" using assms(1,3) by simp
  have "a * v < 2 ^ 63" using le assms(5) by linarith
  moreover have "- (2 ^ 63) \<le> a * v" using pos by (simp add: order_trans[of _ 0])
  ultimately show "times_back v (xs @ [a]) = Some (xs @ [a * v])" by (simp add: times_back_def mul64_def)
qed

lemma snoc_of: "xs \<noteq> [] \<Longrightarrow> \<exists>ys. xs = ys @ [last xs]"
  by (metis append_butlast_last_id)

lemma times_dims_ok:
  assumes r: "reshapes b ds" and w: "within_bound b (size_bound ds)" and run: "in_run True state b" and c: "dim_case x y = Some (state, d, bx, by)" "0 \<le> x" "0 \<le> y"
    and P: "size_bound (ds @ [(x, y)]) < 2 ^ 63"
  shows "\<exists>b'. times_dims d x bx y by b = Some b' \<and> reshapes b' (ds @ [(x, y)]) \<and> within_bound b' (size_bound (ds @ [(x, y)])) \<and> in_run True state b'
    \<and> bcast_valid b' = bcast_valid b \<and> output_shape b' = output_shape b \<and> grad_x_reduce_idx b' = grad_x_reduce_idx b \<and> grad_y_reduce_idx b' = grad_y_reduce_idx b"
proof -
  note f = dim_case_facts[OF c]
  have ne: "result_shape b \<noteq> []" and last: "run_of state (last (x_reshape b)) (last (x_bcast b)) (last (y_reshape b)) (last (y_bcast b))"
    using run f(7) by (auto simp: in_run_def)
  have ne5: "x_reshape b \<noteq> []" "x_bcast b \<noteq> []" "y_reshape b \<noteq> []" "y_bcast b \<noteq> []"
    using ne reshapes_lengths[OF r] by (metis length_0_conv)+
  obtain rs p xs q bs t ys u cs v where s: "result_shape b = rs @ [p]" "x_reshape b = xs @ [q]" "x_bcast b = bs @ [t]" "y_reshape b = ys @ [u]" "y_bcast b = cs @ [v]"
    using snoc_of[OF ne] ne5[THEN snoc_of] by metis
  have l: "length xs = length bs" "length ys = length cs" using reshapes_lengths[OF r] s by simp_all
  have a: "0 \<le> z \<and> z \<le> size_bound ds" if "z \<in> {p, q, t, u, v}" for z using w that s by (auto simp: within_bound_def)
  have e: "0 \<le> z \<and> z \<le> max 1 d" if "z \<in> {d, x, bx, y, by}" for z using f(8)[OF that] .
  have B: "size_bound ds * max 1 d < 2 ^ 63" using P f(3) by (simp add: size_bound_snoc)
  have tb: "times_back z (zs @ [o']) = Some (zs @ [o' * z]) \<and> 0 \<le> o' * z \<and> o' * z \<le> size_bound ds * max 1 d" if "z \<in> {d, x, bx, y, by}" "o' \<in> {p, q, t, u, v}" for z zs o'
    using times_back_ok(1)[of o' ds z d zs] times_back_ok(2,3)[of o' ds z d] a[OF that(2)] e[OF that(1)] B by blast
  let ?b = "b\<lparr>result_shape := rs @ [p * d], x_reshape := xs @ [q * x], x_bcast := bs @ [t * bx], y_reshape := ys @ [u * y], y_bcast := cs @ [v * by]\<rparr>"
  have run': "run_of state q t u v" using last s by simp
  have xrun: "t = 1 \<and> bx = 1 \<or> q = 1 \<and> x = 1" and yrun: "v = 1 \<and> by = 1 \<or> u = 1 \<and> y = 1"
    using run' f(6,7) by (cases state; simp)+
  have "same_places (xs @ [q]) (bs @ [t]) (map fst ds) (map out_dim ds)" "same_places (ys @ [u]) (cs @ [v]) (map snd ds) (map out_dim ds)"
    and pr: "map2 (*) xs bs = rs" "q * t = p" "map2 (*) ys cs = rs" "u * v = p"
    using r s l by (auto simp: reshapes_def)
  then have "same_places (xs @ [q * x]) (bs @ [t * bx]) (map fst (ds @ [(x, y)])) (map out_dim (ds @ [(x, y)]))"
    "same_places (ys @ [u * y]) (cs @ [v * by]) (map snd (ds @ [(x, y)])) (map out_dim (ds @ [(x, y)]))"
    using places_merge[of xs q bs t "map fst ds" "map out_dim ds" x bx d] places_merge[of ys u cs v "map snd ds" "map out_dim ds" y "by" d]
      f(1-3) e xrun yrun c(2,3) by simp_all
  moreover have "q * x * (t * bx) = p * d" "u * y * (v * by) = p * d"
  proof -
    have "q * x * (t * bx) = q * t * (x * bx)" "u * y * (v * by) = u * v * (y * by)" by simp_all
    then show "q * x * (t * bx) = p * d" "u * y * (v * by) = p * d" using pr(2,4) f(4,5) by metis+
  qed
  ultimately have "reshapes ?b (ds @ [(x, y)])" using pr(1,3) l by (simp add: reshapes_def)
  moreover have "within_bound ?b (size_bound (ds @ [(x, y)]))"
  proof -
    have "0 \<le> z \<and> z \<le> size_bound (ds @ [(x, y)])" if "z \<in> {p * d, q * x, t * bx, u * y, v * by}" for z
      using that tb[of d p] tb[of x q] tb[of bx t] tb[of y u] tb[of "by" v] f(3) by (auto simp: size_bound_snoc)
    moreover have "0 \<le> z \<and> z \<le> size_bound (ds @ [(x, y)])" if "z \<in> set (rs @ xs @ bs @ ys @ cs)" for z
      using w that s size_bound_grows(1)[of z ds "(x, y)"] by (auto simp: within_bound_def)
    ultimately show ?thesis by (auto simp: within_bound_def)
  qed
  moreover have "in_run True state ?b" using run' f(6) by (cases state) (simp_all add: in_run_def)
  moreover have "times_dims d x bx y by b = Some ?b" using tb s by (simp add: times_dims_def)
  ultimately show ?thesis by (intro exI[of _ ?b]) simp
qed

lemma reduces_field [simp]: "reduces hi (push_dims d x bx y by b) ds = reduces hi b ds"
  by (simp add: reduces_def push_dims_def)

lemma skip_dim:
  assumes "reshapes b ds" "within_bound b (size_bound ds)"
  shows "reshapes b (ds @ [(1, 1)])" and "within_bound b (size_bound (ds @ [(1, 1)]))"
  using assms places_skip by (simp_all add: reshapes_def out_dim_def size_bound_snoc)

lemma fields_only [simp]: "reshapes (b\<lparr>grad_x_reduce_idx := g\<rparr>) = reshapes b" "reshapes (b\<lparr>grad_y_reduce_idx := g\<rparr>) = reshapes b"
  "reshapes (b\<lparr>output_shape := g\<rparr>) = reshapes b" "within_bound (b\<lparr>grad_x_reduce_idx := g\<rparr>) = within_bound b"
  "within_bound (b\<lparr>grad_y_reduce_idx := g\<rparr>) = within_bound b" "within_bound (b\<lparr>output_shape := g\<rparr>) = within_bound b"
  "in_run fewer prev (b\<lparr>grad_x_reduce_idx := g\<rparr>) = in_run fewer prev b" "in_run fewer prev (b\<lparr>grad_y_reduce_idx := g\<rparr>) = in_run fewer prev b"
  "in_run fewer prev (b\<lparr>output_shape := g\<rparr>) = in_run fewer prev b"
  by (simp_all add: fun_eq_iff reshapes_def within_bound_def in_run_def)

lemma noted_ok:
  assumes "reduces hi b ds" and "dim_case x y = Some (state, d, bx, by)" "0 \<le> x" "0 \<le> y"
  shows "reduces hi (noted (hi - int (length ds)) state x d b) (ds @ [(x, y)])"
    and "reshapes (noted idx state x d b) = reshapes b" "within_bound (noted idx state x d b) = within_bound b"
    and "in_run fewer prev (noted idx state x d b) = in_run fewer prev b"
  using assms(1) dim_case_facts(3,10,11)[OF assms(2-4)] assms(2)
  by (auto simp: noted_def reduces_def ones_at_snoc Let_def dim_case_def split: if_splits)

declare dims_loop.simps(2) [simp del]

text \<open>One dimension: the loop goes on with one more dimension done.\<close>

lemma dims_round:
  assumes i: "dims_inv fewer prev hi b done" and n: "0 \<le> x" "0 \<le> y" and c: "dim_case x y = Some (state, d, bx, b_y)"
    and P: "size_bound (done @ [(x, y)]) < 2 ^ 63"
  shows "\<exists>p b1. dims_loop fewer (hi - int (length done)) ((x, y) # todo) prev b = dims_loop fewer (hi - int (length done) - 1) todo p b1
    \<and> dims_inv fewer p hi b1 (done @ [(x, y)])"
proof -
  let ?b = "noted (hi - int (length done)) state x d b"
  have b: "reduces hi ?b (done @ [(x, y)])" "reshapes ?b done" "within_bound ?b (size_bound done)" "in_run fewer prev ?b"
    using i noted_ok[OF _ c n] by (auto simp: dims_inv_def)
  note push = push_dims_ok[OF b(2,3) c n]
  note go = dims_loop.simps(2) Let_def c n
  consider "state = SAME \<and> x = 1" fewer | "state = SAME \<and> x = 1" "\<not> fewer" | "\<not> (state = SAME \<and> x = 1)" "fewer" "prev = state"
    | "\<not> (state = SAME \<and> x = 1)" "\<not> (fewer \<and> prev = state)" by blast
  then show ?thesis
  proof cases
    case 1
    then have one: "(x, y) = (1, 1)" using c by (auto simp: dim_case_def split: if_splits)
    then have "dims_inv fewer prev hi ?b (done @ [(x, y)])" using 1 b skip_dim[OF b(2,3)] one by (simp add: dims_inv_def)
    then show ?thesis using 1 go by (intro exI[of _ prev] exI[of _ ?b]) auto
  next
    case 2
    then have "dims_inv fewer prev hi (push_dims d x bx y b_y ?b) (done @ [(x, y)])" using b push by (simp add: dims_inv_def in_run_def)
    then show ?thesis using 2 go by (intro exI[of _ prev] exI[of _ "push_dims d x bx y b_y ?b"]) auto
  next
    case 3
    obtain b1 where b1: "times_dims d x bx y b_y ?b = Some b1" "reshapes b1 (done @ [(x, y)])" "within_bound b1 (size_bound (done @ [(x, y)]))"
      "in_run True state b1" "bcast_valid b1 = bcast_valid ?b \<and> output_shape b1 = output_shape ?b
        \<and> grad_x_reduce_idx b1 = grad_x_reduce_idx ?b \<and> grad_y_reduce_idx b1 = grad_y_reduce_idx ?b"
      using times_dims_ok[OF b(2,3) _ c n] b(4) 3 P by auto
    have "dims_inv fewer state hi b1 (done @ [(x, y)])" using b(1) b1 3 by (simp add: dims_inv_def reduces_def)
    then show ?thesis using 3 b1(1) go by (intro exI[of _ state] exI[of _ b1]) auto
  next
    case 4
    have "dims_inv fewer state hi (push_dims d x bx y b_y ?b) (done @ [(x, y)])" using b push by (simp add: dims_inv_def)
    then show ?thesis using 4 go by (intro exI[of _ state] exI[of _ "push_dims d x bx y b_y ?b"]) auto
  qed
qed

lemma dims_loop_ok:
  assumes "dims_inv fewer prev hi b done" and "\<forall>d \<in> set todo. 0 \<le> fst d \<and> 0 \<le> snd d" and "size_bound (done @ todo) < 2 ^ 63"
  shows "\<exists>b'. dims_loop fewer (hi - int (length done)) todo prev b = Some (list_all dims_fit todo, b')
    \<and> (if list_all dims_fit todo then \<exists>p. dims_inv fewer p hi b' (done @ todo) else \<not> bcast_valid b')"
  using assms
proof (induction todo arbitrary: prev b "done")
  case (Cons t todo)
  obtain x y where t: "t = (x, y)" by fastforce
  have n: "0 \<le> x" "0 \<le> y" using Cons(3) t by auto
  show ?case
  proof (cases "dim_case x y")
    case None
    then show ?thesis using n t dim_case_none[of x y] by (simp add: dims_loop.simps(2))
  next
    case (Some c)
    obtain state d bx b_y where c: "dim_case x y = Some (state, d, bx, b_y)" using Some by (cases c) auto
    have "size_bound (done @ [t]) * 1 \<le> size_bound (done @ [t]) * size_bound todo"
      using size_bound_pos[of "done @ [t]"] size_bound_pos[of todo] by (intro mult_left_mono) linarith+
    then have "size_bound (done @ [t]) < 2 ^ 63" using Cons(4) by (simp add: size_bound_append[of "done @ [t]" todo, simplified])
    then have P: "size_bound (done @ [(x, y)]) < 2 ^ 63" using t by simp
    obtain p b1 where r: "dims_loop fewer (hi - int (length done)) (t # todo) prev b = dims_loop fewer (hi - int (length done) - 1) todo p b1"
      "dims_inv fewer p hi b1 (done @ [t])" using dims_round[OF Cons(2) n c P, of todo] t by blast
    show ?thesis using Cons(1)[OF r(2)] Cons(3,4) r(1) dim_case_facts(9)[OF c n] t by (cases "list_all dims_fit todo") (simp_all add: algebra_simps)
  qed
qed (auto simp: dims_inv_def)

subsection \<open>The two paths of the constructor\<close>

text \<open>The shapes with dimensions of size 1 in front, so that both have the same number of dimensions.\<close>

definition aligned_dims :: "int list \<Rightarrow> int list \<Rightarrow> int list" where "aligned_dims sx sy = replicate (length sy - length sx) 1 @ sx"

definition paired :: "int list \<Rightarrow> int list \<Rightarrow> (int \<times> int) list" where "paired sx sy = zip (aligned_dims sx sy) (aligned_dims sy sx)"

lemma aligned_dims_length [simp]: "length (aligned_dims sx sy) = max (length sx) (length sy)"
  by (simp add: aligned_dims_def)

lemma paired_rev: "rev (paired sx sy) = zip (extended (max (length sx) (length sy)) (rev sx)) (extended (max (length sx) (length sy)) (rev sy))"
proof -
  have "rev (aligned_dims a b) = extended (max (length a) (length b)) (rev a)" for a b by (simp add: aligned_dims_def extended_def max_def)
  from this[of sx sy] this[of sy sx] show ?thesis by (simp add: paired_def zip_rev[symmetric] max.commute)
qed

lemma size_bound_rev: "size_bound (rev ds) = size_bound ds"
  by (simp add: size_bound_def rev_map[symmetric] prod_list.rev)

text \<open>What the client gets: the shapes, the element at every place, and the dimensions to sum over for a gradient.\<close>

definition broadcasts :: "bcast \<Rightarrow> int list \<Rightarrow> int list \<Rightarrow> bool" where
  "broadcasts b sx sy \<longleftrightarrow> bcast_valid b \<and> output_shape b = map out_dim (paired sx sy)
     \<and> map2 (*) (x_reshape b) (x_bcast b) = result_shape b \<and> map2 (*) (y_reshape b) (y_bcast b) = result_shape b \<and> result_shape b \<noteq> []
     \<and> prod_list (x_reshape b) = prod_list sx \<and> prod_list (y_reshape b) = prod_list sy \<and> prod_list (result_shape b) = prod_list (output_shape b)
     \<and> (\<forall>k. 0 \<le> k \<and> k < prod_list (output_shape b) \<longrightarrow>
          gathered (rev (x_reshape b)) (rev (x_bcast b)) k = numpy_index (rev (aligned_dims sx sy)) (rev (output_shape b)) k
        \<and> gathered (rev (y_reshape b)) (rev (y_bcast b)) k = numpy_index (rev (aligned_dims sy sx)) (rev (output_shape b)) k)"

lemma aligned_dims_prod [simp]: "prod_list (aligned_dims sx sy) = prod_list sx"
  by (simp add: aligned_dims_def)

lemma map_paired: "map fst (paired sx sy) = aligned_dims sx sy" "map snd (paired sx sy) = aligned_dims sy sx"
  by (simp_all add: paired_def max.commute)

lemma all_ones: "same_places [] [] xs ds \<Longrightarrow> same_places [1] [1] xs ds"
  by (simp add: same_places_def)

lemma aligned_dims_nonneg: "\<forall>d \<in> set sx \<union> set sy. 0 \<le> d \<Longrightarrow> p \<in> set (paired sx sy) \<Longrightarrow> 0 \<le> fst p \<and> 0 \<le> snd p"
proof -
  assume a: "\<forall>d \<in> set sx \<union> set sy. (0 :: int) \<le> d" and p: "p \<in> set (paired sx sy)"
  then have "fst p \<in> set (aligned_dims sx sy)" "snd p \<in> set (aligned_dims sy sx)"
    unfolding paired_def by (cases p; auto dest: set_zip_leftD set_zip_rightD)+
  then show ?thesis using a by (auto simp: aligned_dims_def)
qed

lemma slow_path:
  assumes nonneg: "\<forall>d \<in> set sx \<union> set sy. 0 \<le> d" and P: "size_bound (paired sx sy) < 2 ^ 63" and slow: "\<not> (sx = sy \<and> fewer)"
  shows "\<exists>b. BCast_new sx sy fewer = Some b \<and> (bcast_valid b \<longleftrightarrow> list_all dims_fit (paired sx sy))
    \<and> (bcast_valid b \<longrightarrow> broadcasts b sx sy \<and> grad_x_reduce_idx b = map int (filter (\<lambda>i. aligned_dims sx sy ! i = 1) [0..<max (length sx) (length sy)])
        \<and> grad_y_reduce_idx b = map int (filter (\<lambda>i. aligned_dims sy sx ! i = 1) [0..<max (length sx) (length sy)]))"
proof -
  let ?n = "max (length sx) (length sy)"
  let ?hi = "int ?n - 1"
  have "dims_inv fewer UNKNOWN ?hi bcast_empty []"
    by (simp add: dims_inv_def reshapes_def reduces_def within_bound_def in_run_def same_places_def bcast_empty_def)
  moreover have "\<forall>d \<in> set (rev (paired sx sy)). 0 \<le> fst d \<and> 0 \<le> snd d"
    using aligned_dims_nonneg[OF nonneg] by simp
  ultimately obtain b where b: "dims_loop fewer ?hi (rev (paired sx sy)) UNKNOWN bcast_empty = Some (list_all dims_fit (rev (paired sx sy)), b)"
    "if list_all dims_fit (rev (paired sx sy)) then \<exists>p. dims_inv fewer p ?hi b (rev (paired sx sy)) else \<not> bcast_valid b"
    using dims_loop_ok[of fewer UNKNOWN ?hi bcast_empty "[]" "rev (paired sx sy)", unfolded append_Nil] P size_bound_rev by auto
  have all: "list_all dims_fit (rev (paired sx sy)) = list_all dims_fit (paired sx sy)" by simp
  show ?thesis
  proof (cases "list_all dims_fit (paired sx sy)")
    case False
    then show ?thesis using b slow by (auto simp: BCast_new_def Let_def paired_rev[symmetric])
  next
    case True
    then obtain p where i: "dims_inv fewer p ?hi b (rev (paired sx sy))" using b(2) all by auto
    define c where "c = (if result_shape b = [] then push_dims 1 1 1 1 1 b else b)"
    have run: "BCast_new sx sy fewer = Some (reverse_all c)"
      using b(1) True slow all by (auto simp: BCast_new_def Let_def paired_rev[symmetric] c_def)
    have r: "reshapes b (rev (paired sx sy))" and d: "reduces ?hi b (rev (paired sx sy))" using i by (auto simp: dims_inv_def)
    have "reshapes c (rev (paired sx sy)) \<and> result_shape c \<noteq> []"
    proof (cases "result_shape b = []")
      case True
      then have "x_reshape b = []" "x_bcast b = []" "y_reshape b = []" "y_bcast b = []" using reshapes_lengths[OF r] by simp_all
      then show ?thesis using r True all_ones by (auto simp: reshapes_def c_def push_dims_def)
    qed (use r in \<open>simp add: c_def\<close>)
    moreover have d': "reduces ?hi c (rev (paired sx sy))" using d by (simp add: c_def)
    moreover have "grad_x_reduce_idx (reverse_all c) = map int (filter (\<lambda>i. aligned_dims sx sy ! i = 1) [0..<?n])"
      "grad_y_reduce_idx (reverse_all c) = map int (filter (\<lambda>i. aligned_dims sy sx ! i = 1) [0..<?n])"
      using d' rev_ones_at[of "aligned_dims sx sy"] rev_ones_at[of "aligned_dims sy sx"]
      by (simp_all add: reduces_def reverse_all_def map_paired rev_map[symmetric] max.commute)
    ultimately show ?thesis using True run
      by (auto simp: broadcasts_def reverse_all_def reduces_def reshapes_def same_places_def map_paired rev_map[symmetric] zip_rev)
  qed
qed

lemma numpy_index_same: "\<forall>x \<in> set xs. 0 \<le> x \<Longrightarrow> numpy_index xs xs k = k mod prod_list xs"
proof (induction xs arbitrary: k)
  case (Cons x xs)
  have "0 \<le> prod_list xs" using Cons(2) by (induction xs) simp_all
  then have "k mod (x * prod_list xs) = x * (k div x mod prod_list xs) + k mod x" by (rule zmod_zmult2_eq)
  then show ?case using Cons by simp
qed simp

lemma count_elements_ok:
  "\<forall>x \<in> set xs. 0 \<le> x \<Longrightarrow> 0 \<le> a \<Longrightarrow> a \<le> A \<Longrightarrow> A * size_bound (zip xs xs) < 2 ^ 63 \<Longrightarrow> count_elements xs a = Some (a * prod_list xs)"
proof (induction xs arbitrary: a A)
  case (Cons x xs)
  have A: "0 \<le> A" using Cons(3,4) by linarith
  have le: "0 \<le> a * x" "a * x \<le> A * max 1 x" using Cons(2-4) A by (auto intro: mult_mono)
  have same: "out_dim (x, x) = x" by (simp add: out_dim_def)
  have b: "A * max 1 x * size_bound (zip xs xs) < 2 ^ 63" using Cons(5) same by (simp add: size_bound_def mult.assoc)
  have "A * max 1 x * 1 \<le> A * max 1 x * size_bound (zip xs xs)" using A size_bound_pos by (intro mult_left_mono) simp_all
  then have "mul64 a x = Some (a * x)" using le b by (simp add: mul64_def)
  then show ?case using Cons(1)[of "a * x" "A * max 1 x"] Cons(2) le b by (simp add: mult.assoc)
qed simp

lemma fast_path:
  assumes nonneg: "\<forall>d \<in> set sx. 0 \<le> d" and P: "size_bound (paired sx sx) < 2 ^ 63"
  shows "\<exists>b. BCast_new sx sx True = Some b \<and> broadcasts b sx sx \<and> grad_x_reduce_idx b = [] \<and> grad_y_reduce_idx b = []"
proof -
  have p: "paired sx sx = zip sx sx" "aligned_dims sx sx = sx" by (simp_all add: paired_def aligned_dims_def)
  have "map out_dim (zip sx sx) = sx" by (induction sx) (simp_all add: out_dim_def)
  moreover have "count_elements sx 1 = Some (prod_list sx)" using count_elements_ok[OF nonneg, of 1 1] P p by simp
  moreover have "numpy_index (rev sx) (rev sx) k = k mod prod_list sx" for k using numpy_index_same[of "rev sx" k] nonneg by (simp add: prod_list.rev)
  ultimately show ?thesis using p by (simp add: BCast_new_def broadcasts_def bcast_empty_def)
qed

lemma same_fits: "list_all dims_fit (paired sx sx)"
  by (auto simp: paired_def aligned_dims_def dims_fit_def list_all_iff in_set_zip)

lemma BCast_ok:
  assumes "\<forall>d \<in> set sx \<union> set sy. 0 \<le> d" and "size_bound (paired sx sy) < 2 ^ 63"
  shows "\<exists>b. BCast_new sx sy fewer = Some b \<and> (bcast_valid b \<longleftrightarrow> list_all dims_fit (paired sx sy)) \<and> (bcast_valid b \<longrightarrow> broadcasts b sx sy)"
proof (cases "sx = sy \<and> fewer")
  case True
  then show ?thesis using fast_path[of sx] assms same_fits[of sx] by (auto simp: broadcasts_def)
next
  case False
  then show ?thesis using slow_path[OF assms False] by blast
qed

end
