(* ===== verification/TfUtil.thy ===== *)
theory TfUtil
  imports Numbers Scanner TopN InlinedVector Histogram Wav RefCount Monitor BCast
begin

text \<open>
  What the numbers, strings, file names, containers, histograms, audio files and shared objects of tensorflow/core/lib
  and the shapes of tensorflow/core/util promise their callers, over the models of the theories Numbers to BCast.
\<close>

section \<open>Numbers in text\<close>

text \<open>
  C27. The four parsers of integers are exact: they accept a text exactly when it is a number in decimal, with spaces around it
  and a minus sign where the type has one, and the number fits the type, and then they give this number.
\<close>

theorem integers_are_parsed_exactly:
  "safe_strto32 s = (case integer_in s of None \<Rightarrow> None | Some n \<Rightarrow> if - (2 ^ 31) \<le> n \<and> n < 2 ^ 31 then Some (of_int n) else None)
    \<and> safe_strto64 s = (case integer_in s of None \<Rightarrow> None | Some n \<Rightarrow> if - (2 ^ 63) \<le> n \<and> n < 2 ^ 63 then Some (of_int n) else None)
    \<and> safe_strtou32 s = (case unsigned_in s of None \<Rightarrow> None | Some n \<Rightarrow> if n < 2 ^ 32 then Some (of_nat n) else None)
    \<and> safe_strtou64 s = (case unsigned_in s of None \<Rightarrow> None | Some n \<Rightarrow> if n < 2 ^ 64 then Some (of_nat n) else None)"
  using safe_strto32_exact safe_strto64_exact safe_strtou32_exact safe_strtou64_exact by blast

text \<open>
  C28. Printed integers are read back: in decimal for each of the four types, in hexadecimal with 16 digits or with any minimal
  width, and as a list that is joined, to fewer than \<open>2 ^ 31\<close> bytes, with a delimiter which is neither zero nor a digit nor the minus sign.
\<close>

theorem printed_integers_are_read_back:
  assumes "1 \<le> width" "width \<le> 16" and "xs \<noteq> []" and "d \<noteq> 0" "d \<noteq> 45" "\<not> isdigit d"
    and "length (Join (map FastInt32ToBufferLeft xs) [d]) < 2 ^ 31"
  shows "safe_strto32 (FastInt32ToBufferLeft i) = Some i \<and> safe_strto64 (FastInt64ToBufferLeft j) = Some j
    \<and> safe_strtou32 (FastUInt32ToBufferLeft u) = Some u \<and> safe_strtou64 (FastUInt64ToBufferLeft v) = Some v
    \<and> HexStringToUint64 (Uint64ToHexString v) = Some v
    \<and> HexStringToUint64 (AlphaNum_Hex v width) = Some v \<and> width \<le> length (AlphaNum_Hex v width)
    \<and> SplitAndParseAsInts (Join (map FastInt32ToBufferLeft xs) [d]) d = Some (True, xs)"
  using safe_strto_printed HexStringToUint64_Uint64ToHexString AlphaNum_Hex_read(1,2)[OF assms(1,2)]
    SplitAndParseAsInts_printed[OF assms(3-7)] by blast

theorem printed_integers_are_read_back_witness:
  "safe_strto32 (FastInt32ToBufferLeft 0x80000000) = Some 0x80000000 \<and> HexStringToUint64 (AlphaNum_Hex 255 8) = Some 255
    \<and> SplitAndParseAsInts (Join (map FastInt32ToBufferLeft [7, - 3]) [44]) 44 = Some (True, [7, - 3])"
proof -
  have "length (Join (map FastInt32ToBufferLeft [7, - 3]) [44]) < 2 ^ 31"
    by (simp add: Join_def c_str_def FastInt32ToBufferLeft_def FastUInt32ToBufferLeft_def digits_reversed.simps)
  then show ?thesis using printed_integers_are_read_back[of 8 "[7, - 3]" 44 "0x80000000" 0 0 255] by (simp add: isdigit_def)
qed

section \<open>Strings\<close>

text \<open>
  C25. A chain of calls of a scanner succeeds exactly when the string can be cut into pieces that the calls take, one after
  the other; the result is then what is left behind them and the part that was marked.
\<close>

theorem scans_cut_the_string:
  "GetResult (fold call ps (Scanner_new source)) = Some (remaining, cap) \<longleftrightarrow>
    (\<exists>xs. source = concat xs @ remaining \<and> cut_into ps xs remaining \<and> cap = captured ps xs)"
  by (rule scan_cuts)

text \<open>
  C32. A file name that is joined to a directory is split off again, with its extension and with the directory, from which one slash
  at the end is gone; and a pattern in a directory finds exactly the files of this directory whose names match it.
\<close>

theorem joined_paths_split:
  assumes "47 \<notin> set stem" "47 \<notin> set e" "46 \<notin> set e"
    and "dir = (if d \<noteq> [] \<and> d \<noteq> [47] \<and> last d = 47 then butlast d else d)"
    and "\<forall>f \<in> set files. 47 \<notin> set f" and "get_children (if dir = [] then [46] else dir) = (None, files)"
  shows "Basename (JoinPath d (stem @ 46 # e)) = stem @ 46 # e \<and> Extension (JoinPath d (stem @ 46 # e)) = e
    \<and> Dirname (JoinPath d (stem @ 46 # e)) = dir
    \<and> GetMatchingFiles get_children fnmatch (JoinPath d (stem @ 46 # e))
        = (None, map (JoinPath (if dir = [] then [46] else dir)) (filter (fnmatch (stem @ 46 # e)) files))"
proof -
  have b: "stem @ 46 # e \<noteq> []" "47 \<notin> set (stem @ 46 # e)" using assms(1,2) by auto
  have dir: "Dirname (JoinPath d (stem @ 46 # e)) = dir" and "Basename (JoinPath d (stem @ 46 # e)) = stem @ 46 # e"
    using SplitPath_JoinPath[OF b, of d] assms(4) by (auto simp: Dirname_def Basename_def)
  moreover have "Extension (JoinPath d (stem @ 46 # e)) = e" using Extension_JoinPath[OF assms(1-3), of d] by (simp add: Extension_def)
  moreover have "GetMatchingFiles get_children fnmatch (JoinPath d (stem @ 46 # e))
      = (None, map (JoinPath (if dir = [] then [46] else dir)) (filter (fnmatch (stem @ 46 # e)) files))"
    using GetMatchingFiles_found[OF b, of files get_children d fnmatch] assms(5,6) unfolding dir by blast
  ultimately show ?thesis by blast
qed

theorem joined_paths_split_witness:
  "Extension (JoinPath [97, 47] [42, 46, 112]) = [112]
    \<and> GetMatchingFiles (\<lambda>dir. (None, if dir = [97] then [[98, 46, 112], [98]] else [])) (\<lambda>p f. drop 1 p = drop 1 f) (JoinPath [97, 47] [42, 46, 112])
      = (None, [JoinPath [97] [98, 46, 112]])"
  using joined_paths_split[of "[42]" "[112]" "[97]" "[97, 47]" "[[98, 46, 112], [98]]" "\<lambda>dir. (None, if dir = [97] then [[98, 46, 112], [98]] else [])"
      "\<lambda>p f. drop 1 p = drop 1 f"]
  by simp

section \<open>Containers\<close>

text \<open>
  C24. A \<open>TopN\<close> keeps the largest: after any sequence of pushes, looks at the bottom and resets, \<open>Extract\<close> gives in order as many of the
  elements pushed since the last reset as the limit allows, none of the others is greater than one of them, \<open>peek_bottom\<close> gives a
  least one of them, and a push gives back what it drops. The algorithms of the C++ library are any that the standard allows.
\<close>

theorem top_n_keeps_the_largest:
  assumes "algorithms_ok lib cmp" "strict_weak cmp" "n < 2 ^ 64 - 1" and "allowed (may_peek n) pushed ps {#}"
  shows "\<exists>t. run_ops (top_step lib cmp) ps (TopN_new n) = Some t \<and> in_order cmp (fst (Extract lib cmp t))
    \<and> best_of cmp n (fold pushed ps {#}) (mset (fst (Extract lib cmp t)))
    \<and> (0 < n \<longrightarrow> fold pushed ps {#} \<noteq> {#} \<longrightarrow> (\<exists>b t'. peek_bottom cmp t = Some (b, t') \<and> b \<in> set (fst (Extract lib cmp t))
        \<and> (\<forall>k \<in> set (fst (Extract lib cmp t)). \<not> cmp b k)))
    \<and> mset (ExtractUnsortedNondestructive (snd (PushInternal lib cmp v t))) + (case fst (PushInternal lib cmp v t) of None \<Rightarrow> {#} | Some d \<Rightarrow> {#d#})
      = add_mset v (mset (ExtractUnsortedNondestructive t))"
proof -
  obtain t where t: "run_ops (top_step lib cmp) ps (TopN_new n) = Some t" "top_ok cmp n t (fold pushed ps {#})"
    using top_n.runs[OF _ assms(4), of lib cmp "TopN_new n"] new_top_ok[OF assms(3)] assms(1,2) by blast
  have x: "mset (fst (Extract lib cmp t)) = kept t" "in_order cmp (fst (Extract lib cmp t))" using extract_ok[OF assms(1) t(2)] by simp_all
  moreover have best: "best_of cmp n (fold pushed ps {#}) (kept t)" using t(2) by (simp add: top_ok_def)
  ultimately have s: "x \<in> set (fst (Extract lib cmp t)) \<longleftrightarrow> x \<in># kept t" for x by (metis set_mset_mset)
  have "\<exists>b t'. peek_bottom cmp t = Some (b, t') \<and> b \<in> set (fst (Extract lib cmp t)) \<and> (\<forall>k \<in> set (fst (Extract lib cmp t)). \<not> cmp b k)"
    if "0 < n" "fold pushed ps {#} \<noteq> {#}"
    using peek_ok[OF assms(2) t(2) that] s by metis
  then show ?thesis using t(1) x best conjunct2[OF push_ok[OF assms(1,2) t(2), of v]] unfolding kept_def[symmetric]
    by (intro exI[of _ t]) simp
qed

theorem top_n_keeps_the_largest_witness:
  "\<exists>t. run_ops (top_step by_sorting (>)) [TopPush 3, TopPush (9 :: nat), TopPush 4, TopPeek, TopPush 7] (TopN_new 2) = Some t
    \<and> in_order (>) (fst (Extract by_sorting (>) t)) \<and> best_of (>) 2 {#3, 9, 4, 7#} (mset (fst (Extract by_sorting (>) t)))"
proof -
  have "strict_weak ((>) :: nat \<Rightarrow> nat \<Rightarrow> bool)" by (auto simp: strict_weak_def)
  with top_n_keeps_the_largest[OF by_sorting_ok[OF this] this, of 2 "[TopPush 3, TopPush 9, TopPush 4, TopPeek, TopPush 7]"]
  show ?thesis by (auto simp: add_mset_commute)
qed

text \<open>
  C23. An \<open>InlinedVector\<close> is a list: after any operations, in which positions stay inside and sizes stay below \<open>2 ^ 47\<close>, every call has
  returned and two vectors read as the lists after these operations do; they are equal when the lists are, swapping exchanges what they
  hold, and copying and assigning copy it, wherever the elements are kept.
\<close>

theorem inlined_vector_refines_a_list:
  assumes "fit < kSentinel" and "allowed vec_ok list_step ps []" "allowed vec_ok list_step qs []"
  shows "\<exists>a b. run_ops (vec_step fit) ps (ivec_new fit) = Some a \<and> run_ops (vec_step fit) qs (ivec_new fit) = Some b
    \<and> reads_like a (fold list_step ps []) \<and> reads_like b (fold list_step qs []) \<and> (ivec_eq a b \<longleftrightarrow> fold list_step ps [] = fold list_step qs [])
    \<and> (\<exists>a' b'. ivec_swap fit a b = Some (a', b') \<and> reads_like a' (fold list_step qs []) \<and> reads_like b' (fold list_step ps []))
    \<and> (\<exists>c. ivec_copy fit a = Some c \<and> reads_like c (fold list_step ps [])) \<and> (\<exists>c. ivec_assign fit a b = Some c \<and> reads_like c (fold list_step ps []))"
proof -
  obtain a b where r: "run_ops (vec_step fit) ps (ivec_new fit) = Some a" "run_ops (vec_step fit) qs (ivec_new fit) = Some b"
    and h: "holds_items fit a (fold list_step ps [])" "holds_items fit b (fold list_step qs [])"
    using vector_runs[OF assms(1,2)] vector_runs[OF assms(1,3)] by blast
  show ?thesis
    using r holds_reads[OF h(1)] holds_reads[OF h(2)] eq_ok[OF h] swap_ok[OF h] copy_ok[OF h(1)] assign_ok[OF h]
    by (meson holds_reads)
qed

theorem inlined_vector_refines_a_list_witness:
  "\<exists>a b. run_ops (vec_step 2) [VPush (1 :: nat), VPush 2, VPush 3, VErase 0, VInsert 1 5] (ivec_new 2) = Some a \<and> run_ops (vec_step 2) [VPush 4] (ivec_new 2) = Some b
    \<and> reads_like a [2, 5, 3] \<and> (\<exists>a' b'. ivec_swap 2 a b = Some (a', b') \<and> reads_like a' [4] \<and> reads_like b' [2, 5, 3])"
proof -
  let ?ps = "[VPush 1, VPush 2, VPush 3, VErase 0, VInsert 1 (5 :: nat)]" and ?qs = "[VPush (4 :: nat)]"
  have "(2 :: nat) < kSentinel" "allowed vec_ok list_step ?ps []" "allowed vec_ok list_step ?qs []" by (simp_all add: kSentinel_def)
  moreover have "fold list_step ?ps [] = [2, 5, 3]" "fold list_step ?qs [] = [4]" by simp_all
  ultimately show ?thesis using inlined_vector_refines_a_list[of 2 ?ps ?qs] by metis
qed

section \<open>Histograms\<close>



section \<open>Audio files\<close>

text \<open>
  C31. A WAV file holds its audio: for sizes that fit the format, the file has a header of 44 bytes with the number of bytes behind it, the
  channels and the rate, and then two bytes for every sample, which read as \<open>k\<close> where the sample is \<open>k\<close> parts of \<open>2 ^ 15\<close>. The rate of
  bytes in the header leaves the channels out. Where the number of samples is \<open>2 ^ 63\<close> or more and twice it wraps to a size that
  fits, the samples are written behind the file.
\<close>

theorem wav_files_hold_their_samples:
  assumes "0 < sr" "sr \<le> 0xFFFFFFFF" "0 < ch" "ch \<le> 0xFFFF" "0 < fr" and "n = unat fr * unat ch" "44 + 2 * n < 2 ^ 32"
    and "n \<le> length audio" "NaN \<notin> set (take n audio)"
  shows "\<exists>out. EncodeAudioAsS16LEWav (Some audio) sr ch fr (Some wav) = Some (Inr out) \<and> length out = 44 + 2 * n
    \<and> DecodeFixed32 (drop 4 out) = Some (of_nat (length out - 8)) \<and> DecodeFixed16 (drop 22 out) = Some (ucast ch)
    \<and> DecodeFixed32 (drop 24 out) = Some (ucast sr) \<and> DecodeFixed32 (drop 28 out) = Some (ucast (sr * 2)) \<and> DecodeFixed32 (drop 40 out) = Some (of_nat (2 * n))
    \<and> (\<forall>i < n. \<forall>k. audio ! i = Fin (of_int k / 2 ^ 15) \<longrightarrow> - 32768 \<le> k \<longrightarrow> k \<le> 32767 \<longrightarrow> DecodeFixed16 (drop (44 + 2 * i) out) = Some (of_int k))
    \<and> (\<forall>huge. 2 ^ 63 \<le> huge * ch \<longrightarrow> 44 + huge * ch * 2 \<le> 0xFFFFFFFF \<longrightarrow> EncodeAudioAsS16LEWav (Some audio) sr ch huge (Some wav) = None)"
proof -
  let ?wav = "wav_file sr ch (take n audio)"
  have l: "length (take n audio) = n" using assms(8) by simp
  have "DecodeFixed16 (drop (44 + 2 * i) ?wav) = Some (of_int k)"
    if "i < n" "audio ! i = Fin (of_int k / 2 ^ 15)" "- 32768 \<le> k" "k \<le> 32767" for i k
    using sample_read[of i "take n audio"] that sample_exact[of k] l by simp
  moreover have "EncodeAudioAsS16LEWav (Some audio) sr ch huge (Some wav) = None" if "2 ^ 63 \<le> huge * ch" "44 + huge * ch * 2 \<le> 0xFFFFFFFF" for huge
    by (rule wav_overrun[OF assms(1-4) _ that]) (use that(1) in \<open>auto simp: word_neq_0_conv[symmetric]\<close>)
  ultimately show ?thesis using wav_written[OF assms, of wav] wav_fields[of sr ch "take n audio"] unfolding l by blast
qed

theorem wav_files_hold_their_samples_witness:
  "\<exists>out. EncodeAudioAsS16LEWav (Some [Fin (- 1), Fin (1 / 2), Inf False]) 8000 1 3 (Some []) = Some (Inr out) \<and> length out = 50
    \<and> DecodeFixed16 (drop 44 out) = Some (- 32768) \<and> DecodeFixed16 (drop 46 out) = Some 16384
    \<and> EncodeAudioAsS16LEWav (Some [Fin (- 1), Fin (1 / 2), Inf False]) 8000 1 0x8000000000000000 (Some []) = None"
proof -
  let ?a = "[Fin (- 1), Fin (1 / 2), Inf False]"
  obtain out where f: "EncodeAudioAsS16LEWav (Some ?a) 8000 1 3 (Some []) = Some (Inr out)" "length out = 50"
    "\<And>i k. i < 3 \<Longrightarrow> ?a ! i = Fin (of_int k / 2 ^ 15) \<Longrightarrow> - 32768 \<le> k \<Longrightarrow> k \<le> 32767 \<Longrightarrow> DecodeFixed16 (drop (44 + 2 * i) out) = Some (of_int k)"
    "\<And>huge. 2 ^ 63 \<le> huge * 1 \<Longrightarrow> 44 + huge * 1 * 2 \<le> (0xFFFFFFFF :: 64 word) \<Longrightarrow> EncodeAudioAsS16LEWav (Some ?a) 8000 1 huge (Some []) = None"
    using wav_files_hold_their_samples[of 8000 1 3 3 ?a "[]"] by auto
  then show ?thesis using f(3)[of 0 "- 32768"] f(3)[of 1 16384] f(4)[of "0x8000000000000000"] by auto
qed

section \<open>Threads\<close>

text \<open>
  C29. A shared object is deleted once and at the end: in every interleaving of the accesses of \<open>Ref\<close> and \<open>Unref\<close>, with fewer than \<open>2 ^ 31\<close>
  references, no access meets a deleted object and no assertion fails; \<open>RefCountIsOne\<close> tells an owner whether it is the only one; the object is
  deleted exactly when no reference is left; and owners that give their references up always come to an end, with the object deleted.
\<close>

theorem shared_objects_are_deleted_once:
  assumes "rc_reachable (x, M)"
  shows "(\<forall>p \<in># M. p \<noteq> Held \<longrightarrow> access p x \<noteq> None)
    \<and> (Held \<in># M \<longrightarrow> begin_Ref x \<noteq> None \<and> begin_Unref x \<noteq> None \<and> RefCountIsOne x = Some (M = {#Held#}))
    \<and> (deleted x \<longleftrightarrow> M = {#}) \<and> (\<exists>y. gives_up\<^sup>*\<^sup>* (x, M) (y, {#}) \<and> deleted y) \<and> wfp (\<lambda>t s. gives_up s t)"
proof -
  have inv: "rc_inv (x, M)" by (rule reachable_inv[OF assms])
  have "begin_Ref x \<noteq> None \<and> begin_Unref x \<noteq> None \<and> RefCountIsOne x = Some (M = {#Held#})" if h: "Held \<in># M"
  proof -
    have c: "counted x M" by (rule inv_access(2)[OF inv h refl])
    have "size M = 1 \<longleftrightarrow> M = {#Held#}" using one_owner[OF h] by auto
    then show ?thesis using countedD[OF c] by (simp add: begin_Ref_def begin_Unref_def RefCountIsOne_def)
  qed
  moreover have "deleted x \<longleftrightarrow> M = {#}" using inv by (auto simp: rc_inv_def counted_def)
  moreover have "\<forall>p \<in># M. p \<noteq> Held \<longrightarrow> access p x \<noteq> None" using inv_access(1)[OF inv] by fastforce
  ultimately show ?thesis using ends_deleted[OF inv] gives_up_terminates by blast
qed

theorem shared_objects_are_deleted_once_witness:
  "\<exists>x. rc_reachable (x, {#Held, Held#}) \<and> ref_count x = 2 \<and> RefCountIsOne x = Some False \<and> (\<exists>y. gives_up\<^sup>*\<^sup>* (x, {#Held, Held#}) (y, {#}) \<and> deleted y)"
proof -
  have "rc_step (object_new, {#Held#}) (object_new, {#Held#} - {#Held#} + {#Adding#})"
    by (rule rc_step.ref) (simp_all add: room_def begin_Ref_def object_new_def word_sle_eq)
  then have a: "rc_reachable (object_new, {#Adding#})" using rc_reachable.step[OF rc_reachable.created] by simp
  have "rc_step (object_new, {#Adding#}) (object_new\<lparr>ref_count := 2\<rparr>, {#Adding#} - {#Adding#} + {#Held, Held#})"
    by (rule rc_step.go_on) (simp_all add: object_new_def)
  then have r: "rc_reachable (object_new\<lparr>ref_count := 2\<rparr>, {#Held, Held#})" using rc_reachable.step[OF a] by simp
  show ?thesis using shared_objects_are_deleted_once[OF r] r by (intro exI[of _ "object_new\<lparr>ref_count := 2\<rparr>"]) simp
qed

text \<open>
  C30. Waiting threads are released when all is done and not before: after any interleaving of the critical sections, with wake-ups nobody asked for,
  \<open>Wait\<close> has returned only if all of the \<open>n\<close> decrements have happened, then no thread is left blocked and all of them can return, and exactly then
  another decrement fails; the same holds of a notification and its one call of \<open>Notify\<close>, with time limits or without.
\<close>

theorem waiting_threads_are_released:
  assumes "BlockingCounter_new n = Some c" "monitor_reached counter_waits DecrementCount False c k m"
    and "monitor_reached notification_waits Notify limited Notification_new k' m'"
  shows "(0 < returned m \<longrightarrow> int k = sint n) \<and> (DecrementCount (guarded m) = None \<longleftrightarrow> int k = sint n)
    \<and> (int k = sint n \<longrightarrow> blocked m = 0 \<and> (wait_step counter_waits False)\<^sup>*\<^sup>* m (m\<lparr>testing := 0, returned := returned m + testing m\<rparr>))
    \<and> (0 < returned m' \<longrightarrow> k' = 1) \<and> (Notify (guarded m') = None \<longleftrightarrow> k' = 1) \<and> (HasBeenNotified (guarded m') \<longleftrightarrow> k' = 1)
    \<and> (k' = 1 \<longrightarrow> blocked m' = 0 \<and> (wait_step notification_waits limited)\<^sup>*\<^sup>* m' (m'\<lparr>testing := 0, returned := returned m' + testing m'\<rparr>))"
proof -
  have c: "0 \<le>s c" "c = n" using assms(1) by (auto simp: BlockingCounter_new_def split: if_splits)
  have g: "0 \<le>s guarded m" "sint (guarded m) = sint n - int k" using counted_down[OF assms(2)] c by auto
  have w: "counter_waits (guarded m) \<longleftrightarrow> int k \<noteq> sint n" using g by (auto simp: counter_waits_def word_sless_alt word_sle_eq)
  have "DecrementCount (guarded m) = None \<longleftrightarrow> int k = sint n" using decrement_sint(1)[OF g(1)] w by (simp add: counter_waits_def)
  moreover have k': "k' = 1 \<longleftrightarrow> guarded m'" "notification_waits (guarded m') \<longleftrightarrow> k' \<noteq> 1"
    using notified_once[OF assms(3)] by (auto simp: notification_waits_def)
  ultimately show ?thesis
    using blocking_counter.when_open[OF assms(2) c(1)] notification.when_open[OF assms(3) TrueI] w
    by (auto simp: Notify_def HasBeenNotified_def)
qed

theorem waiting_threads_are_released_witness:
  "\<exists>m. monitor_reached counter_waits DecrementCount False 1 1 m \<and> testing m = 1 \<and> blocked m = 0
    \<and> (wait_step counter_waits False)\<^sup>*\<^sup>* m (m\<lparr>testing := 0, returned := 1\<rparr>)"
proof -
  let ?m = "\<lparr>guarded = 1, testing = 1, blocked = 0, returned = 0, timed_out = 0\<rparr> :: 32 word monitor"
  have "wait_step counter_waits False (monitor_new 1) ?m"
    using wait_step.arrive[of counter_waits False "monitor_new 1"] by (simp add: monitor_new_def)
  then have a: "monitor_reached counter_waits DecrementCount False 1 0 ?m" by (rule monitor_reached.wait[OF monitor_reached.start])
  have "wait_step counter_waits False ?m (?m\<lparr>testing := 0, blocked := 1\<rparr>)"
    using wait_step.sleep[of ?m counter_waits False] by (simp add: counter_waits_def word_sless_alt)
  then have b: "monitor_reached counter_waits DecrementCount False 1 0 (?m\<lparr>testing := 0, blocked := 1\<rparr>)" by (rule monitor_reached.wait[OF a])
  have "do_signal DecrementCount (?m\<lparr>testing := 0, blocked := 1\<rparr>) = Some (?m\<lparr>guarded := 0\<rparr>)"
    by (simp add: do_signal_def DecrementCount_def)
  then have r: "monitor_reached counter_waits DecrementCount False 1 1 (?m\<lparr>guarded := 0\<rparr>)" using monitor_reached.signal[OF b] by simp
  have "BlockingCounter_new 1 = Some 1" by (simp add: BlockingCounter_new_def word_sle_eq)
  from waiting_threads_are_released[OF this r monitor_reached.start, of False] show ?thesis
    using r by (intro exI[of _ "?m\<lparr>guarded := 0\<rparr>"]) simp
qed

section \<open>Shapes of tensors\<close>

text \<open>
  C40. Broadcasting follows the rule of its documentation: for shapes whose dimensions are not negative and whose broadcast has fewer than \<open>2 ^ 63\<close>
  elements, two shapes are compatible exactly when every two aligned dimensions are equal or one of them is 1; then the client that reshapes and
  broadcasts as it is told finds at every place of the output the element that the rule asks for, also where runs of dimensions
  have been merged into one; and the dimensions to sum over for a gradient are those of size 1, unless the shapes are equal.
\<close>

theorem broadcasts_place_the_elements:
  assumes "\<forall>d \<in> set sx \<union> set sy. 0 \<le> d" and "size_bound (paired sx sy) < 2 ^ 63"
  shows "\<exists>b. BCast_new sx sy fewer = Some b \<and> (bcast_valid b \<longleftrightarrow> list_all dims_fit (paired sx sy)) \<and> (bcast_valid b \<longrightarrow> broadcasts b sx sy)
    \<and> (bcast_valid b \<longrightarrow> \<not> (sx = sy \<and> fewer) \<longrightarrow>
        grad_x_reduce_idx b = map int (filter (\<lambda>i. aligned_dims sx sy ! i = 1) [0..<max (length sx) (length sy)])
      \<and> grad_y_reduce_idx b = map int (filter (\<lambda>i. aligned_dims sy sx ! i = 1) [0..<max (length sx) (length sy)]))"
  using BCast_ok[OF assms, of fewer] slow_path[OF assms, of fewer] by blast

theorem broadcasts_place_the_elements_witness:
  "\<exists>b. BCast_new [2, 3, 4] [3, 4] True = Some b \<and> broadcasts b [2, 3, 4] [3, 4] \<and> grad_y_reduce_idx b = [0]"
proof -
  have "list_all dims_fit (paired [2, 3, 4] [3, 4])" "size_bound (paired [2, 3, 4] [3, 4]) < 2 ^ 63"
    by (simp_all add: paired_def aligned_dims_def dims_fit_def size_bound_def out_dim_def)
  then show ?thesis using broadcasts_place_the_elements[of "[2, 3, 4]" "[3, 4]" True] by (auto simp: aligned_dims_def upt_rec)
qed

end
