(* ===== verification/Spec2Isabelle.thy ===== *)
theory Spec2Isabelle
  imports Sample TfLib TfUtil
begin

text \<open>
  Beamerscope shapes the light source of a microscope: an Android app takes an image, a C++ library
  transforms it, and a neural network turns the spectrum into the 48 parameters of the illumination. This
  development models the C++ of the repository: the image library under jni-native/jni, the call into the
  network under jni-native_OLD/jni, and the storage, coding, random, string and container code of the TensorFlow
  library that is kept there as source (jni-native_OLD/jni/include/tensorflow/core/lib).

  \<^bold>\<open>The program and its theories.\<close> The Java side calls the functions of common.cpp with the address of a
  \<open>cv::Mat\<close>; these call the image functions, which work on the buffers the images share, and the functions
  of jni_tensorflow.cc, which keep one session of the network.
  \<^item> \<open>Prelude\<close>: operations on a state that may fail (\<open>act\<close>, with \<open>bindA\<close>, \<open>thenA\<close> and the loops \<open>for_each\<close> and
    \<open>fold_each\<close>), C's division, powers of two. \<open>Fp\<close>: \<open>float\<close> and \<open>double\<close> with round to nearest, infinities and NaN.
  \<^item> \<open>CvMat\<close>: \<open>cv::Mat\<close> as a header with a pointer into a buffer (core/mat.inl.hpp, core/cvdef.h), the state
    \<open>world\<close> (buffers, messages, the chosen colour map), checked element access. \<open>CvLib\<close>: the compiled part of OpenCV as
    the record \<open>opencv\<close> of functions, with what its documentation promises as predicates named after the
    functions (\<open>zeros_law\<close>, \<open>roi_law\<close> and others, collected in \<open>fresnel_lib\<close>, \<open>images_lib\<close>, \<open>vector_lib\<close>).
  \<^item> \<open>CircShift\<close>, \<open>ComplexOps\<close>, \<open>ImageOps\<close>, \<open>StdComplex\<close>, \<open>Fresnel\<close>, \<open>FastSqrt\<close>: the functions of cvComplex.cpp.
    \<open>QDpc\<close>: jni_qDPC.cpp. \<open>IllParameter\<close>: jni_illparameter.cpp.
  \<^item> \<open>TfUtils\<close>: jni_utils.cc. \<open>TfSession\<close>: loading and running the graph in jni_tensorflow.cc, the session and the
    assets parameters in a record. \<open>NativeBridge\<close>: the exported functions over a map from addresses to images.
  \<^item> \<open>Sample\<close>: a concrete \<open>opencv\<close> that keeps all the promises, and small images, for the witnesses.
  \<^item> This theory states the properties of the image part and of the network.

  The library of TensorFlow is modelled by the theories below; \<open>TfLib\<close> states the properties of the first group and
  \<open>TfUtil\<close> those of the second. The first group codes, stores and draws.
  \<^item> \<open>Codec\<close>: the locales \<open>codec\<close> (a writer that appends and a reader that takes off) and \<open>ordered_codec\<close> (encodings that
    sort as their values). \<open>Coding\<close> (core/coding.cc, core/raw_coding.h), \<open>OrderedCode\<close> and \<open>SignedCode\<close>
    (strings/ordered_code.cc) interpret them, so that sequences of fields are read back and compare.
  \<^item> \<open>Crc32c\<close>, \<open>Hash\<close> (hash/), \<open>Bits\<close> (core/bits.h), \<open>StrUtil\<close> (strings/str_util.cc), \<open>EditDistance\<close>
    (gtl/edit_distance.h), \<open>Arena\<close> (core/arena.cc).
  \<^item> \<open>Philox\<close>, \<open>Uniform\<close>, \<open>Sampler\<close>, \<open>Picker\<close> (random/): the generator as a record, uniform integers and floats, the alias
    table, the tree of weights.
  \<^item> \<open>Simulation\<close>: the locales \<open>simulation\<close> (an operation and its abstract counterpart) and \<open>iterator\<close> (positioning,
    stepping, key and value over a list of pairs), the contracts that \<open>Picker\<close>, \<open>InputBuffer\<close>, \<open>Blocks\<close>, \<open>Table\<close>,
    \<open>InlinedVector\<close>, \<open>TopN\<close> and \<open>Histogram\<close> meet.
  \<^item> \<open>Records\<close> (io/record_writer.cc, record_reader.cc). \<open>InputBuffer\<close> (io/inputbuffer.cc).
  \<^item> \<open>Blocks\<close> and \<open>BlockSeek\<close> (io/block_builder.cc, block.cc), \<open>Format\<close> (io/format.cc), \<open>TableBuilder\<close>
    (io/table_builder.cc), \<open>Table\<close> (io/table.cc, two_level_iterator.cc, iterator.cc): a sorted table of strings in
    a file, from the bytes of one entry to the lookup of a key.

  The second group holds the helpers that the rest of the library is built with.
  \<^item> \<open>Numbers\<close> (strings/numbers.cc, strcat.cc): integers printed and parsed. \<open>Path\<close> (core/stringpiece.cc, io/path.cc,
    io/match.cc): pieces of strings, paths and patterns of files. \<open>Scanner\<close> (strings/scanner.h, scanner.cc).
  \<^item> \<open>InlinedVector\<close> (gtl/inlined_vector.h): a vector as the bytes and words of its representation, inline or allocated.
    \<open>TopN\<close> (gtl/top_n.h): the largest elements, in its three states. \<open>Histogram\<close> (histogram/histogram.cc). \<open>Wav\<close>
    (wav/wav_io.cc): the encoder of audio files. \<open>BCast\<close> (util/bcast.cc): the shapes of a broadcast.
  \<^item> \<open>RefCount\<close> (core/refcount.h): references taken and dropped by several threads, one access to the counter a step.
    \<open>Monitor\<close> (core/blocking_counter.h, platform/default/notification.h): the locale \<open>gate\<close>, a condition behind a lock
    that some threads wait for and others make true, with the counter and the notification as its interpretations.

  \<^bold>\<open>Correspondence.\<close> Functions keep their names; a loop is a definition of its own with a name after what it does.
  An image operation has the type \<open>world \<Rightarrow> err + result \<times> world\<close>: a C++ exception, a read outside of an array and a
  wrong element type are values of \<open>err\<close>. Writes through an image change the buffer, so images that share one
  change together, and an operation with equal input and output reads what it has just written. Numbers of fixed width
  are words; sizes and offsets that cannot wrap are natural numbers. In the library of TensorFlow a status is \<open>status
  option\<close>, \<open>None\<close> for success, and an object is a record that the operations return updated.

  \<^bold>\<open>What the lemmas show.\<close> Each component has lemmas that give the result of an operation on every branch and
  say which images or fields it leaves alone (names ending in \<open>_value\<close>, \<open>_ok\<close>, \<open>_keeps\<close>); the rule \<open>pixel_loop_rule\<close>
  carries the loops over pixels. \<open>FastSqrt\<close> shows that the iteration on the grid of floats descends to the
  rounded root. \<open>Coding\<close> to \<open>SignedCode\<close> show that reading undoes writing and that codes sort. \<open>Blocks\<close> relates a
  builder to the pairs it holds (\<open>holds\<close>) and an iterator to the place where it stands (\<open>stands_before\<close>); \<open>BlockSeek\<close>
  shows that the binary search finds the place; \<open>TableBuilder\<close> keeps the invariant that the file and the two open
  blocks hold the pairs added so far, cut into chunks with separating keys; \<open>Table\<close> shows that the iterator over the
  blocks meets the contract of \<open>iterator\<close> on the file so described. \<open>Arena\<close> keeps the invariant that the memory
  handed out and the rest of the current block do not overlap. \<open>InlinedVector\<close>, \<open>TopN\<close> and \<open>Histogram\<close> relate the
  representation to a list, to the elements pushed and to the values added. \<open>Numbers\<close>, \<open>Path\<close> and \<open>Wav\<close> show that what is
  written is read back, \<open>Scanner\<close> that a chain of calls cuts the string where it should. \<open>RefCount\<close> and \<open>Monitor\<close> show
  invariants of every interleaving by rule induction, and \<open>Monitor\<close> also that no thread waits for ever. \<open>BCast\<close>
  shows that merged dimensions place the elements where separate ones do.

  \<^bold>\<open>Bounds and fuel.\<close> A loop that may not end is a \<open>partial_function\<close> into \<open>option\<close>; theorems that it ends are
  stated as such, and \<open>fastSqrt_diverges\<close> and \<open>picker_constructor_loops\<close> state where it does not. In the builders
  and readers of tables \<open>None\<close> is also an assertion that fails or a read outside of the block. \<open>collect n\<close>
  steps an iterator at most \<open>n\<close> times, and the theorems hold for every \<open>n\<close> from the number of pairs on. The round
  trip of a table needs the weight of its pairs below \<open>2 ^ 30\<close>, so that block sizes and restart offsets, which the
  code keeps in 32 bits, are exact. Files are shorter than \<open>2 ^ 63\<close> bytes (the type \<open>int64\<close> of positions), and the
  alignment asked of an arena is at most \<open>2 ^ 20\<close> after rounding, as the code asserts. Inlined vectors have at most
  \<open>2 ^ 47\<close> elements, which fits the 48 bits of their size, and the inline ones fewer than 255; the counts of a
  histogram stay below \<open>2 ^ 53\<close>, up to which \<open>double\<close> is exact; the limit of \<open>TopN\<close> is below \<open>2 ^ 64 - 1\<close>, since the code adds
  one to it; texts that are split have fewer than \<open>2 ^ 31\<close> bytes, since positions are an \<open>int\<close> there; sizes asked of an
  arena do not wrap when they are rounded up (\<open>no_wrap\<close>); an object has fewer than \<open>2 ^ 31\<close> references; a WAV file is shorter than \<open>2 ^ 32\<close> bytes; a broadcast has fewer than
  \<open>2 ^ 63\<close> elements. The steps of threads are sequentially consistent.

  \<^bold>\<open>Parameters.\<close> OpenCV's compiled functions, the session of TensorFlow, the assets and the clock, the functions of
  the C library on \<open>double\<close>, files, the listing of a directory, \<open>fnmatch\<close>, zlib, Snappy, \<open>malloc\<close>, the heap and sorting
  algorithms of the C++ library, and the addresses of buffers. What the theorems need of
  them is documented behaviour and is stated as a named predicate; each has an instance in a witness. A file that is read answers
  \<open>OutOfRange\<close> when it has fewer bytes than asked for, and an allocation may return null.

  \<^bold>\<open>What modelling showed.\<close>
  Several theorems state behaviour that is not what the code means to do: \<open>complexInverse\<close> is not the
  inverse, \<open>complexScalarMultiply\<close> loses its result when the output is empty, \<open>complexMultiply\<close> on its own operand spoils it,
  \<open>fftShift\<close> is used where its inverse is needed, images that are not square end in an exception, \<open>qDPC_loop\<close> reads
  outside of small images, the results of the network are not mapped to the unit interval, and the session is
  used without a check, and a shift by a multiple of the width makes \<open>circularShift\<close> copy empty rectangles, which
  a library may refuse (\<open>circularShift_refuses_whole_turns\<close>). In the library: the rows of the edit distance start from zeros, a carry of the counter
  of the generator is lost, the constructor of the picker loops for more than \<open>2 ^ 30\<close> weights, a long
  hexadecimal escape wraps, an assertion of the arena fails after rounding up, a last line of carriage
  returns is dropped, and the length check of block entries wraps in 32 bits; inserting an element of an
  inlined vector into itself reads it after it has moved, and a capacity above \<open>2 ^ 63\<close> wraps and is doubled for ever; a
  histogram counts a value that is not below its last limit behind its buckets; the WAV encoder leaves the channels out of the byte
  rate, its sizes wrap and a NaN sample is converted; unsigned numbers are parsed in signed arithmetic, and
  long hexadecimal numbers lose their first digits; a record file that is cut inside a header looks as if it ended there; an
  arena does not check its first block, and the size of a block wraps near the largest size.

  \<^bold>\<open>Not modelled.\<close> The headers of OpenCV (declarations and templates of a binary library) and the older copies of the
  image files under jni-native_OLD; generated protocol buffers, the vendored protobuf and Eigen; the kernels and the
  runtime of TensorFlow, which the program reaches through the session only; the image file formats,
  which call libraries that are not in the repository; the thread pool and the monitoring; floating-point and
  human-readable number printing; the default limits and the printed form of a histogram; the normal distributions, which use the logarithm and the sine of the C library; destructors
  and clean-up functions; the difference between unescaping in place and into a copy; the Java side of the app.
\<close>

section \<open>From an image to the parameters of the light source\<close>




definition zero_net :: "(unit, unit) tf_lib" where
  "zero_net = \<lparr>assets = \<lparr>file_bytes = (\<lambda>_. Some []), has_manager = True, asset_bytes = (\<lambda>_. Some []), open_fd = (\<lambda>_. None),
     fd_bytes = (\<lambda>_. []), parse_msg = (\<lambda>_. Some ())\<rparr>, tf_create = (\<lambda>_. True), tf_run = (\<lambda>_ _ _. (True, [replicate 48 (Fin 0)]))\<rparr>"



section \<open>Phase contrast\<close>

text \<open>
  C2. \<open>calcDPC\<close> on two images that are not of type float computes, in memory of its own, the
  library's difference divided by the sum, times a disc around the centre, and converts it to bytes: where the smallest and the
  largest value are two different floats, along the line that takes the one to 0 and the other to 255, up to the
  rounding of its two coefficients. The caller's images keep their values.
\<close>

theorem calcDPC_refines_spec:
  assumes "images_lib cv" "setTo_law cv" and "hdr_ok w image1" "depth image1 \<noteq> CV_32F" and "hdr_ok w image2" "depth image2 \<noteq> CV_32F"
    and "calcDPC_spec cv (value_of w image1) (value_of w image2) = Inr x"
  shows "(\<exists>m w'. calcDPC cv image1 image2 w = Inr (m, w') \<and> value_of w' m = x
      \<and> (\<forall>y. hdr_ok w y \<longrightarrow> hdr_ok w' y \<and> value_of w' y = value_of w y))
    \<and> (\<exists>p. dpc_quotient cv (value_of w image1) (value_of w image2) = Inr p \<and> (\<forall>lo hi. lib_minMaxLoc cv p = Inr (Fin lo, Fin hi) \<longrightarrow>
        representable binary32 lo \<longrightarrow> representable binary32 hi \<longrightarrow> lo < hi \<longrightarrow>
        (\<exists>a b. maps_range lo hi a b \<and> lib_convertTo cv p CV_8UC1 (Fin a) (Fin b) = Inr x)))"
proof
  show "\<exists>m w'. calcDPC cv image1 image2 w = Inr (m, w') \<and> value_of w' m = x
      \<and> (\<forall>y. hdr_ok w y \<longrightarrow> hdr_ok w' y \<and> value_of w' y = value_of w y)"
    using calcDPC_refines[OF assms] keepsD hdr_ok_buf by (metis option.distinct(1))
qed (rule calcDPC_spec_line[OF assms(7)])

lemma maketype_32: "CV_MAKETYPE CV_32FC1 1 = CV_32FC1"
  by (simp add: CV_32FC1_def CV_MAKETYPE_def CV_MAT_DEPTH_mod CV_32F_def push_bit_eq_mult)

lemma dpc_value: "calcDPC_spec plain_cv (value_of small_world ba) (value_of small_world bb) \<noteq> Inl e"
  by (simp add: calcDPC_spec_def dpc_quotient_def plain_cv_def cell_wise_def cell_wise2_def samples maketype_32 Let_def)


theorem calcDPC_refines_spec_witness:
  "\<exists>x m w'. calcDPC_spec plain_cv (value_of small_world ba) (value_of small_world bb) = Inr x
    \<and> calcDPC plain_cv ba bb small_world = Inr (m, w') \<and> value_of w' m = x"
proof -
  have "depth ba \<noteq> CV_32F" "depth bb \<noteq> CV_32F" by (simp_all add: samples CV_32F_def)
  moreover obtain x where "calcDPC_spec plain_cv (value_of small_world ba) (value_of small_world bb) = Inr x"
    using dpc_value by (cases "calcDPC_spec plain_cv (value_of small_world ba) (value_of small_world bb)") auto
  ultimately show ?thesis
    using calcDPC_refines_spec[of plain_cv small_world ba bb x] by auto
qed

text \<open>
  C3. \<open>qDPC_loop\<close> prints element (500, 500) of the first transform before anything else is done with it.
  For an image of at most 500 rows (the app passes images of 400 by 400) the element lies outside the
  image: the read is out of bounds, whatever the library, the transfer functions and the regularisation.
\<close>

theorem qDPC_loop_reads_outside:
  assumes "qdpc_lib cv" and "qdpc_input w d t" and "nrows d \<le> 500"
  shows "qDPC_loop cv lm (d # ds) (t # ts) reg w = Inl OutOfBounds"
  using qDPC_loop_small_image[OF assms(1) refl refl assms(2,3)] .

theorem qDPC_loop_reads_outside_witness:
  "nrows ba = 2 \<and> qDPC_loop plain_cv plain_libm [ba, bb] [ra, ra] (Fin 1) small_world = Inl OutOfBounds"
proof -
  have "qdpc_input small_world ba ra" by (simp add: qdpc_input_def) (simp add: samples)
  moreover have "nrows ba = 2" by (simp add: samples)
  ultimately show ?thesis using qDPC_loop_reads_outside[of plain_cv small_world ba ra plain_libm "[bb]" "[ra]" "Fin 1"] by simp
qed

section \<open>Rotation and the exchange of quadrants\<close>

text \<open>
  C4. \<open>circularShift\<close> of an image to another one of the same size and type succeeds for every
  shift, negative or larger than the image, that is no multiple of the width or of the height: pixel (i, j) of the result is pixel
  ((i - y) mod height, (j - x) mod width) of the input, every channel of it, and no image
  in another buffer changes. (A multiple makes it copy empty rectangles, \<open>circularShift_refuses_whole_turns\<close>.)
\<close>

theorem circularShift_rotates:
  assumes "shift_lib cv" and "x mod mcols img \<noteq> 0" "y mod mrows img \<noteq> 0" and "hdr_ok w img" "0 < mcols img" "0 < mrows img"
    and "hdr_ok w result" and "buf_of img \<noteq> buf_of result" and "mtype img = mtype result"
    and "mrows img = mrows result" "mcols img = mcols result"
  shows "\<exists>v. circularShift cv img result x y w = Inr ((), v) \<and> keeps w (buf_of result) v
    \<and> (\<forall>i < nrows img. \<forall>j < ncols img. \<forall>c < nch img. img_at (value_of v result) i (j * nch img + c)
        = img_at (value_of w img) (nat ((int i - y) mod mrows img)) (nat ((int j - x) mod mcols img) * nch img + c))"
proof -
  have e: "img_at (shift_img x y (value_of w img)) i (j * nch img + c)
      = img_at (value_of w img) (nat ((int i - y) mod mrows img)) (nat ((int j - x) mod mcols img) * nch img + c)"
    if "i < nrows img" "j < ncols img" "c < nch img" for i j c
  proof -
    have "j * nch img + c < (j + 1) * nch img" using that(3) by simp
    also have "\<dots> \<le> rowlen img" unfolding rowlen_def using that(2) by (intro mult_le_mono1) simp
    finally have "j * nch img + c < rowlen img" .
    then show ?thesis using that assms(5,6) by (simp add: shift_img_at torus_def nrows_def ncols_def)
  qed
  from circularShift_value[OF assms] show ?thesis using e by metis
qed

theorem circularShift_rotates_witness:
  "\<exists>v. circularShift plain_cv za zb 1 (- 3) small_world = Inr ((), v)
    \<and> img_at (value_of v zb) 0 0 = img_at (value_of small_world za) 1 2"
proof -
  have "shift_lib plain_cv" using plain_rois plain_copies by (simp add: shift_lib_def)
  moreover have "buf_of za \<noteq> buf_of zb" "mtype za = mtype zb" "mrows za = mrows zb" "mcols za = mcols zb"
    "mrows za = 2" "mcols za = 2" "nch za = 2" "nrows za = 2" "ncols za = 2" by (simp_all add: samples)
  ultimately obtain v where "circularShift plain_cv za zb 1 (- 3) small_world = Inr ((), v)"
    "\<forall>i < nrows za. \<forall>j < ncols za. \<forall>c < nch za. img_at (value_of v zb) i (j * nch za + c)
        = img_at (value_of small_world za) (nat ((int i - (- 3)) mod mrows za)) (nat ((int j - 1) mod mcols za) * nch za + c)"
    using circularShift_rotates[where cv = plain_cv and img = za and x = 1 and y = "- 3" and w = small_world and result = zb] by auto
  then show ?thesis using \<open>nrows za = 2\<close> \<open>ncols za = 2\<close> \<open>nch za = 2\<close> \<open>mrows za = 2\<close> \<open>mcols za = 2\<close>
    by (auto dest!: spec[of _ 0])
qed

text \<open>
  C5. \<open>ifftShift\<close> undoes \<open>fftShift\<close> on every square image of at least two rows, of even or odd size,
  in place as the code calls them: the result has the value of the input, and the input is untouched.
\<close>

theorem ifftShift_undoes_fftShift:
  assumes "zeros_law cv" "copies_lib cv" and "square w m"
  shows "\<exists>o1 w1 o2 w2. fftShift cv m m w = Inr (o1, w1) \<and> ifftShift cv o1 o1 w1 = Inr (o2, w2)
    \<and> value_of w2 o2 = value_of w m \<and> value_of w2 m = value_of w m"
  using ifftShift_fftShift[OF assms] .

theorem ifftShift_undoes_fftShift_witness:
  "\<exists>o1 w1 o2 w2. fftShift plain_cv za za small_world = Inr (o1, w1) \<and> ifftShift plain_cv o1 o1 w1 = Inr (o2, w2)
    \<and> value_of w2 o2 = value_of small_world za \<and> value_of w2 za = value_of small_world za"
  using ifftShift_undoes_fftShift[of plain_cv small_world za] by simp

text \<open>
  \<open>fftShift\<close> on its own result is not the identity for odd sizes: it turns the image by one pixel
  in both directions.
\<close>

theorem fftShift_is_no_involution:
  assumes "zeros_law cv" "copies_lib cv" and "square w m" and "odd (mcols m)"
  shows "\<exists>o1 w1 o2 w2. fftShift cv m m w = Inr (o1, w1) \<and> fftShift cv o1 o1 w1 = Inr (o2, w2)
    \<and> value_of w2 o2 = shift_img 1 1 (value_of w m)"
  using fftShift_twice[OF assms] .

theorem fftShift_is_no_involution_witness:
  "\<exists>o1 w1 o2 w2. fftShift plain_cv zo zo small_world = Inr (o1, w1) \<and> fftShift plain_cv o1 o1 w1 = Inr (o2, w2)
    \<and> value_of w2 o2 = shift_img 1 1 (value_of small_world zo)"
proof -
  have "mcols zo = 3" by (simp add: samples)
  then show ?thesis using fftShift_is_no_involution[of plain_cv small_world zo] by simp
qed

text \<open>
  \<open>fftShift\<close> and \<open>ifftShift\<close> of an image that is not square, called in place or with an empty
  output, always end in an OpenCV exception: the new image has its sides exchanged, and the
  quadrants do not fit.
\<close>

theorem shifts_reject_non_square:
  assumes "zeros_law cv" "roi_law cv" "roi_reject_law cv"
    and "hdr_ok w input" "2 \<le> mrows input" "2 \<le> mcols input" "mrows input \<noteq> mcols input"
    and "mdata input = mdata output \<or> empty output"
  shows "fftShift cv input output w = Inl CvException \<and> ifftShift cv input output w = Inl CvException"
  using shift_half_not_square[OF assms(1-3) ceil_half_proper assms(4-8)]
    shift_half_not_square[OF assms(1-3) floor_half_proper assms(4-8)]
  by (simp add: fftShift_def ifftShift_def)

theorem shifts_reject_non_square_witness:
  "fftShift plain_cv zw zw small_world = Inl CvException \<and> ifftShift plain_cv zw zw small_world = Inl CvException"
proof -
  have "mrows zw = 2" "mcols zw = 3" by (simp_all add: samples)
  then show ?thesis using shifts_reject_non_square[of plain_cv small_world zw zw] by simp
qed

section \<open>Propagation\<close>

text \<open>
  C6. \<open>fresnelProp\<close> of a square field whose size needs no padding is, on values: the transform, a half
  turn, the product with the Fresnel kernel of the sampling steps 1/(n ps), a half turn, and the
  scaled inverse transform; it never fails and changes no other image.
\<close>

theorem fresnelProp_pipeline:
  assumes "fresnel_lib cv" and "fft_ready cv w input" and "out_ok w output"
  shows "\<exists>x y o_i w'. lib_dft cv (value_of w input) DFT_COMPLEX_OUTPUT = Inr x
    \<and> lib_dft cv (half_turn (times (half_turn x) (prop_kernel lm input zDist lambda ps_eff)))
        (DFT_INVERSE OR DFT_COMPLEX_OUTPUT OR DFT_SCALE) = Inr y
    \<and> fresnelProp cv lm input output zDist lambda ps_eff w = Inr (o_i, w') \<and> stored w output y o_i w'"
  using fresnelProp_value[OF assms] .

theorem fresnelProp_pipeline_witness:
  "\<exists>o_i w'. fresnelProp plain_cv plain_libm za zb (Fin 1) (Fin 1) (Fin 1) small_world = Inr (o_i, w')
    \<and> value_of w' o_i = half_turn (times (half_turn (value_of small_world za)) (prop_kernel plain_libm za (Fin 1) (Fin 1) (Fin 1)))"
proof -
  have "out_ok small_world zb" by (simp add: out_ok_def)
  moreover have "lib_dft plain_cv v f = Inr v" for v f by (simp add: plain_cv_def)
  ultimately show ?thesis
    using fresnelProp_pipeline[of plain_cv small_world za zb plain_libm "Fin 1" "Fin 1" "Fin 1"] by (auto simp: stored_def)
qed

text \<open>
  With a kernel of ones (no propagation) the field \<open>fresnelProp\<close> transforms back is the transform
  itself when the size is even, and the transform turned by one pixel when it is odd: \<open>fftShift\<close>
  stands where its inverse is needed.
\<close>

theorem fresnelProp_without_propagation:
  assumes "fresnel_lib cv" and "fft_ready cv w input" and "out_ok w output"
    and "\<And>i j. prop_kernel lm input zDist lambda ps_eff i j = (Fin 1, Fin 0)"
    and "\<And>x. lib_dft cv (value_of w input) DFT_COMPLEX_OUTPUT = Inr x \<Longrightarrow> finite_img x"
  shows "\<exists>x y o_i w'. lib_dft cv (value_of w input) DFT_COMPLEX_OUTPUT = Inr x
    \<and> lib_dft cv (shift_img (mcols input mod 2) (mcols input mod 2) x) (DFT_INVERSE OR DFT_COMPLEX_OUTPUT OR DFT_SCALE) = Inr y
    \<and> fresnelProp cv lm input output zDist lambda ps_eff w = Inr (o_i, w') \<and> value_of w' o_i = y"
  using fresnelProp_unit_kernel[OF assms] .

lemma plain_kernel: "prop_kernel plain_libm m z l p i j = (Fin 1, Fin 0)"
proof -
  have "rnd binary64 1 = Fin 1" "rnd binary64 0 = Fin 0" using dbl.rnd_of_int[of 1] dbl.rnd_of_int[of 0] by simp_all
  then show ?thesis
    by (simp add: prop_kernel_def kernel_pixel_def fresnel_value_def plain_libm_def) (subst cx_mul_plain, simp_all)
qed

lemma zo_finite: "finite_img (value_of small_world zo)"
proof -
  have "representable binary64 1" using representable_of_int[of 1] by simp
  moreover have "i < 3 \<Longrightarrow> k < 6 \<Longrightarrow> 6 * i + k < (18 :: nat)" for i k by linarith
  ultimately show ?thesis
    by (simp add: finite_img_def samples img_at_value_of cell_def) (simp add: small_world_def nth_Cons')
qed

theorem fresnelProp_without_propagation_witness:
  "\<exists>o_i w'. fresnelProp plain_cv plain_libm zo mat_default (Fin 0) (Fin 1) (Fin 1) small_world = Inr (o_i, w')
    \<and> value_of w' o_i = shift_img 1 1 (value_of small_world zo)"
proof -
  have "lib_dft plain_cv v f = Inr v" for v f by (simp add: plain_cv_def)
  moreover have "mcols zo = 3" by (simp add: samples)
  ultimately show ?thesis using plain_kernel zo_finite
      fresnelProp_without_propagation[of plain_cv small_world zo mat_default plain_libm "Fin 0" "Fin 1" "Fin 1"] by simp
qed

section \<open>Arithmetic on complex images\<close>

text \<open>
  C9. \<open>complexMultiply\<close> of two complex images to an output that shares no buffer with them, given or
  not yet allocated, is the product of the pixels, (ac - bd, ad + bc) with every operation rounded,
  whether or not the two operands are one image; nothing else changes.
\<close>

theorem complexMultiply_multiplies:
  assumes "zeros_law cv" and "cmat w m1" and "out_fits w m1 output" and "buf_of m1 \<noteq> buf_of output"
    and "operand w m1 output m2"
  shows "\<exists>o_i w'. complexMultiply cv m1 m2 output w = Inr (o_i, w')
    \<and> leaves w output (cimage (nrows m1) (ncols m1)
        (\<lambda>i j. cmul (cpix (value_of w m1) i j) (cpix (value_of w m2) i j))) o_i w'"
  using complexMultiply_value[OF assms] .

lemma default_empty: "buf_of mat_default = None" "mdata mat_default = None"
  by (simp_all add: mat_default_def buf_of_def)

lemma sample_operands: "operand small_world za mat_default zb" "out_fits small_world za mat_default" "buf_of za \<noteq> buf_of mat_default"
    "operand small_world za za zb" "buf_of za \<noteq> buf_of zb" "out_fits small_world za zb"
    "out_fits small_world za za" "\<not> empty zb" "mdata mat_default = None" "nrows za = 2" "ncols za = 2"
  by (simp_all add: operand_def out_fits_def) (simp_all add: samples default_empty, simp add: empty_def total_def flat_mat_def)

theorem complexMultiply_multiplies_witness:
  "\<exists>o_i w'. complexMultiply plain_cv za zb mat_default small_world = Inr (o_i, w')
    \<and> cpix (value_of w' o_i) 1 0 = cmul (cpix (value_of small_world za) 1 0) (cpix (value_of small_world zb) 1 0)"
  using complexMultiply_multiplies[of plain_cv small_world za mat_default zb] sample_operands by (auto simp: leaves_def)

text \<open>
  With the first operand as output \<open>complexMultiply\<close> reads the real part it has just stored: the
  imaginary part becomes (ac - bd) d + bc, which for the pixels (1, 1) and (1, 1) is 1 instead of 2.
\<close>

theorem complexMultiply_spoils_its_operand:
  assumes "zeros_law cv" and "cmat w m1" and "operand w m1 m1 m2"
  shows "\<exists>o_i w'. complexMultiply cv m1 m2 m1 w = Inr (o_i, w')
    \<and> (\<forall>i < nrows m1. \<forall>j < ncols m1. cpix (value_of w' o_i) i j
        = cmul_in_place (cpix (value_of w m1) i j) (cpix (value_of w m2) i j)
      \<and> (cpix (value_of w m1) i j = (Fin 1, Fin 1) \<longrightarrow> cpix (value_of w m2) i j = (Fin 1, Fin 1) \<longrightarrow>
          cpix (value_of w' o_i) i j = (Fin 0, Fin 1)))"
proof -
  have "rnd binary64 1 = Fin 1" "rnd binary64 0 = Fin 0" using dbl.rnd_of_int[of 1] dbl.rnd_of_int[of 0] by simp_all
  then have "cmul_in_place (Fin 1, Fin 1) (Fin 1, Fin 1) = (Fin 0, Fin 1)" by (simp add: cmul_in_place_def cmul_def)
  then show ?thesis using complexMultiply_in_place[OF assms] by (fastforce simp: leaves_def)
qed

theorem complexMultiply_spoils_its_operand_witness:
  "\<exists>o_i w'. complexMultiply plain_cv za zb za small_world = Inr (o_i, w')
    \<and> cpix (value_of w' o_i) 0 0 = cmul_in_place (cpix (value_of small_world za) 0 0) (cpix (value_of small_world zb) 0 0)"
  using complexMultiply_spoils_its_operand[of plain_cv small_world za zb] sample_operands by auto

text \<open>
  \<open>complexDivide\<close> to an output that shares no buffer with the operands is the quotient of the
  pixels, ((ac + bd) / (c^2 + d^2), (bc - ad) / (c^2 + d^2)), every operation rounded; a zero divisor
  gives NaN or infinities, never an error.
\<close>

theorem complexDivide_divides:
  assumes "zeros_law cv" and "cmat w m1" and "out_fits w m1 output" and "buf_of m1 \<noteq> buf_of output"
    and "operand w m1 output m2"
  shows "\<exists>o_i w'. complexDivide cv m1 m2 output w = Inr (o_i, w')
    \<and> leaves w output (cimage (nrows m1) (ncols m1)
        (\<lambda>i j. cdiv (cpix (value_of w m1) i j) (cpix (value_of w m2) i j))) o_i w'"
  using complexDivide_value[OF assms] .

theorem complexDivide_divides_witness:
  "\<exists>o_i w'. complexDivide plain_cv za zb mat_default small_world = Inr (o_i, w')
    \<and> cpix (value_of w' o_i) 1 0 = cdiv (cpix (value_of small_world za) 1 0) (cpix (value_of small_world zb) 1 0)"
  using complexDivide_divides[of plain_cv small_world za mat_default zb] sample_operands by (auto simp: leaves_def)

text \<open>
  \<open>complexConj\<close> twice in place gives back every image of doubles, infinities and NaN included.
\<close>

theorem complexConj_twice:
  assumes "zeros_law cv" and m: "cmat w m"
    and d: "\<And>i k. i < nrows m \<Longrightarrow> k < rowlen m \<Longrightarrow> fp_ok binary64 (img_at (value_of w m) i k)"
  shows "\<exists>o1 w1 o2 w2. complexConj cv m m w = Inr (o1, w1) \<and> complexConj cv o1 o1 w1 = Inr (o2, w2)
    \<and> value_of w2 o2 = value_of w m"
proof -
  let ?conj = "\<lambda>v. cimage (nrows m) (ncols m) (\<lambda>i j. cconj (cpix v i j))"
  obtain o1 w1 where 1: "complexConj cv m m w = Inr (o1, w1)" "value_of w1 o1 = ?conj (value_of w m)" "hdr_ok w1 o1"
    using complexConj_in_place[OF assms(1) m] by (auto simp: leaves_def)
  have o1: "cmat w1 o1" "nrows o1 = nrows m" "ncols o1 = ncols m" using value_of_eqD[OF 1(2)] 1(3) by (simp_all add: cmat_def)
  obtain o2 w2 where 2: "complexConj cv o1 o1 w1 = Inr (o2, w2)" "value_of w2 o2 = ?conj (value_of w1 o1)"
    using complexConj_in_place[OF assms(1) o1(1)] o1(2,3) by (auto simp: leaves_def)
  have neg: "dmul (Fin (- 1)) (dmul (Fin (- 1)) x) = x" if "fp_ok binary64 x" for x
    using that by (cases x) (simp_all add: representable_def dbl.rnd_neg)
  have "cconj (cconj (cpix (value_of w m) i j)) = cpix (value_of w m) i j" if "i < nrows m" "j < ncols m" for i j
    using that d[of i "2 * j + 1"] neg cmat_facts[OF m] by (simp add: cconj_def cpix_def)
  then have "?conj (value_of w1 o1) = cimage (nrows m) (ncols m) (cpix (value_of w m))"
    unfolding 1(2) by (intro cimage_cong) simp
  also have "\<dots> = value_of w m" using cimage_cpix[OF value_of_ok, of w m] cmat_facts[OF m] by simp
  finally show ?thesis using 1(1) 2 by auto
qed

theorem complexConj_twice_witness:
  "\<exists>o1 w1 o2 w2. complexConj plain_cv zo zo small_world = Inr (o1, w1) \<and> complexConj plain_cv o1 o1 w1 = Inr (o2, w2)
    \<and> value_of w2 o2 = value_of small_world zo"
proof -
  have sz: "nrows zo = 3" "rowlen zo = 6" by (simp_all add: samples)
  have "fp_ok binary64 (img_at (value_of small_world zo) i k)" if "i < nrows zo" "k < rowlen zo" for i k
  proof -
    have "irows (value_of small_world zo) = 3" "irowlen (value_of small_world zo) = 6" using sz by simp_all
    then have "\<exists>a. img_at (value_of small_world zo) i k = Fin a \<and> representable binary64 a"
      using zo_finite that sz unfolding finite_img_def by metis
    then show ?thesis by auto
  qed
  then show ?thesis using complexConj_twice[of plain_cv small_world zo] by simp
qed

text \<open>
  \<open>complexScalarMultiply\<close> to an empty output succeeds and does nothing a caller can see: the
  output is passed by value, and the buffer made for it is lost.
\<close>

theorem complexScalarMultiply_loses_its_result:
  assumes "zeros_law cv" and "cmat w m" and "mdata output = None"
  shows "\<exists>w'. complexScalarMultiply cv s m output w = Inr ((), w')
    \<and> (\<forall>x. hdr_ok w x \<longrightarrow> value_of w' x = value_of w x)"
  using complexScalarMultiply_lost[OF assms] .

theorem complexScalarMultiply_loses_its_result_witness:
  "\<exists>w'. complexScalarMultiply plain_cv (Fin 2) za mat_default small_world = Inr ((), w')
    \<and> value_of w' za = value_of small_world za"
  using complexScalarMultiply_loses_its_result[of plain_cv small_world za mat_default "Fin 2"] sample_operands by auto

text \<open>
  To an output that has its buffer \<open>complexScalarMultiply\<close> writes both channels times the scalar.
\<close>

theorem complexScalarMultiply_scales:
  assumes "zeros_law cv" and "cmat w m" and "out_fits w m output" and "\<not> empty output" and "buf_of m \<noteq> buf_of output"
  shows "\<exists>w'. complexScalarMultiply cv s m output w = Inr ((), w')
    \<and> leaves w output (cimage (nrows m) (ncols m) (\<lambda>i j. cscale s (cpix (value_of w m) i j))) output w'"
  using complexScalarMultiply_value[OF assms] .

theorem complexScalarMultiply_scales_witness:
  "\<exists>w'. complexScalarMultiply plain_cv (Fin 2) za zb small_world = Inr ((), w')
    \<and> cpix (value_of w' zb) 0 1 = cscale (Fin 2) (cpix (value_of small_world za) 0 1)"
  using complexScalarMultiply_scales[of plain_cv small_world za zb "Fin 2"] sample_operands by (auto simp: leaves_def)

text \<open>
  \<open>complexInverse\<close> takes only its size from the first operand, and the pixel (c, d) of the second
  becomes ((c + d) / (c^2 + d^2), (c - d) / (c^2 + d^2)): for the pixel (1, 0), whose inverse is
  itself, that is (1, 1).
\<close>

theorem complexInverse_is_no_inverse:
  assumes "zeros_law cv" and "cmat w m1" and "out_fits w m1 output" and "operand w m1 output m2"
  shows "\<exists>o_i w'. complexInverse cv m1 m2 output w = Inr (o_i, w')
    \<and> leaves w output (cimage (nrows m1) (ncols m1) (\<lambda>i j. cinverse (cpix (value_of w m2) i j))) o_i w'
    \<and> (\<forall>i < nrows m1. \<forall>j < ncols m1. cpix (value_of w m2) i j = (Fin 1, Fin 0) \<longrightarrow>
         cpix (value_of w' o_i) i j = (Fin 1, Fin 1))"
proof -
  have "rnd binary64 1 = Fin 1" "rnd binary64 0 = Fin 0" using dbl.rnd_of_int[of 1] dbl.rnd_of_int[of 0] by simp_all
  then have "cinverse (Fin 1, Fin 0) = (Fin 1, Fin 1)" by (simp add: cinverse_def cnorm2_def)
  then show ?thesis using complexInverse_value[OF assms] by (fastforce simp: leaves_def)
qed

theorem complexInverse_is_no_inverse_witness:
  "\<exists>o_i w'. complexInverse plain_cv za zb za small_world = Inr (o_i, w')
    \<and> cpix (value_of w' o_i) 1 1 = cinverse (cpix (value_of small_world zb) 1 1)"
  using complexInverse_is_no_inverse[of plain_cv small_world za za zb] sample_operands by (fastforce simp: leaves_def)

text \<open>
  \<open>complexAbs\<close> stores the square root of the sum of the squares as the real part and 0 as the
  imaginary part of every pixel.
\<close>

theorem complexAbs_takes_moduli:
  assumes "zeros_law cv" and "cmat w m" and "out_fits w m output" and "buf_of m \<noteq> buf_of output"
  shows "\<exists>o_i w'. complexAbs cv m output w = Inr (o_i, w')
    \<and> leaves w output (cimage (nrows m) (ncols m) (\<lambda>i j. cabs (cpix (value_of w m) i j))) o_i w'"
  using complexAbs_value[OF assms] .

theorem complexAbs_takes_moduli_witness:
  "\<exists>o_i w'. complexAbs plain_cv za mat_default small_world = Inr (o_i, w')
    \<and> cpix (value_of w' o_i) 0 0 = cabs (cpix (value_of small_world za) 0 0)"
  using complexAbs_takes_moduli[of plain_cv small_world za mat_default] sample_operands by (auto simp: leaves_def)

section \<open>Channels, transforms and display\<close>

text \<open>
  \<open>complex_create\<close> of two real images of one size makes the complex image whose channels are the
  two images: splitting it gives both values back.
\<close>

theorem complex_create_splits_back:
  assumes "channel_lib cv" and "real_pair w a b"
  shows "\<exists>z w1 ps w2. complex_create cv a b mat_default w = Inr (z, w1) \<and> split2 cv z w1 = Inr (ps, w2)
    \<and> value_of w2 (ps ! 0) = value_of w a \<and> value_of w2 (ps ! 1) = value_of w b"
  using complex_create_split[OF assms] .

theorem complex_create_splits_back_witness:
  "\<exists>z w1 ps w2. complex_create plain_cv ra ra mat_default small_world = Inr (z, w1) \<and> split2 plain_cv z w1 = Inr (ps, w2)
    \<and> value_of w2 (ps ! 0) = value_of small_world ra"
proof -
  have "real_pair small_world ra ra" by (simp add: real_pair_def) (simp add: samples)
  then show ?thesis using complex_create_splits_back[of plain_cv small_world ra ra] by auto
qed

text \<open>
  \<open>getMagnitude\<close> of a two-channel image stores the library's magnitude of its channels 0 and 1 in
  the output; for any other number of channels it prints an error and leaves the output as it is.
\<close>

theorem getMagnitude_on_both_branches:
  assumes "channel_lib cv" and "has_pixels w input" and "out_ok w output"
    and "lib_magnitude cv (chan_img (value_of w input) 0) (chan_img (value_of w input) 1) = Inr x" and "img_ok x"
  shows "if channels input = 2
    then \<exists>o_i w'. getMagnitude cv input output w = Inr (o_i, w') \<and> stored w output x o_i w'
    else getMagnitude cv input output w = Inr (output, w\<lparr>messages := messages w @ [not_complex]\<rparr>)"
proof (cases "channels input = 2")
  case True
  then show ?thesis using getMagnitude_value[OF assms(1,2) True assms(3-5)] by simp
next
  case False
  then show ?thesis by (simp add: getMagnitude_def tell_def thenA_def bindA_def)
qed

theorem getMagnitude_on_both_branches_witness:
  "\<exists>x o_i w'. getMagnitude plain_cv za mat_default small_world = Inr (o_i, w') \<and> value_of w' o_i = x
    \<and> lib_magnitude plain_cv (chan_img (value_of small_world za) 0) (chan_img (value_of small_world za) 1) = Inr x"
proof -
  have "\<exists>x. lib_magnitude plain_cv (chan_img (value_of small_world za) 0) (chan_img (value_of small_world za) 1) = Inr x"
    by (simp add: plain_cv_def cell_wise2_def)
  then obtain x where x: "lib_magnitude plain_cv (chan_img (value_of small_world za) 0) (chan_img (value_of small_world za) 1) = Inr x" by blast
  then have "img_ok x" by (auto simp: plain_cv_def intro: cell_wise2_ok)
  moreover have "channels za = 2" by (simp add: samples)
  ultimately show ?thesis using x getMagnitude_on_both_branches[of plain_cv small_world za mat_default x] by (auto simp: stored_def)
qed

text \<open>
  \<open>realMean\<close> and \<open>imagMean\<close> of a two-channel image are the means of its channel 0 and of its
  channel 1, and no image of the program changes.
\<close>

theorem means_of_the_channels:
  assumes "channel_lib cv" and "has_pixels w input" and "channels input = 2"
    and "lib_mean cv (chan_img (value_of w input) 0) = Inr s" and "lib_mean cv (chan_img (value_of w input) 1) = Inr t"
  shows "\<exists>w1 w2. realMean cv input w = Inr (fst s, w1) \<and> imagMean cv input w = Inr (fst t, w2)
    \<and> keeps w None w1 \<and> keeps w None w2"
  using channel_mean_ok[OF assms(1-3) _ assms(4)] channel_mean_ok[OF assms(1-3) _ assms(5)]
  by (simp add: realMean_def imagMean_def) blast

theorem means_of_the_channels_witness:
  "\<exists>w1 w2. realMean plain_cv za small_world = Inr (img_at (chan_img (value_of small_world za) 0) 0 0, w1)
    \<and> imagMean plain_cv za small_world = Inr (img_at (chan_img (value_of small_world za) 1) 0 0, w2)"
proof -
  have "channels za = 2" by (simp add: samples)
  moreover have mean: "lib_mean plain_cv v = Inr (img_at v 0 0, Fin 0, Fin 0, Fin 0)" for v by (simp add: plain_cv_def)
  ultimately show ?thesis using means_of_the_channels[of plain_cv small_world za, OF _ _ _ mean mean] by auto
qed

text \<open>
  The image \<open>complex_imwrite\<close> hands to \<open>imwrite\<close> has four channels, not three: the third plane it
  merges is made with the type of the complex input, so it has two channels itself.
\<close>

theorem complex_imwrite_writes_four_channels:
  assumes "channel_lib cv" and "has_pixels w m1" "mtype m1 = CV_64FC2"
  shows "\<exists>v w'. complex_imwrite cv fname m1 w = Inr ((), w') \<and> files w' = files w @ [(fname, v)] \<and> icn v = 4"
  using complex_imwrite_four_channels[OF assms] .

theorem complex_imwrite_writes_four_channels_witness:
  "\<exists>v w'. complex_imwrite plain_cv ''z.png'' za small_world = Inr ((), w') \<and> files w' = [(''z.png'', v)] \<and> icn v = 4"
proof -
  have "mtype za = CV_64FC2" "files small_world = []" by (simp_all add: samples small_world_def)
  then show ?thesis using complex_imwrite_writes_four_channels[of plain_cv small_world za "''z.png''"] by simp
qed

text \<open>
  \<open>fft2\<close> transforms the image with zeros appended below and to the right up to the optimal sizes;
  the result is complex and has the optimal sizes, not those of the input.
\<close>

theorem fft2_pads_and_transforms:
  assumes "fourier_lib cv" and "has_pixels w input" "mtype input = CV_64FC2" "nrows input \<le> 2 ^ 24" "ncols input \<le> 2 ^ 24"
    and "out_ok w output"
  shows "\<exists>x o_i w'. lib_dft cv (padded cv (value_of w input)) DFT_COMPLEX_OUTPUT = Inr x
    \<and> fft2 cv input output w = Inr (o_i, w') \<and> stored w output x o_i w' \<and> mtype o_i = CV_64FC2
    \<and> mrows o_i = lib_optDFTSize cv (mrows input) \<and> mcols o_i = lib_optDFTSize cv (mcols input)"
  using fft2_value[OF assms] .

theorem fft2_pads_and_transforms_witness:
  "\<exists>o_i w'. fft2 plain_cv za mat_default small_world = Inr (o_i, w') \<and> mtype o_i = CV_64FC2 \<and> mrows o_i = 2 \<and> mcols o_i = 2"
proof -
  have "mtype za = CV_64FC2" "nrows za = 2" "ncols za = 2" "mrows za = 2" "mcols za = 2" by (simp_all add: samples)
  then show ?thesis using fft2_pads_and_transforms[of plain_cv small_world za mat_default] by auto
qed

text \<open>
  \<open>genFresnelKernel\<close> fills an image of width by height pixels (sides exchanged) with the Fresnel
  phase at the centred frequencies: row i has the horizontal frequency (i - floor(width / 2)) du, column
  j the vertical one; it never fails and changes no image but the kernel.
\<close>

theorem genFresnelKernel_fills:
  assumes "channel_lib cv" and "0 < mrows input" "0 < mcols input" and "out_ok w kernelMat"
  shows "\<exists>o_i w'. genFresnelKernel cv lm input kernelMat zDist lambda du dv w = Inr (o_i, w')
    \<and> stored w kernelMat (cimage (ncols input) (nrows input) (kernel_pixel lm input zDist lambda du dv)) o_i w'"
  using genFresnelKernel_ok[OF assms] .

theorem genFresnelKernel_fills_witness:
  "\<exists>o_i w'. genFresnelKernel plain_cv plain_libm zw mat_default (Fin 1) (Fin 1) (Fin 1) (Fin 1) small_world = Inr (o_i, w')
    \<and> irows (value_of w' o_i) = 3 \<and> icols (value_of w' o_i) = 2"
proof -
  have "mrows zw = 2" "mcols zw = 3" "nrows zw = 2" "ncols zw = 3" by (simp_all add: samples)
  then show ?thesis
    using genFresnelKernel_fills[of plain_cv zw small_world mat_default plain_libm "Fin 1" "Fin 1" "Fin 1" "Fin 1"]
    by (fastforce simp: stored_def)
qed

text \<open>
  \<open>getAngleVector\<close> of an image in one piece gives its elements in the order of memory as one column,
  normalised with the limits 0 and 2 * 3.14, announces what it does, and leaves the image as it is.
\<close>

theorem getAngleVector_is_a_column:
  assumes "vector_lib cv" and "has_pixels w a" "mstep a = rowlen a" and "2 \<le> nrows a * rowlen a"
  shows "\<exists>z m w'. lib_normalize cv (col_img (CV_MAKETYPE (mtype a) 1) (elems (value_of w a))) (Fin 0)
        (dmul (Fin 2) (rat_lit (314 / 100))) = Inr z
    \<and> getAngleVector cv a w = Inr (m, w') \<and> value_of w' m = z \<and> irows z = nrows a * rowlen a \<and> icols z = 1
    \<and> value_of w' a = value_of w a \<and> messages w' = messages w @ angle_notes (reshaped a 1)"
  using getAngleVector_value[OF assms] .

theorem getAngleVector_is_a_column_witness:
  "\<exists>m w'. getAngleVector plain_cv ra small_world = Inr (m, w') \<and> irows (value_of w' m) = 4 \<and> icols (value_of w' m) = 1"
proof -
  have "mstep ra = rowlen ra" "nrows ra = 2" "rowlen ra = 2" by (simp_all add: samples)
  then show ?thesis using getAngleVector_is_a_column[of plain_cv small_world ra] by auto
qed

text \<open>
  C10. Whatever the sequence of \<open>setColorMap\<close>, \<open>showImg\<close> and \<open>showComplexImg\<close> calls, with whatever
  arguments, the global colour map is \<open>COLORMAP_NONE\<close> or one of the twelve maps of OpenCV.
\<close>

theorem colour_map_stays_valid:
  assumes "display cv w"
  shows "gv_cMap w = COLORMAP_NONE \<or> (CMAP_MIN \<le> gv_cMap w \<and> gv_cMap w \<le> CMAP_MAX)"
  using display_valid[OF assms] by (simp add: valid_cmap_def)

theorem colour_map_stays_valid_witness:
  "\<exists>w1 w2. setColorMap 5 small_world = Inr ((), w1) \<and> setColorMap 12 w1 = Inr ((), w2) \<and> gv_cMap w2 = 5
    \<and> (gv_cMap w2 = COLORMAP_NONE \<or> (CMAP_MIN \<le> gv_cMap w2 \<and> gv_cMap w2 \<le> CMAP_MAX))"
proof -
  obtain w1 where w1: "setColorMap 5 small_world = Inr ((), w1)" "gv_cMap w1 = 5"
    using setColorMap_total[of 5 small_world] by (auto simp: CMAP_MIN_def CMAP_MAX_def)
  obtain w2 where w2: "setColorMap 12 w1 = Inr ((), w2)" "gv_cMap w2 = 5"
    using setColorMap_total[of 12 w1] w1 by (auto simp: CMAP_MIN_def CMAP_MAX_def)
  have "display plain_cv small_world" by (rule display.start) (simp add: small_world_def)
  then have "display plain_cv w2" using display.set_map w1(1) w2(1) by metis
  from colour_map_stays_valid[OF this] show ?thesis using w1(1) w2 by blast
qed

text \<open>
  So \<open>showImg\<close> never asks \<open>applyColorMap\<close> for a map it does not know: a library that rejects all
  other maps gives the same run.
\<close>

theorem showImg_uses_known_maps:
  assumes "display cv w"
  shows "showImg (known_maps_only cv) m t w = showImg cv m t w"
  using showImg_known_maps[OF assms] .

theorem showImg_uses_known_maps_witness:
  "showImg (known_maps_only plain_cv) ra ''image'' small_world = showImg plain_cv ra ''image'' small_world"
proof -
  have "display plain_cv small_world" by (rule display.start) (simp add: small_world_def)
  then show ?thesis by (rule showImg_uses_known_maps)
qed

section \<open>The network\<close>

text \<open>
  C11. Whatever graphs a program tries to load, the global flag is set exactly when the session holds a
  graph that TensorFlow accepted; before that a session, if there is one, is empty.
\<close>

theorem flag_means_loaded:
  assumes "loads lib st"
  shows "g_compute_graph_initialized st \<longleftrightarrow> (\<exists>g. session st = Some (Some g) \<and> tf_create lib g)"
  using loads_ready[OF assms] by (simp add: ready_def)

text \<open>A library with one acceptable graph, in the file ''good''; every other file holds a bad one.\<close>

definition picky_net :: "(unit, bool) tf_lib" where
  "picky_net = \<lparr>assets = \<lparr>file_bytes = (\<lambda>f. Some (if f = ''good'' then [1] else [0])), has_manager = False,
     asset_bytes = (\<lambda>_. None), open_fd = (\<lambda>_. None), fd_bytes = (\<lambda>_. []), parse_msg = (\<lambda>bs. Some (bs = [1]))\<rparr>,
     tf_create = (\<lambda>g. g), tf_run = (\<lambda>_ _ _. (True, []))\<rparr>"

lemma picky_reads: "ReadFileToProtoOrDie (assets picky_net) ''good'' = Inr True"
    "ReadFileToProtoOrDie (assets picky_net) ''bad'' = Inr False"
  by (simp_all add: ReadFile_plain ASSET_PREFIX_def picky_net_def TOTAL_LIMIT_def check_msg_def)

lemma picky_create [simp]: "tf_create picky_net g = g"
  by (simp add: picky_net_def)

theorem flag_means_loaded_witness:
  "\<exists>st. init picky_net ''good'' start_state = Inr (0, st)
    \<and> g_compute_graph_initialized st \<and> (\<exists>g. session st = Some (Some g) \<and> tf_create picky_net g)"
proof -
  obtain st where st: "init picky_net ''good'' start_state = Inr (0, st)" "g_compute_graph_initialized st"
    using picky_reads(1) by (simp add: init_def start_state_def Let_def)
  then have "loads picky_net st" using loads.start loads.call by metis
  from flag_means_loaded[OF this] show ?thesis using st by blast
qed

text \<open>
  A call of \<open>init\<close> that TensorFlow rejected (result -1) leaves the program able to load another
  model, and once one is loaded every later call returns 0 and changes nothing, whatever its argument.
\<close>

theorem init_can_be_repeated:
  assumes "init lib bad st = Inr (- 1, st')" and "ReadFileToProtoOrDie (assets lib) good = Inr g" and "tf_create lib g"
  shows "\<exists>st''. init lib good st' = Inr (0, st'') \<and> session st'' = Some (Some g) \<and> (\<forall>model. init lib model st'' = Inr (0, st''))"
  using init_retry[OF assms] by (simp add: init_idempotent)

theorem init_can_be_repeated_witness:
  "\<exists>st' st''. init picky_net ''bad'' start_state = Inr (- 1, st') \<and> init picky_net ''good'' st' = Inr (0, st'')
    \<and> session st'' = Some (Some True)"
proof -
  obtain st' where "init picky_net ''bad'' start_state = Inr (- 1, st')"
    using picky_reads(2) by (simp add: init_def start_state_def Let_def)
  then show ?thesis using init_can_be_repeated[of picky_net "''bad''" start_state st' "''good''" True] picky_reads(1) by auto
qed

text \<open>
  C12. With a graph loaded, \<open>process\<close> feeds the network the first 4096 elements of the first column
  (NaN as 0, rounded to float), and returns a row of its first 48 results, each less their minimum and
  divided by their maximum; no image of the program changes.
\<close>

theorem process_normalises_results:
  assumes "zeros_law cv" and "network_input w m"
    and "tf_run lib graph [(''input'', tensor_of w m)] [''output''] = (ok, xs # rest)" and "NUM_OUTPUT \<le> length xs"
  shows "\<exists>o_i w'. process cv lib (Some graph) m w = Inr (o_i, w') \<and> hdr_ok w' o_i
    \<and> value_of w' o_i = \<lparr>itype = CV_64F, irows = 1, icols = NUM_OUTPUT, idata = [normalized (take NUM_OUTPUT xs)]\<rparr>
    \<and> (\<forall>y. hdr_ok w y \<longrightarrow> value_of w' y = value_of w y)"
  using process_value[OF assms] .

definition column_world :: world where
  "column_world = \<lparr>bufs = [replicate 4096 (Fin 1)], messages = [], gv_cMap = COLORMAP_NONE, shown = [], files = []\<rparr>"

definition column_mat :: mat where
  "column_mat = flat_mat CV_64FC1 4096 1 0"

lemma column_input: "network_input column_world column_mat"
  by (simp add: network_input_def column_mat_def column_world_def hdr_ok_def NUM_INPUT_def)

theorem process_normalises_results_witness:
  "\<exists>o_i w'. process plain_cv zero_net (Some (Some ())) column_mat column_world = Inr (o_i, w')
    \<and> length (idata (value_of w' o_i) ! 0) = 48"
proof -
  have "tf_run zero_net (Some ()) [(''input'', tensor_of column_world column_mat)] [''output''] = (True, [replicate 48 (Fin 0)])"
    by (simp add: zero_net_def)
  from process_normalises_results[OF plain_zeros column_input this] show ?thesis
    by (fastforce simp: NUM_OUTPUT_def normalized_def)
qed

text \<open>
  The results are divided by their maximum, not by their range: a network that returns -2 once and
  -1 otherwise is stored as 0 and -1, outside the interval from 0 to 1.
\<close>

theorem process_leaves_the_unit_interval:
  assumes "zeros_law cv" and "network_input w m"
    and "\<And>v. tf_run lib graph [(''input'', v)] [''output''] = (True, [Fin (- 2) # replicate 47 (Fin (- 1))])"
  shows "\<exists>o_i w'. process cv lib (Some graph) m w = Inr (o_i, w')
    \<and> idata (value_of w' o_i) = [Fin 0 # replicate 47 (Fin (- 1))]"
proof -
  have "NUM_OUTPUT \<le> length (Fin (- 2) # replicate 47 (Fin (- 1)))"
    "take NUM_OUTPUT (Fin (- 2) # replicate 47 (Fin (- 1))) = Fin (- 2) # replicate 47 (Fin (- 1))"
    by (simp_all add: NUM_OUTPUT_def)
  then show ?thesis using process_value[OF assms(1,2) assms(3)] normalized_negative by fastforce
qed

definition negative_net :: "(unit, unit) tf_lib" where
  "negative_net = zero_net\<lparr>tf_run := \<lambda>_ _ _. (True, [Fin (- 2) # replicate 47 (Fin (- 1))])\<rparr>"

theorem process_leaves_the_unit_interval_witness:
  "\<exists>o_i w'. process plain_cv negative_net (Some (Some ())) column_mat column_world = Inr (o_i, w')
    \<and> idata (value_of w' o_i) = [Fin 0 # replicate 47 (Fin (- 1))]"
  by (rule process_leaves_the_unit_interval[OF plain_zeros column_input]) (simp add: negative_net_def)

text \<open>
  C13. \<open>getOptimizedParams\<close> before any \<open>init\<close> dereferences the null session; with a session whose run
  fails and returns no tensor (a session without a graph) it reads the first of no outputs. Neither is
  caught: both are errors after the input has been read.
\<close>

theorem getOptimizedParams_needs_a_session:
  assumes "mats s a = Some m" and "network_input (wld s) m"
    and "session (tf s) = None \<or> (\<exists>graph. session (tf s) = Some graph
      \<and> (\<forall>v. snd (tf_run lib graph [(''input'', v)] [''output'']) = []))"
  shows "NativePart_getOptimizedParams cv lib a b s = Inl (if session (tf s) = None then NullData else OutOfBounds)"
proof -
  let ?w = "logged (wld s) [Said ''*********start Illparameter**********'', MatInfo (mcols m) (mrows m) (depth m) (mtype m)]"
  have "network_input ?w m" using assms(2) by (simp add: network_input_def)
  then have "process cv lib (session (tf s)) m ?w = Inl (if session (tf s) = None then NullData else OutOfBounds)"
    using assms(3) process_no_session process_no_output by fastforce
  then show ?thesis using assms(1)
    by (auto simp: NativePart_getOptimizedParams_def log_line_run deref_def in_world_def printMat_def tell_def logged_def thenA_def bindA_def)
qed

theorem getOptimizedParams_needs_a_session_witness:
  "NativePart_getOptimizedParams plain_cv picky_net 1 2
    \<lparr>mats = [1 \<mapsto> column_mat, 2 \<mapsto> mat_default], wld = column_world, tf = start_state\<rparr> = Inl NullData
  \<and> NativePart_getOptimizedParams plain_cv picky_net 1 2
    \<lparr>mats = [1 \<mapsto> column_mat, 2 \<mapsto> mat_default], wld = column_world,
      tf = \<lparr>session = Some None, g_compute_graph_initialized = False\<rparr>\<rparr> = Inl OutOfBounds"
proof -
  let ?s = "\<lambda>t. \<lparr>mats = [1 \<mapsto> column_mat, 2 \<mapsto> mat_default], wld = column_world, tf = t\<rparr>"
  have "snd (tf_run picky_net g i o_i) = []" for g i o_i by (simp add: picky_net_def)
  then show ?thesis
    using getOptimizedParams_needs_a_session[of "?s start_state" 1 column_mat picky_net plain_cv 2]
      getOptimizedParams_needs_a_session[of "?s \<lparr>session = Some None, g_compute_graph_initialized = False\<rparr>" 1 column_mat picky_net plain_cv 2]
      column_input by (simp add: start_state_def)
qed

text \<open>
  A model given by an asset path is the message parsed from exactly the bytes of that asset,
  whether the package lets the asset be read through a file descriptor (from its offset, in a file
  of other contents) or only from memory.
\<close>

theorem assets_read_their_bytes:
  assumes "honest_assets lib" and "has_manager lib" and "asset_bytes lib f = Some bytes" and "parse_msg lib bytes = Some g"
    and "\<And>fd start len. open_fd lib f = Some (fd, start, len) \<Longrightarrow> start + len \<le> TOTAL_LIMIT"
  shows "IsAsset (ASSET_PREFIX @ f) \<and> ReadFileToProtoOrDie lib (ASSET_PREFIX @ f) = Inr g"
  using ReadFile_asset[OF assms] by (simp add: IsAsset_prefix)

definition package :: "(unit, nat list) asset_lib" where
  "package = \<lparr>file_bytes = (\<lambda>_. None), has_manager = True, asset_bytes = (\<lambda>f. Some [2, 3, 4]),
     open_fd = (\<lambda>f. Some ((), 2, 3)), fd_bytes = (\<lambda>_. [0, 1, 2, 3, 4, 5, 6]), parse_msg = Some\<rparr>"

theorem assets_read_their_bytes_witness:
  "ReadFileToProtoOrDie package ''file:///android_asset/graph.pb'' = Inr [2, 3, 4]"
proof -
  have "honest_assets package" by (simp add: honest_assets_def package_def)
  then show ?thesis
    using assets_read_their_bytes[of package "''graph.pb''" "[2, 3, 4]" "[2, 3, 4]"]
    by (simp add: package_def ASSET_PREFIX_def TOTAL_LIMIT_def)
qed

text \<open>
  On the 32-bit ABI the library is built for, \<open>CurrentWallTimeUs\<close> is the time in microseconds
  exactly up to 2^31 - 1, that is for the first 36 minutes of 1970; after that it is a wrapped value.
\<close>

theorem wall_clock_wraps:
  assumes "0 \<le> sint s" and "0 \<le> sint u" "sint u < 1000000"
  shows "sint (CurrentWallTimeUs s u) = sint s * 1000000 + sint u \<longleftrightarrow> sint s * 1000000 + sint u < 2 ^ 31"
  using CurrentWallTimeUs_exact[OF assms] .

theorem wall_clock_wraps_witness:
  "sint (CurrentWallTimeUs 2147 483647) = 2147483647 \<and> sint (CurrentWallTimeUs 1500000000 0) \<noteq> 1500000000000000"
  using wall_clock_wraps[of 2147 483647] wall_clock_wraps[of 1500000000 0] by simp

section \<open>Tables\<close>

text \<open>
  The LED tables are two ways of cutting one set of sixty LEDs in halves: left and right, top and
  bottom; no table has an LED twice.
\<close>

theorem led_tables_halve_one_set:
  "set leftList \<inter> set rightList = {} \<and> set topList \<inter> set bottomList = {}
    \<and> set leftList \<union> set rightList = set topList \<union> set bottomList
    \<and> distinct leftList \<and> distinct rightList \<and> distinct topList \<and> distinct bottomList
    \<and> length leftList = 30 \<and> length rightList = 30 \<and> length topList = 30 \<and> length bottomList = 30"
  using led_tables by (simp add: leftList_def rightList_def topList_def bottomList_def)

end
